(* ===== verification/Ion_Prelude.thy ===== *)
theory Ion_Prelude
  imports Main "HOL-Library.Word" "HOL-Library.Monad_Syntax"
begin

text \<open>
  Shared vocabulary of the development: machine integers, the treatment of \<open>JS_ASSERT\<close>,
  the monadic fold that models loops whose body may fail, and generic facts on bits of words.

  Conventions. \<open>uint32\<close>, \<open>int32\<close> and \<open>uint8\<close> of the code are words of that width (an
  \<open>int32\<close> is a \<open>32 word\<close> read with \<open>sint\<close>); sizes and indices that only count elements
  of a container are \<open>nat\<close>. An operation guarded by \<open>JS_ASSERT\<close> returns an \<open>option\<close>:
  \<open>None\<close> is the assertion failing, so "the operation returns \<open>Some\<close>" states that no
  assertion fires.
\<close>

unbundle bit_operations_syntax

type_synonym u8 = "8 word"
type_synonym u32 = "32 word"
type_synonym i32 = "32 word"

named_theorems ion_defs "definitions that component proofs unfold"

definition js_assert :: "bool \<Rightarrow> unit option" where
  "js_assert b = (if b then Some () else None)"

lemma js_assert_simps [simp]:
  "js_assert True = Some ()"
  "js_assert False = None"
  "(js_assert b = Some u) = b"
  "(js_assert b = None) = (\<not> b)"
  by (auto simp: js_assert_def)

lemma bind_js_assert [simp]: "(js_assert b \<bind> f) = (if b then f () else None)"
  by (simp add: js_assert_def)

subsection \<open>Loops whose body may fail\<close>

fun mfold :: "('a \<Rightarrow> 's \<Rightarrow> 's option) \<Rightarrow> 'a list \<Rightarrow> 's \<Rightarrow> 's option" where
  "mfold f [] s = Some s"
| "mfold f (x # xs) s = (case f x s of None \<Rightarrow> None | Some s' \<Rightarrow> mfold f xs s')"

lemma mfold_append:
  "mfold f (xs @ ys) s = (case mfold f xs s of None \<Rightarrow> None | Some s' \<Rightarrow> mfold f ys s')"
  by (induction xs arbitrary: s) (auto split: option.splits)

lemma mfold_cong [fundef_cong]:
  "xs = ys \<Longrightarrow> s = t \<Longrightarrow> (\<And>x u. x \<in> set ys \<Longrightarrow> f x u = g x u) \<Longrightarrow> mfold f xs s = mfold g ys t"
  by (induction xs arbitrary: ys s t) (auto split: option.splits)

lemma mfold_total:
  assumes "\<And>x s. x \<in> set xs \<Longrightarrow> I s \<Longrightarrow> \<exists>s'. f x s = Some s' \<and> I s'" and "I s"
  shows "\<exists>s'. mfold f xs s = Some s' \<and> I s'"
  using assms
proof (induction xs arbitrary: s)
  case Nil
  then show ?case by simp
next
  case (Cons x xs)
  obtain t where t: "f x s = Some t" "I t"
    using Cons.prems(1)[of x s] Cons.prems(2) by auto
  have "\<exists>s'. mfold f xs t = Some s' \<and> I s'"
    using Cons.IH[OF _ t(2)] Cons.prems(1) by (meson list.set_intros(2))
  with t show ?case by simp
qed

subsection \<open>Bits of words\<close>

lemma bit_word_exp [simp]: "bit ((2::'a::len word) ^ n) m \<longleftrightarrow> m = n \<and> n < LENGTH('a)"
  by (auto simp: bit_exp_iff)

lemma word_and_push_one:
  fixes w :: "'a::len word"
  assumes "n < LENGTH('a)"
  shows "w AND push_bit n 1 \<noteq> 0 \<longleftrightarrow> bit w n"
proof
  assume "w AND push_bit n 1 \<noteq> 0"
  then obtain m where "bit (w AND push_bit n 1) m"
    by (metis bit_eq_iff bit_0_eq bot_apply bot_bool_def)
  then show "bit w n" by (auto simp: bit_and_iff)
next
  assume "bit w n"
  with assms have "bit (w AND push_bit n 1) n" by (simp add: bit_and_iff)
  then show "w AND push_bit n 1 \<noteq> 0" by (metis bit_0_eq bot_apply bot_bool_def)
qed

lemma word_nonzero_bit: "(w::'a::len word) \<noteq> 0 \<longleftrightarrow> (\<exists>n<LENGTH('a). bit w n)"
  by (metis bit_0_eq bit_eq_iff bit_imp_le_length bot_apply bot_bool_def)

lemma drop_bit_zero_iff: "drop_bit k (w::'a::len word) = 0 \<longleftrightarrow> (\<forall>n\<ge>k. \<not> bit w n)"
proof -
  have "drop_bit k w = 0 \<longleftrightarrow> (\<forall>m. \<not> bit (drop_bit k w) m)"
    by (auto simp: bit_eq_iff dest: bit_imp_le_length)
  also have "\<dots> \<longleftrightarrow> (\<forall>m. \<not> bit w (k + m))" by (simp add: bit_drop_bit_eq)
  also have "\<dots> \<longleftrightarrow> (\<forall>n\<ge>k. \<not> bit w n)" by (metis le_add1 le_Suc_ex)
  finally show ?thesis .
qed

lemma unat_drop_bit_less: "(w::'a::len word) \<noteq> 0 \<Longrightarrow> 0 < k \<Longrightarrow> unat (drop_bit k w) < unat w"
  by (metis unat_gt_0 div_less_dividend drop_bit_eq_div one_less_numeral_iff one_less_power
      semiring_norm(76) unat_drop_bit_eq)

lemma drop_bit_zero_less: "drop_bit k (v::'a::len word) = 0 \<longleftrightarrow> unat v < 2 ^ k"
proof -
  have "drop_bit k v = 0 \<longleftrightarrow> unat (drop_bit k v) = 0" by (metis unat_eq_zero unat_0)
  also have "\<dots> \<longleftrightarrow> unat v < 2 ^ k"
    unfolding unat_drop_bit_eq drop_bit_eq_div[of k "unat v"] by (simp add: div_eq_0_iff)
  finally show ?thesis .
qed

lemma unat_u8_less: "unat (b::u8) < 256"
  using unsigned_less[of b, where ?'a = nat] by simp

lemma unat_ucast_u8 [simp]: "unat (ucast (b::u8) :: u32) = unat b"
  using unat_u8_less[of b] by (simp add: unsigned_ucast_eq take_bit_nat_eq_self)

lemma ucast_u8_le: "(ucast (b::u8) :: u32) \<le> 0xFF"
  using unat_u8_less[of b] by (simp add: word_le_nat_alt)

lemma ucast_u8_u32_u8 [simp]: "(ucast (ucast (b::u8) :: u32) :: u8) = b"
  by (rule ucast_up_ucast_id) (simp add: is_up)

lemma and_masks:
  "(v::u32) AND 0x7F = take_bit 7 v" "v AND 0x3F = take_bit 6 v" "v AND 0xFF = take_bit 8 v"
  by (simp_all add: take_bit_eq_mask mask_eq_exp_minus_1)

lemma greater_masks:
  "(0x7F::u32) < v \<longleftrightarrow> drop_bit 7 v \<noteq> 0" "(0x3F::u32) < v \<longleftrightarrow> drop_bit 6 v \<noteq> 0"
  unfolding drop_bit_zero_less by (auto simp: word_less_nat_alt not_less)

lemma unat_drop_bit_le: "unat (drop_bit k (w::'a::len word)) \<le> unat w"
proof -
  have "drop_bit k (unat w) \<le> unat w" by (simp add: drop_bit_eq_div)
  then show ?thesis by (simp add: unat_drop_bit_eq)
qed

text \<open>
  \<open>js_bitscan_ctz32\<close> and \<open>JS_FLOOR_LOG2\<close> are compiler intrinsics or macros that the
  sources use without defining them. They are parameters of the definitions that call them;
  these two predicates are their documented behaviour on a non-zero argument.
\<close>

definition is_ctz :: "(u32 \<Rightarrow> nat) \<Rightarrow> bool" where
  "is_ctz f \<longleftrightarrow> (\<forall>w. w \<noteq> 0 \<longrightarrow> bit w (f w) \<and> (\<forall>i<f w. \<not> bit w i))"

definition is_floor_log2 :: "(u32 \<Rightarrow> nat) \<Rightarrow> bool" where
  "is_floor_log2 f \<longleftrightarrow> (\<forall>w. w \<noteq> 0 \<longrightarrow> bit w (f w) \<and> (\<forall>i>f w. \<not> bit w i))"

text \<open>Concrete scanners with that behaviour, used where a property is applied.\<close>

definition ctz_scan :: "u32 \<Rightarrow> nat" where
  "ctz_scan w = length (takeWhile (\<lambda>i. \<not> bit w i) [0..<32])"

definition floor_log2_scan :: "u32 \<Rightarrow> nat" where
  "floor_log2_scan w = 31 - length (takeWhile (\<lambda>i. \<not> bit w i) (rev [0..<32]))"

lemma takeWhile_prefix_fails:
  assumes "\<exists>x\<in>set xs. \<not> P x"
  shows "length (takeWhile P xs) < length xs" "\<not> P (xs ! length (takeWhile P xs))"
    "\<And>i. i < length (takeWhile P xs) \<Longrightarrow> P (xs ! i)"
proof -
  have "takeWhile P xs \<noteq> xs" using assms by (metis set_takeWhileD)
  then show l: "length (takeWhile P xs) < length xs"
    by (metis append_eq_conv_conj le_neq_implies_less length_takeWhile_le take_all_iff
        takeWhile_dropWhile_id)
  then show "\<not> P (xs ! length (takeWhile P xs))" by (rule nth_length_takeWhile)
  show "\<And>i. i < length (takeWhile P xs) \<Longrightarrow> P (xs ! i)"
    by (metis nth_mem set_takeWhileD takeWhile_nth)
qed

lemma ctz_scan_is_ctz: "is_ctz ctz_scan"
  unfolding is_ctz_def
proof (intro allI impI)
  fix w :: u32 assume "w \<noteq> 0"
  then have ex: "\<exists>x\<in>set [0..<32]. \<not> \<not> bit w x"
    by (auto simp: word_nonzero_bit)
  note k = takeWhile_prefix_fails[OF ex]
  show "bit w (ctz_scan w) \<and> (\<forall>i<ctz_scan w. \<not> bit w i)"
    using k(1,2) k(3) by (auto simp: ctz_scan_def)
qed

lemma floor_log2_scan_is_floor_log2: "is_floor_log2 floor_log2_scan"
  unfolding is_floor_log2_def
proof (intro allI impI)
  fix w :: u32 assume "w \<noteq> 0"
  then have ex: "\<exists>x\<in>set (rev [0..<32]). \<not> \<not> bit w x"
    by (auto simp: word_nonzero_bit)
  define k where "k = length (takeWhile (\<lambda>i. \<not> bit w i) (rev [0..<32]))"
  note p = takeWhile_prefix_fails[OF ex, folded k_def]
  have nthr: "i < 32 \<Longrightarrow> rev [0..<32] ! i = 31 - i" for i :: nat
    by (simp add: rev_nth)
  have klt: "k < 32" using p(1) by simp
  have hi: "\<not> bit w i" if "31 - k < i" for i
  proof (cases "i < 32")
    case True
    with that have "31 - i < k" by linarith
    from p(3)[OF this] True show ?thesis by (simp add: nthr)
  next
    case False
    then show ?thesis using bit_imp_le_length[of w i] by auto
  qed
  show "bit w (floor_log2_scan w) \<and> (\<forall>i>floor_log2_scan w. \<not> bit w i)"
    using p(2) klt hi nthr[OF klt] by (simp add: floor_log2_scan_def k_def[symmetric])
qed

end
