(* ===== verification/Bit_Set.thy ===== *)
theory Bit_Set
  imports Ion_Prelude
begin

text \<open>
  \<open>ion/BitSet.h\<close> and \<open>ion/BitSet.cpp\<close>: sets of small integers packed in 32-bit words,
  used by the liveness analysis and by the safepoint encoder.

  The theory has the interface locale \<open>bounded_set\<close> (a set with a fixed maximum, whose
  operations assert their argument), the record and every operation of \<open>BitSet\<close> and of
  \<open>BitSet::Iterator\<close>, the refinement of each operation to the set it denotes, and the proof
  that the iterator enumerates exactly that set in increasing order.
\<close>

subsection \<open>The interface\<close>

text \<open>
  A provider of bounded sets: the abstraction \<open>\<alpha>\<close>, the representation invariant, the largest
  legal value, and the two asserting updates. The client lemmas treat a sequence of updates.
\<close>

locale bounded_set =
  fixes absset :: "'s \<Rightarrow> nat set"
    and inv :: "'s \<Rightarrow> bool"
    and limit :: "'s \<Rightarrow> nat"
    and ins :: "nat \<Rightarrow> 's \<Rightarrow> 's option"
    and del :: "nat \<Rightarrow> 's \<Rightarrow> 's option"
    and mem :: "nat \<Rightarrow> 's \<Rightarrow> bool option"
  assumes mem_law: "inv s \<Longrightarrow> x \<le> limit s \<Longrightarrow> mem x s = Some (x \<in> absset s)"
    and ins_law: "inv s \<Longrightarrow> x \<le> limit s \<Longrightarrow>
      \<exists>t. ins x s = Some t \<and> inv t \<and> limit t = limit s \<and> absset t = insert x (absset s)"
    and del_law: "inv s \<Longrightarrow> x \<le> limit s \<Longrightarrow>
      \<exists>t. del x s = Some t \<and> inv t \<and> limit t = limit s \<and> absset t = absset s - {x}"
begin

lemma insert_list:
  assumes "inv s" "\<forall>x\<in>set xs. x \<le> limit s"
  shows "\<exists>t. mfold ins xs s = Some t \<and> inv t \<and> limit t = limit s \<and> absset t = absset s \<union> set xs"
  using assms
proof (induction xs arbitrary: s)
  case Nil
  then show ?case by simp
next
  case (Cons x xs)
  obtain t where "ins x s = Some t" "inv t" "limit t = limit s" "absset t = insert x (absset s)"
    using ins_law[of s x] Cons.prems by auto
  moreover from this obtain u where "mfold ins xs t = Some u" "inv u" "limit u = limit t"
    "absset u = absset t \<union> set xs"
    using Cons.IH[of t] Cons.prems(2) by auto
  ultimately show ?case by auto
qed

lemma delete_list:
  assumes "inv s" "\<forall>x\<in>set xs. x \<le> limit s"
  shows "\<exists>t. mfold del xs s = Some t \<and> inv t \<and> limit t = limit s \<and> absset t = absset s - set xs"
  using assms
proof (induction xs arbitrary: s)
  case Nil
  then show ?case by simp
next
  case (Cons x xs)
  obtain t where "del x s = Some t" "inv t" "limit t = limit s" "absset t = absset s - {x}"
    using del_law[of s x] Cons.prems by auto
  moreover from this obtain u where "mfold del xs t = Some u" "inv u" "limit u = limit t"
    "absset u = absset t - set xs"
    using Cons.IH[of t] Cons.prems(2) by auto
  ultimately show ?case by auto
qed

end

subsection \<open>The set\<close>

record bit_set =
  bs_max :: nat
  bs_bits :: "u32 list"

definition RawLengthForBits :: "nat \<Rightarrow> nat" where
  "RawLengthForBits bits = 1 + bits div (8 * 4)"

definition bitForValue :: "nat \<Rightarrow> u32" where
  "bitForValue v = push_bit (v mod (8 * 4)) 1"

definition wordForValue :: "nat \<Rightarrow> nat" where
  "wordForValue v = v div (8 * 4)"

definition numWords :: "bit_set \<Rightarrow> nat" where
  "numWords s = RawLengthForBits (bs_max s)"

text \<open>\<open>New\<close> and \<open>init\<close>: the flag says whether the temporary allocator returned memory.\<close>

definition BitSet_init :: "bool \<Rightarrow> nat \<Rightarrow> bit_set option" where
  "BitSet_init allocated mx =
     (if allocated then Some \<lparr>bs_max = mx, bs_bits = replicate (RawLengthForBits mx) 0\<rparr> else None)"

definition BitSet_New :: "bool \<Rightarrow> nat \<Rightarrow> bit_set option" where
  "BitSet_New allocated mx = BitSet_init allocated mx"

definition bs_contains :: "nat \<Rightarrow> bit_set \<Rightarrow> bool option" where
  "bs_contains v s = do {
     js_assert (v \<le> bs_max s);
     Some (bs_bits s ! wordForValue v AND bitForValue v \<noteq> 0) }"

definition bs_empty :: "bit_set \<Rightarrow> bool" where
  "bs_empty s = list_all (\<lambda>i. bs_bits s ! i = 0) [0..<numWords s]"

definition bs_insert :: "nat \<Rightarrow> bit_set \<Rightarrow> bit_set option" where
  "bs_insert v s = do {
     js_assert (v \<le> bs_max s);
     let w = wordForValue v in
     Some (s\<lparr>bs_bits := (bs_bits s)[w := bs_bits s ! w OR bitForValue v]\<rparr>) }"

definition bs_remove :: "nat \<Rightarrow> bit_set \<Rightarrow> bit_set option" where
  "bs_remove v s = do {
     js_assert (v \<le> bs_max s);
     let w = wordForValue v in
     Some (s\<lparr>bs_bits := (bs_bits s)[w := bs_bits s ! w AND NOT (bitForValue v)]\<rparr>) }"

text \<open>The loops \<open>for (i = 0; i < numWords(); i++) bits_[i] = f(bits_[i], other->bits_[i])\<close>.\<close>

definition bs_zip :: "(u32 \<Rightarrow> u32 \<Rightarrow> u32) \<Rightarrow> bit_set \<Rightarrow> bit_set \<Rightarrow> bit_set option" where
  "bs_zip f s other = do {
     js_assert (bs_max other = bs_max s);
     Some (s\<lparr>bs_bits := map (\<lambda>i. f (bs_bits s ! i) (bs_bits other ! i)) [0..<numWords s]\<rparr>) }"

definition bs_insertAll :: "bit_set \<Rightarrow> bit_set \<Rightarrow> bit_set option" where
  "bs_insertAll s other = bs_zip (\<lambda>a b. a OR b) s other"

definition bs_removeAll :: "bit_set \<Rightarrow> bit_set \<Rightarrow> bit_set option" where
  "bs_removeAll s other = bs_zip (\<lambda>a b. a AND NOT b) s other"

definition bs_intersect :: "bit_set \<Rightarrow> bit_set \<Rightarrow> bit_set option" where
  "bs_intersect s other = bs_zip (\<lambda>a b. a AND b) s other"

fun bs_fixedPointLoop :: "u32 list \<Rightarrow> nat list \<Rightarrow> u32 list \<times> bool \<Rightarrow> u32 list \<times> bool" where
  "bs_fixedPointLoop other [] st = st"
| "bs_fixedPointLoop other (i # is) (bits, changed) =
     (let old = bits ! i; bits' = bits[i := old AND other ! i] in
      bs_fixedPointLoop other is
        (bits', if \<not> changed \<and> old \<noteq> bits' ! i then True else changed))"

definition bs_fixedPointIntersect :: "bit_set \<Rightarrow> bit_set \<Rightarrow> (bit_set \<times> bool) option" where
  "bs_fixedPointIntersect s other = do {
     js_assert (bs_max other = bs_max s);
     let (bits, changed) = bs_fixedPointLoop (bs_bits other) [0..<numWords s] (bs_bits s, False) in
     Some (s\<lparr>bs_bits := bits\<rparr>, changed) }"

definition bs_complement :: "bit_set \<Rightarrow> bit_set" where
  "bs_complement s = s\<lparr>bs_bits := map (\<lambda>i. NOT (bs_bits s ! i)) [0..<numWords s]\<rparr>"

definition bs_clear :: "bit_set \<Rightarrow> bit_set" where
  "bs_clear s = s\<lparr>bs_bits := map (\<lambda>i. 0) [0..<numWords s]\<rparr>"

subsection \<open>The iterator\<close>

record bs_iterator =
  it_index :: nat
  it_word :: nat
  it_value :: u32

definition it_more :: "bit_set \<Rightarrow> bs_iterator \<Rightarrow> bool" where
  "it_more s it \<longleftrightarrow> it_word it < numWords s"

text \<open>The \<open>while (value_ == 0)\<close> loop of \<open>operator++\<close>; it stops early when no word is left.\<close>

function it_skipZeroWords :: "bit_set \<Rightarrow> bs_iterator \<Rightarrow> bs_iterator" where
  "it_skipZeroWords s it =
     (if it_value it = 0 \<and> it_more s it then
        let it' = it\<lparr>it_word := it_word it + 1\<rparr> in
        if \<not> it_more s it' then it'
        else it_skipZeroWords s
               (it'\<lparr>it_index := it_word it' * 4 * 8, it_value := bs_bits s ! it_word it'\<rparr>)
      else it)"
  by pat_completeness auto
termination
  by (relation "measure (\<lambda>(s, it). numWords s - it_word it)") (auto simp: it_more_def Let_def)

declare it_skipZeroWords.simps [simp del]

definition it_next :: "(u32 \<Rightarrow> nat) \<Rightarrow> bit_set \<Rightarrow> bs_iterator \<Rightarrow> bs_iterator option" where
  "it_next ctz s it = do {
     js_assert (it_more s it);
     js_assert (it_index it \<le> bs_max s);
     let it1 = it_skipZeroWords s
                 (it\<lparr>it_index := it_index it + 1, it_value := drop_bit 1 (it_value it)\<rparr>) in
     if \<not> it_more s it1 then Some it1
     else do {
       js_assert (it_value it1 \<noteq> 0);
       let n = ctz (it_value it1) in
       let it2 = it1\<lparr>it_index := it_index it1 + n, it_value := drop_bit n (it_value it1)\<rparr> in
       if it_index it2 \<le> bs_max s then do { c \<leftarrow> bs_contains (it_index it2) s; js_assert c; Some it2 }
       else Some it2 } }"

definition it_begin :: "(u32 \<Rightarrow> nat) \<Rightarrow> bit_set \<Rightarrow> bs_iterator option" where
  "it_begin ctz s = do {
     let it = \<lparr>it_index = 0, it_word = 0, it_value = bs_bits s ! 0\<rparr>;
     c \<leftarrow> bs_contains 0 s;
     if c then Some it else it_next ctz s it }"

definition it_deref :: "bit_set \<Rightarrow> bs_iterator \<Rightarrow> nat option" where
  "it_deref s it = do { js_assert (it_index it \<le> bs_max s); Some (it_index it) }"

text \<open>
  The client loop \<open>for (BitSet::Iterator it(set); it; it++) \<dots> *it \<dots>\<close>, collecting the
  values it visits.
\<close>

function it_collect :: "(u32 \<Rightarrow> nat) \<Rightarrow> bit_set \<Rightarrow> bs_iterator \<Rightarrow> nat list option" where
  "it_collect ctz s it =
     (if \<not> it_more s it then Some []
      else case it_deref s it of None \<Rightarrow> None
        | Some v \<Rightarrow> (case it_next ctz s it of None \<Rightarrow> None
            | Some it' \<Rightarrow> map_option (\<lambda>vs. v # vs) (it_collect ctz s it')))"
  by pat_completeness auto

text \<open>Every step moves to a later word or, in the same word, shifts the pending bits down.\<close>

lemma it_skipZeroWords_word_le: "it_word it \<le> it_word (it_skipZeroWords s it)"
proof (induction s it rule: it_skipZeroWords.induct)
  case (1 s it)
  then show ?case
    by (subst it_skipZeroWords.simps) (force simp: Let_def)
qed

lemma it_skipZeroWords_stop:
  "\<not> (it_value it = 0 \<and> it_more s it) \<Longrightarrow> it_skipZeroWords s it = it"
  by (auto simp: it_skipZeroWords.simps[of s it])

lemma it_skipZeroWords_advance:
  assumes "it_value it = 0" "it_more s it"
  shows "it_word it < it_word (it_skipZeroWords s it)"
proof -
  let ?it = "it\<lparr>it_word := it_word it + 1\<rparr>"
  let ?it' = "?it\<lparr>it_index := it_word ?it * 4 * 8, it_value := bs_bits s ! it_word ?it\<rparr>"
  have "it_word it < it_word (it_skipZeroWords s ?it')"
    using it_skipZeroWords_word_le[of ?it' s] by simp
  with assms show ?thesis by (auto simp: Let_def it_skipZeroWords.simps[of s it])
qed

lemma it_next_progress:
  assumes "it_next ctz s it = Some it'"
  shows "it_word it < it_word it' \<or>
    it_word it' = it_word it \<and> unat (it_value it') < unat (it_value it)"
proof -
  let ?it = "it\<lparr>it_index := it_index it + 1, it_value := drop_bit 1 (it_value it)\<rparr>"
  let ?r = "it_skipZeroWords s ?it"
  have w: "it_word it' = it_word ?r" and more: "it_more s it"
    using assms by (auto simp: it_next_def Let_def split: if_splits Option.bind_splits)
  show ?thesis
  proof (cases "drop_bit 1 (it_value it) = 0")
    case True
    then have "it_word it < it_word ?r"
      using it_skipZeroWords_advance[of ?it s] more by (simp add: it_more_def)
    with w show ?thesis by simp
  next
    case False
    then have r: "?r = ?it" by (intro it_skipZeroWords_stop) simp
    from False have "it_value it \<noteq> 0" by auto
    then have lt: "unat (drop_bit 1 (it_value it)) < unat (it_value it)"
      by (rule unat_drop_bit_less) simp
    have "it_value it' = drop_bit (ctz (drop_bit 1 (it_value it))) (drop_bit 1 (it_value it))"
      using assms r more by (auto simp: it_next_def Let_def it_more_def split: if_splits Option.bind_splits)
    then have "unat (it_value it') \<le> unat (drop_bit 1 (it_value it))"
      by (simp only: unat_drop_bit_le)
    with lt w r show ?thesis by simp
  qed
qed

termination it_collect
  by (relation "measures [\<lambda>(ctz, s, it). numWords s - it_word it, \<lambda>(ctz, s, it). unat (it_value it)]")
    (auto simp: it_more_def dest!: it_next_progress)

declare it_collect.simps [simp del]

subsection \<open>Refinement to sets of numbers\<close>

definition bs_set :: "bit_set \<Rightarrow> nat set" where
  "bs_set s = {v. v div 32 < length (bs_bits s) \<and> bit (bs_bits s ! (v div 32)) (v mod 32)}"

definition bs_inv :: "bit_set \<Rightarrow> bool" where
  "bs_inv s \<longleftrightarrow> length (bs_bits s) = numWords s"

text \<open>No padding bit above the maximum is set.\<close>

definition bs_clean :: "bit_set \<Rightarrow> bool" where
  "bs_clean s \<longleftrightarrow> bs_inv s \<and> bs_set s \<subseteq> {..bs_max s}"

lemmas bs_index_defs = RawLengthForBits_def bitForValue_def wordForValue_def numWords_def

lemma bs_word_in_range: "bs_inv s \<Longrightarrow> v \<le> bs_max s \<Longrightarrow> v div 32 < length (bs_bits s)"
  by (auto simp: bs_inv_def bs_index_defs div_le_mono less_Suc_eq_le)

lemma bs_set_update:
  assumes "w < length (bs_bits s)"
  shows "bs_set (s\<lparr>bs_bits := (bs_bits s)[w := x]\<rparr>) =
    {v \<in> bs_set s. v div 32 \<noteq> w} \<union> {v. v div 32 = w \<and> bit x (v mod 32)}"
  using assms by (auto simp: bs_set_def nth_list_update)

lemma div_mod_eq_iff: "v div 32 = u div 32 \<Longrightarrow> v mod 32 = u mod 32 \<Longrightarrow> v = (u::nat)"
  by (metis div_mod_decomp)

lemma bs_contains_spec:
  "bs_inv s \<Longrightarrow> v \<le> bs_max s \<Longrightarrow> bs_contains v s = Some (v \<in> bs_set s)"
  using bs_word_in_range[of s v]
  by (simp add: bs_contains_def bs_set_def bs_index_defs word_and_push_one del: push_bit_of_1)

lemma bs_insert_spec:
  assumes "bs_inv s" "v \<le> bs_max s"
  shows "\<exists>t. bs_insert v s = Some t \<and> bs_inv t \<and> bs_max t = bs_max s \<and> bs_set t = insert v (bs_set s)"
proof -
  let ?t = "s\<lparr>bs_bits := (bs_bits s)[wordForValue v := bs_bits s ! wordForValue v OR bitForValue v]\<rparr>"
  have "bs_set ?t = insert v (bs_set s)"
    using bs_word_in_range[OF assms]
    by (subst bs_set_update)
      (auto simp: bs_index_defs bit_or_iff bs_set_def dest: div_mod_eq_iff)
  with assms show ?thesis
    by (auto simp: bs_insert_def bs_inv_def numWords_def Let_def)
qed

lemma bs_remove_spec:
  assumes "bs_inv s" "v \<le> bs_max s"
  shows "\<exists>t. bs_remove v s = Some t \<and> bs_inv t \<and> bs_max t = bs_max s \<and> bs_set t = bs_set s - {v}"
proof -
  let ?t = "s\<lparr>bs_bits := (bs_bits s)[wordForValue v := bs_bits s ! wordForValue v AND NOT (bitForValue v)]\<rparr>"
  have "bs_set ?t = bs_set s - {v}"
    using bs_word_in_range[OF assms]
    by (subst bs_set_update)
      (auto simp: bs_index_defs bit_and_iff bit_not_iff bs_set_def dest: div_mod_eq_iff)
  with assms show ?thesis
    by (auto simp: bs_remove_def bs_inv_def numWords_def Let_def)
qed

interpretation bitset: bounded_set bs_set bs_inv bs_max bs_insert bs_remove bs_contains
  by unfold_locales (simp_all add: bs_contains_spec bs_insert_spec bs_remove_spec)

lemma BitSet_New_spec:
  "BitSet_New True mx = Some s \<Longrightarrow> bs_clean s \<and> bs_set s = {} \<and> bs_max s = mx"
  by (auto simp: BitSet_New_def BitSet_init_def bs_clean_def bs_inv_def numWords_def bs_set_def)

lemma bs_zip_spec:
  assumes "bs_inv s" "bs_inv t" "bs_max t = bs_max s"
    and f: "\<And>a b n. n < 32 \<Longrightarrow> bit (f a b) n \<longleftrightarrow> P (bit a n) (bit b n)"
  shows "\<exists>r. bs_zip f s t = Some r \<and> bs_inv r \<and> bs_max r = bs_max s \<and>
    bs_set r = {v. v < 32 * numWords s \<and> P (v \<in> bs_set s) (v \<in> bs_set t)}"
proof -
  have len: "length (bs_bits t) = numWords s" "length (bs_bits s) = numWords s"
    using assms by (auto simp: bs_inv_def numWords_def)
  then show ?thesis
    using assms(3) by (auto simp: bs_zip_def bs_inv_def numWords_def bs_set_def f div_less_iff_less_mult mult.commute)
qed

lemma bs_set_bounded: "bs_inv s \<Longrightarrow> v \<in> bs_set s \<Longrightarrow> v < 32 * numWords s"
  by (auto simp: bs_set_def bs_inv_def div_less_iff_less_mult mult.commute)

lemma bs_empty_spec: "bs_inv s \<Longrightarrow> bs_empty s \<longleftrightarrow> bs_set s = {}"
proof
  assume inv: "bs_inv s" and e: "bs_set s = {}"
  show "bs_empty s"
    unfolding bs_empty_def list_all_iff
  proof
    fix i assume "i \<in> set [0..<numWords s]"
    then have i: "i < length (bs_bits s)" using inv by (simp add: bs_inv_def)
    have "\<not> bit (bs_bits s ! i) n" if "n < 32" for n
      using e i that by (auto simp: bs_set_def dest!: spec[of _ "32 * i + n"])
    then show "bs_bits s ! i = 0" using word_nonzero_bit[of "bs_bits s ! i"] by auto
  qed
qed (auto simp: bs_empty_def list_all_iff bs_set_def bs_inv_def)

lemma bs_fixedPointLoop_spec:
  assumes "distinct is" "set is \<subseteq> {..<length bits}"
  shows "bs_fixedPointLoop other is (bits, ch) =
    (map (\<lambda>i. if i \<in> set is then bits ! i AND other ! i else bits ! i) [0..<length bits],
     ch \<or> (\<exists>i\<in>set is. bits ! i AND other ! i \<noteq> bits ! i))"
  using assms
proof (induction "is" arbitrary: bits ch)
  case Nil
  then show ?case by (simp add: map_nth)
next
  case (Cons i "is")
  let ?b = "bits[i := bits ! i AND other ! i]"
  have i: "i < length bits" "i \<notin> set is" using Cons.prems by auto
  have "bs_fixedPointLoop other is (?b, c) =
    (map (\<lambda>j. if j \<in> set is then ?b ! j AND other ! j else ?b ! j) [0..<length bits],
     c \<or> (\<exists>j\<in>set is. ?b ! j AND other ! j \<noteq> ?b ! j))" for c
    using Cons.IH[of ?b c] Cons.prems by simp
  moreover have "j \<in> set is \<Longrightarrow> ?b ! j = bits ! j" for j
    using i(2) by (metis nth_list_update_neq)
  ultimately show ?case
    using i by (auto simp: Let_def nth_list_update intro!: nth_equalityI)
qed

lemma bs_fixedPointIntersect_spec:
  assumes "bs_inv s" "bs_inv t" "bs_max t = bs_max s"
  shows "\<exists>r. bs_fixedPointIntersect s t = Some (r, bs_set s \<inter> bs_set t \<noteq> bs_set s) \<and>
    bs_inv r \<and> bs_max r = bs_max s \<and> bs_set r = bs_set s \<inter> bs_set t"
proof -
  have len: "length (bs_bits t) = numWords s" "length (bs_bits s) = numWords s"
    using assms by (auto simp: bs_inv_def numWords_def)
  let ?m = "map (\<lambda>i. bs_bits s ! i AND bs_bits t ! i) [0..<numWords s]"
  let ?ch = "\<exists>i<numWords s. bs_bits s ! i AND bs_bits t ! i \<noteq> bs_bits s ! i"
  have r: "bs_fixedPointIntersect s t = Some (s\<lparr>bs_bits := ?m\<rparr>, ?ch)"
    using bs_fixedPointLoop_spec[of "[0..<numWords s]" "bs_bits s" "bs_bits t" False] assms(3) len
    by (auto simp: bs_fixedPointIntersect_def lessThan_atLeast0 cong: map_cong)
  have set_r: "bs_set (s\<lparr>bs_bits := ?m\<rparr>) = bs_set s \<inter> bs_set t"
    using len by (auto simp: bs_set_def bit_and_iff)
  have ch: "?ch \<longleftrightarrow> bs_set s \<inter> bs_set t \<noteq> bs_set s"
  proof
    assume ?ch
    then obtain i where i: "i < numWords s" "bs_bits s ! i AND bs_bits t ! i \<noteq> bs_bits s ! i" by blast
    then obtain n where n: "n < 32" "bit (bs_bits s ! i) n" "\<not> bit (bs_bits t ! i) n"
      by (auto simp: bit_eq_iff bit_and_iff)
    then have "32 * i + n \<in> bs_set s" "32 * i + n \<notin> bs_set t"
      using i len by (auto simp: bs_set_def)
    then show "bs_set s \<inter> bs_set t \<noteq> bs_set s" by blast
  next
    assume "bs_set s \<inter> bs_set t \<noteq> bs_set s"
    then obtain v where v: "v \<in> bs_set s" "v \<notin> bs_set t" by blast
    then have "bit (bs_bits s ! (v div 32)) (v mod 32)" "\<not> bit (bs_bits t ! (v div 32)) (v mod 32)"
      "v div 32 < numWords s" using len by (auto simp: bs_set_def)
    then show ?ch by (metis bit_and_iff)
  qed
  show ?thesis using r set_r ch len by (simp add: bs_inv_def numWords_def)
qed

lemma bs_complement_spec:
  assumes "bs_inv s"
  shows "bs_inv (bs_complement s)" "bs_max (bs_complement s) = bs_max s"
    "bs_set (bs_complement s) = {..<32 * numWords s} - bs_set s"
  using assms
  by (auto simp: bs_complement_def bs_inv_def numWords_def bs_set_def bit_not_iff div_less_iff_less_mult
      mult.commute)

lemma bs_clear_spec:
  "bs_inv (bs_clear s)" "bs_max (bs_clear s) = bs_max s" "bs_set (bs_clear s) = {}"
  by (auto simp: bs_clear_def bs_inv_def numWords_def bs_set_def)

subsection \<open>The iterator enumerates the set\<close>

text \<open>
  The iterator stands at position \<open>it_index\<close> of word \<open>it_word\<close> and \<open>it_value\<close> holds the
  bits of that word from this position on.
\<close>

definition it_at :: "bit_set \<Rightarrow> bs_iterator \<Rightarrow> bool" where
  "it_at s it \<longleftrightarrow> it_word it < numWords s \<and> 32 * it_word it \<le> it_index it \<and>
     it_index it \<le> 32 * it_word it + 32 \<and>
     it_value it = drop_bit (it_index it - 32 * it_word it) (bs_bits s ! it_word it)"

text \<open>No element of the set lies between the two positions.\<close>

definition no_elem_between :: "bit_set \<Rightarrow> nat \<Rightarrow> nat \<Rightarrow> bool" where
  "no_elem_between s i j \<longleftrightarrow> (\<forall>v. i \<le> v \<and> v < j \<longrightarrow> v \<notin> bs_set s)"

lemma no_elem_between_trans: "no_elem_between s i j \<Longrightarrow> no_elem_between s j k \<Longrightarrow> no_elem_between s i k"
  by (auto simp: no_elem_between_def not_less[symmetric])

lemma bs_set_in_word:
  "bs_inv s \<Longrightarrow> w < numWords s \<Longrightarrow> n < 32 \<Longrightarrow> 32 * w + n \<in> bs_set s \<longleftrightarrow> bit (bs_bits s ! w) n"
  by (simp add: bs_set_def bs_inv_def)

lemma it_skipZeroWords_spec:
  assumes "bs_inv s" "it_at s it"
  shows "let r = it_skipZeroWords s it in
    if it_more s r then it_at s r \<and> it_value r \<noteq> 0 \<and> it_index it \<le> it_index r \<and>
      no_elem_between s (it_index it) (it_index r)
    else no_elem_between s (it_index it) (32 * numWords s)"
  using assms
proof (induction s it rule: it_skipZeroWords.induct)
  case (1 s it)
  note at = "1.prems"(2)[unfolded it_at_def]
  show ?case
  proof (cases "it_value it = 0 \<and> it_more s it")
    case False
    then have "it_value it \<noteq> 0" using at by (auto simp: it_more_def)
    then have "it_skipZeroWords s it = it" by (simp add: it_skipZeroWords_stop)
    with False "1.prems" at show ?thesis
      by (auto simp: it_more_def no_elem_between_def Let_def)
  next
    case True
    let ?it = "it\<lparr>it_word := it_word it + 1\<rparr>"
    let ?it' = "?it\<lparr>it_index := it_word ?it * 4 * 8, it_value := bs_bits s ! it_word ?it\<rparr>"
    have none: "no_elem_between s (it_index it) (32 * it_word it + 32)"
      unfolding no_elem_between_def
    proof (intro allI impI)
      fix v assume v: "it_index it \<le> v \<and> v < 32 * it_word it + 32"
      define n where "n = v - 32 * it_word it"
      have vn: "v = 32 * it_word it + n" "n < 32" using v at by (auto simp: n_def)
      have "\<not> bit (bs_bits s ! it_word it) n"
        using True at v vn by (auto simp: drop_bit_zero_iff)
      then show "v \<notin> bs_set s" using vn at "1.prems"(1) by (simp add: bs_set_in_word)
    qed
    show ?thesis
    proof (cases "it_more s ?it")
      case False
      then have "numWords s = it_word it + 1" using at by (auto simp: it_more_def)
      with True False none show ?thesis
        by (simp add: Let_def it_skipZeroWords.simps[of s it] add.commute)
    next
      case more: True
      have at': "it_at s ?it'" using more by (simp add: it_at_def it_more_def)
      have eq: "it_skipZeroWords s it = it_skipZeroWords s ?it'"
        using True more by (simp add: Let_def it_skipZeroWords.simps[of s it])
      define r where "r = it_skipZeroWords s ?it'"
      have i: "it_index ?it' = 32 * it_word it + 32" "it_index it \<le> it_index ?it'" using at by auto
      have "let r = it_skipZeroWords s ?it' in
        if it_more s r then it_at s r \<and> it_value r \<noteq> 0 \<and> it_index ?it' \<le> it_index r \<and>
          no_elem_between s (it_index ?it') (it_index r)
        else no_elem_between s (it_index ?it') (32 * numWords s)"
        using "1.IH"[OF True refl _ "1.prems"(1) at'] more by blast
      then have r: "if it_more s r then it_at s r \<and> it_value r \<noteq> 0 \<and> it_index ?it' \<le> it_index r \<and>
          no_elem_between s (it_index ?it') (it_index r)
        else no_elem_between s (it_index ?it') (32 * numWords s)"
        by (simp only: Let_def r_def)
      show ?thesis unfolding eq r_def[symmetric] Let_def
        using r i no_elem_between_trans[OF none] by (cases "it_more s r") (simp_all add: add.commute)
    qed
  qed
qed

lemma it_next_spec:
  assumes "is_ctz ctz" "bs_inv s" "it_at s it" "it_index it < 32 * it_word it + 32"
    "it_index it \<le> bs_max s"
  shows "\<exists>r. it_next ctz s it = Some r \<and>
    (if it_more s r then it_at s r \<and> it_index r < 32 * it_word r + 32 \<and> it_index it < it_index r \<and>
       it_index r \<in> bs_set s \<and> no_elem_between s (it_index it + 1) (it_index r)
     else no_elem_between s (it_index it + 1) (32 * numWords s))"
proof -
  let ?it = "it\<lparr>it_index := it_index it + 1, it_value := drop_bit 1 (it_value it)\<rparr>"
  define q where "q = it_skipZeroWords s ?it"
  have more: "it_more s it" using assms(3) by (simp add: it_at_def it_more_def)
  have "it_at s ?it" using assms(3,4) by (auto simp: it_at_def Suc_diff_le)
  note q = it_skipZeroWords_spec[OF assms(2) this, folded q_def, unfolded Let_def]
  show ?thesis
  proof (cases "it_more s q")
    case False
    then show ?thesis using q more assms(5) by (auto simp: it_next_def q_def)
  next
    case True
    let ?n = "ctz (it_value q)"
    let ?r = "q\<lparr>it_index := it_index q + ?n, it_value := drop_bit ?n (it_value q)\<rparr>"
    have at: "it_at s q" and nz: "it_value q \<noteq> 0" and le: "it_index it + 1 \<le> it_index q"
      and none: "no_elem_between s (it_index it + 1) (it_index q)"
      using q True by auto
    let ?k = "it_index q - 32 * it_word q"
    have b: "bit (bs_bits s ! it_word q) (?k + ?n)" "\<forall>i<?n. \<not> bit (bs_bits s ! it_word q) (?k + i)"
      using assms(1) nz at by (auto simp: is_ctz_def it_at_def bit_drop_bit_eq)
    have lt: "?k + ?n < 32" using bit_imp_le_length[OF b(1)] by simp
    have pos: "it_index q + i = 32 * it_word q + (?k + i)" for i using at by (simp add: it_at_def)
    have w: "it_word q < numWords s" using True by (simp add: it_more_def)
    have mem: "it_index q + ?n \<in> bs_set s"
      unfolding pos[of ?n] using bs_set_in_word[OF assms(2) w lt] b(1) by blast
    have gap: "no_elem_between s (it_index q) (it_index q + ?n)"
      unfolding no_elem_between_def
    proof (intro allI impI)
      fix v assume v: "it_index q \<le> v \<and> v < it_index q + ?n"
      then obtain i where i: "v = it_index q + i" "i < ?n" by (metis le_Suc_ex nat_add_left_cancel_less)
      then show "v \<notin> bs_set s"
        unfolding i(1) pos[of i] using bs_set_in_word[OF assms(2) w, of "?k + i"] b(2) lt by auto
    qed
    have "it_at s ?r" using at lt w by (auto simp: it_at_def add.commute)
    moreover have "it_next ctz s it = Some ?r"
      using True more assms(5) nz bs_contains_spec[OF assms(2), of "it_index q + ?n"] mem
      unfolding it_next_def Let_def q_def[symmetric] by simp
    moreover have "no_elem_between s (it_index it + 1) (it_index ?r)"
      using no_elem_between_trans[OF none gap] by simp
    moreover have "it_more s ?r" using w by (simp add: it_more_def)
    moreover have "it_index ?r < 32 * it_word ?r + 32" using lt by simp
    ultimately show ?thesis using mem le by auto
  qed
qed

lemma finite_bs_set: "bs_inv s \<Longrightarrow> finite (bs_set s)"
  by (rule finite_subset[of _ "{..<32 * numWords s}"]) (auto dest: bs_set_bounded)

lemma it_collect_spec:
  assumes "is_ctz ctz" "bs_inv s" "it_at s it" "it_index it < 32 * it_word it + 32"
    "it_index it \<in> bs_set s"
  shows "it_collect ctz s it = (if {v \<in> bs_set s. it_index it \<le> v} \<subseteq> {..bs_max s}
    then Some (sorted_list_of_set {v \<in> bs_set s. it_index it \<le> v}) else None)"
  using assms
proof (induction ctz s it rule: it_collect.induct)
  case (1 ctz s it)
  let ?ge = "\<lambda>i. {v \<in> bs_set s. i \<le> v}"
  have inv: "bs_inv s" using "1.prems" by simp
  have more: "it_more s it" using "1.prems"(3) by (simp add: it_at_def it_more_def)
  show ?case
  proof (cases "it_index it \<le> bs_max s")
    case False
    then have "\<not> ?ge (it_index it) \<subseteq> {..bs_max s}" using "1.prems"(5) by auto
    then show ?thesis using more False by (subst it_collect.simps) (simp add: it_deref_def)
  next
    case idx: True
    obtain r where r: "it_next ctz s it = Some r"
      "if it_more s r then it_at s r \<and> it_index r < 32 * it_word r + 32 \<and> it_index it < it_index r \<and>
         it_index r \<in> bs_set s \<and> no_elem_between s (it_index it + 1) (it_index r)
       else no_elem_between s (it_index it + 1) (32 * numWords s)"
      using it_next_spec[OF "1.prems"(1) inv "1.prems"(3,4) idx] by blast
    have d: "it_deref s it = Some (it_index it)" using idx by (simp add: it_deref_def)
    have split: "?ge (it_index it) = insert (it_index it) (?ge (it_index it + 1))"
      using "1.prems"(5) by auto
    have srt: "sorted_list_of_set (?ge (it_index it)) =
      it_index it # sorted_list_of_set (?ge (it_index it + 1))"
      unfolding split
      by (subst sorted_list_of_set_insert_remove)
        (auto simp: finite_bs_set inv insort_is_Cons)
    have sub: "?ge (it_index it) \<subseteq> {..bs_max s} \<longleftrightarrow> ?ge (it_index it + 1) \<subseteq> {..bs_max s}" unfolding split using idx by simp
    have rest: "it_collect ctz s r = (if ?ge (it_index it + 1) \<subseteq> {..bs_max s} then Some (sorted_list_of_set (?ge (it_index it + 1))) else None)"
    proof (cases "it_more s r")
      case True
      have "?ge (it_index it + 1) = ?ge (it_index r)"
        using r(2) True by (auto simp: no_elem_between_def not_less[symmetric])
      then show ?thesis using "1.IH" more d r True "1.prems"(1,2) by simp
    next
      case False
      then have e: "?ge (it_index it + 1) = {}"
        using r(2) bs_set_bounded[OF inv] by (auto simp: no_elem_between_def)
      show ?thesis unfolding e using False by (subst it_collect.simps) simp
    qed
    show ?thesis using more d r(1) rest srt sub by (subst it_collect.simps) simp
  qed
qed

lemma it_collect_all:
  assumes ctz: "is_ctz ctz" and inv: "bs_inv s"
  shows "\<exists>it. it_begin ctz s = Some it \<and>
    it_collect ctz s it = (if bs_clean s then Some (sorted_list_of_set (bs_set s)) else None)"
proof -
  let ?it = "\<lparr>it_index = 0, it_word = 0, it_value = bs_bits s ! 0\<rparr>"
  have at: "it_at s ?it" by (simp add: it_at_def bs_index_defs)
  have c: "bs_contains 0 s = Some (0 \<in> bs_set s)" using bs_contains_spec[OF inv, of 0] by simp
  show ?thesis
  proof (cases "0 \<in> bs_set s")
    case True
    then show ?thesis
      using c it_collect_spec[OF ctz inv at] inv by (simp add: it_begin_def Let_def bs_clean_def)
  next
    case False
    obtain r where r: "it_next ctz s ?it = Some r"
      "if it_more s r then it_at s r \<and> it_index r < 32 * it_word r + 32 \<and> it_index ?it < it_index r \<and>
         it_index r \<in> bs_set s \<and> no_elem_between s (it_index ?it + 1) (it_index r)
       else no_elem_between s (it_index ?it + 1) (32 * numWords s)"
      using it_next_spec[OF ctz inv at] by (metis bs_iterator.select_convs(1,2) le0 mult_0_right zero_less_numeral add_0)
    have "it_collect ctz s r = (if bs_clean s then Some (sorted_list_of_set (bs_set s)) else None)"
    proof (cases "it_more s r")
      case True
      have "{v \<in> bs_set s. it_index r \<le> v} = bs_set s"
        using r(2) True False by (auto simp: no_elem_between_def not_less[symmetric] Suc_le_eq)
          (metis gr0I)
      then show ?thesis using it_collect_spec[OF ctz inv, of r] r(2) True inv by (simp add: bs_clean_def)
    next
      case no: False
      then have "bs_set s = {}"
        using r(2) False bs_set_bounded[OF inv]
        by (auto simp: no_elem_between_def Suc_le_eq) (metis gr0I)
      then show ?thesis using no inv by (simp add: it_collect.simps[of ctz s r] bs_clean_def)
    qed
    with False c r(1) show ?thesis by (simp add: it_begin_def Let_def)
  qed
qed

text \<open>\<open>complement\<close> sets the padding bits, so that its result cannot be iterated.\<close>

lemma complement_not_iterable:
  assumes ctz: "is_ctz ctz" and c: "bs_clean s" and pad: "bs_max s mod 32 \<noteq> 31"
  shows "\<exists>it. it_begin ctz (bs_complement s) = Some it \<and> it_collect ctz (bs_complement s) it = None"
proof -
  have inv: "bs_inv s" using c by (simp add: bs_clean_def)
  note r = bs_complement_spec[OF inv]
  have "bs_max s + 1 < 32 * numWords s" unfolding bs_index_defs using pad by presburger
  moreover have "bs_max s + 1 \<notin> bs_set s" using c by (auto simp: bs_clean_def)
  ultimately have "bs_max s + 1 \<in> bs_set (bs_complement s)" unfolding r(3) by blast
  then have "\<not> bs_clean (bs_complement s)" using r(2) by (auto simp: bs_clean_def)
  then show ?thesis using it_collect_all[OF ctz r(1)] by simp
qed

text \<open>
  C8: for any set the iteration begins without a failing assertion; if no bit above the
  maximum is set it visits exactly the members of the set, each once, in increasing order, and
  otherwise, as after \<open>complement\<close>, an assertion fails.
\<close>

theorem bitset_iteration_complete:
  assumes "is_ctz ctz" "bs_inv s"
  shows "\<exists>it. it_begin ctz s = Some it \<and> it_collect ctz s it =
    (if bs_set s \<subseteq> {..bs_max s} then Some (sorted_list_of_set (bs_set s)) else None)"
  using it_collect_all[OF assms] assms(2) by (simp add: bs_clean_def)

theorem bitset_iteration_complete_witness:
  "\<exists>it. it_begin ctz_scan \<lparr>bs_max = 31, bs_bits = [5]\<rparr> = Some it \<and>
    it_collect ctz_scan \<lparr>bs_max = 31, bs_bits = [5]\<rparr> it =
      Some (sorted_list_of_set (bs_set \<lparr>bs_max = 31, bs_bits = [5]\<rparr>))"
proof -
  have "bs_inv \<lparr>bs_max = 31, bs_bits = [5]\<rparr>" "bs_set \<lparr>bs_max = 31, bs_bits = [5]\<rparr> \<subseteq> {..31}"
    by (auto simp: bs_inv_def bs_set_def bs_index_defs)
  then show ?thesis using bitset_iteration_complete[OF ctz_scan_is_ctz, of "\<lparr>bs_max = 31, bs_bits = [5]\<rparr>"] by simp
qed

end
