(* ===== verification/Register_Sets.thy ===== *)
theory Register_Sets
  imports Bit_Set
begin

text \<open>
  \<open>ion/RegisterSets.h\<close>: sets of registers of one kind (\<open>TypedRegisterSet\<close>), of both kinds
  (\<open>RegisterSet\<close>), and their iterators; \<open>AnyRegister\<close>, a register of either kind with one
  numbering.

  A register is its code. The masks of the register files are the record \<open>codes\<close>, with the
  values of \<open>x64/Architecture-x64.h\<close> (general and floating point registers) as instances.
  \<open>JS_FLOOR_LOG2\<close>, which the sources do not define, is a parameter.
\<close>

subsection \<open>Register files\<close>

record codes =
  c_total :: nat
  c_allocatable :: u32
  c_volatile :: u32

abbreviation regbit :: "nat \<Rightarrow> u32" where
  "regbit n \<equiv> push_bit n 1"

definition x64_VolatileMask :: u32 where
  "x64_VolatileMask = regbit 0 OR regbit 1 OR regbit 2 OR regbit 6 OR regbit 7 OR
     regbit 8 OR regbit 9 OR regbit 10 OR regbit 11"

definition x64_NonAllocatableMask :: u32 where
  "x64_NonAllocatableMask = regbit 4 OR regbit 11"

definition x64_AllMask :: u32 where
  "x64_AllMask = push_bit 16 1 - 1"

definition codes_gpr_x64 :: codes where
  "codes_gpr_x64 = \<lparr>c_total = 16, c_allocatable = x64_AllMask AND NOT x64_NonAllocatableMask,
     c_volatile = x64_VolatileMask\<rparr>"

subsection \<open>Typed register sets\<close>

record regset =
  rs_bits :: u32

definition TypedRegisterSet :: "u32 \<Rightarrow> regset" where
  "TypedRegisterSet b = \<lparr>rs_bits = b\<rparr>"

definition rs_All :: "codes \<Rightarrow> regset" where
  "rs_All c = TypedRegisterSet (c_allocatable c)"

definition rs_Intersect :: "regset \<Rightarrow> regset \<Rightarrow> regset" where
  "rs_Intersect lhs rhs = TypedRegisterSet (rs_bits lhs AND rs_bits rhs)"

definition rs_Not :: "codes \<Rightarrow> regset \<Rightarrow> regset" where
  "rs_Not c s = TypedRegisterSet (NOT (rs_bits s) AND c_allocatable c)"

definition rs_VolatileNot :: "codes \<Rightarrow> regset \<Rightarrow> regset" where
  "rs_VolatileNot c s = TypedRegisterSet (NOT (rs_bits s) AND (c_allocatable c AND c_volatile c))"

definition rs_Volatile :: "codes \<Rightarrow> regset" where
  "rs_Volatile c = TypedRegisterSet (c_allocatable c AND c_volatile c)"

text \<open>The member function masks with the complement: it computes the difference, unlike \<open>Intersect\<close>.\<close>

definition rs_intersect :: "regset \<Rightarrow> regset \<Rightarrow> regset" where
  "rs_intersect s other = s\<lparr>rs_bits := rs_bits s AND NOT (rs_bits other)\<rparr>"

definition rs_has :: "nat \<Rightarrow> regset \<Rightarrow> bool" where
  "rs_has reg s = (rs_bits s AND regbit reg \<noteq> 0)"

definition rs_addUnchecked :: "nat \<Rightarrow> regset \<Rightarrow> regset" where
  "rs_addUnchecked reg s = s\<lparr>rs_bits := rs_bits s OR regbit reg\<rparr>"

definition rs_add :: "nat \<Rightarrow> regset \<Rightarrow> regset option" where
  "rs_add reg s = do { js_assert (\<not> rs_has reg s); Some (rs_addUnchecked reg s) }"

definition rs_someAllocated :: "regset \<Rightarrow> regset \<Rightarrow> bool" where
  "rs_someAllocated s allocatable = (rs_bits allocatable AND NOT (rs_bits s) \<noteq> 0)"

definition rs_empty :: "regset \<Rightarrow> bool" where
  "rs_empty s = (rs_bits s = 0)"

definition rs_take :: "nat \<Rightarrow> regset \<Rightarrow> regset option" where
  "rs_take reg s = do {
     js_assert (rs_has reg s);
     Some (s\<lparr>rs_bits := rs_bits s AND NOT (regbit reg)\<rparr>) }"

text \<open>\<open>Register::FromCode\<close> and \<open>FloatRegister::FromCode\<close>.\<close>

definition Reg_FromCode :: "codes \<Rightarrow> nat \<Rightarrow> nat option" where
  "Reg_FromCode c i = do { js_assert (i < c_total c); Some i }"

definition rs_getAny :: "codes \<Rightarrow> (u32 \<Rightarrow> nat) \<Rightarrow> regset \<Rightarrow> nat option" where
  "rs_getAny c floor_log2 s = do { js_assert (\<not> rs_empty s); Reg_FromCode c (floor_log2 (rs_bits s)) }"

definition rs_takeAny :: "codes \<Rightarrow> (u32 \<Rightarrow> nat) \<Rightarrow> regset \<Rightarrow> (nat \<times> regset) option" where
  "rs_takeAny c floor_log2 s = do {
     js_assert (\<not> rs_empty s);
     reg \<leftarrow> rs_getAny c floor_log2 s;
     s \<leftarrow> rs_take reg s;
     Some (reg, s) }"

definition rs_clear :: "regset \<Rightarrow> regset" where
  "rs_clear s = s\<lparr>rs_bits := 0\<rparr>"

definition rs_equal :: "regset \<Rightarrow> regset \<Rightarrow> bool" where
  "rs_equal s other = (rs_bits other = rs_bits s)"

text \<open>The registers of a set.\<close>

definition rs_set :: "regset \<Rightarrow> nat set" where
  "rs_set s = {n. bit (rs_bits s) n}"

lemma rs_set_less: "n \<in> rs_set s \<Longrightarrow> n < 32"
  by (auto simp: rs_set_def dest: bit_imp_le_length)

lemma finite_rs_set [simp]: "finite (rs_set s)"
  by (rule finite_subset[of _ "{..<32}"]) (auto dest: rs_set_less)

lemma rs_has_iff: "reg < 32 \<Longrightarrow> rs_has reg s \<longleftrightarrow> reg \<in> rs_set s"
  unfolding rs_has_def rs_set_def using word_and_push_one[of reg "rs_bits s"] by auto

lemma rs_empty_iff: "rs_empty s \<longleftrightarrow> rs_set s = {}"
  using word_nonzero_bit[of "rs_bits s"] by (auto simp: rs_empty_def rs_set_def)

lemma rs_set_inj: "rs_set s = rs_set t \<longleftrightarrow> rs_bits s = rs_bits t"
  unfolding rs_set_def set_eq_iff mem_Collect_eq by (metis bit_eqI)

lemma rs_set_ops:
  "rs_set (rs_Intersect s t) = rs_set s \<inter> rs_set t"
  "rs_set (rs_Not c s) = rs_set (rs_All c) - rs_set s"
  "rs_set (rs_VolatileNot c s) = rs_set (rs_Volatile c) - rs_set s"
  "rs_set (rs_intersect s t) = rs_set s - rs_set t"
  "reg < 32 \<Longrightarrow> rs_set (rs_addUnchecked reg s) = insert reg (rs_set s)"
  "rs_set (rs_clear s) = {}"
  by (auto simp: rs_set_def rs_Intersect_def rs_Not_def rs_VolatileNot_def rs_Volatile_def rs_All_def
      rs_intersect_def rs_addUnchecked_def rs_clear_def TypedRegisterSet_def bit_and_iff bit_or_iff bit_not_iff
      dest: bit_imp_le_length)

lemma rs_add_spec:
  "reg < 32 \<Longrightarrow> rs_add reg s = (if reg \<in> rs_set s then None else Some (rs_addUnchecked reg s))"
  by (simp add: rs_add_def rs_has_iff)

lemma rs_take_spec:
  assumes "reg < 32"
  shows "\<exists>t. rs_take reg s = (if reg \<in> rs_set s then Some t else None) \<and> rs_set t = rs_set s - {reg}"
  by (rule exI[of _ "s\<lparr>rs_bits := rs_bits s AND NOT (regbit reg)\<rparr>"])
    (use assms in \<open>auto simp: rs_take_def rs_has_iff rs_set_def bit_and_iff bit_not_iff dest: bit_imp_le_length\<close>)

text \<open>Adding and dropping registers meets the interface of bounded sets.\<close>

definition rs_maybeTake :: "nat \<Rightarrow> regset \<Rightarrow> regset option" where
  "rs_maybeTake reg s = (if rs_has reg s then rs_take reg s else Some s)"

lemma rs_maybeTake_spec:
  assumes "reg < 32"
  shows "\<exists>t. rs_maybeTake reg s = Some t \<and> rs_set t = rs_set s - {reg}"
  using rs_take_spec[OF assms, of s] assms by (auto simp: rs_maybeTake_def rs_has_iff)

interpretation regs: bounded_set rs_set "\<lambda>s. True" "\<lambda>s. 31" "\<lambda>r s. Some (rs_addUnchecked r s)"
  rs_maybeTake "\<lambda>r s. Some (rs_has r s)"
proof unfold_locales
  show "\<exists>t. rs_maybeTake x s = Some t \<and> True \<and> (31::nat) = 31 \<and> rs_set t = rs_set s - {x}"
    if "x \<le> 31" for x s
    using rs_maybeTake_spec[of x s] that by simp
qed (simp_all add: rs_has_iff rs_set_ops less_Suc_eq_le)

lemma rs_takeAny_spec:
  assumes "is_floor_log2 flog" "rs_set s \<noteq> {}"
  shows "\<exists>t. rs_takeAny c flog s = (if Max (rs_set s) < c_total c then Some (Max (rs_set s), t) else None) \<and>
      rs_set t = rs_set s - {Max (rs_set s)}"
    "rs_getAny c flog s = (if Max (rs_set s) < c_total c then Some (Max (rs_set s)) else None)"
proof -
  let ?n = "flog (rs_bits s)"
  have nz: "rs_bits s \<noteq> 0" using assms(2) rs_empty_iff[of s] by (simp add: rs_empty_def)
  then have b: "bit (rs_bits s) ?n" "\<forall>i>?n. \<not> bit (rs_bits s) i"
    using assms(1) by (auto simp: is_floor_log2_def)
  have m: "Max (rs_set s) = ?n"
    by (rule Max_eqI) (use b in \<open>auto simp: rs_set_def not_less[symmetric]\<close>)
  show g: "rs_getAny c flog s = (if Max (rs_set s) < c_total c then Some (Max (rs_set s)) else None)"
    using nz by (simp add: rs_getAny_def Reg_FromCode_def rs_empty_def m)
  have "?n < 32" using b(1) bit_imp_le_length by fastforce
  then obtain t where "rs_take ?n s = Some t" "rs_set t = rs_set s - {?n}"
    using rs_take_spec[of ?n s] b(1) by (auto simp: rs_set_def)
  then show "\<exists>t. rs_takeAny c flog s = (if Max (rs_set s) < c_total c then Some (Max (rs_set s), t) else None) \<and>
      rs_set t = rs_set s - {Max (rs_set s)}"
    using nz g by (intro exI[of _ t]) (simp add: rs_takeAny_def rs_empty_def m)
qed

subsection \<open>Iterating over a set\<close>

text \<open>
  \<open>TypedRegisterIterator\<close> holds a copy of the set: \<open>more\<close> is \<open>!empty\<close>, \<open>operator*\<close> is
  \<open>getAny\<close> and \<open>operator++\<close> drops what \<open>takeAny\<close> returns. The loop
  \<open>for (iter(set); iter.more(); iter++)\<close> takes at most 32 steps, the fuel below.
\<close>

primrec rs_iterate :: "codes \<Rightarrow> (u32 \<Rightarrow> nat) \<Rightarrow> nat \<Rightarrow> regset \<Rightarrow> nat list option" where
  "rs_iterate c flog 0 s = (if rs_empty s then Some [] else None)"
| "rs_iterate c flog (Suc n) s = (if rs_empty s then Some []
     else do {
       reg \<leftarrow> rs_getAny c flog s;
       (_, s) \<leftarrow> rs_takeAny c flog s;
       rest \<leftarrow> rs_iterate c flog n s;
       Some (reg # rest) })"

lemma sorted_list_of_set_Max:
  assumes "finite (A::nat set)" "A \<noteq> {}"
  shows "sorted_list_of_set A = sorted_list_of_set (A - {Max A}) @ [Max A]"
proof -
  have "sorted (sorted_list_of_set (A - {Max A}) @ [Max A])"
    using assms by (auto simp: sorted_append)
  moreover have "set (sorted_list_of_set (A - {Max A}) @ [Max A]) = A"
    using assms by (auto intro!: Max_in)
  moreover have "distinct (sorted_list_of_set (A - {Max A}) @ [Max A])"
    using assms by simp
  ultimately show ?thesis by (metis sorted_list_of_set.idem_if_sorted_distinct)
qed

text \<open>The registers exist in the register file.\<close>

definition rs_valid :: "codes \<Rightarrow> regset \<Rightarrow> bool" where
  "rs_valid c s \<longleftrightarrow> rs_set s \<subseteq> {..<c_total c}"

lemma rs_valid_Max:
  assumes "rs_set s \<noteq> {}" "rs_set t = rs_set s - {Max (rs_set s)}"
  shows "rs_valid c s \<longleftrightarrow> Max (rs_set s) < c_total c" "Max (rs_set s) < c_total c \<Longrightarrow> rs_valid c t"
proof -
  have "x \<le> Max (rs_set s)" if "x \<in> rs_set s" for x by (rule Max_ge[OF finite_rs_set that])
  then show "rs_valid c s \<longleftrightarrow> Max (rs_set s) < c_total c" "Max (rs_set s) < c_total c \<Longrightarrow> rs_valid c t"
    using Max_in[OF finite_rs_set assms(1)] assms(2) unfolding rs_valid_def by fastforce+
qed

lemma rs_list_Max:
  assumes "rs_set s \<noteq> {}" "rs_set t = rs_set s - {Max (rs_set s)}"
  shows "rev (sorted_list_of_set (rs_set s)) = Max (rs_set s) # rev (sorted_list_of_set (rs_set t))"
  unfolding assms(2) by (subst sorted_list_of_set_Max[OF finite_rs_set assms(1)]) simp

lemma rs_iterate_spec:
  assumes "is_floor_log2 flog" "card (rs_set s) \<le> n"
  shows "rs_iterate c flog n s = (if rs_valid c s then Some (rev (sorted_list_of_set (rs_set s))) else None)"
  using assms(2)
proof (induction n arbitrary: s)
  case 0
  then show ?case by (simp add: rs_empty_iff rs_valid_def)
next
  case (Suc n)
  show ?case
  proof (cases "rs_set s = {}")
    case True
    then show ?thesis by (simp add: rs_empty_iff rs_valid_def)
  next
    case False
    obtain t where t: "rs_takeAny c flog s = (if Max (rs_set s) < c_total c then Some (Max (rs_set s), t) else None)"
      "rs_set t = rs_set s - {Max (rs_set s)}"
      using rs_takeAny_spec(1)[OF assms(1) False] by blast
    have "card (rs_set t) \<le> n" using Suc.prems False t(2) by simp
    then show ?thesis
      using False t(1) rs_takeAny_spec(2)[OF assms(1) False, of c] rs_valid_Max[OF False t(2), of c] Suc.IH[of t] rs_list_Max[OF False t(2)]
      by (simp add: rs_empty_iff)
  qed
qed

lemma card_rs_set: "card (rs_set s) \<le> 32"
  using card_mono[of "{..<32}" "rs_set s"] by (auto dest: rs_set_less)

subsection \<open>Registers and register sets of both kinds\<close>

datatype AnyRegister = Gpr nat | Fpu nat

definition AnyRegister_FromCode :: "codes \<Rightarrow> codes \<Rightarrow> nat \<Rightarrow> AnyRegister option" where
  "AnyRegister_FromCode g f i = do {
     js_assert (i < c_total g + c_total f);
     Some (if i < c_total g then Gpr i else Fpu (i - c_total g)) }"

fun AnyRegister_code :: "codes \<Rightarrow> AnyRegister \<Rightarrow> nat" where
  "AnyRegister_code g (Gpr n) = n"
| "AnyRegister_code g (Fpu n) = n + c_total g"

fun AnyRegister_valid :: "codes \<Rightarrow> codes \<Rightarrow> AnyRegister \<Rightarrow> bool" where
  "AnyRegister_valid g f (Gpr n) \<longleftrightarrow> n < c_total g"
| "AnyRegister_valid g f (Fpu n) \<longleftrightarrow> n < c_total f"

lemma AnyRegister_code_inverse:
  "AnyRegister_valid g f r \<Longrightarrow> AnyRegister_FromCode g f (AnyRegister_code g r) = Some r"
  by (cases r) (auto simp: AnyRegister_FromCode_def)

record RegisterSet =
  gpr_set :: regset
  fpu_set :: regset

definition RegisterSet_All :: "codes \<Rightarrow> codes \<Rightarrow> RegisterSet" where
  "RegisterSet_All g f = \<lparr>gpr_set = rs_All g, fpu_set = rs_All f\<rparr>"

definition RegisterSet_Intersect :: "RegisterSet \<Rightarrow> RegisterSet \<Rightarrow> RegisterSet" where
  "RegisterSet_Intersect l r = \<lparr>gpr_set = rs_Intersect (gpr_set l) (gpr_set r),
     fpu_set = rs_Intersect (fpu_set l) (fpu_set r)\<rparr>"

definition RegisterSet_Not :: "codes \<Rightarrow> codes \<Rightarrow> RegisterSet \<Rightarrow> RegisterSet" where
  "RegisterSet_Not g f s = \<lparr>gpr_set = rs_Not g (gpr_set s), fpu_set = rs_Not f (fpu_set s)\<rparr>"

definition RegisterSet_VolatileNot :: "codes \<Rightarrow> codes \<Rightarrow> RegisterSet \<Rightarrow> RegisterSet" where
  "RegisterSet_VolatileNot g f s =
     \<lparr>gpr_set = rs_VolatileNot g (gpr_set s), fpu_set = rs_VolatileNot f (fpu_set s)\<rparr>"

definition RegisterSet_Volatile :: "codes \<Rightarrow> codes \<Rightarrow> RegisterSet" where
  "RegisterSet_Volatile g f = \<lparr>gpr_set = rs_Volatile g, fpu_set = rs_Volatile f\<rparr>"

fun RegisterSet_has :: "AnyRegister \<Rightarrow> RegisterSet \<Rightarrow> bool" where
  "RegisterSet_has (Fpu r) s = rs_has r (fpu_set s)"
| "RegisterSet_has (Gpr r) s = rs_has r (gpr_set s)"

fun RegisterSet_add :: "AnyRegister \<Rightarrow> RegisterSet \<Rightarrow> RegisterSet option" where
  "RegisterSet_add (Fpu r) s = map_option (\<lambda>t. s\<lparr>fpu_set := t\<rparr>) (rs_add r (fpu_set s))"
| "RegisterSet_add (Gpr r) s = map_option (\<lambda>t. s\<lparr>gpr_set := t\<rparr>) (rs_add r (gpr_set s))"

fun RegisterSet_addUnchecked :: "AnyRegister \<Rightarrow> RegisterSet \<Rightarrow> RegisterSet" where
  "RegisterSet_addUnchecked (Fpu r) s = s\<lparr>fpu_set := rs_addUnchecked r (fpu_set s)\<rparr>"
| "RegisterSet_addUnchecked (Gpr r) s = s\<lparr>gpr_set := rs_addUnchecked r (gpr_set s)\<rparr>"

definition RegisterSet_empty :: "bool \<Rightarrow> RegisterSet \<Rightarrow> bool" where
  "RegisterSet_empty floats s = (if floats then rs_empty (fpu_set s) else rs_empty (gpr_set s))"

fun RegisterSet_take :: "AnyRegister \<Rightarrow> RegisterSet \<Rightarrow> RegisterSet option" where
  "RegisterSet_take (Fpu r) s = map_option (\<lambda>t. s\<lparr>fpu_set := t\<rparr>) (rs_take r (fpu_set s))"
| "RegisterSet_take (Gpr r) s = map_option (\<lambda>t. s\<lparr>gpr_set := t\<rparr>) (rs_take r (gpr_set s))"

definition RegisterSet_takeAny :: "codes \<Rightarrow> codes \<Rightarrow> (u32 \<Rightarrow> nat) \<Rightarrow> bool \<Rightarrow> RegisterSet \<Rightarrow> (AnyRegister \<times> RegisterSet) option" where
  "RegisterSet_takeAny g f flog isFloat s =
     (if isFloat then map_option (\<lambda>(r, t). (Fpu r, s\<lparr>fpu_set := t\<rparr>)) (rs_takeAny f flog (fpu_set s))
      else map_option (\<lambda>(r, t). (Gpr r, s\<lparr>gpr_set := t\<rparr>)) (rs_takeAny g flog (gpr_set s)))"

definition RegisterSet_clear :: "RegisterSet \<Rightarrow> RegisterSet" where
  "RegisterSet_clear s = s\<lparr>gpr_set := rs_clear (gpr_set s), fpu_set := rs_clear (fpu_set s)\<rparr>"

definition RegisterSet_equal :: "RegisterSet \<Rightarrow> RegisterSet \<Rightarrow> bool" where
  "RegisterSet_equal s other = (rs_equal (gpr_set s) (gpr_set other) \<and> rs_equal (fpu_set s) (fpu_set other))"

definition RegisterSet_maybeTake :: "AnyRegister \<Rightarrow> RegisterSet \<Rightarrow> RegisterSet option" where
  "RegisterSet_maybeTake r s = (if RegisterSet_has r s then RegisterSet_take r s else Some s)"

definition any_set :: "RegisterSet \<Rightarrow> AnyRegister set" where
  "any_set s = Gpr ` rs_set (gpr_set s) \<union> Fpu ` rs_set (fpu_set s)"

fun any_num :: "AnyRegister \<Rightarrow> nat" where
  "any_num (Gpr n) = n" | "any_num (Fpu n) = n"

lemma RegisterSet_specs:
  "any_num r < 32 \<Longrightarrow> RegisterSet_has r s \<longleftrightarrow> r \<in> any_set s"
  "any_num r < 32 \<Longrightarrow> any_set (RegisterSet_addUnchecked r s) = insert r (any_set s)"
  "any_set (RegisterSet_Intersect s t) = any_set s \<inter> any_set t"
  "any_set (RegisterSet_Not g f s) = any_set (RegisterSet_All g f) - any_set s"
  "any_set (RegisterSet_VolatileNot g f s) = any_set (RegisterSet_Volatile g f) - any_set s"
  "any_set (RegisterSet_clear s) = {}"
  "RegisterSet_equal s t \<longleftrightarrow> any_set s = any_set t"
proof -
  show "any_num r < 32 \<Longrightarrow> RegisterSet_has r s \<longleftrightarrow> r \<in> any_set s"
    by (cases r) (auto simp: any_set_def rs_has_iff)
  show "any_num r < 32 \<Longrightarrow> any_set (RegisterSet_addUnchecked r s) = insert r (any_set s)"
    by (cases r) (auto simp: any_set_def rs_set_ops)
  show "any_set (RegisterSet_Intersect s t) = any_set s \<inter> any_set t"
    by (auto simp: any_set_def RegisterSet_Intersect_def rs_set_ops)
  show "any_set (RegisterSet_Not g f s) = any_set (RegisterSet_All g f) - any_set s"
    by (auto simp: any_set_def RegisterSet_Not_def RegisterSet_All_def rs_set_ops)
  show "any_set (RegisterSet_VolatileNot g f s) = any_set (RegisterSet_Volatile g f) - any_set s"
    by (auto simp: any_set_def RegisterSet_VolatileNot_def RegisterSet_Volatile_def rs_set_ops)
  show "any_set (RegisterSet_clear s) = {}"
    by (simp add: any_set_def RegisterSet_clear_def rs_set_ops)
  have "any_set s = any_set t \<longleftrightarrow> rs_set (gpr_set s) = rs_set (gpr_set t) \<and> rs_set (fpu_set s) = rs_set (fpu_set t)"
    by (auto simp: any_set_def set_eq_iff image_iff)
  then show "RegisterSet_equal s t \<longleftrightarrow> any_set s = any_set t"
    by (auto simp: RegisterSet_equal_def rs_equal_def rs_set_inj)
qed

lemma RegisterSet_take_spec:
  assumes "any_num r < 32"
  shows "\<exists>t. RegisterSet_take r s = (if r \<in> any_set s then Some t else None) \<and> any_set t = any_set s - {r}"
proof (cases r)
  case (Gpr n)
  then obtain t where "rs_take n (gpr_set s) = (if n \<in> rs_set (gpr_set s) then Some t else None)"
    "rs_set t = rs_set (gpr_set s) - {n}" using rs_take_spec[of n "gpr_set s"] assms by auto
  then show ?thesis using Gpr by (intro exI[of _ "s\<lparr>gpr_set := t\<rparr>"]) (auto simp: any_set_def)
next
  case (Fpu n)
  then obtain t where "rs_take n (fpu_set s) = (if n \<in> rs_set (fpu_set s) then Some t else None)"
    "rs_set t = rs_set (fpu_set s) - {n}" using rs_take_spec[of n "fpu_set s"] assms by auto
  then show ?thesis using Fpu by (intro exI[of _ "s\<lparr>fpu_set := t\<rparr>"]) (auto simp: any_set_def)
qed

text \<open>
  \<open>AnyRegisterIterator\<close>: all general registers, then all float registers. The loop takes at
  most 64 steps.
\<close>

record any_iter =
  ai_gen :: regset
  ai_float :: regset

definition ai_more :: "any_iter \<Rightarrow> bool" where
  "ai_more i = (\<not> rs_empty (ai_gen i) \<or> \<not> rs_empty (ai_float i))"

definition ai_next :: "codes \<Rightarrow> codes \<Rightarrow> (u32 \<Rightarrow> nat) \<Rightarrow> any_iter \<Rightarrow> any_iter option" where
  "ai_next g f flog i =
     (if \<not> rs_empty (ai_gen i) then map_option (\<lambda>(_, t). i\<lparr>ai_gen := t\<rparr>) (rs_takeAny g flog (ai_gen i))
      else map_option (\<lambda>(_, t). i\<lparr>ai_float := t\<rparr>) (rs_takeAny f flog (ai_float i)))"

definition ai_deref :: "codes \<Rightarrow> codes \<Rightarrow> (u32 \<Rightarrow> nat) \<Rightarrow> any_iter \<Rightarrow> AnyRegister option" where
  "ai_deref g f flog i =
     (if \<not> rs_empty (ai_gen i) then map_option Gpr (rs_getAny g flog (ai_gen i))
      else map_option Fpu (rs_getAny f flog (ai_float i)))"

primrec ai_iterate :: "codes \<Rightarrow> codes \<Rightarrow> (u32 \<Rightarrow> nat) \<Rightarrow> nat \<Rightarrow> any_iter \<Rightarrow> AnyRegister list option" where
  "ai_iterate g f flog 0 i = (if ai_more i then None else Some [])"
| "ai_iterate g f flog (Suc n) i = (if \<not> ai_more i then Some []
     else do {
       r \<leftarrow> ai_deref g f flog i;
       i \<leftarrow> ai_next g f flog i;
       rest \<leftarrow> ai_iterate g f flog n i;
       Some (r # rest) })"

lemma ai_iterate_spec:
  assumes "is_floor_log2 flog" "card (rs_set (ai_gen i)) + card (rs_set (ai_float i)) \<le> n"
  shows "ai_iterate g f flog n i = (if rs_valid g (ai_gen i) \<and> rs_valid f (ai_float i)
    then Some (map Gpr (rev (sorted_list_of_set (rs_set (ai_gen i)))) @
      map Fpu (rev (sorted_list_of_set (rs_set (ai_float i))))) else None)"
  using assms(2)
proof (induction n arbitrary: i)
  case 0
  then show ?case by (simp add: ai_more_def rs_empty_iff rs_valid_def)
next
  case (Suc n)
  consider (gen) "rs_set (ai_gen i) \<noteq> {}" | (flt) "rs_set (ai_gen i) = {}" "rs_set (ai_float i) \<noteq> {}"
    | (none) "rs_set (ai_gen i) = {}" "rs_set (ai_float i) = {}" by blast
  then show ?case
  proof cases
    case gen
    obtain t where t: "rs_takeAny g flog (ai_gen i) = (if Max (rs_set (ai_gen i)) < c_total g then Some (Max (rs_set (ai_gen i)), t) else None)"
      "rs_set t = rs_set (ai_gen i) - {Max (rs_set (ai_gen i))}"
      using rs_takeAny_spec(1)[OF assms(1) gen] by blast
    have "card (rs_set t) + card (rs_set (ai_float i)) \<le> n"
      using Suc.prems gen t(2) card_gt_0_iff[of "rs_set (ai_gen i)"] by simp
    then show ?thesis
      using gen t(1) rs_takeAny_spec(2)[OF assms(1) gen, of g] rs_list_Max[OF gen t(2)] rs_valid_Max[OF gen t(2), of g]
        Suc.IH[of "i\<lparr>ai_gen := t\<rparr>"]
      by (simp add: ai_more_def ai_deref_def ai_next_def rs_empty_iff)
  next
    case flt
    obtain t where t: "rs_takeAny f flog (ai_float i) = (if Max (rs_set (ai_float i)) < c_total f then Some (Max (rs_set (ai_float i)), t) else None)"
      "rs_set t = rs_set (ai_float i) - {Max (rs_set (ai_float i))}"
      using rs_takeAny_spec(1)[OF assms(1) flt(2)] by blast
    have "card (rs_set (ai_gen i)) + card (rs_set t) \<le> n"
      using Suc.prems flt t(2) card_gt_0_iff[of "rs_set (ai_float i)"] by simp
    then show ?thesis
      using flt t(1) rs_takeAny_spec(2)[OF assms(1) flt(2), of f] rs_list_Max[OF flt(2) t(2)] rs_valid_Max[OF flt(2) t(2), of f]
        Suc.IH[of "i\<lparr>ai_float := t\<rparr>"]
      by (simp add: ai_more_def ai_deref_def ai_next_def rs_empty_iff rs_valid_def)
  next
    case none
    then show ?thesis by (simp add: ai_more_def rs_empty_iff rs_valid_def)
  qed
qed

text \<open>
  C9: iterating over a register set ends within 64 steps. If every register of the set exists in
  its register file no assertion fails and every register is visited exactly once: the general
  registers from the highest code down, then the float registers from the highest code down.
  Otherwise \<open>FromCode\<close> asserts.
\<close>

theorem register_iteration_complete:
  assumes "is_floor_log2 flog"
  shows "ai_iterate g f flog 64 \<lparr>ai_gen = gpr_set s, ai_float = fpu_set s\<rparr> =
    (if rs_set (gpr_set s) \<subseteq> {..<c_total g} \<and> rs_set (fpu_set s) \<subseteq> {..<c_total f}
     then Some (map Gpr (rev (sorted_list_of_set (rs_set (gpr_set s)))) @
       map Fpu (rev (sorted_list_of_set (rs_set (fpu_set s))))) else None)"
  using ai_iterate_spec[OF assms, of "\<lparr>ai_gen = gpr_set s, ai_float = fpu_set s\<rparr>" 64 g f]
    card_rs_set[of "gpr_set s"] card_rs_set[of "fpu_set s"] by (simp add: rs_valid_def)

theorem register_iteration_complete_witness:
  "ai_iterate codes_gpr_x64 codes_gpr_x64 floor_log2_scan 64 \<lparr>ai_gen = TypedRegisterSet 5, ai_float = TypedRegisterSet 8\<rparr> =
    Some (map Gpr (rev (sorted_list_of_set (rs_set (TypedRegisterSet 5)))) @
      map Fpu (rev (sorted_list_of_set (rs_set (TypedRegisterSet 8)))))"
proof -
  have "\<forall>n \<in> set [0..<32]. (bit (5::u32) n \<longrightarrow> n < 16) \<and> (bit (8::u32) n \<longrightarrow> n < 16)" by code_simp
  then have "rs_set (TypedRegisterSet 5) \<subseteq> {..<16}" "rs_set (TypedRegisterSet 8) \<subseteq> {..<16}"
    using rs_set_less by (force simp: rs_set_def TypedRegisterSet_def)+
  then show ?thesis
    using register_iteration_complete[OF floor_log2_scan_is_floor_log2, of codes_gpr_x64 codes_gpr_x64
        "\<lparr>gpr_set = TypedRegisterSet 5, fpu_set = TypedRegisterSet 8\<rparr>"] by (simp add: codes_gpr_x64_def)
qed

end
