(* ===== verification/Compact_Buffer.thy ===== *)
theory Compact_Buffer
  imports Ion_Prelude
begin

text \<open>
  \<open>ion/CompactBuffer.h\<close>: the byte streams that snapshots and safepoints are stored in, with
  fixed-width and variable-width integers.

  A reader is the list of bytes between its two pointers; reading past the end fails the
  assertion of \<open>readByte\<close>. A writer is its byte vector and the flag \<open>enoughMemory_\<close>.
  \<open>js::Vector\<close> is not part of these sources: whether \<open>append\<close> finds memory when the vector
  has a given length is the field \<open>cw_room\<close> of the writer, and a refused append leaves the
  vector as it was. The interface locale \<open>stream_codec\<close> states what an encoder and its
  decoder promise each other; the readers and writers below are instances of it.
\<close>

subsection \<open>Reader\<close>

type_synonym reader = "u8 list"

fun readByte :: "reader \<Rightarrow> (u8 \<times> reader) option" where
  "readByte [] = None"
| "readByte (b # bs) = Some (b, bs)"

text \<open>The loop of \<open>readVariableLength\<close>, with its assertion \<open>shift < 32\<close>.\<close>

fun readVariableLoop :: "u32 \<Rightarrow> nat \<Rightarrow> reader \<Rightarrow> (u32 \<times> reader) option" where
  "readVariableLoop val shift [] = None"
| "readVariableLoop val shift (byte # bs) =
     (if \<not> shift < 32 then None
      else let val' = val OR push_bit shift (drop_bit 1 (ucast byte)) in
        if byte AND 1 = 0 then Some (val', bs)
        else readVariableLoop val' (shift + 7) bs)"

definition readVariableLength :: "reader \<Rightarrow> (u32 \<times> reader) option" where
  "readVariableLength r = readVariableLoop 0 0 r"

definition readFixedUint32 :: "reader \<Rightarrow> (u32 \<times> reader) option" where
  "readFixedUint32 r = do {
     (b0, r) \<leftarrow> readByte r;
     (b1, r) \<leftarrow> readByte r;
     (b2, r) \<leftarrow> readByte r;
     (b3, r) \<leftarrow> readByte r;
     Some (ucast b0 OR push_bit 8 (ucast b1) OR push_bit 16 (ucast b2) OR push_bit 24 (ucast b3), r) }"

definition readUnsigned :: "reader \<Rightarrow> (u32 \<times> reader) option" where
  "readUnsigned r = readVariableLength r"

definition readSigned :: "reader \<Rightarrow> (i32 \<times> reader) option" where
  "readSigned r = do {
     (b, r) \<leftarrow> readByte r;
     let isNegative = (b AND 1 \<noteq> 0);
     let more = (b AND 2 \<noteq> 0);
     let result = (ucast (drop_bit 2 b) :: i32);
     (result, r) \<leftarrow> (if more then do {
         (u, r) \<leftarrow> readUnsigned r;
         Some (result OR push_bit 6 u, r) }
       else Some (result, r));
     Some (if isNegative then - result else result, r) }"

definition reader_more :: "reader \<Rightarrow> bool" where
  "reader_more r \<longleftrightarrow> r \<noteq> []"

text \<open>The loops \<open>for (i = 0; i < n; i++) \<dots> = read()\<close> of the clients.\<close>

primrec readMany :: "(reader \<Rightarrow> ('v \<times> reader) option) \<Rightarrow> nat \<Rightarrow> reader \<Rightarrow> ('v list \<times> reader) option" where
  "readMany rd 0 r = Some ([], r)"
| "readMany rd (Suc n) r = (case rd r of None \<Rightarrow> None
     | Some (v, r') \<Rightarrow> (case readMany rd n r' of None \<Rightarrow> None | Some (vs, r'') \<Rightarrow> Some (v # vs, r'')))"

subsection \<open>Writer\<close>

record writer =
  cw_buffer :: "u8 list"
  cw_enough :: bool
  cw_room :: "nat \<Rightarrow> bool"

definition writer_new :: "(nat \<Rightarrow> bool) \<Rightarrow> writer" where
  "writer_new room = \<lparr>cw_buffer = [], cw_enough = True, cw_room = room\<rparr>"

definition cw_length :: "writer \<Rightarrow> nat" where
  "cw_length w = length (cw_buffer w)"

definition cw_oom :: "writer \<Rightarrow> bool" where
  "cw_oom w \<longleftrightarrow> \<not> cw_enough w"

definition cw_append :: "u8 \<Rightarrow> writer \<Rightarrow> writer" where
  "cw_append b w =
     (if cw_room w (cw_length w) then w\<lparr>cw_buffer := cw_buffer w @ [b]\<rparr>
      else w\<lparr>cw_enough := False\<rparr>)"

text \<open>\<open>writeByte\<close> takes a \<open>uint32\<close> and asserts that it is a byte.\<close>

definition writeByte :: "u32 \<Rightarrow> writer \<Rightarrow> writer option" where
  "writeByte byte w = do { js_assert (byte \<le> 0xFF); Some (cw_append (ucast byte) w) }"

function writeUnsigned :: "u32 \<Rightarrow> writer \<Rightarrow> writer option" where
  "writeUnsigned value w =
     (let byte = (ucast (push_bit 1 (value AND 0x7F) OR (if value > 0x7F then 1 else 0)) :: u8) in
      case writeByte (ucast byte) w of None \<Rightarrow> None
      | Some w' \<Rightarrow>
          (let value' = drop_bit 7 value in
           if value' \<noteq> 0 then writeUnsigned value' w' else Some w'))"
  by pat_completeness auto
termination
  by (relation "measure (\<lambda>(v, w). unat v)") (auto intro!: unat_drop_bit_less)

declare writeUnsigned.simps [simp del]

text \<open>
  \<open>-v\<close> in \<open>writeSigned\<close> and \<open>-result\<close> in \<open>readSigned\<close> are negations of an \<open>int32\<close>. For
  \<open>INT32_MIN\<close> C++ leaves them undefined; the definitions wrap there, as two's complement code
  does, and \<open>negation_defined\<close> names the values where the sources say what happens.
\<close>

definition negation_defined :: "i32 \<Rightarrow> bool" where
  "negation_defined v \<longleftrightarrow> v \<noteq> - (2 ^ 31)"

lemma minus_int32_min: "- (- (2 ^ 31) :: i32) = - (2 ^ 31)"
  by simp

definition writeSigned :: "i32 \<Rightarrow> writer \<Rightarrow> writer option" where
  "writeSigned v w = do {
     let isNegative = (sint v < 0);
     let value = ((if isNegative then - v else v) :: u32);
     let byte = (ucast (push_bit 2 (value AND 0x3F) OR push_bit 1 (if value > 0x3F then 1 else 0)
                   OR (if isNegative then 1 else 0)) :: u8);
     w \<leftarrow> writeByte (ucast byte) w;
     let value = drop_bit 6 value;
     if value = 0 then Some w else writeUnsigned value w }"

definition writeFixedUint32 :: "u32 \<Rightarrow> writer \<Rightarrow> writer option" where
  "writeFixedUint32 value w = do {
     w \<leftarrow> writeByte (value AND 0xFF) w;
     w \<leftarrow> writeByte (drop_bit 8 value AND 0xFF) w;
     w \<leftarrow> writeByte (drop_bit 16 value AND 0xFF) w;
     writeByte (drop_bit 24 value AND 0xFF) w }"

text \<open>The constructor \<open>CompactBufferReader(const CompactBufferWriter &)\<close>.\<close>

definition reader_of_writer :: "writer \<Rightarrow> reader" where
  "reader_of_writer w = cw_buffer w"

subsection \<open>Encoders append bytes\<close>

text \<open>Every write appends a sequence of bytes, as long as the vector finds room.\<close>

definition cw_emit :: "u8 list \<Rightarrow> writer \<Rightarrow> writer" where
  "cw_emit bs w = fold cw_append bs w"

lemma cw_emit_simps [simp]:
  "cw_emit [] w = w" "cw_emit (b # bs) w = cw_emit bs (cw_append b w)"
  "cw_emit (as @ bs) w = cw_emit bs (cw_emit as w)"
  by (simp_all add: cw_emit_def)

lemma cw_enough_emit: "cw_enough (cw_emit bs w) \<Longrightarrow> cw_enough w"
proof (induction bs arbitrary: w)
  case Nil
  then show ?case by simp
next
  case (Cons b bs)
  then have "cw_enough (cw_append b w)" by simp
  then show ?case by (auto simp: cw_append_def split: if_splits)
qed

lemma cw_emit_unlimited:
  assumes "\<forall>n. cw_room w n" "cw_enough w"
  shows "cw_enough (cw_emit bs w)"
proof -
  have "cw_enough (cw_emit bs w) \<and> cw_room (cw_emit bs w) = cw_room w"
    using assms by (induction bs arbitrary: w) (auto simp: cw_append_def)
  then show ?thesis by simp
qed

lemma cw_buffer_emit: "cw_enough (cw_emit bs w) \<Longrightarrow> cw_buffer (cw_emit bs w) = cw_buffer w @ bs"
proof (induction bs arbitrary: w)
  case Nil
  then show ?case by simp
next
  case (Cons b bs)
  then have "cw_enough (cw_append b w)" using cw_enough_emit[of bs] by simp
  with Cons show ?case by (auto simp: cw_append_def split: if_splits)
qed

lemma writeByte_emit: "byte \<le> 0xFF \<Longrightarrow> writeByte byte w = Some (cw_emit [ucast byte] w)"
  by (simp add: writeByte_def)

lemma writeByte_u8 [simp]: "writeByte (ucast (b::u8)) w = Some (cw_append b w)"
  using writeByte_emit[OF ucast_u8_le] by simp


subsection \<open>Encoders and their decoders\<close>

text \<open>
  The contract of a codec: for the values in \<open>ok\<close>, the writer appends the bytes \<open>enc v\<close>,
  and the reader, standing in front of these bytes, returns the value and stops right after
  them. The client lemmas treat sequences of values and a stream read back after a write that
  reported no memory failure.
\<close>

locale stream_codec =
  fixes enc :: "'v \<Rightarrow> u8 list"
    and ok :: "'v \<Rightarrow> bool"
    and wr :: "'v \<Rightarrow> writer \<Rightarrow> writer option"
    and rd :: "reader \<Rightarrow> ('v \<times> reader) option"
  assumes write_law: "ok v \<Longrightarrow> wr v w = Some (cw_emit (enc v) w)"
    and read_law: "ok v \<Longrightarrow> rd (enc v @ r) = Some (v, r)"
begin

lemma write_list:
  "\<forall>v\<in>set vs. ok v \<Longrightarrow> mfold wr vs w = Some (cw_emit (concat (map enc vs)) w)"
  by (induction vs arbitrary: w) (auto simp: write_law)

lemma read_list:
  "\<forall>v\<in>set vs. ok v \<Longrightarrow> readMany rd (length vs) (concat (map enc vs) @ r) = Some (vs, r)"
  by (induction vs) (auto simp: read_law)

lemma roundtrip:
  assumes "ok v" "wr v w = Some w'" "\<not> cw_oom w'"
  shows "rd (drop (cw_length w) (reader_of_writer w') @ r) = Some (v, r)"
  using assms cw_buffer_emit[of "enc v" w]
  by (auto simp: write_law cw_oom_def reader_of_writer_def cw_length_def read_law)

end

subsection \<open>Unsigned integers\<close>

function unsigned_bytes :: "u32 \<Rightarrow> u8 list" where
  "unsigned_bytes value =
     ucast (push_bit 1 (value AND 0x7F) OR (if value > 0x7F then 1 else 0)) #
       (if drop_bit 7 value \<noteq> 0 then unsigned_bytes (drop_bit 7 value) else [])"
  by pat_completeness auto
termination
  by (relation "measure unat") (auto intro!: unat_drop_bit_less)

declare unsigned_bytes.simps [simp del]

lemma writeUnsigned_emit: "writeUnsigned v w = Some (cw_emit (unsigned_bytes v) w)"
proof (induction v w rule: writeUnsigned.induct)
  case (1 v w)
  then show ?case
    by (subst writeUnsigned.simps, subst unsigned_bytes.simps) (simp add: Let_def)
qed

lemma unsigned_byte_payload:
  fixes v :: u32 and c :: u32
  assumes "c = 0 \<or> c = 1"
  defines "byte \<equiv> (ucast (push_bit 1 (take_bit 7 v) OR c) :: u8)"
  shows "drop_bit 1 (ucast byte :: u32) = take_bit 7 v" "byte AND 1 = 0 \<longleftrightarrow> c = 0"
proof -
  have c: "bit c n \<longleftrightarrow> n = 0 \<and> c = 1" for n using assms(1) by (auto simp: bit_1_iff)
  have b: "bit (ucast byte :: u32) n \<longleftrightarrow> n < 8 \<and> (0 < n \<and> bit v (n - 1) \<or> n = 0 \<and> c = 1)" for n
    unfolding byte_def bit_ucast_iff bit_or_iff bit_push_bit_iff bit_take_bit_iff c
    by auto
  show "drop_bit 1 (ucast byte :: u32) = take_bit 7 v"
    by (rule bit_eqI) (auto simp only: bit_drop_bit_eq comp_def b bit_take_bit_iff; simp)
  have "byte AND 1 = 0 \<longleftrightarrow> \<not> bit byte 0" by (simp add: and_one_eq mod2_eq_if bit_0)
  also have "\<dots> \<longleftrightarrow> \<not> bit (ucast byte :: u32) 0" by (simp only: bit_ucast_iff) simp
  also have "\<dots> \<longleftrightarrow> c = 0" using b[of 0] assms(1) by auto
  finally show "byte AND 1 = 0 \<longleftrightarrow> c = 0" .
qed

lemma take_drop_or:
  fixes v :: "'a::len word"
  shows "push_bit s (take_bit k v) OR push_bit (s + k) (drop_bit k v) = push_bit s v"
proof (rule bit_eqI)
  fix n
  show "bit (push_bit s (take_bit k v) OR push_bit (s + k) (drop_bit k v)) n = bit (push_bit s v) n"
    by (cases "n < s + k")
      (auto simp: bit_or_iff bit_push_bit_iff bit_take_bit_iff bit_drop_bit_eq)
qed

lemma readVariableLoop_unsigned:
  "shift < 32 \<Longrightarrow> unat v < 2 ^ (32 - shift) \<Longrightarrow>
   readVariableLoop val shift (unsigned_bytes v @ r) = Some (val OR push_bit shift v, r)"
proof (induction v arbitrary: val shift rule: unsigned_bytes.induct)
  case (1 v)
  let ?c = "(if v > 0x7F then 1 else 0) :: u32"
  let ?b = "ucast (push_bit 1 (take_bit 7 v) OR ?c) :: u8"
  have c: "?c = 0 \<or> ?c = 1" "(?c = 0) = (drop_bit 7 v = 0)" by (auto simp: greater_masks)
  have p1: "drop_bit 1 (ucast ?b :: u32) = take_bit 7 v" and p2: "(?b AND 1 = 0) = (drop_bit 7 v = 0)"
    using unsigned_byte_payload[OF c(1), of v] c(2) by blast+
  have ub: "unsigned_bytes v = ?b # (if drop_bit 7 v \<noteq> 0 then unsigned_bytes (drop_bit 7 v) else [])"
    by (subst unsigned_bytes.simps) (simp only: and_masks)
  show ?case
  proof (cases "drop_bit 7 v = 0")
    case True
    then have "take_bit 7 v = v" using take_drop_or[of 0 7 v] by simp
    with True show ?thesis
      unfolding ub using p1 p2 "1.prems" by (simp only: append.simps if_True if_False simp_thms readVariableLoop.simps Let_def)
  next
    case False
    then have big: "2 ^ 7 \<le> unat v" by (simp add: drop_bit_zero_less not_less)
    have s7: "shift + 7 < 32"
    proof (rule ccontr)
      assume "\<not> shift + 7 < 32"
      then have "(2::nat) ^ (32 - shift) \<le> 2 ^ 7" by (intro power_increasing) auto
      with big "1.prems" show False by linarith
    qed
    have "unat (drop_bit 7 v) < 2 ^ (32 - (shift + 7))"
    proof -
      have e: "32 - shift = (32 - (shift + 7)) + 7" using s7 by simp
      have "unat v < 2 ^ (32 - (shift + 7)) * 2 ^ 7"
        using "1.prems"(2) unfolding e power_add .
      then show ?thesis
        unfolding unat_drop_bit_eq drop_bit_eq_div[of 7 "unat v"] by (simp add: div_less_iff_less_mult)
    qed
    then have "readVariableLoop (val OR push_bit shift (take_bit 7 v)) (shift + 7)
        (unsigned_bytes (drop_bit 7 v) @ r) =
      Some ((val OR push_bit shift (take_bit 7 v)) OR push_bit (shift + 7) (drop_bit 7 v), r)"
      using "1.IH"[OF False s7] by blast
    then show ?thesis
      unfolding ub using False p1 p2 "1.prems"
      by (simp only: append.simps if_True if_False simp_thms readVariableLoop.simps Let_def or.assoc take_drop_or)
  qed
qed

lemma readUnsigned_unsigned_bytes: "readUnsigned (unsigned_bytes v @ r) = Some (v, r)"
  using readVariableLoop_unsigned[of 0 v 0 r] unsigned_less[of v, where ?'a = nat]
  by (simp add: readUnsigned_def readVariableLength_def)

interpretation unsigned_codec: stream_codec unsigned_bytes "\<lambda>v. True" writeUnsigned readUnsigned
  by unfold_locales (simp_all add: writeUnsigned_emit readUnsigned_unsigned_bytes)

text \<open>
  Writing any 32-bit unsigned integer in the variable-width format never fails an
  assertion, and if the writer reports no memory failure, reading at the old end of the buffer
  gives the integer back and leaves exactly what follows it.
\<close>

theorem unsigned_roundtrip:
  assumes "writeUnsigned v w = Some w'" "\<not> cw_oom w'"
  shows "readUnsigned (drop (cw_length w) (reader_of_writer w') @ r) = Some (v, r)"
  using unsigned_codec.roundtrip[OF TrueI assms] .

theorem unsigned_roundtrip_witness:
  "\<exists>w'. writeUnsigned 300 (writer_new (\<lambda>n. True)) = Some w' \<and> \<not> cw_oom w' \<and>
    readUnsigned (drop 0 (reader_of_writer w') @ [7]) = Some (300, [7])"
proof -
  obtain w' where w': "writeUnsigned 300 (writer_new (\<lambda>n. True)) = Some w'" "\<not> cw_oom w'"
    by (simp add: writeUnsigned.simps writer_new_def cw_append_def cw_oom_def drop_bit_eq_div)
  from unsigned_roundtrip[OF w', of "[7]"] w' show ?thesis by (auto simp: writer_new_def cw_length_def)
qed

text \<open>The variable-width format uses one to five bytes, one per started group of seven bits.\<close>

lemma unsigned_bytes_length: "unat v < 2 ^ (7 * k) \<Longrightarrow> 0 < k \<Longrightarrow> length (unsigned_bytes v) \<le> k"
proof (induction k arbitrary: v)
  case (Suc k)
  show ?case
  proof (cases "drop_bit 7 v = 0")
    case True
    then show ?thesis by (subst unsigned_bytes.simps) simp
  next
    case False
    have "0 < k" using False Suc.prems(1) by (cases k) (auto simp: drop_bit_zero_less)
    have "unat v < 2 ^ (7 * k) * 2 ^ 7" using Suc.prems(1) by (simp add: power_add)
    then have "unat (drop_bit 7 v) < 2 ^ (7 * k)"
      unfolding unat_drop_bit_eq drop_bit_eq_div[of 7 "unat v"] by (simp add: div_less_iff_less_mult)
    with Suc.IH \<open>0 < k\<close> False show ?thesis by (subst unsigned_bytes.simps) simp
  qed
qed simp

subsection \<open>Signed integers\<close>

definition signed_magnitude :: "i32 \<Rightarrow> u32" where
  "signed_magnitude v = (if sint v < 0 then - v else v)"

definition signed_bytes :: "i32 \<Rightarrow> u8 list" where
  "signed_bytes v = (let value = signed_magnitude v in
     ucast (push_bit 2 (take_bit 6 value) OR push_bit 1 (if value > 0x3F then 1 else 0)
        OR (if sint v < 0 then 1 else 0)) #
     (if drop_bit 6 value = 0 then [] else unsigned_bytes (drop_bit 6 value)))"

lemma writeSigned_emit: "writeSigned v w = Some (cw_emit (signed_bytes v) w)"
  by (simp add: writeSigned_def signed_bytes_def signed_magnitude_def Let_def writeUnsigned_emit and_masks)

lemma signed_byte_payload:
  fixes m c d :: u32
  assumes "c = 0 \<or> c = 1" "d = 0 \<or> d = 1"
  defines "byte \<equiv> (ucast (push_bit 2 (take_bit 6 m) OR push_bit 1 c OR d) :: u8)"
  shows "ucast (drop_bit 2 byte) = take_bit 6 m" "byte AND 1 \<noteq> 0 \<longleftrightarrow> d = 1"
    "byte AND 2 \<noteq> 0 \<longleftrightarrow> c = 1"
proof -
  have cd: "bit c n \<longleftrightarrow> n = 0 \<and> c = 1" "bit d n \<longleftrightarrow> n = 0 \<and> d = 1" for n
    using assms(1,2) by (auto simp: bit_1_iff)
  have b: "bit byte n \<longleftrightarrow> n < 8 \<and> (2 \<le> n \<and> bit m (n - 2) \<or> n = 1 \<and> c = 1 \<or> n = 0 \<and> d = 1)" for n
    unfolding byte_def bit_ucast_iff bit_or_iff bit_push_bit_iff bit_take_bit_iff cd by auto
  show "ucast (drop_bit 2 byte) = take_bit 6 m"
    by (rule bit_eqI) (auto simp only: bit_drop_bit_eq comp_def b bit_take_bit_iff bit_ucast_iff; simp)
  show "byte AND 1 \<noteq> 0 \<longleftrightarrow> d = 1"
    using word_and_push_one[of 0 byte] b[of 0] by simp
  show "byte AND 2 \<noteq> 0 \<longleftrightarrow> c = 1"
    using word_and_push_one[of 1 byte] b[of 1] by simp
qed

lemma readSigned_signed_bytes: "readSigned (signed_bytes v @ r) = Some (v, r)"
proof -
  define m where "m = signed_magnitude v"
  let ?c = "(if m > 0x3F then 1 else 0) :: u32" and ?d = "(if sint v < 0 then 1 else 0) :: u32"
  let ?b = "ucast (push_bit 2 (take_bit 6 m) OR push_bit 1 ?c OR ?d) :: u8"
  have c: "?c = 0 \<or> ?c = 1" "?d = 0 \<or> ?d = 1" by auto
  note p = signed_byte_payload[OF c, of m]
  have p2: "(?b AND 1 \<noteq> 0) = (sint v < 0)" and p3: "(?b AND 2 \<noteq> 0) = (drop_bit 6 m \<noteq> 0)"
    using p(2,3) by (auto simp only: greater_masks zero_neq_one one_neq_zero split: if_splits)
  have val: "take_bit 6 m OR push_bit 6 (drop_bit 6 m) = m"
    using take_drop_or[of 0 6 m] by simp
  have bytes: "signed_bytes v = ?b # (if drop_bit 6 m = 0 then [] else unsigned_bytes (drop_bit 6 m))"
    by (simp only: signed_bytes_def Let_def m_def)
  have "readSigned (signed_bytes v @ r) = Some (if sint v < 0 then - m else m, r)"
    unfolding bytes readSigned_def
    using val p(1) p2 p3 readUnsigned_unsigned_bytes[of "drop_bit 6 m" r]
    by (cases "drop_bit 6 m = 0") (simp_all only: append.simps readByte.simps bind.simps prod.case Let_def
        if_True if_False simp_thms or.right_neutral push_bit_of_0)
  then show ?thesis by (simp add: m_def signed_magnitude_def split: if_splits)
qed

interpretation signed_codec: stream_codec signed_bytes "\<lambda>v. True" writeSigned readSigned
  by unfold_locales (simp_all add: writeSigned_emit readSigned_signed_bytes)

text \<open>
  C10: every 32-bit signed integer whose negation is defined (all but \<open>INT32_MIN\<close>, see
  \<open>negation_defined\<close>) survives a write in the signed variable-width format and a read at the
  old end of the buffer, when the writer reports no memory failure; and the reader's own
  negation, of the magnitude it has put together, is defined too.
\<close>

theorem signed_roundtrip:
  assumes "negation_defined v" "writeSigned v w = Some w'" "\<not> cw_oom w'"
  shows "readSigned (drop (cw_length w) (reader_of_writer w') @ r) = Some (v, r) \<and>
    (sint v < 0 \<longrightarrow> negation_defined (- v))"
proof
  show "readSigned (drop (cw_length w) (reader_of_writer w') @ r) = Some (v, r)"
    using signed_codec.roundtrip[OF TrueI assms(2,3)] .
  have "- v = -(2^31) \<Longrightarrow> v = - (2^31)" by (metis minus_minus minus_int32_min)
  with assms(1) show "sint v < 0 \<longrightarrow> negation_defined (- v)" by (auto simp: negation_defined_def)
qed

theorem signed_roundtrip_witness:
  "\<exists>w'. writeSigned (-5) (writer_new (\<lambda>n. True)) = Some w' \<and> \<not> cw_oom w' \<and>
    readSigned (drop 0 (reader_of_writer w') @ [7]) = Some (-5, [7])"
proof -
  have "writeSigned (-5) (writer_new (\<lambda>n. True)) = Some (cw_emit (signed_bytes (-5)) (writer_new (\<lambda>n. True)))"
    by (rule writeSigned_emit)
  moreover have "\<not> cw_oom (cw_emit bs (writer_new (\<lambda>n. True)))" for bs
    using cw_emit_unlimited[of "writer_new (\<lambda>n. True)"] by (simp add: writer_new_def cw_oom_def)
  moreover have "negation_defined (-5)" by (simp add: negation_defined_def)
  ultimately obtain w' where w': "negation_defined (-5)" "writeSigned (-5) (writer_new (\<lambda>n. True)) = Some w'"
    "\<not> cw_oom w'" by blast
  from signed_roundtrip[OF w', of "[7]"] w' show ?thesis by (auto simp: writer_new_def cw_length_def)
qed

subsection \<open>Fixed-width integers\<close>

definition fixed_bytes :: "u32 \<Rightarrow> u8 list" where
  "fixed_bytes v = [ucast v, ucast (drop_bit 8 v), ucast (drop_bit 16 v), ucast (drop_bit 24 v)]"

lemma ucast_take8: "(ucast (take_bit 8 (v::u32)) :: u8) = ucast v"
  by (rule bit_eqI) (auto simp: bit_ucast_iff bit_take_bit_iff)

lemma take8_le: "take_bit 8 (v::u32) \<le> 0xFF"
proof -
  have "unat (take_bit 8 v) < 2 ^ 8" by (simp only: unsigned_take_bit_eq take_bit_nat_less_exp)
  then show ?thesis by (simp add: word_le_nat_alt)
qed

lemma writeFixedUint32_emit: "writeFixedUint32 v w = Some (cw_emit (fixed_bytes v) w)"
  by (simp only: writeFixedUint32_def and_masks writeByte_emit[OF take8_le] bind.simps
      ucast_take8 fixed_bytes_def cw_emit_simps)

lemma readFixedUint32_fixed_bytes: "readFixedUint32 (fixed_bytes v @ r) = Some (v, r)"
proof -
  have "ucast (ucast v :: u8) OR push_bit 8 (ucast (ucast (drop_bit 8 v) :: u8)) OR
      push_bit 16 (ucast (ucast (drop_bit 16 v) :: u8)) OR push_bit 24 (ucast (ucast (drop_bit 24 v) :: u8)) = v"
  proof (rule bit_word_eqI)
    fix n assume "n < LENGTH(32)"
    then have "n < 8 \<or> 8 \<le> n \<and> n < 16 \<or> 16 \<le> n \<and> n < 24 \<or> 24 \<le> n \<and> n < 32" by auto
    then show "bit ((ucast (ucast v :: u8) :: u32) OR push_bit 8 (ucast (ucast (drop_bit 8 v) :: u8)) OR
      push_bit 16 (ucast (ucast (drop_bit 16 v) :: u8)) OR push_bit 24 (ucast (ucast (drop_bit 24 v) :: u8))) n = bit v n"
      by (elim disjE) (simp_all add: bit_or_iff bit_push_bit_iff bit_ucast_iff bit_drop_bit_eq, arith+)
  qed
  then show ?thesis by (simp add: readFixedUint32_def fixed_bytes_def)
qed

interpretation fixed_codec: stream_codec fixed_bytes "\<lambda>v. True" writeFixedUint32 readFixedUint32
  by unfold_locales (simp_all add: writeFixedUint32_emit readFixedUint32_fixed_bytes)

interpretation byte_codec: stream_codec "\<lambda>b. [b]" "\<lambda>b. True" "\<lambda>b. writeByte (ucast b)" readByte
  by unfold_locales simp_all

end
