(* ===== verification/Snapshots.thy ===== *)
theory Snapshots
  imports Compact_Buffer
begin

text \<open>
  \<open>ion/Snapshots.cpp\<close>, \<open>ion/SnapshotReader.h\<close> and \<open>ion/SnapshotWriter.h\<close>: the compressed
  description of where the values of an interpreter frame live when Ion code bails out, and the
  loop of \<open>CodeGeneratorShared::encode\<close> that writes one snapshot.

  Builds differ in the boxing format, the register files and in \<open>DEBUG\<close>; a record \<open>arch\<close>
  holds these choices and every operation takes it. Registers are their codes. The state of
  writer and reader is a record with the fields of the classes.
\<close>

subsection \<open>Build configuration and constants\<close>

record arch =
  a_punbox :: bool
  a_regs :: nat
  a_fregs :: nat
  a_ptr :: nat
  a_debug :: bool

text \<open>The enumerators after the last register, \<open>invalid_reg\<close> and \<open>invalid_xmm\<close>.\<close>

definition Registers_Invalid :: "arch \<Rightarrow> nat" where
  "Registers_Invalid a = a_regs a"

definition FloatRegisters_Invalid :: "arch \<Rightarrow> nat" where
  "FloatRegisters_Invalid a = a_fregs a"

definition arch_x86 :: "bool \<Rightarrow> arch" where
  "arch_x86 debug = \<lparr>a_punbox = False, a_regs = 8, a_fregs = 8, a_ptr = 4, a_debug = debug\<rparr>"

definition arch_x64 :: "bool \<Rightarrow> arch" where
  "arch_x64 debug = \<lparr>a_punbox = True, a_regs = 16, a_fregs = 16, a_ptr = 8, a_debug = debug\<rparr>"

datatype BailoutKind = Bailout_Normal | Bailout_ArgumentCheck | Bailout_TypeBarrier
  | Bailout_Monitor | Bailout_RecompileCheck

fun BailoutKind_code :: "BailoutKind \<Rightarrow> u32" where
  "BailoutKind_code Bailout_Normal = 0"
| "BailoutKind_code Bailout_ArgumentCheck = 1"
| "BailoutKind_code Bailout_TypeBarrier = 2"
| "BailoutKind_code Bailout_Monitor = 3"
| "BailoutKind_code Bailout_RecompileCheck = 4"

datatype JSValueType = JSVAL_TYPE_DOUBLE | JSVAL_TYPE_INT32 | JSVAL_TYPE_UNDEFINED
  | JSVAL_TYPE_BOOLEAN | JSVAL_TYPE_MAGIC | JSVAL_TYPE_STRING | JSVAL_TYPE_NULL | JSVAL_TYPE_OBJECT

fun JSValueType_code :: "JSValueType \<Rightarrow> nat" where
  "JSValueType_code JSVAL_TYPE_DOUBLE = 0"
| "JSValueType_code JSVAL_TYPE_INT32 = 1"
| "JSValueType_code JSVAL_TYPE_UNDEFINED = 2"
| "JSValueType_code JSVAL_TYPE_BOOLEAN = 3"
| "JSValueType_code JSVAL_TYPE_MAGIC = 4"
| "JSValueType_code JSVAL_TYPE_STRING = 5"
| "JSValueType_code JSVAL_TYPE_NULL = 6"
| "JSValueType_code JSVAL_TYPE_OBJECT = 7"

definition JSValueType_of_code :: "nat \<Rightarrow> JSValueType" where
  "JSValueType_of_code n = [JSVAL_TYPE_DOUBLE, JSVAL_TYPE_INT32, JSVAL_TYPE_UNDEFINED,
     JSVAL_TYPE_BOOLEAN, JSVAL_TYPE_MAGIC, JSVAL_TYPE_STRING, JSVAL_TYPE_NULL, JSVAL_TYPE_OBJECT] ! (n mod 8)"

abbreviation (input) "BAILOUT_KIND_BITS \<equiv> 3 :: nat"
abbreviation (input) "BAILOUT_RESUME_BITS \<equiv> 1 :: nat"

definition BAILOUT_KIND_SHIFT :: nat where "BAILOUT_KIND_SHIFT = 0"
definition BAILOUT_KIND_MASK :: u32 where "BAILOUT_KIND_MASK = 2 ^ BAILOUT_KIND_BITS - 1"
definition BAILOUT_RESUME_SHIFT :: nat where "BAILOUT_RESUME_SHIFT = BAILOUT_KIND_SHIFT + BAILOUT_KIND_BITS"
definition BAILOUT_FRAMECOUNT_SHIFT :: nat where
  "BAILOUT_FRAMECOUNT_SHIFT = BAILOUT_KIND_BITS + BAILOUT_RESUME_BITS"
definition BAILOUT_FRAMECOUNT_BITS :: nat where
  "BAILOUT_FRAMECOUNT_BITS = 8 * 4 - BAILOUT_FRAMECOUNT_SHIFT"

definition MAX_TYPE_FIELD_VALUE :: nat where "MAX_TYPE_FIELD_VALUE = 7"
definition MAX_REG_FIELD_VALUE :: nat where "MAX_REG_FIELD_VALUE = 31"
definition SINGLETON_VALUE :: nat where "SINGLETON_VALUE = 30"
definition NUNBOX32_STACK_STACK :: nat where "NUNBOX32_STACK_STACK = 0"
definition NUNBOX32_STACK_REG :: nat where "NUNBOX32_STACK_REG = 1"
definition NUNBOX32_REG_STACK :: nat where "NUNBOX32_REG_STACK = 2"
definition NUNBOX32_REG_REG :: nat where "NUNBOX32_REG_REG = 3"

lemmas snapshot_consts = Registers_Invalid_def FloatRegisters_Invalid_def
  MAX_TYPE_FIELD_VALUE_def MAX_REG_FIELD_VALUE_def SINGLETON_VALUE_def NUNBOX32_STACK_STACK_def
  NUNBOX32_STACK_REG_def NUNBOX32_REG_STACK_def NUNBOX32_REG_REG_def

lemmas header_consts = BAILOUT_KIND_SHIFT_def BAILOUT_KIND_MASK_def BAILOUT_RESUME_SHIFT_def
  BAILOUT_FRAMECOUNT_SHIFT_def BAILOUT_FRAMECOUNT_BITS_def

subsection \<open>Locations and slots\<close>

text \<open>\<open>SnapshotReader::Location\<close>: a register code, or a stack slot other than \<open>INVALID_STACK_SLOT\<close>.\<close>

record location =
  loc_reg :: nat
  loc_stackSlot :: i32

definition INVALID_STACK_SLOT :: i32 where "INVALID_STACK_SLOT = -1"

definition Location_FromReg :: "nat \<Rightarrow> location" where
  "Location_FromReg r = \<lparr>loc_reg = r, loc_stackSlot = INVALID_STACK_SLOT\<rparr>"

definition Location_FromStack :: "i32 \<Rightarrow> location" where
  "Location_FromStack s = \<lparr>loc_reg = 0, loc_stackSlot = s\<rparr>"

definition isStackSlot :: "location \<Rightarrow> bool" where
  "isStackSlot l \<longleftrightarrow> loc_stackSlot l \<noteq> INVALID_STACK_SLOT"

datatype slot =
    CONSTANT u32
  | DOUBLE_REG nat
  | TYPED_REG JSValueType location
  | TYPED_STACK JSValueType location
  | UNTYPED_NUNBOX location location
  | UNTYPED_PUNBOX location
  | JS_UNDEFINED
  | JS_NULL
  | JS_INT32 i32

subsection \<open>Writer\<close>

record snapshot_writer =
  sw_writer :: writer
  sw_nslots :: nat
  sw_slotsWritten :: nat
  sw_nframes :: nat
  sw_framesWritten :: nat
  sw_lastStart :: nat

definition sw_lift :: "(writer \<Rightarrow> writer option) \<Rightarrow> snapshot_writer \<Rightarrow> snapshot_writer option" where
  "sw_lift f sw = do { w \<leftarrow> f (sw_writer sw); Some (sw\<lparr>sw_writer := w\<rparr>) }"

definition startSnapshot :: "u32 \<Rightarrow> u32 \<Rightarrow> bool \<Rightarrow> snapshot_writer \<Rightarrow> (nat \<times> snapshot_writer) option" where
  "startSnapshot frameCount kind resumeAfter sw = do {
     let sw = sw\<lparr>sw_nframes := unat frameCount, sw_framesWritten := 0,
                 sw_lastStart := cw_length (sw_writer sw)\<rparr>;
     js_assert (frameCount > 0);
     js_assert (frameCount < 2 ^ BAILOUT_FRAMECOUNT_BITS);
     js_assert (kind < 2 ^ BAILOUT_KIND_BITS);
     let bits = push_bit BAILOUT_KIND_SHIFT kind OR push_bit BAILOUT_FRAMECOUNT_SHIFT frameCount;
     let bits = (if resumeAfter then bits OR push_bit BAILOUT_RESUME_SHIFT 1 else bits);
     sw \<leftarrow> sw_lift (writeUnsigned bits) sw;
     Some (sw_lastStart sw, sw) }"

text \<open>
  What \<open>startFrame\<close> reads of the function, the script and the program counter: the number of
  formals (\<open>None\<close> for a global script), \<open>nfixed\<close>, the length of the bytecode, the offset of the
  program counter, and the bytes of the script pointer that debug builds store.
\<close>

record frame_info =
  fi_nargs :: "nat option"
  fi_nfixed :: nat
  fi_length :: u32
  fi_pcoff :: u32
  fi_script :: "u8 list"

definition CountArgSlots :: "nat option \<Rightarrow> nat" where
  "CountArgSlots fn = (case fn of Some nargs \<Rightarrow> nargs + 2 | None \<Rightarrow> 1)"

definition SNAPSHOT_MAX_NARGS :: nat where "SNAPSHOT_MAX_NARGS = 127"
definition SNAPSHOT_MAX_STACK :: nat where "SNAPSHOT_MAX_STACK = 127"

definition startFrame :: "arch \<Rightarrow> frame_info \<Rightarrow> nat \<Rightarrow> snapshot_writer \<Rightarrow> snapshot_writer option" where
  "startFrame a fi exprStack sw = do {
     js_assert (CountArgSlots (fi_nargs fi) < SNAPSHOT_MAX_NARGS);
     js_assert (exprStack < SNAPSHOT_MAX_STACK);
     let formalArgs = CountArgSlots (fi_nargs fi);
     let sw = sw\<lparr>sw_nslots := formalArgs + fi_nfixed fi + exprStack, sw_slotsWritten := 0\<rparr>;
     sw \<leftarrow> (if a_debug a then sw_lift (mfold (\<lambda>b. writeByte (ucast b)) (fi_script fi)) sw else Some sw);
     js_assert (fi_pcoff fi \<le> fi_length fi);
     sw \<leftarrow> sw_lift (writeUnsigned (fi_pcoff fi)) sw;
     sw_lift (writeUnsigned (of_nat (sw_nslots sw))) sw }"

definition trackFrame :: "u32 \<Rightarrow> u32 \<Rightarrow> u32 \<Rightarrow> u32 \<Rightarrow> u32 \<Rightarrow> snapshot_writer \<Rightarrow> snapshot_writer option" where
  "trackFrame pcOpcode mirOpcode mirId lirOpcode lirId sw = do {
     sw \<leftarrow> sw_lift (writeUnsigned pcOpcode) sw;
     sw \<leftarrow> sw_lift (writeUnsigned mirOpcode) sw;
     sw \<leftarrow> sw_lift (writeUnsigned mirId) sw;
     sw \<leftarrow> sw_lift (writeUnsigned lirOpcode) sw;
     sw_lift (writeUnsigned lirId) sw }"

definition endFrame :: "snapshot_writer \<Rightarrow> snapshot_writer option" where
  "endFrame sw = do {
     js_assert (sw_nslots sw = sw_slotsWritten sw);
     Some (sw\<lparr>sw_nslots := 0, sw_slotsWritten := 0, sw_framesWritten := sw_framesWritten sw + 1\<rparr>) }"

definition writeSlotHeader :: "JSValueType \<Rightarrow> nat \<Rightarrow> snapshot_writer \<Rightarrow> snapshot_writer option" where
  "writeSlotHeader type regCode sw = do {
     js_assert (JSValueType_code type \<le> MAX_TYPE_FIELD_VALUE);
     js_assert (regCode \<le> MAX_REG_FIELD_VALUE);
     let byte = (of_nat (JSValueType_code type) OR push_bit 3 (of_nat regCode) :: u8);
     sw \<leftarrow> sw_lift (writeByte (ucast byte)) sw;
     let sw = sw\<lparr>sw_slotsWritten := sw_slotsWritten sw + 1\<rparr>;
     js_assert (sw_slotsWritten sw \<le> sw_nslots sw);
     Some sw }"

definition addSlot_float :: "nat \<Rightarrow> snapshot_writer \<Rightarrow> snapshot_writer option" where
  "addSlot_float reg sw = writeSlotHeader JSVAL_TYPE_DOUBLE reg sw"

definition addSlot_reg :: "JSValueType \<Rightarrow> nat \<Rightarrow> snapshot_writer \<Rightarrow> snapshot_writer option" where
  "addSlot_reg type reg sw = do {
     js_assert (type \<noteq> JSVAL_TYPE_DOUBLE);
     writeSlotHeader type reg sw }"

definition addSlot_stack :: "arch \<Rightarrow> JSValueType \<Rightarrow> i32 \<Rightarrow> snapshot_writer \<Rightarrow> snapshot_writer option" where
  "addSlot_stack a type stackIndex sw = do {
     sw \<leftarrow> (if type = JSVAL_TYPE_DOUBLE then writeSlotHeader type (FloatRegisters_Invalid a) sw
           else writeSlotHeader type (Registers_Invalid a) sw);
     sw_lift (writeSigned stackIndex) sw }"

definition addSlot_reg_reg :: "nat \<Rightarrow> nat \<Rightarrow> snapshot_writer \<Rightarrow> snapshot_writer option" where
  "addSlot_reg_reg type payload sw = do {
     sw \<leftarrow> writeSlotHeader JSVAL_TYPE_MAGIC NUNBOX32_REG_REG sw;
     sw \<leftarrow> sw_lift (writeByte (of_nat type)) sw;
     sw_lift (writeByte (of_nat payload)) sw }"

definition addSlot_reg_stack :: "nat \<Rightarrow> i32 \<Rightarrow> snapshot_writer \<Rightarrow> snapshot_writer option" where
  "addSlot_reg_stack type payloadStackIndex sw = do {
     sw \<leftarrow> writeSlotHeader JSVAL_TYPE_MAGIC NUNBOX32_REG_STACK sw;
     sw \<leftarrow> sw_lift (writeByte (of_nat type)) sw;
     sw_lift (writeSigned payloadStackIndex) sw }"

definition addSlot_stack_reg :: "i32 \<Rightarrow> nat \<Rightarrow> snapshot_writer \<Rightarrow> snapshot_writer option" where
  "addSlot_stack_reg typeStackIndex payload sw = do {
     sw \<leftarrow> writeSlotHeader JSVAL_TYPE_MAGIC NUNBOX32_STACK_REG sw;
     sw \<leftarrow> sw_lift (writeSigned typeStackIndex) sw;
     sw_lift (writeByte (of_nat payload)) sw }"

definition addSlot_stack_stack :: "i32 \<Rightarrow> i32 \<Rightarrow> snapshot_writer \<Rightarrow> snapshot_writer option" where
  "addSlot_stack_stack typeStackIndex payloadStackIndex sw = do {
     sw \<leftarrow> writeSlotHeader JSVAL_TYPE_MAGIC NUNBOX32_STACK_STACK sw;
     sw \<leftarrow> sw_lift (writeSigned typeStackIndex) sw;
     sw_lift (writeSigned payloadStackIndex) sw }"

definition addSlot_value_reg :: "nat \<Rightarrow> snapshot_writer \<Rightarrow> snapshot_writer option" where
  "addSlot_value_reg v sw = writeSlotHeader JSVAL_TYPE_MAGIC v sw"

definition addSlot_value_stack :: "arch \<Rightarrow> i32 \<Rightarrow> snapshot_writer \<Rightarrow> snapshot_writer option" where
  "addSlot_value_stack a valueStackSlot sw = do {
     sw \<leftarrow> writeSlotHeader JSVAL_TYPE_MAGIC (Registers_Invalid a) sw;
     sw_lift (writeSigned valueStackSlot) sw }"

definition addUndefinedSlot :: "snapshot_writer \<Rightarrow> snapshot_writer option" where
  "addUndefinedSlot sw = writeSlotHeader JSVAL_TYPE_UNDEFINED SINGLETON_VALUE sw"

definition addNullSlot :: "snapshot_writer \<Rightarrow> snapshot_writer option" where
  "addNullSlot sw = writeSlotHeader JSVAL_TYPE_NULL SINGLETON_VALUE sw"

definition addInt32Slot :: "i32 \<Rightarrow> snapshot_writer \<Rightarrow> snapshot_writer option" where
  "addInt32Slot v sw =
     (if 0 \<le> sint v \<and> unat v < SINGLETON_VALUE then writeSlotHeader JSVAL_TYPE_NULL (unat v) sw
      else do {
        sw \<leftarrow> writeSlotHeader JSVAL_TYPE_NULL MAX_REG_FIELD_VALUE sw;
        sw_lift (writeSigned v) sw })"

definition addConstantPoolSlot :: "u32 \<Rightarrow> snapshot_writer \<Rightarrow> snapshot_writer option" where
  "addConstantPoolSlot index sw =
     (if unat index < SINGLETON_VALUE then writeSlotHeader JSVAL_TYPE_UNDEFINED (unat index) sw
      else do {
        sw \<leftarrow> writeSlotHeader JSVAL_TYPE_UNDEFINED MAX_REG_FIELD_VALUE sw;
        sw_lift (writeUnsigned index) sw })"

definition endSnapshot :: "arch \<Rightarrow> snapshot_writer \<Rightarrow> snapshot_writer option" where
  "endSnapshot a sw = do {
     js_assert (sw_nframes sw = sw_framesWritten sw);
     if a_debug a then sw_lift (writeSigned (-1)) sw else Some sw }"

definition MAX_BUFFER_SIZE :: nat where "MAX_BUFFER_SIZE = 2 ^ 30 - 1"

definition sw_oom :: "snapshot_writer \<Rightarrow> bool" where
  "sw_oom sw \<longleftrightarrow> cw_oom (sw_writer sw) \<or> cw_length (sw_writer sw) \<ge> MAX_BUFFER_SIZE"

subsection \<open>Reader\<close>

record snapshot_reader =
  sr_reader :: reader
  sr_pcOffset :: u32
  sr_slotCount :: nat
  sr_frameCount :: nat
  sr_bailoutKind :: u32
  sr_framesRead :: nat
  sr_slotsRead :: nat
  sr_resumeAfter :: bool
  sr_script :: "u8 list"
  sr_track :: "u32 list"

definition sr_lift :: "(reader \<Rightarrow> ('v \<times> reader) option) \<Rightarrow> snapshot_reader \<Rightarrow> ('v \<times> snapshot_reader) option" where
  "sr_lift f sr = do { (v, r) \<leftarrow> f (sr_reader sr); Some (v, sr\<lparr>sr_reader := r\<rparr>) }"

definition readSnapshotHeader :: "snapshot_reader \<Rightarrow> snapshot_reader option" where
  "readSnapshotHeader sr = do {
     (bits, sr) \<leftarrow> sr_lift readUnsigned sr;
     let sr = sr\<lparr>sr_frameCount := unat (drop_bit BAILOUT_FRAMECOUNT_SHIFT bits)\<rparr>;
     js_assert (sr_frameCount sr > 0);
     Some (sr\<lparr>sr_bailoutKind := drop_bit BAILOUT_KIND_SHIFT bits AND BAILOUT_KIND_MASK,
              sr_resumeAfter := (bits AND push_bit BAILOUT_RESUME_SHIFT 1 \<noteq> 0),
              sr_framesRead := 0\<rparr>) }"

definition moreFrames :: "snapshot_reader \<Rightarrow> bool" where
  "moreFrames sr \<longleftrightarrow> sr_framesRead sr < sr_frameCount sr"

definition sr_isResumeAfter :: "snapshot_reader \<Rightarrow> bool" where
  "sr_isResumeAfter sr = (if moreFrames sr then False else sr_resumeAfter sr)"

definition moreSlots :: "snapshot_reader \<Rightarrow> bool" where
  "moreSlots sr \<longleftrightarrow> sr_slotsRead sr < sr_slotCount sr"

definition readFrameHeader :: "arch \<Rightarrow> snapshot_reader \<Rightarrow> snapshot_reader option" where
  "readFrameHeader a sr = do {
     js_assert (moreFrames sr);
     js_assert (sr_slotsRead sr = sr_slotCount sr);
     sr \<leftarrow> (if a_debug a then do {
         (bs, sr) \<leftarrow> sr_lift (readMany readByte (a_ptr a)) sr;
         Some (sr\<lparr>sr_script := bs\<rparr>) } else Some sr);
     (pcOffset, sr) \<leftarrow> sr_lift readUnsigned sr;
     (slotCount, sr) \<leftarrow> sr_lift readUnsigned sr;
     let sr = sr\<lparr>sr_pcOffset := pcOffset, sr_slotCount := unat slotCount\<rparr>;
     sr \<leftarrow> (if a_debug a then do {
         (tr, sr) \<leftarrow> sr_lift (readMany readUnsigned 5) sr;
         Some (sr\<lparr>sr_track := tr\<rparr>) } else Some sr);
     Some (sr\<lparr>sr_framesRead := sr_framesRead sr + 1, sr_slotsRead := 0\<rparr>) }"

text \<open>The constructor, on a buffer that is not \<open>NULL\<close>. Fields it leaves unset are arguments.\<close>

definition SnapshotReader :: "arch \<Rightarrow> snapshot_reader \<Rightarrow> reader \<Rightarrow> snapshot_reader option" where
  "SnapshotReader a unset buf = do {
     let sr = unset\<lparr>sr_reader := buf, sr_slotCount := 0, sr_frameCount := 0, sr_slotsRead := 0\<rparr>;
     sr \<leftarrow> readSnapshotHeader sr;
     readFrameHeader a sr }"

definition Register_FromCode :: "arch \<Rightarrow> nat \<Rightarrow> nat option" where
  "Register_FromCode a i = do { js_assert (i < a_regs a); Some i }"

definition FloatRegister_FromCode :: "arch \<Rightarrow> nat \<Rightarrow> nat option" where
  "FloatRegister_FromCode a i = do { js_assert (i < a_fregs a); Some i }"

definition read_stack_loc :: "reader \<Rightarrow> (location \<times> reader) option" where
  "read_stack_loc r = do { (s, r) \<leftarrow> readSigned r; Some (Location_FromStack s, r) }"

definition read_reg_loc :: "arch \<Rightarrow> reader \<Rightarrow> (location \<times> reader) option" where
  "read_reg_loc a r = do {
     (b, r) \<leftarrow> readByte r;
     reg \<leftarrow> Register_FromCode a (unat b);
     Some (Location_FromReg reg, r) }"

definition readSlotBody :: "arch \<Rightarrow> JSValueType \<Rightarrow> nat \<Rightarrow> reader \<Rightarrow> (slot \<times> reader) option" where
  "readSlotBody a type code r = (case type of
     JSVAL_TYPE_DOUBLE \<Rightarrow>
       if code \<noteq> FloatRegisters_Invalid a then do {
         f \<leftarrow> FloatRegister_FromCode a code; Some (DOUBLE_REG f, r) }
       else do { (l, r) \<leftarrow> read_stack_loc r; Some (TYPED_STACK type l, r) }
   | JSVAL_TYPE_NULL \<Rightarrow>
       if code = SINGLETON_VALUE then Some (JS_NULL, r)
       else if code = MAX_REG_FIELD_VALUE then do { (v, r) \<leftarrow> readSigned r; Some (JS_INT32 v, r) }
       else Some (JS_INT32 (of_nat code), r)
   | JSVAL_TYPE_UNDEFINED \<Rightarrow>
       if code = SINGLETON_VALUE then Some (JS_UNDEFINED, r)
       else if code = MAX_REG_FIELD_VALUE then do { (v, r) \<leftarrow> readUnsigned r; Some (CONSTANT v, r) }
       else Some (CONSTANT (of_nat code), r)
   | JSVAL_TYPE_MAGIC \<Rightarrow>
       if a_punbox a then
         if code \<noteq> Registers_Invalid a then do {
           reg \<leftarrow> Register_FromCode a code; Some (UNTYPED_PUNBOX (Location_FromReg reg), r) }
         else do { (l, r) \<leftarrow> read_stack_loc r; Some (UNTYPED_PUNBOX l, r) }
       else if code = NUNBOX32_STACK_STACK then do {
         (t, r) \<leftarrow> read_stack_loc r; (p, r) \<leftarrow> read_stack_loc r; Some (UNTYPED_NUNBOX t p, r) }
       else if code = NUNBOX32_STACK_REG then do {
         (t, r) \<leftarrow> read_stack_loc r; (p, r) \<leftarrow> read_reg_loc a r; Some (UNTYPED_NUNBOX t p, r) }
       else if code = NUNBOX32_REG_STACK then do {
         (t, r) \<leftarrow> read_reg_loc a r; (p, r) \<leftarrow> read_stack_loc r; Some (UNTYPED_NUNBOX t p, r) }
       else do {
         js_assert (code = NUNBOX32_REG_REG);
         (t, r) \<leftarrow> read_reg_loc a r; (p, r) \<leftarrow> read_reg_loc a r; Some (UNTYPED_NUNBOX t p, r) }
   | _ \<Rightarrow>
       if code \<noteq> Registers_Invalid a then do {
         reg \<leftarrow> Register_FromCode a code; Some (TYPED_REG type (Location_FromReg reg), r) }
       else do { (l, r) \<leftarrow> read_stack_loc r; Some (TYPED_STACK type l, r) })"

definition readSlot :: "arch \<Rightarrow> snapshot_reader \<Rightarrow> (slot \<times> snapshot_reader) option" where
  "readSlot a sr = do {
     js_assert (sr_slotsRead sr < sr_slotCount sr);
     let sr = sr\<lparr>sr_slotsRead := sr_slotsRead sr + 1\<rparr>;
     (b, sr) \<leftarrow> sr_lift readByte sr;
     sr_lift (readSlotBody a (JSValueType_of_code (unat (b AND 7))) (unat (drop_bit 3 b))) sr }"

subsection \<open>Writing one snapshot\<close>

text \<open>
  The calls that record an operand of a resume point, one constructor per overload of
  \<open>addSlot\<close> and per \<open>add\<dots>Slot\<close> method of the writer. Which of them \<open>encodeSlots\<close> makes for an
  operand is the subject of \<open>Snapshot_Encoding\<close>; here a frame is given by its calls.
\<close>

datatype slot_entry =
    FloatEntry nat
  | RegEntry JSValueType nat
  | StackEntry JSValueType i32
  | RegRegEntry nat nat
  | RegStackEntry nat i32
  | StackRegEntry i32 nat
  | StackStackEntry i32 i32
  | ValueRegEntry nat
  | ValueStackEntry i32
  | UndefinedEntry
  | NullEntry
  | Int32Entry i32
  | ConstantEntry u32

fun addEntry :: "arch \<Rightarrow> slot_entry \<Rightarrow> snapshot_writer \<Rightarrow> snapshot_writer option" where
  "addEntry a (FloatEntry r) = addSlot_float r"
| "addEntry a (RegEntry t r) = addSlot_reg t r"
| "addEntry a (StackEntry t i) = addSlot_stack a t i"
| "addEntry a (RegRegEntry t p) = addSlot_reg_reg t p"
| "addEntry a (RegStackEntry t p) = addSlot_reg_stack t p"
| "addEntry a (StackRegEntry t p) = addSlot_stack_reg t p"
| "addEntry a (StackStackEntry t p) = addSlot_stack_stack t p"
| "addEntry a (ValueRegEntry v) = addSlot_value_reg v"
| "addEntry a (ValueStackEntry v) = addSlot_value_stack a v"
| "addEntry a UndefinedEntry = addUndefinedSlot"
| "addEntry a NullEntry = addNullSlot"
| "addEntry a (Int32Entry v) = addInt32Slot v"
| "addEntry a (ConstantEntry i) = addConstantPoolSlot i"

text \<open>One flattened resume point: what \<open>startFrame\<close> and \<open>trackFrame\<close> get, and the operands.\<close>

record frame_desc =
  fd_info :: frame_info
  fd_exprStack :: nat
  fd_track :: "u32 list"
  fd_slots :: "slot_entry list"

definition encodeFrame :: "arch \<Rightarrow> frame_desc \<Rightarrow> snapshot_writer \<Rightarrow> snapshot_writer option" where
  "encodeFrame a fd sw = do {
     sw \<leftarrow> startFrame a (fd_info fd) (fd_exprStack fd) sw;
     sw \<leftarrow> (if a_debug a then trackFrame (fd_track fd ! 0) (fd_track fd ! 1) (fd_track fd ! 2)
              (fd_track fd ! 3) (fd_track fd ! 4) sw else Some sw);
     sw \<leftarrow> mfold (addEntry a) (fd_slots fd) sw;
     endFrame sw }"

definition encodeSnapshot ::
  "arch \<Rightarrow> BailoutKind \<Rightarrow> bool \<Rightarrow> frame_desc list \<Rightarrow> snapshot_writer \<Rightarrow> (nat \<times> snapshot_writer) option" where
  "encodeSnapshot a kind resumeAfter fds sw = do {
     (offset, sw) \<leftarrow> startSnapshot (of_nat (length fds)) (BailoutKind_code kind) resumeAfter sw;
     sw \<leftarrow> mfold (encodeFrame a) fds sw;
     sw \<leftarrow> endSnapshot a sw;
     Some (offset, sw) }"

text \<open>
  The client loops of a bailout: read every slot of the current frame, then go to the next
  frame while there are more.
\<close>

primrec readSlots :: "arch \<Rightarrow> nat \<Rightarrow> snapshot_reader \<Rightarrow> (slot list \<times> snapshot_reader) option" where
  "readSlots a 0 sr = Some ([], sr)"
| "readSlots a (Suc n) sr = do {
     (s, sr) \<leftarrow> readSlot a sr;
     (ss, sr) \<leftarrow> readSlots a n sr;
     Some (s # ss, sr) }"

fun readFrames :: "arch \<Rightarrow> nat \<Rightarrow> snapshot_reader \<Rightarrow> ((u32 \<times> slot list) list \<times> snapshot_reader) option" where
  "readFrames a n sr = do {
     (ss, sr') \<leftarrow> readSlots a (sr_slotCount sr) sr;
     let frame = (sr_pcOffset sr, ss);
     (case n of 0 \<Rightarrow> Some ([frame], sr')
      | Suc m \<Rightarrow> do {
          sr' \<leftarrow> readFrameHeader a sr';
          (fs, sr') \<leftarrow> readFrames a m sr';
          Some (frame # fs, sr') }) }"

declare readFrames.simps [simp del]

subsection \<open>What the encoder writes and the decoder reads\<close>

definition wf_arch :: "arch \<Rightarrow> bool" where
  "wf_arch a \<longleftrightarrow> a_regs a \<le> 31 \<and> a_fregs a \<le> 31"

lemma wf_arch_x86 [simp]: "wf_arch (arch_x86 d)" and wf_arch_x64 [simp]: "wf_arch (arch_x64 d)"
  by (simp_all add: wf_arch_def arch_x86_def arch_x64_def)

definition payload_type :: "JSValueType \<Rightarrow> bool" where
  "payload_type t \<longleftrightarrow> t \<in> {JSVAL_TYPE_INT32, JSVAL_TYPE_STRING, JSVAL_TYPE_OBJECT, JSVAL_TYPE_BOOLEAN}"

fun wf_entry :: "arch \<Rightarrow> slot_entry \<Rightarrow> bool" where
  "wf_entry a (FloatEntry r) \<longleftrightarrow> r < a_fregs a"
| "wf_entry a (RegEntry t r) \<longleftrightarrow> payload_type t \<and> r < a_regs a"
| "wf_entry a (StackEntry t i) \<longleftrightarrow> payload_type t \<or> t = JSVAL_TYPE_DOUBLE"
| "wf_entry a (RegRegEntry t p) \<longleftrightarrow> \<not> a_punbox a \<and> t < a_regs a \<and> p < a_regs a"
| "wf_entry a (RegStackEntry t p) \<longleftrightarrow> \<not> a_punbox a \<and> t < a_regs a"
| "wf_entry a (StackRegEntry t p) \<longleftrightarrow> \<not> a_punbox a \<and> p < a_regs a"
| "wf_entry a (StackStackEntry t p) \<longleftrightarrow> \<not> a_punbox a"
| "wf_entry a (ValueRegEntry v) \<longleftrightarrow> a_punbox a \<and> v < a_regs a"
| "wf_entry a (ValueStackEntry v) \<longleftrightarrow> a_punbox a"
| "wf_entry a _ \<longleftrightarrow> True"

fun slot_of_entry :: "slot_entry \<Rightarrow> slot" where
  "slot_of_entry (FloatEntry r) = DOUBLE_REG r"
| "slot_of_entry (RegEntry t r) = TYPED_REG t (Location_FromReg r)"
| "slot_of_entry (StackEntry t i) = TYPED_STACK t (Location_FromStack i)"
| "slot_of_entry (RegRegEntry t p) = UNTYPED_NUNBOX (Location_FromReg t) (Location_FromReg p)"
| "slot_of_entry (RegStackEntry t p) = UNTYPED_NUNBOX (Location_FromReg t) (Location_FromStack p)"
| "slot_of_entry (StackRegEntry t p) = UNTYPED_NUNBOX (Location_FromStack t) (Location_FromReg p)"
| "slot_of_entry (StackStackEntry t p) = UNTYPED_NUNBOX (Location_FromStack t) (Location_FromStack p)"
| "slot_of_entry (ValueRegEntry v) = UNTYPED_PUNBOX (Location_FromReg v)"
| "slot_of_entry (ValueStackEntry v) = UNTYPED_PUNBOX (Location_FromStack v)"
| "slot_of_entry UndefinedEntry = JS_UNDEFINED"
| "slot_of_entry NullEntry = JS_NULL"
| "slot_of_entry (Int32Entry v) = JS_INT32 v"
| "slot_of_entry (ConstantEntry i) = CONSTANT i"

definition header_byte :: "JSValueType \<Rightarrow> nat \<Rightarrow> u8" where
  "header_byte t c = of_nat (JSValueType_code t) OR push_bit 3 (of_nat c)"

fun entry_header :: "arch \<Rightarrow> slot_entry \<Rightarrow> JSValueType \<times> nat" where
  "entry_header a (FloatEntry r) = (JSVAL_TYPE_DOUBLE, r)"
| "entry_header a (RegEntry t r) = (t, r)"
| "entry_header a (StackEntry t i) = (t, if t = JSVAL_TYPE_DOUBLE then a_fregs a else a_regs a)"
| "entry_header a (RegRegEntry t p) = (JSVAL_TYPE_MAGIC, 3)"
| "entry_header a (RegStackEntry t p) = (JSVAL_TYPE_MAGIC, 2)"
| "entry_header a (StackRegEntry t p) = (JSVAL_TYPE_MAGIC, 1)"
| "entry_header a (StackStackEntry t p) = (JSVAL_TYPE_MAGIC, 0)"
| "entry_header a (ValueRegEntry v) = (JSVAL_TYPE_MAGIC, v)"
| "entry_header a (ValueStackEntry v) = (JSVAL_TYPE_MAGIC, a_regs a)"
| "entry_header a UndefinedEntry = (JSVAL_TYPE_UNDEFINED, 30)"
| "entry_header a NullEntry = (JSVAL_TYPE_NULL, 30)"
| "entry_header a (Int32Entry v) = (JSVAL_TYPE_NULL, if 0 \<le> sint v \<and> unat v < 30 then unat v else 31)"
| "entry_header a (ConstantEntry i) = (JSVAL_TYPE_UNDEFINED, if unat i < 30 then unat i else 31)"

fun entry_payload :: "slot_entry \<Rightarrow> u8 list" where
  "entry_payload (StackEntry t i) = signed_bytes i"
| "entry_payload (RegRegEntry t p) = [of_nat t, of_nat p]"
| "entry_payload (RegStackEntry t p) = of_nat t # signed_bytes p"
| "entry_payload (StackRegEntry t p) = signed_bytes t @ [of_nat p]"
| "entry_payload (StackStackEntry t p) = signed_bytes t @ signed_bytes p"
| "entry_payload (ValueStackEntry v) = signed_bytes v"
| "entry_payload (Int32Entry v) = (if 0 \<le> sint v \<and> unat v < 30 then [] else signed_bytes v)"
| "entry_payload (ConstantEntry i) = (if unat i < 30 then [] else unsigned_bytes i)"
| "entry_payload _ = []"

definition entry_bytes :: "arch \<Rightarrow> slot_entry \<Rightarrow> u8 list" where
  "entry_bytes a e = header_byte (fst (entry_header a e)) (snd (entry_header a e)) # entry_payload e"

lemma JSValueType_code_le [simp]: "JSValueType_code t \<le> 7"
  by (cases t) auto

lemma JSValueType_of_code_code [simp]: "JSValueType_of_code (JSValueType_code t) = t"
  by (cases t) (simp_all add: JSValueType_of_code_def)

lemma bit_of_nat_small: "n < 2 ^ k \<Longrightarrow> bit (of_nat n :: u8) m \<Longrightarrow> m < k"
proof (rule ccontr)
  assume n: "n < 2 ^ k" and b: "bit (of_nat n :: u8) m" and "\<not> m < k"
  then have "n < 2 ^ m" by (meson le_less_trans not_less order_less_le_trans power_increasing one_le_numeral)
  moreover have "bit n m" using b by (auto simp: bit_of_nat_iff)
  ultimately show False by (simp add: bit_iff_odd)
qed

lemma header_byte_decode:
  assumes "c \<le> 31"
  shows "unat (header_byte t c AND 7) = JSValueType_code t" "unat (drop_bit 3 (header_byte t c)) = c"
proof -
  let ?t = "of_nat (JSValueType_code t) :: u8" and ?c = "of_nat c :: u8"
  have tb: "bit ?t n \<Longrightarrow> n < 3" for n
    using bit_of_nat_small[of "JSValueType_code t" 3 n] JSValueType_code_le[of t] by simp
  have cb: "bit ?c n \<Longrightarrow> n < 5" for n using bit_of_nat_small[of c 5 n] assms by simp
  have "(7::u8) = mask 3" by (simp add: mask_eq_exp_minus_1)
  then have "header_byte t c AND 7 = take_bit 3 (header_byte t c)" by (simp add: take_bit_eq_mask)
  also have "\<dots> = ?t"
    by (rule bit_eqI) (auto simp: header_byte_def bit_take_bit_iff bit_or_iff bit_push_bit_iff dest: tb)
  finally show "unat (header_byte t c AND 7) = JSValueType_code t"
    using le_less_trans[OF JSValueType_code_le[of t], of 256] by (simp add: unat_of_nat)
  have "drop_bit 3 (header_byte t c) = ?c"
    by (rule bit_eqI) (auto simp: header_byte_def bit_drop_bit_eq bit_or_iff bit_push_bit_iff dest: tb cb)
  then show "unat (drop_bit 3 (header_byte t c)) = c" using assms by (simp add: unat_of_nat)
qed

lemma sw_lift_unsigned [simp]:
  "sw_lift (writeUnsigned v) sw = Some (sw\<lparr>sw_writer := cw_emit (unsigned_bytes v) (sw_writer sw)\<rparr>)"
  by (simp add: sw_lift_def writeUnsigned_emit)

lemma sw_lift_signed [simp]:
  "sw_lift (writeSigned v) sw = Some (sw\<lparr>sw_writer := cw_emit (signed_bytes v) (sw_writer sw)\<rparr>)"
  by (simp add: sw_lift_def writeSigned_emit)

lemma sw_lift_byte [simp]:
  "sw_lift (writeByte (ucast (b::u8))) sw = Some (sw\<lparr>sw_writer := cw_emit [b] (sw_writer sw)\<rparr>)"
  by (simp add: sw_lift_def)

lemma sw_lift_reg [simp]:
  assumes "r \<le> 31"
  shows "sw_lift (writeByte (of_nat r)) sw = Some (sw\<lparr>sw_writer := cw_emit [of_nat r] (sw_writer sw)\<rparr>)"
proof -
  have "(of_nat r :: u32) = ucast (of_nat r :: u8)"
    using assms by (simp add: word_unat_eq_iff unat_of_nat unsigned_ucast_eq take_bit_nat_eq_self)
  then show ?thesis by simp
qed

lemma writeSlotHeader_emit:
  "c \<le> 31 \<Longrightarrow> sw_slotsWritten sw < sw_nslots sw \<Longrightarrow> writeSlotHeader t c sw =
   Some (sw\<lparr>sw_writer := cw_emit [header_byte t c] (sw_writer sw),
            sw_slotsWritten := sw_slotsWritten sw + 1\<rparr>)"
  by (simp add: writeSlotHeader_def snapshot_consts Let_def header_byte_def)

lemma addEntry_emit:
  assumes "wf_arch a" "wf_entry a e" "sw_slotsWritten sw < sw_nslots sw"
  shows "addEntry a e sw = Some (sw\<lparr>sw_writer := cw_emit (entry_bytes a e) (sw_writer sw),
    sw_slotsWritten := sw_slotsWritten sw + 1\<rparr>)"
  using assms
  by (cases e) (auto simp: entry_bytes_def writeSlotHeader_emit wf_arch_def payload_type_def snapshot_consts
      addSlot_float_def addSlot_reg_def addSlot_stack_def addSlot_reg_reg_def addSlot_reg_stack_def
      addSlot_stack_reg_def addSlot_stack_stack_def addSlot_value_reg_def addSlot_value_stack_def
      addUndefinedSlot_def addNullSlot_def addInt32Slot_def addConstantPoolSlot_def)

lemma addEntries_emit:
  assumes "wf_arch a" "\<forall>e\<in>set es. wf_entry a e" "sw_slotsWritten sw + length es \<le> sw_nslots sw"
  shows "mfold (addEntry a) es sw = Some (sw\<lparr>sw_writer := cw_emit (concat (map (entry_bytes a) es)) (sw_writer sw),
    sw_slotsWritten := sw_slotsWritten sw + length es\<rparr>)"
  using assms
  by (induction es arbitrary: sw) (auto simp: addEntry_emit)

lemma read_stack_loc_signed [simp]: "read_stack_loc (signed_bytes i @ r) = Some (Location_FromStack i, r)"
  by (simp add: read_stack_loc_def readSigned_signed_bytes)

lemma read_reg_loc_byte [simp]:
  "wf_arch a \<Longrightarrow> n < a_regs a \<Longrightarrow> read_reg_loc a (of_nat n # r) = Some (Location_FromReg n, r)"
  by (simp add: read_reg_loc_def Register_FromCode_def unat_of_nat wf_arch_def)

lemma readSlotBody_entry:
  assumes "wf_arch a" "wf_entry a e"
  shows "readSlotBody a (fst (entry_header a e)) (snd (entry_header a e)) (entry_payload e @ r) =
    Some (slot_of_entry e, r)"
  using assms
  by (cases e) (auto simp: readSlotBody_def payload_type_def snapshot_consts readSigned_signed_bytes
      readUnsigned_unsigned_bytes Register_FromCode_def FloatRegister_FromCode_def)

lemma entry_code_le: "wf_arch a \<Longrightarrow> wf_entry a e \<Longrightarrow> snd (entry_header a e) \<le> 31"
  by (cases e) (auto simp: wf_arch_def)

lemma readSlot_entry:
  assumes "wf_arch a" "wf_entry a e" "sr_slotsRead sr < sr_slotCount sr"
    "sr_reader sr = entry_bytes a e @ r"
  shows "readSlot a sr = Some (slot_of_entry e, sr\<lparr>sr_slotsRead := sr_slotsRead sr + 1, sr_reader := r\<rparr>)"
  using assms header_byte_decode[OF entry_code_le[OF assms(1,2)]]
  by (simp add: readSlot_def sr_lift_def entry_bytes_def readSlotBody_entry)

lemma readSlots_entries:
  assumes "wf_arch a" "\<forall>e\<in>set es. wf_entry a e" "sr_slotsRead sr + length es \<le> sr_slotCount sr"
    "sr_reader sr = concat (map (entry_bytes a) es) @ r"
  shows "readSlots a (length es) sr = Some (map slot_of_entry es,
    sr\<lparr>sr_slotsRead := sr_slotsRead sr + length es, sr_reader := r\<rparr>)"
  using assms
proof (induction es arbitrary: sr)
  case (Cons e es)
  let ?sr = "sr\<lparr>sr_slotsRead := sr_slotsRead sr + 1, sr_reader := concat (map (entry_bytes a) es) @ r\<rparr>"
  have "readSlot a sr = Some (slot_of_entry e, ?sr)"
    using Cons.prems by (intro readSlot_entry) auto
  moreover have "readSlots a (length es) ?sr = Some (map slot_of_entry es,
    ?sr\<lparr>sr_slotsRead := sr_slotsRead ?sr + length es, sr_reader := r\<rparr>)"
    using Cons.prems by (intro Cons.IH) auto
  ultimately show ?case by simp
qed simp

subsection \<open>Whole snapshots\<close>

definition header_bits :: "u32 \<Rightarrow> u32 \<Rightarrow> bool \<Rightarrow> u32" where
  "header_bits fc kind ra = (let bits = kind OR push_bit 4 fc in if ra then bits OR push_bit 3 1 else bits)"

lemma header_bits_decode:
  assumes "fc < 2 ^ 28" "kind < 8"
  shows "drop_bit 4 (header_bits fc kind ra) = fc" "header_bits fc kind ra AND 7 = kind"
    "header_bits fc kind ra AND push_bit 3 1 \<noteq> 0 \<longleftrightarrow> ra"
proof -
  have "drop_bit 28 fc = 0" "drop_bit 3 kind = 0"
    using assms unfolding drop_bit_zero_less by (simp_all add: word_less_nat_alt)
  then have fb: "bit fc n \<Longrightarrow> n < 28" and kb: "bit kind n \<Longrightarrow> n < 3" for n
    by (auto simp: drop_bit_zero_iff not_less[symmetric])
  have b: "bit (header_bits fc kind ra) n \<longleftrightarrow>
      bit kind n \<or> n < 32 \<and> 4 \<le> n \<and> bit fc (n - 4) \<or> ra \<and> n = 3" for n
    using bit_word_exp[of 3 n, where ?'a = 32]
    by (auto simp: header_bits_def Let_def bit_or_iff bit_push_bit_iff)
  have k3: "\<not> bit kind 3" using kb by blast
  show "drop_bit 4 (header_bits fc kind ra) = fc"
    by (rule bit_eqI) (auto simp: bit_drop_bit_eq b dest: fb kb)
  have "(7::u32) = mask 3" by (simp add: mask_eq_exp_minus_1)
  then have "header_bits fc kind ra AND 7 = take_bit 3 (header_bits fc kind ra)"
    by (simp add: take_bit_eq_mask)
  also have "\<dots> = kind" by (rule bit_eqI) (auto simp: bit_take_bit_iff b dest: kb)
  finally show "header_bits fc kind ra AND 7 = kind" .
  show "header_bits fc kind ra AND push_bit 3 1 \<noteq> 0 \<longleftrightarrow> ra"
    using word_and_push_one[of 3 "header_bits fc kind ra"] b[of 3] k3 by simp
qed

definition wf_frame :: "arch \<Rightarrow> frame_desc \<Rightarrow> bool" where
  "wf_frame a fd \<longleftrightarrow> (let fi = fd_info fd; formals = CountArgSlots (fi_nargs fi) in
     formals < 127 \<and> fd_exprStack fd < 127 \<and> fi_nfixed fi < 2 ^ 16 \<and> fi_pcoff fi \<le> fi_length fi \<and>
     length (fi_script fi) = a_ptr a \<and> length (fd_track fd) = 5 \<and>
     length (fd_slots fd) = formals + fi_nfixed fi + fd_exprStack fd \<and>
     (\<forall>e\<in>set (fd_slots fd). wf_entry a e))"

definition frame_header_bytes :: "arch \<Rightarrow> frame_desc \<Rightarrow> u8 list" where
  "frame_header_bytes a fd = (if a_debug a then fi_script (fd_info fd) else []) @
     unsigned_bytes (fi_pcoff (fd_info fd)) @ unsigned_bytes (of_nat (length (fd_slots fd))) @
     (if a_debug a then concat (map unsigned_bytes (fd_track fd)) else [])"

definition frame_bytes :: "arch \<Rightarrow> frame_desc \<Rightarrow> u8 list" where
  "frame_bytes a fd = frame_header_bytes a fd @ concat (map (entry_bytes a) (fd_slots fd))"

lemma length5: "length xs = 5 \<longleftrightarrow> (\<exists>b c d e f. xs = [b, c, d, e, f])"
  by (auto simp: numeral_eq_Suc length_Suc_conv)

lemma trackFrame_emit:
  "length tr = 5 \<Longrightarrow> trackFrame (tr ! 0) (tr ! 1) (tr ! 2) (tr ! 3) (tr ! 4) sw =
   Some (sw\<lparr>sw_writer := cw_emit (concat (map unsigned_bytes tr)) (sw_writer sw)\<rparr>)"
proof -
  assume "length tr = 5"
  then obtain b c d e f where "tr = [b, c, d, e, f]" by (auto simp: length5)
  then show ?thesis by (simp add: trackFrame_def)
qed

lemma sw_lift_bytes [simp]:
  "sw_lift (mfold (\<lambda>b. writeByte (ucast b)) (bs :: u8 list)) sw = Some (sw\<lparr>sw_writer := cw_emit bs (sw_writer sw)\<rparr>)"
  using byte_codec.write_list[of bs] by (simp add: sw_lift_def concat_map_singleton)

lemma encodeFrame_emit:
  assumes "wf_arch a" "wf_frame a fd"
  shows "encodeFrame a fd sw = Some (sw\<lparr>sw_writer := cw_emit (frame_bytes a fd) (sw_writer sw),
    sw_nslots := 0, sw_slotsWritten := 0, sw_framesWritten := sw_framesWritten sw + 1\<rparr>)"
  using assms
  by (cases "a_debug a") (simp_all add: encodeFrame_def startFrame_def wf_frame_def Let_def SNAPSHOT_MAX_NARGS_def
      SNAPSHOT_MAX_STACK_def trackFrame_emit[unfolded One_nat_def] addEntries_emit endFrame_def frame_bytes_def frame_header_bytes_def)

lemma encodeFrames_emit:
  assumes "wf_arch a" "\<forall>fd\<in>set fds. wf_frame a fd" "fds \<noteq> []"
  shows "mfold (encodeFrame a) fds sw = Some (sw\<lparr>sw_writer := cw_emit (concat (map (frame_bytes a) fds)) (sw_writer sw),
    sw_nslots := 0, sw_slotsWritten := 0, sw_framesWritten := sw_framesWritten sw + length fds\<rparr>)"
  using assms(3,1,2)
  by (induction fds arbitrary: sw rule: list_nonempty_induct) (auto simp: encodeFrame_emit)

definition snapshot_bytes :: "arch \<Rightarrow> BailoutKind \<Rightarrow> bool \<Rightarrow> frame_desc list \<Rightarrow> u8 list" where
  "snapshot_bytes a kind ra fds =
     unsigned_bytes (header_bits (of_nat (length fds)) (BailoutKind_code kind) ra) @
     concat (map (frame_bytes a) fds) @ (if a_debug a then signed_bytes (-1) else [])"

lemma BailoutKind_code_less: "BailoutKind_code k < 8"
  by (cases k) simp_all

lemma of_nat_frames:
  "n < 2 ^ 28 \<Longrightarrow> unat (of_nat n :: u32) = n" "n < 2 ^ 28 \<Longrightarrow> (of_nat n :: u32) < 2 ^ 28"
  "0 < n \<Longrightarrow> n < 2 ^ 28 \<Longrightarrow> (0::u32) < of_nat n"
  by (simp_all add: unat_of_nat word_less_nat_alt)

lemma encodeSnapshot_emit:
  assumes "wf_arch a" "\<forall>fd\<in>set fds. wf_frame a fd" "fds \<noteq> []" "length fds < 2 ^ 28"
  shows "\<exists>sw'. encodeSnapshot a kind ra fds sw = Some (cw_length (sw_writer sw), sw') \<and>
    sw_writer sw' = cw_emit (snapshot_bytes a kind ra fds) (sw_writer sw)"
proof -
  have n: "0 < length fds" using assms(3) by simp
  have bits: "(if ra then (push_bit BAILOUT_KIND_SHIFT (BailoutKind_code kind) OR
      push_bit BAILOUT_FRAMECOUNT_SHIFT (of_nat (length fds))) OR push_bit BAILOUT_RESUME_SHIFT 1
    else push_bit BAILOUT_KIND_SHIFT (BailoutKind_code kind) OR
      push_bit BAILOUT_FRAMECOUNT_SHIFT (of_nat (length fds))) =
    header_bits (of_nat (length fds)) (BailoutKind_code kind) ra"
    by (simp add: header_bits_def header_consts Let_def)
  have start: "startSnapshot (of_nat (length fds)) (BailoutKind_code kind) ra sw =
    Some (cw_length (sw_writer sw), sw\<lparr>sw_nframes := length fds, sw_framesWritten := 0,
      sw_lastStart := cw_length (sw_writer sw),
      sw_writer := cw_emit (unsigned_bytes (header_bits (of_nat (length fds)) (BailoutKind_code kind) ra)) (sw_writer sw)\<rparr>)"
    unfolding startSnapshot_def Let_def bits
    using of_nat_frames(1,2)[OF assms(4)] of_nat_frames(3)[OF n assms(4)] BailoutKind_code_less[of kind]
    by (simp add: header_consts)
  show ?thesis
    unfolding encodeSnapshot_def
    using encodeFrames_emit[OF assms(1,2,3)]
    by (simp add: start endSnapshot_def snapshot_bytes_def)
qed

lemma wf_frame_slots: "wf_frame a fd \<Longrightarrow> length (fd_slots fd) < 2 ^ 28"
  by (auto simp: wf_frame_def Let_def)

lemma readFrameHeader_frame:
  assumes "wf_frame a fd" "moreFrames sr" "sr_slotsRead sr = sr_slotCount sr"
    "sr_reader sr = frame_header_bytes a fd @ r"
  shows "\<exists>sc tr. readFrameHeader a sr = Some (sr\<lparr>sr_script := sc, sr_track := tr, sr_reader := r,
    sr_pcOffset := fi_pcoff (fd_info fd), sr_slotCount := length (fd_slots fd),
    sr_framesRead := sr_framesRead sr + 1, sr_slotsRead := 0\<rparr>)"
proof -
  let ?bs = "fi_script (fd_info fd)" and ?tr = "fd_track fd"
  have l: "length ?bs = a_ptr a" "length ?tr = 5" using assms(1) by (auto simp: wf_frame_def Let_def)
  have n: "unat (of_nat (length (fd_slots fd)) :: u32) = length (fd_slots fd)"
    by (rule of_nat_frames(1)[OF wf_frame_slots[OF assms(1)]])
  have rb: "readMany readByte (a_ptr a) (?bs @ r') = Some (?bs, r')" for r'
    using byte_codec.read_list[of ?bs r'] l by (simp add: concat_map_singleton)
  have rt: "readMany readUnsigned 5 (concat (map unsigned_bytes ?tr) @ r') = Some (?tr, r')" for r'
    using unsigned_codec.read_list[of ?tr r'] l by simp
  show ?thesis
  proof (cases "a_debug a")
    case True
    then show ?thesis using assms rb rt n
      by (intro exI[of _ ?bs] exI[of _ ?tr])
        (simp add: readFrameHeader_def sr_lift_def frame_header_bytes_def readUnsigned_unsigned_bytes)
  next
    case False
    then show ?thesis using assms n
      by (intro exI[of _ "sr_script sr"] exI[of _ "sr_track sr"])
        (simp add: readFrameHeader_def sr_lift_def frame_header_bytes_def readUnsigned_unsigned_bytes)
  qed
qed

definition frame_result :: "frame_desc \<Rightarrow> u32 \<times> slot list" where
  "frame_result fd = (fi_pcoff (fd_info fd), map slot_of_entry (fd_slots fd))"

lemma readFrames_frames:
  assumes "wf_arch a" "\<forall>fd\<in>set (fd # fds). wf_frame a fd"
    "sr_slotsRead sr = 0" "sr_slotCount sr = length (fd_slots fd)" "sr_pcOffset sr = fi_pcoff (fd_info fd)"
    "sr_framesRead sr + length fds = sr_frameCount sr"
    "sr_reader sr = concat (map (entry_bytes a) (fd_slots fd)) @ concat (map (frame_bytes a) fds) @ r"
  shows "\<exists>sr'. readFrames a (length fds) sr = Some (map frame_result (fd # fds), sr') \<and>
    sr_reader sr' = r \<and> \<not> moreFrames sr' \<and> sr_resumeAfter sr' = sr_resumeAfter sr"
  using assms
proof (induction fds arbitrary: fd sr)
  case Nil
  let ?sr = "sr\<lparr>sr_slotsRead := length (fd_slots fd), sr_reader := r\<rparr>"
  have "readSlots a (length (fd_slots fd)) sr = Some (map slot_of_entry (fd_slots fd), ?sr)"
    using readSlots_entries[of a "fd_slots fd" sr r] Nil.prems by (simp add: wf_frame_def Let_def)
  then show ?case using Nil.prems
    by (simp add: readFrames.simps[of a 0 sr] frame_result_def moreFrames_def)
next
  case (Cons fd2 fds)
  let ?rest = "concat (map (frame_bytes a) (fd2 # fds)) @ r"
  let ?sr = "sr\<lparr>sr_slotsRead := length (fd_slots fd), sr_reader := ?rest\<rparr>"
  have slots: "readSlots a (length (fd_slots fd)) sr = Some (map slot_of_entry (fd_slots fd), ?sr)"
    using readSlots_entries[of a "fd_slots fd" sr ?rest] Cons.prems by (simp add: wf_frame_def Let_def)
  have "\<exists>sc tr. readFrameHeader a ?sr = Some (?sr\<lparr>sr_script := sc, sr_track := tr,
    sr_reader := concat (map (entry_bytes a) (fd_slots fd2)) @ concat (map (frame_bytes a) fds) @ r,
    sr_pcOffset := fi_pcoff (fd_info fd2), sr_slotCount := length (fd_slots fd2),
    sr_framesRead := sr_framesRead ?sr + 1, sr_slotsRead := 0\<rparr>)"
    using Cons.prems by (intro readFrameHeader_frame) (auto simp: moreFrames_def frame_bytes_def)
  then obtain sc tr where hdr: "readFrameHeader a ?sr = Some (?sr\<lparr>sr_script := sc, sr_track := tr,
    sr_reader := concat (map (entry_bytes a) (fd_slots fd2)) @ concat (map (frame_bytes a) fds) @ r,
    sr_pcOffset := fi_pcoff (fd_info fd2), sr_slotCount := length (fd_slots fd2),
    sr_framesRead := sr_framesRead ?sr + 1, sr_slotsRead := 0\<rparr>)" (is "_ = Some ?h") by blast
  have "\<exists>sr'. readFrames a (length fds) ?h = Some (map frame_result (fd2 # fds), sr') \<and>
    sr_reader sr' = r \<and> \<not> moreFrames sr' \<and> sr_resumeAfter sr' = sr_resumeAfter ?h"
    using Cons.prems by (intro Cons.IH) auto
  then show ?case using slots hdr Cons.prems(4,5)
    by (auto simp: readFrames.simps[of a "Suc (length fds)" sr] frame_result_def)
qed

text \<open>
  C1: a snapshot of well-formed frames is encoded without a failing assertion, and, unless
  memory ran out, a reader started at the returned offset recovers the number of frames, the
  bailout kind, and, frame by frame from the outermost, the bytecode offset and the location of
  every slot; after the last frame it reports the resume-after bit.
\<close>

theorem snapshot_roundtrip:
  assumes "wf_arch a" "\<forall>fd\<in>set fds. wf_frame a fd" "fds \<noteq> []" "length fds < 2 ^ 28"
  shows "\<exists>off sw'. encodeSnapshot a kind ra fds sw = Some (off, sw') \<and>
    (\<not> cw_oom (sw_writer sw') \<longrightarrow>
      (\<exists>sr sr'. SnapshotReader a unset (drop off (cw_buffer (sw_writer sw'))) = Some sr \<and>
        sr_frameCount sr = length fds \<and> sr_bailoutKind sr = BailoutKind_code kind \<and>
        readFrames a (length fds - 1) sr = Some (map frame_result fds, sr') \<and>
        \<not> moreFrames sr' \<and> sr_isResumeAfter sr' = ra))"
proof -
  obtain sw' where enc: "encodeSnapshot a kind ra fds sw = Some (cw_length (sw_writer sw), sw')"
    and w: "sw_writer sw' = cw_emit (snapshot_bytes a kind ra fds) (sw_writer sw)"
    using encodeSnapshot_emit[OF assms] by blast
  obtain fd fds' where fds: "fds = fd # fds'" using assms(3) by (cases fds) auto
  let ?off = "cw_length (sw_writer sw)" and ?tail = "if a_debug a then signed_bytes (-1) else []"
  let ?bits = "header_bits (of_nat (length fds)) (BailoutKind_code kind) ra"
  note hb = header_bits_decode[OF of_nat_frames(2)[OF assms(4)] BailoutKind_code_less]
  have "\<exists>sr sr'. SnapshotReader a unset (drop ?off (cw_buffer (sw_writer sw'))) = Some sr \<and>
        sr_frameCount sr = length fds \<and> sr_bailoutKind sr = BailoutKind_code kind \<and>
        readFrames a (length fds - 1) sr = Some (map frame_result fds, sr') \<and>
        \<not> moreFrames sr' \<and> sr_isResumeAfter sr' = ra"
    if "\<not> cw_oom (sw_writer sw')"
  proof -
    have buf: "drop ?off (cw_buffer (sw_writer sw')) = snapshot_bytes a kind ra fds"
      using that cw_buffer_emit[of "snapshot_bytes a kind ra fds" "sw_writer sw"]
      by (simp add: w cw_oom_def cw_length_def)
    let ?body = "concat (map (entry_bytes a) (fd_slots fd)) @ concat (map (frame_bytes a) fds') @ ?tail"
    define sr0 where "sr0 = unset\<lparr>sr_reader := snapshot_bytes a kind ra fds, sr_slotCount := 0,
      sr_frameCount := 0, sr_slotsRead := 0\<rparr>"
    define sr1 where "sr1 = sr0\<lparr>sr_reader := frame_header_bytes a fd @ ?body, sr_frameCount := length fds,
      sr_bailoutKind := BailoutKind_code kind, sr_resumeAfter := ra, sr_framesRead := 0\<rparr>"
    have r1: "readSnapshotHeader sr0 = Some sr1"
      unfolding readSnapshotHeader_def sr_lift_def sr0_def sr1_def
      using hb of_nat_frames(1)[OF assms(4)] fds
      by (simp add: snapshot_bytes_def readUnsigned_unsigned_bytes header_consts frame_bytes_def)
    have "\<exists>sc tr. readFrameHeader a sr1 = Some (sr1\<lparr>sr_script := sc, sr_track := tr, sr_reader := ?body,
      sr_pcOffset := fi_pcoff (fd_info fd), sr_slotCount := length (fd_slots fd),
      sr_framesRead := sr_framesRead sr1 + 1, sr_slotsRead := 0\<rparr>)"
      using assms(2) fds by (intro readFrameHeader_frame) (auto simp: sr1_def sr0_def moreFrames_def)
    then obtain sc tr where r2: "readFrameHeader a sr1 = Some (sr1\<lparr>sr_script := sc, sr_track := tr,
      sr_reader := ?body, sr_pcOffset := fi_pcoff (fd_info fd), sr_slotCount := length (fd_slots fd),
      sr_framesRead := sr_framesRead sr1 + 1, sr_slotsRead := 0\<rparr>)" (is "_ = Some ?sr2") by blast
    have "\<exists>sr'. readFrames a (length fds') ?sr2 = Some (map frame_result (fd # fds'), sr') \<and>
      sr_reader sr' = ?tail \<and> \<not> moreFrames sr' \<and> sr_resumeAfter sr' = sr_resumeAfter ?sr2"
      using assms(1,2) fds by (intro readFrames_frames) (auto simp: sr1_def)
    moreover have "SnapshotReader a unset (drop ?off (cw_buffer (sw_writer sw'))) = Some ?sr2"
      using r1 r2 unfolding buf SnapshotReader_def Let_def sr0_def by simp
    moreover have "sr_frameCount ?sr2 = length fds" "sr_bailoutKind ?sr2 = BailoutKind_code kind"
      "sr_resumeAfter ?sr2 = ra" by (simp_all add: sr1_def)
    ultimately show ?thesis using fds by (auto simp: sr_isResumeAfter_def)
  qed
  with enc show ?thesis by blast
qed

text \<open>A frame of a function without formals, with one expression slot.\<close>

theorem snapshot_roundtrip_witness:
  "\<exists>off sw'. encodeSnapshot (arch_x64 False) Bailout_TypeBarrier True
      [\<lparr>fd_info = \<lparr>fi_nargs = Some 0, fi_nfixed = 0, fi_length = 9, fi_pcoff = 4, fi_script = replicate 8 0\<rparr>,
        fd_exprStack = 1, fd_track = [0, 0, 0, 0, 0],
        fd_slots = [UndefinedEntry, ValueRegEntry 3, Int32Entry (-7)]\<rparr>]
      \<lparr>sw_writer = writer_new (\<lambda>n. True), sw_nslots = 0, sw_slotsWritten = 0, sw_nframes = 0,
        sw_framesWritten = 0, sw_lastStart = 0\<rparr> = Some (off, sw')"
proof -
  let ?fd = "\<lparr>fd_info = \<lparr>fi_nargs = Some 0, fi_nfixed = 0, fi_length = 9, fi_pcoff = 4, fi_script = replicate 8 0\<rparr>,
    fd_exprStack = 1, fd_track = [0, 0, 0, 0, 0], fd_slots = [UndefinedEntry, ValueRegEntry 3, Int32Entry (-7)]\<rparr>"
  have wf: "\<forall>fd\<in>set [?fd]. wf_frame (arch_x64 False) fd"
    by (simp add: wf_frame_def CountArgSlots_def arch_x64_def)
  have ne: "[?fd] \<noteq> []" "length [?fd] < 2 ^ 28" by simp_all
  from snapshot_roundtrip[OF wf_arch_x64 wf ne] show ?thesis by blast
qed

end
