(* ===== verification/Stack_Slots.thy ===== *)
theory Stack_Slots
  imports Snapshots "HOL-Library.Multiset"
begin

text \<open>
  Spill slots of a frame: \<open>StackSlotAllocator\<close> (\<open>ion/StackSlotAllocator.h\<close>) with
  \<open>ComputeByteAlignment\<close> (\<open>jsutil.h\<close>), and \<open>SlotToStackOffset\<close> of the code generator, which turns
  a slot index into an offset from the stack pointer.

  The free lists are lists whose last element is the top of the vector. A step relation adds
  the discipline of the register allocators: a slot that is freed is live, with the kind it was
  allocated with. On 32-bit platforms the live and the free slots always partition the frame;
  on 64-bit platforms the splitting of a freed double slot makes live slots overlap.
\<close>

subsection \<open>The allocator\<close>

record slot_allocator =
  normalSlots :: "nat list"
  doubleSlots :: "nat list"
  ssa_height :: nat

definition StackSlotAllocator :: slot_allocator where
  "StackSlotAllocator = \<lparr>normalSlots = [], doubleSlots = [], ssa_height = 0\<rparr>"

definition ComputeByteAlignment :: "nat \<Rightarrow> nat \<Rightarrow> nat" where
  "ComputeByteAlignment bytes alignment = (alignment - bytes mod alignment) mod alignment"

definition STACK_SLOT_SIZE :: "arch \<Rightarrow> nat" where
  "STACK_SLOT_SIZE a = a_ptr a"

definition DOUBLE_STACK_ALIGNMENT :: "arch \<Rightarrow> nat" where
  "DOUBLE_STACK_ALIGNMENT a = (if a_punbox a then 1 else 2)"

definition sizeof_double :: nat where "sizeof_double = 8"

definition freeSlot :: "nat \<Rightarrow> slot_allocator \<Rightarrow> slot_allocator" where
  "freeSlot index s = s\<lparr>normalSlots := normalSlots s @ [index]\<rparr>"

definition freeDoubleSlot :: "nat \<Rightarrow> slot_allocator \<Rightarrow> slot_allocator" where
  "freeDoubleSlot index s = s\<lparr>doubleSlots := doubleSlots s @ [index]\<rparr>"

definition freeValueSlot :: "nat \<Rightarrow> slot_allocator \<Rightarrow> slot_allocator" where
  "freeValueSlot index s = freeDoubleSlot index s"

definition allocateDoubleSlot :: "arch \<Rightarrow> slot_allocator \<Rightarrow> nat \<times> slot_allocator" where
  "allocateDoubleSlot a s =
     (if doubleSlots s \<noteq> [] then (last (doubleSlots s), s\<lparr>doubleSlots := butlast (doubleSlots s)\<rparr>)
      else
        (let s = (if ComputeByteAlignment (ssa_height s) (DOUBLE_STACK_ALIGNMENT a) \<noteq> 0
                  then s\<lparr>ssa_height := ssa_height s + 1, normalSlots := normalSlots s @ [ssa_height s + 1]\<rparr>
                  else s);
             s = s\<lparr>ssa_height := ssa_height s + sizeof_double div STACK_SLOT_SIZE a\<rparr>
         in (ssa_height s, s)))"

definition allocateSlot :: "slot_allocator \<Rightarrow> nat \<times> slot_allocator" where
  "allocateSlot s =
     (if normalSlots s \<noteq> [] then (last (normalSlots s), s\<lparr>normalSlots := butlast (normalSlots s)\<rparr>)
      else if doubleSlots s \<noteq> [] then
        (let index = last (doubleSlots s);
             s = s\<lparr>doubleSlots := butlast (doubleSlots s)\<rparr>
         in (index, s\<lparr>normalSlots := normalSlots s @ [index - 1]\<rparr>))
      else (ssa_height s + 1, s\<lparr>ssa_height := ssa_height s + 1\<rparr>))"

definition allocateValueSlot :: "arch \<Rightarrow> slot_allocator \<Rightarrow> nat \<times> slot_allocator" where
  "allocateValueSlot a s = allocateDoubleSlot a s"

subsection \<open>Use of the allocator\<close>

text \<open>
  A live slot is its index and whether it was allocated as a double (or value) slot. The slot
  cells it covers: slot \<open>i\<close> starts \<open>i\<close> cells below the frame pointer and extends upwards.
\<close>

type_synonym live_slot = "nat \<times> bool"

fun cells :: "arch \<Rightarrow> live_slot \<Rightarrow> nat list" where
  "cells a (i, dbl) = (let w = (if dbl then sizeof_double div STACK_SLOT_SIZE a else 1) in [i + 1 - w..<i + 1])"

inductive slot_step :: "arch \<Rightarrow> slot_allocator \<times> live_slot list \<Rightarrow> slot_allocator \<times> live_slot list \<Rightarrow> bool"
  for a where
  alloc: "allocateSlot s = (i, s') \<Longrightarrow> slot_step a (s, live) (s', (i, False) # live)"
| allocDouble: "allocateDoubleSlot a s = (i, s') \<Longrightarrow> slot_step a (s, live) (s', (i, True) # live)"
| free: "(i, False) \<in> set live \<Longrightarrow> slot_step a (s, live) (freeSlot i s, remove1 (i, False) live)"
| freeDouble: "(i, True) \<in> set live \<Longrightarrow> slot_step a (s, live) (freeDoubleSlot i s, remove1 (i, True) live)"

inductive_cases slot_stepE: "slot_step a (s, live) t"

definition slots_reachable :: "arch \<Rightarrow> slot_allocator \<Rightarrow> live_slot list \<Rightarrow> bool" where
  "slots_reachable a s live \<longleftrightarrow> (slot_step a)\<^sup>*\<^sup>* (StackSlotAllocator, []) (s, live)"

subsection \<open>Frame offsets\<close>

definition frameDepth :: "arch \<Rightarrow> nat \<Rightarrow> nat \<Rightarrow> nat" where
  "frameDepth a localSlotCount argumentSlotCount = localSlotCount * a_ptr a + argumentSlotCount * 8"

definition SlotToStackOffset :: "arch \<Rightarrow> nat \<Rightarrow> nat \<Rightarrow> nat \<Rightarrow> nat option" where
  "SlotToStackOffset a framePushed localSlotCount slot = do {
     js_assert (slot > 0 \<and> slot \<le> localSlotCount);
     js_assert (slot * STACK_SLOT_SIZE a \<le> framePushed);
     Some (framePushed - slot * STACK_SLOT_SIZE a) }"

subsection \<open>Partition of the frame on 32-bit platforms\<close>

definition all_cells :: "arch \<Rightarrow> slot_allocator \<Rightarrow> live_slot list \<Rightarrow> nat multiset" where
  "all_cells a s live = mset (normalSlots s) +
     mset (concat (map (\<lambda>i. cells a (i, True)) (doubleSlots s))) + mset (concat (map (cells a) live))"

definition frame_cells :: "nat \<Rightarrow> nat multiset" where
  "frame_cells h = mset [1..<Suc h]"

lemma frame_cells_simps [simp]:
  "frame_cells 0 = {#}" "frame_cells (Suc h) = add_mset (Suc h) (frame_cells h)"
  by (simp_all add: frame_cells_def)

definition slots_inv :: "arch \<Rightarrow> slot_allocator \<Rightarrow> live_slot list \<Rightarrow> bool" where
  "slots_inv a s live \<longleftrightarrow> all_cells a s live = frame_cells (ssa_height s) \<and>
     (\<forall>i \<in> set (doubleSlots s) \<union> {i. (i, True) \<in> set live}. even i \<and> 2 \<le> i)"

lemma cells_x86:
  assumes "\<not> a_punbox a" "a_ptr a = 4"
  shows "cells a (i, False) = [i]" "2 \<le> i \<Longrightarrow> cells a (i, True) = [i - 1, i]"
proof -
  show "cells a (i, False) = [i]" by simp
  assume "2 \<le> i"
  then have "[Suc i - 2..<Suc i] = [i - 1, i]"
    using upt_conv_Cons[of "i - 1" "Suc i"] upt_conv_Cons[of i "Suc i"] by simp
  then show "cells a (i, True) = [i - 1, i]"
    using assms by (simp add: STACK_SLOT_SIZE_def sizeof_double_def)
qed

lemma mset_butlast: "xs \<noteq> [] \<Longrightarrow> mset xs = add_mset (last xs) (mset (butlast xs))"
  by (metis append_butlast_last_id mset_append add_mset_add_single mset.simps)

lemma concat_butlast:
  "xs \<noteq> [] \<Longrightarrow> mset (concat (map f xs)) = mset (f (last xs)) + mset (concat (map f (butlast xs)))"
  by (cases xs rule: rev_cases) (auto simp: ac_simps)

lemma concat_remove1:
  "x \<in> set xs \<Longrightarrow> mset (concat (map f xs)) = mset (f x) + mset (concat (map f (remove1 x xs)))"
  by (induction xs) auto

lemma slots_inv_init: "slots_inv a StackSlotAllocator []"
  by (simp add: slots_inv_def all_cells_def StackSlotAllocator_def)

lemma slots_inv_alloc:
  assumes x86: "\<not> a_punbox a" "a_ptr a = 4" and inv: "slots_inv a s live" and al: "allocateSlot s = (i, s')"
  shows "slots_inv a s' ((i, False) # live)"
proof (cases "normalSlots s = [] \<and> doubleSlots s \<noteq> []")
  case True
  let ?d = "last (doubleSlots s)"
  have d: "even ?d" "2 \<le> ?d" using inv True by (auto simp: slots_inv_def)
  have "\<forall>i\<in>set (butlast (doubleSlots s)). even i \<and> 2 \<le> i"
    using inv by (auto simp: slots_inv_def dest: in_set_butlastD)
  with True inv al d concat_butlast[of "doubleSlots s" "\<lambda>i. cells a (i, True)"] show ?thesis
    by (auto simp: slots_inv_def all_cells_def allocateSlot_def Let_def cells_x86[OF x86] add_mset_commute
        simp del: cells.simps)
next
  case False
  with inv al mset_butlast[of "normalSlots s"] show ?thesis
    by (auto simp: slots_inv_def all_cells_def allocateSlot_def cells_x86[OF x86]
        simp del: cells.simps split: if_splits)
qed

lemma slots_inv_allocDouble:
  assumes x86: "\<not> a_punbox a" "a_ptr a = 4" and inv: "slots_inv a s live"
    and al: "allocateDoubleSlot a s = (i, s')"
  shows "slots_inv a s' ((i, True) # live)"
proof (cases "doubleSlots s = []")
  case True
  have w: "sizeof_double div STACK_SLOT_SIZE a = 2" using x86 by (simp add: sizeof_double_def STACK_SLOT_SIZE_def)
  have al2: "ComputeByteAlignment h (DOUBLE_STACK_ALIGNMENT a) = 0 \<longleftrightarrow> even h" for h
    using x86 by (cases "even h") (auto simp: ComputeByteAlignment_def DOUBLE_STACK_ALIGNMENT_def odd_iff_mod_2_eq_one even_iff_mod_2_eq_zero)
  show ?thesis
    using True inv al
    by (auto simp: slots_inv_def all_cells_def allocateDoubleSlot_def Let_def al2[simplified] w cells_x86[OF x86] add_mset_commute
        simp del: cells.simps split: if_splits)
next
  case False
  have "\<forall>i\<in>set (butlast (doubleSlots s)). even i \<and> 2 \<le> i" "even (last (doubleSlots s))" "2 \<le> last (doubleSlots s)"
    using inv False by (auto simp: slots_inv_def dest: in_set_butlastD)
  with False inv al concat_butlast[of "doubleSlots s" "\<lambda>i. cells a (i, True)"] show ?thesis
    by (auto simp: slots_inv_def all_cells_def allocateDoubleSlot_def ac_simps simp del: cells.simps)
qed

lemma slots_inv_free:
  assumes inv: "slots_inv a s live" and l: "(i, dbl) \<in> set live"
  shows "slots_inv a (if dbl then freeDoubleSlot i s else freeSlot i s) (remove1 (i, dbl) live)"
proof -
  have "set (remove1 (i, dbl) live) \<subseteq> set live" by (rule set_remove1_subset)
  with inv l concat_remove1[OF l, of "cells a"] show ?thesis
    by (cases dbl) (auto simp: slots_inv_def all_cells_def freeDoubleSlot_def freeSlot_def Let_def ac_simps)
qed

lemma slots_inv_step:
  assumes x86: "\<not> a_punbox a" "a_ptr a = 4" and inv: "slots_inv a s live" and st: "slot_step a (s, live) (s', live')"
  shows "slots_inv a s' live'"
  using st
  by (rule slot_stepE) (use slots_inv_alloc[OF x86 inv] slots_inv_allocDouble[OF x86 inv] slots_inv_free[OF inv] in force)+

lemma slots_inv_reachable:
  assumes x86: "\<not> a_punbox a" "a_ptr a = 4" and "slots_reachable a s live"
  shows "slots_inv a s live"
proof -
  have "slots_inv a (fst t) (snd t)" if "(slot_step a)\<^sup>*\<^sup>* (StackSlotAllocator, []) t" for t
    using that
  proof (induction rule: rtranclp_induct)
    case base
    show ?case by (simp add: slots_inv_init)
  next
    case (step y z)
    from slots_inv_step[OF x86 step.IH, of "fst z" "snd z"] step.hyps(2) show ?case by simp
  qed
  from this[of "(s, live)"] assms(3) show ?thesis by (simp add: slots_reachable_def)
qed

lemma slots_inv_live:
  assumes "slots_inv a s live"
  shows "distinct (concat (map (cells a) live))" "set (concat (map (cells a) live)) \<subseteq> {1..ssa_height s}"
proof -
  have sub: "mset (concat (map (cells a) live)) \<subseteq># mset [1..<Suc (ssa_height s)]"
    using assms unfolding slots_inv_def all_cells_def frame_cells_def by (metis mset_subset_eq_add_right)
  show "set (concat (map (cells a) live)) \<subseteq> {1..ssa_height s}"
    using set_mset_mono[OF sub] unfolding set_mset_mset by (auto simp: less_Suc_eq_le)
  have "count (mset (concat (map (cells a) live))) x \<le> 1" for x
    using mset_subset_eq_count[OF sub, of x] distinct_count_atmost_1[of "[1..<Suc (ssa_height s)]"]
    by (metis distinct_upt le_trans order.refl zero_le)
  then show "distinct (concat (map (cells a) live))"
    by (metis count_eq_zero_iff distinct_count_atmost_1 le_antisym less_one not_le set_mset_mset)
qed

lemma offset_in_frame:
  assumes x86: "a_ptr a = 4" and l: "(i, dbl) \<in> set live" and dbl: "dbl \<Longrightarrow> 2 \<le> i"
    and sub: "set (concat (map (cells a) live)) \<subseteq> {1..h}" and fp: "frameDepth a h args \<le> fp"
  shows "\<exists>off. SlotToStackOffset a fp h i = Some off \<and> off + (if dbl then 8 else 4) \<le> fp"
proof -
  have "i \<in> set (cells a (i, dbl))"
    using x86 dbl by (auto simp: STACK_SLOT_SIZE_def sizeof_double_def)
  with l sub have "1 \<le> i" "i \<le> h" by (auto simp del: cells.simps)
  moreover from this(2) fp x86 have "i * 4 \<le> fp" by (simp add: frameDepth_def)
  ultimately show ?thesis using x86 dbl
    by (auto simp: SlotToStackOffset_def STACK_SLOT_SIZE_def)
qed

text \<open>
  C6: on 32-bit platforms, after any sequence of allocations and frees of live slots, the
  free and the live slots partition the cells of the frame: no two live slots share a cell
  (double slots counted with both of theirs), none lies outside the frame, no cell is lost, double slots
  are 8-byte aligned, and the offset computed for each live slot lies with its whole width in
  the frame that the code generator reserves.
\<close>

theorem stack_slots_partition:
  assumes "\<not> a_punbox a" "a_ptr a = 4" "slots_reachable a s live"
  shows "distinct (concat (map (cells a) live)) \<and>
    all_cells a s live = mset [1..<Suc (ssa_height s)] \<and>
    (\<forall>(i, dbl) \<in> set live. (dbl \<longrightarrow> even i) \<and> (\<forall>fp. frameDepth a (ssa_height s) args \<le> fp \<longrightarrow>
       (\<exists>off. SlotToStackOffset a fp (ssa_height s) i = Some off \<and> off + (if dbl then 8 else 4) \<le> fp)))"
proof (intro conjI)
  note inv = slots_inv_reachable[OF assms]
  show "distinct (concat (map (cells a) live))" by (rule slots_inv_live(1)[OF inv])
  show "all_cells a s live = mset [1..<Suc (ssa_height s)]"
    using inv by (simp only: slots_inv_def frame_cells_def)
  have "even i \<and> 2 \<le> i" if "(i, True) \<in> set live" for i using inv that by (auto simp: slots_inv_def)
  then show "\<forall>(i, dbl) \<in> set live. (dbl \<longrightarrow> even i) \<and> (\<forall>fp. frameDepth a (ssa_height s) args \<le> fp \<longrightarrow>
       (\<exists>off. SlotToStackOffset a fp (ssa_height s) i = Some off \<and> off + (if dbl then 8 else 4) \<le> fp))"
    using offset_in_frame[OF assms(2) _ _ slots_inv_live(2)[OF inv]] by (fastforce simp del: cells.simps)
qed

theorem stack_slots_partition_witness:
  "slots_reachable (arch_x86 False) \<lparr>normalSlots = [2], doubleSlots = [], ssa_height = 4\<rparr> [(4, True), (1, False)] \<and>
   distinct (concat (map (cells (arch_x86 False)) [(4, True), (1, False)]))"
proof -
  let ?a = "arch_x86 False"
  have "slot_step ?a (StackSlotAllocator, []) (\<lparr>normalSlots = [], doubleSlots = [], ssa_height = 1\<rparr>, [(1, False)])"
    by (rule slot_step.alloc) (simp add: StackSlotAllocator_def allocateSlot_def)
  moreover have "slot_step ?a (\<lparr>normalSlots = [], doubleSlots = [], ssa_height = 1\<rparr>, [(1, False)])
      (\<lparr>normalSlots = [2], doubleSlots = [], ssa_height = 4\<rparr>, [(4, True), (1, False)])"
    by (rule slot_step.allocDouble) (simp add: allocateDoubleSlot_def arch_x86_def Let_def ComputeByteAlignment_def
        DOUBLE_STACK_ALIGNMENT_def STACK_SLOT_SIZE_def sizeof_double_def)
  ultimately have r: "slots_reachable ?a \<lparr>normalSlots = [2], doubleSlots = [], ssa_height = 4\<rparr> [(4, True), (1, False)]"
    unfolding slots_reachable_def by (meson rtranclp.intros)
  from stack_slots_partition[OF _ _ r, of 0] r show ?thesis by (simp add: arch_x86_def)
qed

subsection \<open>Overlap on 64-bit platforms\<close>

text \<open>
  C12: on x64 a double slot is one cell wide, but \<open>allocateSlot\<close> still splits a freed double
  slot in two and puts the cell next to it on the free list. After allocating a slot and a
  double slot, freeing the double slot and allocating two slots, two of the three live slots
  are the same cell.
\<close>

theorem stack_slots_overlap_x64:
  "\<exists>s live. slots_reachable (arch_x64 debug) s live \<and> live = [(1, False), (2, False), (1, False)]"
proof -
  let ?a = "arch_x64 debug"
  let ?step = "slot_step ?a"
  define s0 where "s0 = (\<lparr>normalSlots = [], doubleSlots = [], ssa_height = 1\<rparr>, [(1::nat, False)])"
  define s1 where "s1 = (\<lparr>normalSlots = [], doubleSlots = [], ssa_height = 2\<rparr>, [(2::nat, True), (1, False)])"
  define s2 where "s2 = (\<lparr>normalSlots = [], doubleSlots = [2], ssa_height = 2\<rparr>, [(1::nat, False)])"
  define s3 where "s3 = (\<lparr>normalSlots = [1], doubleSlots = [], ssa_height = 2\<rparr>, [(2::nat, False), (1, False)])"
  define s4 where "s4 = (\<lparr>normalSlots = [], doubleSlots = [], ssa_height = 2\<rparr>, [(1::nat, False), (2, False), (1, False)])"
  have 0: "?step (StackSlotAllocator, []) s0" unfolding s0_def
    by (rule slot_step.alloc) (simp add: StackSlotAllocator_def allocateSlot_def)
  have 1: "?step s0 s1" unfolding s0_def s1_def
    by (rule slot_step.allocDouble) (simp add: allocateDoubleSlot_def arch_x64_def Let_def ComputeByteAlignment_def
        DOUBLE_STACK_ALIGNMENT_def STACK_SLOT_SIZE_def sizeof_double_def)
  have 2: "?step s1 s2"
    using slot_step.freeDouble[of 2 "[(2, True), (1, False)]" ?a "fst s1"]
    by (simp add: s1_def s2_def freeDoubleSlot_def)
  have 3: "?step s2 s3" unfolding s2_def s3_def
    by (rule slot_step.alloc) (simp add: allocateSlot_def Let_def)
  have 4: "?step s3 s4" unfolding s3_def s4_def
    by (rule slot_step.alloc) (simp add: allocateSlot_def)
  have "?step\<^sup>*\<^sup>* (StackSlotAllocator, []) s4"
    using 0 1 2 3 4 by (meson rtranclp.intros)
  then show ?thesis unfolding slots_reachable_def s4_def by blast
qed

end
