(* ===== verification/Mir_Types.thy ===== *)
theory Mir_Types
  imports Snapshots
begin

text \<open>
  The type lattice and the alias sets of MIR: \<open>MIRType\<close> with the conversions of
  \<open>ion/TypeOracle.h\<close>, and \<open>AliasSet\<close> of \<open>ion/MIR.h\<close>. \<open>JSVAL_TYPE_UNKNOWN\<close>, the value type
  that is no tag, is \<open>None\<close>.
\<close>

datatype MIRType = MIRType_Undefined | MIRType_Null | MIRType_Boolean | MIRType_Int32
  | MIRType_Double | MIRType_String | MIRType_Object | MIRType_Magic | MIRType_Value
  | MIRType_Any | MIRType_None | MIRType_Slots | MIRType_Elements | MIRType_UpvarSlots
  | MIRType_StackFrame

fun MIRTypeFromValueType :: "JSValueType option \<Rightarrow> MIRType" where
  "MIRTypeFromValueType (Some JSVAL_TYPE_DOUBLE) = MIRType_Double"
| "MIRTypeFromValueType (Some JSVAL_TYPE_INT32) = MIRType_Int32"
| "MIRTypeFromValueType (Some JSVAL_TYPE_UNDEFINED) = MIRType_Undefined"
| "MIRTypeFromValueType (Some JSVAL_TYPE_STRING) = MIRType_String"
| "MIRTypeFromValueType (Some JSVAL_TYPE_BOOLEAN) = MIRType_Boolean"
| "MIRTypeFromValueType (Some JSVAL_TYPE_NULL) = MIRType_Null"
| "MIRTypeFromValueType (Some JSVAL_TYPE_OBJECT) = MIRType_Object"
| "MIRTypeFromValueType (Some JSVAL_TYPE_MAGIC) = MIRType_Magic"
| "MIRTypeFromValueType None = MIRType_Value"

fun ValueTypeFromMIRType :: "MIRType \<Rightarrow> JSValueType option" where
  "ValueTypeFromMIRType MIRType_Undefined = Some JSVAL_TYPE_UNDEFINED"
| "ValueTypeFromMIRType MIRType_Null = Some JSVAL_TYPE_NULL"
| "ValueTypeFromMIRType MIRType_Boolean = Some JSVAL_TYPE_BOOLEAN"
| "ValueTypeFromMIRType MIRType_Int32 = Some JSVAL_TYPE_INT32"
| "ValueTypeFromMIRType MIRType_Double = Some JSVAL_TYPE_DOUBLE"
| "ValueTypeFromMIRType MIRType_String = Some JSVAL_TYPE_STRING"
| "ValueTypeFromMIRType MIRType_Magic = Some JSVAL_TYPE_MAGIC"
| "ValueTypeFromMIRType t = do { js_assert (t = MIRType_Object); Some JSVAL_TYPE_OBJECT }"

definition IsNumberType :: "MIRType \<Rightarrow> bool" where
  "IsNumberType t \<longleftrightarrow> t = MIRType_Int32 \<or> t = MIRType_Double"

definition IsNullOrUndefined :: "MIRType \<Rightarrow> bool" where
  "IsNullOrUndefined t \<longleftrightarrow> t = MIRType_Null \<or> t = MIRType_Undefined"

lemma MIRType_of_value_type:
  "ValueTypeFromMIRType t = Some v \<Longrightarrow> MIRTypeFromValueType (Some v) = t"
  by (cases t) auto

lemma value_type_of_MIRType: "ValueTypeFromMIRType (MIRTypeFromValueType (Some v)) = Some v"
  by (cases v) auto

subsection \<open>Alias sets\<close>

type_synonym alias_set = u32

definition AliasSet_ObjectFields :: u32 where "AliasSet_ObjectFields = 1"
definition AliasSet_Element :: u32 where "AliasSet_Element = 2"
definition AliasSet_Slot :: u32 where "AliasSet_Slot = 4"
definition AliasSet_TypedArrayElement :: u32 where "AliasSet_TypedArrayElement = 8"
definition AliasSet_Any :: u32 where
  "AliasSet_Any = AliasSet_TypedArrayElement OR (AliasSet_TypedArrayElement - 1)"
definition AliasSet_StoreFlag :: u32 where "AliasSet_StoreFlag = push_bit 31 1"

definition as_isNone :: "alias_set \<Rightarrow> bool" where "as_isNone s \<longleftrightarrow> s = 0"
definition as_flags :: "alias_set \<Rightarrow> u32" where "as_flags s = s AND AliasSet_Any"
definition as_isStore :: "alias_set \<Rightarrow> bool" where "as_isStore s \<longleftrightarrow> s AND AliasSet_StoreFlag \<noteq> 0"
definition as_isLoad :: "alias_set \<Rightarrow> bool" where "as_isLoad s \<longleftrightarrow> \<not> as_isStore s \<and> \<not> as_isNone s"
definition as_or :: "alias_set \<Rightarrow> alias_set \<Rightarrow> alias_set" where "as_or s t = s OR t"
definition as_and :: "alias_set \<Rightarrow> alias_set \<Rightarrow> alias_set" where "as_and s t = s AND t"
definition as_None :: alias_set where "as_None = 0"

definition as_Load :: "u32 \<Rightarrow> alias_set option" where
  "as_Load f = do { js_assert (f \<noteq> 0 \<and> f AND AliasSet_StoreFlag = 0); Some f }"

definition as_Store :: "u32 \<Rightarrow> alias_set option" where
  "as_Store f = do { js_assert (f \<noteq> 0 \<and> f AND AliasSet_StoreFlag = 0); Some (f OR AliasSet_StoreFlag) }"

lemma as_Load_isLoad: "as_Load f = Some s \<Longrightarrow> as_isLoad s"
  by (auto simp: as_Load_def as_isLoad_def as_isStore_def as_isNone_def split: if_splits)

lemma as_Store_isStore: "as_Store f = Some s \<Longrightarrow> as_isStore s \<and> \<not> as_isLoad s \<and> \<not> as_isNone s"
proof -
  assume "as_Store f = Some s"
  then have "as_isStore s"
    by (auto simp: as_Store_def as_isStore_def AliasSet_StoreFlag_def bit.conj_disj_distrib2 split: if_splits)
  then show ?thesis by (auto simp: as_isLoad_def as_isNone_def as_isStore_def)
qed

text \<open>A load and a store collected in one set by \<open>operator |\<close> read as a store.\<close>

lemma as_or_isStore: "as_isStore (as_or s t) \<longleftrightarrow> as_isStore s \<or> as_isStore t"
proof -
  have "AliasSet_StoreFlag = push_bit 31 1" by (simp add: AliasSet_StoreFlag_def)
  then have "as_isStore s \<longleftrightarrow> bit s 31" for s
    using word_and_push_one[of 31 s] by (simp add: as_isStore_def)
  then show ?thesis by (simp add: as_or_def bit_or_iff)
qed

end
