(* ===== verification/Mir_Nodes.thy ===== *)
theory Mir_Nodes
  imports Mir_Types
begin

text \<open>
  The nodes of MIR and their use chains (\<open>ion/MIR.h\<close>, \<open>ion/MIR.cpp\<close>, \<open>ion/MOpcodes.h\<close>).

  A node is a record in a store that maps addresses to nodes; it has the fields of \<open>MNode\<close>,
  \<open>MDefinition\<close>, \<open>MPhi\<close> and \<open>MResumePoint\<close>. Operands are addresses, \<open>None\<close> before \<open>initOperand\<close>
  has been called. Each definition keeps the list of its uses, a use being the address of the
  using node and the operand index. A use iterator is the position in that list.

  The invariant relates the two directions: a use is on the chain of a definition exactly once
  when the operand it names is that definition, and on no other chain. Every operation that
  re-links operands keeps it. Uses and the inputs of phis find memory.
\<close>

subsection \<open>Nodes\<close>

text \<open>
  The opcodes that some modelled pass tests for; \<open>Op_Other k\<close> is the opcode at position \<open>k\<close> of
  \<open>MIR_OPCODE_LIST\<close>, for the rest.
\<close>

datatype (plugins only: code size) Opcode = Op_Constant | Op_Parameter | Op_TableSwitch | Op_Goto | Op_Test | Op_Compare
  | Op_Phi | Op_PassArg | Op_Call | Op_BitNot | Op_BitAnd | Op_BitOr | Op_BitXor
  | Op_Lsh | Op_Rsh | Op_Ursh | Op_Abs | Op_Add | Op_Sub | Op_Mul | Op_Div
  | Op_Mod | Op_CharCodeAt | Op_FromCharCode | Op_Return | Op_Box | Op_Unbox
  | Op_ToDouble | Op_ToInt32 | Op_TruncateToInt32 | Op_ToString | Op_Start
  | Op_OsrValue | Op_OsrScopeChain | Op_Not | Op_BoundsCheck
  | Op_BoundsCheckLower | Op_LoadElement | Op_LoadElementHole | Op_StoreElement
  | Op_StoreElementHole | Op_LoadTypedArrayElement
  | Op_LoadTypedArrayElementHole | Op_TypeOf | Op_ClampToUint8 | Op_Other nat

datatype node_kind = Definition | ResumePoint

datatype resume_mode = ResumeAt | ResumeAfter | Outer

record mnode =
  mn_kind :: node_kind
  mn_op :: Opcode
  mn_block :: "nat option"
  mn_operands :: "nat option list"
  mn_uses :: "(nat \<times> nat) list"
  mn_id :: nat
  mn_type :: MIRType
  mn_flags :: u32
  mn_dependency :: "nat option"
  mn_slot :: nat
  mn_caller :: "nat option"
  mn_mode :: resume_mode
  mn_pc :: nat

type_synonym nodes = "nat \<Rightarrow> mnode"

definition isDefinition :: "nodes \<Rightarrow> nat \<Rightarrow> bool" where
  "isDefinition h n \<longleftrightarrow> mn_kind (h n) = Definition"

definition isResumePoint :: "nodes \<Rightarrow> nat \<Rightarrow> bool" where
  "isResumePoint h n \<longleftrightarrow> mn_kind (h n) = ResumePoint"

definition numOperands :: "nodes \<Rightarrow> nat \<Rightarrow> nat" where
  "numOperands h n = length (mn_operands (h n))"

definition getOperand :: "nodes \<Rightarrow> nat \<Rightarrow> nat \<Rightarrow> nat option" where
  "getOperand h n i = (if i < numOperands h n then mn_operands (h n) ! i else None)"

definition setOperand :: "nat \<Rightarrow> nat \<Rightarrow> nat \<Rightarrow> nodes \<Rightarrow> nodes" where
  "setOperand n i d h = h(n := (h n)\<lparr>mn_operands := (mn_operands (h n))[i := Some d]\<rparr>)"

text \<open>The flags of \<open>MIR_FLAG_LIST\<close> are bits 1 to 8 of \<open>flags_\<close>; \<open>None\<close> is 0.\<close>

datatype mir_flag = InWorklist | EmittedAtUses | LoopInvariant | Commutative | Movable | Lowered
  | Guard | Unused

fun flag_bit :: "mir_flag \<Rightarrow> nat" where
  "flag_bit InWorklist = 1"
| "flag_bit EmittedAtUses = 2"
| "flag_bit LoopInvariant = 3"
| "flag_bit Commutative = 4"
| "flag_bit Movable = 5"
| "flag_bit Lowered = 6"
| "flag_bit Guard = 7"
| "flag_bit Unused = 8"

definition hasFlag :: "nodes \<Rightarrow> mir_flag \<Rightarrow> nat \<Rightarrow> bool" where
  "hasFlag h f n \<longleftrightarrow> mn_flags (h n) AND push_bit (flag_bit f) 1 = push_bit (flag_bit f) 1"

definition setFlagUnchecked :: "mir_flag \<Rightarrow> nat \<Rightarrow> nodes \<Rightarrow> nodes" where
  "setFlagUnchecked f n h = h(n := (h n)\<lparr>mn_flags := mn_flags (h n) OR push_bit (flag_bit f) 1\<rparr>)"

definition setFlag :: "mir_flag \<Rightarrow> nat \<Rightarrow> nodes \<Rightarrow> nodes option" where
  "setFlag f n h = do { js_assert (\<not> hasFlag h f n); Some (setFlagUnchecked f n h) }"

definition setNotFlag :: "mir_flag \<Rightarrow> nat \<Rightarrow> nodes \<Rightarrow> nodes option" where
  "setNotFlag f n h = do {
     js_assert (hasFlag h f n);
     Some (h(n := (h n)\<lparr>mn_flags := mn_flags (h n) AND NOT (push_bit (flag_bit f) 1)\<rparr>)) }"

subsection \<open>Use chains\<close>

definition addUse :: "nat \<Rightarrow> nat \<Rightarrow> nat \<Rightarrow> nodes \<Rightarrow> nodes" where
  "addUse d n i h = h(d := (h d)\<lparr>mn_uses := (n, i) # mn_uses (h d)\<rparr>)"

definition linkUse :: "nat \<Rightarrow> nat \<times> nat \<Rightarrow> nodes \<Rightarrow> nodes option" where
  "linkUse d u h = do {
     js_assert (getOperand h (fst u) (snd u) = Some d);
     Some (addUse d (fst u) (snd u) h) }"

definition removeUse :: "nat \<Rightarrow> nat \<Rightarrow> nodes \<Rightarrow> nodes" where
  "removeUse d k h = h(d := (h d)\<lparr>mn_uses := take k (mn_uses (h d)) @ drop (Suc k) (mn_uses (h d))\<rparr>)"

definition useCount :: "nodes \<Rightarrow> nat \<Rightarrow> nat" where
  "useCount h d = length (mn_uses (h d))"

definition hasUses :: "nodes \<Rightarrow> nat \<Rightarrow> bool" where
  "hasUses h d \<longleftrightarrow> mn_uses (h d) \<noteq> []"

definition initOperand :: "nat \<Rightarrow> nat \<Rightarrow> nat \<Rightarrow> nodes \<Rightarrow> nodes" where
  "initOperand n i d h = addUse d n i (setOperand n i d h)"

text \<open>\<open>MPhi::addInput\<close>, where the vector of inputs can grow; it returns true then.\<close>

definition addInput :: "nat \<Rightarrow> nat \<Rightarrow> nodes \<Rightarrow> nodes" where
  "addInput phi d h =
     (let h = addUse d phi (numOperands h phi) h
      in h(phi := (h phi)\<lparr>mn_operands := mn_operands (h phi) @ [Some d]\<rparr>))"

text \<open>
  \<open>replaceOperand\<close> with a use iterator: \<open>d\<close> is the definition on whose chain the iterator
  stands and \<open>k\<close> its position. A null replacement only unlinks the use.
\<close>

definition replaceOperand_at :: "nat \<Rightarrow> nat \<Rightarrow> nat \<Rightarrow> nat option \<Rightarrow> nodes \<Rightarrow> nodes option" where
  "replaceOperand_at n d k ins h =
     (let use = mn_uses (h d) ! k;
          used = getOperand h n (snd use)
      in if used = ins then Some h
         else do {
           u \<leftarrow> used;
           let h = removeUse u k h;
           (case ins of
              None \<Rightarrow> Some h
            | Some i \<Rightarrow> linkUse i use (setOperand n (snd use) i h)) })"

fun find_use :: "nat \<times> nat \<Rightarrow> nat \<Rightarrow> (nat \<times> nat) list \<Rightarrow> nat option" where
  "find_use u k [] = None"
| "find_use u k (v # vs) = (if snd v = snd u \<and> fst v = fst u then Some k else find_use u (Suc k) vs)"

definition replaceOperand :: "nat \<Rightarrow> nat \<Rightarrow> nat option \<Rightarrow> nodes \<Rightarrow> nodes option" where
  "replaceOperand n i def h = do {
     d \<leftarrow> getOperand h n i;
     k \<leftarrow> find_use (n, i) 0 (mn_uses (h d));
     replaceOperand_at n d k def h }"

text \<open>
  \<open>replaceAllUsesWith\<close>: each use leaves the chain and is linked to \<open>rep\<close>. Linking to the chain
  that is being walked would invalidate the iterator, whose next step asserts.
\<close>

fun replaceUses_loop :: "nat \<Rightarrow> nat \<Rightarrow> (nat \<times> nat) list \<Rightarrow> nodes \<Rightarrow> nodes option" where
  "replaceUses_loop d rep [] h = Some h"
| "replaceUses_loop d rep (u # us) h = do {
     let h = removeUse d 0 h;
     let h = setOperand (fst u) (snd u) rep h;
     h \<leftarrow> linkUse rep u h;
     js_assert (d \<noteq> rep \<or> us = []);
     replaceUses_loop d rep us h }"

definition replaceAllUsesWith :: "nat \<Rightarrow> nat \<Rightarrow> nodes \<Rightarrow> nodes option" where
  "replaceAllUsesWith d rep h = replaceUses_loop d rep (mn_uses (h d)) h"

text \<open>The loop of \<open>MBasicBlock::discard\<close> and its variants over the operands of an instruction.\<close>

definition releaseOperands :: "nat \<Rightarrow> nodes \<Rightarrow> nodes option" where
  "releaseOperands n h = mfold (\<lambda>i. replaceOperand n i None) [0..<numOperands h n] h"

subsection \<open>The invariant of use chains\<close>

text \<open>
  \<open>L\<close> is the set of linked operands, as pairs of a node and an index: those that were initialised
  and not released. An operand outside it, such as one of a discarded instruction, is on no chain.
\<close>

definition use_inv :: "(nat \<times> nat) set \<Rightarrow> nodes \<Rightarrow> bool" where
  "use_inv L h \<longleftrightarrow> (\<forall>d n i. count_list (mn_uses (h d)) (n, i) =
     (if (n, i) \<in> L \<and> getOperand h n i = Some d then 1 else 0))"

lemma use_invD:
  "use_inv L h \<Longrightarrow> count_list (mn_uses (h d)) (n, i) = (if (n, i) \<in> L \<and> getOperand h n i = Some d then 1 else 0)"
  by (simp add: use_inv_def)

lemma use_inv_mem: "use_inv L h \<Longrightarrow> (n, i) \<in> set (mn_uses (h d)) \<longleftrightarrow> (n, i) \<in> L \<and> getOperand h n i = Some d"
  using use_invD[of L h d n i] count_list_0_iff[of "mn_uses (h d)" "(n, i)"] by (auto split: if_splits)

lemma getOperand_setOperand:
  "getOperand (setOperand n i d h) m j =
     (if m = n \<and> j = i \<and> i < numOperands h n then Some d else getOperand h m j)"
  by (auto simp: getOperand_def setOperand_def numOperands_def)

lemma uses_setOperand [simp]: "mn_uses (setOperand n i d h m) = mn_uses (h m)"
  by (simp add: setOperand_def)

lemma numOperands_setOperand [simp]: "numOperands (setOperand n i d h) m = numOperands h m"
  by (simp add: numOperands_def setOperand_def)

lemma getOperand_addUse [simp]: "getOperand (addUse d n i h) m j = getOperand h m j"
  by (simp add: getOperand_def addUse_def numOperands_def)

lemma uses_addUse: "mn_uses (addUse d n i h m) = (if m = d then (n, i) # mn_uses (h d) else mn_uses (h m))"
  by (simp add: addUse_def)

lemma numOperands_addUse [simp]: "numOperands (addUse d n i h) m = numOperands h m"
  by (simp add: numOperands_def addUse_def)

lemma getOperand_removeUse [simp]: "getOperand (removeUse d k h) m j = getOperand h m j"
  by (simp add: getOperand_def removeUse_def numOperands_def)

lemma uses_removeUse:
  "mn_uses (removeUse d k h m) =
     (if m = d then take k (mn_uses (h d)) @ drop (Suc k) (mn_uses (h d)) else mn_uses (h m))"
  by (simp add: removeUse_def)

lemma numOperands_removeUse [simp]: "numOperands (removeUse d k h) m = numOperands h m"
  by (simp add: numOperands_def removeUse_def)

lemmas chain_simps = getOperand_setOperand uses_addUse uses_removeUse

lemma getOperand_Some_less: "getOperand h n i = Some d \<Longrightarrow> i < numOperands h n"
  by (auto simp: getOperand_def split: if_splits)

lemma count_list_remove_nth:
  "k < length xs \<Longrightarrow> count_list (take k xs @ drop (Suc k) xs) x + (if xs ! k = x then 1 else 0) = count_list xs x"
  by (subst (3) id_take_nth_drop[of k xs]) (auto simp: count_list_append)

text \<open>Linking a fresh operand, and unlinking one.\<close>

lemma use_inv_initOperand:
  assumes "use_inv L h" "(n, i) \<notin> L" "i < numOperands h n"
  shows "use_inv (insert (n, i) L) (initOperand n i d h)"
  unfolding use_inv_def initOperand_def
  using use_invD[OF assms(1)] assms(2,3) by (auto simp: chain_simps)

lemma use_inv_addInput:
  assumes "use_inv L h" "(phi, numOperands h phi) \<notin> L"
  shows "use_inv (insert (phi, numOperands h phi) L) (addInput phi d h)"
proof -
  have op: "getOperand (addInput phi d h) m j =
      (if m = phi \<and> j = numOperands h phi then Some d else getOperand h m j)" for m j
    by (auto simp: addInput_def getOperand_def numOperands_def addUse_def Let_def nth_append)
  have us: "mn_uses (addInput phi d h m) = (if m = d then (phi, numOperands h phi) # mn_uses (h d) else mn_uses (h m))" for m
    by (simp add: addInput_def addUse_def Let_def)
  show ?thesis unfolding use_inv_def op us using use_invD[OF assms(1)] assms(2) by auto
qed

lemma use_inv_removeUse:
  assumes "use_inv L h" "k < length (mn_uses (h d))" "mn_uses (h d) ! k = (n, i)"
  shows "use_inv (L - {(n, i)}) (removeUse d k h)"
proof -
  have mem: "(n, i) \<in> L" "getOperand h n i = Some d"
    using use_inv_mem[OF assms(1), of n i d] nth_mem[OF assms(2)] assms(3) by auto
  show ?thesis
    unfolding use_inv_def
  proof (intro allI)
    fix e m j
    show "count_list (mn_uses (removeUse d k h e)) (m, j) =
      (if (m, j) \<in> L - {(n, i)} \<and> getOperand (removeUse d k h) m j = Some e then 1 else 0)"
      using use_invD[OF assms(1), of e m j] count_list_remove_nth[OF assms(2), of "(m, j)"] assms(3) mem
      by (auto simp: uses_removeUse split: if_splits)
  qed
qed

lemma use_inv_relink:
  assumes "use_inv L h" "(n, i) \<notin> L" "i < numOperands h n"
  shows "linkUse d (n, i) (setOperand n i d h) = Some (initOperand n i d h)"
    "use_inv (insert (n, i) L) (initOperand n i d h)"
  using use_inv_initOperand[OF assms] assms(3) by (simp_all add: linkUse_def initOperand_def chain_simps)

lemma getOperand_initOperand:
  "i < numOperands h n \<Longrightarrow> getOperand (initOperand n i d h) m j = (if m = n \<and> j = i then Some d else getOperand h m j)"
  by (simp add: initOperand_def chain_simps)

text \<open>Re-linking touches operands and chains only.\<close>

definition same_nodes :: "nodes \<Rightarrow> nodes \<Rightarrow> bool" where
  "same_nodes h h' \<longleftrightarrow> (\<forall>m. h' m = (h m)\<lparr>mn_operands := mn_operands (h' m), mn_uses := mn_uses (h' m)\<rparr>)"

lemma same_nodes_refl: "same_nodes h h"
  by (simp add: same_nodes_def)

lemma same_nodes_trans: "same_nodes h h1 \<Longrightarrow> same_nodes h1 h2 \<Longrightarrow> same_nodes h h2"
  unfolding same_nodes_def by (metis (no_types, lifting) mnode.surjective mnode.update_convs(4) mnode.update_convs(5))

lemma same_nodes_fields:
  assumes "same_nodes h h'"
  shows "mn_op (h' m) = mn_op (h m)" "mn_block (h' m) = mn_block (h m)" "mn_slot (h' m) = mn_slot (h m)"
    "mn_kind (h' m) = mn_kind (h m)" "mn_caller (h' m) = mn_caller (h m)"
proof -
  have "h' m = (h m)\<lparr>mn_operands := mn_operands (h' m), mn_uses := mn_uses (h' m)\<rparr>"
    using assms by (simp add: same_nodes_def)
  then have "\<exists>a b. h' m = (h m)\<lparr>mn_operands := a, mn_uses := b\<rparr>" by blast
  then show "mn_op (h' m) = mn_op (h m)" "mn_block (h' m) = mn_block (h m)" "mn_slot (h' m) = mn_slot (h m)"
    "mn_kind (h' m) = mn_kind (h m)" "mn_caller (h' m) = mn_caller (h m)"
    by auto
qed

lemma same_nodes_ops:
  "same_nodes h (setOperand n i d h)" "same_nodes h (addUse d n i h)" "same_nodes h (removeUse d k h)"
  "same_nodes h (addInput n d h)"
  by (simp_all add: same_nodes_def setOperand_def addUse_def removeUse_def addInput_def Let_def)

lemma same_nodes_initOperand: "same_nodes h (initOperand n i d h)"
  unfolding initOperand_def by (rule same_nodes_trans[OF same_nodes_ops(1,2)])

lemma same_nodes_replaceOperand:
  assumes "replaceOperand n i def h = Some h'"
  shows "same_nodes h h'"
proof -
  have "same_nodes h (addUse a b c (setOperand x y z (removeUse u k h)))" for a b c x y z u k
    by (rule same_nodes_trans[OF same_nodes_trans[OF same_nodes_ops(3,1)] same_nodes_ops(2)])
  with assms show ?thesis
    by (auto simp: replaceOperand_def replaceOperand_at_def linkUse_def Let_def same_nodes_refl same_nodes_ops(3)
        bind_eq_Some_conv split: if_splits option.splits)
qed

lemma numOperands_addInput: "numOperands (addInput phi d h) m = (if m = phi then Suc (numOperands h m) else numOperands h m)"
  by (simp add: numOperands_def addInput_def addUse_def Let_def)

lemma numOperands_replaceOperand:
  assumes "replaceOperand n i def h = Some h'"
  shows "numOperands h' m = numOperands h m"
  using assms by (auto simp: replaceOperand_def replaceOperand_at_def linkUse_def Let_def
      bind_eq_Some_conv split: if_splits option.splits)

lemma uses_addInput: "mn_uses (addInput phi d h x) = (if x = d then (phi, numOperands h phi) # mn_uses (h x) else mn_uses (h x))"
  by (simp add: addInput_def addUse_def Let_def)

text \<open>Equal operand reads over equal lengths give equal operand lists.\<close>

lemma operands_eqI:
  assumes "numOperands h' m = numOperands h n" "\<And>j. getOperand h' m j = getOperand h n j"
  shows "mn_operands (h' m) = mn_operands (h n)"
proof (rule nth_equalityI)
  show "length (mn_operands (h' m)) = length (mn_operands (h n))" using assms(1) by (simp add: numOperands_def)
  fix j assume "j < length (mn_operands (h' m))"
  then show "mn_operands (h' m) ! j = mn_operands (h n) ! j"
    using assms(1) assms(2)[of j] by (simp add: getOperand_def numOperands_def)
qed

lemma find_use_spec:
  "u \<in> set us \<Longrightarrow> \<exists>j. find_use u k us = Some (k + j) \<and> j < length us \<and> us ! j = u"
proof (induction us arbitrary: k)
  case Nil
  then show ?case by simp
next
  case (Cons v vs)
  show ?case
  proof (cases "v = u")
    case True
    then show ?thesis by (intro exI[of _ 0]) simp
  next
    case False
    then obtain j where "find_use u (Suc k) vs = Some (Suc k + j)" "j < length vs" "vs ! j = u"
      using Cons.IH[of "Suc k"] Cons.prems by auto
    with False show ?thesis by (intro exI[of _ "Suc j"]) (auto simp: prod_eq_iff)
  qed
qed

lemma find_use_linked:
  assumes "use_inv L h" "(n, i) \<in> L" "getOperand h n i = Some d"
  shows "\<exists>k. find_use (n, i) 0 (mn_uses (h d)) = Some k \<and> k < length (mn_uses (h d)) \<and> mn_uses (h d) ! k = (n, i)"
  using find_use_spec[of "(n, i)" "mn_uses (h d)" 0] use_inv_mem[OF assms(1), of n i d] assms(2,3) by auto

lemma uses_replaceOperand_other:
  assumes "replaceOperand n i (Some e) h = Some h'" "getOperand h n i = Some d" "x \<noteq> d" "x \<noteq> e"
    "use_inv L h" "(n, i) \<in> L"
  shows "mn_uses (h' x) = mn_uses (h x)"
proof -
  obtain k where "find_use (n, i) 0 (mn_uses (h d)) = Some k" "mn_uses (h d) ! k = (n, i)"
    using find_use_linked[OF assms(5,6,2)] by blast
  with assms show ?thesis
    by (auto simp: replaceOperand_def replaceOperand_at_def linkUse_def Let_def chain_simps split: if_splits)
qed

lemma replaceOperand_spec:
  assumes "use_inv L h" "(n, i) \<in> L" "getOperand h n i = Some d"
  shows "\<exists>h'. replaceOperand n i (Some e) h = Some h' \<and> use_inv L h' \<and>
    (\<forall>m j. getOperand h' m j = (if m = n \<and> j = i then Some e else getOperand h m j))"
proof (cases "d = e")
  case True
  obtain k where "find_use (n, i) 0 (mn_uses (h d)) = Some k" "mn_uses (h d) ! k = (n, i)"
    using find_use_linked[OF assms] by blast
  with True assms have "replaceOperand n i (Some e) h = Some h"
    by (simp add: replaceOperand_def replaceOperand_at_def)
  with True assms(1,3) show ?thesis by auto
next
  case False
  obtain k where k: "find_use (n, i) 0 (mn_uses (h d)) = Some k" "k < length (mn_uses (h d))" "mn_uses (h d) ! k = (n, i)"
    using find_use_linked[OF assms] by blast
  let ?h = "removeUse d k h"
  have inv: "use_inv (L - {(n, i)}) ?h" by (rule use_inv_removeUse[OF assms(1) k(2,3)])
  have i: "i < numOperands ?h n" using getOperand_Some_less[OF assms(3)] by simp
  note re = use_inv_relink[OF inv _ i, of e]
  have "replaceOperand n i (Some e) h = Some (initOperand n i e ?h)"
    using False assms(3) k re(1) by (simp add: replaceOperand_def replaceOperand_at_def Let_def)
  moreover have "insert (n, i) (L - {(n, i)}) = L" using assms(2) by blast
  then have "use_inv L (initOperand n i e ?h)" using re(2) by simp
  ultimately show ?thesis using getOperand_initOperand[OF i, of e] by auto
qed

lemma replaceOperand_null:
  assumes "use_inv L h" "(n, i) \<in> L" "getOperand h n i = Some d"
  shows "\<exists>h'. replaceOperand n i None h = Some h' \<and> use_inv (L - {(n, i)}) h' \<and>
    (\<forall>m j. getOperand h' m j = getOperand h m j) \<and> (\<forall>m. numOperands h' m = numOperands h m)"
proof -
  obtain k where k: "find_use (n, i) 0 (mn_uses (h d)) = Some k" "k < length (mn_uses (h d))" "mn_uses (h d) ! k = (n, i)"
    using find_use_linked[OF assms] by blast
  have "replaceOperand n i None h = Some (removeUse d k h)"
    using assms(3) k by (simp add: replaceOperand_def replaceOperand_at_def Let_def)
  with use_inv_removeUse[OF assms(1) k(2,3)] show ?thesis by simp
qed

lemma releaseOperands_loop:
  assumes "use_inv L h" "\<forall>i\<in>set is. (n, i) \<in> L \<and> (\<exists>d. getOperand h n i = Some d)" "distinct is"
  shows "\<exists>h'. mfold (\<lambda>i. replaceOperand n i None) is h = Some h' \<and> use_inv (L - {n} \<times> set is) h' \<and>
    (\<forall>m j. getOperand h' m j = getOperand h m j)"
  using assms
proof (induction "is" arbitrary: L h)
  case Nil
  then show ?case by simp
next
  case (Cons i "is")
  obtain d where "(n, i) \<in> L" "getOperand h n i = Some d" using Cons.prems(2) by auto
  from replaceOperand_null[OF Cons.prems(1) this] obtain h1 where
    h1: "replaceOperand n i None h = Some h1" "use_inv (L - {(n, i)}) h1" "\<forall>m j. getOperand h1 m j = getOperand h m j"
    by blast
  have "\<forall>j\<in>set is. (n, j) \<in> L - {(n, i)} \<and> (\<exists>d. getOperand h1 n j = Some d)"
    using Cons.prems(2,3) h1(3) by auto
  from Cons.IH[OF h1(2) this] Cons.prems(3) obtain h2 where
    "mfold (\<lambda>i. replaceOperand n i None) is h1 = Some h2" "use_inv (L - {(n, i)} - {n} \<times> set is) h2"
    "\<forall>m j. getOperand h2 m j = getOperand h1 m j"
    by auto
  moreover have "L - {(n, i)} - {n} \<times> set is = L - {n} \<times> set (i # is)" by auto
  ultimately show ?case using h1 by simp
qed

lemma replaceUses_loop_spec:
  assumes "use_inv L h" "d \<noteq> e" "mn_uses (h d) = us"
  shows "\<exists>h'. replaceUses_loop d e us h = Some h' \<and> use_inv L h' \<and> mn_uses (h' d) = [] \<and>
    (\<forall>m j. getOperand h' m j = (if (m, j) \<in> set us then Some e else getOperand h m j))"
  using assms(1,3)
proof (induction us arbitrary: h)
  case Nil
  then show ?case by simp
next
  case (Cons u us)
  obtain n i where u: "u = (n, i)" by fastforce
  have mem: "(n, i) \<in> L" "getOperand h n i = Some d"
    using use_inv_mem[OF Cons.prems(1), of n i d] Cons.prems(2) u by auto
  let ?h = "removeUse d 0 h"
  have inv: "use_inv (L - {(n, i)}) ?h"
    using use_inv_removeUse[OF Cons.prems(1), of 0 d n i] Cons.prems(2) u by simp
  have i: "i < numOperands ?h n" using getOperand_Some_less[OF mem(2)] by simp
  note re = use_inv_relink[OF inv _ i, of e]
  let ?h1 = "initOperand n i e ?h"
  have L: "insert (n, i) (L - {(n, i)}) = L" using mem(1) by blast
  have uses1: "mn_uses (?h1 d) = us"
    using assms(2) Cons.prems(2) by (simp add: initOperand_def chain_simps)
  obtain h' where h': "replaceUses_loop d e us ?h1 = Some h'" "use_inv L h'" "mn_uses (h' d) = []"
    "\<forall>m j. getOperand h' m j = (if (m, j) \<in> set us then Some e else getOperand ?h1 m j)"
    using Cons.IH[OF re(2)[unfolded L] uses1] by blast
  have "replaceUses_loop d e (u # us) h = Some h'"
    using assms(2) re(1) h'(1) u by simp
  moreover have "\<forall>m j. getOperand h' m j = (if (m, j) \<in> set (u # us) then Some e else getOperand h m j)"
    using h'(4) getOperand_initOperand[OF i, of e] u by auto
  ultimately show ?case using h'(2,3) by blast
qed

text \<open>A small store for concrete applications: node 2 has two operands, not yet linked.\<close>

definition blank_node :: "Opcode \<Rightarrow> nat \<Rightarrow> mnode" where
  "blank_node op arity =
     \<lparr>mn_kind = Definition, mn_op = op, mn_block = None, mn_operands = replicate arity None, mn_uses = [],
      mn_id = 0, mn_type = MIRType_None, mn_flags = 0, mn_dependency = None, mn_slot = 0,
      mn_caller = None, mn_mode = ResumeAt, mn_pc = 0\<rparr>"

definition sample_nodes :: nodes where
  "sample_nodes = (\<lambda>n. if n = 2 then blank_node Op_Add 2 else blank_node Op_Constant 0)"

lemma use_inv_unlinked: "(\<And>d. mn_uses (h d) = []) \<Longrightarrow> use_inv {} h"
  by (simp add: use_inv_def)

lemma sample_linked:
  "use_inv {(2, 0), (2, 1)} (initOperand 2 1 0 (initOperand 2 0 0 sample_nodes))"
proof -
  have "use_inv {} sample_nodes" by (rule use_inv_unlinked) (simp add: sample_nodes_def blank_node_def)
  then have "use_inv (insert (2, 0) {}) (initOperand 2 0 0 sample_nodes)"
    by (rule use_inv_initOperand) (simp_all add: numOperands_def sample_nodes_def blank_node_def)
  then have "use_inv (insert (2, 1) (insert (2, 0) {})) (initOperand 2 1 0 (initOperand 2 0 0 sample_nodes))"
    by (rule use_inv_initOperand)
      (simp_all add: numOperands_def initOperand_def addUse_def setOperand_def sample_nodes_def blank_node_def)
  then show ?thesis by (simp add: insert_commute)
qed

text \<open>
  C25: replacing all uses of a definition by another one re-links every use exactly once: no
  assertion fails, the chains stay consistent with the operands, the old definition has no uses
  left, and exactly the linked operands that named it now name the replacement.
\<close>

theorem replaceAllUsesWith_relinks:
  assumes "use_inv L h" "d \<noteq> e"
  shows "\<exists>h'. replaceAllUsesWith d e h = Some h' \<and> use_inv L h' \<and> \<not> hasUses h' d \<and>
    (\<forall>n i. getOperand h' n i = (if (n, i) \<in> L \<and> getOperand h n i = Some d then Some e else getOperand h n i))"
  using replaceUses_loop_spec[OF assms refl] use_inv_mem[OF assms(1), of _ _ d]
  by (auto simp: replaceAllUsesWith_def hasUses_def)

theorem replaceAllUsesWith_relinks_witness:
  "\<exists>L h. use_inv L h \<and> (0::nat) \<noteq> 1 \<and>
    (\<exists>h'. replaceAllUsesWith 0 1 h = Some h' \<and> use_inv L h' \<and> \<not> hasUses h' 0 \<and>
    (\<forall>n i. getOperand h' n i = (if (n, i) \<in> L \<and> getOperand h n i = Some 0 then Some 1 else getOperand h n i)))"
proof -
  have "(0::nat) \<noteq> 1" by simp
  with replaceAllUsesWith_relinks[OF sample_linked this] sample_linked show ?thesis by blast
qed

text \<open>
  C26: discarding an instruction unlinks all its operands, each exactly once, and leaves every
  other use in place.
\<close>

theorem discarded_instruction_unlinked:
  assumes "use_inv L h" "\<forall>i<numOperands h n. (n, i) \<in> L \<and> (\<exists>d. getOperand h n i = Some d)"
  shows "\<exists>h'. releaseOperands n h = Some h' \<and> use_inv (L - {n} \<times> UNIV) h' \<and>
    (\<forall>d i. (n, i) \<notin> set (mn_uses (h' d)))"
proof -
  obtain h' where h': "releaseOperands n h = Some h'" "use_inv (L - {n} \<times> {0..<numOperands h n}) h'"
    "\<forall>m j. getOperand h' m j = getOperand h m j"
    using releaseOperands_loop[OF assms(1), of "[0..<numOperands h n]" n] assms(2) by (auto simp: releaseOperands_def)
  have "use_inv (L - {n} \<times> UNIV) h'"
    unfolding use_inv_def
  proof (intro allI)
    fix d m i
    have "getOperand h' m i \<noteq> Some d" if "(m, i) \<notin> L - {n} \<times> UNIV" "(m, i) \<in> L - {n} \<times> {0..<numOperands h n}"
      using that h'(3) by (auto simp: getOperand_def)
    then show "count_list (mn_uses (h' d)) (m, i) =
      (if (m, i) \<in> L - {n} \<times> UNIV \<and> getOperand h' m i = Some d then 1 else 0)"
      using use_invD[OF h'(2), of d m i] by auto
  qed
  then show ?thesis using h'(1) use_inv_mem by blast
qed

theorem discarded_instruction_unlinked_witness:
  "\<exists>L h. use_inv L h \<and> (\<forall>i<numOperands h 2. (2, i) \<in> L \<and> (\<exists>d. getOperand h 2 i = Some d)) \<and>
    (\<exists>h'. releaseOperands 2 h = Some h' \<and> use_inv (L - {2} \<times> UNIV) h' \<and>
    (\<forall>d i. (2, i) \<notin> set (mn_uses (h' d))))"
proof -
  let ?h = "initOperand 2 1 0 (initOperand 2 0 0 sample_nodes)"
  have "\<forall>i<numOperands ?h 2. (2, i) \<in> {(2, 0), (2, 1)} \<and> (\<exists>d. getOperand ?h 2 i = Some d)"
    by (auto simp: numOperands_def getOperand_def initOperand_def addUse_def setOperand_def sample_nodes_def
        blank_node_def less_Suc_eq numeral_2_eq_2)
  with discarded_instruction_unlinked[OF sample_linked this] sample_linked show ?thesis by blast
qed

end
