(* ===== verification/Ieee_Double.thy ===== *)
theory Ieee_Double
  imports Ion_Prelude Complex_Main "HOL-Library.Log_Nat"
begin

text \<open>
  The \<open>double\<close> of the C++ sources: IEEE 754 binary64 with rounding to nearest, ties to even.

  A double is its 64-bit pattern. \<open>dval\<close> reads the exact rational value of a finite one, and
  \<open>round_dbl\<close> gives the double nearest to a rational. The arithmetic operations round the exact
  result; every NaN result is the quiet NaN with a zero payload, the pattern of \<open>js_NaN\<close>.

  The two lemmas that carry later proofs are \<open>round_mag_val\<close> (rounding the value of a double gives
  that double) and \<open>round_mag_exact\<close> (a rational with a 53-bit significand in the exponent range is
  not changed by rounding).
\<close>

type_synonym double = "64 word"

subsection \<open>Fields and classes\<close>

definition dbl_negative :: "double \<Rightarrow> bool" where
  "dbl_negative d = bit d 63"

definition dbl_mag :: "double \<Rightarrow> nat" where
  "dbl_mag d = unat d mod 2 ^ 63"

definition inf_mag :: nat where
  "inf_mag = 2047 * 2 ^ 52"

definition dbl_is_nan :: "double \<Rightarrow> bool" where
  "dbl_is_nan d \<longleftrightarrow> dbl_mag d > inf_mag"

definition dbl_is_infinite :: "double \<Rightarrow> bool" where
  "dbl_is_infinite d \<longleftrightarrow> dbl_mag d = inf_mag"

definition dbl_is_finite :: "double \<Rightarrow> bool" where
  "dbl_is_finite d \<longleftrightarrow> dbl_mag d < inf_mag"

definition mk_dbl :: "bool \<Rightarrow> nat \<Rightarrow> double" where
  "mk_dbl neg m = of_nat (m + (if neg then 2 ^ 63 else 0))"

definition dbl_nan :: double where
  "dbl_nan = 0x7FF8000000000000"

lemma of_nat_unat_id: "of_nat (unat w) = w"
  by simp

lemma dbl_negative_iff: "dbl_negative d \<longleftrightarrow> odd (unat d div 2 ^ 63)"
proof -
  have "bit d 63 \<longleftrightarrow> bit (unat d) 63" by (simp add: bit_unsigned_iff)
  then show ?thesis unfolding dbl_negative_def bit_iff_odd[of "unat d"] .
qed

lemma unat_mk_dbl: "m < 2 ^ 63 \<Longrightarrow> unat (mk_dbl s m) = m + (if s then 2 ^ 63 else 0)"
  unfolding mk_dbl_def unat_of_nat by (intro mod_less) (auto split: if_splits)

lemma mk_dbl_simps [simp]:
  assumes "m < 2 ^ 63"
  shows "dbl_negative (mk_dbl s m) = s" and "dbl_mag (mk_dbl s m) = m"
  using assms unfolding dbl_negative_iff dbl_mag_def unat_mk_dbl[OF assms] by auto

lemma mk_dbl_eta [simp]: "mk_dbl (dbl_negative d) (dbl_mag d) = d"
proof -
  have "unat d < 2 ^ 64" using unsigned_less[of d, where ?'a = nat] by simp
  then have "unat d div 2 ^ 63 < 2" by (simp add: div_less_iff_less_mult)
  then have "unat d div 2 ^ 63 = (if dbl_negative d then 1 else 0)" unfolding dbl_negative_iff by (auto simp: less_2_cases_iff)
  then have "unat d = dbl_mag d + (if dbl_negative d then 2 ^ 63 else 0)"
    using div_mult_mod_eq[of "unat d" "2 ^ 63"] unfolding dbl_mag_def by (simp split: if_splits)
  then show ?thesis unfolding mk_dbl_def by (metis of_nat_unat_id)
qed

lemma dbl_mag_less: "dbl_mag d < 2 ^ 63"
  by (simp add: dbl_mag_def)

lemma dbl_class: "dbl_is_nan d \<or> dbl_is_infinite d \<or> dbl_is_finite d"
  by (auto simp: dbl_is_nan_def dbl_is_infinite_def dbl_is_finite_def)

subsection \<open>Values\<close>

definition mag_val :: "nat \<Rightarrow> rat" where
  "mag_val b = (if b < 2 ^ 52 then of_nat b * 2 powi (-1074)
                else of_nat (2 ^ 52 + b mod 2 ^ 52) * 2 powi (int (b div 2 ^ 52) - 1075))"

definition dval :: "double \<Rightarrow> rat" where
  "dval d = (if dbl_negative d then - mag_val (dbl_mag d) else mag_val (dbl_mag d))"

lemma mag_val_0 [simp]: "mag_val 0 = 0"
  by (simp add: mag_val_def)

lemma mag_val_pos: "0 < b \<Longrightarrow> 0 < mag_val b"
  by (simp add: mag_val_def zero_less_power_int add_pos_nonneg)

lemma mag_val_nonneg [simp]: "0 \<le> mag_val b"
  using mag_val_pos[of b] by (cases "b = 0") auto

lemma dval_eq_0_iff: "dval d = 0 \<longleftrightarrow> dbl_mag d = 0"
  using mag_val_pos[of "dbl_mag d"] by (cases "dbl_mag d = 0") (auto simp: dval_def)

lemma abs_dval: "\<bar>dval d\<bar> = mag_val (dbl_mag d)"
  by (simp add: dval_def)

lemma dval_neg_iff: "dval d < 0 \<longleftrightarrow> dbl_negative d \<and> dbl_mag d \<noteq> 0"
  using mag_val_pos[of "dbl_mag d"] by (cases "dbl_mag d = 0") (auto simp: dval_def)

lemma mk_dbl_val: "m < 2 ^ 63 \<Longrightarrow> dval (mk_dbl s m) = (if s then - mag_val m else mag_val m)"
  by (simp add: dval_def)

subsection \<open>Rounding\<close>

text \<open>The exponent of the leading bit of a positive rational.\<close>

definition ilog2 :: "rat \<Rightarrow> int" where
  "ilog2 q = (let (n, d) = quotient_of q;
                  k = int (floorlog 2 (nat n)) - int (floorlog 2 (nat d))
              in if 2 powi k \<le> q then k else k - 1)"

definition round_even :: "rat \<Rightarrow> nat" where
  "round_even q = (let f = nat \<lfloor>q\<rfloor>; r = q - of_nat f
     in if r < 1 / 2 then f else if r > 1 / 2 then f + 1 else if even f then f else f + 1)"

definition round_mag :: "rat \<Rightarrow> nat" where
  "round_mag q =
     (if q \<le> 0 then 0
      else let e = max (ilog2 q) (-1022)
           in min inf_mag (nat (e + 1022) * 2 ^ 52 + round_even (q / 2 powi (e - 52))))"

text \<open>\<open>zs\<close> is the sign of a zero result.\<close>

definition round_dbl :: "bool \<Rightarrow> rat \<Rightarrow> double" where
  "round_dbl zs q = (if q = 0 then mk_dbl zs 0 else mk_dbl (q < 0) (round_mag \<bar>q\<bar>))"

lemma powi_mono: "(a::int) \<le> b \<Longrightarrow> (2::rat) powi a \<le> 2 powi b"
  by (simp add: power_int_increasing)

lemma powi_strict_mono: "(a::int) < b \<Longrightarrow> (2::rat) powi a < 2 powi b"
  by (simp add: power_int_strict_increasing)

lemma powi_2_pos [simp]: "0 < (2::rat) powi a"
  by (simp add: zero_less_power_int)

lemma ilog2_bounds:
  assumes "0 < q"
  shows "2 powi (ilog2 q) \<le> q" and "q < 2 powi (ilog2 q + 1)"
proof -
  obtain n d where nd: "quotient_of q = (n, d)" by fastforce
  have d: "0 < d" and q: "q = of_int n / of_int d"
    using quotient_of_denom_pos[OF nd] quotient_of_div[OF nd] by auto
  have n: "0 < n" using assms d unfolding q by (simp add: zero_less_divide_iff)
  define a where "a = floorlog 2 (nat n)"
  define b where "b = floorlog 2 (nat d)"
  have "2 ^ (a - 1) \<le> nat n \<and> nat n < 2 ^ a" "2 ^ (b - 1) \<le> nat d \<and> nat d < 2 ^ b" "0 < a" "0 < b"
    unfolding a_def b_def using n d floorlog_bounds[of "nat n" 2] floorlog_bounds[of "nat d" 2]
    by (auto simp: floorlog_eq_zero_iff intro!: Nat.gr0I)
  then have na: "(2::int) ^ (a - 1) \<le> n" "n < 2 ^ a" and db: "(2::int) ^ (b - 1) \<le> d" "d < 2 ^ b"
    and ab: "0 < a" "0 < b"
    using n d by (auto simp: nat_less_iff le_nat_iff)
  have powi: "(2::rat) powi (int k - 1) = of_int (2 ^ (k - 1))" if "0 < k" for k
    using that by (simp add: power_int_def nat_diff_distrib')
  have na': "2 powi (int a - 1) \<le> (of_int n :: rat)" "of_int n < (2::rat) powi (int a)"
    using na(1) unfolding powi[OF ab(1)] of_int_le_iff apply simp
    using na(2) by (metis of_int_less_iff of_int_numeral of_int_power power_int_of_nat)
  have db': "2 powi (int b - 1) \<le> (of_int d :: rat)" "of_int d < (2::rat) powi (int b)"
    using db(1) unfolding powi[OF ab(2)] of_int_le_iff apply simp
    using db(2) by (metis of_int_less_iff of_int_numeral of_int_power power_int_of_nat)
  have up: "q < 2 powi (int a - int b + 1)"
  proof -
    have "of_int n < (2::rat) powi (int a - int b + 1) * 2 powi (int b - 1)"
      using na'(2) by (simp flip: power_int_add)
    also have "\<dots> \<le> 2 powi (int a - int b + 1) * of_int d"
      using db'(1) by (intro mult_left_mono) (auto simp: less_imp_le)
    finally show ?thesis unfolding q using d by (simp add: divide_less_eq)
  qed
  have lo: "2 powi (int a - int b - 1) \<le> q"
  proof -
    have "2 powi (int a - int b - 1) * of_int d \<le> 2 powi (int a - int b - 1) * (2::rat) powi (int b)"
      using db'(2) by (intro mult_left_mono) (auto simp: less_imp_le)
    also have "\<dots> = 2 powi (int a - 1)" by (subst power_int_add[symmetric]) auto
    also have "\<dots> \<le> of_int n" by (rule na'(1))
    finally show ?thesis unfolding q using d by (simp add: le_divide_eq)
  qed
  show "2 powi (ilog2 q) \<le> q" "q < 2 powi (ilog2 q + 1)"
    using up lo by (auto simp: ilog2_def nd Let_def simp flip: a_def b_def)
qed

lemma ilog2_unique:
  assumes "2 powi e \<le> q" "q < 2 powi (e + 1)"
  shows "ilog2 q = e"
proof -
  have q: "0 < q" using assms(1) powi_2_pos less_le_trans by blast
  have "\<not> e + 1 \<le> ilog2 q" using powi_mono[of "e + 1" "ilog2 q"] ilog2_bounds(1)[OF q] assms by linarith
  moreover have "\<not> ilog2 q + 1 \<le> e" using powi_mono[of "ilog2 q + 1" e] ilog2_bounds(2)[OF q] assms by linarith
  ultimately show ?thesis by linarith
qed

lemma round_even_nat [simp]: "round_even (of_nat n) = n"
  by (simp add: round_even_def)

text \<open>The pattern of a significand \<open>N\<close> at exponent \<open>e\<close>, subnormal when \<open>N\<close> has no leading bit.\<close>

lemma mag_val_assemble:
  assumes "N < 2 ^ 53" "2 ^ 52 \<le> N \<or> e = -1022" "-1022 \<le> e"
  shows "mag_val (nat (e + 1022) * 2 ^ 52 + N) = of_nat N * 2 powi (e - 52)"
proof (cases "2 ^ 52 \<le> N")
  case True
  define M where "M = N - 2 ^ 52"
  have M: "M < 2 ^ 52" "N = 2 ^ 52 + M" using True assms(1) by (auto simp: M_def)
  define k where "k = nat (e + 1022) + 1"
  have b: "nat (e + 1022) * 2 ^ 52 + N = k * 2 ^ 52 + M" by (simp add: k_def M(2))
  have k: "int k = e + 1023" using assms(3) by (simp add: k_def)
  have "\<not> k * 2 ^ 52 + M < 2 ^ 52" by (simp add: k_def)
  moreover have "(k * 2 ^ 52 + M) div 2 ^ 52 = k" "(k * 2 ^ 52 + M) mod 2 ^ 52 = M" using M(1) by auto
  ultimately have "mag_val (k * 2 ^ 52 + M) = of_nat (2 ^ 52 + M) * 2 powi (int k - 1075)"
    unfolding mag_val_def by (simp only: if_False)
  also have "int k - 1075 = e - 52" using k by simp
  finally have "mag_val (k * 2 ^ 52 + M) = of_nat N * 2 powi (e - 52)" unfolding M(2) .
  then show ?thesis unfolding b .
next
  case False
  then show ?thesis using assms(2) by (simp add: mag_val_def)
qed

lemma mag_val_of_normal:
  assumes "2 ^ 52 \<le> b"
  shows "mag_val b = of_nat (2 ^ 52 + b mod 2 ^ 52) * 2 powi (int (b div 2 ^ 52) - 1075)"
  using assms by (simp add: mag_val_def)

lemma nat_powi_less:
  "of_nat N * (2::rat) powi e < 2 powi (int k + e) \<longleftrightarrow> N < 2 ^ k"
proof -
  have "(2::rat) powi (int k + e) = 2 ^ k * 2 powi e" by (simp add: power_int_add)
  moreover have "of_nat N < (2::rat) ^ k \<longleftrightarrow> N < 2 ^ k" by (metis of_nat_less_iff of_nat_numeral of_nat_power)
  ultimately show ?thesis by simp
qed

lemma nat_powi_le:
  "2 powi (int k + e) \<le> of_nat N * (2::rat) powi e \<longleftrightarrow> 2 ^ k \<le> N"
proof -
  have "(2::rat) powi (int k + e) = 2 ^ k * 2 powi e" by (simp add: power_int_add)
  moreover have "(2::rat) ^ k \<le> of_nat N \<longleftrightarrow> 2 ^ k \<le> N" by (metis of_nat_le_iff of_nat_numeral of_nat_power)
  ultimately show ?thesis by simp
qed

lemma round_mag_assemble:
  assumes N: "N < 2 ^ 53" "2 ^ 52 \<le> N \<or> e = -1022" and e: "-1022 \<le> e" "e \<le> 1023"
  shows "round_mag (of_nat N * 2 powi (e - 52)) = nat (e + 1022) * 2 ^ 52 + N"
    and "nat (e + 1022) * 2 ^ 52 + N < inf_mag"
proof -
  let ?q = "of_nat N * (2::rat) powi (e - 52)"
  have "nat (e + 1022) \<le> 2045" using e by simp
  then have "nat (e + 1022) * 2 ^ 52 \<le> 2045 * 2 ^ 52" by (rule mult_right_mono) simp
  then show lim: "nat (e + 1022) * 2 ^ 52 + N < inf_mag" using N(1) by (simp add: inf_mag_def)
  show "round_mag ?q = nat (e + 1022) * 2 ^ 52 + N"
  proof (cases "N = 0")
    case True
    then show ?thesis using N(2) by (simp add: round_mag_def)
  next
    case False
    then have pos: "0 < ?q" by simp
    have up: "?q < 2 powi (e + 1)" using N(1) nat_powi_less[of N "e - 52" 53] by (simp add: add.commute)
    have "max (ilog2 ?q) (-1022) = e"
    proof (cases "2 ^ 52 \<le> N")
      case True
      then have "2 powi e \<le> ?q" using nat_powi_le[of 52 "e - 52" N] by simp
      then show ?thesis using ilog2_unique[OF _ up] e(1) by simp
    next
      case False
      then have "?q < 2 powi e" using nat_powi_less[of N "e - 52" 52] by simp
      then have "\<not> e \<le> ilog2 ?q" using ilog2_bounds(1)[OF pos] powi_mono[of e "ilog2 ?q"] by linarith
      then show ?thesis using N(2) False by simp
    qed
    then show ?thesis using pos lim by (simp add: round_mag_def Let_def)
  qed
qed

lemma rat_nat_power: "of_nat (n * 2 ^ k) = of_nat n * (2::rat) powi (int k)"
  by simp

text \<open>A rational with a 53-bit significand in the exponent range is rounded to itself.\<close>

lemma round_mag_exact:
  assumes q: "q = of_nat m * 2 powi e" and m: "m < 2 ^ 53" and e: "-1074 \<le> e" "e \<le> 971"
  shows "round_mag q < inf_mag" and "mag_val (round_mag q) = q"
proof -
  have "\<exists>N E. q = of_nat N * 2 powi (E - 52) \<and> N < 2 ^ 53 \<and> (2 ^ 52 \<le> N \<or> E = -1022) \<and> -1022 \<le> E \<and> E \<le> 1023"
  proof (cases "m = 0")
    case True
    then show ?thesis by (intro exI[of _ 0] exI[of _ "-1022"]) (simp add: q)
  next
    case False
    then have pos: "0 < q" unfolding q by simp
    note il = ilog2_bounds[OF pos]
    have "q < 2 powi (53 + e)" using m nat_powi_less[of m e 53] by (simp add: q)
    then have ile: "ilog2 q < 53 + e"
      using il(1) powi_mono[of "53 + e" "ilog2 q"] by linarith
    define E where "E = max (ilog2 q) (-1022)"
    define k where "k = nat (e - (E - 52))"
    have k: "int k = e - (E - 52)" using ile e(1) by (auto simp: k_def E_def)
    define N where "N = m * 2 ^ k"
    have qN: "q = of_nat N * 2 powi (E - 52)"
      unfolding N_def rat_nat_power mult.assoc q using k by (simp flip: power_int_add)
    have "q < 2 powi (E + 1)" using il(2) powi_mono[of "ilog2 q + 1" "E + 1"] by (simp add: E_def)
    then have N53: "N < 2 ^ 53" using nat_powi_less[of N "E - 52" 53] by (simp add: qN add.commute)
    have N52: "2 ^ 52 \<le> N \<or> E = -1022"
    proof (cases "E = -1022")
      case False
      then have "E = ilog2 q" by (simp add: E_def max_def split: if_splits)
      then show ?thesis using il(1) nat_powi_le[of 52 "E - 52" N] by (simp add: qN)
    qed simp
    show ?thesis using qN N53 N52 ile e(2)
      by (intro exI[of _ N] exI[of _ E]) (simp add: E_def)
  qed
  then obtain N E where *: "q = of_nat N * 2 powi (E - 52)" "N < 2 ^ 53" "2 ^ 52 \<le> N \<or> E = -1022" "-1022 \<le> E" "E \<le> 1023"
    by blast
  show "round_mag q < inf_mag" "mag_val (round_mag q) = q"
    unfolding *(1) round_mag_assemble(1)[OF *(2-5)] mag_val_assemble[OF *(2-4)]
    using round_mag_assemble(2)[OF *(2-5)] by auto
qed

text \<open>Every finite pattern is such a significand and exponent, so rounding inverts \<open>mag_val\<close>.\<close>

lemma mag_cases:
  assumes "b < inf_mag"
  obtains N e where "b = nat (e + 1022) * 2 ^ 52 + N" "N < 2 ^ 53" "2 ^ 52 \<le> N \<or> e = -1022" "-1022 \<le> e" "e \<le> 1023"
proof (cases "b < 2 ^ 52")
  case True
  then show ?thesis by (intro that[of "-1022" b]) auto
next
  case False
  define k where "k = b div 2 ^ 52"
  define M where "M = b mod 2 ^ 52"
  have b: "b = k * 2 ^ 52 + M" "M < 2 ^ 52" by (auto simp: k_def M_def)
  have k: "1 \<le> k" "k < 2047"
    using False assms by (auto simp: k_def inf_mag_def div_less_iff_less_mult Suc_le_eq div_greater_zero_iff)
  have "nat (int k - 1023 + 1022) = k - 1" using k(1) by simp
  moreover have "(k - 1) * 2 ^ 52 + (2 ^ 52 + M) = b" unfolding b(1) using k(1) by (cases k) auto
  ultimately show ?thesis using b(2) k by (intro that[of "int k - 1023" "2 ^ 52 + M"]) auto
qed

lemma round_mag_val: "b < inf_mag \<Longrightarrow> round_mag (mag_val b) = b"
  by (erule mag_cases) (simp only: mag_val_assemble round_mag_assemble)

lemma mag_val_inject: "b < inf_mag \<Longrightarrow> c < inf_mag \<Longrightarrow> mag_val b = mag_val c \<longleftrightarrow> b = c"
  by (metis round_mag_val)

lemma inf_mag_less: "inf_mag < 2 ^ 63"
  by (simp add: inf_mag_def)

lemma round_mag_less: "round_mag q < 2 ^ 63"
  using inf_mag_less by (auto simp: round_mag_def Let_def)

text \<open>The two facts on doubles that the components use.\<close>

lemma round_dbl_dval:
  assumes "dbl_is_finite d"
  shows "round_dbl (dbl_negative d) (dval d) = d"
proof (cases "dbl_mag d = 0")
  case True
  then show ?thesis using mk_dbl_eta[of d] by (simp add: round_dbl_def dval_eq_0_iff)
next
  case False
  then have "dval d < 0 \<longleftrightarrow> dbl_negative d" by (simp add: dval_neg_iff)
  then show ?thesis using False assms
    by (simp add: round_dbl_def dval_eq_0_iff abs_dval round_mag_val dbl_is_finite_def)
qed

definition dbl_exact :: "rat \<Rightarrow> bool" where
  "dbl_exact q \<longleftrightarrow> (\<exists>m e. \<bar>q\<bar> = of_nat m * 2 powi e \<and> m < 2 ^ 53 \<and> -1074 \<le> e \<and> e \<le> 971)"

lemma round_dbl_exact:
  assumes "dbl_exact q"
  shows "dbl_is_finite (round_dbl zs q)" and "dval (round_dbl zs q) = q"
    and "q \<noteq> 0 \<Longrightarrow> dbl_negative (round_dbl zs q) = (q < 0)"
    and "q = 0 \<Longrightarrow> round_dbl zs q = mk_dbl zs 0"
proof -
  obtain m e where me: "\<bar>q\<bar> = of_nat m * 2 powi e" "m < 2 ^ 53" "-1074 \<le> e" "e \<le> 971"
    using assms by (auto simp: dbl_exact_def)
  note r = round_mag_exact[OF me]
  show "dbl_is_finite (round_dbl zs q)" "dval (round_dbl zs q) = q"
    using r round_mag_less[of "\<bar>q\<bar>"]
    by (auto simp: round_dbl_def dbl_is_finite_def mk_dbl_val inf_mag_def)
  show "q \<noteq> 0 \<Longrightarrow> dbl_negative (round_dbl zs q) = (q < 0)" "q = 0 \<Longrightarrow> round_dbl zs q = mk_dbl zs 0"
    using round_mag_less[of "\<bar>q\<bar>"] by (auto simp: round_dbl_def)
qed

text \<open>Patterns order magnitudes the way values do.\<close>

lemma mag_val_strict_mono:
  assumes "b < c" "c < inf_mag"
  shows "mag_val b < mag_val c"
proof -
  obtain N e where b: "b = nat (e + 1022) * 2 ^ 52 + N" "N < 2 ^ 53" "2 ^ 52 \<le> N \<or> e = -1022" "-1022 \<le> e" "e \<le> 1023"
    using assms mag_cases[OF less_trans[OF assms]] by blast
  obtain M f where c: "c = nat (f + 1022) * 2 ^ 52 + M" "M < 2 ^ 53" "2 ^ 52 \<le> M \<or> f = -1022" "-1022 \<le> f" "f \<le> 1023"
    using mag_cases[OF assms(2)] by blast
  have vb: "mag_val b = of_nat N * 2 powi (e - 52)" and vc: "mag_val c = of_nat M * 2 powi (f - 52)"
    using mag_val_assemble[OF b(2-4)] mag_val_assemble[OF c(2-4)] by (simp_all add: b(1) c(1))
  consider "e < f" | "e = f" | "f < e" by linarith
  then show ?thesis
  proof cases
    case 1
    then have "2 ^ 52 \<le> M" using c(3) b(4) by auto
    then have "2 powi f \<le> mag_val c" unfolding vc using nat_powi_le[of 52 "f - 52" M] by simp
    moreover have "mag_val b < 2 powi (e + 1)" unfolding vb using b(2) nat_powi_less[of N "e - 52" 53] by (simp add: add.commute)
    ultimately show ?thesis using powi_mono[of "e + 1" f] 1 by linarith
  next
    case 2
    then have "N < M" using assms(1) by (simp add: b(1) c(1))
    then show ?thesis unfolding vb vc 2 by simp
  next
    case 3
    then have "2 ^ 52 \<le> N" using b(3) c(4) by auto
    moreover have "nat (e + 1022) \<ge> nat (f + 1022) + 1" using 3 c(4) by linarith
    then have "(nat (f + 1022) + 1) * 2 ^ 52 \<le> nat (e + 1022) * 2 ^ 52" by (rule mult_right_mono) simp
    ultimately show ?thesis using assms(1) c(2) by (simp add: b(1) c(1))
  qed
qed

lemma mag_val_less_iff: "b < inf_mag \<Longrightarrow> c < inf_mag \<Longrightarrow> mag_val b < mag_val c \<longleftrightarrow> b < c"
  by (metis mag_val_strict_mono linorder_neqE_nat order_less_asym order_less_irrefl)

text \<open>Rounding is monotone, so a value stays on its side of every representable number.\<close>

lemma round_even_mono:
  assumes "0 \<le> p" "p \<le> q"
  shows "round_even p \<le> round_even q"
proof (cases "\<lfloor>p\<rfloor> = \<lfloor>q\<rfloor>")
  case True
  then show ?thesis using assms(2) by (auto simp: round_even_def Let_def)
next
  case False
  then have "\<lfloor>p\<rfloor> < \<lfloor>q\<rfloor>" using floor_mono[OF assms(2)] by simp
  moreover have "0 \<le> \<lfloor>p\<rfloor>" using assms(1) by simp
  ultimately have "nat \<lfloor>p\<rfloor> + 1 \<le> nat \<lfloor>q\<rfloor>" by linarith
  then show ?thesis by (auto simp: round_even_def Let_def)
qed

lemma round_mag_mono:
  assumes "p \<le> q"
  shows "round_mag p \<le> round_mag q"
proof (cases "0 < p")
  case False
  then show ?thesis by (simp add: round_mag_def)
next
  case p: True
  then have q: "0 < q" using assms by linarith
  define e where "e = max (ilog2 p) (-1022)"
  define f where "f = max (ilog2 q) (-1022)"
  define a where "a = round_even (p / 2 powi (e - 52))"
  define b where "b = round_even (q / 2 powi (f - 52))"
  have rp: "round_mag p = min inf_mag (nat (e + 1022) * 2 ^ 52 + a)"
    and rq: "round_mag q = min inf_mag (nat (f + 1022) * 2 ^ 52 + b)"
    using p q by (simp_all add: round_mag_def Let_def a_def b_def e_def f_def)
  have "\<not> ilog2 q + 1 \<le> ilog2 p"
    using ilog2_bounds(1)[OF p] ilog2_bounds(2)[OF q] powi_mono[of "ilog2 q + 1" "ilog2 p"] assms by linarith
  then have ef: "e \<le> f" "-1022 \<le> e" by (auto simp: e_def f_def)
  have "nat (e + 1022) * 2 ^ 52 + a \<le> nat (f + 1022) * 2 ^ 52 + b"
  proof (cases "e = f")
    case True
    have "p / 2 powi (e - 52) \<le> q / 2 powi (e - 52)" using assms by (simp add: divide_right_mono less_imp_le)
    then have "a \<le> b" unfolding a_def b_def True[symmetric] using p by (intro round_even_mono) simp_all
    then show ?thesis using True by simp
  next
    case False
    then have "e < f" using ef by simp
    then have fq: "f = ilog2 q" using ef by (auto simp: f_def max_def split: if_splits)
    have "p < 2 powi (e + 1)" using ilog2_bounds(2)[OF p] powi_mono[of "ilog2 p + 1" "e + 1"] by (simp add: e_def)
    then have "p / 2 powi (e - 52) \<le> 2 powi (e + 1) / 2 powi (e - 52)"
      by (simp add: divide_right_mono less_imp_le)
    also have "(2::rat) powi (e + 1) / 2 powi (e - 52) = of_nat (2 ^ 53)" by (simp flip: power_int_diff)
    finally have "a \<le> round_even (of_nat (2 ^ 53))" unfolding a_def using p by (intro round_even_mono) simp_all
    then have a: "a \<le> 2 ^ 53" by (simp only: round_even_nat)
    have "of_nat (2 ^ 52) = (2::rat) powi f / 2 powi (f - 52)" by (simp flip: power_int_diff)
    also have "\<dots> \<le> q / 2 powi (f - 52)"
      using ilog2_bounds(1)[OF q] unfolding fq by (simp add: divide_right_mono less_imp_le)
    finally have "round_even (of_nat (2 ^ 52)) \<le> b" unfolding b_def by (intro round_even_mono) simp_all
    then have b: "2 ^ 52 \<le> b" by (simp only: round_even_nat)
    have "nat (e + 1022) + 1 \<le> nat (f + 1022)" using \<open>e < f\<close> ef(2) by linarith
    then have "(nat (e + 1022) + 1) * 2 ^ 52 \<le> nat (f + 1022) * 2 ^ 52" by (rule mult_right_mono) simp
    then show ?thesis using a b by simp
  qed
  then show ?thesis unfolding rp rq by simp
qed

subsection \<open>Comparison\<close>

text \<open>Both zeros have rank 0; an infinity has a rank beyond every finite value.\<close>

definition dbl_rank :: "double \<Rightarrow> int" where
  "dbl_rank d = (if dbl_negative d then - int (dbl_mag d) else int (dbl_mag d))"

definition dbl_eq :: "double \<Rightarrow> double \<Rightarrow> bool" where
  "dbl_eq a b \<longleftrightarrow> \<not> dbl_is_nan a \<and> \<not> dbl_is_nan b \<and> dbl_rank a = dbl_rank b"

definition dbl_less :: "double \<Rightarrow> double \<Rightarrow> bool" where
  "dbl_less a b \<longleftrightarrow> \<not> dbl_is_nan a \<and> \<not> dbl_is_nan b \<and> dbl_rank a < dbl_rank b"

definition dbl_le :: "double \<Rightarrow> double \<Rightarrow> bool" where
  "dbl_le a b \<longleftrightarrow> \<not> dbl_is_nan a \<and> \<not> dbl_is_nan b \<and> dbl_rank a \<le> dbl_rank b"

lemma dval_less_rank:
  assumes "dbl_is_finite a" "dbl_is_finite b"
  shows "dval a < dval b \<longleftrightarrow> dbl_rank a < dbl_rank b"
proof -
  define x where "x = mag_val (dbl_mag a)"
  define y where "y = mag_val (dbl_mag b)"
  define p where "p = int (dbl_mag a)"
  define q where "q = int (dbl_mag b)"
  have lt: "x < y \<longleftrightarrow> p < q" "y < x \<longleftrightarrow> q < p"
    using assms mag_val_less_iff by (auto simp: dbl_is_finite_def x_def y_def p_def q_def)
  have z: "0 < x \<longleftrightarrow> 0 < p" "0 < y \<longleftrightarrow> 0 < q"
    using mag_val_pos[of "dbl_mag a"] mag_val_pos[of "dbl_mag b"]
    by (auto simp: x_def y_def p_def q_def intro: Nat.gr0I)
  have n: "0 \<le> x" "0 \<le> y" "0 \<le> p" "0 \<le> q" by (auto simp: x_def y_def p_def q_def)
  have "- x < y \<longleftrightarrow> - p < q" "x < - y \<longleftrightarrow> p < - q" using z n by linarith+
  then show ?thesis using lt unfolding dval_def dbl_rank_def by (simp flip: x_def y_def p_def q_def)
qed

lemma finite_not_nan: "dbl_is_finite d \<Longrightarrow> \<not> dbl_is_nan d"
  by (simp add: dbl_is_finite_def dbl_is_nan_def)

lemma dbl_less_dval: "dbl_is_finite a \<Longrightarrow> dbl_is_finite b \<Longrightarrow> dbl_less a b \<longleftrightarrow> dval a < dval b"
  by (simp add: dbl_less_def dval_less_rank finite_not_nan)

lemma dbl_le_dval: "dbl_is_finite a \<Longrightarrow> dbl_is_finite b \<Longrightarrow> dbl_le a b \<longleftrightarrow> dval a \<le> dval b"
  using dval_less_rank[of b a] by (auto simp: dbl_le_def finite_not_nan not_less)

lemma dbl_eq_dval: "dbl_is_finite a \<Longrightarrow> dbl_is_finite b \<Longrightarrow> dbl_eq a b \<longleftrightarrow> dval a = dval b"
  using dval_less_rank[of a b] dval_less_rank[of b a] by (auto simp: dbl_eq_def finite_not_nan)

subsection \<open>Arithmetic\<close>

definition dbl_neg :: "double \<Rightarrow> double" where
  "dbl_neg d = d XOR push_bit 63 1"

definition dbl_add :: "double \<Rightarrow> double \<Rightarrow> double" where
  "dbl_add a b =
     (if dbl_is_nan a \<or> dbl_is_nan b then dbl_nan
      else if dbl_is_infinite a
           then (if dbl_is_infinite b \<and> dbl_negative a \<noteq> dbl_negative b then dbl_nan else a)
      else if dbl_is_infinite b then b
      else round_dbl (dbl_negative a \<and> dbl_negative b) (dval a + dval b))"

definition dbl_sub :: "double \<Rightarrow> double \<Rightarrow> double" where
  "dbl_sub a b =
     (if dbl_is_nan a \<or> dbl_is_nan b then dbl_nan
      else if dbl_is_infinite a
           then (if dbl_is_infinite b \<and> dbl_negative a = dbl_negative b then dbl_nan else a)
      else if dbl_is_infinite b then mk_dbl (\<not> dbl_negative b) inf_mag
      else round_dbl (dbl_negative a \<and> \<not> dbl_negative b) (dval a - dval b))"

definition dbl_mul :: "double \<Rightarrow> double \<Rightarrow> double" where
  "dbl_mul a b =
     (let s = (dbl_negative a \<noteq> dbl_negative b)
      in if dbl_is_nan a \<or> dbl_is_nan b then dbl_nan
         else if dbl_is_infinite a \<or> dbl_is_infinite b
              then (if dbl_mag a = 0 \<or> dbl_mag b = 0 then dbl_nan else mk_dbl s inf_mag)
         else round_dbl s (dval a * dval b))"

definition dbl_div :: "double \<Rightarrow> double \<Rightarrow> double" where
  "dbl_div a b =
     (let s = (dbl_negative a \<noteq> dbl_negative b)
      in if dbl_is_nan a \<or> dbl_is_nan b then dbl_nan
         else if dbl_is_infinite a then (if dbl_is_infinite b then dbl_nan else mk_dbl s inf_mag)
         else if dbl_is_infinite b then mk_dbl s 0
         else if dbl_mag b = 0 then (if dbl_mag a = 0 then dbl_nan else mk_dbl s inf_mag)
         else round_dbl s (dval a / dval b))"

text \<open>C's \<open>fmod\<close>: the remainder of the division truncated towards zero, with the sign of \<open>a\<close>.\<close>

definition rat_trunc :: "rat \<Rightarrow> int" where
  "rat_trunc q = (if q < 0 then \<lceil>q\<rceil> else \<lfloor>q\<rfloor>)"

definition dbl_fmod :: "double \<Rightarrow> double \<Rightarrow> double" where
  "dbl_fmod a b =
     (if dbl_is_nan a \<or> dbl_is_nan b \<or> dbl_is_infinite a \<or> dbl_mag b = 0 then dbl_nan
      else if dbl_is_infinite b then a
      else round_dbl (dbl_negative a) (dval a - of_int (rat_trunc (dval a / dval b)) * dval b))"

definition dbl_floor :: "double \<Rightarrow> double" where
  "dbl_floor d = (if dbl_is_finite d then round_dbl (dbl_negative d) (of_int \<lfloor>dval d\<rfloor>) else d)"

definition dbl_ceil :: "double \<Rightarrow> double" where
  "dbl_ceil d = (if dbl_is_finite d then round_dbl (dbl_negative d) (of_int \<lceil>dval d\<rceil>) else d)"

text \<open>Conversions between \<open>int32_t\<close> and \<open>double\<close>; the cast of a value out of range is undefined.\<close>

definition dbl_of_int :: "int \<Rightarrow> double" where
  "dbl_of_int i = round_dbl False (of_int i)"

definition int32_of_dbl :: "double \<Rightarrow> i32 option" where
  "int32_of_dbl d = (if dbl_is_finite d \<and> - (2 ^ 31) \<le> rat_trunc (dval d) \<and> rat_trunc (dval d) < 2 ^ 31
                     then Some (word_of_int (rat_trunc (dval d))) else None)"

lemma dbl_exact_int: "\<bar>i\<bar> < 2 ^ 53 \<Longrightarrow> dbl_exact (of_int i)"
  unfolding dbl_exact_def by (intro exI[of _ "nat \<bar>i\<bar>"] exI[of _ 0]) (auto simp: of_nat_nat)

lemma dbl_of_int_simps:
  assumes "\<bar>i\<bar> < 2 ^ 53"
  shows "dbl_is_finite (dbl_of_int i)" "dval (dbl_of_int i) = of_int i"
    "dbl_negative (dbl_of_int i) = (i < 0)"
  using round_dbl_exact[OF dbl_exact_int[OF assms], of False]
  by (simp_all add: dbl_of_int_def) (cases "i = 0"; simp)

lemma finite_not_infinite: "dbl_is_finite d \<Longrightarrow> \<not> dbl_is_infinite d"
  by (simp add: dbl_is_finite_def dbl_is_infinite_def)

lemma dbl_sub_exact:
  assumes "dbl_is_finite a" "dbl_is_finite b" "dbl_exact (dval a - dval b)"
  shows "dbl_is_finite (dbl_sub a b)" "dval (dbl_sub a b) = dval a - dval b"
  using round_dbl_exact[OF assms(3)] assms(1,2)
  by (simp_all add: dbl_sub_def finite_not_nan finite_not_infinite)

lemma dbl_add_exact:
  assumes "dbl_is_finite a" "dbl_is_finite b" "dbl_exact (dval a + dval b)"
  shows "dbl_is_finite (dbl_add a b)" "dval (dbl_add a b) = dval a + dval b"
  using round_dbl_exact[OF assms(3)] assms(1,2)
  by (simp_all add: dbl_add_def finite_not_nan finite_not_infinite)

lemma round_mag_exact_abs:
  assumes "dbl_exact p" "0 \<le> p"
  shows "round_mag p < inf_mag" "mag_val (round_mag p) = p"
  using assms round_mag_exact unfolding dbl_exact_def by (auto simp: abs_of_nonneg)

lemma round_ge_exact:
  assumes "dbl_exact p" "0 \<le> p" "p \<le> q" "round_mag q < inf_mag"
  shows "p \<le> mag_val (round_mag q)"
  using round_mag_mono[OF assms(3)] round_mag_exact_abs[OF assms(1,2)] mag_val_less_iff[of "round_mag q" "round_mag p"] assms(4)
  by (simp flip: not_less)

lemma round_le_exact:
  assumes "dbl_exact p" "0 \<le> p" "q \<le> p"
  shows "round_mag q < inf_mag" "mag_val (round_mag q) \<le> p"
  using round_mag_mono[OF assms(3)] round_mag_exact_abs[OF assms(1,2)] mag_val_less_iff[of "round_mag p" "round_mag q"]
  by (simp_all flip: not_less)

lemma dbl_exactI: "\<bar>q\<bar> = of_nat m * 2 powi e \<Longrightarrow> m < 2 ^ 53 \<Longrightarrow> -1074 \<le> e \<Longrightarrow> e \<le> 971 \<Longrightarrow> dbl_exact q"
  unfolding dbl_exact_def by blast

end
