(* ===== verification/Numeric_Conversions.thy ===== *)
theory Numeric_Conversions
  imports Ieee_Double
begin

text \<open>
  The numeric conversions of \<open>vm/NumericConversions.h\<close>, the division and remainder of
  \<open>jslibmath.h\<close> and the clamping of \<open>jstypedarray.cpp\<close> and \<open>jstypedarrayinlines.h\<close>.

  The C++ cast of a double to \<open>int32_t\<close> is undefined when the truncated value is out of range.
  \<open>int32_cast ind\<close> gives \<open>ind\<close> there, the value that the target's conversion instruction
  produces; \<open>cvttsd2si\<close> of x86 and x64 produces \<open>0x80000000\<close>.
\<close>

subsection \<open>The specification\<close>

text \<open>ES5 9.5: the integer part modulo \<open>2 ^ 32\<close>, zero for a NaN or an infinity.\<close>

definition es5_ToInt32 :: "double \<Rightarrow> i32" where
  "es5_ToInt32 d = (if dbl_is_finite d then word_of_int (rat_trunc (dval d)) else 0)"

subsection \<open>The code\<close>

definition int32_cast :: "i32 \<Rightarrow> double \<Rightarrow> i32" where
  "int32_cast ind d = (case int32_of_dbl d of Some i \<Rightarrow> i | None \<Rightarrow> ind)"

text \<open>\<open>DoublePun\<close>: the two halves of the pattern.\<close>

definition pun_hi :: "double \<Rightarrow> u32" where
  "pun_hi d = ucast (drop_bit 32 d)"

definition pun_lo :: "double \<Rightarrow> u32" where
  "pun_lo d = ucast d"

definition mk_pun :: "u32 \<Rightarrow> u32 \<Rightarrow> double" where
  "mk_pun hi lo = push_bit 32 (ucast hi) OR ucast lo"

text \<open>The masking by \<open>mask32 >>= shift_amount\<close> that appears twice: clear the low bits of the pattern.\<close>

definition mask_pun :: "u32 \<Rightarrow> double \<Rightarrow> double" where
  "mask_pun shift_amount du =
     (if shift_amount < 32
      then mk_pun (pun_hi du AND signed_drop_bit (unat shift_amount) 0x80000000) 0
      else mk_pun (pun_hi du) (pun_lo du AND signed_drop_bit (unat (shift_amount - 32)) 0x80000000))"

definition ToInt32 :: "i32 \<Rightarrow> double \<Rightarrow> i32" where
  "ToInt32 ind d =
     (let u_tmp = (pun_hi d AND 0x7ff00000) - 0x3ff00000
      in if u_tmp \<ge> 0x45300000 - 0x3ff00000 then 0
         else if u_tmp < 0x01f00000 then int32_cast ind d
         else let du = (if u_tmp > 0x01f00000
                        then let expon = drop_bit 20 u_tmp;
                                 shift_amount = expon - 21;
                                 duh = mask_pun shift_amount d
                             in dbl_sub d duh
                        else d);
                  u_tmp = pun_hi du AND 0x7ff00000;
                  du = (if u_tmp \<ge> 0x41e00000
                        then let expon = drop_bit 20 u_tmp;
                                 shift_amount = expon - (0x3ff - 11);
                                 du = mask_pun shift_amount du;
                                 two32 = mk_pun (0x41f00000 XOR (pun_hi du AND 0x80000000)) 0
                             in dbl_sub du two32
                        else du)
              in int32_cast ind du)"

text \<open>The portable variant, compiled where neither x86 nor ARM assembly is available.\<close>

definition ToInt32_portable :: "i32 \<Rightarrow> double \<Rightarrow> i32" where
  "ToInt32_portable ind d =
     (if \<not> dbl_is_finite d then 0
      else let i = int32_cast ind d
           in if dbl_eq (dbl_of_int (sint i)) d then i
              else let two32 = dbl_of_int 4294967296;
                       two31 = dbl_of_int 2147483648;
                       d = dbl_fmod d two32;
                       d = (if dbl_le (mk_dbl False 0) d then dbl_floor d else dbl_add (dbl_ceil d) two32)
                   in int32_cast ind (if dbl_le two31 d then dbl_sub d two32 else d))"

definition ToUint32 :: "i32 \<Rightarrow> double \<Rightarrow> u32" where
  "ToUint32 ind d = ToInt32 ind d"

definition ToInteger :: "double \<Rightarrow> double" where
  "ToInteger d =
     (if dbl_eq d (mk_dbl False 0) then d
      else if \<not> dbl_is_finite d then (if dbl_is_nan d then mk_dbl False 0 else d)
      else let neg = dbl_less d (mk_dbl False 0);
               d = dbl_floor (if neg then dbl_neg d else d)
           in if neg then dbl_neg d else d)"

text \<open>\<open>jslibmath.h\<close>, without the workarounds that are compiled on Windows only.\<close>

definition NumberDiv :: "double \<Rightarrow> double \<Rightarrow> double" where
  "NumberDiv a b =
     (if dbl_eq b (mk_dbl False 0)
      then if dbl_eq a (mk_dbl False 0) \<or> dbl_is_nan a then dbl_nan
           else if dbl_negative a \<noteq> dbl_negative b then mk_dbl True inf_mag
           else mk_dbl False inf_mag
      else dbl_div a b)"

definition js_fmod :: "double \<Rightarrow> double \<Rightarrow> double" where
  "js_fmod d d2 = dbl_fmod d d2"

definition NumberMod :: "double \<Rightarrow> double \<Rightarrow> double" where
  "NumberMod a b = (if dbl_eq b (mk_dbl False 0) then dbl_nan else js_fmod a b)"

text \<open>\<open>uint8_t(toTruncate)\<close> is applied to values below 256 only.\<close>

definition ClampDoubleToUint8 :: "double \<Rightarrow> u32" where
  "ClampDoubleToUint8 x =
     (if \<not> dbl_le (mk_dbl False 0) x then 0
      else if dbl_less (dbl_of_int 255) x then 255
      else let toTruncate = dbl_add x 0x3fe0000000000000;
               y = (word_of_int (rat_trunc (dval toTruncate)) :: u8)
           in if dbl_eq (dbl_of_int (uint y)) toTruncate then ucast (y AND NOT 1) else ucast y)"

definition ClampIntForUint8Array :: "i32 \<Rightarrow> i32" where
  "ClampIntForUint8Array x = (if sint x < 0 then 0 else if sint x > 255 then 255 else x)"

subsection \<open>Fields of the pattern\<close>

lemma bit_mk_pun: "bit (mk_pun hi lo) n \<longleftrightarrow> (if n < 32 then bit lo n else n < 64 \<and> bit hi (n - 32))"
  by (auto simp: mk_pun_def bit_simps dest: bit_imp_le_length)

lemma bit_pun_hi: "bit (pun_hi d) n \<longleftrightarrow> n < 32 \<and> bit d (n + 32)"
  by (auto simp: pun_hi_def bit_simps add.commute)

lemma bit_pun_lo: "bit (pun_lo d) n \<longleftrightarrow> n < 32 \<and> bit d n"
  by (auto simp: pun_lo_def bit_simps)

lemma bit_sign32: "bit (0x80000000 :: 32 word) n \<longleftrightarrow> n = 31"
proof -
  have "(0x80000000 :: 32 word) = 2 ^ 31" by simp
  then show ?thesis by (simp only: bit_word_exp) simp
qed

lemma bit_mask32: "n < 32 \<Longrightarrow> bit (signed_drop_bit k (0x80000000 :: 32 word)) n \<longleftrightarrow> 31 \<le> n + k"
  unfolding bit_signed_drop_bit_iff bit_sign32 by auto

lemma mask_pun_eq:
  assumes "unat s \<le> 62"
  shows "mask_pun s d = d AND NOT (mask (63 - unat s))"
proof (rule bit_word_eqI)
  fix n assume "n < LENGTH(64)"
  then have n: "n < 64" by simp
  have s32: "s < 32 \<longleftrightarrow> unat s < 32" by (simp add: word_less_nat_alt)
  show "bit (mask_pun s d) n = bit (d AND NOT (mask (63 - unat s))) n"
  proof (cases "unat s < 32")
    case True
    show ?thesis
    proof (cases "n < 32")
      case True
      then show ?thesis using \<open>unat s < 32\<close> s32 by (auto simp: mask_pun_def bit_mk_pun bit_simps)
    next
      case False
      then have "bit (signed_drop_bit (unat s) (0x80000000 :: 32 word)) (n - 32) \<longleftrightarrow> 63 \<le> n + unat s"
        using n by (subst bit_mask32) auto
      then show ?thesis using False n \<open>unat s < 32\<close> s32
        by (auto simp: mask_pun_def bit_mk_pun bit_simps bit_pun_hi)
    qed
  next
    case False
    then have sub: "unat (s - 32) = unat s - 32" by (simp add: unat_sub word_le_nat_alt)
    show ?thesis
    proof (cases "n < 32")
      case True
      have "bit (signed_drop_bit (unat s - 32) (0x80000000 :: 32 word)) n \<longleftrightarrow> 63 \<le> n + unat s"
        using True False by (subst bit_mask32) auto
      then show ?thesis using True n False s32 sub
        by (auto simp: mask_pun_def bit_mk_pun bit_simps bit_pun_lo)
    next
      case False
      then show ?thesis using \<open>\<not> unat s < 32\<close> n s32
        by (auto simp: mask_pun_def bit_mk_pun bit_simps bit_pun_hi)
    qed
  qed
qed

text \<open>The biased exponent, and what the code computes from the high half.\<close>

definition dbl_expo :: "double \<Rightarrow> nat" where
  "dbl_expo d = dbl_mag d div 2 ^ 52"

lemma dbl_expo_less: "dbl_expo d < 2048"
  using dbl_mag_less[of d] by (simp add: dbl_expo_def div_less_iff_less_mult)

lemma expo_field: "pun_hi d AND 0x7ff00000 = push_bit 20 (word_of_nat (dbl_expo d))"
proof (rule bit_word_eqI)
  fix n assume "n < LENGTH(32)"
  then have n: "n < 32" by simp
  have c: "(0x7ff00000 :: 32 word) = push_bit 20 (mask 11)" by (simp add: mask_eq_exp_minus_1 push_bit_eq_mult)
  have e: "dbl_expo d = drop_bit 52 (take_bit 63 (unat d))"
    by (simp add: dbl_expo_def dbl_mag_def take_bit_eq_mod drop_bit_eq_div)
  have "bit (word_of_nat (dbl_expo d) :: 32 word) k \<longleftrightarrow> k < 11 \<and> bit d (k + 52)" if "k < 32" for k
    using that by (auto simp: e bit_simps add.commute)
  then show "bit (pun_hi d AND 0x7ff00000) n = bit (push_bit 20 (word_of_nat (dbl_expo d)) :: 32 word) n"
    using n unfolding c by (auto simp: bit_simps bit_pun_hi add.commute)
qed

lemma expo_word:
  "unat (pun_hi d AND 0x7ff00000) = dbl_expo d * 2 ^ 20"
proof -
  have "dbl_expo d * 2 ^ 20 < 2 ^ 32" using dbl_expo_less[of d] by simp
  moreover have "(push_bit 20 (word_of_nat (dbl_expo d)) :: 32 word) = word_of_nat (dbl_expo d * 2 ^ 20)"
    by (simp add: push_bit_eq_mult)
  ultimately show ?thesis unfolding expo_field by (simp only: unat_of_nat) simp
qed

text \<open>Significand and exponent of a normal double, and bounds on its value.\<close>

definition dbl_sig :: "double \<Rightarrow> nat" where
  "dbl_sig d = 2 ^ 52 + dbl_mag d mod 2 ^ 52"

lemma dbl_sig_bounds: "2 ^ 52 \<le> dbl_sig d" "dbl_sig d < 2 ^ 53"
proof -
  have "dbl_mag d mod 2 ^ 52 < 2 ^ 52" by simp
  then show "2 ^ 52 \<le> dbl_sig d" "dbl_sig d < 2 ^ 53" by (simp_all add: dbl_sig_def)
qed

lemma abs_dval_sig: "1 \<le> dbl_expo d \<Longrightarrow> \<bar>dval d\<bar> = of_nat (dbl_sig d) * 2 powi (int (dbl_expo d) - 1075)"
proof -
  assume e: "1 \<le> dbl_expo d"
  have "2 ^ 52 \<le> dbl_mag d" using e by (simp add: dbl_expo_def div_greater_zero_iff Suc_le_eq)
  then show ?thesis unfolding abs_dval dbl_sig_def dbl_expo_def by (rule mag_val_of_normal)
qed

lemma abs_dval_less: "\<bar>dval d\<bar> < 2 powi (int (dbl_expo d) - 1022)"
proof (cases "1 \<le> dbl_expo d")
  case True
  then show ?thesis
    using dbl_sig_bounds(2)[of d] nat_powi_less[of "dbl_sig d" "int (dbl_expo d) - 1075" 53]
    unfolding abs_dval_sig[OF True] by simp
next
  case False
  then have m: "dbl_mag d < 2 ^ 52" "dbl_expo d = 0" by (auto simp: dbl_expo_def div_eq_0_iff)
  have "of_nat (dbl_mag d) * (2::rat) powi (-1074) < 2 powi (int 52 + (-1074))"
    unfolding nat_powi_less by (rule m(1))
  then show ?thesis using m by (simp add: abs_dval mag_val_def)
qed

lemma abs_dval_ge: "1 \<le> dbl_expo d \<Longrightarrow> 2 powi (int (dbl_expo d) - 1023) \<le> \<bar>dval d\<bar>"
  using dbl_sig_bounds(1)[of d] nat_powi_le[of 52 "int (dbl_expo d) - 1075" "dbl_sig d"]
  by (simp add: abs_dval_sig)

text \<open>Clearing low bits of the fraction clears them in the significand.\<close>

lemma bit_masked: "bit (d AND NOT (mask j) :: double) n \<longleftrightarrow> bit d n \<and> j \<le> n"
  by (auto simp: bit_simps dest: bit_imp_le_length)

lemma masked_fields:
  assumes "j \<le> 52"
  shows "dbl_negative (d AND NOT (mask j)) = dbl_negative d"
    and "dbl_mag (d AND NOT (mask j)) = dbl_mag d - dbl_mag d mod 2 ^ j"
    and "dbl_expo (d AND NOT (mask j)) = dbl_expo d"
    and "dbl_sig (d AND NOT (mask j)) = dbl_sig d - dbl_sig d mod 2 ^ j"
proof -
  show "dbl_negative (d AND NOT (mask j)) = dbl_negative d"
    using assms unfolding dbl_negative_def bit_masked by simp
  have mag: "dbl_mag x = take_bit 63 (unat x)" for x by (simp add: dbl_mag_def take_bit_eq_mod)
  have m: "dbl_mag (d AND NOT (mask j)) = push_bit j (drop_bit j (dbl_mag d))"
    by (rule bit_eqI) (auto simp: mag bit_simps bit_masked dest: bit_imp_le_length)
  show mm: "dbl_mag (d AND NOT (mask j)) = dbl_mag d - dbl_mag d mod 2 ^ j"
    unfolding m push_bit_eq_mult drop_bit_eq_div by (simp add: minus_mod_eq_div_mult)
  define k where "k = 52 - j"
  have k: "2 ^ 52 = (2::nat) ^ j * 2 ^ k" using assms by (simp add: k_def flip: power_add)
  have ex: "dbl_expo (d AND NOT (mask j)) = drop_bit 52 (push_bit j (drop_bit j (dbl_mag d)))"
    by (simp add: dbl_expo_def m drop_bit_eq_div)
  also have "\<dots> = drop_bit 52 (dbl_mag d)" using assms by (intro bit_eqI) (auto simp: bit_simps)
  finally show "dbl_expo (d AND NOT (mask j)) = dbl_expo d" by (simp add: dbl_expo_def drop_bit_eq_div)
  have "dbl_mag (d AND NOT (mask j)) mod 2 ^ 52 = push_bit j (drop_bit j (dbl_mag d mod 2 ^ 52))"
    unfolding m take_bit_eq_mod[symmetric] using assms by (intro bit_eqI) (auto simp: bit_simps)
  then have "dbl_mag (d AND NOT (mask j)) mod 2 ^ 52 = dbl_mag d mod 2 ^ 52 - dbl_mag d mod 2 ^ 52 mod 2 ^ j"
    by (simp only: push_bit_eq_mult drop_bit_eq_div minus_mod_eq_div_mult)
  moreover have "dbl_sig d mod 2 ^ j = dbl_mag d mod 2 ^ 52 mod 2 ^ j"
    unfolding dbl_sig_def k by (simp add: mod_add_left_eq flip: mod_add_eq)
  ultimately show "dbl_sig (d AND NOT (mask j)) = dbl_sig d - dbl_sig d mod 2 ^ j"
    unfolding dbl_sig_def by simp
qed

lemma finite_expo: "dbl_is_finite d \<longleftrightarrow> dbl_expo d < 2047"
  by (simp add: dbl_is_finite_def dbl_expo_def inf_mag_def div_less_iff_less_mult)

lemma dval_signed: "dval d = (if dbl_negative d then - \<bar>dval d\<bar> else \<bar>dval d\<bar>)"
  by (simp add: dval_def)

lemma rat_trunc_signed: "0 \<le> q \<Longrightarrow> rat_trunc (if s then - q else q) = (if s then - \<lfloor>q\<rfloor> else \<lfloor>q\<rfloor>)"
  by (auto simp: rat_trunc_def ceiling_minus)

text \<open>Subtracting the masked pattern leaves the low part of the significand, exactly.\<close>

lemma sub_masked:
  assumes fin: "dbl_is_finite d" and e: "1 \<le> dbl_expo d" and j: "j \<le> 52"
  defines "x \<equiv> of_nat (dbl_sig d mod 2 ^ j) * 2 powi (int (dbl_expo d) - 1075)"
  shows "dbl_is_finite (dbl_sub d (d AND NOT (mask j)))"
    and "dval (dbl_sub d (d AND NOT (mask j))) = (if dbl_negative d then - x else x)"
proof -
  let ?h = "d AND NOT (mask j)"
  note f = masked_fields[OF j, of d]
  have finh: "dbl_is_finite ?h" using fin by (simp add: finite_expo f)
  have eh: "1 \<le> dbl_expo ?h" using e by (simp add: f)
  let ?r = "dbl_sig d mod 2 ^ j"
  have le: "?r \<le> dbl_sig d" by simp
  have "\<bar>dval d\<bar> - \<bar>dval ?h\<bar> = x"
    unfolding abs_dval_sig[OF e] abs_dval_sig[OF eh] f x_def of_nat_diff[OF le] by (simp add: algebra_simps)
  then have diff: "dval d - dval ?h = (if dbl_negative d then - x else x)"
    using dval_signed[of d] dval_signed[of ?h] f(1) by (simp split: if_splits)
  have "dbl_exact (dval d - dval ?h)"
  proof -
    have "?r < 2 ^ 53" using le dbl_sig_bounds(2)[of d] by (rule le_less_trans)
    moreover have "\<bar>dval d - dval ?h\<bar> = of_nat ?r * 2 powi (int (dbl_expo d) - 1075)"
      unfolding diff by (simp add: x_def)
    moreover have "int (dbl_expo d) - 1075 \<le> 971" "-1074 \<le> int (dbl_expo d) - 1075"
      using fin e unfolding finite_expo by auto
    ultimately show ?thesis unfolding dbl_exact_def by blast
  qed
  from dbl_sub_exact[OF fin finh this]
  show "dbl_is_finite (dbl_sub d ?h)" "dval (dbl_sub d ?h) = (if dbl_negative d then - x else x)"
    unfolding diff by auto
qed

lemma floor_split:
  "\<lfloor>of_nat S * (2::rat) powi e\<rfloor> = int (S div 2 ^ k) * 2 ^ m + \<lfloor>of_nat (S mod 2 ^ k) * (2::rat) powi e\<rfloor>"
  if "int k + e = int m"
proof -
  have "of_nat S = of_nat (S div 2 ^ k) * (2::rat) ^ k + of_nat (S mod 2 ^ k)"
    using arg_cong[OF div_mult_mod_eq[of S "2 ^ k"], of "of_nat :: nat \<Rightarrow> rat"]
    by (simp only: of_nat_add of_nat_mult of_nat_power of_nat_numeral)
  then have "of_nat S * (2::rat) powi e
      = of_nat (S div 2 ^ k) * ((2::rat) powi (int k) * 2 powi e) + of_nat (S mod 2 ^ k) * 2 powi e"
    by (simp add: algebra_simps)
  also have "(2::rat) powi (int k) * 2 powi e = 2 powi (int k + e)" by (simp add: power_int_add)
  also have "(2::rat) powi (int k + e) = 2 ^ m" unfolding that by simp
  also have "of_nat (S div 2 ^ k) * (2::rat) ^ m = of_int (int (S div 2 ^ k) * 2 ^ m)" by simp
  finally show ?thesis by (simp only: int_add_floor)
qed

text \<open>The last two steps of the algorithm, for a value below \<open>2 ^ 32\<close>.\<close>

definition ToInt32_tail :: "i32 \<Rightarrow> double \<Rightarrow> i32" where
  "ToInt32_tail ind du =
     (let u_tmp = pun_hi du AND 0x7ff00000;
          du = (if u_tmp \<ge> 0x41e00000
                then let expon = drop_bit 20 u_tmp;
                         shift_amount = expon - (0x3ff - 11);
                         du = mask_pun shift_amount du;
                         two32 = mk_pun (0x41f00000 XOR (pun_hi du AND 0x80000000)) 0
                     in dbl_sub du two32
                else du)
      in int32_cast ind du)"

lemma bit_sign_hi: "pun_hi d AND 0x80000000 = (if dbl_negative d then 0x80000000 else 0)"
proof (rule bit_word_eqI)
  fix n assume "n < LENGTH(32)"
  have "bit (if dbl_negative d then 0x80000000 else 0 :: u32) n \<longleftrightarrow> dbl_negative d \<and> n = 31"
    by (cases "dbl_negative d") (simp_all only: if_True if_False bit_sign32 simp_thms bit_0_eq bot_apply bot_bool_def)
  then show "bit (pun_hi d AND 0x80000000) n = bit (if dbl_negative d then 0x80000000 else 0 :: u32) n"
    unfolding bit_and_iff bit_sign32 bit_pun_hi by (auto simp: dbl_negative_def)
qed

lemma two32_val:
  "dbl_is_finite (mk_pun (0x41f00000 XOR (pun_hi d AND 0x80000000)) 0)"
  "dval (mk_pun (0x41f00000 XOR (pun_hi d AND 0x80000000)) 0) = (if dbl_negative d then - (2 ^ 32) else 2 ^ 32)"
proof -
  have p: "mk_pun (0x41f00000 XOR 0) 0 = mk_dbl False (0x41f * 2 ^ 52)"
    "mk_pun (0x41f00000 XOR 0x80000000) 0 = mk_dbl True (0x41f * 2 ^ 52)"
    by (simp_all add: mk_pun_def mk_dbl_def push_bit_eq_mult)
  have q: "mk_pun (0x41f00000 XOR (if b then 0x80000000 else 0)) 0 = mk_dbl b (0x41f * 2 ^ 52)" for b
    by (cases b) (simp_all only: if_True if_False p)
  have "mag_val (0x41f * 2 ^ 52) = 2 ^ 32"
    by (subst mag_val_of_normal) (simp_all add: power_int_def power_divide)
  then show "dbl_is_finite (mk_pun (0x41f00000 XOR (pun_hi d AND 0x80000000)) 0)"
  "dval (mk_pun (0x41f00000 XOR (pun_hi d AND 0x80000000)) 0) = (if dbl_negative d then - (2 ^ 32) else 2 ^ 32)"
    unfolding bit_sign_hi q by (auto simp: dbl_is_finite_def inf_mag_def dval_def)
qed

lemma int32_cast_in_range:
  assumes "dbl_is_finite d" "- (2 ^ 31) \<le> rat_trunc (dval d)" "rat_trunc (dval d) < 2 ^ 31"
  shows "int32_cast ind d = word_of_int (rat_trunc (dval d))"
  using assms by (simp add: int32_cast_def int32_of_dbl_def)

lemma int32_cast_below:
  assumes "dbl_is_finite d" "\<bar>dval d\<bar> < 2 ^ 31"
  shows "int32_cast ind d = word_of_int (rat_trunc (dval d))"
proof (rule int32_cast_in_range[OF assms(1)])
  have f: "\<lfloor>\<bar>dval d\<bar>\<rfloor> < 2 ^ 31" using assms(2) by (simp add: floor_less_iff)
  have "rat_trunc (dval d) = (if dbl_negative d then - \<lfloor>\<bar>dval d\<bar>\<rfloor> else \<lfloor>\<bar>dval d\<bar>\<rfloor>)"
    by (subst dval_signed) (rule rat_trunc_signed, simp)
  moreover have "0 \<le> \<lfloor>\<bar>dval d\<bar>\<rfloor>" by simp
  ultimately show "- (2 ^ 31) \<le> rat_trunc (dval d)" "rat_trunc (dval d) < 2 ^ 31"
    using f by (simp_all split: if_splits) linarith+
qed

lemma word_of_int_shift32: "(word_of_int (i + k * 2 ^ 32) :: i32) = word_of_int i"
proof -
  have "(word_of_int (k * 2 ^ 32) :: i32) = 0" unfolding word_of_int_eq_0_iff by simp
  then show ?thesis by (simp only: of_int_add add_0_right)
qed

text \<open>A double of exponent 31: clearing the fraction below the units leaves its integer part \<open>F\<close>.\<close>

lemma expo31_masked:
  assumes e: "dbl_expo d = 1054"
  defines "h \<equiv> mask_pun (drop_bit 20 (pun_hi d AND 0x7ff00000) - (0x3ff - 11)) d"
    and "F \<equiv> dbl_sig d div 2 ^ 21"
  shows "dbl_is_finite h" "dbl_negative h = dbl_negative d" "dval h = (if dbl_negative d then - of_nat F else of_nat F)"
    and "rat_trunc (dval d) = (if dbl_negative d then - int F else int F)" "2 ^ 31 \<le> F" "F < 2 ^ 32"
proof -
  have "unat (drop_bit 20 (pun_hi d AND 0x7ff00000)) = 1054"
    unfolding unat_drop_bit_eq expo_word e by (simp add: drop_bit_eq_div)
  then have "drop_bit 20 (pun_hi d AND 0x7ff00000) = (1054 :: u32)" by (metis of_nat_unat_id of_nat_numeral)
  then have h: "h = d AND NOT (mask 21)" by (simp add: h_def mask_pun_eq)
  note f = masked_fields[of 21 d, folded h, simplified]
  show "dbl_is_finite h" using e f by (simp add: finite_expo)
  show neg: "dbl_negative h = dbl_negative d" by (rule f)
  have absd: "\<bar>dval d\<bar> = of_nat (dbl_sig d) * 2 powi (-21)" using abs_dval_sig[of d] e by simp
  have "\<bar>dval h\<bar> = of_nat (dbl_sig d - dbl_sig d mod 2 ^ 21) * 2 powi (-21)"
    using abs_dval_sig[of h] e f by simp
  also have "dbl_sig d - dbl_sig d mod 2 ^ 21 = F * 2 ^ 21" by (simp add: F_def minus_mod_eq_div_mult)
  also have "of_nat (F * 2 ^ 21) * (2::rat) powi (-21) = of_nat F" by (simp add: power_int_def power_divide)
  finally have absh: "\<bar>dval h\<bar> = of_nat F" .
  show "dval h = (if dbl_negative d then - of_nat F else of_nat F)" using dval_signed[of h] unfolding absh neg .
  have "of_nat (dbl_sig d mod 2 ^ 21) * (2::rat) powi (-21) < 2 powi (int 21 + (-21))"
    unfolding nat_powi_less by simp
  then have "\<lfloor>of_nat (dbl_sig d mod 2 ^ 21) * (2::rat) powi (-21)\<rfloor> = 0" by (simp add: floor_eq_iff)
  then have "\<lfloor>\<bar>dval d\<bar>\<rfloor> = int F" unfolding absd using floor_split[of 21 "-21" 0 "dbl_sig d"] by (simp add: F_def)
  then show "rat_trunc (dval d) = (if dbl_negative d then - int F else int F)"
    by (subst dval_signed) (simp add: rat_trunc_signed)
  show "2 ^ 31 \<le> F" "F < 2 ^ 32"
    using dbl_sig_bounds[of d] by (auto simp: F_def less_eq_div_iff_mult_less_eq div_less_iff_less_mult)
qed

lemma ToInt32_tail_expo31:
  assumes e: "dbl_expo d = 1054"
  shows "ToInt32_tail ind d = (if rat_trunc (dval d) = - (2 ^ 31) then ind else word_of_int (rat_trunc (dval d)))"
proof -
  define h where "h = mask_pun (drop_bit 20 (pun_hi d AND 0x7ff00000) - (0x3ff - 11)) d"
  define F where "F = dbl_sig d div 2 ^ 21"
  note m = expo31_masked[OF e, folded h_def F_def]
  define t where "t = mk_pun (0x41f00000 XOR (pun_hi h AND 0x80000000)) 0"
  define y where "y = (if dbl_negative d then 2 ^ 32 - int F else int F - 2 ^ 32)"
  have diff: "dval h - dval t = of_int y" unfolding t_def two32_val(2) m(2,3) by (simp add: y_def)
  have "dbl_exact (dval h - dval t)" unfolding diff using m(5,6) by (intro dbl_exact_int) (auto simp: y_def)
  then have sub: "dbl_is_finite (dbl_sub h t)" "dval (dbl_sub h t) = of_int y"
    using dbl_sub_exact[OF m(1) two32_val(1)[of h, folded t_def]] unfolding diff by auto
  have "pun_hi d AND 0x7ff00000 \<ge> 0x41e00000" unfolding word_le_nat_alt expo_word using e by simp
  then have tail: "ToInt32_tail ind d = int32_cast ind (dbl_sub h t)"
    by (simp only: ToInt32_tail_def Let_def if_True h_def t_def)
  have ry: "rat_trunc (dval (dbl_sub h t)) = y" unfolding sub(2) by (simp add: rat_trunc_def)
  show ?thesis
  proof (cases "rat_trunc (dval d) = - (2 ^ 31)")
    case True
    then have "y = 2 ^ 31" using m(4) by (simp add: y_def split: if_splits)
    then show ?thesis using True sub(1) ry unfolding tail by (simp add: int32_cast_def int32_of_dbl_def)
  next
    case False
    then have "- (2 ^ 31) \<le> y" "y < 2 ^ 31" using m(4,5,6) by (auto simp: y_def split: if_splits)
    then have "int32_cast ind (dbl_sub h t) = word_of_int y" using int32_cast_in_range[OF sub(1)] unfolding ry by simp
    also have "word_of_int y = (word_of_int (rat_trunc (dval d)) :: i32)"
      unfolding m(4) y_def
      using word_of_int_shift32[of "- int F" 1] word_of_int_shift32[of "int F" "-1"] by (auto simp: algebra_simps)
    finally show ?thesis using False unfolding tail by simp
  qed
qed

lemma ToInt32_tail_correct:
  assumes fin: "dbl_is_finite d" and lt: "\<bar>dval d\<bar> < 2 ^ 32"
  shows "ToInt32_tail 0x80000000 d = word_of_int (rat_trunc (dval d))"
proof (cases "1054 \<le> dbl_expo d")
  case False
  have hi: "pun_hi d AND 0x7ff00000 \<ge> 0x41e00000 \<longleftrightarrow> 1054 \<le> dbl_expo d"
    unfolding word_le_nat_alt expo_word by simp
  have "(2::rat) powi (int (dbl_expo d) - 1022) \<le> 2 powi 31" using False by (intro powi_mono) simp
  then have "\<bar>dval d\<bar> < 2 ^ 31" using abs_dval_less[of d] by simp
  then show ?thesis using False int32_cast_below[OF fin] by (simp only: ToInt32_tail_def Let_def hi if_False)
next
  case True
  have "dbl_expo d = 1054"
  proof (rule ccontr)
    assume "dbl_expo d \<noteq> 1054"
    then have "(2::rat) powi 32 \<le> 2 powi (int (dbl_expo d) - 1023)" using True by (intro powi_mono) simp
    then show False using abs_dval_ge[of d] True lt by simp
  qed
  then show ?thesis by (simp add: ToInt32_tail_expo31)
qed

lemma ToInt32_unfold:
  "ToInt32 ind d =
     (let u_tmp = (pun_hi d AND 0x7ff00000) - 0x3ff00000
      in if u_tmp \<ge> 0x45300000 - 0x3ff00000 then 0
         else if u_tmp < 0x01f00000 then int32_cast ind d
         else ToInt32_tail ind (if u_tmp > 0x01f00000
                                then dbl_sub d (mask_pun (drop_bit 20 u_tmp - 21) d) else d))"
  by (simp only: ToInt32_def ToInt32_tail_def Let_def)

text \<open>The exponent comparison that decides between the steps.\<close>

lemma u_tmp_small:
  assumes "1023 \<le> dbl_expo d"
  shows "unat ((pun_hi d AND 0x7ff00000) - 0x3ff00000) = (dbl_expo d - 1023) * 2 ^ 20"
proof -
  have "0x3ff00000 \<le> pun_hi d AND 0x7ff00000" unfolding word_le_nat_alt expo_word using assms by simp
  then have "unat ((pun_hi d AND 0x7ff00000) - 0x3ff00000) = dbl_expo d * 2 ^ 20 - 1023 * 2 ^ 20"
    by (subst unat_sub) (simp_all add: expo_word)
  then show ?thesis by (simp only: diff_mult_distrib)
qed

lemma u_tmp_big:
  assumes "dbl_expo d < 1023"
  shows "(pun_hi d AND 0x7ff00000) - 0x3ff00000 \<ge> 0x45300000 - 0x3ff00000"
proof -
  define x where "x = int (dbl_expo d * 2 ^ 20) - 0x3ff00000"
  have x: "- (2 ^ 32) \<le> x" "x < 0" "0xc0100000 \<le> x + 2 ^ 32" using assms by (auto simp: x_def)
  have "uint (pun_hi d AND 0x7ff00000) = int (dbl_expo d * 2 ^ 20)"
    unfolding expo_word[symmetric] by simp
  then have "uint ((pun_hi d AND 0x7ff00000) - 0x3ff00000) = x mod 2 ^ 32"
    by (simp add: uint_word_ariths x_def)
  also have "\<dots> = (x + 2 ^ 32) mod 2 ^ 32" by (rule mod_add_self2[symmetric])
  also have "\<dots> = x + 2 ^ 32" using x by (intro mod_pos_pos_trivial) auto
  finally have "0xc0100000 \<le> uint ((pun_hi d AND 0x7ff00000) - 0x3ff00000)" using x(3) by simp
  then show ?thesis unfolding word_le_def using assms by simp
qed

lemma es5_ToInt32_zero:
  assumes "\<bar>dval d\<bar> < 1 \<or> \<not> dbl_is_finite d"
  shows "es5_ToInt32 d = 0"
proof (cases "dbl_is_finite d")
  case True
  then have "\<lfloor>\<bar>dval d\<bar>\<rfloor> = 0" using assms by (simp add: floor_eq_iff)
  moreover have "rat_trunc (dval d) = (if dbl_negative d then - \<lfloor>\<bar>dval d\<bar>\<rfloor> else \<lfloor>\<bar>dval d\<bar>\<rfloor>)"
    by (subst dval_signed) (rule rat_trunc_signed, simp)
  ultimately show ?thesis by (simp add: es5_ToInt32_def)
qed (simp add: es5_ToInt32_def)

text \<open>A double of exponent 84 or more is a multiple of \<open>2 ^ 32\<close>.\<close>

lemma es5_ToInt32_huge:
  assumes "1107 \<le> dbl_expo d"
  shows "es5_ToInt32 d = 0"
proof (cases "dbl_is_finite d")
  case True
  define k where "k = dbl_expo d - 1107"
  have "\<bar>dval d\<bar> = of_nat (dbl_sig d) * 2 powi (int k + 32)"
    using abs_dval_sig[of d] assms by (simp add: k_def)
  also have "(2::rat) powi (int k + 32) = of_int (2 ^ k * 2 ^ 32)" by (simp add: power_int_add)
  finally have "\<bar>dval d\<bar> = of_int (int (dbl_sig d) * 2 ^ k * 2 ^ 32)" by simp
  then have fl: "\<lfloor>\<bar>dval d\<bar>\<rfloor> = int (dbl_sig d) * 2 ^ k * 2 ^ 32" by (simp only: floor_of_int)
  have tr: "rat_trunc (dval d) = 0 + (if dbl_negative d then - (int (dbl_sig d) * 2 ^ k) else int (dbl_sig d) * 2 ^ k) * 2 ^ 32"
    by (subst dval_signed) (simp add: rat_trunc_signed fl)
  show ?thesis unfolding es5_ToInt32_def tr word_of_int_shift32 by simp
qed (simp add: es5_ToInt32_def)

lemma ToInt32_reduce:
  assumes fin: "dbl_is_finite d" and e: "1055 \<le> dbl_expo d" "dbl_expo d < 1107"
  defines "r \<equiv> dbl_sub d (mask_pun (word_of_nat (dbl_expo d - 1044)) d)"
  shows "dbl_is_finite r" "\<bar>dval r\<bar> < 2 ^ 32"
    and "(word_of_int (rat_trunc (dval r)) :: i32) = word_of_int (rat_trunc (dval d))"
proof -
  define j where "j = 1107 - dbl_expo d"
  define S where "S = dbl_sig d"
  define x where "x = of_nat (S mod 2 ^ j) * (2::rat) powi (int (dbl_expo d) - 1075)"
  have "unat (word_of_nat (dbl_expo d - 1044) :: u32) = dbl_expo d - 1044"
    unfolding unat_of_nat using e by simp
  then have m: "mask_pun (word_of_nat (dbl_expo d - 1044)) d = d AND NOT (mask j)"
    using e by (subst mask_pun_eq) (auto simp: j_def)
  have j: "j \<le> 52" using e by (simp add: j_def)
  have je: "int j + (int (dbl_expo d) - 1075) = int 32" using e by (simp add: j_def)
  have r: "dbl_is_finite r" "dval r = (if dbl_negative d then - x else x)"
    using sub_masked[OF fin _ j] e unfolding r_def m x_def S_def by auto
  show "dbl_is_finite r" by (rule r)
  have x0: "0 \<le> x" by (simp add: x_def)
  have "x < 2 powi (int j + (int (dbl_expo d) - 1075))" unfolding x_def nat_powi_less by simp
  then show "\<bar>dval r\<bar> < 2 ^ 32" unfolding r(2) je using x0 by simp
  have fl: "\<lfloor>\<bar>dval d\<bar>\<rfloor> = int (S div 2 ^ j) * 2 ^ 32 + \<lfloor>x\<rfloor>"
    using floor_split[OF je, of S] abs_dval_sig[of d] e by (simp add: x_def S_def)
  have tr: "rat_trunc (dval r) = (if dbl_negative d then - \<lfloor>x\<rfloor> else \<lfloor>x\<rfloor>)"
    unfolding r(2) by (rule rat_trunc_signed[OF x0])
  have td: "rat_trunc (dval d) = (if dbl_negative d then - \<lfloor>x\<rfloor> else \<lfloor>x\<rfloor>)
      + (if dbl_negative d then - int (S div 2 ^ j) else int (S div 2 ^ j)) * 2 ^ 32"
    by (subst dval_signed) (simp add: rat_trunc_signed fl)
  show "(word_of_int (rat_trunc (dval r)) :: i32) = word_of_int (rat_trunc (dval d))"
    unfolding tr td word_of_int_shift32 ..
qed

text \<open>
  C27: the x86 and x64 implementation of \<open>ToInt32\<close>, which works on the bits of the double with
  exponent comparisons, masks and two subtractions, computes the ToInt32 of ES5 9.5 for every double:
  the integer part modulo \<open>2 ^ 32\<close>, and 0 for a NaN or an infinity. The conversion instruction gives
  \<open>0x80000000\<close> for a value out of range.
\<close>

theorem ToInt32_is_es5: "ToInt32 0x80000000 d = es5_ToInt32 d"
proof -
  let ?u = "(pun_hi d AND 0x7ff00000) - 0x3ff00000"
  consider (tiny) "dbl_expo d < 1023" | (small) "1023 \<le> dbl_expo d" "dbl_expo d < 1054"
    | (mid) "dbl_expo d = 1054" | (big) "1055 \<le> dbl_expo d" "dbl_expo d < 1107" | (huge) "1107 \<le> dbl_expo d"
    by linarith
  then show ?thesis
  proof cases
    case tiny
    then have "(2::rat) powi (int (dbl_expo d) - 1022) \<le> 2 powi 0" by (intro powi_mono) simp
    then have "\<bar>dval d\<bar> < 1" using abs_dval_less[of d] by simp
    then show ?thesis using u_tmp_big[OF tiny] es5_ToInt32_zero[of d] by (simp add: ToInt32_unfold Let_def)
  next
    case small
    then have fin: "dbl_is_finite d" by (simp add: finite_expo)
    have "(2::rat) powi (int (dbl_expo d) - 1022) \<le> 2 powi 31" using small by (intro powi_mono) simp
    then have lt: "\<bar>dval d\<bar> < 2 ^ 31" using abs_dval_less[of d] by simp
    have "?u < 0x01f00000" "\<not> ?u \<ge> 0x45300000 - 0x3ff00000"
      using small by (auto simp: word_less_nat_alt word_le_nat_alt u_tmp_small)
    then show ?thesis using int32_cast_below[OF fin lt] fin
      by (simp add: ToInt32_unfold Let_def es5_ToInt32_def)
  next
    case mid
    then have fin: "dbl_is_finite d" by (simp add: finite_expo)
    have "\<bar>dval d\<bar> < 2 ^ 32" using abs_dval_less[of d] mid by simp
    note t = ToInt32_tail_correct[OF fin this]
    have "unat ?u = unat (0x01f00000 :: u32)" using mid by (simp add: u_tmp_small)
    then have "?u = 0x01f00000" by (simp only: word_unat_eq_iff)
    then show ?thesis using t fin by (simp add: ToInt32_unfold Let_def es5_ToInt32_def)
  next
    case big
    then have fin: "dbl_is_finite d" by (simp add: finite_expo)
    have u: "unat ?u = (dbl_expo d - 1023) * 2 ^ 20" using big by (simp add: u_tmp_small)
    have "unat (drop_bit 20 ?u) = dbl_expo d - 1023" unfolding unat_drop_bit_eq u by (simp add: drop_bit_eq_div)
    then have "drop_bit 20 ?u = word_of_nat (dbl_expo d - 1023)" by (metis of_nat_unat_id)
    also have "\<dots> - 21 = (word_of_nat (dbl_expo d - 1044) :: u32)"
    proof -
      have "dbl_expo d - 1023 = (dbl_expo d - 1044) + 21" using big by simp
      then show ?thesis by (simp only: of_nat_add) simp
    qed
    finally have sh: "drop_bit 20 ?u - 21 = word_of_nat (dbl_expo d - 1044)" .
    have c: "?u > 0x01f00000" "\<not> ?u < 0x01f00000" "\<not> ?u \<ge> 0x45300000 - 0x3ff00000"
      using big by (auto simp: word_less_nat_alt word_le_nat_alt u)
    note r = ToInt32_reduce[OF fin big]
    show ?thesis using c ToInt32_tail_correct[OF r(1,2)] r(3) fin
      by (simp add: ToInt32_unfold Let_def sh es5_ToInt32_def)
  next
    case huge
    have "?u \<ge> 0x45300000 - 0x3ff00000"
      using huge by (auto simp: word_le_nat_alt u_tmp_small)
    then show ?thesis using es5_ToInt32_huge[OF huge] by (simp add: ToInt32_unfold Let_def)
  qed
qed

subsection \<open>The portable variant\<close>

lemma finite_repr:
  assumes "dbl_is_finite d"
  obtains S e where "\<bar>dval d\<bar> = of_nat S * 2 powi e" "S < 2 ^ 53" "-1074 \<le> e" "e \<le> 971"
proof -
  obtain N e where "dbl_mag d = nat (e + 1022) * 2 ^ 52 + N" "N < 2 ^ 53" "2 ^ 52 \<le> N \<or> e = -1022" "-1022 \<le> e" "e \<le> 1023"
    using mag_cases[of "dbl_mag d"] assms unfolding dbl_is_finite_def by blast
  then show ?thesis using that[of N "e - 52"] mag_val_assemble[of N e] by (simp add: abs_dval)
qed

text \<open>The remainder by a power of two is exact.\<close>

lemma fmod_pow2:
  assumes fin: "dbl_is_finite d" and b: "dbl_is_finite b" "dval b = 2 ^ m"
  defines "r \<equiv> dval d - of_int (rat_trunc (dval d / 2 ^ m)) * 2 ^ m"
  shows "dbl_is_finite (dbl_fmod d b)" "dval (dbl_fmod d b) = r"
    and "\<bar>r\<bar> < 2 ^ m" "0 \<le> dval d \<Longrightarrow> 0 \<le> r" "dval d < 0 \<Longrightarrow> r \<le> 0"
proof -
  define t where "t = \<lfloor>\<bar>dval d\<bar> / 2 ^ m\<rfloor>"
  define x where "x = \<bar>dval d\<bar> - of_int t * 2 ^ m"
  have "of_int t \<le> \<bar>dval d\<bar> / 2 ^ m" "\<bar>dval d\<bar> / 2 ^ m < of_int t + 1" unfolding t_def by linarith+
  then have x: "0 \<le> x" "x < 2 ^ m" by (simp_all add: x_def field_simps)
  have q: "dval d / 2 ^ m = (if dbl_negative d then - (\<bar>dval d\<bar> / 2 ^ m) else \<bar>dval d\<bar> / 2 ^ m)"
    using dval_signed[of d] by auto
  have tr: "rat_trunc (dval d / 2 ^ m) = (if dbl_negative d then - t else t)"
    unfolding q t_def by (rule rat_trunc_signed) simp
  have r: "r = (if dbl_negative d then - x else x)"
    unfolding r_def tr using dval_signed[of d] by (auto simp: x_def)
  obtain S e where S: "\<bar>dval d\<bar> = of_nat S * 2 powi e" "S < 2 ^ 53" "-1074 \<le> e" "e \<le> 971"
    using finite_repr[OF fin] .
  have ex: "dbl_exact r"
  proof (cases "e < int m")
    case True
    define k where "k = nat (int m - e)"
    have k: "int k + e = int m" "int k + (e - int m) = int 0" using True by (auto simp: k_def)
    have dv: "\<bar>dval d\<bar> / 2 ^ m = of_nat S * 2 powi (e - int m)" by (simp add: S(1) power_int_diff)
    have "of_nat (S mod 2 ^ k) * (2::rat) powi (e - int m) < 2 powi (int k + (e - int m))"
      unfolding nat_powi_less by simp
    then have "\<lfloor>of_nat (S mod 2 ^ k) * (2::rat) powi (e - int m)\<rfloor> = 0" unfolding k(2) by (simp add: floor_eq_iff)
    then have t: "t = int (S div 2 ^ k)" unfolding t_def dv floor_split[OF k(2), of S] by simp
    have "of_nat S = of_nat (S div 2 ^ k) * (2::rat) ^ k + of_nat (S mod 2 ^ k)"
      using arg_cong[OF div_mult_mod_eq[of S "2 ^ k"], of "of_nat :: nat \<Rightarrow> rat"]
      by (simp only: of_nat_add of_nat_mult of_nat_power of_nat_numeral)
    then have "\<bar>dval d\<bar> = of_nat (S div 2 ^ k) * ((2::rat) powi (int k) * 2 powi e) + of_nat (S mod 2 ^ k) * 2 powi e"
      unfolding S(1) by (simp add: algebra_simps)
    also have "(2::rat) powi (int k) * 2 powi e = 2 powi (int k + e)" by (simp add: power_int_add)
    finally have "\<bar>r\<bar> = of_nat (S mod 2 ^ k) * 2 powi e" using x(1) unfolding r k(1) by (simp add: x_def t)
    moreover have "S mod 2 ^ k < 2 ^ 53" using S(2) mod_less_eq_dividend[of S "2 ^ k"] by linarith
    ultimately show ?thesis unfolding dbl_exact_def using S(3,4) by blast
  next
    case False
    define k where "k = nat (e - int m)"
    have k: "e - int m = int k" using False by (simp add: k_def)
    have "\<bar>dval d\<bar> / 2 ^ m = of_nat S * 2 powi (e - int m)" by (simp add: S(1) power_int_diff)
    also have "\<dots> = of_int (int S * 2 ^ k)" unfolding k by simp
    finally have *: "\<bar>dval d\<bar> / 2 ^ m = of_int (int S * 2 ^ k)" .
    then have "of_int t = \<bar>dval d\<bar> / 2 ^ m" unfolding t_def by (simp only: floor_of_int)
    then have "r = 0" unfolding r by (simp add: x_def)
    then show ?thesis using dbl_exact_int[of 0] by simp
  qed
  have "dbl_mag b \<noteq> 0" using b(2) by (simp add: dval_eq_0_iff[symmetric])
  then have "dbl_fmod d b = round_dbl (dbl_negative d) r"
    using fin b by (simp add: dbl_fmod_def finite_not_nan finite_not_infinite r_def)
  then show "dbl_is_finite (dbl_fmod d b)" "dval (dbl_fmod d b) = r" using round_dbl_exact[OF ex] by auto
  show "\<bar>r\<bar> < 2 ^ m" using x unfolding r by simp
  show "0 \<le> r" if "0 \<le> dval d"
  proof (cases "dval d = 0")
    case True
    then show ?thesis by (simp add: r_def rat_trunc_def)
  next
    case False
    then have "\<not> dbl_negative d" using that dval_neg_iff[of d] by (auto simp: dval_eq_0_iff)
    then show ?thesis using x unfolding r by simp
  qed
  show "dval d < 0 \<Longrightarrow> r \<le> 0" using x unfolding r dval_neg_iff by auto
qed

lemma round_dbl_int: "\<bar>i\<bar> < 2 ^ 53 \<Longrightarrow> dbl_is_finite (round_dbl s (of_int i)) \<and> dval (round_dbl s (of_int i)) = of_int i"
  using round_dbl_exact[OF dbl_exact_int] by blast

lemma rat_trunc_int: "rat_trunc (of_int i) = i"
  by (simp add: rat_trunc_def)

lemma zero_dbl: "dbl_is_finite (mk_dbl False 0)" "dval (mk_dbl False 0) = 0"
  by (simp_all add: dbl_is_finite_def dval_def inf_mag_def)

lemma rat_trunc_shift:
  assumes "a = b + of_int k" "0 \<le> a \<longrightarrow> 0 \<le> b" "a < 0 \<longrightarrow> b \<le> 0"
  shows "rat_trunc a = rat_trunc b + k"
proof -
  have "\<lfloor>a\<rfloor> = \<lfloor>b\<rfloor> + k" "\<lceil>a\<rceil> = \<lceil>b\<rceil> + k" unfolding assms(1) by (simp_all only: floor_add_int[symmetric] ceiling_add_of_int)
  moreover have "\<lceil>b\<rceil> = \<lfloor>b\<rfloor>" if "b = 0" using that by simp
  ultimately show ?thesis unfolding rat_trunc_def using assms(2,3) by (auto simp: not_less)
qed

lemma two_powers:
  "dbl_is_finite (dbl_of_int 4294967296)" "dval (dbl_of_int 4294967296) = 2 ^ 32"
  "dbl_is_finite (dbl_of_int 2147483648)" "dval (dbl_of_int 2147483648) = 2 ^ 31"
  using dbl_of_int_simps(1,2)[of 4294967296] dbl_of_int_simps(1,2)[of 2147483648] by simp_all

text \<open>The integer part of the remainder, made nonnegative.\<close>

lemma portable_floor:
  assumes r: "dbl_is_finite r" "\<bar>rat_trunc (dval r)\<bar> < 2 ^ 32"
  defines "z \<equiv> (if 0 \<le> dval r then rat_trunc (dval r) else rat_trunc (dval r) + 2 ^ 32)"
    and "x \<equiv> (if dbl_le (mk_dbl False 0) r then dbl_floor r else dbl_add (dbl_ceil r) (dbl_of_int 4294967296))"
  shows "dbl_is_finite x \<and> dval x = of_int z"
proof -
  have le: "dbl_le (mk_dbl False 0) r \<longleftrightarrow> 0 \<le> dval r" using dbl_le_dval[OF zero_dbl(1) r(1)] by (simp add: zero_dbl)
  show ?thesis
  proof (cases "0 \<le> dval r")
    case True
    then have "z = \<lfloor>dval r\<rfloor>" "x = round_dbl (dbl_negative r) (of_int z)"
      using le r(1) by (simp_all add: z_def rat_trunc_def x_def dbl_floor_def)
    then show ?thesis using round_dbl_int[of z "dbl_negative r"] r(2) True by (simp add: z_def)
  next
    case False
    define c where "c = rat_trunc (dval r)"
    have cc: "c = \<lceil>dval r\<rceil>" using False by (simp add: c_def rat_trunc_def)
    have ce: "dbl_is_finite (dbl_ceil r)" "dval (dbl_ceil r) = of_int c"
      using round_dbl_int[of c "dbl_negative r"] r by (simp_all add: dbl_ceil_def cc c_def[symmetric])
    have "dval (dbl_ceil r) + dval (dbl_of_int 4294967296) = of_int z" using False by (simp add: ce two_powers z_def c_def)
    moreover have "dbl_exact (of_int z)" using r(2) by (intro dbl_exact_int) (auto simp: z_def abs_less_iff)
    ultimately show ?thesis using dbl_add_exact[OF ce(1) two_powers(1)] False le by (simp add: x_def)
  qed
qed

text \<open>The final step, into the range of \<open>int32_t\<close>.\<close>

lemma portable_wrap:
  assumes x: "dbl_is_finite x" "dval x = of_int z" and z: "0 \<le> z" "z \<le> 2 ^ 32"
  shows "int32_cast ind (if dbl_le (dbl_of_int 2147483648) x then dbl_sub x (dbl_of_int 4294967296) else x) = word_of_int z"
proof -
  have le: "dbl_le (dbl_of_int 2147483648) x \<longleftrightarrow> 2 ^ 31 \<le> z"
    using dbl_le_dval[OF two_powers(3) x(1)] of_int_le_iff[where 'a = rat, of "2 ^ 31" z]
    unfolding two_powers x(2) by simp
  show ?thesis
  proof (cases "2 ^ 31 \<le> z")
    case True
    have d: "dval x - dval (dbl_of_int 4294967296) = of_int (z - 2 ^ 32)" by (simp add: x two_powers)
    have "dbl_exact (of_int (z - 2 ^ 32))" using z by (intro dbl_exact_int) simp
    then have y: "dbl_is_finite (dbl_sub x (dbl_of_int 4294967296))" "dval (dbl_sub x (dbl_of_int 4294967296)) = of_int (z - 2 ^ 32)"
      using dbl_sub_exact[OF x(1) two_powers(1)] unfolding d by auto
    then show ?thesis using int32_cast_in_range[OF y(1)] True z le word_of_int_shift32[of z "-1"]
      unfolding y(2) rat_trunc_int by simp
  next
    case False
    then show ?thesis using int32_cast_in_range[OF x(1)] z le unfolding x(2) rat_trunc_int by simp
  qed
qed

text \<open>
  C28: the portable implementation of \<open>ToInt32\<close>, by \<open>fmod\<close>, \<open>floor\<close> and \<open>ceil\<close>, computes the ToInt32 of
  ES5 9.5 for every double, whatever the undefined cast of a value out of range produces.
\<close>

theorem ToInt32_portable_is_es5: "ToInt32_portable ind d = es5_ToInt32 d"
proof (cases "dbl_is_finite d")
  case False
  then show ?thesis by (simp add: ToInt32_portable_def es5_ToInt32_def)
next
  case fin: True
  let ?i = "int32_cast ind d"
  have "\<bar>sint ?i\<bar> < 2 ^ 53" using sint_greater_eq[of ?i] sint_less[of ?i] by auto
  note i = dbl_of_int_simps[OF this]
  show ?thesis
  proof (cases "dbl_eq (dbl_of_int (sint ?i)) d")
    case True
    then have "dval d = of_int (sint ?i)" using i fin by (simp add: dbl_eq_dval)
    then have "rat_trunc (dval d) = sint ?i" by (simp only: rat_trunc_int)
    then show ?thesis using True fin by (simp add: ToInt32_portable_def es5_ToInt32_def)
  next
    case False
    define t where "t = rat_trunc (dval d / 2 ^ 32)"
    define r where "r = dbl_fmod d (dbl_of_int 4294967296)"
    define c where "c = rat_trunc (dval r)"
    define z where "z = (if 0 \<le> dval r then c else c + 2 ^ 32)"
    note fm = fmod_pow2[OF fin two_powers(1,2), folded r_def t_def]
    have cd: "rat_trunc (dval d) = c + t * 2 ^ 32" unfolding c_def by (rule rat_trunc_shift) (use fm in auto)
    have c: "\<bar>c\<bar> < 2 ^ 32" using fm(2,3) unfolding c_def rat_trunc_def
      by (auto simp: floor_less_iff less_ceiling_iff abs_less_iff ceiling_less_iff) linarith+
    have z: "0 \<le> z" "z \<le> 2 ^ 32" using c unfolding z_def c_def rat_trunc_def by (auto split: if_splits)
    have "ToInt32_portable ind d = word_of_int z"
      using False fin portable_wrap[OF conjunct1 conjunct2, OF portable_floor portable_floor, of r ind] fm(1) c z
      unfolding ToInt32_portable_def Let_def r_def[symmetric] c_def[symmetric] z_def[symmetric]
      by (simp only: not_True_eq_False if_False)
    also have "(word_of_int z :: i32) = word_of_int c" using word_of_int_shift32[of c 1] by (auto simp: z_def)
    also have "\<dots> = word_of_int (rat_trunc (dval d))" unfolding cd by (rule word_of_int_shift32[symmetric])
    finally show ?thesis using fin by (simp add: es5_ToInt32_def)
  qed
qed

subsection \<open>Integer part, division and remainder\<close>

lemma dbl_neg_fields: "dbl_negative (dbl_neg d) = (\<not> dbl_negative d)" "dbl_mag (dbl_neg d) = dbl_mag d"
proof -
  have b: "bit (dbl_neg d) n \<longleftrightarrow> (if n = 63 then \<not> bit d n else bit d n)" for n
  proof -
    have "bit (push_bit 63 1 :: double) n \<longleftrightarrow> n = 63" unfolding bit_push_bit_iff by (auto simp: bit_1_iff)
    then show ?thesis unfolding dbl_neg_def bit_xor_iff by auto
  qed
  show "dbl_negative (dbl_neg d) = (\<not> dbl_negative d)" by (simp add: dbl_negative_def b)
  have "take_bit 63 (unat (dbl_neg d)) = take_bit 63 (unat d)" by (rule bit_eqI) (auto simp: bit_simps b)
  then show "dbl_mag (dbl_neg d) = dbl_mag d" by (simp add: dbl_mag_def take_bit_eq_mod)
qed

lemma dbl_neg_val: "dval (dbl_neg d) = - dval d" "dbl_is_finite (dbl_neg d) = dbl_is_finite d"
  by (simp_all add: dval_def dbl_is_finite_def dbl_neg_fields)

lemma dbl_floor_val:
  assumes fin: "dbl_is_finite d"
  shows "dbl_is_finite (dbl_floor d)" "dval (dbl_floor d) = of_int \<lfloor>dval d\<rfloor>"
proof -
  obtain S e where S: "\<bar>dval d\<bar> = of_nat S * 2 powi e" "S < 2 ^ 53" "-1074 \<le> e" "e \<le> 971"
    using finite_repr[OF fin] .
  have "dbl_exact (of_int \<lfloor>dval d\<rfloor>)"
  proof (cases "0 \<le> e")
    case True
    have "\<bar>dval d\<bar> = of_int (int S * 2 ^ nat e)" unfolding S(1) using True by (simp add: power_int_def)
    then have fl: "of_int \<lfloor>dval d\<rfloor> = dval d"
      by (cases "0 \<le> dval d") (metis abs_of_nonneg floor_of_int, metis abs_of_nonpos floor_of_int linear minus_minus of_int_minus)
    show ?thesis unfolding fl by (rule dbl_exactI[OF S])
  next
    case False
    then have "of_nat S * (2::rat) powi e \<le> of_nat S * 2 powi 0" by (intro mult_left_mono powi_mono) auto
    then have le: "\<bar>dval d\<bar> \<le> of_int (int S)" using S(1) by simp
    then have "- int S \<le> \<lfloor>dval d\<rfloor>" "\<lfloor>dval d\<rfloor> \<le> int S" by (simp_all add: le_floor_iff floor_le_iff abs_le_iff)
    then show ?thesis using S(2) by (intro dbl_exact_int) auto
  qed
  then show "dbl_is_finite (dbl_floor d)" "dval (dbl_floor d) = of_int \<lfloor>dval d\<rfloor>"
    using round_dbl_exact fin by (simp_all add: dbl_floor_def)
qed

lemma dbl_eq_zero: "dbl_eq d (mk_dbl False 0) \<longleftrightarrow> dbl_mag d = 0"
  using finite_not_nan[OF zero_dbl(1)] by (auto simp: dbl_eq_def dbl_rank_def dbl_is_nan_def split: if_splits)

text \<open>
  C29: \<open>ToInteger\<close> is the ToInteger of ES5 9.4: the integer part of a finite double, exactly; a NaN
  becomes zero, and zeros and infinities are kept.
\<close>

theorem ToInteger_is_es5:
  "(if dbl_is_finite d then dbl_is_finite (ToInteger d) \<and> dval (ToInteger d) = of_int (rat_trunc (dval d))
    else ToInteger d = (if dbl_is_nan d then mk_dbl False 0 else d))"
proof (cases "dbl_is_finite d \<and> dbl_mag d \<noteq> 0")
  case True
  then have fin: "dbl_is_finite d" and nz: "dbl_mag d \<noteq> 0" by auto
  let ?a = "if dbl_negative d then dbl_neg d else d"
  have neg: "dbl_less d (mk_dbl False 0) \<longleftrightarrow> dbl_negative d"
    using dbl_less_dval[OF fin zero_dbl(1)] nz by (simp add: zero_dbl dval_neg_iff)
  have a: "dbl_is_finite ?a" "dval ?a = \<bar>dval d\<bar>" using fin by (simp_all add: dbl_neg_val dval_def dbl_neg_fields)
  have "ToInteger d = (if dbl_negative d then dbl_neg (dbl_floor ?a) else dbl_floor ?a)"
    using fin nz neg by (simp add: ToInteger_def dbl_eq_zero)
  moreover have "rat_trunc (dval d) = (if dbl_negative d then - \<lfloor>\<bar>dval d\<bar>\<rfloor> else \<lfloor>\<bar>dval d\<bar>\<rfloor>)"
    by (subst dval_signed) (rule rat_trunc_signed, simp)
  ultimately show ?thesis using dbl_floor_val[OF a(1)] fin unfolding a(2) by (simp add: dbl_neg_val split: if_splits)
next
  case False
  then show ?thesis using dval_eq_0_iff[of d]
    by (auto simp: ToInteger_def dbl_eq_zero rat_trunc_def dbl_is_finite_def inf_mag_def dbl_is_nan_def)
qed

text \<open>The explicit tests of \<open>NumberDiv\<close> and \<open>NumberMod\<close> for a zero divisor agree with the operations.\<close>

lemma NumberDiv_is_division: "NumberDiv a b = dbl_div a b"
  by (auto simp: NumberDiv_def dbl_div_def dbl_eq_zero Let_def dbl_is_nan_def dbl_is_infinite_def inf_mag_def)

lemma NumberMod_is_fmod: "NumberMod a b = dbl_fmod a b"
  by (simp add: NumberMod_def js_fmod_def dbl_fmod_def dbl_eq_zero)

lemma ClampIntForUint8Array_clamps: "sint (ClampIntForUint8Array x) = max 0 (min 255 (sint x))"
  by (simp add: ClampIntForUint8Array_def)

subsection \<open>Clamping\<close>

text \<open>The value rounded to the nearest integer, ties to even, and clamped to a byte; zero for a NaN.\<close>

definition clamp_spec :: "double \<Rightarrow> nat" where
  "clamp_spec x = (if dbl_is_nan x then 0
     else if dbl_is_infinite x then (if dbl_negative x then 0 else 255)
     else round_even (max 0 (min 255 (dval x))))"

lemma half_val: "dbl_is_finite 0x3fe0000000000000" "dval 0x3fe0000000000000 = 1 / 2" "\<not> dbl_negative 0x3fe0000000000000"
proof -
  have p: "(0x3fe0000000000000 :: double) = mk_dbl False (0x3fe * 2 ^ 52)" by (simp add: mk_dbl_def)
  have "mag_val (0x3fe * 2 ^ 52) = 1 / 2" by (subst mag_val_of_normal) (simp_all add: power_int_def power_divide)
  then show "dbl_is_finite 0x3fe0000000000000" "dval 0x3fe0000000000000 = 1 / 2" "\<not> dbl_negative 0x3fe0000000000000"
    unfolding p by (simp_all add: dbl_is_finite_def inf_mag_def dval_def)
qed

lemma dbl_exact_half: "n \<le> 2 ^ 51 \<Longrightarrow> dbl_exact (of_nat n + 1 / 2)"
  by (rule dbl_exactI[of _ "2 * n + 1" "-1"]) (auto simp: abs_of_nonneg add_pos_pos)

text \<open>
  The sum \<open>x + 0.5\<close> for \<open>n \<le> x < n + 1\<close>: it stays between \<open>n + 1/2\<close> and \<open>n + 3/2\<close>, and rounding
  does not carry it onto \<open>n + 1\<close> unless that is harmless, with one exception.
\<close>

lemma half_sum:
  assumes fin: "dbl_is_finite x" and n: "of_nat n \<le> dval x" "dval x < of_nat n + 1" "n \<le> 255"
  defines "t \<equiv> dbl_add x 0x3fe0000000000000"
  shows "dbl_is_finite t" "of_nat n + 1 / 2 \<le> dval t" "dval t \<le> of_nat n + 3 / 2"
    and "dval x < of_nat n + 1 / 2 \<Longrightarrow> dval t \<le> of_nat n + 1"
    and "of_nat n + 1 / 2 \<le> dval x \<Longrightarrow> of_nat n + 1 \<le> dval t"
    and "dval x \<le> of_nat n + 1 / 2 \<Longrightarrow> dbl_exact (dval x + 1 / 2) \<Longrightarrow> dval t = dval x + 1 / 2"
    and "dbl_exact p \<Longrightarrow> 0 \<le> p \<Longrightarrow> p \<le> dval x + 1 / 2 \<Longrightarrow> p \<le> dval t"
proof -
  define q where "q = dval x + 1 / 2"
  have q: "0 < q" "of_nat n + 1 / 2 \<le> q" "q \<le> of_nat n + 3 / 2" using n by (auto simp: q_def)
  have t: "t = mk_dbl False (round_mag q)"
    using fin half_val(1,3) q(1) unfolding t_def dbl_add_def half_val(2)
    by (simp add: finite_not_nan finite_not_infinite round_dbl_def q_def)
  have e3: "dbl_exact (of_nat n + 3 / 2)" using dbl_exact_half[of "n + 1"] n(3) by (simp add: add_ac)
  have e2: "dbl_exact (of_nat n + 1)" using dbl_exact_int[of "int n + 1"] n(3) by simp
  have fin': "round_mag q < inf_mag" using round_le_exact(1)[OF e3 _ q(3)] by simp
  then have tv: "dbl_is_finite t" "dval t = mag_val (round_mag q)"
    using round_mag_less[of q] by (simp_all add: t dbl_is_finite_def dval_def)
  have ge: "p \<le> dval t" if "dbl_exact p" "0 \<le> p" "p \<le> q" for p
    unfolding tv using round_ge_exact[OF that fin'] .
  have le: "dval t \<le> p" if "dbl_exact p" "0 \<le> p" "q \<le> p" for p
    unfolding tv using round_le_exact(2)[OF that] .
  show "dbl_is_finite t" by (rule tv)
  show "of_nat n + 1 / 2 \<le> dval t" using ge[OF dbl_exact_half[of n]] n(3) q(2) by simp
  show "dval t \<le> of_nat n + 3 / 2" using le[OF e3] q(3) by simp
  show "dval x < of_nat n + 1 / 2 \<Longrightarrow> dval t \<le> of_nat n + 1" using le[OF e2] by (simp add: q_def)
  show "of_nat n + 1 / 2 \<le> dval x \<Longrightarrow> of_nat n + 1 \<le> dval t" using ge[OF e2] by (simp add: q_def)
  show "dval x \<le> of_nat n + 1 / 2 \<Longrightarrow> dbl_exact (dval x + 1 / 2) \<Longrightarrow> dval t = dval x + 1 / 2"
    using ge[of q] le[of q] q(1) by (simp add: q_def)
  show "dbl_exact p \<Longrightarrow> 0 \<le> p \<Longrightarrow> p \<le> dval x + 1 / 2 \<Longrightarrow> p \<le> dval t" using ge[of p] by (simp add: q_def)
qed

lemma normal_of_ge:
  assumes "2 powi (int k - 1022) \<le> \<bar>dval d\<bar>"
  shows "k < dbl_expo d"
  using assms abs_dval_less[of d] powi_mono[of "int (dbl_expo d) - 1022" "int k - 1022"] by linarith

lemma expo_le_of_less:
  assumes "\<bar>dval d\<bar> < 2 powi (int k - 1023)" "1 \<le> dbl_expo d"
  shows "dbl_expo d < k"
  using assms(1) abs_dval_ge[OF assms(2)] powi_mono[of "int k - 1023" "int (dbl_expo d) - 1023"] by linarith

text \<open>
  A double between 1/2 and 256 in units of its last place: \<open>m\<close> is the number of such bits below the
  bit of weight 1/2, and a natural number below the double is below the end of its binade.
\<close>

lemma byte_binade:
  assumes "1 / 2 \<le> dval x" "dval x < 256"
  obtains E m u where "E = dbl_expo x" "1022 \<le> E" "E < 1031" "m = 1074 - E" "u = 2 powi (int E - 1075)" "0 < u"
    "1 / 2 = of_nat (2 ^ m) * u" "1 = of_nat (2 * 2 ^ m) * u" "dval x = of_nat (dbl_sig x) * u"
proof -
  define E where "E = dbl_expo x"
  define m where "m = 1074 - E"
  define u where "u = (2::rat) powi (int E - 1075)"
  have pos: "\<bar>dval x\<bar> = dval x" using assms(1) by simp
  have E1: "1022 \<le> E" unfolding E_def using normal_of_ge[of 1021 x] assms(1) by (simp add: power_int_def)
  have E2: "E < 1031" unfolding E_def using expo_le_of_less[of x 1031] E1 assms(2) pos by (simp add: E_def power_int_def)
  have m: "int m + (int E - 1075) = -1" using E2 by (simp add: m_def)
  have "of_nat (2 ^ m) * u = 2 powi (int m + (int E - 1075))" by (simp add: power_int_add u_def)
  then have h: "1 / 2 = of_nat (2 ^ m) * u" unfolding m by simp
  then have "1 = of_nat (2 * 2 ^ m) * u" by simp
  moreover have "dval x = of_nat (dbl_sig x) * u" using abs_dval_sig[of x] E1 pos by (simp add: E_def u_def)
  ultimately show ?thesis using E1 E2 h by (intro that[OF E_def _ _ m_def u_def]) (simp_all add: u_def)
qed

lemma nat_below_binade:
  assumes "of_nat n \<le> dval x" "1022 \<le> dbl_expo x"
  shows "n < 2 ^ (dbl_expo x - 1022)"
proof -
  have "of_nat n \<le> \<bar>dval x\<bar>" using assms(1) by simp
  then have "of_nat n < (2::rat) powi (int (dbl_expo x) - 1022)" using abs_dval_less[of x] by linarith
  then have "of_nat n < (of_nat (2 ^ (dbl_expo x - 1022)) :: rat)" using assms(2) by (simp add: power_int_def nat_diff_distrib')
  then show ?thesis by (simp only: of_nat_less_iff)
qed

text \<open>Below a tie the sum is exact when \<open>n\<close> is odd, since it stays in the binade of \<open>x\<close>.\<close>

lemma half_sum_below:
  assumes "odd n" "n \<le> 255" "of_nat n \<le> dval x" "dval x < of_nat n + 1 / 2"
  shows "dbl_exact (dval x + 1 / 2)"
proof -
  have "(1::rat) \<le> of_nat n" "(of_nat n :: rat) \<le> 255"
    using assms(1,2) of_nat_le_iff[where 'a = rat, of n 255] by (cases n; simp)+
  then have "1 \<le> dval x" "dval x < 256" using assms(3,4) by linarith+
  then obtain E m u where b: "E = dbl_expo x" "1022 \<le> E" "E < 1031" "m = 1074 - E" "u = 2 powi (int E - 1075)" "0 < u"
    "1 / 2 = of_nat (2 ^ m) * u" "1 = of_nat (2 * 2 ^ m) * u" "dval x = of_nat (dbl_sig x) * u"
    using byte_binade[of x] by auto
  let ?S = "dbl_sig x"
  have sum: "dval x + 1 / 2 = of_nat (?S + 2 ^ m) * 2 powi (int E - 1075)"
    unfolding b(9) using b(5,7) by (simp add: algebra_simps)
  have "n + 1 \<le> 2 ^ (E - 1022)" using nat_below_binade[OF assms(3)] b(1,2) by simp
  then have "of_nat (n + 1) \<le> (of_nat (2 ^ (E - 1022)) :: rat)" by (simp only: of_nat_le_iff)
  also have "\<dots> = 2 powi (int 53 + (int E - 1075))" using b(2) by (simp add: power_int_def nat_diff_distrib')
  finally have "of_nat (?S + 2 ^ m) * (2::rat) powi (int E - 1075) < 2 powi (int 53 + (int E - 1075))"
    using assms(4) unfolding sum[symmetric] by simp
  then have "?S + 2 ^ m < 2 ^ 53" unfolding nat_powi_less .
  then show ?thesis using sum \<open>1 \<le> dval x\<close> b(2,3) by (intro dbl_exactI[of _ "?S + 2 ^ m" "int E - 1075"]) auto
qed

text \<open>
  Above a tie the sum is rounded to a value above \<open>n + 1\<close> when \<open>n\<close> is even, but for the successor
  of 1/2: there the sum lies half way between 1 and its successor and is rounded to 1.
\<close>

lemma half_sum_above_first:
  assumes x: "dbl_expo x = 1022" "1 / 2 < dval x" and sp: "x \<noteq> 0x3fe0000000000001"
  shows "\<exists>p. dbl_exact p \<and> 1 < p \<and> p \<le> dval x + 1 / 2"
proof -
  have d: "dval x = of_nat (dbl_sig x) * 2 powi (-53)" using abs_dval_sig[of x] x by simp
  have ne: "dbl_sig x \<noteq> 2 ^ 52 + 1"
  proof
    assume "dbl_sig x = 2 ^ 52 + 1"
    then have "dbl_mag x mod 2 ^ 52 = 1" "dbl_mag x div 2 ^ 52 = 1022" using x by (auto simp: dbl_sig_def dbl_expo_def)
    then have "dbl_mag x = 1022 * 2 ^ 52 + 1" using div_mult_mod_eq[of "dbl_mag x" "2 ^ 52"] by simp
    moreover have "\<not> dbl_negative x" using x(2) dval_neg_iff[of x] dval_eq_0_iff[of x] by auto
    ultimately have "x = mk_dbl False (1022 * 2 ^ 52 + 1)" using mk_dbl_eta[of x] by metis
    then show False using sp by (simp add: mk_dbl_def)
  qed
  have "of_nat (2 ^ 52) * (2::rat) powi (-53) < of_nat (dbl_sig x) * 2 powi (-53)"
    using x(2) unfolding d by (simp add: power_int_def power_divide)
  then have "2 ^ 52 < dbl_sig x" by (simp only: mult_less_cancel_right_pos powi_2_pos of_nat_less_iff)
  then have S: "2 ^ 52 + 2 \<le> dbl_sig x" using ne by linarith
  let ?p = "of_nat (2 ^ 52 + 1) * (2::rat) powi (-52)"
  have "of_nat (2 ^ 52 + 2) * (2::rat) powi (-53) \<le> dval x"
    unfolding d using S by (intro mult_right_mono) (simp_all only: of_nat_le_iff less_imp_le powi_2_pos)
  moreover have "of_nat (2 ^ 52 + 2) * (2::rat) powi (-53) + 1 / 2 = ?p" by (simp add: power_int_def power_divide)
  moreover have "dbl_exact ?p" by (rule dbl_exactI[of _ "2 ^ 52 + 1" "-52"]) (auto simp: abs_of_nonneg)
  moreover have "1 < ?p" by (simp add: power_int_def power_divide)
  ultimately show ?thesis by (intro exI[of _ ?p]) linarith
qed

lemma half_sum_above:
  assumes "even n" "n \<le> 255" "of_nat n + 1 / 2 < dval x" "dval x < of_nat n + 1" and sp: "x \<noteq> 0x3fe0000000000001"
  shows "\<exists>p. dbl_exact p \<and> of_nat n + 1 < p \<and> p \<le> dval x + 1 / 2"
proof -
  have n: "(0::rat) \<le> of_nat n" "(of_nat n :: rat) \<le> 255" using assms(2) of_nat_le_iff[where 'a = rat, of n 255] by simp_all
  then have d: "1 / 2 < dval x" "dval x < 256" using assms(3,4) by linarith+
  then obtain E m u where b: "E = dbl_expo x" "1022 \<le> E" "E < 1031" "m = 1074 - E" "u = 2 powi (int E - 1075)" "0 < u"
    "1 / 2 = of_nat (2 ^ m) * u" "1 = of_nat (2 * 2 ^ m) * u" "dval x = of_nat (dbl_sig x) * u"
    using byte_binade[of x] by auto
  have nE: "n < 2 ^ (E - 1022)" using nat_below_binade[of n x] assms(3) b(1,2) by simp
  show ?thesis
  proof (cases "E = 1022")
    case True
    then show ?thesis using half_sum_above_first[OF _ d(1) sp] nE b(1) by simp
  next
    case False
    let ?N = "(2 * n + 2) * 2 ^ m + 1"
    have unit: "of_nat (k * 2 ^ m) * u = of_nat k * (1 / 2)" for k unfolding b(7) by simp
    have nh: "of_nat n + 1 / 2 = of_nat ((2 * n + 1) * 2 ^ m) * u" unfolding unit by simp
    have "of_nat ((2 * n + 1) * 2 ^ m) * u < of_nat (dbl_sig x) * u" using assms(3) unfolding nh b(9) .
    then have "(2 * n + 1) * 2 ^ m < dbl_sig x" using b(6) by (simp only: mult_less_cancel_right_pos of_nat_less_iff)
    then have "?N \<le> dbl_sig x + 2 ^ m" by (simp add: algebra_simps)
    then have "of_nat ?N * u \<le> of_nat (dbl_sig x + 2 ^ m) * u"
      using b(6) by (intro mult_right_mono) (simp_all only: of_nat_le_iff less_imp_le)
    then have le: "of_nat ?N * u \<le> dval x + 1 / 2" unfolding b(9) using b(7) by (simp add: algebra_simps)
    have p: "of_nat ?N * u = of_nat n + 1 + u" unfolding of_nat_add distrib_right unit by simp
    have "even ((2::nat) ^ (E - 1022))" using b(2) False by simp
    then have "n + 2 \<le> 2 ^ (E - 1022)"
      using nE assms(1) by (metis Suc_leI add_2_eq_Suc' even_Suc le_neq_implies_less)
    then have "(n + 2) * 2 ^ (m + 1) \<le> 2 ^ (E - 1022) * 2 ^ (m + 1)" by (rule mult_right_mono) simp
    also have "(2::nat) ^ (E - 1022) * 2 ^ (m + 1) = 2 ^ 53" using b(2-4) by (simp flip: power_add power_Suc)
    finally have lim: "(n + 2) * 2 ^ (m + 1) \<le> 2 ^ 53" .
    define w :: nat where "w = 2 ^ m"
    have "1 \<le> w" "(n + 2) * (2 * w) \<le> 2 ^ 53" using lim by (simp_all add: w_def)
    then have "?N < 2 ^ 53" unfolding w_def[symmetric] by (simp add: algebra_simps)
    then have "dbl_exact (of_nat ?N * u)" using b(2,3,6)
      by (intro dbl_exactI[of _ ?N "int E - 1075"]) (auto simp: b(5) abs_of_nonneg)
    then show ?thesis using le p b(6) by (intro exI[of _ "of_nat ?N * u"]) simp
  qed
qed

lemma unat_and_not_mask: "unat ((w :: u8) AND NOT (mask j)) = push_bit j (drop_bit j (unat w))"
  by (rule bit_eqI) (auto simp: bit_simps dest: bit_imp_le_length)

lemma unat_and_not_1: "unat ((w :: u8) AND NOT 1) = unat w - unat w mod 2"
  using unat_and_not_mask[of w 1] unfolding push_bit_eq_mult drop_bit_eq_div by (simp add: minus_mod_eq_div_mult)

text \<open>The branch of the code after the two clamps, given the integer part \<open>k\<close> of the sum.\<close>

lemma clamp_round:
  assumes t: "dbl_is_finite t" "of_nat k \<le> dval t" "dval t < of_nat k + 1" "k < 256"
  shows "unat (let y = (word_of_int (rat_trunc (dval t)) :: u8)
               in if dbl_eq (dbl_of_int (uint y)) t then ucast (y AND NOT 1) else ucast y :: u32)
         = (if dval t = of_nat k then k - k mod 2 else k)"
proof -
  have "(0::rat) \<le> of_nat k" by simp
  then have "\<not> dval t < 0" using t(2) by linarith
  moreover have "\<lfloor>dval t\<rfloor> = int k" using t(2,3) by (simp add: floor_eq_iff)
  ultimately have tr: "rat_trunc (dval t) = int k" by (simp add: rat_trunc_def)
  have y: "unat (word_of_int (int k) :: u8) = k" using t(4) by (simp add: unat_of_nat take_bit_nat_eq_self)
  then have uy: "uint (word_of_int (int k) :: u8) = int k" by (metis uint_nat)
  have "dbl_eq (dbl_of_int (int k)) t \<longleftrightarrow> of_nat k = dval t"
    using dbl_of_int_simps(1,2)[of "int k"] t(1,4) by (simp add: dbl_eq_dval)
  then show ?thesis unfolding Let_def tr uy using y unat_and_not_1[of "word_of_int (int k)"]
    by (auto simp: unat_ucast_u8)
qed

lemma ClampDoubleToUint8_in_range:
  assumes fin: "dbl_is_finite x" and v: "0 \<le> dval x" "dval x \<le> 255" and sp: "x \<noteq> 0x3fe0000000000001"
  shows "unat (ClampDoubleToUint8 x) = round_even (dval x)"
proof -
  define n where "n = nat \<lfloor>dval x\<rfloor>"
  define t where "t = dbl_add x 0x3fe0000000000000"
  have n: "of_nat n \<le> dval x" "dval x < of_nat n + 1" using v(1) floor_correct[of "dval x"] by (simp_all add: n_def)
  have n255: "n \<le> 255" using v by (simp add: n_def nat_le_iff floor_le_iff)
  have n254: "n \<le> 254" if "of_nat n + 1 / 2 \<le> dval x"
  proof -
    have "of_nat n < (255::rat)" using that v(2) by linarith
    then show ?thesis by simp
  qed
  note hs = half_sum[OF fin n n255, folded t_def]
  have code: "ClampDoubleToUint8 x = (let y = (word_of_int (rat_trunc (dval t)) :: u8)
               in if dbl_eq (dbl_of_int (uint y)) t then ucast (y AND NOT 1) else ucast y)"
  proof -
    have "dbl_le (mk_dbl False 0) x" "\<not> dbl_less (dbl_of_int 255) x"
      using dbl_le_dval[OF zero_dbl(1) fin] dbl_less_dval[OF _ fin, of "dbl_of_int 255"] dbl_of_int_simps(1,2)[of 255] v
      by (simp_all add: zero_dbl)
    then show ?thesis by (simp add: ClampDoubleToUint8_def t_def Let_def)
  qed
  have re: "round_even (dval x) = (if dval x < of_nat n + 1 / 2 then n else if dval x > of_nat n + 1 / 2 then n + 1
      else if even n then n else n + 1)"
    by (auto simp: round_even_def n_def[symmetric])
  have odd1: "Suc n - Suc n mod 2 = (if even n then n else Suc n)" by (cases "even n") (auto simp: even_iff_mod_2_eq_zero odd_iff_mod_2_eq_one mod_Suc)
  consider (below) "dval x < of_nat n + 1 / 2" | (tie) "dval x = of_nat n + 1 / 2" | (above) "of_nat n + 1 / 2 < dval x"
    by linarith
  then show ?thesis
  proof cases
    case below
    show ?thesis
    proof (cases "dval t = of_nat n + 1")
      case True
      have "even n"
      proof (rule ccontr)
        assume "odd n"
        from half_sum_below[OF this n255 n(1) below] have "dval t = dval x + 1 / 2" using hs(6) below by simp
        then show False using True below by simp
      qed
      moreover have "n \<noteq> 255" using \<open>even n\<close> by auto
      ultimately show ?thesis using clamp_round[OF hs(1), of "Suc n"] True below odd1 n255
        unfolding code re by simp
    next
      case False
      then have "dval t < of_nat n + 1" using hs(4)[OF below] by simp
      then show ?thesis using clamp_round[OF hs(1), of n] hs(2) below n255 unfolding code re by simp
    qed
  next
    case tie
    have "dbl_exact (dval x + 1 / 2)" using dbl_exact_int[of "int n + 1"] n255 tie by (simp add: add.commute)
    then have "dval t = of_nat (Suc n)" using hs(6) tie by simp
    then show ?thesis using clamp_round[OF hs(1), of "Suc n"] n254 tie odd1 unfolding code re by simp
  next
    case above
    have r: "of_nat (Suc n) \<le> dval t" "dval t < of_nat (Suc n) + 1" using hs(3,5) above by simp_all
    have ev: "dval t \<noteq> of_nat (Suc n)" if en: "even n"
    proof -
      obtain p where p: "dbl_exact p" "of_nat n + 1 < p" "p \<le> dval x + 1 / 2"
        using half_sum_above[OF en n255 above n(2) sp] by blast
      have "(0::rat) \<le> of_nat n" by simp
      then have "0 \<le> p" using p(2) by linarith
      then show ?thesis using hs(7)[OF p(1) _ p(3)] p(2) by simp
    qed
    show ?thesis using clamp_round[OF hs(1) r] n254 above odd1 ev unfolding code re by auto
  qed
qed

lemma ClampDoubleToUint8_infinite:
  assumes "dbl_is_infinite x"
  shows "unat (ClampDoubleToUint8 x) = (if dbl_negative x then 0 else 255)"
proof -
  have nn: "\<not> dbl_is_nan x" "\<not> dbl_is_nan (mk_dbl False 0)" "\<not> dbl_is_nan (dbl_of_int 255)"
    using assms finite_not_nan[OF zero_dbl(1)] finite_not_nan[OF dbl_of_int_simps(1)[of 255]]
    by (simp_all add: dbl_is_infinite_def dbl_is_nan_def)
  have "dbl_rank x = (if dbl_negative x then - int inf_mag else int inf_mag)" "dbl_rank (mk_dbl False 0) = 0"
    using assms by (simp_all add: dbl_rank_def dbl_is_infinite_def)
  moreover have "dbl_rank (dbl_of_int 255) < int inf_mag"
    using dbl_of_int_simps(1,3)[of 255] by (simp add: dbl_rank_def dbl_is_finite_def)
  ultimately show ?thesis using nn by (simp add: ClampDoubleToUint8_def dbl_le_def dbl_less_def inf_mag_def)
qed

lemma ClampDoubleToUint8_spec:
  assumes "x \<noteq> 0x3fe0000000000001"
  shows "unat (ClampDoubleToUint8 x) = clamp_spec x"
proof (cases "dbl_is_finite x")
  case False
  then consider "dbl_is_nan x" | "dbl_is_infinite x" using dbl_class by blast
  then show ?thesis
  proof cases
    case 1
    then show ?thesis by (simp add: ClampDoubleToUint8_def dbl_le_def clamp_spec_def)
  next
    case 2
    moreover have "\<not> dbl_is_nan x" using 2 by (simp add: dbl_is_infinite_def dbl_is_nan_def)
    ultimately show ?thesis using ClampDoubleToUint8_infinite[OF 2] by (simp add: clamp_spec_def)
  qed
next
  case fin: True
  note c = dbl_of_int_simps(1,2)[of 255]
  have le: "dbl_le (mk_dbl False 0) x \<longleftrightarrow> 0 \<le> dval x" using dbl_le_dval[OF zero_dbl(1) fin] by (simp add: zero_dbl)
  have gt: "dbl_less (dbl_of_int 255) x \<longleftrightarrow> 255 < dval x" using dbl_less_dval[OF _ fin, of "dbl_of_int 255"] c by simp
  have spec: "clamp_spec x = round_even (max 0 (min 255 (dval x)))"
    using fin by (simp add: clamp_spec_def finite_not_nan finite_not_infinite)
  consider "dval x < 0" | "255 < dval x" | "0 \<le> dval x" "dval x \<le> 255" by linarith
  then show ?thesis
  proof cases
    case 1
    then show ?thesis using le round_even_nat[of 0] by (simp add: ClampDoubleToUint8_def spec)
  next
    case 2
    then show ?thesis using le gt round_even_nat[of 255] by (simp add: ClampDoubleToUint8_def spec)
  next
    case 3
    then show ?thesis using ClampDoubleToUint8_in_range[OF fin 3 assms] by (simp add: spec)
  qed
qed

text \<open>The successor of 1/2, and its sum with 1/2.\<close>

lemma half_succ_val:
  "dbl_is_finite 0x3fe0000000000001" "dval 0x3fe0000000000001 = 1 / 2 + 2 powi (-53)"
proof -
  have p: "(0x3fe0000000000001 :: double) = mk_dbl False (1022 * 2 ^ 52 + 1)" by (simp add: mk_dbl_def)
  have "mag_val (1022 * 2 ^ 52 + 1) = 1 / 2 + 2 powi (-53)"
    by (subst mag_val_of_normal) (simp_all add: power_int_def power_divide)
  then show "dbl_is_finite 0x3fe0000000000001" "dval 0x3fe0000000000001 = 1 / 2 + 2 powi (-53)"
    unfolding p by (simp_all add: dbl_is_finite_def inf_mag_def dval_def)
qed

lemma half_succ_sum:
  "dbl_is_finite (dbl_add 0x3fe0000000000001 0x3fe0000000000000)"
  "dval (dbl_add 0x3fe0000000000001 0x3fe0000000000000) = 1"
proof -
  let ?q = "1 + (2::rat) powi (-53)"
  have "ilog2 ?q = 0" by (rule ilog2_unique) (simp_all add: power_int_def power_divide)
  moreover have "?q / 2 powi (-52) = of_nat (2 ^ 52) + 1 / 2" by (simp add: power_int_def power_divide)
  moreover have "round_even (of_nat (2 ^ 52) + 1 / 2) = 2 ^ 52"
  proof -
    have "\<lfloor>of_nat (2 ^ 52) + (1 / 2 :: rat)\<rfloor> = 2 ^ 52" by (simp add: floor_eq_iff)
    then show ?thesis unfolding round_even_def Let_def by simp
  qed
  moreover have "\<not> ?q \<le> 0" by (simp add: not_le add_pos_nonneg)
  ultimately have rm: "round_mag ?q = 1023 * 2 ^ 52" by (simp add: round_mag_def inf_mag_def)
  have sum: "dbl_add 0x3fe0000000000001 0x3fe0000000000000 = mk_dbl False (1023 * 2 ^ 52)"
    using half_val(1,3) half_succ_val(1) rm \<open>\<not> ?q \<le> 0\<close> unfolding dbl_add_def half_val(2) half_succ_val(2)
    by (simp add: finite_not_nan finite_not_infinite round_dbl_def)
  have "mag_val (1023 * 2 ^ 52) = 1" by (subst mag_val_of_normal) (simp_all add: power_int_def power_divide)
  then show "dbl_is_finite (dbl_add 0x3fe0000000000001 0x3fe0000000000000)"
    "dval (dbl_add 0x3fe0000000000001 0x3fe0000000000000) = 1"
    unfolding sum by (simp_all add: dbl_is_finite_def inf_mag_def dval_def)
qed

lemma ClampDoubleToUint8_half_succ: "unat (ClampDoubleToUint8 0x3fe0000000000001) = 0"
proof -
  note c = dbl_of_int_simps(1,2)[of 255] and f = half_succ_val(1)
  have "dbl_le (mk_dbl False 0) 0x3fe0000000000001" using dbl_le_dval[OF zero_dbl(1) f] unfolding half_succ_val zero_dbl by simp
  moreover have "\<not> dbl_less (dbl_of_int 255) 0x3fe0000000000001"
    using dbl_less_dval[OF _ f, of "dbl_of_int 255"] c unfolding half_succ_val by (simp add: power_int_def power_divide)
  ultimately have code: "ClampDoubleToUint8 0x3fe0000000000001 =
     (let y = (word_of_int (rat_trunc (dval (dbl_add 0x3fe0000000000001 0x3fe0000000000000))) :: u8)
      in if dbl_eq (dbl_of_int (uint y)) (dbl_add 0x3fe0000000000001 0x3fe0000000000000) then ucast (y AND NOT 1) else ucast y)"
    by (simp only: ClampDoubleToUint8_def Let_def not_True_eq_False if_False)
  show ?thesis unfolding code using half_succ_sum clamp_round[of "dbl_add 0x3fe0000000000001 0x3fe0000000000000" 1] by simp
qed

text \<open>
  C30: \<open>ClampDoubleToUint8\<close> rounds a double to the nearest integer, ties to even, and clamps it to a
  byte (zero for a NaN) for every double but the successor of 1/2. For that one the sum with 0.5 is
  rounded to 1, is taken for a tie, and the result is 0 where the nearest integer is 1.
\<close>

theorem ClampDoubleToUint8_rounds:
  "unat (ClampDoubleToUint8 x) = (if x = 0x3fe0000000000001 then 0 else clamp_spec x)
   \<and> clamp_spec 0x3fe0000000000001 = 1"
proof
  have fl: "\<lfloor>1 / 2 + (2::rat) powi (-53)\<rfloor> = 0" by (simp add: floor_eq_iff power_int_def power_divide)
  have "max 0 (min 255 (1 / 2 + (2::rat) powi (-53))) = 1 / 2 + 2 powi (-53)" by (simp add: power_int_def power_divide)
  moreover have "round_even (1 / 2 + 2 powi (-53)) = 1" unfolding round_even_def fl by (simp add: power_int_def power_divide)
  ultimately show "clamp_spec 0x3fe0000000000001 = 1"
    using finite_not_nan[OF half_succ_val(1)] finite_not_infinite[OF half_succ_val(1)]
    unfolding clamp_spec_def half_succ_val(2) by simp
  show "unat (ClampDoubleToUint8 x) = (if x = 0x3fe0000000000001 then 0 else clamp_spec x)"
    using ClampDoubleToUint8_half_succ ClampDoubleToUint8_spec[of x] by simp
qed

text \<open>
  C31: \<open>ToInt32\<close> relies on the cast of a value that does not fit: for the double \<open>-2 ^ 31\<close> its last
  step converts \<open>2 ^ 31\<close> to \<open>int32_t\<close>, so that the result is whatever the undefined cast gives.
\<close>

theorem ToInt32_undefined_cast: "ToInt32 ind (dbl_of_int (-2147483648)) = ind"
proof -
  let ?d = "dbl_of_int (-2147483648)"
  have d: "dval ?d = of_int (- (2 ^ 31))" using dbl_of_int_simps(2)[of "-2147483648"] by simp
  have "1053 < dbl_expo ?d" using normal_of_ge[of 1053 ?d] unfolding d by (simp add: power_int_def)
  moreover have "dbl_expo ?d < 1055" using expo_le_of_less[of ?d 1055] calculation unfolding d by (simp add: power_int_def)
  ultimately have e: "dbl_expo ?d = 1054" by simp
  have "unat ((pun_hi ?d AND 0x7ff00000) - 0x3ff00000) = unat (0x01f00000 :: u32)" using e by (simp add: u_tmp_small)
  then have u: "(pun_hi ?d AND 0x7ff00000) - 0x3ff00000 = 0x01f00000" by (simp only: word_unat_eq_iff)
  have "rat_trunc (dval ?d) = - (2 ^ 31)" unfolding d by (rule rat_trunc_int)
  then show ?thesis using ToInt32_tail_expo31[OF e] by (simp add: ToInt32_unfold Let_def u)
qed

end
