(* ===== verification/Mir_Folding.thy ===== *)
theory Mir_Folding
  imports Mir_Nodes Numeric_Conversions
begin

text \<open>
  Constant folding and algebraic simplification of MIR: \<open>EvaluateConstantOperands\<close> and the
  \<open>foldsTo\<close> methods of \<open>ion/MIR.cpp\<close>, with the value operations of \<open>jsapi.h\<close> they use.

  The fields that subclasses of \<open>MDefinition\<close> add are kept in a second store, \<open>mattr\<close>. A fold
  returns the node itself (\<open>Keep\<close>), another node (\<open>To\<close>), or a new constant or test. \<open>None\<close> is a
  failed assertion, such as \<open>toInt32\<close> of a value that is no int32.

  Two functions are parameters: \<open>dii\<close> is \<open>MOZ_DOUBLE_IS_INT32\<close> of mfbt, which answers with the
  int32 a double is equal to unless the double is a negative zero; \<open>s2n\<close> converts a string to a
  number.
\<close>

subsection \<open>Values\<close>

datatype js_value = VUndefined | VNull | VBoolean bool | VInt32 i32 | VDouble double
  | VString string | VObject nat | VMagic

fun MIRTypeFromValue :: "js_value \<Rightarrow> MIRType" where
  "MIRTypeFromValue (VDouble d) = MIRType_Double"
| "MIRTypeFromValue VUndefined = MIRTypeFromValueType (Some JSVAL_TYPE_UNDEFINED)"
| "MIRTypeFromValue VNull = MIRTypeFromValueType (Some JSVAL_TYPE_NULL)"
| "MIRTypeFromValue (VBoolean b) = MIRTypeFromValueType (Some JSVAL_TYPE_BOOLEAN)"
| "MIRTypeFromValue (VInt32 i) = MIRTypeFromValueType (Some JSVAL_TYPE_INT32)"
| "MIRTypeFromValue (VString s) = MIRTypeFromValueType (Some JSVAL_TYPE_STRING)"
| "MIRTypeFromValue (VObject p) = MIRTypeFromValueType (Some JSVAL_TYPE_OBJECT)"
| "MIRTypeFromValue VMagic = MIRTypeFromValueType (Some JSVAL_TYPE_MAGIC)"

fun toInt32 :: "js_value \<Rightarrow> i32 option" where
  "toInt32 (VInt32 i) = Some i"
| "toInt32 v = None"

fun toNumber :: "js_value \<Rightarrow> double option" where
  "toNumber (VDouble d) = Some d"
| "toNumber (VInt32 i) = Some (dbl_of_int (sint i))"
| "toNumber v = None"

fun isNumber :: "js_value \<Rightarrow> bool" where
  "isNumber (VDouble d) = True"
| "isNumber (VInt32 i) = True"
| "isNumber v = False"

definition setNumber :: "(double \<Rightarrow> i32 option) \<Rightarrow> double \<Rightarrow> js_value" where
  "setNumber dii d = (case dii d of Some i \<Rightarrow> VInt32 i | None \<Rightarrow> VDouble d)"

fun js_ValueToBoolean :: "js_value \<Rightarrow> bool option" where
  "js_ValueToBoolean (VInt32 i) = Some (i \<noteq> 0)"
| "js_ValueToBoolean (VString s) = Some (length s \<noteq> 0)"
| "js_ValueToBoolean (VObject p) = Some True"
| "js_ValueToBoolean VNull = Some False"
| "js_ValueToBoolean VUndefined = Some False"
| "js_ValueToBoolean (VDouble d) = Some (\<not> dbl_is_nan d \<and> \<not> dbl_eq d (mk_dbl False 0))"
| "js_ValueToBoolean (VBoolean b) = Some b"
| "js_ValueToBoolean VMagic = None"

text \<open>\<open>ToNumber\<close> of a primitive: numbers as they are, the rest as \<open>ToNumberSlow\<close> converts it.\<close>

fun ToNumber :: "(string \<Rightarrow> double) \<Rightarrow> js_value \<Rightarrow> double option" where
  "ToNumber s2n (VDouble d) = Some d"
| "ToNumber s2n (VInt32 i) = Some (dbl_of_int (sint i))"
| "ToNumber s2n (VString s) = Some (s2n s)"
| "ToNumber s2n (VBoolean b) = Some (dbl_of_int (if b then 1 else 0))"
| "ToNumber s2n VNull = Some (dbl_of_int 0)"
| "ToNumber s2n VUndefined = Some dbl_nan"
| "ToNumber s2n v = None"

subsection \<open>Attributes of instructions\<close>

record mattr =
  ma_value :: js_value
  ma_specialization :: MIRType
  ma_canBeNegativeZero :: bool
  ma_canBeNegativeOverflow :: bool
  ma_canBeDivideByZero :: bool
  ma_canOverflow :: bool
  ma_implicitTruncate :: bool
  ma_valueNumber :: u32
  ma_inputType :: MIRType
  ma_successors :: "nat \<times> nat"
  ma_aliasSet :: alias_set
  ma_minimum :: i32
  ma_maximum :: i32

type_synonym attrs = "nat \<Rightarrow> mattr"

definition isConstant :: "nodes \<Rightarrow> nat \<Rightarrow> bool" where
  "isConstant h n \<longleftrightarrow> mn_op (h n) = Op_Constant"

text \<open>\<open>id()\<close> and \<open>valueNumber()\<close> assert that the definition has been placed in a block.\<close>

definition def_id :: "nodes \<Rightarrow> nat \<Rightarrow> nat option" where
  "def_id h d = do { js_assert (mn_block (h d) \<noteq> None); Some (mn_id (h d)) }"

definition valueNumber :: "nodes \<Rightarrow> attrs \<Rightarrow> nat \<Rightarrow> u32 option" where
  "valueNumber h a d = do { js_assert (mn_block (h d) \<noteq> None); Some (ma_valueNumber (a d)) }"

definition EqualValues :: "nodes \<Rightarrow> attrs \<Rightarrow> bool \<Rightarrow> nat \<Rightarrow> nat \<Rightarrow> bool option" where
  "EqualValues h a useGVN l r =
     (if useGVN then do { x \<leftarrow> valueNumber h a l; y \<leftarrow> valueNumber h a r; Some (x = y) }
      else do { x \<leftarrow> def_id h l; y \<leftarrow> def_id h r; Some (x = y) })"

text \<open>\<open>IsConstant\<close> compares numbers, so a negative zero is equal to zero.\<close>

definition IsConstant :: "nodes \<Rightarrow> attrs \<Rightarrow> nat \<Rightarrow> double \<Rightarrow> bool option" where
  "IsConstant h a n v =
     (if isConstant h n then do { d \<leftarrow> toNumber (ma_value (a n)); Some (dbl_eq d v) } else Some False)"

definition isEffectful :: "attrs \<Rightarrow> nat \<Rightarrow> bool" where
  "isEffectful a n \<longleftrightarrow> as_isStore (ma_aliasSet (a n))"

fun operands_congruent :: "nodes \<Rightarrow> attrs \<Rightarrow> nat option list \<Rightarrow> nat option list \<Rightarrow> bool option" where
  "operands_congruent h a (x # xs) (y # ys) = do {
     d \<leftarrow> x;
     e \<leftarrow> y;
     v \<leftarrow> valueNumber h a d;
     w \<leftarrow> valueNumber h a e;
     if v \<noteq> w then Some False else operands_congruent h a xs ys }"
| "operands_congruent h a xs ys = Some True"

definition congruentIfOperandsEqual :: "nodes \<Rightarrow> attrs \<Rightarrow> nat \<Rightarrow> nat \<Rightarrow> bool option" where
  "congruentIfOperandsEqual h a n ins =
     (if numOperands h n \<noteq> numOperands h ins then Some False
      else if mn_op (h n) \<noteq> mn_op (h ins) then Some False
      else if mn_type (h n) \<noteq> mn_type (h ins) then Some False
      else if isEffectful a n \<or> isEffectful a ins then Some False
      else operands_congruent h a (mn_operands (h n)) (mn_operands (h ins)))"

subsection \<open>Evaluation of constants\<close>

definition eval_int :: "js_value \<Rightarrow> js_value \<Rightarrow> (i32 \<Rightarrow> i32 \<Rightarrow> js_value option) \<Rightarrow> js_value option option" where
  "eval_int lhs rhs f = do { x \<leftarrow> toInt32 lhs; y \<leftarrow> toInt32 rhs; Some (f x y) }"

definition eval_num :: "(double \<Rightarrow> i32 option) \<Rightarrow> js_value \<Rightarrow> js_value \<Rightarrow> (double \<Rightarrow> double \<Rightarrow> double) \<Rightarrow> js_value option option" where
  "eval_num dii lhs rhs f = do { x \<leftarrow> toNumber lhs; y \<leftarrow> toNumber rhs; Some (Some (setNumber dii (f x y))) }"

definition evaluate_op :: "(double \<Rightarrow> i32 option) \<Rightarrow> Opcode \<Rightarrow> js_value \<Rightarrow> js_value \<Rightarrow> js_value option option" where
  "evaluate_op dii opc lhs rhs = (case opc of
      Op_BitAnd \<Rightarrow> eval_int lhs rhs (\<lambda>x y. Some (VInt32 (x AND y)))
    | Op_BitOr \<Rightarrow> eval_int lhs rhs (\<lambda>x y. Some (VInt32 (x OR y)))
    | Op_BitXor \<Rightarrow> eval_int lhs rhs (\<lambda>x y. Some (VInt32 (x XOR y)))
    | Op_Lsh \<Rightarrow> eval_int lhs rhs (\<lambda>x y. Some (VInt32 (push_bit (unat (y AND 0x1F)) x)))
    | Op_Rsh \<Rightarrow> eval_int lhs rhs (\<lambda>x y. Some (VInt32 (signed_drop_bit (unat (y AND 0x1F)) x)))
    | Op_Ursh \<Rightarrow> eval_int lhs rhs (\<lambda>x y. if sint x < 0 \<and> sint y = 0 then None
                                       else Some (VInt32 (drop_bit (unat (y AND 0x1F)) x)))
    | Op_Add \<Rightarrow> eval_num dii lhs rhs dbl_add
    | Op_Sub \<Rightarrow> eval_num dii lhs rhs dbl_sub
    | Op_Mul \<Rightarrow> eval_num dii lhs rhs dbl_mul
    | Op_Div \<Rightarrow> eval_num dii lhs rhs NumberDiv
    | Op_Mod \<Rightarrow> eval_num dii lhs rhs NumberMod
    | _ \<Rightarrow> None)"

text \<open>The outer \<open>None\<close> is an assertion, the inner one the null result.\<close>

definition EvaluateConstantOperands :: "(double \<Rightarrow> i32 option) \<Rightarrow> nodes \<Rightarrow> attrs \<Rightarrow> nat \<Rightarrow> js_value option option" where
  "EvaluateConstantOperands dii h a n = do {
     left \<leftarrow> getOperand h n 0;
     right \<leftarrow> getOperand h n 1;
     if \<not> isConstant h left \<or> \<not> isConstant h right then Some None
     else do {
       ret \<leftarrow> evaluate_op dii (mn_op (h n)) (ma_value (a left)) (ma_value (a right));
       Some (case ret of None \<Rightarrow> None
             | Some v \<Rightarrow> if mn_type (h n) \<noteq> MIRTypeFromValue v then None else Some v) } }"

subsection \<open>Folding\<close>

datatype fold_result = Keep | To nat | Const js_value | NewTest nat nat nat

text \<open>\<open>foldIfZero\<close> and \<open>foldIfEqual\<close> of the bitwise instructions.\<close>

definition foldIfZero :: "nodes \<Rightarrow> nat \<Rightarrow> nat \<Rightarrow> fold_result option" where
  "foldIfZero h n operand = (case mn_op (h n) of
      Op_BitAnd \<Rightarrow> map_option To (getOperand h n operand)
    | Op_BitOr \<Rightarrow> map_option To (getOperand h n (1 - operand))
    | Op_BitXor \<Rightarrow> map_option To (getOperand h n (1 - operand))
    | Op_Lsh \<Rightarrow> map_option To (getOperand h n 0)
    | Op_Rsh \<Rightarrow> map_option To (getOperand h n 0)
    | Op_Ursh \<Rightarrow> if operand = 0 then map_option To (getOperand h n 0) else Some Keep
    | _ \<Rightarrow> None)"

definition foldIfEqual :: "nodes \<Rightarrow> nat \<Rightarrow> fold_result option" where
  "foldIfEqual h n = (case mn_op (h n) of
      Op_BitAnd \<Rightarrow> map_option To (getOperand h n 0)
    | Op_BitOr \<Rightarrow> map_option To (getOperand h n 0)
    | Op_BitXor \<Rightarrow> Some (Const (VInt32 0))
    | Op_Lsh \<Rightarrow> Some Keep
    | Op_Rsh \<Rightarrow> Some Keep
    | Op_Ursh \<Rightarrow> Some Keep
    | _ \<Rightarrow> None)"

definition MBinaryBitwiseInstruction_foldsTo :: "(double \<Rightarrow> i32 option) \<Rightarrow> bool \<Rightarrow> nodes \<Rightarrow> attrs \<Rightarrow> nat \<Rightarrow> fold_result option" where
  "MBinaryBitwiseInstruction_foldsTo dii useValueNumbers h a n =
     (if ma_specialization (a n) \<noteq> MIRType_Int32 then Some Keep
      else do {
        lhs \<leftarrow> getOperand h n 0;
        rhs \<leftarrow> getOperand h n 1;
        folded \<leftarrow> EvaluateConstantOperands dii h a n;
        (case folded of
           Some v \<Rightarrow> Some (Const v)
         | None \<Rightarrow> do {
             lz \<leftarrow> IsConstant h a lhs (mk_dbl False 0);
             if lz then foldIfZero h n 0
             else do {
               rz \<leftarrow> IsConstant h a rhs (mk_dbl False 0);
               if rz then foldIfZero h n 1
               else do {
                 eq \<leftarrow> EqualValues h a useValueNumbers lhs rhs;
                 if eq then foldIfEqual h n else Some Keep } } }) })"

fun getIdentity :: "Opcode \<Rightarrow> double option" where
  "getIdentity Op_Add = Some (dbl_of_int 0)"
| "getIdentity Op_Sub = Some (dbl_of_int 0)"
| "getIdentity Op_Mul = Some (dbl_of_int 1)"
| "getIdentity _ = None"

definition MBinaryArithInstruction_foldsTo :: "(double \<Rightarrow> i32 option) \<Rightarrow> nodes \<Rightarrow> attrs \<Rightarrow> nat \<Rightarrow> fold_result option" where
  "MBinaryArithInstruction_foldsTo dii h a n =
     (if ma_specialization (a n) = MIRType_None then Some Keep
      else do {
        lhs \<leftarrow> getOperand h n 0;
        rhs \<leftarrow> getOperand h n 1;
        folded \<leftarrow> EvaluateConstantOperands dii h a n;
        (case folded of
           Some v \<Rightarrow> Some (Const v)
         | None \<Rightarrow>
             if mn_op (h n) = Op_Add \<and> ma_specialization (a n) \<noteq> MIRType_Int32 then Some Keep
             else do {
               idn \<leftarrow> getIdentity (mn_op (h n));
               ri \<leftarrow> IsConstant h a rhs idn;
               if ri then Some (To lhs)
               else if mn_op (h n) = Op_Sub then Some Keep
               else do {
                 li \<leftarrow> IsConstant h a lhs idn;
                 if li then Some (To rhs) else Some Keep } }) })"

definition MDiv_foldsTo :: "(double \<Rightarrow> i32 option) \<Rightarrow> nodes \<Rightarrow> attrs \<Rightarrow> nat \<Rightarrow> fold_result option" where
  "MDiv_foldsTo dii h a n =
     (if ma_specialization (a n) = MIRType_None then Some Keep
      else do {
        folded \<leftarrow> EvaluateConstantOperands dii h a n;
        (case folded of
           Some v \<Rightarrow> Some (Const v)
         | None \<Rightarrow> do {
             lhs \<leftarrow> getOperand h n 0;
             rhs \<leftarrow> getOperand h n 1;
             lz \<leftarrow> IsConstant h a lhs (dbl_of_int 0);
             if lz then Some (To lhs)
             else do {
               r1 \<leftarrow> IsConstant h a rhs (dbl_of_int 1);
               if r1 then Some (To lhs) else Some Keep } }) })"

text \<open>\<open>TryFold\<close> keeps the instruction when the replacement has another type.\<close>

definition TryFold_to :: "nodes \<Rightarrow> nat \<Rightarrow> nat \<Rightarrow> fold_result" where
  "TryFold_to h n d = (if mn_type (h n) = mn_type (h d) then To d else Keep)"

definition TryFold_const :: "nodes \<Rightarrow> nat \<Rightarrow> js_value \<Rightarrow> fold_result" where
  "TryFold_const h n v = (if mn_type (h n) = MIRTypeFromValue v then Const v else Keep)"

definition MMod_foldsTo :: "(double \<Rightarrow> i32 option) \<Rightarrow> nodes \<Rightarrow> attrs \<Rightarrow> nat \<Rightarrow> fold_result option" where
  "MMod_foldsTo dii h a n =
     (if ma_specialization (a n) = MIRType_None then Some Keep
      else do {
        folded \<leftarrow> EvaluateConstantOperands dii h a n;
        (case folded of
           Some v \<Rightarrow> Some (Const v)
         | None \<Rightarrow> do {
             lhs \<leftarrow> getOperand h n 0;
             rhs \<leftarrow> getOperand h n 1;
             let NaN = dbl_nan;
             let Inf = mk_dbl False inf_mag;
             let NInf = mk_dbl True inf_mag;
             let lhsConstant = (isConstant h lhs \<and> isNumber (ma_value (a lhs)));
             let rhsConstant = (isConstant h rhs \<and> isNumber (ma_value (a rhs)));
             lhsd \<leftarrow> (if lhsConstant then toNumber (ma_value (a lhs)) else Some (mk_dbl False 0));
             rhsd \<leftarrow> (if rhsConstant then toNumber (ma_value (a rhs)) else Some (mk_dbl False 0));
             Some (if lhsConstant \<and> dbl_eq lhsd NaN then To lhs
                   else if rhsConstant \<and> dbl_eq rhsd NaN then To rhs
                   else if rhsConstant \<and> dbl_eq rhsd (mk_dbl False 0) then TryFold_const h n (VDouble NaN)
                   else if lhsConstant \<and> dbl_eq lhsd (mk_dbl False 0) then TryFold_to h n lhs
                   else if lhsConstant \<and> (dbl_eq lhsd Inf \<or> dbl_eq lhsd NInf) then TryFold_const h n (VDouble NaN)
                   else if rhsConstant \<and> (dbl_eq rhsd Inf \<or> dbl_eq rhsd NInf) then TryFold_to h n lhs
                   else Keep) }) })"

text \<open>
  \<open>MMul::foldsTo\<close> clears \<open>canBeNegativeZero_\<close> when the operands are congruent; \<open>cong\<close> is the virtual
  \<open>congruentTo\<close> of the left operand.
\<close>

definition MMul_foldsTo :: "(double \<Rightarrow> i32 option) \<Rightarrow> (nat \<Rightarrow> nat \<Rightarrow> bool) \<Rightarrow> nodes \<Rightarrow> attrs \<Rightarrow> nat \<Rightarrow> (fold_result \<times> attrs) option" where
  "MMul_foldsTo dii cong h a n = do {
     out \<leftarrow> MBinaryArithInstruction_foldsTo dii h a n;
     if out \<noteq> Keep then Some (out, a)
     else if ma_specialization (a n) \<noteq> MIRType_Int32 then Some (Keep, a)
     else do {
       lhs \<leftarrow> getOperand h n 0;
       rhs \<leftarrow> getOperand h n 1;
       Some (Keep, if cong lhs rhs then a(n := (a n)\<lparr>ma_canBeNegativeZero := False\<rparr>) else a) } }"

definition MTest_foldsTo :: "nodes \<Rightarrow> attrs \<Rightarrow> nat \<Rightarrow> fold_result option" where
  "MTest_foldsTo h a n = do {
     d \<leftarrow> getOperand h n 0;
     if mn_op (h d) = Op_Not
     then do { x \<leftarrow> getOperand h d 0; Some (NewTest x (snd (ma_successors (a n))) (fst (ma_successors (a n)))) }
     else Some Keep }"

fun phi_inputs_equal :: "nodes \<Rightarrow> nat \<Rightarrow> nat option list \<Rightarrow> bool option" where
  "phi_inputs_equal h first [] = Some True"
| "phi_inputs_equal h first (d # ds) = do {
     x \<leftarrow> d;
     i \<leftarrow> def_id h x;
     j \<leftarrow> def_id h first;
     if i \<noteq> j then Some False else phi_inputs_equal h first ds }"

definition MPhi_foldsTo :: "nodes \<Rightarrow> nat \<Rightarrow> fold_result option" where
  "MPhi_foldsTo h n = do {
     js_assert (mn_operands (h n) \<noteq> []);
     first \<leftarrow> getOperand h n 0;
     eq \<leftarrow> phi_inputs_equal h first (tl (mn_operands (h n)));
     Some (if eq then To first else Keep) }"

definition MPhi_congruentTo :: "nodes \<Rightarrow> attrs \<Rightarrow> nat \<Rightarrow> nat \<Rightarrow> bool option" where
  "MPhi_congruentTo h a n ins =
     (if mn_op (h ins) \<noteq> Op_Phi then Some False
      else if mn_block (h ins) \<noteq> mn_block (h n) then Some False
      else congruentIfOperandsEqual h a n ins)"

definition MConstant_congruentTo :: "nodes \<Rightarrow> attrs \<Rightarrow> nat \<Rightarrow> nat \<Rightarrow> bool" where
  "MConstant_congruentTo h a n ins =
     (if \<not> isConstant h ins then False else ma_value (a ins) = ma_value (a n))"

definition MBitNot_foldsTo :: "nodes \<Rightarrow> attrs \<Rightarrow> nat \<Rightarrow> fold_result option" where
  "MBitNot_foldsTo h a n =
     (if ma_specialization (a n) \<noteq> MIRType_Int32 then Some Keep
      else do {
        d \<leftarrow> getOperand h n 0;
        if isConstant h d then do { x \<leftarrow> toInt32 (ma_value (a d)); Some (Const (VInt32 (NOT x))) }
        else if mn_op (h d) = Op_BitNot then do { x \<leftarrow> getOperand h d 0; Some (To x) }
        else Some Keep })"

fun typeof_name :: "MIRType \<Rightarrow> string option" where
  "typeof_name MIRType_Double = Some ''number''"
| "typeof_name MIRType_Int32 = Some ''number''"
| "typeof_name MIRType_String = Some ''string''"
| "typeof_name MIRType_Null = Some ''object''"
| "typeof_name MIRType_Undefined = Some ''undefined''"
| "typeof_name MIRType_Boolean = Some ''boolean''"
| "typeof_name _ = None"

definition MTypeOf_foldsTo :: "nodes \<Rightarrow> attrs \<Rightarrow> nat \<Rightarrow> fold_result option" where
  "MTypeOf_foldsTo h a n = do {
     d \<leftarrow> getOperand h n 0;
     js_assert (mn_type (h d) = MIRType_Value);
     Some (case typeof_name (ma_inputType (a n)) of Some s \<Rightarrow> Const (VString s) | None \<Rightarrow> Keep) }"

definition MToInt32_foldsTo :: "nodes \<Rightarrow> nat \<Rightarrow> fold_result option" where
  "MToInt32_foldsTo h n = do {
     d \<leftarrow> getOperand h n 0;
     Some (if mn_type (h d) = MIRType_Int32 then To d else Keep) }"

fun toDouble :: "js_value \<Rightarrow> double option" where
  "toDouble (VDouble d) = Some d"
| "toDouble v = None"

definition MTruncateToInt32_foldsTo :: "nodes \<Rightarrow> attrs \<Rightarrow> nat \<Rightarrow> fold_result option" where
  "MTruncateToInt32_foldsTo h a n = do {
     d \<leftarrow> getOperand h n 0;
     if mn_type (h d) = MIRType_Int32 then Some (To d)
     else if mn_type (h d) = MIRType_Double \<and> isConstant h d
     then do { v \<leftarrow> toDouble (ma_value (a d)); Some (Const (VInt32 (ToInt32 0x80000000 v))) }
     else Some Keep }"

fun isPrimitive :: "js_value \<Rightarrow> bool" where
  "isPrimitive (VObject p) = False"
| "isPrimitive v = True"

definition MToDouble_foldsTo :: "(string \<Rightarrow> double) \<Rightarrow> nodes \<Rightarrow> attrs \<Rightarrow> nat \<Rightarrow> fold_result option" where
  "MToDouble_foldsTo s2n h a n = do {
     d \<leftarrow> getOperand h n 0;
     if isConstant h d \<and> isPrimitive (ma_value (a d))
     then do { out \<leftarrow> ToNumber s2n (ma_value (a d)); Some (Const (VDouble out)) }
     else Some Keep }"

definition MClampToUint8_foldsTo :: "nodes \<Rightarrow> attrs \<Rightarrow> nat \<Rightarrow> fold_result option" where
  "MClampToUint8_foldsTo h a n = do {
     d \<leftarrow> getOperand h n 0;
     Some (if isConstant h d
           then (case ma_value (a d) of
                   VDouble v \<Rightarrow> Const (VInt32 (ClampDoubleToUint8 v))
                 | VInt32 i \<Rightarrow> Const (VInt32 (ClampIntForUint8Array i))
                 | _ \<Rightarrow> Keep)
           else Keep) }"

definition MNot_foldsTo :: "nodes \<Rightarrow> attrs \<Rightarrow> nat \<Rightarrow> fold_result option" where
  "MNot_foldsTo h a n = do {
     d \<leftarrow> getOperand h n 0;
     if isConstant h d then do { b \<leftarrow> js_ValueToBoolean (ma_value (a d)); Some (Const (VBoolean (\<not> b))) }
     else if mn_type (h d) = MIRType_Object then Some (Const (VBoolean False))
     else if mn_type (h d) = MIRType_Undefined \<or> mn_type (h d) = MIRType_Null then Some (Const (VBoolean True))
     else Some Keep }"

definition MUrsh_canOverflow :: "nodes \<Rightarrow> attrs \<Rightarrow> nat \<Rightarrow> bool option" where
  "MUrsh_canOverflow h a n = do {
     lhs \<leftarrow> getOperand h n 0;
     rhs \<leftarrow> getOperand h n 1;
     Some (if isConstant h lhs \<and> (case toInt32 (ma_value (a lhs)) of Some x \<Rightarrow> 0 \<le> sint x | None \<Rightarrow> False) then False
           else if isConstant h rhs \<and> (case toInt32 (ma_value (a rhs)) of Some y \<Rightarrow> \<not> 32 dvd sint y | None \<Rightarrow> False) then False
           else ma_canOverflow (a n)) }"

subsection \<open>The meaning of the operators\<close>

text \<open>The binary operators of ES5 11.5 to 11.10 on numbers.\<close>

fun js_op :: "Opcode \<Rightarrow> double \<Rightarrow> double \<Rightarrow> double" where
  "js_op Op_Add x y = dbl_add x y"
| "js_op Op_Sub x y = dbl_sub x y"
| "js_op Op_Mul x y = dbl_mul x y"
| "js_op Op_Div x y = dbl_div x y"
| "js_op Op_Mod x y = dbl_fmod x y"
| "js_op Op_BitAnd x y = dbl_of_int (sint (es5_ToInt32 x AND es5_ToInt32 y))"
| "js_op Op_BitOr x y = dbl_of_int (sint (es5_ToInt32 x OR es5_ToInt32 y))"
| "js_op Op_BitXor x y = dbl_of_int (sint (es5_ToInt32 x XOR es5_ToInt32 y))"
| "js_op Op_Lsh x y = dbl_of_int (sint (push_bit (unat (es5_ToInt32 y AND 0x1F)) (es5_ToInt32 x)))"
| "js_op Op_Rsh x y = dbl_of_int (sint (signed_drop_bit (unat (es5_ToInt32 y AND 0x1F)) (es5_ToInt32 x)))"
| "js_op Op_Ursh x y = dbl_of_int (uint (drop_bit (unat (es5_ToInt32 y AND 0x1F)) (es5_ToInt32 x)))"
| "js_op _ x y = dbl_nan"

definition is_int32_spec :: "(double \<Rightarrow> i32 option) \<Rightarrow> bool" where
  "is_int32_spec dii \<longleftrightarrow> (\<forall>d i. dii d = Some i \<longleftrightarrow> d = dbl_of_int (sint i))"

text \<open>The number that a fold stands for, when the node itself stands for \<open>self\<close>.\<close>

fun fold_value :: "(nat \<Rightarrow> double) \<Rightarrow> double \<Rightarrow> fold_result \<Rightarrow> double option" where
  "fold_value env self Keep = Some self"
| "fold_value env self (To d) = Some (env d)"
| "fold_value env self (Const v) = toNumber v"
| "fold_value env self (NewTest x t f) = None"

lemma es5_ToInt32_of_int [simp]: "es5_ToInt32 (dbl_of_int (sint (i :: i32))) = i"
proof -
  have "\<bar>sint i\<bar> < 2 ^ 53" using sint_greater_eq[of i] sint_less[of i] by auto
  note d = dbl_of_int_simps(1,2)[OF this]
  then show ?thesis unfolding es5_ToInt32_def d(2) rat_trunc_int by simp
qed

lemma toNumber_setNumber: "is_int32_spec dii \<Longrightarrow> toNumber (setNumber dii d) = Some d"
  by (auto simp: setNumber_def is_int32_spec_def split: option.splits)

lemma bit31_iff: "bit (w :: i32) 31 \<longleftrightarrow> sint w < 0"
  using bit_last_iff[of w] by simp

lemma uint_eq_sint: "0 \<le> sint (w :: i32) \<Longrightarrow> uint w = sint w"
  using sint_less[of w] by (subst uint_sint) (simp add: take_bit_int_eq_self)

lemma ursh_nonneg:
  assumes "\<not> (sint (x :: i32) < 0 \<and> k = 0)"
  shows "uint (drop_bit k x) = sint (drop_bit k x)"
proof -
  have "\<not> bit (drop_bit k x) 31"
  proof (cases "k = 0")
    case True
    then show ?thesis using assms by (simp add: bit31_iff)
  qed (auto simp: bit_drop_bit_eq dest: bit_imp_le_length)
  then show ?thesis by (simp add: bit31_iff uint_eq_sint)
qed

text \<open>
  Evaluating an instruction with constant operands gives the number that the JavaScript operator
  gives, but for \<open>>>>\<close> of a negative number by a multiple of 32.
\<close>

lemma EvaluateConstantOperands_sound:
  assumes dii: "is_int32_spec dii"
    and ops: "getOperand h n 0 = Some l" "getOperand h n 1 = Some r"
    and ev: "EvaluateConstantOperands dii h a n = Some (Some v)"
    and xy: "toNumber (ma_value (a l)) = Some x" "toNumber (ma_value (a r)) = Some y"
    and ursh: "mn_op (h n) = Op_Ursh \<longrightarrow> \<not> (sint (es5_ToInt32 x) < 0 \<and> es5_ToInt32 y AND 0x1F = 0)"
  shows "toNumber v = Some (js_op (mn_op (h n)) x y) \<and> mn_type (h n) = MIRTypeFromValue v"
proof -
  have e: "evaluate_op dii (mn_op (h n)) (ma_value (a l)) (ma_value (a r)) = Some (Some v)" "mn_type (h n) = MIRTypeFromValue v"
    using ev ops by (auto simp: EvaluateConstantOperands_def split: if_splits option.splits Option.bind_splits)
  have int: "\<exists>p q. x = dbl_of_int (sint p) \<and> y = dbl_of_int (sint q) \<and> f p q = Some v"
    if "eval_int (ma_value (a l)) (ma_value (a r)) f = Some (Some v)" for f
    using that xy by (cases "ma_value (a l)"; cases "ma_value (a r)") (auto simp: eval_int_def)
  have num: "toNumber v = Some (f x y)" if "eval_num dii (ma_value (a l)) (ma_value (a r)) f = Some (Some v)" for f
    using that xy toNumber_setNumber[OF dii] by (auto simp: eval_num_def)
  have u: "uint (drop_bit (unat (q AND 0x1F)) p) = sint (drop_bit (unat (q AND 0x1F)) p)"
    if "mn_op (h n) = Op_Ursh" "x = dbl_of_int (sint p)" "y = dbl_of_int (sint q)" for p q :: i32
    using ursh that by (intro ursh_nonneg) (auto simp: unat_eq_0)
  show ?thesis
    using e int num NumberDiv_is_division NumberMod_is_fmod u
    unfolding evaluate_op_def by (cases "mn_op (h n)") (fastforce split: if_splits)+
qed

subsection \<open>Identities\<close>

text \<open>JavaScript has one NaN.\<close>

definition js_number :: "double \<Rightarrow> bool" where
  "js_number d \<longleftrightarrow> (dbl_is_nan d \<longrightarrow> d = dbl_nan)"

definition int32_number :: "double \<Rightarrow> bool" where
  "int32_number d \<longleftrightarrow> (\<exists>i :: i32. d = dbl_of_int (sint i))"

lemma dbl_of_int_0: "dbl_of_int 0 = mk_dbl False 0"
  by (simp add: dbl_of_int_def round_dbl_def)

lemma dbl_eq_nonzero: "dbl_eq a b \<Longrightarrow> dbl_mag b \<noteq> 0 \<Longrightarrow> a = b"
proof -
  assume "dbl_eq a b" "dbl_mag b \<noteq> 0"
  then have "dbl_negative a = dbl_negative b" "dbl_mag a = dbl_mag b" by (auto simp: dbl_eq_def dbl_rank_def split: if_splits)
  then have "mk_dbl (dbl_negative a) (dbl_mag a) = mk_dbl (dbl_negative b) (dbl_mag b)" by (simp only:)
  then show "a = b" unfolding mk_dbl_eta .
qed

lemma dbl_eq_pos_zero: "dbl_eq d (mk_dbl False 0) \<Longrightarrow> \<not> dbl_negative d \<Longrightarrow> d = mk_dbl False 0"
  using mk_dbl_eta[of d] by (simp add: dbl_eq_zero)

lemma dbl_eq_zero_self [simp]: "dbl_eq (mk_dbl False 0) (mk_dbl False 0)"
  by (simp add: dbl_eq_zero)

lemma dbl_eq_nan: "\<not> dbl_eq d dbl_nan"
proof -
  have "dbl_is_nan dbl_nan" by (simp add: dbl_is_nan_def dbl_nan_def dbl_mag_def inf_mag_def)
  then show ?thesis by (simp add: dbl_eq_def)
qed

lemma one_val: "dbl_is_finite (dbl_of_int 1)" "dval (dbl_of_int 1) = 1" "\<not> dbl_negative (dbl_of_int 1)" "dbl_mag (dbl_of_int 1) \<noteq> 0"
  using dbl_of_int_simps[of 1] dval_eq_0_iff[of "dbl_of_int 1"] by simp_all

lemma infinite_eta: "dbl_is_infinite x \<Longrightarrow> mk_dbl (dbl_negative x) inf_mag = x"
  using mk_dbl_eta[of x] by (simp add: dbl_is_infinite_def)

lemma infinite_not_zero: "dbl_is_infinite x \<Longrightarrow> dbl_mag x \<noteq> 0"
  by (simp add: dbl_is_infinite_def inf_mag_def)

lemma dbl_mul_one: "js_number x \<Longrightarrow> dbl_mul x (dbl_of_int 1) = x" "js_number x \<Longrightarrow> dbl_mul (dbl_of_int 1) x = x"
proof -
  assume j: "js_number x"
  note o = one_val finite_not_nan[OF one_val(1)] finite_not_infinite[OF one_val(1)]
  consider "dbl_is_nan x" | "dbl_is_infinite x" "\<not> dbl_is_nan x" | "dbl_is_finite x" "\<not> dbl_is_nan x" "\<not> dbl_is_infinite x"
    using dbl_class[of x] finite_not_infinite[of x] by blast
  then have "dbl_mul x (dbl_of_int 1) = x \<and> dbl_mul (dbl_of_int 1) x = x"
  proof cases
    case 1
    then show ?thesis using j by (simp add: dbl_mul_def js_number_def)
  next
    case 2
    then show ?thesis using o infinite_eta[of x] infinite_not_zero[of x] by (simp add: dbl_mul_def)
  next
    case 3
    then show ?thesis using o round_dbl_dval[of x] by (simp add: dbl_mul_def)
  qed
  then show "dbl_mul x (dbl_of_int 1) = x" "dbl_mul (dbl_of_int 1) x = x" by auto
qed

lemma dbl_sub_zero:
  assumes "js_number x"
  shows "dbl_sub x (mk_dbl False 0) = x"
proof -
  note o = zero_dbl finite_not_nan[OF zero_dbl(1)] finite_not_infinite[OF zero_dbl(1)]
  consider "dbl_is_nan x" | "dbl_is_infinite x" "\<not> dbl_is_nan x" | "dbl_is_finite x" "\<not> dbl_is_nan x" "\<not> dbl_is_infinite x"
    using dbl_class[of x] finite_not_infinite[of x] by blast
  then show ?thesis
  proof cases
    case 1
    then show ?thesis using assms by (simp add: dbl_sub_def js_number_def)
  next
    case 2
    then show ?thesis using o by (simp add: dbl_sub_def)
  next
    case 3
    then show ?thesis using o round_dbl_dval[of x] by (simp add: dbl_sub_def)
  qed
qed

lemma int32_number_facts:
  assumes "int32_number x"
  shows "dbl_is_finite x" "dbl_mag x = 0 \<Longrightarrow> x = mk_dbl False 0" "js_number x"
proof -
  obtain i :: i32 where i: "x = dbl_of_int (sint i)" using assms by (auto simp: int32_number_def)
  have "\<bar>sint i\<bar> < 2 ^ 53" using sint_greater_eq[of i] sint_less[of i] by auto
  note d = dbl_of_int_simps[OF this]
  show "dbl_is_finite x" unfolding i by (rule d)
  then show "js_number x" by (simp add: js_number_def finite_not_nan)
  assume "dbl_mag x = 0"
  then have "(of_int (sint i) :: rat) = 0" using d(2) dval_eq_0_iff[of x] by (simp only: i)
  then have "sint i = 0" by (simp only: of_int_eq_0_iff)
  then show "x = mk_dbl False 0" unfolding i by (simp only: dbl_of_int_0)
qed

lemma dbl_add_zero:
  assumes "int32_number x"
  shows "dbl_add x (mk_dbl False 0) = x" "dbl_add (mk_dbl False 0) x = x"
proof -
  note f = int32_number_facts[OF assms]
  have "dbl_add x (mk_dbl False 0) = round_dbl False (dval x)" "dbl_add (mk_dbl False 0) x = round_dbl False (dval x)"
    using f(1) zero_dbl by (simp_all add: dbl_add_def finite_not_nan finite_not_infinite)
  moreover have "round_dbl False (dval x) = x"
  proof (cases "dbl_mag x = 0")
    case True
    then show ?thesis using f(2) dval_eq_0_iff[of x] by (simp add: round_dbl_def)
  next
    case False
    then show ?thesis using round_dbl_dval[OF f(1)] dval_eq_0_iff[of x] by (simp add: round_dbl_def)
  qed
  ultimately show "dbl_add x (mk_dbl False 0) = x" "dbl_add (mk_dbl False 0) x = x" by simp_all
qed

subsection \<open>Soundness of folding\<close>

text \<open>An assignment of numbers to nodes that respects constants and value numbers.\<close>

definition env_ok :: "nodes \<Rightarrow> attrs \<Rightarrow> bool \<Rightarrow> (nat \<Rightarrow> double) \<Rightarrow> bool" where
  "env_ok h a useGVN env \<longleftrightarrow>
     (\<forall>k. isConstant h k \<longrightarrow> toNumber (ma_value (a k)) = Some (env k)) \<and>
     (\<forall>j k. EqualValues h a useGVN j k = Some True \<longrightarrow> env j = env k)"

lemma IsConstant_env:
  "env_ok h a u env \<Longrightarrow> IsConstant h a k v = Some (isConstant h k \<and> dbl_eq (env k) v)"
  by (auto simp: IsConstant_def env_ok_def)

definition bitwise_op :: "Opcode \<Rightarrow> bool" where
  "bitwise_op opc \<longleftrightarrow> opc \<in> {Op_BitAnd, Op_BitOr, Op_BitXor, Op_Lsh, Op_Rsh, Op_Ursh}"

lemma es5_zero [simp]: "es5_ToInt32 (mk_dbl False 0) = 0"
  using es5_ToInt32_of_int[of 0] by (simp add: dbl_of_int_0)

lemma int32_number_self: "int32_number x \<Longrightarrow> dbl_of_int (sint (es5_ToInt32 x)) = x"
  by (auto simp: int32_number_def)

lemma EvaluateConstantOperands_int:
  assumes "bitwise_op (mn_op (h n))" "getOperand h n 0 = Some l" "getOperand h n 1 = Some r"
    and "isConstant h l \<longrightarrow> (\<exists>i. ma_value (a l) = VInt32 i)" "isConstant h r \<longrightarrow> (\<exists>i. ma_value (a r) = VInt32 i)"
  shows "\<exists>res. EvaluateConstantOperands dii h a n = Some res \<and> (res \<noteq> None \<longrightarrow> isConstant h l \<and> isConstant h r)"
  using assms by (auto simp: EvaluateConstantOperands_def bitwise_op_def evaluate_op_def eval_int_def)

lemma EqualValues_placed:
  assumes "mn_block (h l) \<noteq> None" "mn_block (h r) \<noteq> None"
  shows "\<exists>e. EqualValues h a useGVN l r = Some e"
  using assms by (auto simp: EqualValues_def def_id_def valueNumber_def)

lemma foldIfZero_sound:
  assumes "bitwise_op (mn_op (h n))" "getOperand h n 0 = Some l" "getOperand h n 1 = Some r"
    and "int32_number (env l)" "int32_number (env r)"
    and "k = 0 \<and> env l = mk_dbl False 0 \<or> k = 1 \<and> env r = mk_dbl False 0"
  shows "\<exists>res. foldIfZero h n k = Some res \<and>
    fold_value env (js_op (mn_op (h n)) (env l) (env r)) res = Some (js_op (mn_op (h n)) (env l) (env r))"
  using assms int32_number_self[OF assms(4)] int32_number_self[OF assms(5)]
  by (auto simp: bitwise_op_def foldIfZero_def dbl_of_int_0)

lemma foldIfEqual_sound:
  assumes "bitwise_op (mn_op (h n))" "getOperand h n 0 = Some l" "getOperand h n 1 = Some r"
    and "int32_number (env l)" "env l = env r"
  shows "\<exists>res. foldIfEqual h n = Some res \<and>
    fold_value env (js_op (mn_op (h n)) (env l) (env r)) res = Some (js_op (mn_op (h n)) (env l) (env r))"
  using assms int32_number_self[OF assms(4)] by (auto simp: bitwise_op_def foldIfEqual_def)

text \<open>
  C32: folding a bitwise instruction on int32 operands that have been placed in a block never
  fails an assertion and keeps its value: the constant, operand or instruction that replaces it
  stands for the number the JavaScript operator gives, for every assignment of numbers to
  definitions under which equal value numbers (or ids) mean equal values. The exception is \<open>>>>\<close>
  of a negative constant by a constant multiple of 32. Operands outside every block are left
  out because \<open>id()\<close> and \<open>valueNumber()\<close> assert a block.
\<close>

theorem bitwise_fold_sound:
  assumes dii: "is_int32_spec dii" and opc: "bitwise_op (mn_op (h n))"
    and ops: "getOperand h n 0 = Some l" "getOperand h n 1 = Some r"
    and placed: "mn_block (h l) \<noteq> None" "mn_block (h r) \<noteq> None"
    and env: "env_ok h a useGVN env" "int32_number (env l)" "int32_number (env r)"
    and const: "isConstant h l \<longrightarrow> (\<exists>i. ma_value (a l) = VInt32 i)" "isConstant h r \<longrightarrow> (\<exists>i. ma_value (a r) = VInt32 i)"
    and ursh: "\<not> (mn_op (h n) = Op_Ursh \<and> isConstant h l \<and> isConstant h r
                 \<and> sint (es5_ToInt32 (env l)) < 0 \<and> es5_ToInt32 (env r) AND 0x1F = 0)"
  shows "\<exists>res. MBinaryBitwiseInstruction_foldsTo dii useGVN h a n = Some res \<and>
    fold_value env (js_op (mn_op (h n)) (env l) (env r)) res = Some (js_op (mn_op (h n)) (env l) (env r))"
proof (cases "ma_specialization (a n) = MIRType_Int32")
  case spec: True
  obtain ev where ev: "EvaluateConstantOperands dii h a n = Some ev" "ev \<noteq> None \<longrightarrow> isConstant h l \<and> isConstant h r"
    using EvaluateConstantOperands_int[OF opc ops const] by blast
  note ic = IsConstant_env[OF env(1)]
  show ?thesis
  proof (cases ev)
    case (Some v)
    then have c: "isConstant h l" "isConstant h r" using ev(2) by auto
    then have num: "toNumber (ma_value (a l)) = Some (env l)" "toNumber (ma_value (a r)) = Some (env r)"
      using env(1) by (auto simp: env_ok_def)
    have "toNumber v = Some (js_op (mn_op (h n)) (env l) (env r))"
      by (rule conjunct1[OF EvaluateConstantOperands_sound[OF dii ops _ num]]) (use ev Some ursh c in auto)
    then show ?thesis using spec ops ev Some by (simp add: MBinaryBitwiseInstruction_foldsTo_def)
  next
    case None
    have z: "dbl_eq (env k) (mk_dbl False 0) \<longleftrightarrow> env k = mk_dbl False 0" if "int32_number (env k)" for k
      using int32_number_facts(2)[OF that] by (auto simp: dbl_eq_zero)
    obtain e where eqv: "EqualValues h a useGVN l r = Some e" using EqualValues_placed[OF placed] by blast
    have eq: "env l = env r" if "e" using env(1) eqv that by (auto simp: env_ok_def)
    consider "isConstant h l \<and> env l = mk_dbl False 0" | "\<not> (isConstant h l \<and> env l = mk_dbl False 0)" "isConstant h r \<and> env r = mk_dbl False 0"
      | "\<not> (isConstant h l \<and> env l = mk_dbl False 0)" "\<not> (isConstant h r \<and> env r = mk_dbl False 0)" by blast
    then show ?thesis
    proof cases
      case 1
      then show ?thesis using foldIfZero_sound[OF opc ops env(2,3), of 0] spec ops ev None ic z env
        by (simp add: MBinaryBitwiseInstruction_foldsTo_def)
    next
      case 2
      then show ?thesis using foldIfZero_sound[OF opc ops env(2,3), of 1] spec ops ev None ic z env
        by (auto simp: MBinaryBitwiseInstruction_foldsTo_def)
    next
      case 3
      then show ?thesis using foldIfEqual_sound[where env = env, OF opc ops env(2)] eq eqv spec ops ev None ic z env
        by (auto simp: MBinaryBitwiseInstruction_foldsTo_def)
    qed
  qed
qed (simp add: MBinaryBitwiseInstruction_foldsTo_def)

text \<open>
  C33: folding an addition, subtraction or multiplication never fails an assertion and keeps its
  value, on int32 operands and, for double operands, unless a negative zero is subtracted.
\<close>

theorem arith_fold_sound:
  assumes dii: "is_int32_spec dii" and opc: "mn_op (h n) \<in> {Op_Add, Op_Sub, Op_Mul}"
    and ops: "getOperand h n 0 = Some l" "getOperand h n 1 = Some r"
    and env: "env_ok h a useGVN env" "js_number (env l)" "js_number (env r)"
    and int: "ma_specialization (a n) = MIRType_Int32 \<longrightarrow> int32_number (env l) \<and> int32_number (env r)"
    and sub: "mn_op (h n) = Op_Sub \<longrightarrow> env r \<noteq> mk_dbl True 0"
  shows "\<exists>res. MBinaryArithInstruction_foldsTo dii h a n = Some res \<and>
    fold_value env (js_op (mn_op (h n)) (env l) (env r)) res = Some (js_op (mn_op (h n)) (env l) (env r))"
proof (cases "ma_specialization (a n) = MIRType_None")
  case spec: False
  let ?op = "mn_op (h n)"
  have num: "toNumber (ma_value (a k)) = Some (env k)" if "isConstant h k" for k using that env(1) by (auto simp: env_ok_def)
  have "\<exists>ev. EvaluateConstantOperands dii h a n = Some ev \<and> (ev \<noteq> None \<longrightarrow> isConstant h l \<and> isConstant h r)"
    using ops opc num[of l] num[of r] by (auto simp: EvaluateConstantOperands_def evaluate_op_def eval_num_def)
  then obtain ev where ev: "EvaluateConstantOperands dii h a n = Some ev" "ev \<noteq> None \<longrightarrow> isConstant h l \<and> isConstant h r" by blast
  note ic = IsConstant_env[OF env(1)]
  show ?thesis
  proof (cases ev)
    case (Some v)
    then have "toNumber v = Some (js_op ?op (env l) (env r))"
      using ev num opc by (intro conjunct1[OF EvaluateConstantOperands_sound[OF dii ops]]) auto
    then show ?thesis using spec ops ev Some by (simp add: MBinaryArithInstruction_foldsTo_def)
  next
    case None
    have one: "dbl_eq (env k) (dbl_of_int 1) \<Longrightarrow> env k = dbl_of_int 1" for k using dbl_eq_nonzero one_val(4) by blast
    have zero: "env k = mk_dbl False 0" if "dbl_eq (env k) (dbl_of_int 0)" "env k \<noteq> mk_dbl True 0" for k
      using that mk_dbl_eta[of "env k"] unfolding dbl_of_int_0 dbl_eq_zero by (cases "dbl_negative (env k)") simp_all
    have nz: "int32_number (env k) \<Longrightarrow> env k \<noteq> mk_dbl True 0" for k
      using int32_number_facts(2)[of "env k"] mk_dbl_simps(1)[of 0 True] mk_dbl_simps(1)[of 0 False] by fastforce
    from opc consider "?op = Op_Add" | "?op = Op_Sub" | "?op = Op_Mul" by auto
    then show ?thesis
    proof cases
      case 1
      have "int32_number (env l) \<Longrightarrow> dbl_eq (env l) (dbl_of_int 0) \<Longrightarrow> dbl_add (env l) x = x" if "int32_number x" for x
        using zero[of l] nz[of l] dbl_add_zero(2)[OF that] by simp
      moreover have "int32_number (env r) \<Longrightarrow> dbl_eq (env r) (dbl_of_int 0) \<Longrightarrow> dbl_add x (env r) = x" if "int32_number x" for x
        using zero[of r] nz[of r] dbl_add_zero(1)[OF that] by simp
      ultimately show ?thesis using 1 spec ops ev None ic int
        by (simp add: MBinaryArithInstruction_foldsTo_def)
    next
      case 2
      then show ?thesis using spec ops ev None ic sub zero dbl_sub_zero[OF env(2)]
        by (auto simp: MBinaryArithInstruction_foldsTo_def)
    next
      case 3
      have "dbl_eq (env l) (dbl_of_int 1) \<Longrightarrow> dbl_mul (env l) (env r) = env r"
        "dbl_eq (env r) (dbl_of_int 1) \<Longrightarrow> dbl_mul (env l) (env r) = env l"
        using dbl_mul_one(2)[OF env(3)] one[of l] dbl_mul_one(1)[OF env(2)] one[of r] by auto
      then show ?thesis using 3 spec ops ev None ic by (simp add: MBinaryArithInstruction_foldsTo_def)
    qed
  qed
qed (simp add: MBinaryArithInstruction_foldsTo_def)

subsection \<open>Examples\<close>

text \<open>A binary instruction at address 2 with the operands at 0 and 1, constants where values are given.\<close>

definition ex_node :: "Opcode \<Rightarrow> nat option list \<Rightarrow> MIRType \<Rightarrow> nat \<Rightarrow> mnode" where
  "ex_node opc ops ty k = \<lparr>mn_kind = Definition, mn_op = opc, mn_block = Some 0, mn_operands = ops, mn_uses = [],
     mn_id = k, mn_type = ty, mn_flags = 0, mn_dependency = None, mn_slot = 0, mn_caller = None,
     mn_mode = ResumeAt, mn_pc = 0\<rparr>"

definition ex_nodes :: "Opcode \<Rightarrow> MIRType \<Rightarrow> bool \<Rightarrow> bool \<Rightarrow> nodes" where
  "ex_nodes opc ty lc rc = (\<lambda>k. ex_node
     (if k = 2 then opc else if (if k = 0 then lc else rc) then Op_Constant else Op_Parameter)
     (if k = 2 then [Some 0, Some 1] else []) ty k)"

definition ex_attrs :: "MIRType \<Rightarrow> js_value \<Rightarrow> js_value \<Rightarrow> attrs" where
  "ex_attrs ty l r = (\<lambda>k. \<lparr>ma_value = (if k = 0 then l else r), ma_specialization = ty,
     ma_canBeNegativeZero = True, ma_canBeNegativeOverflow = True, ma_canBeDivideByZero = True,
     ma_canOverflow = True, ma_implicitTruncate = False, ma_valueNumber = of_nat k, ma_inputType = ty,
     ma_successors = (0, 0), ma_aliasSet = 0, ma_minimum = 0, ma_maximum = 0\<rparr>)"

lemma ex_simps [simp]:
  "getOperand (ex_nodes opc ty lc rc) 2 0 = Some 0" "getOperand (ex_nodes opc ty lc rc) 2 1 = Some 1"
  "getOperand (ex_nodes opc ty lc rc) 2 (Suc 0) = Some 1"
  "mn_op (ex_nodes opc ty lc rc 2) = opc" "mn_type (ex_nodes opc ty lc rc k) = ty"
  "isConstant (ex_nodes opc ty lc rc) 0 = lc" "isConstant (ex_nodes opc ty lc rc) 1 = rc"
  "isConstant (ex_nodes opc ty lc rc) (Suc 0) = rc"
  "ma_value (ex_attrs ty' l r 0) = l" "ma_value (ex_attrs ty' l r 1) = r" "ma_value (ex_attrs ty' l r (Suc 0)) = r"
  "ma_specialization (ex_attrs ty' l r k) = ty'" "mn_id (ex_nodes opc ty lc rc k) = k"
  by (simp_all add: ex_nodes_def ex_attrs_def ex_node_def isConstant_def getOperand_def numOperands_def)

lemma ex_placed: "mn_block (ex_nodes opc ty lc rc k) \<noteq> None"
  by (simp add: ex_nodes_def ex_node_def)

lemma isConstant_ex: "isConstant (ex_nodes opc ty lc rc) k \<longleftrightarrow>
    (if k = 2 then opc = Op_Constant else if k = 0 then lc else rc)"
  by (simp add: ex_nodes_def ex_node_def isConstant_def)

text \<open>The concrete \<open>MOZ_DOUBLE_IS_INT32\<close> of the examples.\<close>

definition ex_dii :: "double \<Rightarrow> i32 option" where
  "ex_dii d = (if d = dbl_of_int (sint (es5_ToInt32 d)) then Some (es5_ToInt32 d) else None)"

lemma ex_dii_spec: "is_int32_spec ex_dii"
  using es5_ToInt32_of_int by (auto simp: is_int32_spec_def ex_dii_def)

definition ex_env :: "double \<Rightarrow> double \<Rightarrow> nat \<Rightarrow> double" where
  "ex_env x y k = (if k = 0 then x else y)"

lemma ex_env_simps: "ex_env x y 0 = x" "ex_env x y 1 = y"
  by (simp_all add: ex_env_def)

theorem bitwise_fold_sound_witness:
  "\<exists>res. MBinaryBitwiseInstruction_foldsTo ex_dii False (ex_nodes Op_BitOr MIRType_Int32 False True)
       (ex_attrs MIRType_Int32 VUndefined (VInt32 0)) 2 = Some res \<and>
     fold_value (ex_env (dbl_of_int 7) (dbl_of_int 0)) (js_op Op_BitOr (dbl_of_int 7) (dbl_of_int 0)) res
     = Some (js_op Op_BitOr (dbl_of_int 7) (dbl_of_int 0))"
proof -
  let ?h = "ex_nodes Op_BitOr MIRType_Int32 False True" let ?a = "ex_attrs MIRType_Int32 VUndefined (VInt32 0)"
  let ?env = "ex_env (dbl_of_int 7) (dbl_of_int 0)"
  have env: "env_ok ?h ?a False ?env" by (auto simp: env_ok_def EqualValues_def def_id_def isConstant_ex ex_attrs_def ex_env_def split: if_splits)
  have "int32_number (dbl_of_int 7)" "int32_number (dbl_of_int 0)"
    unfolding int32_number_def by (rule exI[of _ 7], simp) (rule exI[of _ 0], simp)
  then have "\<exists>res. MBinaryBitwiseInstruction_foldsTo ex_dii False ?h ?a 2 = Some res \<and>
     fold_value ?env (js_op (mn_op (?h 2)) (?env 0) (?env 1)) res = Some (js_op (mn_op (?h 2)) (?env 0) (?env 1))"
    by (intro bitwise_fold_sound[OF ex_dii_spec _ _ _ _ _ env]) (simp_all add: bitwise_op_def ex_env_def ex_placed)
  then show ?thesis by (simp only: ex_simps ex_env_simps)
qed

theorem arith_fold_sound_witness:
  "\<exists>res. MBinaryArithInstruction_foldsTo ex_dii (ex_nodes Op_Sub MIRType_Double False True)
       (ex_attrs MIRType_Double VUndefined (VInt32 0)) 2 = Some res \<and>
     fold_value (ex_env (mk_dbl True 0) (dbl_of_int 0)) (js_op Op_Sub (mk_dbl True 0) (dbl_of_int 0)) res
     = Some (js_op Op_Sub (mk_dbl True 0) (dbl_of_int 0))"
proof -
  let ?h = "ex_nodes Op_Sub MIRType_Double False True" let ?a = "ex_attrs MIRType_Double VUndefined (VInt32 0)"
  let ?env = "ex_env (mk_dbl True 0) (dbl_of_int 0)"
  have env: "env_ok ?h ?a False ?env" by (auto simp: env_ok_def EqualValues_def def_id_def isConstant_ex ex_attrs_def ex_env_def split: if_splits)
  have j: "js_number (mk_dbl s 0)" for s by (simp add: js_number_def dbl_is_nan_def)
  have "mk_dbl False 0 \<noteq> mk_dbl True 0" using mk_dbl_simps(1)[of 0 True] mk_dbl_simps(1)[of 0 False] by force
  then have "\<exists>res. MBinaryArithInstruction_foldsTo ex_dii ?h ?a 2 = Some res \<and>
     fold_value ?env (js_op (mn_op (?h 2)) (?env 0) (?env 1)) res = Some (js_op (mn_op (?h 2)) (?env 0) (?env 1))"
    using j by (intro arith_fold_sound[OF ex_dii_spec _ _ _ env]) (simp_all add: ex_env_def dbl_of_int_0)
  then show ?thesis by (simp only: ex_simps ex_env_simps)
qed

text \<open>
  C34: four folds change the value of an expression. \<open>0 / x\<close> is folded to 0, but is \<open>-0\<close> for
  \<open>x = -1\<close>; \<open>0 % x\<close> is folded to 0, but is NaN for \<open>x = 0\<close>; \<open>x - (-0)\<close> is folded to \<open>x\<close>, but is 0 for
  \<open>x = -0\<close>; and \<open>-1 >>> 32\<close> is folded to \<open>-1\<close>, but is 4294967295.
\<close>

theorem folds_that_change_values:
  "MDiv_foldsTo dii (ex_nodes Op_Div MIRType_Double True False) (ex_attrs MIRType_Double (VInt32 0) r) 2 = Some (To 0)
   \<and> js_op Op_Div (dbl_of_int 0) (dbl_of_int (-1)) = mk_dbl True 0
   \<and> MMod_foldsTo dii (ex_nodes Op_Mod MIRType_Int32 True False) (ex_attrs MIRType_Int32 (VInt32 0) r) 2 = Some (To 0)
   \<and> js_op Op_Mod (dbl_of_int 0) (dbl_of_int 0) = dbl_nan
   \<and> MBinaryArithInstruction_foldsTo dii (ex_nodes Op_Sub MIRType_Double False True)
       (ex_attrs MIRType_Double l (VDouble (mk_dbl True 0))) 2 = Some (To 0)
   \<and> js_op Op_Sub (mk_dbl True 0) (mk_dbl True 0) = dbl_of_int 0
   \<and> MBinaryBitwiseInstruction_foldsTo dii useGVN (ex_nodes Op_Ursh MIRType_Int32 True True)
       (ex_attrs MIRType_Int32 (VInt32 (-1)) (VInt32 32)) 2 = Some (Const (VInt32 (-1)))
   \<and> js_op Op_Ursh (dbl_of_int (sint (-1 :: i32))) (dbl_of_int (sint (32 :: i32))) = dbl_of_int 4294967295"
proof (intro conjI)
  have z: "toNumber (VInt32 0) = Some (mk_dbl False 0)" by (simp add: dbl_of_int_0)
  have fz: "dbl_is_finite (mk_dbl s 0)" "dval (mk_dbl s 0) = 0" for s
    by (simp_all add: dbl_is_finite_def inf_mag_def dval_def)
  show "MDiv_foldsTo dii (ex_nodes Op_Div MIRType_Double True False) (ex_attrs MIRType_Double (VInt32 0) r) 2 = Some (To 0)"
    by (simp add: MDiv_foldsTo_def EvaluateConstantOperands_def IsConstant_def dbl_of_int_0)
  show "js_op Op_Div (dbl_of_int 0) (dbl_of_int (-1)) = mk_dbl True 0"
    using dbl_of_int_simps[of "-1"] dval_eq_0_iff[of "dbl_of_int (-1)"] fz
    by (simp add: dbl_of_int_0 dbl_div_def finite_not_nan finite_not_infinite round_dbl_def)
  show "MMod_foldsTo dii (ex_nodes Op_Mod MIRType_Int32 True False) (ex_attrs MIRType_Int32 (VInt32 0) r) 2 = Some (To 0)"
    by (simp add: MMod_foldsTo_def EvaluateConstantOperands_def dbl_of_int_0 TryFold_to_def dbl_eq_nan Let_def)
  show "js_op Op_Mod (dbl_of_int 0) (dbl_of_int 0) = dbl_nan"
    by (simp add: dbl_of_int_0 dbl_fmod_def)
  show "MBinaryArithInstruction_foldsTo dii (ex_nodes Op_Sub MIRType_Double False True)
       (ex_attrs MIRType_Double l (VDouble (mk_dbl True 0))) 2 = Some (To 0)"
    by (simp add: MBinaryArithInstruction_foldsTo_def EvaluateConstantOperands_def IsConstant_def dbl_of_int_0 dbl_eq_zero)
  show "js_op Op_Sub (mk_dbl True 0) (mk_dbl True 0) = dbl_of_int 0"
    using fz by (simp add: dbl_of_int_0 dbl_sub_def finite_not_nan finite_not_infinite round_dbl_def)
  show "MBinaryBitwiseInstruction_foldsTo dii useGVN (ex_nodes Op_Ursh MIRType_Int32 True True)
       (ex_attrs MIRType_Int32 (VInt32 (-1)) (VInt32 32)) 2 = Some (Const (VInt32 (-1)))"
    by (simp add: MBinaryBitwiseInstruction_foldsTo_def EvaluateConstantOperands_def evaluate_op_def eval_int_def)
  show "js_op Op_Ursh (dbl_of_int (sint (-1 :: i32))) (dbl_of_int (sint (32 :: i32))) = dbl_of_int 4294967295"
  proof -
    have "uint (-1 :: i32) = 4294967295" by code_simp
    then show ?thesis unfolding js_op.simps es5_ToInt32_of_int by simp
  qed
qed

end
