(* ===== verification/Snapshot_Iterator.thy ===== *)
theory Snapshot_Iterator
  imports Snapshots Stack_Slots Mir_Folding
begin

text \<open>
  \<open>SnapshotIterator\<close> of \<open>ion/IonFrames.cpp\<close> and the frame-slot readers of \<open>ion/IonFrames.h\<close>:
  turning the slots of a snapshot into values, from the saved registers (\<open>MachineState\<close>), the
  memory of the frame and the constant pool.

  Memory is a function from addresses to bytes. A word of the platform is loaded into 64 bits, a
  \<open>uintptr_t\<close> of 32 bits with its upper half zero. A saved register is \<open>None\<close> when \<open>MachineState\<close>
  holds no pointer for it; reading it would follow a null pointer, so it is the failing case of
  the model.
\<close>

record machine_state =
  ms_regs :: "nat \<Rightarrow> 64 word option"
  ms_fregs :: "nat \<Rightarrow> 64 word option"

text \<open>The frame of the iterator: \<open>fp_\<close>, the memory, \<open>machine_\<close> and the constants of \<open>ionScript_\<close>.\<close>

record snapshot_frame =
  sf_fp :: int
  sf_memory :: "int \<Rightarrow> u8"
  sf_machine :: machine_state
  sf_constants :: "js_value list"

fun load_bytes :: "(int \<Rightarrow> u8) \<Rightarrow> int \<Rightarrow> nat \<Rightarrow> 64 word" where
  "load_bytes mem addr 0 = 0"
| "load_bytes mem addr (Suc n) = ucast (mem addr) OR push_bit 8 (load_bytes mem (addr + 1) n)"

datatype snapshot_value =
    UndefinedValue
  | NullValue
  | BooleanValue bool
  | Int32Value i32
  | DoubleValue double
  | StringValue "64 word"
  | ObjectValue "64 word"
  | BoxedValue "64 word"
  | NunboxValue "64 word" "64 word"
  | PoolValue js_value

text \<open>
  \<open>IonJSFrameLayout\<close> holds a return address, a descriptor and a callee token. The offset is
  computed in wider arithmetic and returned as an \<open>int32\<close>, which is 32-bit arithmetic.
\<close>

definition sizeof_IonJSFrameLayout :: "arch \<Rightarrow> nat" where
  "sizeof_IonJSFrameLayout a = 3 * a_ptr a"

definition OffsetOfFrameSlot :: "arch \<Rightarrow> i32 \<Rightarrow> i32" where
  "OffsetOfFrameSlot a s =
     (if sint s \<le> 0 then of_nat (sizeof_IonJSFrameLayout a) + (- s)
      else - (s * of_nat (STACK_SLOT_SIZE a)))"

definition ReadFrameSlot :: "arch \<Rightarrow> snapshot_frame \<Rightarrow> i32 \<Rightarrow> 64 word" where
  "ReadFrameSlot a f s = load_bytes (sf_memory f) (sf_fp f + sint (OffsetOfFrameSlot a s)) (a_ptr a)"

definition ReadFrameDoubleSlot :: "arch \<Rightarrow> snapshot_frame \<Rightarrow> i32 \<Rightarrow> double" where
  "ReadFrameDoubleSlot a f s = load_bytes (sf_memory f) (sf_fp f + sint (OffsetOfFrameSlot a s)) 8"

text \<open>\<open>Location::reg\<close> and \<open>Location::stackSlot\<close>, with their assertions.\<close>

definition loc_getReg :: "location \<Rightarrow> nat option" where
  "loc_getReg l = do { js_assert (\<not> isStackSlot l); Some (loc_reg l) }"

definition loc_getStackSlot :: "location \<Rightarrow> i32 option" where
  "loc_getStackSlot l = do { js_assert (isStackSlot l); Some (loc_stackSlot l) }"

definition ms_hasReg :: "machine_state \<Rightarrow> nat \<Rightarrow> bool" where
  "ms_hasReg m r = (ms_regs m r \<noteq> None)"

definition ms_hasFloat :: "machine_state \<Rightarrow> nat \<Rightarrow> bool" where
  "ms_hasFloat m r = (ms_fregs m r \<noteq> None)"

definition hasLocation :: "snapshot_frame \<Rightarrow> location \<Rightarrow> bool option" where
  "hasLocation f l =
     (if isStackSlot l then do { r \<leftarrow> loc_getReg l; Some (ms_hasReg (sf_machine f) r) }
      else Some False)"

definition fromLocation :: "arch \<Rightarrow> snapshot_frame \<Rightarrow> location \<Rightarrow> 64 word option" where
  "fromLocation a f l =
     (if isStackSlot l then do { s \<leftarrow> loc_getStackSlot l; Some (ReadFrameSlot a f s) }
      else do { r \<leftarrow> loc_getReg l; ms_regs (sf_machine f) r })"

fun FromTypedPayload :: "JSValueType \<Rightarrow> 64 word \<Rightarrow> snapshot_value option" where
  "FromTypedPayload JSVAL_TYPE_INT32 p = Some (Int32Value (ucast p))"
| "FromTypedPayload JSVAL_TYPE_BOOLEAN p = Some (BooleanValue (p \<noteq> 0))"
| "FromTypedPayload JSVAL_TYPE_STRING p = Some (StringValue p)"
| "FromTypedPayload JSVAL_TYPE_OBJECT p = Some (ObjectValue p)"
| "FromTypedPayload _ p = None"

fun slotReadable :: "snapshot_frame \<Rightarrow> slot \<Rightarrow> bool option" where
  "slotReadable f (DOUBLE_REG r) = Some (ms_hasFloat (sf_machine f) r)"
| "slotReadable f (TYPED_REG t l) = do { r \<leftarrow> loc_getReg l; Some (ms_hasReg (sf_machine f) r) }"
| "slotReadable f (UNTYPED_NUNBOX t p) = do {
     ht \<leftarrow> hasLocation f t;
     if ht then hasLocation f p else Some False }"
| "slotReadable f (UNTYPED_PUNBOX l) = hasLocation f l"
| "slotReadable f _ = Some True"

fun slotValue :: "arch \<Rightarrow> snapshot_frame \<Rightarrow> slot \<Rightarrow> snapshot_value option" where
  "slotValue a f (DOUBLE_REG r) = map_option DoubleValue (ms_fregs (sf_machine f) r)"
| "slotValue a f (TYPED_REG t l) = do {
     r \<leftarrow> loc_getReg l; p \<leftarrow> ms_regs (sf_machine f) r; FromTypedPayload t p }"
| "slotValue a f (TYPED_STACK t l) = do {
     s \<leftarrow> loc_getStackSlot l;
     if t = JSVAL_TYPE_DOUBLE then Some (DoubleValue (ReadFrameDoubleSlot a f s))
     else FromTypedPayload t (ReadFrameSlot a f s) }"
| "slotValue a f (UNTYPED_NUNBOX t p) = do {
     tag \<leftarrow> fromLocation a f t; payload \<leftarrow> fromLocation a f p; Some (NunboxValue tag payload) }"
| "slotValue a f (UNTYPED_PUNBOX l) = map_option BoxedValue (fromLocation a f l)"
| "slotValue a f JS_UNDEFINED = Some UndefinedValue"
| "slotValue a f JS_NULL = Some NullValue"
| "slotValue a f (JS_INT32 v) = Some (Int32Value v)"
| "slotValue a f (CONSTANT i) = do {
     js_assert (unat i < length (sf_constants f));
     Some (PoolValue (sf_constants f ! unat i)) }"

text \<open>\<open>maybeRead\<close>: the value of a readable slot; any other slot runs into \<open>JS_NOT_REACHED\<close>.\<close>

definition maybeRead :: "arch \<Rightarrow> snapshot_frame \<Rightarrow> slot \<Rightarrow> snapshot_value option" where
  "maybeRead a f s = do {
     ok \<leftarrow> slotReadable f s;
     if ok then slotValue a f s else None }"

lemma location_cases [simp]:
  "\<not> isStackSlot (Location_FromReg r)" "loc_getReg (Location_FromReg r) = Some r"
  "isStackSlot (Location_FromStack s) \<longleftrightarrow> s \<noteq> -1"
  "loc_getStackSlot (Location_FromStack s) = (if s \<noteq> -1 then Some s else None)"
  by (auto simp: isStackSlot_def Location_FromReg_def Location_FromStack_def INVALID_STACK_SLOT_def
      loc_getReg_def loc_getStackSlot_def)

text \<open>
  C13: \<open>hasLocation\<close> combines its two tests with "and" where one of them excludes the other:
  it answers false for a register that was saved, and it trips the assertion of
  \<open>Location::reg\<close> for every stack slot. So \<open>maybeRead\<close> of a boxed value, in a saved register
  or on the stack, never returns, although \<open>slotValue\<close> can read both.
\<close>

theorem hasLocation_never_true:
  "hasLocation f l \<noteq> Some True \<and>
   (\<forall>s. s \<noteq> -1 \<longrightarrow> maybeRead a f (UNTYPED_PUNBOX (Location_FromStack s)) = None \<and>
      slotValue a f (UNTYPED_PUNBOX (Location_FromStack s)) = Some (BoxedValue (ReadFrameSlot a f s))) \<and>
   (\<forall>r v. ms_regs (sf_machine f) r = Some v \<longrightarrow>
      maybeRead a f (UNTYPED_PUNBOX (Location_FromReg r)) = None \<and>
      slotValue a f (UNTYPED_PUNBOX (Location_FromReg r)) = Some (BoxedValue v))"
proof -
  have "hasLocation f l \<noteq> Some True"
    by (simp add: hasLocation_def loc_getReg_def)
  moreover have "hasLocation f (Location_FromStack s) = None" if "s \<noteq> -1" for s
    using that by (simp add: hasLocation_def loc_getReg_def)
  moreover have "hasLocation f (Location_FromReg r) = Some False" for r
    by (simp add: hasLocation_def)
  ultimately show ?thesis by (simp add: maybeRead_def fromLocation_def)
qed

theorem hasLocation_never_true_witness:
  "maybeRead (arch_x64 False) \<lparr>sf_fp = 4096, sf_memory = (\<lambda>a. 7),
      sf_machine = \<lparr>ms_regs = (\<lambda>r. Some 5), ms_fregs = (\<lambda>r. None)\<rparr>, sf_constants = []\<rparr>
     (UNTYPED_PUNBOX (Location_FromReg 3)) = None \<and>
   slotValue (arch_x64 False) \<lparr>sf_fp = 4096, sf_memory = (\<lambda>a. 7),
      sf_machine = \<lparr>ms_regs = (\<lambda>r. Some 5), ms_fregs = (\<lambda>r. None)\<rparr>, sf_constants = []\<rparr>
     (UNTYPED_PUNBOX (Location_FromReg 3)) = Some (BoxedValue 5)"
  using hasLocation_never_true[of "\<lparr>sf_fp = 4096, sf_memory = (\<lambda>a. 7),
      sf_machine = \<lparr>ms_regs = (\<lambda>r. Some 5), ms_fregs = (\<lambda>r. None)\<rparr>, sf_constants = []\<rparr>" "Location_FromReg 3" "arch_x64 False"]
  by simp

end
