(* ===== verification/Lir.thy ===== *)
theory Lir
  imports Mir_Types
begin

text \<open>
  The packed operands and definitions of LIR (\<open>ion/LIR.h\<close>): \<open>LAllocation\<close> and its subclasses
  \<open>LUse\<close>, \<open>LGeneralReg\<close>, \<open>LFloatReg\<close>, \<open>LConstantIndex\<close>, \<open>LStackSlot\<close> and \<open>LArgument\<close>, and
  \<open>LDefinition\<close>.

  \<open>bits_\<close> of an allocation is a \<open>uintptr_t\<close>; the definitions are polymorphic in the width, so
  that the facts hold for 32 and 64-bit pointers. Everything is a shift and a mask of that
  word as in the code: \<open>data()\<close> shifts the low 32 bits arithmetically, \<open>setData\<close> sign-extends.
\<close>

subsection \<open>Allocations\<close>

datatype alloc_kind = USE | CONSTANT_VALUE | CONSTANT_INDEX | GPR | FPU | STACK_SLOT | DOUBLE_SLOT
  | ARGUMENT

fun alloc_kind_code :: "alloc_kind \<Rightarrow> u32" where
  "alloc_kind_code USE = 0"
| "alloc_kind_code CONSTANT_VALUE = 1"
| "alloc_kind_code CONSTANT_INDEX = 2"
| "alloc_kind_code GPR = 3"
| "alloc_kind_code FPU = 4"
| "alloc_kind_code STACK_SLOT = 5"
| "alloc_kind_code DOUBLE_SLOT = 6"
| "alloc_kind_code ARGUMENT = 7"

definition alloc_kind_of :: "nat \<Rightarrow> alloc_kind" where
  "alloc_kind_of n = [USE, CONSTANT_VALUE, CONSTANT_INDEX, GPR, FPU, STACK_SLOT, DOUBLE_SLOT, ARGUMENT] ! (n mod 8)"

abbreviation (input) "TAG_MASK \<equiv> 1"
abbreviation (input) "KIND_SHIFT \<equiv> 1 :: nat"
abbreviation (input) "KIND_BITS \<equiv> 3 :: nat"
abbreviation (input) "DATA_SHIFT \<equiv> 4 :: nat"
abbreviation (input) "DATA_BITS \<equiv> 28 :: nat"

definition isTagged :: "'a::len word \<Rightarrow> bool" where
  "isTagged bits \<longleftrightarrow> bits AND TAG_MASK \<noteq> 0"

definition la_kind :: "'a::len word \<Rightarrow> alloc_kind" where
  "la_kind bits =
     (if isTagged bits then CONSTANT_VALUE
      else alloc_kind_of (unat (drop_bit KIND_SHIFT bits AND mask KIND_BITS)))"

definition la_data :: "'a::len word \<Rightarrow> i32" where
  "la_data bits = signed_drop_bit DATA_SHIFT (ucast bits :: i32)"

definition DATA_MASK_int :: int where "DATA_MASK_int = 2 ^ DATA_BITS - 1"

definition setData :: "i32 \<Rightarrow> 'a::len word \<Rightarrow> 'a word option" where
  "setData d bits = do {
     js_assert (sint d \<le> DATA_MASK_int);
     Some (bits AND NOT (push_bit DATA_SHIFT (mask DATA_BITS)) OR scast (push_bit DATA_SHIFT d)) }"

definition la_pack :: "alloc_kind \<Rightarrow> u32 \<Rightarrow> u32" where
  "la_pack k d = push_bit KIND_SHIFT (alloc_kind_code k) OR push_bit DATA_SHIFT d"

definition setKindAndData :: "alloc_kind \<Rightarrow> u32 \<Rightarrow> 'a::len word option" where
  "setKindAndData k d = do {
     js_assert (sint d \<le> DATA_MASK_int);
     Some (ucast (la_pack k d)) }"

definition LAllocation_value :: "'a::len word \<Rightarrow> 'a word option" where
  "LAllocation_value vp = do { js_assert (\<not> isTagged vp); Some (vp OR TAG_MASK) }"

definition la_toConstant :: "'a::len word \<Rightarrow> 'a word option" where
  "la_toConstant bits = do { js_assert (la_kind bits = CONSTANT_VALUE); Some (bits AND NOT TAG_MASK) }"

definition la_isUse :: "'a::len word \<Rightarrow> bool" where "la_isUse b \<longleftrightarrow> la_kind b = USE"
definition la_isConstantValue :: "'a::len word \<Rightarrow> bool" where "la_isConstantValue b \<longleftrightarrow> la_kind b = CONSTANT_VALUE"
definition la_isConstantIndex :: "'a::len word \<Rightarrow> bool" where "la_isConstantIndex b \<longleftrightarrow> la_kind b = CONSTANT_INDEX"
definition la_isConstant :: "'a::len word \<Rightarrow> bool" where "la_isConstant b \<longleftrightarrow> la_isConstantValue b \<or> la_isConstantIndex b"
definition la_isGeneralReg :: "'a::len word \<Rightarrow> bool" where "la_isGeneralReg b \<longleftrightarrow> la_kind b = GPR"
definition la_isFloatReg :: "'a::len word \<Rightarrow> bool" where "la_isFloatReg b \<longleftrightarrow> la_kind b = FPU"
definition la_isStackSlot :: "'a::len word \<Rightarrow> bool" where "la_isStackSlot b \<longleftrightarrow> la_kind b = STACK_SLOT \<or> la_kind b = DOUBLE_SLOT"
definition la_isArgument :: "'a::len word \<Rightarrow> bool" where "la_isArgument b \<longleftrightarrow> la_kind b = ARGUMENT"
definition la_isRegister :: "'a::len word \<Rightarrow> bool" where "la_isRegister b \<longleftrightarrow> la_isGeneralReg b \<or> la_isFloatReg b"
definition la_isMemory :: "'a::len word \<Rightarrow> bool" where "la_isMemory b \<longleftrightarrow> la_isStackSlot b \<or> la_isArgument b"
definition la_isDouble :: "'a::len word \<Rightarrow> bool" where "la_isDouble b \<longleftrightarrow> la_kind b = DOUBLE_SLOT \<or> la_kind b = FPU"

lemmas la_tests = la_isUse_def la_isConstantValue_def la_isConstantIndex_def la_isConstant_def
  la_isGeneralReg_def la_isFloatReg_def la_isStackSlot_def la_isArgument_def la_isRegister_def
  la_isMemory_def la_isDouble_def

text \<open>The constructors of the subclasses, and their accessors behind the checked casts.\<close>

definition LGeneralReg :: "nat \<Rightarrow> 'a::len word option" where
  "LGeneralReg r = setKindAndData GPR (of_nat r)"

definition LFloatReg :: "nat \<Rightarrow> 'a::len word option" where
  "LFloatReg r = setKindAndData FPU (of_nat r)"

definition LConstantIndex :: "u32 \<Rightarrow> 'a::len word option" where
  "LConstantIndex i = setKindAndData CONSTANT_INDEX i"

definition LStackSlot :: "u32 \<Rightarrow> bool \<Rightarrow> 'a::len word option" where
  "LStackSlot s isDouble = setKindAndData (if isDouble then DOUBLE_SLOT else STACK_SLOT) s"

definition LArgument :: "i32 \<Rightarrow> 'a::len word option" where
  "LArgument i = setKindAndData ARGUMENT i"

definition toGeneralReg :: "'a::len word \<Rightarrow> nat option" where
  "toGeneralReg b = do { js_assert (la_isGeneralReg b); Some (unat (la_data b)) }"

definition toFloatReg :: "'a::len word \<Rightarrow> nat option" where
  "toFloatReg b = do { js_assert (la_isFloatReg b); Some (unat (la_data b)) }"

definition toConstantIndex :: "'a::len word \<Rightarrow> u32 option" where
  "toConstantIndex b = do { js_assert (la_isConstantIndex b); Some (la_data b) }"

definition toStackSlot :: "'a::len word \<Rightarrow> u32 option" where
  "toStackSlot b = do { js_assert (la_isStackSlot b); Some (la_data b) }"

definition toArgument :: "'a::len word \<Rightarrow> i32 option" where
  "toArgument b = do { js_assert (la_isArgument b); Some (la_data b) }"

subsection \<open>Uses of virtual registers\<close>

datatype use_policy = ANY | REGISTER | FIXED | KEEPALIVE

fun use_policy_code :: "use_policy \<Rightarrow> u32" where
  "use_policy_code ANY = 0"
| "use_policy_code REGISTER = 1"
| "use_policy_code FIXED = 2"
| "use_policy_code KEEPALIVE = 3"

text \<open>The cast of three bits to the enumeration; codes 4 to 7 name no policy.\<close>

definition use_policy_of :: "nat \<Rightarrow> use_policy option" where
  "use_policy_of n = (if n < 4 then Some ([ANY, REGISTER, FIXED, KEEPALIVE] ! n) else None)"

abbreviation (input) "POLICY_BITS \<equiv> 3 :: nat"
abbreviation (input) "REG_SHIFT \<equiv> 3 :: nat"
abbreviation (input) "REG_BITS \<equiv> 5 :: nat"
abbreviation (input) "USED_AT_START_SHIFT \<equiv> 8 :: nat"
abbreviation (input) "VREG_SHIFT \<equiv> 9 :: nat"
abbreviation (input) "VREG_BITS \<equiv> 19 :: nat"

definition lu_fields :: "use_policy \<Rightarrow> u32 \<Rightarrow> bool \<Rightarrow> u32" where
  "lu_fields policy reg usedAtStart =
     use_policy_code policy OR push_bit REG_SHIFT reg OR
     push_bit USED_AT_START_SHIFT (if usedAtStart then 1 else 0)"

definition lu_set :: "use_policy \<Rightarrow> u32 \<Rightarrow> bool \<Rightarrow> 'a::len word option" where
  "lu_set policy reg usedAtStart = setKindAndData USE (lu_fields policy reg usedAtStart)"

definition lu_vreg_data :: "u32 \<Rightarrow> u32 \<Rightarrow> u32" where
  "lu_vreg_data old index =
     (old AND NOT (push_bit VREG_SHIFT (mask VREG_BITS))) OR push_bit VREG_SHIFT index"

definition lu_setVirtualRegister :: "u32 \<Rightarrow> 'a::len word \<Rightarrow> 'a word option" where
  "lu_setVirtualRegister index b = do {
     js_assert (index < mask VREG_BITS);
     setData (lu_vreg_data (la_data b) index) b }"

definition LUse_vreg :: "u32 \<Rightarrow> use_policy \<Rightarrow> bool \<Rightarrow> 'a::len word option" where
  "LUse_vreg vreg policy usedAtStart = do {
     b \<leftarrow> lu_set policy 0 usedAtStart;
     lu_setVirtualRegister vreg b }"

definition LUse_fixed :: "nat \<Rightarrow> bool \<Rightarrow> 'a::len word option" where
  "LUse_fixed reg usedAtStart = lu_set FIXED (of_nat reg) usedAtStart"

definition LUse_fixed_vreg :: "nat \<Rightarrow> u32 \<Rightarrow> 'a::len word option" where
  "LUse_fixed_vreg reg vreg = do {
     b \<leftarrow> lu_set FIXED (of_nat reg) False;
     lu_setVirtualRegister vreg b }"

definition lu_policy :: "'a::len word \<Rightarrow> use_policy option" where
  "lu_policy b = use_policy_of (unat (la_data b AND mask POLICY_BITS))"

definition lu_virtualRegister :: "'a::len word \<Rightarrow> u32" where
  "lu_virtualRegister b = signed_drop_bit VREG_SHIFT (la_data b) AND mask VREG_BITS"

definition lu_registerCode :: "'a::len word \<Rightarrow> u32 option" where
  "lu_registerCode b = do {
     js_assert (lu_policy b = Some FIXED);
     Some (signed_drop_bit REG_SHIFT (la_data b) AND mask REG_BITS) }"

definition lu_isFixedRegister :: "'a::len word \<Rightarrow> bool" where
  "lu_isFixedRegister b \<longleftrightarrow> lu_policy b = Some FIXED"

definition lu_usedAtStart :: "'a::len word \<Rightarrow> bool" where
  "lu_usedAtStart b \<longleftrightarrow> signed_drop_bit USED_AT_START_SHIFT (la_data b) AND mask 1 \<noteq> 0"

subsection \<open>Definitions\<close>

datatype def_policy = DEFAULT | PRESET | MUST_REUSE_INPUT | PASSTHROUGH

fun def_policy_code :: "def_policy \<Rightarrow> u32" where
  "def_policy_code DEFAULT = 0"
| "def_policy_code PRESET = 1"
| "def_policy_code MUST_REUSE_INPUT = 2"
| "def_policy_code PASSTHROUGH = 3"

definition def_policy_of :: "nat \<Rightarrow> def_policy" where
  "def_policy_of n = [DEFAULT, PRESET, MUST_REUSE_INPUT, PASSTHROUGH] ! (n mod 4)"

datatype def_type = GENERAL | OBJECT | DOUBLE | NUNBOX_TYPE | NUNBOX_PAYLOAD | BOX

text \<open>\<open>TYPE\<close> and \<open>PAYLOAD\<close> (\<open>NUNBOX_TYPE\<close>, \<open>NUNBOX_PAYLOAD\<close> here) exist on nunbox builds only, where they come before \<open>BOX\<close>.\<close>

definition def_types :: "arch \<Rightarrow> def_type list" where
  "def_types a = (if a_punbox a then [GENERAL, OBJECT, DOUBLE, BOX]
                  else [GENERAL, OBJECT, DOUBLE, NUNBOX_TYPE, NUNBOX_PAYLOAD, BOX])"

fun def_type_code :: "arch \<Rightarrow> def_type \<Rightarrow> u32" where
  "def_type_code a GENERAL = 0"
| "def_type_code a OBJECT = 1"
| "def_type_code a DOUBLE = 2"
| "def_type_code a NUNBOX_TYPE = 3"
| "def_type_code a NUNBOX_PAYLOAD = 4"
| "def_type_code a BOX = (if a_punbox a then 3 else 5)"

text \<open>\<open>output_\<close> has the pointer width; the record fixes 64 bits.\<close>

type_synonym LAllocation = "64 word"

record LDefinition =
  ld_bits :: u32
  ld_output :: LAllocation

abbreviation (input) "LD_POLICY_SHIFT \<equiv> 3 :: nat"
abbreviation (input) "LD_VREG_SHIFT \<equiv> 5 :: nat"
abbreviation (input) "LD_VREG_BITS \<equiv> 27 :: nat"

definition ld_fields :: "arch \<Rightarrow> u32 \<Rightarrow> def_type \<Rightarrow> def_policy \<Rightarrow> u32" where
  "ld_fields a index ty policy =
     push_bit LD_VREG_SHIFT index OR push_bit LD_POLICY_SHIFT (def_policy_code policy) OR def_type_code a ty"

definition LDefinition_new :: "arch \<Rightarrow> u32 \<Rightarrow> def_type \<Rightarrow> def_policy \<Rightarrow> LDefinition" where
  "LDefinition_new a index ty policy = \<lparr>ld_bits = ld_fields a index ty policy, ld_output = 0\<rparr>"

definition LDefinition_preset :: "arch \<Rightarrow> u32 \<Rightarrow> def_type \<Rightarrow> LAllocation \<Rightarrow> LDefinition" where
  "LDefinition_preset a index ty alloc = \<lparr>ld_bits = ld_fields a index ty PRESET, ld_output = alloc\<rparr>"

definition ld_policy :: "LDefinition \<Rightarrow> def_policy" where
  "ld_policy d = def_policy_of (unat (drop_bit LD_POLICY_SHIFT (ld_bits d) AND mask 2))"

definition ld_type :: "arch \<Rightarrow> LDefinition \<Rightarrow> def_type option" where
  "ld_type a d = (let n = unat (ld_bits d AND mask 3) in
     if n < length (def_types a) then Some (def_types a ! n) else None)"

definition ld_virtualRegister :: "LDefinition \<Rightarrow> u32" where
  "ld_virtualRegister d = drop_bit LD_VREG_SHIFT (ld_bits d) AND mask LD_VREG_BITS"

definition ld_isPreset :: "LDefinition \<Rightarrow> bool" where
  "ld_isPreset d \<longleftrightarrow> ld_policy d = PRESET"

definition ld_isBogusTemp :: "LDefinition \<Rightarrow> bool" where
  "ld_isBogusTemp d \<longleftrightarrow> ld_isPreset d \<and> la_isConstantIndex (ld_output d)"

definition ld_setVirtualRegister :: "u32 \<Rightarrow> LDefinition \<Rightarrow> LDefinition option" where
  "ld_setVirtualRegister index d = do {
     js_assert (index < mask LD_VREG_BITS);
     Some (d\<lparr>ld_bits := (ld_bits d AND NOT (push_bit LD_VREG_SHIFT (mask LD_VREG_BITS)))
                          OR push_bit LD_VREG_SHIFT index\<rparr>) }"

definition ld_setOutput :: "LAllocation \<Rightarrow> LDefinition \<Rightarrow> LDefinition" where
  "ld_setOutput a d =
     (if la_isUse a then d\<lparr>ld_output := a\<rparr>
      else d\<lparr>ld_output := a,
             ld_bits := (ld_bits d AND NOT (push_bit LD_POLICY_SHIFT (mask 2)))
                          OR push_bit LD_POLICY_SHIFT (def_policy_code PRESET)\<rparr>)"

definition ld_setReusedInput :: "u32 \<Rightarrow> LDefinition \<Rightarrow> LDefinition option" where
  "ld_setReusedInput operand d = do {
     a \<leftarrow> LConstantIndex operand;
     Some (d\<lparr>ld_output := a\<rparr>) }"

definition ld_getReusedInput :: "LDefinition \<Rightarrow> u32 option" where
  "ld_getReusedInput d = do {
     js_assert (ld_policy d = MUST_REUSE_INPUT);
     toConstantIndex (ld_output d) }"

definition LDefinition_BogusTemp :: "arch \<Rightarrow> LDefinition option" where
  "LDefinition_BogusTemp a = do {
     c \<leftarrow> LConstantIndex 0;
     Some (LDefinition_preset a 0 GENERAL c) }"

fun ld_TypeFrom :: "arch \<Rightarrow> MIRType \<Rightarrow> def_type option" where
  "ld_TypeFrom a MIRType_Boolean = Some GENERAL"
| "ld_TypeFrom a MIRType_Int32 = Some GENERAL"
| "ld_TypeFrom a MIRType_String = Some OBJECT"
| "ld_TypeFrom a MIRType_Object = Some OBJECT"
| "ld_TypeFrom a MIRType_Double = Some DOUBLE"
| "ld_TypeFrom a MIRType_Value = (if a_punbox a then Some BOX else None)"
| "ld_TypeFrom a MIRType_Slots = Some GENERAL"
| "ld_TypeFrom a MIRType_Elements = Some GENERAL"
| "ld_TypeFrom a MIRType_UpvarSlots = Some GENERAL"
| "ld_TypeFrom a MIRType_StackFrame = Some GENERAL"
| "ld_TypeFrom a _ = None"

subsection \<open>Reading back an allocation\<close>

lemma alloc_kind_code_bit: "bit (alloc_kind_code k) n \<Longrightarrow> n < 3"
proof -
  assume b: "bit (alloc_kind_code k) n"
  have "alloc_kind_code k = take_bit 3 (alloc_kind_code k)"
    by (cases k) (simp_all add: take_bit_eq_mask mask_eq_exp_minus_1)
  with b have "bit (take_bit 3 (alloc_kind_code k)) n" by metis
  then show "n < 3" by (simp add: bit_take_bit_iff)
qed

lemma alloc_kind_of_code: "alloc_kind_of (unat (alloc_kind_code k)) = k"
  by (cases k) (simp_all add: alloc_kind_of_def)

lemma isTagged_bit: "isTagged (b::'a::len word) \<longleftrightarrow> bit b 0"
  using word_and_push_one[of 0 b] by (simp add: isTagged_def)

lemma la_pack_bit:
  "bit (la_pack k d) n \<longleftrightarrow>
    (if n = 0 then False else if n < 4 then bit (alloc_kind_code k) (n - 1) else n < 32 \<and> bit d (n - 4))"
  unfolding la_pack_def bit_or_iff bit_push_bit_iff
  using alloc_kind_code_bit[of k "n - 1"] by (auto dest: bit_imp_le_length)

lemma packed_bit:
  assumes "32 \<le> LENGTH('a::len)"
  shows "bit (ucast (la_pack k d) :: 'a word) n \<longleftrightarrow>
    (if n = 0 then False else if n < 4 then bit (alloc_kind_code k) (n - 1) else n < 32 \<and> bit d (n - 4))"
  using assms alloc_kind_code_bit[of k "n - 1"] by (auto simp: bit_ucast_iff la_pack_bit)

lemma unat_ucast_up:
  assumes "32 \<le> LENGTH('a::len)"
  shows "unat (ucast (w::u32) :: 'a word) = unat w"
proof -
  have "unat w < 2 ^ 32" using unsigned_less[of w, where ?'a = nat] by simp
  also have "(2::nat) ^ 32 \<le> 2 ^ LENGTH('a)" using assms by (rule power_increasing) simp
  finally show ?thesis by (simp add: unsigned_ucast_eq take_bit_nat_eq_self)
qed

lemma packed_kind:
  assumes "32 \<le> LENGTH('a::len)"
  shows "la_kind (ucast (la_pack k d) :: 'a word) = k"
proof -
  let ?b = "ucast (la_pack k d) :: 'a word"
  have "drop_bit 1 ?b AND mask 3 = ucast (alloc_kind_code k)"
  proof (rule bit_word_eqI)
    fix n assume "n < LENGTH('a)"
    then show "bit (drop_bit 1 ?b AND mask 3) n \<longleftrightarrow> bit (ucast (alloc_kind_code k) :: 'a word) n"
      using alloc_kind_code_bit[of k n] assms
      by (auto simp: bit_and_iff bit_mask_iff bit_drop_bit_eq la_pack_bit bit_ucast_iff)
  qed
  moreover have "unat (ucast (alloc_kind_code k) :: 'a word) = unat (alloc_kind_code k)"
    using unat_ucast_up[OF assms] .
  ultimately show ?thesis
    by (simp add: la_kind_def isTagged_bit packed_bit[OF assms] alloc_kind_of_code)
qed

lemma packed_data:
  assumes "32 \<le> LENGTH('a::len)"
  shows "la_data (ucast (la_pack k d) :: 'a word) =
    signed_take_bit 27 d"
proof (rule bit_word_eqI)
  fix n assume "n < LENGTH(32)"
  then show "bit (la_data (ucast (la_pack k d) :: 'a word)) n \<longleftrightarrow>
    bit (signed_take_bit 27 d) n"
    using assms by (auto simp: la_data_def bit_signed_drop_bit_iff bit_signed_take_bit_iff
        bit_ucast_iff la_pack_bit min_def dest: le_antisym)
qed

lemma signed_take_bit_small:
  "- (2 ^ 27) \<le> sint (d::i32) \<Longrightarrow> sint d < 2 ^ 27 \<Longrightarrow> signed_take_bit 27 d = d"
proof (rule bit_word_eqI)
  fix n assume le: "- (2 ^ 27) \<le> sint d" and lt: "sint d < 2 ^ 27" and n: "n < LENGTH(32)"
  have "signed_take_bit 27 (sint d) = sint d" using le lt by (rule signed_take_bit_int_eq_self)
  moreover have "bit (signed_take_bit 27 (sint d)) n \<longleftrightarrow> bit (sint d) (min 27 n)"
    by (simp add: bit_signed_take_bit_iff)
  ultimately have "bit (sint d) (min 27 n) \<longleftrightarrow> bit (sint d) n" by simp
  moreover have "bit (sint d) (min 27 n) \<longleftrightarrow> bit d (min 27 n)" "bit (sint d) n \<longleftrightarrow> bit d n"
    using n by (simp_all add: bit_sint_iff)
  ultimately show "bit (signed_take_bit 27 d) n \<longleftrightarrow> bit d n"
    using n by (simp only: bit_signed_take_bit_iff) simp
qed

lemma setKindAndData_packed:
  "setKindAndData k d = Some b \<Longrightarrow> b = ucast (la_pack k d)"
  by (auto simp: setKindAndData_def split: if_splits)

lemma setKindAndData_kind:
  fixes b :: "'a::len word"
  assumes "32 \<le> LENGTH('a)" "setKindAndData k d = Some b"
  shows "la_kind b = k"
  using setKindAndData_packed[OF assms(2)] packed_kind[OF assms(1), of k d] by simp

lemma setKindAndData_data:
  fixes b :: "'a::len word"
  assumes "32 \<le> LENGTH('a)" "setKindAndData k d = Some b"
  shows "la_data b = signed_take_bit 27 d"
  using setKindAndData_packed[OF assms(2)] packed_data[OF assms(1), of k d] by simp

text \<open>Inside 28 signed bits the constructor does not assert.\<close>

lemma setKindAndData_ok: "sint d < 2 ^ 27 \<Longrightarrow> setKindAndData k d = Some (ucast (la_pack k d))"
  by (simp add: setKindAndData_def DATA_MASK_int_def)

text \<open>Replacing the data keeps the kind.\<close>

lemma setData_bit:
  fixes b :: "'a::len word"
  assumes "32 \<le> LENGTH('a)" "setData d b = Some b'" "n < 32"
  shows "bit b' n \<longleftrightarrow> (if n < 4 then bit b n else bit d (n - 4))"
proof -
  have "b' = b AND NOT (push_bit 4 (mask 28)) OR scast (push_bit 4 d)"
    using assms(2) by (auto simp: setData_def split: if_splits)
  then show ?thesis
    using assms(1,3) by (cases "n = 31")
      (auto simp: bit_or_iff bit_and_iff bit_not_iff bit_push_bit_iff bit_mask_iff bit_signed_iff min_def)
qed

lemma setData_data:
  fixes b :: "'a::len word"
  assumes "32 \<le> LENGTH('a)" "setData d b = Some b'"
  shows "la_data b' = signed_take_bit 27 d"
proof (rule bit_word_eqI)
  fix n assume "n < LENGTH(32)"
  then show "bit (la_data b') n \<longleftrightarrow> bit (signed_take_bit 27 d) n"
    using assms(1) setData_bit[OF assms, of 31] setData_bit[OF assms, of "4 + n"]
    by (auto simp: la_data_def bit_signed_drop_bit_iff bit_signed_take_bit_iff bit_ucast_iff min_def
        dest: le_antisym)
qed

lemma setData_kind:
  fixes b :: "'a::len word"
  assumes "32 \<le> LENGTH('a)" "setData d b = Some b'"
  shows "la_kind b' = la_kind b"
proof -
  have low: "bit b' n \<longleftrightarrow> bit b n" if "n < 4" for n
    using setData_bit[OF assms, of n] that by simp
  have "drop_bit 1 b' AND mask 3 = drop_bit 1 b AND mask 3"
    by (rule bit_word_eqI) (auto simp: bit_and_iff bit_mask_iff bit_drop_bit_eq low)
  then show ?thesis by (simp add: la_kind_def isTagged_bit low)
qed

text \<open>The fields of a use, bit by bit.\<close>

lemma small_word_bit: "unat (w::'a::len word) < 2 ^ k \<Longrightarrow> bit w m \<Longrightarrow> m < k"
  using drop_bit_zero_less[of k w] drop_bit_zero_iff[of k w] by (meson linorder_not_less)

lemma use_policy_code_bit: "bit (use_policy_code p) n \<Longrightarrow> n < 2"
proof -
  assume b: "bit (use_policy_code p) n"
  have "use_policy_code p = take_bit 2 (use_policy_code p)"
    by (cases p) (simp_all add: take_bit_eq_mask mask_eq_exp_minus_1)
  with b have "bit (take_bit 2 (use_policy_code p)) n" by metis
  then show "n < 2" by (simp add: bit_take_bit_iff)
qed

lemma lu_fields_bit:
  assumes "unat reg < 32"
  shows "bit (lu_fields p reg st) n \<longleftrightarrow>
    (if n < 3 then bit (use_policy_code p) n else if n < 8 then bit reg (n - 3) else n = 8 \<and> st)"
proof -
  have r: "bit reg m \<Longrightarrow> m < 5" for m
    using assms small_word_bit[of reg 5] by simp
  show ?thesis
    unfolding lu_fields_def bit_or_iff bit_push_bit_iff
    using use_policy_code_bit[of p n] r[of "n - 3"] by (auto simp: bit_1_iff)
qed

lemma vreg_small_bit: "(index::u32) < mask 19 \<Longrightarrow> bit index m \<Longrightarrow> m < 19"
proof -
  assume "index < mask 19" and b: "bit index m"
  then have "unat index < 2 ^ 19" by (simp add: word_less_nat_alt mask_eq_exp_minus_1)
  then show "m < 19" using b by (rule small_word_bit)
qed

lemma lu_vreg_data_bit:
  assumes "index < mask 19" "n < 32"
  shows "bit (lu_vreg_data old index) n \<longleftrightarrow> (if 9 \<le> n \<and> n < 28 then bit index (n - 9) else bit old n)"
  unfolding lu_vreg_data_def bit_or_iff bit_and_iff bit_not_iff bit_push_bit_iff bit_mask_iff
  using vreg_small_bit[OF assms(1), of "n - 9"] assms(2) by auto

lemma la_data_sign: "28 \<le> n \<Longrightarrow> n < 32 \<Longrightarrow> bit (la_data b) n \<longleftrightarrow> bit (la_data b) 31"
  by (simp add: la_data_def bit_signed_drop_bit_iff)

lemma uint_less_of_unat: "unat (w::'a::len word) < 2 ^ k \<Longrightarrow> uint w < 2 ^ k"
  by (metis of_nat_less_iff of_nat_numeral of_nat_power of_nat_unat)

lemma sint_eq_uint_no_msb: "\<not> bit (w::32 word) 31 \<Longrightarrow> sint w = uint w"
proof -
  assume n: "\<not> bit w 31"
  then have "\<not> bit w n" if "31 \<le> n" for n
    using that bit_imp_le_length[of w n] by (cases "n = 31") auto
  then have "unat w < 2 ^ 31" using drop_bit_zero_iff[of 31 w] drop_bit_zero_less[of 31 w] by blast
  then have "uint w < 2 ^ 31" by (rule uint_less_of_unat)
  moreover have "- (2 ^ 31) \<le> uint w" by (rule order_trans[of _ 0]) simp_all
  ultimately have "signed_take_bit 31 (uint w) = uint w" by (intro signed_take_bit_int_eq_self)
  then show ?thesis by (simp add: sint_uint)
qed

lemma setVirtualRegister_no_assert:
  assumes "index < mask 19"
  shows "\<exists>b'. lu_setVirtualRegister index b = Some b'"
proof -
  let ?d = "lu_vreg_data (la_data b) index"
  have "sint ?d \<le> DATA_MASK_int"
  proof (cases "bit ?d 31")
    case True
    then have "sint ?d < 0" by (simp add: bit_last_iff[symmetric])
    then show ?thesis by (simp add: DATA_MASK_int_def)
  next
    case False
    then have "\<not> bit (la_data b) 31" using lu_vreg_data_bit[OF assms, of 31] by simp
    then have "\<not> bit ?d n" if "28 \<le> n" for n
    proof (cases "n < 32")
      case True
      with \<open>\<not> bit (la_data b) 31\<close> show ?thesis
        using lu_vreg_data_bit[OF assms True] la_data_sign[OF that True, of b] that by simp
    next
      case False
      then show ?thesis using bit_imp_le_length[of ?d n] by auto
    qed
    then have "unat ?d < 2 ^ 28" using drop_bit_zero_iff[of 28 ?d] drop_bit_zero_less[of 28 ?d] by blast
    then have "uint ?d < 2 ^ 28" by (rule uint_less_of_unat)
    moreover have "sint ?d = uint ?d" using False by (rule sint_eq_uint_no_msb)
    ultimately show ?thesis by (simp add: DATA_MASK_int_def)
  qed
  with assms show ?thesis by (simp add: lu_setVirtualRegister_def setData_def)
qed

text \<open>
  What the accessors of a use return is a function of the 28 data bits; \<open>use_layout\<close> says
  that a word is a use with the given fields.
\<close>

definition use_layout :: "use_policy \<Rightarrow> u32 \<Rightarrow> bool \<Rightarrow> u32 \<Rightarrow> 'a::len word \<Rightarrow> bool" where
  "use_layout p reg st vreg b \<longleftrightarrow> la_kind b = USE \<and>
     (\<forall>n<28. bit (la_data b) n \<longleftrightarrow>
        (if n < 3 then bit (use_policy_code p) n else if n < 8 then bit reg (n - 3)
         else if n = 8 then st else bit vreg (n - 9)))"

lemma use_layout_bit:
  "use_layout p reg st vreg b \<Longrightarrow> n < 28 \<Longrightarrow> bit (la_data b) n \<longleftrightarrow>
     (if n < 3 then bit (use_policy_code p) n else if n < 8 then bit reg (n - 3)
      else if n = 8 then st else bit vreg (n - 9))"
  by (simp add: use_layout_def)

lemma bit_signed_take_27: "n < 28 \<Longrightarrow> bit (signed_take_bit 27 (d::u32)) n \<longleftrightarrow> bit d n"
  by (cases "n = 27") (auto simp: bit_signed_take_bit_iff min_def)

lemma use_layout_set:
  fixes b :: "'a::len word"
  assumes "32 \<le> LENGTH('a)" "unat reg < 32" "lu_set p reg st = Some b"
  shows "use_layout p reg st 0 b"
proof -
  have k: "setKindAndData USE (lu_fields p reg st) = Some b" using assms(3) by (simp add: lu_set_def)
  have "bit (la_data b) n \<longleftrightarrow> bit (lu_fields p reg st) n" if "n < 28" for n
    unfolding setKindAndData_data[OF assms(1) k] using that by (rule bit_signed_take_27)
  then show ?thesis
    unfolding use_layout_def using setKindAndData_kind[OF assms(1) k] by (auto simp: lu_fields_bit[OF assms(2)])
qed

lemma use_layout_vreg:
  fixes b :: "'a::len word"
  assumes "32 \<le> LENGTH('a)" "use_layout p reg st v b" "lu_setVirtualRegister vreg b = Some b'"
  shows "use_layout p reg st vreg b'"
proof -
  have v: "vreg < mask 19" and d: "setData (lu_vreg_data (la_data b) vreg) b = Some b'"
    using assms(3) by (auto simp: lu_setVirtualRegister_def split: if_splits)
  have "bit (la_data b') n \<longleftrightarrow> bit (lu_vreg_data (la_data b) vreg) n" if "n < 28" for n
    unfolding setData_data[OF assms(1) d] using that by (rule bit_signed_take_27)
  then show ?thesis
    using assms(2) setData_kind[OF assms(1) d] by (auto simp: use_layout_def lu_vreg_data_bit[OF v])
qed

lemma use_layout_policy:
  assumes "use_layout p reg st vreg b"
  shows "lu_policy b = Some p"
proof -
  have "la_data b AND mask 3 = use_policy_code p"
  proof (rule bit_word_eqI)
    fix n
    show "bit (la_data b AND mask 3) n \<longleftrightarrow> bit (use_policy_code p) n"
      using use_layout_bit[OF assms, of n] use_policy_code_bit[of p n]
      by (cases "n < 3") (auto simp: bit_and_iff bit_mask_iff)
  qed
  then show ?thesis by (cases p) (simp_all add: lu_policy_def use_policy_of_def)
qed

lemma use_layout_reg:
  assumes "use_layout FIXED reg st vreg b" "unat reg < 32"
  shows "lu_registerCode b = Some reg"
proof -
  have r: "bit reg m \<Longrightarrow> m < 5" for m using assms(2) small_word_bit[of reg 5] by simp
  have "signed_drop_bit 3 (la_data b) AND mask 5 = reg"
  proof (rule bit_word_eqI)
    fix n
    show "bit (signed_drop_bit 3 (la_data b) AND mask 5) n \<longleftrightarrow> bit reg n"
      using use_layout_bit[OF assms(1), of "3 + n"] r[of n]
      by (cases "n < 5") (auto simp: bit_and_iff bit_mask_iff bit_signed_drop_bit_iff)
  qed
  then show ?thesis using use_layout_policy[OF assms(1)] by (simp add: lu_registerCode_def)
qed

lemma use_layout_virtualRegister:
  assumes "use_layout p reg st vreg b" "vreg < mask 19"
  shows "lu_virtualRegister b = vreg"
  unfolding lu_virtualRegister_def
proof (rule bit_word_eqI)
  fix n
  show "bit (signed_drop_bit 9 (la_data b) AND mask 19) n \<longleftrightarrow> bit vreg n"
    using use_layout_bit[OF assms(1), of "9 + n"] vreg_small_bit[OF assms(2), of n]
    by (cases "n < 19") (auto simp: bit_and_iff bit_mask_iff bit_signed_drop_bit_iff)
qed

lemma use_layout_start:
  assumes "use_layout p reg st vreg b"
  shows "lu_usedAtStart b \<longleftrightarrow> st"
proof -
  have "bit (signed_drop_bit 8 (la_data b)) 0 \<longleftrightarrow> st"
    using assms by (simp add: use_layout_def bit_signed_drop_bit_iff)
  then show ?thesis
    using word_and_push_one[of 0 "signed_drop_bit 8 (la_data b)"] by (simp add: lu_usedAtStart_def mask_Suc_0)
qed

lemmas use_layout_fields = use_layout_policy use_layout_virtualRegister use_layout_start

lemma lu_set_ok:
  assumes "unat reg < 32"
  shows "\<exists>b. lu_set p reg st = Some b"
proof -
  have "\<not> bit (lu_fields p reg st) n" if "9 \<le> n" for n using that lu_fields_bit[OF assms, of p st n] by auto
  then have "unat (lu_fields p reg st) < 2 ^ 9"
    using drop_bit_zero_iff[of 9 "lu_fields p reg st"] drop_bit_zero_less[of 9 "lu_fields p reg st"] by blast
  then have "uint (lu_fields p reg st) < 2 ^ 9" by (rule uint_less_of_unat)
  moreover have "sint (lu_fields p reg st) = uint (lu_fields p reg st)"
    using lu_fields_bit[OF assms, of p st 31] by (intro sint_eq_uint_no_msb) simp
  ultimately show ?thesis by (simp add: lu_set_def setKindAndData_def DATA_MASK_int_def)
qed

text \<open>
  C15: a use built by \<open>LUse(Register, uint32)\<close> for a register code and a virtual register that
  fits its 19 bits does not assert, is a use, and every accessor returns what was put in, at
  any pointer width.
\<close>

theorem use_roundtrip:
  assumes "32 \<le> LENGTH('a::len)" "reg < 32" "vreg < mask 19"
  shows "\<exists>b :: 'a word. LUse_fixed_vreg reg vreg = Some b \<and> la_isUse b \<and> lu_isFixedRegister b \<and>
    lu_registerCode b = Some (of_nat reg) \<and> lu_virtualRegister b = vreg \<and> \<not> lu_usedAtStart b"
proof -
  have r: "unat (of_nat reg :: u32) < 32" using assms(2) by (simp add: unat_of_nat)
  obtain b :: "'a word" where b: "lu_set FIXED (of_nat reg) False = Some b" using lu_set_ok[OF r] by blast
  obtain b' where b': "lu_setVirtualRegister vreg b = Some b'"
    using setVirtualRegister_no_assert[OF assms(3)] by blast
  have l: "use_layout FIXED (of_nat reg) False vreg b'"
    using use_layout_vreg[OF assms(1) use_layout_set[OF assms(1) r b] b'] .
  show ?thesis
    using b b' use_layout_fields[OF l] use_layout_reg[OF l r] assms(3) l
    by (intro exI[of _ b']) (simp add: LUse_fixed_vreg_def lu_isFixedRegister_def la_isUse_def use_layout_def)
qed

theorem use_roundtrip_witness:
  "(32::nat) \<le> LENGTH(64) \<and> (3::nat) < 32 \<and> (100::u32) < mask 19 \<and>
   (\<exists>b :: 64 word. LUse_fixed_vreg 3 100 = Some b \<and> la_isUse b \<and> lu_isFixedRegister b \<and>
    lu_registerCode b = Some (of_nat 3) \<and> lu_virtualRegister b = 100 \<and> \<not> lu_usedAtStart b)"
proof -
  have m: "(100::u32) < mask 19" by (simp add: mask_eq_exp_minus_1)
  then show ?thesis using use_roundtrip[where ?'a = 64, of 3 100] by simp
qed

subsection \<open>Reading back a definition\<close>

lemma small_code_bit:
  "bit (def_policy_code p) n \<Longrightarrow> n < 2" "bit (def_type_code a ty) n \<Longrightarrow> n < 3"
proof -
  have "unat (def_policy_code p) < 2 ^ 2" by (cases p) simp_all
  then show "bit (def_policy_code p) n \<Longrightarrow> n < 2" by (rule small_word_bit)
  have "unat (def_type_code a ty) < 2 ^ 3" by (cases ty) simp_all
  then show "bit (def_type_code a ty) n \<Longrightarrow> n < 3" by (rule small_word_bit)
qed

lemma ld_fields_bit:
  "bit (ld_fields a index ty p) n \<longleftrightarrow>
     (if n < 3 then bit (def_type_code a ty) n else if n < 5 then bit (def_policy_code p) (n - 3)
      else n < 32 \<and> bit index (n - 5))"
  unfolding ld_fields_def bit_or_iff bit_push_bit_iff
  using small_code_bit(1)[of p "n - 3"] small_code_bit(2)[of a ty n] by (auto dest: bit_imp_le_length)

definition def_layout :: "arch \<Rightarrow> u32 \<Rightarrow> def_type \<Rightarrow> def_policy \<Rightarrow> LDefinition \<Rightarrow> bool" where
  "def_layout a index ty p d \<longleftrightarrow> ld_bits d = ld_fields a index ty p"

lemma def_layout_policy:
  assumes "def_layout a index ty p d"
  shows "ld_policy d = p"
proof -
  have "drop_bit 3 (ld_bits d) AND mask 2 = def_policy_code p"
    using assms small_code_bit(1)[of p]
    by (intro bit_word_eqI) (auto simp: def_layout_def bit_and_iff bit_mask_iff bit_drop_bit_eq ld_fields_bit)
  then show ?thesis by (cases p) (simp_all add: ld_policy_def def_policy_of_def)
qed

lemma def_layout_type:
  assumes "def_layout a index ty p d" "ty \<in> set (def_types a)"
  shows "ld_type a d = Some ty"
proof -
  have "ld_bits d AND mask 3 = def_type_code a ty"
  proof (rule bit_word_eqI)
    fix n
    show "bit (ld_bits d AND mask 3) n \<longleftrightarrow> bit (def_type_code a ty) n"
      using assms(1) small_code_bit(2)[of a ty n]
      by (auto simp: def_layout_def bit_and_iff bit_mask_iff ld_fields_bit)
  qed
  then show ?thesis using assms(2) by (cases ty) (auto simp: ld_type_def def_types_def split: if_splits)
qed

lemma def_layout_vreg:
  assumes "def_layout a index ty p d" "index < mask 27"
  shows "ld_virtualRegister d = index"
  unfolding ld_virtualRegister_def
proof (rule bit_word_eqI)
  fix n
  have "unat index < 2 ^ 27" using assms(2) by (simp add: word_less_nat_alt mask_eq_exp_minus_1)
  then have "bit index n \<Longrightarrow> n < 27" by (rule small_word_bit)
  then show "bit (drop_bit 5 (ld_bits d) AND mask 27) n \<longleftrightarrow> bit index n"
    using assms(1) by (auto simp: def_layout_def bit_and_iff bit_mask_iff bit_drop_bit_eq ld_fields_bit)
qed

lemma def_layout_setVirtualRegister:
  assumes "def_layout a i ty p d" "ld_setVirtualRegister index d = Some d'"
  shows "def_layout a index ty p d'"
proof -
  have b: "ld_bits d' = (ld_bits d AND NOT (push_bit 5 (mask 27))) OR push_bit 5 index"
    using assms(2) by (auto simp: ld_setVirtualRegister_def split: if_splits)
  show ?thesis
    unfolding def_layout_def b
    using assms(1) by (intro bit_word_eqI)
      (auto simp: def_layout_def bit_or_iff bit_and_iff bit_not_iff bit_push_bit_iff bit_mask_iff ld_fields_bit)
qed

lemma def_layout_setOutput:
  assumes "def_layout a i ty p d"
  shows "def_layout a i ty (if la_isUse out then p else PRESET) (ld_setOutput out d)"
proof -
  have "(ld_bits d AND NOT (push_bit 3 (mask 2))) OR push_bit 3 (def_policy_code PRESET) = ld_fields a i ty PRESET"
  proof (rule bit_word_eqI)
    fix n assume "n < LENGTH(32)"
    then show "bit ((ld_bits d AND NOT (push_bit 3 (mask 2))) OR push_bit 3 (def_policy_code PRESET)) n \<longleftrightarrow>
      bit (ld_fields a i ty PRESET) n"
      using assms small_code_bit(1)[of PRESET "n - 3"]
      unfolding bit_or_iff bit_and_iff bit_not_iff bit_push_bit_iff bit_mask_iff
      by (auto simp: def_layout_def ld_fields_bit)
  qed
  with assms show ?thesis by (auto simp: def_layout_def ld_setOutput_def)
qed

text \<open>
  C16: after numbering a definition and giving it its allocation, type and virtual register read
  back unchanged, and the policy is \<open>PRESET\<close> exactly when the allocation is final.
\<close>

theorem definition_roundtrip:
  assumes "ty \<in> set (def_types a)" "index < mask 27"
  shows "\<exists>d. ld_setVirtualRegister index (LDefinition_new a 0 ty policy) = Some d \<and>
    ld_virtualRegister (ld_setOutput out d) = index \<and> ld_type a (ld_setOutput out d) = Some ty \<and>
    ld_policy (ld_setOutput out d) = (if la_isUse out then policy else PRESET) \<and>
    ld_output (ld_setOutput out d) = out"
proof -
  obtain d where d: "ld_setVirtualRegister index (LDefinition_new a 0 ty policy) = Some d"
    using assms(2) by (simp add: ld_setVirtualRegister_def)
  have "def_layout a 0 ty policy (LDefinition_new a 0 ty policy)"
    by (simp add: def_layout_def LDefinition_new_def)
  from def_layout_setOutput[OF def_layout_setVirtualRegister[OF this d], of out]
  show ?thesis
    using d assms def_layout_policy def_layout_type def_layout_vreg
    by (intro exI[of _ d]) (auto simp: ld_setOutput_def)
qed

theorem definition_roundtrip_witness:
  "BOX \<in> set (def_types (arch_x64 False)) \<and> (7::u32) < mask 27 \<and>
   (\<exists>d. ld_setVirtualRegister 7 (LDefinition_new (arch_x64 False) 0 BOX DEFAULT) = Some d \<and>
    ld_virtualRegister (ld_setOutput 0x16 d) = 7 \<and> ld_type (arch_x64 False) (ld_setOutput 0x16 d) = Some BOX \<and>
    ld_policy (ld_setOutput 0x16 d) = (if la_isUse (0x16 :: LAllocation) then DEFAULT else PRESET) \<and>
    ld_output (ld_setOutput 0x16 d) = 0x16)"
proof -
  have "BOX \<in> set (def_types (arch_x64 False))" by (simp add: def_types_def arch_x64_def)
  moreover have "(7::u32) < mask 27" by (simp add: mask_eq_exp_minus_1)
  ultimately show ?thesis
    using definition_roundtrip[of BOX "arch_x64 False" 7 DEFAULT "0x16"] by blast
qed

subsection \<open>The limit on virtual registers\<close>

definition MAX_VIRTUAL_REGISTERS :: u32 where "MAX_VIRTUAL_REGISTERS = push_bit 21 1 - 1"

text \<open>
  \<open>getVirtualRegister\<close> with the test the lowering makes on every number it gets: at or above
  the maximum, compilation of the script is abandoned.
\<close>

definition getVirtualRegister :: "u32 \<Rightarrow> u32 \<times> u32" where
  "getVirtualRegister n = (let n' = n + 1 in (n', n'))"

definition lowering_accepts :: "u32 \<Rightarrow> bool" where
  "lowering_accepts vreg \<longleftrightarrow> \<not> vreg \<ge> MAX_VIRTUAL_REGISTERS"

text \<open>
  C17: the limit does not protect \<open>LUse\<close>. It is \<open>2^21 - 1\<close> while a use has 19 bits for the
  number: every accepted number from \<open>2^19 - 1\<close> on fails the assertion of
  \<open>LUse::setVirtualRegister\<close>, and there are such numbers.
\<close>

theorem accepted_vreg_does_not_fit:
  "lowering_accepts (snd (getVirtualRegister (2 ^ 19))) \<and>
   (\<forall>vreg. lu_setVirtualRegister vreg (b :: LAllocation) = None \<longleftrightarrow> mask 19 \<le> vreg)"
proof
  show "lowering_accepts (snd (getVirtualRegister (2 ^ 19)))"
    by (simp add: lowering_accepts_def getVirtualRegister_def MAX_VIRTUAL_REGISTERS_def)
  have "lu_setVirtualRegister vreg b = None \<longleftrightarrow> mask 19 \<le> vreg" for vreg
  proof (cases "vreg < mask 19")
    case True
    then show ?thesis using setVirtualRegister_no_assert[OF True, of b] by auto
  next
    case False
    then show ?thesis by (simp add: lu_setVirtualRegister_def)
  qed
  then show "\<forall>vreg. lu_setVirtualRegister vreg b = None \<longleftrightarrow> mask 19 \<le> vreg" by blast
qed

end
