(* ===== verification/Snapshot_Encoding.thy ===== *)
theory Snapshot_Encoding
  imports Snapshot_Iterator Lir
begin

text \<open>
  \<open>CodeGeneratorShared::encodeSlots\<close> (\<open>ion/shared/CodeGenerator-shared.cpp\<close>): how the operands of
  a resume point and the allocations that the register allocator gave them become the slots of a
  snapshot, with the accessors of \<open>LSnapshot\<close>, the constant pool of the LIR graph, and
  \<open>ToStackOffset\<close>, which the generated code addresses its frame with.

  The entries of an \<open>LSnapshot\<close> are the list of their allocations. The main result ties three
  parts of the program together: where the generated code keeps a value, what the code generator
  writes about it, and what a bailout reads back.
\<close>

subsection \<open>Frame offsets of the generated code\<close>

definition ArgToStackOffset :: "arch \<Rightarrow> nat \<Rightarrow> i32 \<Rightarrow> int" where
  "ArgToStackOffset a framePushed slot = int framePushed + int (sizeof_IonJSFrameLayout a) + sint slot"

definition ToStackOffset :: "arch \<Rightarrow> nat \<Rightarrow> nat \<Rightarrow> LAllocation \<Rightarrow> int option" where
  "ToStackOffset a framePushed localSlotCount b =
     (if la_isArgument b then do {
        i \<leftarrow> toArgument b;
        Some (ArgToStackOffset a framePushed i) }
      else do {
        s \<leftarrow> toStackSlot b;
        off \<leftarrow> SlotToStackOffset a framePushed localSlotCount (unat s);
        Some (int off) })"

subsection \<open>Entries of an LIR snapshot and the constant pool\<close>

definition BOX_PIECES :: "arch \<Rightarrow> nat" where
  "BOX_PIECES a = (if a_punbox a then 1 else 2)"

definition ls_getEntry :: "LAllocation list \<Rightarrow> nat \<Rightarrow> LAllocation option" where
  "ls_getEntry ls i = do { js_assert (i < length ls); Some (ls ! i) }"

definition ls_numSlots :: "arch \<Rightarrow> LAllocation list \<Rightarrow> nat" where
  "ls_numSlots a ls = length ls div BOX_PIECES a"

definition payloadOfSlot :: "arch \<Rightarrow> LAllocation list \<Rightarrow> nat \<Rightarrow> LAllocation option" where
  "payloadOfSlot a ls i = do {
     js_assert (i < ls_numSlots a ls);
     ls_getEntry ls (i * BOX_PIECES a + (BOX_PIECES a - 1)) }"

definition typeOfSlot :: "arch \<Rightarrow> LAllocation list \<Rightarrow> nat \<Rightarrow> LAllocation option" where
  "typeOfSlot a ls i = do {
     js_assert (i < ls_numSlots a ls);
     ls_getEntry ls (i * BOX_PIECES a + (BOX_PIECES a - 2)) }"

text \<open>\<open>mem k\<close>: a pool of \<open>k\<close> constants can grow. The index and the new pool; no pool is a failure.\<close>

definition addConstantToPool :: "(nat \<Rightarrow> bool) \<Rightarrow> js_value \<Rightarrow> js_value list \<Rightarrow> u32 \<times> js_value list option" where
  "addConstantToPool mem v pool =
     (of_nat (length pool), if mem (length pool) then Some (pool @ [v]) else None)"

subsection \<open>Encoding of operands\<close>

definition ToStackIndex :: "LAllocation \<Rightarrow> i32 option" where
  "ToStackIndex b =
     (if la_isStackSlot b then do {
        s \<leftarrow> toStackSlot b;
        js_assert (s \<ge> 1);
        Some s }
      else do { i \<leftarrow> toArgument b; Some (- i) })"

text \<open>The definition that stands behind an operand: arguments of calls are looked through.\<close>

definition slot_definition :: "nodes \<Rightarrow> nat option \<Rightarrow> nat option" where
  "slot_definition h operand = do {
     mir \<leftarrow> operand;
     mir \<leftarrow> (if mn_op (h mir) = Op_PassArg then getOperand h mir 0 else Some mir);
     js_assert (mn_op (h mir) \<noteq> Op_PassArg);
     Some mir }"

definition small_int :: "js_value \<Rightarrow> i32 option" where
  "small_int v = (case v of VInt32 i \<Rightarrow> if - 32 \<le> sint i \<and> sint i \<le> 32 then Some i else None | _ \<Rightarrow> None)"

type_synonym encoder = "snapshot_writer \<times> js_value list"

definition encode_typed ::
  "arch \<Rightarrow> (nat \<Rightarrow> bool) \<Rightarrow> nodes \<Rightarrow> attrs \<Rightarrow> nat \<Rightarrow> LAllocation \<Rightarrow> encoder \<Rightarrow> (bool \<times> encoder) option" where
  "encode_typed a mem h attr mir payload st = (case st of (sw, pool) \<Rightarrow> do {
     type \<leftarrow> ValueTypeFromMIRType (mn_type (h mir));
     if la_isMemory payload then do {
       i \<leftarrow> ToStackIndex payload;
       sw \<leftarrow> addSlot_stack a type i sw;
       Some (True, sw, pool) }
     else if la_isGeneralReg payload then do {
       r \<leftarrow> toGeneralReg payload;
       sw \<leftarrow> addSlot_reg type r sw;
       Some (True, sw, pool) }
     else if la_isFloatReg payload then do {
       r \<leftarrow> toFloatReg payload;
       sw \<leftarrow> addSlot_float r sw;
       Some (True, sw, pool) }
     else do {
       js_assert (isConstant h mir);
       let v = ma_value (attr mir);
       (case small_int v of
          Some i \<Rightarrow> do { sw \<leftarrow> addInt32Slot i sw; Some (True, sw, pool) }
        | None \<Rightarrow> (case addConstantToPool mem v pool of
            (index, None) \<Rightarrow> Some (False, sw, pool)
          | (index, Some pool) \<Rightarrow> do {
              sw \<leftarrow> addConstantPoolSlot index sw;
              Some (True, sw, pool) })) } })"

definition encode_nunbox :: "LAllocation \<Rightarrow> LAllocation \<Rightarrow> snapshot_writer \<Rightarrow> snapshot_writer option" where
  "encode_nunbox type payload sw =
     (if la_isRegister type then
        if la_isRegister payload then do {
          t \<leftarrow> toGeneralReg type; p \<leftarrow> toGeneralReg payload; addSlot_reg_reg t p sw }
        else do { t \<leftarrow> toGeneralReg type; p \<leftarrow> ToStackIndex payload; addSlot_reg_stack t p sw }
      else
        if la_isRegister payload then do {
          t \<leftarrow> ToStackIndex type; p \<leftarrow> toGeneralReg payload; addSlot_stack_reg t p sw }
        else do { t \<leftarrow> ToStackIndex type; p \<leftarrow> ToStackIndex payload; addSlot_stack_stack t p sw })"

definition encode_punbox :: "arch \<Rightarrow> LAllocation \<Rightarrow> snapshot_writer \<Rightarrow> snapshot_writer option" where
  "encode_punbox a payload sw =
     (if la_isRegister payload then do { r \<leftarrow> toGeneralReg payload; addSlot_value_reg r sw }
      else do { i \<leftarrow> ToStackIndex payload; addSlot_value_stack a i sw })"

definition encodeSlot ::
  "arch \<Rightarrow> (nat \<Rightarrow> bool) \<Rightarrow> nodes \<Rightarrow> attrs \<Rightarrow> LAllocation list \<Rightarrow> u32 \<Rightarrow> nat option \<Rightarrow> encoder \<Rightarrow> (bool \<times> encoder) option" where
  "encodeSlot a mem h attr ls i operand st = (case st of (sw, pool) \<Rightarrow> do {
     mir \<leftarrow> slot_definition h operand;
     let type = (if hasFlag h Unused mir then MIRType_Undefined else mn_type (h mir));
     if type = MIRType_Undefined then do { sw \<leftarrow> addUndefinedSlot sw; Some (True, sw, pool) }
     else if type = MIRType_Null then do { sw \<leftarrow> addNullSlot sw; Some (True, sw, pool) }
     else if type \<in> {MIRType_Int32, MIRType_String, MIRType_Object, MIRType_Boolean, MIRType_Double} then do {
       payload \<leftarrow> payloadOfSlot a ls (unat i);
       encode_typed a mem h attr mir payload (sw, pool) }
     else do {
       js_assert (mn_type (h mir) = MIRType_Value);
       payload \<leftarrow> payloadOfSlot a ls (unat i);
       if a_punbox a then do { sw \<leftarrow> encode_punbox a payload sw; Some (True, sw, pool) }
       else do {
         type \<leftarrow> typeOfSlot a ls (unat i);
         sw \<leftarrow> encode_nunbox type payload sw;
         Some (True, sw, pool) } } })"

text \<open>The loop over the operands; \<open>i\<close> is the unsigned sum \<open>slotno + *startIndex\<close>.\<close>

fun encodeSlots_loop ::
  "arch \<Rightarrow> (nat \<Rightarrow> bool) \<Rightarrow> nodes \<Rightarrow> attrs \<Rightarrow> LAllocation list \<Rightarrow> u32 \<Rightarrow> nat option list \<Rightarrow> encoder \<Rightarrow> (bool \<times> encoder) option" where
  "encodeSlots_loop a mem h attr ls i [] st = Some (True, st)"
| "encodeSlots_loop a mem h attr ls i (operand # operands) st = do {
     (ok, st) \<leftarrow> encodeSlot a mem h attr ls i operand st;
     if \<not> ok then Some (False, st) else encodeSlots_loop a mem h attr ls (i + 1) operands st }"

definition encodeSlots ::
  "arch \<Rightarrow> (nat \<Rightarrow> bool) \<Rightarrow> nodes \<Rightarrow> attrs \<Rightarrow> LAllocation list \<Rightarrow> nat \<Rightarrow> u32 \<Rightarrow> encoder \<Rightarrow> (bool \<times> u32 \<times> encoder) option" where
  "encodeSlots a mem h attr ls resumePoint startIndex st = do {
     (ok, st) \<leftarrow> encodeSlots_loop a mem h attr ls startIndex (mn_operands (h resumePoint)) st;
     Some (ok, if ok then startIndex + of_nat (numOperands h resumePoint) else startIndex, st) }"

subsection \<open>Where the generated code keeps a value\<close>

text \<open>
  The specification, from the side of the generated code: it finds a word or a double in the
  register of an allocation, or in memory at the offset from its stack pointer that
  \<open>ToStackOffset\<close> gives. The stack pointer is \<open>framePushed\<close> bytes below the frame.
\<close>

definition holds_word :: "arch \<Rightarrow> nat \<Rightarrow> nat \<Rightarrow> snapshot_frame \<Rightarrow> LAllocation \<Rightarrow> 64 word \<Rightarrow> bool" where
  "holds_word a framePushed localSlotCount f b w \<longleftrightarrow>
     (\<exists>r. toGeneralReg b = Some r \<and> r < a_regs a \<and> ms_regs (sf_machine f) r = Some w) \<or>
     (la_isMemory b \<and> (\<exists>off. ToStackOffset a framePushed localSlotCount b = Some off \<and>
        w = load_bytes (sf_memory f) ((sf_fp f - int framePushed) + off) (a_ptr a)))"

definition holds_double :: "arch \<Rightarrow> nat \<Rightarrow> nat \<Rightarrow> snapshot_frame \<Rightarrow> LAllocation \<Rightarrow> double \<Rightarrow> bool" where
  "holds_double a framePushed localSlotCount f b d \<longleftrightarrow>
     (\<exists>r. toFloatReg b = Some r \<and> r < a_fregs a \<and> ms_fregs (sf_machine f) r = Some d) \<or>
     (la_isMemory b \<and> (\<exists>off. ToStackOffset a framePushed localSlotCount b = Some off \<and>
        d = load_bytes (sf_memory f) ((sf_fp f - int framePushed) + off) 8))"

text \<open>
  How a machine word stands for a value of a known type: an integer in the lower half, a boolean
  as 0 or 1, a pointer as itself.
\<close>

definition word_stands_for :: "MIRType \<Rightarrow> 64 word \<Rightarrow> snapshot_value \<Rightarrow> bool" where
  "word_stands_for t w V \<longleftrightarrow>
     (\<exists>i. t = MIRType_Int32 \<and> V = Int32Value i \<and> take_bit 32 w = ucast i) \<or>
     (\<exists>b. t = MIRType_Boolean \<and> V = BooleanValue b \<and> w = (if b then 1 else 0)) \<or>
     t = MIRType_String \<and> V = StringValue w \<or>
     t = MIRType_Object \<and> V = ObjectValue w"

definition typed_value ::
  "arch \<Rightarrow> nat \<Rightarrow> nat \<Rightarrow> snapshot_frame \<Rightarrow> nodes \<Rightarrow> attrs \<Rightarrow> nat \<Rightarrow> LAllocation \<Rightarrow> snapshot_value \<Rightarrow> bool" where
  "typed_value a fp lsc f h attr m b V \<longleftrightarrow>
     (\<exists>w. holds_word a fp lsc f b w \<and> word_stands_for (mn_type (h m)) w V) \<or>
     (\<exists>d. holds_double a fp lsc f b d \<and> mn_type (h m) = MIRType_Double \<and> V = DoubleValue d) \<or>
     (la_isConstant b \<and> isConstant h m \<and> V = PoolValue (ma_value (attr m)))"

definition boxed_value ::
  "arch \<Rightarrow> nat \<Rightarrow> nat \<Rightarrow> snapshot_frame \<Rightarrow> LAllocation list \<Rightarrow> nat \<Rightarrow> snapshot_value \<Rightarrow> bool" where
  "boxed_value a fp lsc f ls k V \<longleftrightarrow>
     (if a_punbox a then \<exists>b w. payloadOfSlot a ls k = Some b \<and> holds_word a fp lsc f b w \<and> V = BoxedValue w
      else \<exists>b c tag w. typeOfSlot a ls k = Some b \<and> payloadOfSlot a ls k = Some c \<and>
        holds_word a fp lsc f b tag \<and> holds_word a fp lsc f c w \<and> V = NunboxValue tag w)"

text \<open>
  The value of an operand: an unused definition counts as \<open>undefined\<close>, \<open>undefined\<close> and \<open>null\<close> are
  their types, and the rest is found in the allocations of the slot.
\<close>

definition operand_value ::
  "arch \<Rightarrow> nat \<Rightarrow> nat \<Rightarrow> snapshot_frame \<Rightarrow> nodes \<Rightarrow> attrs \<Rightarrow> LAllocation list \<Rightarrow> nat \<Rightarrow> nat option \<Rightarrow> snapshot_value \<Rightarrow> bool" where
  "operand_value a fp lsc f h attr ls k operand V \<longleftrightarrow>
     (\<exists>m. slot_definition h operand = Some m \<and>
       (if hasFlag h Unused m \<or> mn_type (h m) = MIRType_Undefined then V = UndefinedValue
        else if mn_type (h m) = MIRType_Null then V = NullValue
        else if mn_type (h m) = MIRType_Value then boxed_value a fp lsc f ls k V
        else mn_type (h m) \<in> {MIRType_Int32, MIRType_String, MIRType_Object, MIRType_Boolean, MIRType_Double} \<and>
          (\<exists>b. payloadOfSlot a ls k = Some b \<and> typed_value a fp lsc f h attr m b V)))"

fun operand_values ::
  "arch \<Rightarrow> nat \<Rightarrow> nat \<Rightarrow> snapshot_frame \<Rightarrow> nodes \<Rightarrow> attrs \<Rightarrow> LAllocation list \<Rightarrow> u32 \<Rightarrow> nat option list \<Rightarrow> snapshot_value list \<Rightarrow> bool" where
  "operand_values a fp lsc f h attr ls i [] [] \<longleftrightarrow> True"
| "operand_values a fp lsc f h attr ls i (operand # operands) (V # Vs) \<longleftrightarrow>
     operand_value a fp lsc f h attr ls (unat i) operand V \<and> operand_values a fp lsc f h attr ls (i + 1) operands Vs"
| "operand_values a fp lsc f h attr ls i _ _ \<longleftrightarrow> False"

text \<open>Where an integer constant is recorded, in the pool or in the slot, makes no difference.\<close>

fun unpooled :: "snapshot_value \<Rightarrow> snapshot_value" where
  "unpooled (PoolValue (VInt32 i)) = Int32Value i"
| "unpooled V = V"

text \<open>
  The bounds on a frame: it is smaller than 2 GB, and arguments have offsets that are not
  negative and not 1, the one whose stack index is \<open>INVALID_STACK_SLOT\<close>; they are multiples of 4.
\<close>

definition frame_bounds :: "arch \<Rightarrow> nat \<Rightarrow> LAllocation list \<Rightarrow> bool" where
  "frame_bounds a framePushed ls \<longleftrightarrow> wf_arch a \<and> a_ptr a \<in> {4, 8} \<and> framePushed < 2 ^ 31 \<and>
     (\<forall>b\<in>set ls. la_isArgument b \<longrightarrow> 0 \<le> sint (la_data b) \<and> la_data b \<noteq> 1)"

subsection \<open>Both sides address the same memory\<close>

lemma la_data_less: "sint (la_data b) < 2 ^ 27"
proof -
  have "sint (ucast b :: i32) < 2 ^ 31" using sint_less[of "ucast b :: i32"] by simp
  then show ?thesis
    by (simp add: la_data_def sint_signed_drop_bit_eq drop_bit_eq_div)
qed

lemma sint_of_int_word: "- (2 ^ 31) \<le> k \<Longrightarrow> k < 2 ^ 31 \<Longrightarrow> sint (of_int k :: i32) = k"
  by (simp add: signed_of_int signed_take_bit_int_eq_self)

lemma ToStackIndex_offset:
  assumes b: "frame_bounds a framePushed ls" "c \<in> set ls" "la_isMemory c"
    and off: "ToStackOffset a framePushed lsc c = Some off"
  shows "\<exists>i. ToStackIndex c = Some i \<and> i \<noteq> -1 \<and> sf_fp f + sint (OffsetOfFrameSlot a i) = (sf_fp f - int framePushed) + off"
proof (cases "la_isArgument c")
  case True
  let ?d = "la_data c"
  have d: "0 \<le> sint ?d" "?d \<noteq> 1" "sint ?d < 2 ^ 27" "a_ptr a \<le> 8" "\<not> la_isStackSlot c"
    using b True la_data_less[of c] by (auto simp: frame_bounds_def la_tests)
  have "- ?d = of_int (- sint ?d)" by simp
  then have n: "sint (- ?d) = - sint ?d" using sint_of_int_word[of "- sint ?d"] d by (simp del: of_int_minus)
  have "of_nat (sizeof_IonJSFrameLayout a) + - (- ?d) = (of_int (int (sizeof_IonJSFrameLayout a) + sint ?d) :: i32)"
    by simp
  then have "sint (of_nat (sizeof_IonJSFrameLayout a) + - (- ?d) :: i32) = int (sizeof_IonJSFrameLayout a) + sint ?d"
    using d by (simp add: sint_of_int_word sizeof_IonJSFrameLayout_def del: of_int_add of_int_of_nat_eq of_int_sint)
  then show ?thesis using d True n off
    by (auto simp: ToStackIndex_def ToStackOffset_def toArgument_def OffsetOfFrameSlot_def ArgToStackOffset_def)
next
  case False
  let ?d = "la_data c" and ?p = "a_ptr a"
  have st: "la_isStackSlot c" using b(3) False by (simp add: la_isMemory_def)
  with off False have d: "0 < unat ?d" "unat ?d * ?p \<le> framePushed" "off = int framePushed - int (unat ?d * ?p)"
    by (auto simp: ToStackOffset_def toStackSlot_def SlotToStackOffset_def STACK_SLOT_SIZE_def of_nat_diff split: if_splits)
  have fp: "framePushed < 2 ^ 31" "0 < ?p" using b(1) by (auto simp: frame_bounds_def)
  have small: "unat ?d * ?p < 2 ^ 31" "unat ?d < 2 ^ 31"
    using d(2) fp le_less_trans[of "unat ?d" "unat ?d * ?p" "2 ^ 31"] by (simp_all add: less_le_trans)
  have s: "sint ?d = int (unat ?d)"
  proof -
    have w: "(of_int (int (unat ?d)) :: i32) = ?d" by simp
    have "int (unat ?d) < int (2 ^ 31)" using small(2) by (simp only: of_nat_less_iff)
    then show ?thesis using sint_of_int_word[of "int (unat ?d)"] unfolding w of_nat_power of_nat_numeral by linarith
  qed
  have o: "sint (- (?d * of_nat ?p)) = - int (unat ?d * ?p)"
  proof -
    have w: "(of_int (- int (unat ?d * ?p)) :: i32) = - (?d * of_nat ?p)" by simp
    have "int (unat ?d * ?p) < int (2 ^ 31)" using small(1) by (simp only: of_nat_less_iff)
    then have "- (2 ^ 31) \<le> - int (unat ?d * ?p)" "- int (unat ?d * ?p) < 2 ^ 31"
      unfolding of_nat_power of_nat_numeral by linarith+
    from sint_of_int_word[OF this] show ?thesis unfolding w .
  qed
  have "?d \<ge> 1" using d(1) by (simp add: word_le_nat_alt)
  moreover have pos: "\<not> sint ?d \<le> 0" using s d(1) by linarith
  then have "?d \<noteq> -1" by (cases "?d = -1") simp_all
  ultimately show ?thesis using st pos o d
    by (auto simp: ToStackIndex_def toStackSlot_def OffsetOfFrameSlot_def STACK_SLOT_SIZE_def)
qed

subsection \<open>Encoding is writing entries\<close>

text \<open>The entry that \<open>addEntry\<close> writes for an operand, and its value in the frame of a bailout.\<close>

definition recovers ::
  "arch \<Rightarrow> snapshot_frame \<Rightarrow> js_value list \<Rightarrow> slot_entry \<Rightarrow> snapshot_value \<Rightarrow> bool" where
  "recovers a f pool e V \<longleftrightarrow> wf_entry a e \<and>
     (\<forall>rest. sf_constants f = pool @ rest \<longrightarrow>
        map_option unpooled (slotValue a f (slot_of_entry e)) = Some (unpooled V))"

lemma holds_word_cases:
  assumes "holds_word a fp lsc f b w" "frame_bounds a fp ls" "b \<in> set ls"
  obtains r where "la_isGeneralReg b" "la_isRegister b" "\<not> la_isMemory b" "toGeneralReg b = Some r" "r < a_regs a"
      "ms_regs (sf_machine f) r = Some w"
    | i where "la_isMemory b" "\<not> la_isRegister b" "ToStackIndex b = Some i" "i \<noteq> -1" "ReadFrameSlot a f i = w"
proof (cases "la_isMemory b")
  case True
  then have "\<not> la_isGeneralReg b" "\<not> la_isRegister b" by (auto simp: la_tests)
  with assms(1) obtain off where "ToStackOffset a fp lsc b = Some off"
    "w = load_bytes (sf_memory f) ((sf_fp f - int fp) + off) (a_ptr a)"
    by (auto simp: holds_word_def toGeneralReg_def split: if_splits)
  moreover from ToStackIndex_offset[OF assms(2,3) True this(1), of f] obtain i where i: "ToStackIndex b = Some i"
    "i \<noteq> -1" "sf_fp f + sint (OffsetOfFrameSlot a i) = (sf_fp f - int fp) + off" by blast
  ultimately show ?thesis
    using that(2)[OF True \<open>\<not> la_isRegister b\<close> i(1,2)] by (simp only: ReadFrameSlot_def)
next
  case False
  with assms(1) obtain r where "toGeneralReg b = Some r" "r < a_regs a" "ms_regs (sf_machine f) r = Some w"
    by (auto simp: holds_word_def)
  with that(1) False show ?thesis by (auto simp: toGeneralReg_def la_isRegister_def split: if_splits)
qed

lemma holds_double_cases:
  assumes "holds_double a fp lsc f b d" "frame_bounds a fp ls" "b \<in> set ls"
  obtains r where "la_isFloatReg b" "\<not> la_isGeneralReg b" "\<not> la_isMemory b" "toFloatReg b = Some r" "r < a_fregs a"
      "ms_fregs (sf_machine f) r = Some d"
    | i where "la_isMemory b" "ToStackIndex b = Some i" "i \<noteq> -1" "ReadFrameDoubleSlot a f i = d"
proof (cases "la_isMemory b")
  case True
  then have "\<not> la_isFloatReg b" by (auto simp: la_tests)
  with assms(1) obtain off where "ToStackOffset a fp lsc b = Some off"
    "d = load_bytes (sf_memory f) ((sf_fp f - int fp) + off) 8"
    by (auto simp: holds_double_def toFloatReg_def split: if_splits)
  moreover from ToStackIndex_offset[OF assms(2,3) True this(1), of f] obtain i where i: "ToStackIndex b = Some i"
    "i \<noteq> -1" "sf_fp f + sint (OffsetOfFrameSlot a i) = (sf_fp f - int fp) + off" by blast
  ultimately show ?thesis using that(2)[OF True i(1,2)] by (simp only: ReadFrameDoubleSlot_def)
next
  case False
  with assms(1) obtain r where r: "toFloatReg b = Some r" "r < a_fregs a" "ms_fregs (sf_machine f) r = Some d"
    by (auto simp: holds_double_def)
  then have "la_isFloatReg b" by (auto simp: toFloatReg_def split: if_splits)
  then have "\<not> la_isGeneralReg b" by (simp add: la_tests)
  with that(1) False r \<open>la_isFloatReg b\<close> show ?thesis by blast
qed

lemma word_stands_for_payload:
  assumes "word_stands_for t w V"
  shows "\<exists>type. ValueTypeFromMIRType t = Some type \<and> payload_type type \<and> type \<noteq> JSVAL_TYPE_DOUBLE \<and>
    FromTypedPayload type w = Some V"
proof -
  have "ucast w = i" if "take_bit 32 w = ucast i" for i :: i32
  proof -
    have "ucast (take_bit 32 w) = (ucast w :: i32)" by (rule bit_eqI) (auto simp: bit_ucast_iff bit_take_bit_iff)
    moreover have "ucast (ucast i :: 64 word) = i" by (rule bit_eqI) (auto simp: bit_ucast_iff)
    ultimately show ?thesis using that by metis
  qed
  with assms show ?thesis by (auto simp: word_stands_for_def payload_type_def)
qed

lemma payloadOfSlot_in: "payloadOfSlot a ls k = Some b \<Longrightarrow> b \<in> set ls"
  by (auto simp: payloadOfSlot_def ls_getEntry_def split: if_splits)

lemma typeOfSlot_in: "typeOfSlot a ls k = Some b \<Longrightarrow> b \<in> set ls"
  by (auto simp: typeOfSlot_def ls_getEntry_def split: if_splits)

lemma recovers_word:
  assumes "holds_word a fp lsc f b w" "frame_bounds a fp ls" "b \<in> set ls" "word_stands_for (mn_type (h m)) w V"
  shows "\<exists>e. recovers a f pool e V \<and>
    (\<forall>sw. encode_typed a mem h attr m b (sw, pool) = map_option (\<lambda>sw. (True, sw, pool)) (addEntry a e sw))"
proof -
  obtain type where t: "ValueTypeFromMIRType (mn_type (h m)) = Some type" "payload_type type" "type \<noteq> JSVAL_TYPE_DOUBLE"
    "FromTypedPayload type w = Some V"
    using word_stands_for_payload[OF assms(4)] by blast
  show ?thesis
    using assms(1-3)
  proof (cases rule: holds_word_cases)
    case (1 r)
    then have "recovers a f pool (RegEntry type r) V" using t by (simp add: recovers_def)
    moreover have "encode_typed a mem h attr m b (sw, pool) =
        map_option (\<lambda>sw. (True, sw, pool)) (addEntry a (RegEntry type r) sw)" for sw
      using 1 t by (simp add: encode_typed_def map_option_case split: option.split)
    ultimately show ?thesis by blast
  next
    case (2 i)
    then have "recovers a f pool (StackEntry type i) V" using t by (simp add: recovers_def)
    moreover have "encode_typed a mem h attr m b (sw, pool) =
        map_option (\<lambda>sw. (True, sw, pool)) (addEntry a (StackEntry type i) sw)" for sw
      using 2 t by (simp add: encode_typed_def map_option_case split: option.split)
    ultimately show ?thesis by blast
  qed
qed

lemma recovers_double:
  assumes "holds_double a fp lsc f b d" "frame_bounds a fp ls" "b \<in> set ls" "mn_type (h m) = MIRType_Double"
  shows "\<exists>e. recovers a f pool e (DoubleValue d) \<and>
    (\<forall>sw. encode_typed a mem h attr m b (sw, pool) = map_option (\<lambda>sw. (True, sw, pool)) (addEntry a e sw))"
  using assms(1-3)
proof (cases rule: holds_double_cases)
  case (1 r)
  then have "recovers a f pool (FloatEntry r) (DoubleValue d)" by (simp add: recovers_def)
  moreover have "encode_typed a mem h attr m b (sw, pool) =
      map_option (\<lambda>sw. (True, sw, pool)) (addEntry a (FloatEntry r) sw)" for sw
    using 1 assms(4) by (simp add: encode_typed_def map_option_case split: option.split)
  ultimately show ?thesis by blast
next
  case (2 i)
  then have "recovers a f pool (StackEntry JSVAL_TYPE_DOUBLE i) (DoubleValue d)" by (simp add: recovers_def)
  moreover have "encode_typed a mem h attr m b (sw, pool) =
      map_option (\<lambda>sw. (True, sw, pool)) (addEntry a (StackEntry JSVAL_TYPE_DOUBLE i) sw)" for sw
    using 2 assms(4) by (simp add: encode_typed_def map_option_case split: option.split)
  ultimately show ?thesis by blast
qed

lemma recovers_constant:
  assumes "la_isConstant b" "isConstant h m" "ValueTypeFromMIRType (mn_type (h m)) \<noteq> None" "length pool < 2 ^ 32"
  shows "(\<exists>e pool' new. pool' = pool @ new \<and> length new \<le> 1 \<and> recovers a f pool' e (PoolValue (ma_value (attr m))) \<and>
    (\<forall>sw. encode_typed a mem h attr m b (sw, pool) = map_option (\<lambda>sw. (True, sw, pool')) (addEntry a e sw))) \<or>
    (\<not> mem (length pool) \<and> (\<forall>sw. encode_typed a mem h attr m b (sw, pool) = Some (False, sw, pool)))"
proof -
  have nb: "\<not> la_isMemory b" "\<not> la_isGeneralReg b" "\<not> la_isFloatReg b" using assms(1) by (auto simp: la_tests)
  let ?v = "ma_value (attr m)"
  show ?thesis
  proof (cases "small_int ?v")
    case (Some i)
    then have "?v = VInt32 i" by (auto simp: small_int_def split: js_value.splits if_splits)
    then have "recovers a f pool (Int32Entry i) (PoolValue ?v)" by (simp add: recovers_def)
    moreover have "encode_typed a mem h attr m b (sw, pool) =
        map_option (\<lambda>sw. (True, sw, pool)) (addEntry a (Int32Entry i) sw)" for sw
      using nb Some assms(2,3) by (auto simp: encode_typed_def map_option_case split: option.split)
    ultimately show ?thesis by (intro disjI1 exI[of _ "Int32Entry i"] exI[of _ pool] exI[of _ "[]"]) simp
  next
    case None
    show ?thesis
    proof (cases "mem (length pool)")
      case True
      let ?e = "ConstantEntry (of_nat (length pool))"
      have "unat (of_nat (length pool) :: u32) = length pool" using assms(4) by (simp add: unat_of_nat)
      then have "recovers a f (pool @ [?v]) ?e (PoolValue ?v)"
        by (auto simp: recovers_def nth_append)
      moreover have "encode_typed a mem h attr m b (sw, pool) =
          map_option (\<lambda>sw. (True, sw, pool @ [?v])) (addEntry a ?e sw)" for sw
        using nb None True assms(2,3)
        by (auto simp: encode_typed_def addConstantToPool_def map_option_case split: option.split)
      ultimately show ?thesis by (intro disjI1 exI[of _ ?e] exI[of _ "pool @ [?v]"] exI[of _ "[?v]"]) simp
    next
      case False
      then have "encode_typed a mem h attr m b (sw, pool) = Some (False, sw, pool)" for sw
        using nb None assms(2,3) by (auto simp: encode_typed_def addConstantToPool_def)
      with False show ?thesis by blast
    qed
  qed
qed

lemma recovers_boxed:
  assumes "boxed_value a fp lsc f ls k V" "frame_bounds a fp ls"
  shows "\<exists>e. recovers a f pool e V \<and>
    (if a_punbox a then \<exists>b. payloadOfSlot a ls k = Some b \<and> (\<forall>sw. encode_punbox a b sw = addEntry a e sw)
     else \<exists>t b. typeOfSlot a ls k = Some t \<and> payloadOfSlot a ls k = Some b \<and>
       (\<forall>sw. encode_nunbox t b sw = addEntry a e sw))"
proof (cases "a_punbox a")
  case True
  then obtain b w where b: "payloadOfSlot a ls k = Some b" "holds_word a fp lsc f b w" "V = BoxedValue w"
    using assms(1) by (auto simp: boxed_value_def)
  from b(2) assms(2) payloadOfSlot_in[OF b(1)] show ?thesis
  proof (cases rule: holds_word_cases)
    case (1 r)
    then have "recovers a f pool (ValueRegEntry r) V" using b(3) True by (simp add: recovers_def fromLocation_def)
    moreover have "encode_punbox a b sw = addEntry a (ValueRegEntry r) sw" for sw
      using 1 by (simp add: encode_punbox_def)
    ultimately show ?thesis using b(1) True by auto
  next
    case (2 i)
    then have "recovers a f pool (ValueStackEntry i) V" using b(3) True by (simp add: recovers_def fromLocation_def)
    moreover have "encode_punbox a b sw = addEntry a (ValueStackEntry i) sw" for sw
      using 2 by (simp add: encode_punbox_def)
    ultimately show ?thesis using b(1) True by auto
  qed
next
  case False
  then obtain t b tag w where b: "typeOfSlot a ls k = Some t" "payloadOfSlot a ls k = Some b"
    "holds_word a fp lsc f t tag" "holds_word a fp lsc f b w" "V = NunboxValue tag w"
    using assms(1) by (auto simp: boxed_value_def)
  have "\<exists>e. recovers a f pool e V \<and> (\<forall>sw. encode_nunbox t b sw = addEntry a e sw)"
    using b(3) assms(2) typeOfSlot_in[OF b(1)]
  proof (cases rule: holds_word_cases)
    case t: (1 r)
    from b(4) assms(2) payloadOfSlot_in[OF b(2)] show ?thesis
    proof (cases rule: holds_word_cases)
      case (1 q)
      then show ?thesis using t b(5) False
        by (intro exI[of _ "RegRegEntry r q"]) (simp add: recovers_def fromLocation_def encode_nunbox_def)
    next
      case (2 q)
      then show ?thesis using t b(5) False
        by (intro exI[of _ "RegStackEntry r q"]) (simp add: recovers_def fromLocation_def encode_nunbox_def)
    qed
  next
    case t: (2 r)
    from b(4) assms(2) payloadOfSlot_in[OF b(2)] show ?thesis
    proof (cases rule: holds_word_cases)
      case (1 q)
      then show ?thesis using t b(5) False
        by (intro exI[of _ "StackRegEntry r q"]) (simp add: recovers_def fromLocation_def encode_nunbox_def)
    next
      case (2 q)
      then show ?thesis using t b(5) False
        by (intro exI[of _ "StackStackEntry r q"]) (simp add: recovers_def fromLocation_def encode_nunbox_def)
    qed
  qed
  with b(1,2) False show ?thesis by auto
qed

definition encodes ::
  "arch \<Rightarrow> (nat \<Rightarrow> bool) \<Rightarrow> snapshot_frame \<Rightarrow> js_value list \<Rightarrow> snapshot_value \<Rightarrow> (snapshot_writer \<Rightarrow> (bool \<times> encoder) option) \<Rightarrow> bool" where
  "encodes a mem f pool V enc \<longleftrightarrow>
     (\<exists>e pool' new. pool' = pool @ new \<and> length new \<le> 1 \<and> recovers a f pool' e V \<and>
        (\<forall>sw. enc sw = map_option (\<lambda>sw. (True, sw, pool')) (addEntry a e sw))) \<or>
     (\<not> mem (length pool) \<and> (\<forall>sw. enc sw = Some (False, sw, pool)))"

lemma encodes_entry:
  "recovers a f pool e V \<Longrightarrow> (\<And>sw. enc sw = map_option (\<lambda>sw. (True, sw, pool)) (addEntry a e sw)) \<Longrightarrow>
   encodes a mem f pool V enc"
  unfolding encodes_def by (intro disjI1 exI[of _ e] exI[of _ pool] exI[of _ "[]"]) simp

lemma encodeSlot_encodes:
  assumes "operand_value a fp lsc f h attr ls (unat i) operand V" "frame_bounds a fp ls" "length pool < 2 ^ 32"
  shows "encodes a mem f pool V (\<lambda>sw. encodeSlot a mem h attr ls i operand (sw, pool))"
proof -
  obtain m where m: "slot_definition h operand = Some m"
    and v: "if hasFlag h Unused m \<or> mn_type (h m) = MIRType_Undefined then V = UndefinedValue
        else if mn_type (h m) = MIRType_Null then V = NullValue
        else if mn_type (h m) = MIRType_Value then boxed_value a fp lsc f ls (unat i) V
        else mn_type (h m) \<in> {MIRType_Int32, MIRType_String, MIRType_Object, MIRType_Boolean, MIRType_Double} \<and>
          (\<exists>b. payloadOfSlot a ls (unat i) = Some b \<and> typed_value a fp lsc f h attr m b V)"
    using assms(1) unfolding operand_value_def by blast
  consider "hasFlag h Unused m \<or> mn_type (h m) = MIRType_Undefined"
    | "\<not> hasFlag h Unused m" "mn_type (h m) = MIRType_Null"
    | "\<not> hasFlag h Unused m" "mn_type (h m) = MIRType_Value"
    | "\<not> hasFlag h Unused m" "mn_type (h m) \<in> {MIRType_Int32, MIRType_String, MIRType_Object, MIRType_Boolean, MIRType_Double}"
    using v by (auto split: if_splits)
  then show ?thesis
  proof cases
    case 1
    then have "recovers a f pool UndefinedEntry V" using v by (simp add: recovers_def)
    then show ?thesis
      by (rule encodes_entry) (use 1 m in \<open>auto simp: encodeSlot_def map_option_case split: option.split\<close>)
  next
    case 2
    then have "recovers a f pool NullEntry V" using v by (simp add: recovers_def)
    then show ?thesis
      by (rule encodes_entry) (use 2 m in \<open>auto simp: encodeSlot_def map_option_case split: option.split\<close>)
  next
    case 3
    then have "boxed_value a fp lsc f ls (unat i) V" using v by simp
    from recovers_boxed[OF this assms(2), of pool] obtain e where e: "recovers a f pool e V"
      "if a_punbox a then \<exists>b. payloadOfSlot a ls (unat i) = Some b \<and> (\<forall>sw. encode_punbox a b sw = addEntry a e sw)
       else \<exists>t b. typeOfSlot a ls (unat i) = Some t \<and> payloadOfSlot a ls (unat i) = Some b \<and>
         (\<forall>sw. encode_nunbox t b sw = addEntry a e sw)" by blast
    show ?thesis using e(1)
      by (rule encodes_entry)
        (use 3 m e(2) in \<open>auto simp: encodeSlot_def map_option_case split: option.split if_splits\<close>)
  next
    case 4
    then obtain b where b: "payloadOfSlot a ls (unat i) = Some b" "typed_value a fp lsc f h attr m b V"
      using v by auto
    note bl = payloadOfSlot_in[OF b(1)]
    have "encodeSlot a mem h attr ls i operand (sw, pool) = encode_typed a mem h attr m b (sw, pool)" for sw
      using 4 m b(1) by (auto simp: encodeSlot_def)
    moreover have "encodes a mem f pool V (\<lambda>sw. encode_typed a mem h attr m b (sw, pool))"
      using b(2) unfolding typed_value_def
    proof (elim disjE exE conjE)
      fix w assume "holds_word a fp lsc f b w" "word_stands_for (mn_type (h m)) w V"
      from recovers_word[where h = h and m = m, OF this(1) assms(2) bl this(2), of pool] show ?thesis by (blast intro: encodes_entry)
    next
      fix d assume "holds_double a fp lsc f b d" "mn_type (h m) = MIRType_Double" "V = DoubleValue d"
      from recovers_double[where h = h and m = m, OF this(1) assms(2) bl this(2), of pool] this(3) show ?thesis by (blast intro: encodes_entry)
    next
      assume c: "la_isConstant b" "isConstant h m" "V = PoolValue (ma_value (attr m))"
      have "ValueTypeFromMIRType (mn_type (h m)) \<noteq> None" using 4(2) by auto
      from recovers_constant[OF c(1,2) this assms(3), of a f attr mem] show ?thesis
        unfolding encodes_def c(3) .
    qed
    ultimately show ?thesis by (simp only:)
  qed
qed

lemma recovers_mono: "recovers a f pool e V \<Longrightarrow> recovers a f (pool @ new) e V"
  by (auto simp: recovers_def)

lemma encodeSlots_loop_encodes:
  assumes "operand_values a fp lsc f h attr ls i operands Vs" "frame_bounds a fp ls"
    "length pool + length operands < 2 ^ 32" "sw_slotsWritten sw + length operands \<le> sw_nslots sw"
  shows "\<exists>ok sw' pool'. encodeSlots_loop a mem h attr ls i operands (sw, pool) = Some (ok, sw', pool') \<and>
    ((\<forall>n. mem n) \<longrightarrow> ok) \<and>
    (ok \<longrightarrow> (\<exists>es new. pool' = pool @ new \<and> length es = length operands \<and> list_all2 (recovers a f pool') es Vs \<and>
      sw_writer sw' = cw_emit (concat (map (entry_bytes a) es)) (sw_writer sw)))"
  using assms
proof (induction operands arbitrary: i Vs sw pool)
  case Nil
  then show ?case by (cases Vs) (auto intro!: exI[of _ "[]"])
next
  case (Cons operand operands)
  obtain V Vs' where Vs: "Vs = V # Vs'" "operand_value a fp lsc f h attr ls (unat i) operand V"
    "operand_values a fp lsc f h attr ls (i + 1) operands Vs'"
    using Cons.prems(1) by (cases Vs) auto
  have "encodes a mem f pool V (\<lambda>sw. encodeSlot a mem h attr ls i operand (sw, pool))"
    using encodeSlot_encodes[OF Vs(2) Cons.prems(2), of pool mem] Cons.prems(3) by simp
  then consider e pool1 new1 where "pool1 = pool @ new1" "length new1 \<le> 1" "recovers a f pool1 e V"
      "\<And>sw. encodeSlot a mem h attr ls i operand (sw, pool) = map_option (\<lambda>sw. (True, sw, pool1)) (addEntry a e sw)"
    | "\<not> mem (length pool)" "\<And>sw. encodeSlot a mem h attr ls i operand (sw, pool) = Some (False, sw, pool)"
    unfolding encodes_def by blast
  then show ?case
  proof cases
    case (1 e pool1 new1)
    let ?sw = "sw\<lparr>sw_writer := cw_emit (entry_bytes a e) (sw_writer sw), sw_slotsWritten := sw_slotsWritten sw + 1\<rparr>"
    have "wf_arch a" "wf_entry a e" using Cons.prems(2) 1(3) by (auto simp: frame_bounds_def recovers_def)
    then have add: "addEntry a e sw = Some ?sw" using addEntry_emit[of a e sw] Cons.prems(4) by simp
    have "length pool1 + length operands < 2 ^ 32" "sw_slotsWritten ?sw + length operands \<le> sw_nslots ?sw"
      using Cons.prems(3,4) 1(1,2) by simp_all
    from Cons.IH[OF Vs(3) Cons.prems(2) this] obtain ok sw' pool' where
      l: "encodeSlots_loop a mem h attr ls (i + 1) operands (?sw, pool1) = Some (ok, sw', pool')" "(\<forall>n. mem n) \<longrightarrow> ok"
      "ok \<longrightarrow> (\<exists>es new. pool' = pool1 @ new \<and> length es = length operands \<and> list_all2 (recovers a f pool') es Vs' \<and>
        sw_writer sw' = cw_emit (concat (map (entry_bytes a) es)) (sw_writer ?sw))"
      by (elim exE conjE) (rule that)
    have "encodeSlots_loop a mem h attr ls i (operand # operands) (sw, pool) = Some (ok, sw', pool')"
      using l(1) 1(4)[of sw] add by simp
    moreover have "\<exists>es new. pool' = pool @ new \<and> length es = length (operand # operands) \<and>
        list_all2 (recovers a f pool') es Vs \<and>
        sw_writer sw' = cw_emit (concat (map (entry_bytes a) es)) (sw_writer sw)" if ok
    proof -
      from l(3) that obtain es new where r: "pool' = pool1 @ new" "length es = length operands"
        "list_all2 (recovers a f pool') es Vs'"
        "sw_writer sw' = cw_emit (concat (map (entry_bytes a) es)) (sw_writer ?sw)" by blast
      then show ?thesis using 1(1,3) recovers_mono[of a f pool1 e V new] Vs(1)
        by (intro exI[of _ "e # es"] exI[of _ "new1 @ new"]) simp
    qed
    ultimately show ?thesis using l(2) by blast
  next
    case 2
    then show ?thesis by auto
  qed
qed

lemma recovered_values:
  assumes "list_all2 (recovers a f pool) es Vs" "sf_constants f = pool @ rest"
  shows "list_all2 (\<lambda>s V. map_option unpooled (slotValue a f s) = Some (unpooled V)) (map slot_of_entry es) Vs"
  using assms(1)
proof (induction rule: list_all2_induct)
  case (Cons e es V Vs)
  then show ?case using assms(2) by (simp add: recovers_def)
qed simp

text \<open>
  C7: a bailout recovers the operands of a resume point.  Take operands whose values the generated
  code keeps in the allocations of the snapshot: in a register, at the offset from its stack
  pointer that \<open>ToStackOffset\<close> gives, or as a constant, integers and booleans in the
  representation of the machine, boxed values whole or as tag and payload.  Then \<open>encodeSlots\<close> fails
  no assertion, succeeds when the constant pool can grow, moves the start index behind the
  operands, and the slots decoded from the bytes it has written evaluate, with the frame and the
  registers that the bailout finds and with a constant pool that begins with the one built so far,
  to these values, one slot per operand, in order.  Definitions marked unused come back as
  \<open>undefined\<close>.  The frame is smaller than 2 GB, no argument has the offset 1 (see
  \<open>frame_bounds\<close>), and the writer expects at least as many slots.
\<close>

theorem encoded_operands_recovered:
  assumes vals: "operand_values a framePushed lsc f h attr ls startIndex (mn_operands (h rp)) Vs"
    and bounds: "frame_bounds a framePushed ls"
    and pool: "length pool + numOperands h rp < 2 ^ 32"
    and room: "sw_slotsWritten sw + numOperands h rp \<le> sw_nslots sw"
  shows "\<exists>ok start' sw' pool'. encodeSlots a mem h attr ls rp startIndex (sw, pool) = Some (ok, start', sw', pool') \<and>
    ((\<forall>n. mem n) \<longrightarrow> ok) \<and>
    (ok \<longrightarrow> start' = startIndex + of_nat (numOperands h rp) \<and>
      (\<exists>bytes. sw_writer sw' = cw_emit bytes (sw_writer sw) \<and>
        (\<forall>sr r rest. sr_slotsRead sr + numOperands h rp \<le> sr_slotCount sr \<longrightarrow> sr_reader sr = bytes @ r \<longrightarrow>
           sf_constants f = pool' @ rest \<longrightarrow>
           (\<exists>ss sr'. readSlots a (numOperands h rp) sr = Some (ss, sr') \<and> sr_reader sr' = r \<and>
              list_all2 (\<lambda>s V. map_option unpooled (slotValue a f s) = Some (unpooled V)) ss Vs))))"
proof -
  let ?n = "numOperands h rp"
  have n: "?n = length (mn_operands (h rp))" by (simp add: numOperands_def)
  from encodeSlots_loop_encodes[OF vals bounds pool[unfolded n] room[unfolded n], of mem] obtain ok sw' pool' where
    l: "encodeSlots_loop a mem h attr ls startIndex (mn_operands (h rp)) (sw, pool) = Some (ok, sw', pool')"
      "(\<forall>n. mem n) \<longrightarrow> ok"
      "ok \<longrightarrow> (\<exists>es new. pool' = pool @ new \<and> length es = length (mn_operands (h rp)) \<and> list_all2 (recovers a f pool') es Vs \<and>
        sw_writer sw' = cw_emit (concat (map (entry_bytes a) es)) (sw_writer sw))"
    by (elim exE conjE) (rule that)
  have res: "encodeSlots a mem h attr ls rp startIndex (sw, pool) =
      Some (ok, if ok then startIndex + of_nat ?n else startIndex, sw', pool')"
    using l(1) by (simp add: encodeSlots_def)
  have "\<exists>bytes. sw_writer sw' = cw_emit bytes (sw_writer sw) \<and>
        (\<forall>sr r rest. sr_slotsRead sr + ?n \<le> sr_slotCount sr \<longrightarrow> sr_reader sr = bytes @ r \<longrightarrow>
           sf_constants f = pool' @ rest \<longrightarrow>
           (\<exists>ss sr'. readSlots a ?n sr = Some (ss, sr') \<and> sr_reader sr' = r \<and>
              list_all2 (\<lambda>s V. map_option unpooled (slotValue a f s) = Some (unpooled V)) ss Vs))" if ok
  proof -
    from l(3) that obtain es where es: "length es = ?n" "list_all2 (recovers a f pool') es Vs"
      "sw_writer sw' = cw_emit (concat (map (entry_bytes a) es)) (sw_writer sw)" unfolding n by blast
    have wf: "wf_arch a" "\<forall>e\<in>set es. wf_entry a e"
      using bounds es(2) by (auto simp: frame_bounds_def recovers_def list_all2_conv_all_nth in_set_conv_nth)
    show ?thesis
    proof (rule exI[of _ "concat (map (entry_bytes a) es)"], intro conjI allI impI)
      show "sw_writer sw' = cw_emit (concat (map (entry_bytes a) es)) (sw_writer sw)" by (rule es(3))
      fix sr :: snapshot_reader and r rest
      assume r: "sr_slotsRead sr + ?n \<le> sr_slotCount sr" "sr_reader sr = concat (map (entry_bytes a) es) @ r"
        "sf_constants f = pool' @ rest"
      have "readSlots a ?n sr = Some (map slot_of_entry es, sr\<lparr>sr_slotsRead := sr_slotsRead sr + length es, sr_reader := r\<rparr>)"
        using readSlots_entries[OF wf, of sr r] r(1,2) es(1) by simp
      with recovered_values[OF es(2) r(3)]
      show "\<exists>ss sr'. readSlots a ?n sr = Some (ss, sr') \<and> sr_reader sr' = r \<and>
          list_all2 (\<lambda>s V. map_option unpooled (slotValue a f s) = Some (unpooled V)) ss Vs" by auto
    qed
  qed
  with l(2) res show ?thesis by auto
qed

text \<open>On x64: an int32 in stack slot 2, a constant, and a boxed value in register 3.\<close>

definition ex_graph :: nodes where
  "ex_graph k =
     (if k = 0 then ex_node Op_Parameter [Some 1, Some 2, Some 3] MIRType_None 0
      else if k = 1 then ex_node Op_Add [] MIRType_Int32 1
      else if k = 2 then ex_node Op_Constant [] MIRType_Int32 2
      else ex_node Op_Parameter [] MIRType_Value 3)"

definition ex_frame :: snapshot_frame where
  "ex_frame = \<lparr>sf_fp = 4096, sf_memory = (\<lambda>addr. if addr = 4080 then 5 else 0),
     sf_machine = \<lparr>ms_regs = (\<lambda>r. Some 9), ms_fregs = (\<lambda>r. None)\<rparr>, sf_constants = [VInt32 100]\<rparr>"

definition ex_allocations :: "LAllocation list" where
  "ex_allocations = [42, 4, 54]"

lemma ex_allocation_facts:
  "toGeneralReg (54 :: LAllocation) = Some 3" "la_isMemory (42 :: LAllocation)"
  "ToStackOffset (arch_x64 False) 32 4 42 = Some 16" "la_isConstant (4 :: LAllocation)"
  "\<not> la_isArgument (54 :: LAllocation)" "\<not> la_isArgument (42 :: LAllocation)" "\<not> la_isArgument (4 :: LAllocation)"
  by code_simp+

lemma ex_operand_values:
  "operand_values (arch_x64 False) 32 4 ex_frame ex_graph (ex_attrs MIRType_Int32 VUndefined (VInt32 100)) ex_allocations 0
     (mn_operands (ex_graph 0)) [Int32Value 5, PoolValue (VInt32 100), BoxedValue 9]"
proof -
  let ?a = "arch_x64 False"
  have p: "payloadOfSlot ?a ex_allocations 0 = Some 42" "payloadOfSlot ?a ex_allocations 1 = Some 4"
    "payloadOfSlot ?a ex_allocations (Suc 0) = Some 4" "payloadOfSlot ?a ex_allocations 2 = Some 54"
    by (simp_all add: payloadOfSlot_def ls_getEntry_def ls_numSlots_def BOX_PIECES_def arch_x64_def ex_allocations_def)
  have "load_bytes (sf_memory ex_frame) (4096 - 32 + 16) 8 = 5"
    by code_simp
  then have "holds_word ?a 32 4 ex_frame 42 5"
    using ex_allocation_facts by (simp add: holds_word_def ex_frame_def arch_x64_def)
  moreover have "holds_word ?a 32 4 ex_frame 54 9"
    using ex_allocation_facts by (simp add: holds_word_def ex_frame_def arch_x64_def)
  moreover have "word_stands_for MIRType_Int32 5 (Int32Value 5)"
    by (simp add: word_stands_for_def)
  ultimately show ?thesis
    using p ex_allocation_facts
    by (simp add: ex_graph_def ex_node_def operand_value_def slot_definition_def hasFlag_def typed_value_def
        boxed_value_def isConstant_def ex_attrs_def) (auto simp: arch_x64_def)
qed

theorem encoded_operands_recovered_witness:
  "\<exists>sw' pool' bytes. encodeSlots (arch_x64 False) (\<lambda>n. True) ex_graph (ex_attrs MIRType_Int32 VUndefined (VInt32 100))
      ex_allocations 0 0 (\<lparr>sw_writer = writer_new (\<lambda>n. True), sw_nslots = 3, sw_slotsWritten = 0, sw_nframes = 1,
        sw_framesWritten = 0, sw_lastStart = 0\<rparr>, []) = Some (True, 3, sw', pool') \<and>
    sw_writer sw' = cw_emit bytes (writer_new (\<lambda>n. True))"
proof -
  have n: "numOperands ex_graph 0 = 3" by (simp add: numOperands_def ex_graph_def ex_node_def)
  have b: "frame_bounds (arch_x64 False) 32 ex_allocations"
    using ex_allocation_facts by (simp add: frame_bounds_def ex_allocations_def) (simp add: arch_x64_def)
  show ?thesis
    using encoded_operands_recovered[OF ex_operand_values b, of "[]"
        "\<lparr>sw_writer = writer_new (\<lambda>n. True), sw_nslots = 3, sw_slotsWritten = 0, sw_nframes = 1,
          sw_framesWritten = 0, sw_lastStart = 0\<rparr>" "\<lambda>n. True"]
    by (auto simp: n)
qed

end
