(* ===== verification/Safepoints.thy ===== *)
theory Safepoints
  imports Bit_Set Snapshots Register_Sets
begin

text \<open>
  The safepoint stream (\<open>ion/Safepoints.cpp\<close>, \<open>ion/Safepoints.h\<close>, the class \<open>LSafepoint\<close> of
  \<open>ion/LIR.h\<close> and \<open>CodeGeneratorShared::encodeSafepoint\<close>): which registers and stack slots hold
  garbage-collected things at a call, written by the code generator and read by the collector.

  The state of writer and reader is a record with the fields of the classes. \<open>JS_FLOOR_LOG2\<close>
  and \<open>MacroAssembler::actualOffset\<close> are parameters. The main result is that the collector
  sees exactly the slots and registers the code generator recorded.
\<close>

subsection \<open>Safepoints of the LIR\<close>

definition INVALID_SAFEPOINT_OFFSET :: u32 where "INVALID_SAFEPOINT_OFFSET = -1"

record lsafepoint =
  lsp_liveRegs :: RegisterSet
  lsp_gcRegs :: regset
  lsp_offset :: u32
  lsp_osiCallPointOffset :: u32
  lsp_gcSlots :: "u32 list"
  lsp_valueSlots :: "u32 list"
  lsp_nunboxParts :: nat

definition LSafepoint :: lsafepoint where
  "LSafepoint = \<lparr>lsp_liveRegs = \<lparr>gpr_set = TypedRegisterSet 0, fpu_set = TypedRegisterSet 0\<rparr>,
     lsp_gcRegs = TypedRegisterSet 0, lsp_offset = INVALID_SAFEPOINT_OFFSET,
     lsp_osiCallPointOffset = 0, lsp_gcSlots = [], lsp_valueSlots = [], lsp_nunboxParts = 0\<rparr>"

definition addLiveRegister :: "AnyRegister \<Rightarrow> lsafepoint \<Rightarrow> lsafepoint option" where
  "addLiveRegister r sp = do {
     regs \<leftarrow> RegisterSet_add r (lsp_liveRegs sp);
     Some (sp\<lparr>lsp_liveRegs := regs\<rparr>) }"

definition addGcRegister :: "nat \<Rightarrow> lsafepoint \<Rightarrow> lsafepoint option" where
  "addGcRegister r sp = do { regs \<leftarrow> rs_add r (lsp_gcRegs sp); Some (sp\<lparr>lsp_gcRegs := regs\<rparr>) }"

definition addGcSlot :: "u32 \<Rightarrow> lsafepoint \<Rightarrow> lsafepoint" where
  "addGcSlot s sp = sp\<lparr>lsp_gcSlots := lsp_gcSlots sp @ [s]\<rparr>"

definition addValueSlot :: "u32 \<Rightarrow> lsafepoint \<Rightarrow> lsafepoint" where
  "addValueSlot s sp = sp\<lparr>lsp_valueSlots := lsp_valueSlots sp @ [s]\<rparr>"

definition lsp_encoded :: "lsafepoint \<Rightarrow> bool" where
  "lsp_encoded sp \<longleftrightarrow> lsp_offset sp \<noteq> INVALID_SAFEPOINT_OFFSET"

definition setOsiCallPointOffset :: "u32 \<Rightarrow> lsafepoint \<Rightarrow> lsafepoint option" where
  "setOsiCallPointOffset off sp = do {
     js_assert (lsp_osiCallPointOffset sp = 0);
     Some (sp\<lparr>lsp_osiCallPointOffset := off\<rparr>) }"

definition fixupOffset :: "(u32 \<Rightarrow> u32) \<Rightarrow> lsafepoint \<Rightarrow> lsafepoint" where
  "fixupOffset actualOffset sp =
     sp\<lparr>lsp_osiCallPointOffset := actualOffset (lsp_osiCallPointOffset sp),
        lsp_offset := actualOffset (lsp_offset sp)\<rparr>"

text \<open>\<open>restRegs\<close>: the live wrapper registers that hold no GC thing.\<close>

definition restRegs :: "codes \<Rightarrow> codes \<Rightarrow> u32 \<Rightarrow> u32 \<Rightarrow> lsafepoint \<Rightarrow> RegisterSet" where
  "restRegs cg cf gprWrapper fpuWrapper sp =
     (let gc = \<lparr>gpr_set = lsp_gcRegs sp, fpu_set = TypedRegisterSet 0\<rparr>;
          wrapper = \<lparr>gpr_set = TypedRegisterSet gprWrapper, fpu_set = TypedRegisterSet fpuWrapper\<rparr>
      in RegisterSet_Intersect (RegisterSet_Intersect wrapper (lsp_liveRegs sp)) (RegisterSet_Not cg cf gc))"

subsection \<open>Writer\<close>

record safepoint_writer =
  spw_stream :: writer
  spw_frameSlots :: bit_set

definition SafepointWriter_init :: "bool \<Rightarrow> nat \<Rightarrow> writer \<Rightarrow> safepoint_writer option" where
  "SafepointWriter_init alloc localSlotCount w = do {
     bs \<leftarrow> BitSet_New alloc localSlotCount;
     Some \<lparr>spw_stream = w, spw_frameSlots = bs\<rparr> }"

definition spw_lift :: "(writer \<Rightarrow> writer option) \<Rightarrow> safepoint_writer \<Rightarrow> safepoint_writer option" where
  "spw_lift f sw = do { w \<leftarrow> f (spw_stream sw); Some (sw\<lparr>spw_stream := w\<rparr>) }"

definition startEntry :: "safepoint_writer \<Rightarrow> nat" where
  "startEntry sw = cw_length (spw_stream sw)"

definition writeOsiCallPointOffset :: "u32 \<Rightarrow> safepoint_writer \<Rightarrow> safepoint_writer option" where
  "writeOsiCallPointOffset off = spw_lift (writeUnsigned off)"

text \<open>\<open>sizeof(PackedRegisterMask)\<close> in bytes: a \<open>uint8\<close> on x86 and a \<open>uint16\<close> on x64.\<close>

definition sizeof_PackedRegisterMask :: "arch \<Rightarrow> nat" where
  "sizeof_PackedRegisterMask a = (if a_punbox a then 2 else 1)"

definition WriteRegisterMask :: "arch \<Rightarrow> u32 \<Rightarrow> writer \<Rightarrow> writer option" where
  "WriteRegisterMask a bits w =
     (if sizeof_PackedRegisterMask a = 8 then writeByte bits w else writeUnsigned bits w)"

definition writeGcRegs :: "arch \<Rightarrow> regset \<Rightarrow> regset \<Rightarrow> safepoint_writer \<Rightarrow> safepoint_writer option" where
  "writeGcRegs a actual spilled sw = do {
     sw \<leftarrow> spw_lift (WriteRegisterMask a (rs_bits actual)) sw;
     if \<not> rs_empty actual then spw_lift (WriteRegisterMask a (rs_bits spilled)) sw else Some sw }"

definition MapSlotsToBitset :: "bit_set \<Rightarrow> writer \<Rightarrow> u32 list \<Rightarrow> (bit_set \<times> writer) option" where
  "MapSlotsToBitset bs w slots = do {
     bs \<leftarrow> mfold (\<lambda>s. bs_insert (unat (s - 1))) slots (bs_clear bs);
     w \<leftarrow> mfold writeUnsigned (bs_bits bs) w;
     Some (bs, w) }"

definition writeGcSlots :: "u32 list \<Rightarrow> safepoint_writer \<Rightarrow> safepoint_writer option" where
  "writeGcSlots slots sw = do {
     (bs, w) \<leftarrow> MapSlotsToBitset (spw_frameSlots sw) (spw_stream sw) slots;
     Some \<lparr>spw_stream = w, spw_frameSlots = bs\<rparr> }"

definition writeValueSlots :: "u32 list \<Rightarrow> safepoint_writer \<Rightarrow> safepoint_writer option" where
  "writeValueSlots slots sw = do {
     (bs, w) \<leftarrow> MapSlotsToBitset (spw_frameSlots sw) (spw_stream sw) slots;
     Some \<lparr>spw_stream = w, spw_frameSlots = bs\<rparr> }"

text \<open>\<open>writeNunboxParts\<close> writes nothing, whatever the entries are.\<close>

definition writeNunboxParts :: "nat \<Rightarrow> safepoint_writer \<Rightarrow> safepoint_writer" where
  "writeNunboxParts nentries sw = sw"

definition encodeSafepoint :: "arch \<Rightarrow> (u32 \<Rightarrow> u32) \<Rightarrow> lsafepoint \<Rightarrow> safepoint_writer \<Rightarrow>
    (lsafepoint \<times> safepoint_writer) option" where
  "encodeSafepoint a actualOffset sp sw =
     (if lsp_encoded sp then Some (sp, sw) else do {
        let sp = fixupOffset actualOffset sp;
        let safepointOffset = startEntry sw;
        js_assert (lsp_osiCallPointOffset sp \<noteq> 0);
        sw \<leftarrow> writeOsiCallPointOffset (lsp_osiCallPointOffset sp) sw;
        sw \<leftarrow> writeGcRegs a (lsp_gcRegs sp) (gpr_set (lsp_liveRegs sp)) sw;
        sw \<leftarrow> writeGcSlots (lsp_gcSlots sp) sw;
        sw \<leftarrow> (if a_punbox a then Some sw else do {
                 sw \<leftarrow> writeValueSlots (lsp_valueSlots sp) sw;
                 Some (writeNunboxParts (lsp_nunboxParts sp) sw) });
        Some (sp\<lparr>lsp_offset := of_nat safepointOffset\<rparr>, sw) })"

subsection \<open>Reader\<close>

record safepoint_reader =
  spr_stream :: reader
  spr_localSlotCount :: nat
  spr_chunk :: u32
  spr_chunkNumber :: nat
  spr_osiCallPointOffset :: u32
  spr_gcSpills :: regset
  spr_allSpills :: regset

definition spr_readUnsigned :: "safepoint_reader \<Rightarrow> (u32 \<times> safepoint_reader) option" where
  "spr_readUnsigned sr = do { (v, r) \<leftarrow> readUnsigned (spr_stream sr); Some (v, sr\<lparr>spr_stream := r\<rparr>) }"

definition advanceFromGcRegs :: "safepoint_reader \<Rightarrow> safepoint_reader option" where
  "advanceFromGcRegs sr = do {
     let sr = sr\<lparr>spr_chunkNumber := 0\<rparr>;
     (c, sr) \<leftarrow> spr_readUnsigned sr;
     Some (sr\<lparr>spr_chunk := c\<rparr>) }"

definition SafepointReader :: "nat \<Rightarrow> reader \<Rightarrow> safepoint_reader option" where
  "SafepointReader localSlotCount stream = do {
     let sr = \<lparr>spr_stream = stream, spr_localSlotCount = localSlotCount, spr_chunk = 0, spr_chunkNumber = 0,
               spr_osiCallPointOffset = 0, spr_gcSpills = TypedRegisterSet 0, spr_allSpills = TypedRegisterSet 0\<rparr>;
     (off, sr) \<leftarrow> spr_readUnsigned sr;
     let sr = sr\<lparr>spr_osiCallPointOffset := off\<rparr>;
     (bits, sr) \<leftarrow> spr_readUnsigned sr;
     let sr = sr\<lparr>spr_gcSpills := TypedRegisterSet bits\<rparr>;
     sr \<leftarrow> (if rs_empty (spr_gcSpills sr) then Some (sr\<lparr>spr_allSpills := spr_gcSpills sr\<rparr>) else do {
              (bits, sr) \<leftarrow> spr_readUnsigned sr;
              Some (sr\<lparr>spr_allSpills := TypedRegisterSet bits\<rparr>) });
     advanceFromGcRegs sr }"

lemma readVariableLoop_shrinks:
  "readVariableLoop val shift r = Some (v, r') \<Longrightarrow> length r' < length r"
  by (induction val shift r rule: readVariableLoop.induct)
    (fastforce simp: Let_def split: if_splits)+

lemma spr_readUnsigned_shrinks:
  "spr_readUnsigned sr = Some (v, sr') \<Longrightarrow> length (spr_stream sr') < length (spr_stream sr)"
  by (auto simp: spr_readUnsigned_def readUnsigned_def readVariableLength_def
      split: Option.bind_splits dest!: readVariableLoop_shrinks)

text \<open>The loop of \<open>getSlotFromBitmap\<close> that looks for a non-zero chunk.\<close>

function nextChunk :: "safepoint_reader \<Rightarrow> (bool \<times> safepoint_reader) option" where
  "nextChunk sr =
     (if spr_chunk sr = 0 then
        (let sr = sr\<lparr>spr_chunkNumber := spr_chunkNumber sr + 1\<rparr> in
         if spr_chunkNumber sr = RawLengthForBits (spr_localSlotCount sr) then Some (False, sr)
         else (case spr_readUnsigned sr of None \<Rightarrow> None
               | Some (c, sr') \<Rightarrow> nextChunk (sr'\<lparr>spr_chunk := c\<rparr>)))
      else Some (True, sr))"
  by pat_completeness auto
termination
  by (relation "measure (\<lambda>sr. length (spr_stream sr))") (auto dest: spr_readUnsigned_shrinks)

declare nextChunk.simps [simp del]

definition getSlotFromBitmap :: "(u32 \<Rightarrow> nat) \<Rightarrow> safepoint_reader \<Rightarrow> (u32 option \<times> safepoint_reader) option" where
  "getSlotFromBitmap floorLog2 sr = do {
     (found, sr) \<leftarrow> nextChunk sr;
     if \<not> found then Some (None, sr) else do {
       let bit = floorLog2 (spr_chunk sr);
       let sr = sr\<lparr>spr_chunk := spr_chunk sr AND NOT (push_bit bit 1)\<rparr>;
       Some (Some (of_nat (spr_chunkNumber sr * 4 * 8 + bit + 1)), sr) } }"

definition advanceFromGcSlots :: "arch \<Rightarrow> safepoint_reader \<Rightarrow> safepoint_reader option" where
  "advanceFromGcSlots a sr = do {
     let sr = sr\<lparr>spr_chunkNumber := 0\<rparr>;
     if a_punbox a then Some sr else do {
       (c, sr) \<leftarrow> spr_readUnsigned sr;
       Some (sr\<lparr>spr_chunk := c\<rparr>) } }"

definition getGcSlot :: "(u32 \<Rightarrow> nat) \<Rightarrow> arch \<Rightarrow> safepoint_reader \<Rightarrow> (u32 option \<times> safepoint_reader) option" where
  "getGcSlot floorLog2 a sr = do {
     (s, sr) \<leftarrow> getSlotFromBitmap floorLog2 sr;
     (case s of Some x \<Rightarrow> Some (Some x, sr)
      | None \<Rightarrow> do { sr \<leftarrow> advanceFromGcSlots a sr; Some (None, sr) }) }"

definition getValueSlot :: "(u32 \<Rightarrow> nat) \<Rightarrow> arch \<Rightarrow> safepoint_reader \<Rightarrow> (u32 option \<times> safepoint_reader) option" where
  "getValueSlot floorLog2 a sr =
     (if a_punbox a then Some (None, sr) else getSlotFromBitmap floorLog2 sr)"

subsection \<open>The collector's loops\<close>

text \<open>\<open>while (safepoint.getGcSlot(&slot)) \<dots>\<close>; not returning is \<open>None\<close>.\<close>

partial_function (option) drainSlots ::
  "(safepoint_reader \<Rightarrow> (u32 option \<times> safepoint_reader) option) \<Rightarrow> safepoint_reader \<Rightarrow>
   (u32 list \<times> safepoint_reader) option" where
  [code]: "drainSlots get sr = do {
     (s, sr) \<leftarrow> get sr;
     (case s of None \<Rightarrow> Some ([], sr)
      | Some x \<Rightarrow> do { (xs, sr) \<leftarrow> drainSlots get sr; Some (x # xs, sr) }) }"

text \<open>
  The part of \<open>MarkIonJSFrame\<close> (\<open>ion/IonFrames.cpp\<close>) that walks a safepoint: the slots it
  marks as pointers or values, and the slots it marks as values.
\<close>

definition MarkIonJSFrame :: "(u32 \<Rightarrow> nat) \<Rightarrow> arch \<Rightarrow> nat \<Rightarrow> reader \<Rightarrow> (u32 list \<times> u32 list) option" where
  "MarkIonJSFrame floorLog2 a localSlotCount stream = do {
     sr \<leftarrow> SafepointReader localSlotCount stream;
     js_assert (rs_empty (spr_gcSpills sr));
     js_assert (rs_empty (spr_allSpills sr));
     (gc, sr) \<leftarrow> drainSlots (getGcSlot floorLog2 a) sr;
     (vals, sr) \<leftarrow> drainSlots (getValueSlot floorLog2 a) sr;
     Some (gc, vals) }"

subsection \<open>Reading a bitmap back\<close>

text \<open>
  \<open>pending k c ws\<close>: the elements still to come when chunk number \<open>k\<close> has the bits \<open>c\<close> left
  and the chunks \<open>ws\<close> are not read yet.
\<close>

fun pending :: "nat \<Rightarrow> u32 \<Rightarrow> u32 list \<Rightarrow> nat set" where
  "pending k c [] = (\<lambda>b. 32 * k + b) ` {b. bit c b}"
| "pending k c (w # ws) = (\<lambda>b. 32 * k + b) ` {b. bit c b} \<union> pending (k + 1) w ws"

definition bitmap_at :: "nat \<Rightarrow> u32 list \<Rightarrow> reader \<Rightarrow> safepoint_reader \<Rightarrow> bool" where
  "bitmap_at n ws r sr \<longleftrightarrow> spr_localSlotCount sr = n \<and>
     spr_chunkNumber sr + 1 + length ws = RawLengthForBits n \<and>
     spr_stream sr = concat (map unsigned_bytes ws) @ r"

lemma pending_lower: "v \<in> pending k c ws \<Longrightarrow> 32 * k \<le> v"
proof (induction k c ws rule: pending.induct)
  case (2 k c w ws)
  have "32 * k \<le> v" if "v \<in> pending (k + 1) w ws" using 2(1)[OF that] by simp
  with "2.prems" show ?case by auto
qed auto

lemma Collect_bot [simp]: "Collect bot = {}"
  by auto

lemma pending_zero: "pending k 0 (w # ws) = pending (k + 1) w ws" "pending k 0 [] = {}"
  by simp_all

lemma pending_nonempty: "c \<noteq> 0 \<Longrightarrow> pending k c ws \<noteq> {}"
  by (cases ws) (auto simp: word_nonzero_bit)

lemma finite_pending: "finite (pending k c ws)"
proof -
  have "finite {b. bit (c::u32) b}" for c
    by (rule finite_subset[of _ "{..<32}"]) (auto dest: bit_imp_le_length)
  then show ?thesis by (induction k c ws rule: pending.induct) auto
qed

lemma pending_remove:
  assumes "bit c b"
  shows "pending k (c AND NOT (push_bit b 1)) ws = pending k c ws - {32 * k + b}"
proof -
  have b32: "b < 32" using bit_imp_le_length[OF assms] by simp
  have bits: "{i. bit (c AND NOT (push_bit b 1)) i} = {i. bit c i} - {b}"
    by (auto simp: bit_and_iff bit_not_iff dest: bit_imp_le_length)
  have "32 * k + b \<notin> pending (k + 1) w ws'" for w ws'
    using pending_lower[of "32 * k + b" "k + 1" w ws'] b32 by auto
  then have "x - {32 * k + b} \<union> pending (k + 1) w ws' = x \<union> pending (k + 1) w ws' - {32 * k + b}" for x w ws'
    by auto
  moreover have "(\<lambda>i. 32 * k + i) ` ({i. bit c i} - {b}) = (\<lambda>i. 32 * k + i) ` {i. bit c i} - {32 * k + b}"
    by auto
  ultimately show ?thesis by (cases ws) (simp_all only: pending.simps bits)
qed

lemma bitmap_at_chunk [simp]: "bitmap_at n ws r (sr\<lparr>spr_chunk := c\<rparr>) = bitmap_at n ws r sr"
  by (simp add: bitmap_at_def)

definition bitmap_done :: "nat \<Rightarrow> reader \<Rightarrow> safepoint_reader \<Rightarrow> bool" where
  "bitmap_done n r sr \<longleftrightarrow> spr_localSlotCount sr = n \<and> spr_stream sr = r \<and> spr_chunk sr = 0"

abbreviation "pending_of sr ws \<equiv> pending (spr_chunkNumber sr) (spr_chunk sr) ws"

lemma nextChunk_spec:
  assumes "bitmap_at n ws r sr"
  shows "if pending_of sr ws = {} then \<exists>t. nextChunk sr = Some (False, t) \<and> bitmap_done n r t
    else \<exists>ws' t. nextChunk sr = Some (True, t) \<and> bitmap_at n ws' r t \<and> spr_chunk t \<noteq> 0 \<and>
      pending_of t ws' = pending_of sr ws"
  using assms
proof (induction ws arbitrary: sr)
  case Nil
  show ?case
  proof (cases "spr_chunk sr = 0")
    case True
    with Nil show ?thesis
      by (simp add: nextChunk.simps[of sr] bitmap_at_def bitmap_done_def)
  next
    case False
    then have "nextChunk sr = Some (True, sr)" by (simp add: nextChunk.simps[of sr])
    with pending_nonempty[OF False, of _ "[]"] False Nil show ?thesis by auto
  qed
next
  case (Cons w ws)
  show ?case
  proof (cases "spr_chunk sr = 0")
    case True
    let ?t = "sr\<lparr>spr_stream := concat (map unsigned_bytes ws) @ r,
                 spr_chunkNumber := spr_chunkNumber sr + 1, spr_chunk := w\<rparr>"
    have "spr_readUnsigned (sr\<lparr>spr_chunkNumber := spr_chunkNumber sr + 1\<rparr>) =
        Some (w, sr\<lparr>spr_stream := concat (map unsigned_bytes ws) @ r, spr_chunkNumber := spr_chunkNumber sr + 1\<rparr>)"
      using Cons.prems by (simp add: bitmap_at_def spr_readUnsigned_def unsigned_codec.read_law)
    then have step: "nextChunk sr = nextChunk ?t"
      using Cons.prems True by (simp add: nextChunk.simps[of sr] bitmap_at_def Let_def)
    have eq: "pending_of sr (w # ws) = pending_of ?t ws" using True by simp
    have "bitmap_at n ws r ?t" using Cons.prems by (simp add: bitmap_at_def)
    from Cons.IH[OF this] show ?thesis unfolding step eq .
  next
    case False
    then have "nextChunk sr = Some (True, sr)" by (simp add: nextChunk.simps[of sr])
    with pending_nonempty[OF False, of _ "w # ws"] False Cons.prems show ?thesis by auto
  qed
qed

text \<open>
  What a getter of slots built on \<open>getSlotFromBitmap\<close> does: one more element, or the end of the
  bitmap and the advance \<open>fin\<close> to what follows it.
\<close>

definition slot_getter :: "(safepoint_reader \<Rightarrow> safepoint_reader option) \<Rightarrow> (u32 \<Rightarrow> nat) \<Rightarrow>
    safepoint_reader \<Rightarrow> (u32 option \<times> safepoint_reader) option" where
  "slot_getter fin floorLog2 sr = do {
     (s, sr) \<leftarrow> getSlotFromBitmap floorLog2 sr;
     (case s of Some x \<Rightarrow> Some (Some x, sr) | None \<Rightarrow> do { sr \<leftarrow> fin sr; Some (None, sr) }) }"

lemma slot_getter_spec:
  assumes "is_floor_log2 flg" "bitmap_at n ws r sr"
  shows "if pending_of sr ws = {} then \<exists>t. bitmap_done n r t \<and>
      slot_getter fin flg sr = map_option (Pair None) (fin t)
    else \<exists>v ws' t. slot_getter fin flg sr = Some (Some (of_nat (Suc v)), t) \<and> bitmap_at n ws' r t \<and>
      v \<in> pending_of sr ws \<and> pending_of t ws' = pending_of sr ws - {v}"
proof (cases "pending_of sr ws = {}")
  case True
  with nextChunk_spec[OF assms(2)] show ?thesis
    by (auto simp: slot_getter_def getSlotFromBitmap_def map_conv_bind_option comp_def)
next
  case False
  with nextChunk_spec[OF assms(2)] obtain ws' t where t: "nextChunk sr = Some (True, t)"
    "bitmap_at n ws' r t" "spr_chunk t \<noteq> 0" "pending_of t ws' = pending_of sr ws" by auto
  let ?b = "flg (spr_chunk t)"
  let ?v = "32 * spr_chunkNumber t + ?b"
  let ?u = "t\<lparr>spr_chunk := spr_chunk t AND NOT (push_bit ?b 1)\<rparr>"
  have b: "bit (spr_chunk t) ?b" using assms(1) t(3) by (simp add: is_floor_log2_def)
  then have "?v \<in> pending_of sr ws" unfolding t(4)[symmetric] by (cases ws') auto
  moreover have "pending_of ?u ws' = pending_of sr ws - {?v}"
    unfolding t(4)[symmetric] using pending_remove[OF b, of "spr_chunkNumber t" ws'] by simp
  moreover have "slot_getter fin flg sr = Some (Some (of_nat (Suc ?v)), ?u)"
    by (simp add: slot_getter_def getSlotFromBitmap_def t(1) Let_def mult.commute)
  moreover have "bitmap_at n ws' r ?u" using t(2) by simp
  ultimately show ?thesis using False by metis
qed

lemma drain_spec:
  assumes "is_floor_log2 flg" "bitmap_at n ws r sr"
  shows "\<exists>vs t. bitmap_done n r t \<and> distinct vs \<and> set vs = pending_of sr ws \<and>
    drainSlots (slot_getter fin flg) sr = map_option (Pair (map (\<lambda>v. of_nat (Suc v)) vs)) (fin t)"
  using assms(2)
proof (induction "card (pending_of sr ws)" arbitrary: ws sr rule: less_induct)
  case less
  note spec = slot_getter_spec[OF assms(1) less.prems, of fin]
  show ?case
  proof (cases "pending_of sr ws = {}")
    case True
    with spec obtain t where "bitmap_done n r t" "slot_getter fin flg sr = map_option (Pair None) (fin t)"
      by auto
    with True show ?thesis
      by (intro exI[of _ "[]"] exI[of _ t]) (cases "fin t"; simp add: drainSlots.simps[of _ sr])
  next
    case False
    with spec obtain v ws' t where t: "slot_getter fin flg sr = Some (Some (of_nat (Suc v)), t)"
      "bitmap_at n ws' r t" "v \<in> pending_of sr ws" "pending_of t ws' = pending_of sr ws - {v}" by auto
    have "card (pending_of t ws') < card (pending_of sr ws)"
      using t(3,4) finite_pending by (metis card_Diff1_less)
    from less.hyps[OF this t(2)] obtain vs u where u: "bitmap_done n r u" "distinct vs"
      "set vs = pending_of sr ws - {v}"
      "drainSlots (slot_getter fin flg) t = map_option (Pair (map (\<lambda>v. of_nat (Suc v)) vs)) (fin u)"
      using t(4) by auto
    show ?thesis
      using t(1,3) u
      by (intro exI[of _ "v # vs"] exI[of _ u])
        (cases "fin u"; auto simp: drainSlots.simps[of _ sr] simp del: of_nat_Suc)
  qed
qed

lemma getGcSlot_getter: "getGcSlot flg a = slot_getter (advanceFromGcSlots a) flg"
  by (rule ext) (simp add: getGcSlot_def slot_getter_def)

lemma getValueSlot_getter: "\<not> a_punbox a \<Longrightarrow> getValueSlot flg a = slot_getter Some flg"
  by (rule ext) (auto simp: getValueSlot_def slot_getter_def split: Option.bind_split option.split)

lemma chunk_mem: "v \<in> (\<lambda>b. 32 * k + b) ` {b. bit (c::u32) b} \<longleftrightarrow> v div 32 = k \<and> bit c (v mod 32)"
proof
  assume "v \<in> (\<lambda>b. 32 * k + b) ` {b. bit c b}"
  then obtain b where "v = 32 * k + b" "bit c b" by auto
  moreover have "b < 32" using bit_imp_le_length[OF calculation(2)] by simp
  ultimately show "v div 32 = k \<and> bit c (v mod 32)" by simp
next
  assume "v div 32 = k \<and> bit c (v mod 32)"
  then show "v \<in> (\<lambda>b. 32 * k + b) ` {b. bit c b}"
    by (intro image_eqI[of _ _ "v mod 32"]) auto
qed

lemma pending_nth:
  "v \<in> pending k c ws \<longleftrightarrow> k \<le> v div 32 \<and> v div 32 - k < length (c # ws) \<and>
     bit ((c # ws) ! (v div 32 - k)) (v mod 32)"
proof (induction k c ws rule: pending.induct)
  case (1 k c)
  show ?case by (auto simp: chunk_mem)
next
  case (2 k c w ws)
  have "v div 32 - k = Suc (v div 32 - (k + 1))" if "k \<le> v div 32" "v div 32 \<noteq> k"
    using that by linarith
  with 2 show ?case by (cases "v div 32 = k") (auto simp: chunk_mem)
qed

lemma pending_bs_set: "bs_bits s = c # ws \<Longrightarrow> pending 0 c ws = bs_set s"
  by (auto simp: pending_nth bs_set_def)

subsection \<open>What the writer appends\<close>

lemma MapSlotsToBitset_spec:
  assumes "bs_max bs = n" "\<forall>s\<in>set slots. unat (s - 1) \<le> n"
  shows "\<exists>t c ws. MapSlotsToBitset bs w slots = Some (t, cw_emit (concat (map unsigned_bytes (c # ws))) w) \<and>
    bs_max t = n \<and> 1 + length ws = RawLengthForBits n \<and>
    pending 0 c ws = (\<lambda>s. unat (s - 1)) ` set slots"
proof -
  have "mfold (\<lambda>s. bs_insert (unat (s - 1))) slots s = mfold bs_insert (map (\<lambda>s. unat (s - 1)) slots) s" for s
    by (induction slots arbitrary: s) (auto split: option.split)
  with bitset.insert_list[of "bs_clear bs" "map (\<lambda>s. unat (s - 1)) slots"] assms
  obtain t where t: "mfold (\<lambda>s. bs_insert (unat (s - 1))) slots (bs_clear bs) = Some t" "bs_inv t"
    "bs_max t = n" "bs_set t = (\<lambda>s. unat (s - 1)) ` set slots"
    by (auto simp: bs_clear_spec)
  from t(2,3) have len: "length (bs_bits t) = RawLengthForBits n"
    by (simp add: bs_inv_def numWords_def)
  then obtain c ws where cw: "bs_bits t = c # ws" by (cases "bs_bits t") (auto simp: RawLengthForBits_def)
  have "MapSlotsToBitset bs w slots = Some (t, cw_emit (concat (map unsigned_bytes (c # ws))) w)"
    by (simp add: MapSlotsToBitset_def t(1) cw writeUnsigned_emit unsigned_codec.write_list)
  with t len cw pending_bs_set[OF cw] show ?thesis by auto
qed

lemma slot_of_index: "of_nat (Suc (unat (s - 1 :: u32))) = s"
  by simp

lemma slots_of_indices:
  assumes "distinct vs" "set vs = (\<lambda>s. unat (s - 1 :: u32)) ` S"
  shows "distinct (map (\<lambda>v. of_nat (Suc v) :: u32) vs)" "set (map (\<lambda>v. of_nat (Suc v) :: u32) vs) = S"
proof -
  have "inj_on (\<lambda>v. of_nat (Suc v) :: u32) (set vs)"
    unfolding assms(2) by (rule inj_onI) (use slot_of_index in force)
  with assms(1) show "distinct (map (\<lambda>v. of_nat (Suc v) :: u32) vs)" by (simp add: distinct_map)
  show "set (map (\<lambda>v. of_nat (Suc v) :: u32) vs) = S"
    using slot_of_index by (force simp: assms(2) image_image simp del: of_nat_Suc)
qed

text \<open>The bytes of an entry.\<close>

definition reg_mask_bytes :: "regset \<Rightarrow> regset \<Rightarrow> u8 list" where
  "reg_mask_bytes actual spilled =
     unsigned_bytes (rs_bits actual) @ (if rs_empty actual then [] else unsigned_bytes (rs_bits spilled))"

lemma writeGcRegs_emit:
  "writeGcRegs a actual spilled sw =
     Some (sw\<lparr>spw_stream := cw_emit (reg_mask_bytes actual spilled) (spw_stream sw)\<rparr>)"
  by (simp add: writeGcRegs_def spw_lift_def WriteRegisterMask_def sizeof_PackedRegisterMask_def
      writeUnsigned_emit reg_mask_bytes_def)

definition entry_prefix :: "u32 \<Rightarrow> lsafepoint \<Rightarrow> u8 list" where
  "entry_prefix off sp = unsigned_bytes off @ reg_mask_bytes (lsp_gcRegs sp) (gpr_set (lsp_liveRegs sp))"

lemma encodeSafepoint_emit:
  assumes "\<not> lsp_encoded sp" "actualOffset (lsp_osiCallPointOffset sp) \<noteq> 0" "bs_max (spw_frameSlots sw) = n"
    and gc: "\<forall>s\<in>set (lsp_gcSlots sp). unat (s - 1) \<le> n"
    and vals: "\<forall>s\<in>set (lsp_valueSlots sp). unat (s - 1) \<le> n"
  shows "\<exists>sw' c ws c' ws'. encodeSafepoint a actualOffset sp sw =
      Some ((fixupOffset actualOffset sp)\<lparr>lsp_offset := of_nat (startEntry sw)\<rparr>, sw') \<and>
    spw_stream sw' = cw_emit (entry_prefix (actualOffset (lsp_osiCallPointOffset sp)) sp @
      concat (map unsigned_bytes (c # ws)) @
      (if a_punbox a then [] else concat (map unsigned_bytes (c' # ws')))) (spw_stream sw) \<and>
    1 + length ws = RawLengthForBits n \<and> pending 0 c ws = (\<lambda>s. unat (s - 1)) ` set (lsp_gcSlots sp) \<and>
    1 + length ws' = RawLengthForBits n \<and> pending 0 c' ws' = (\<lambda>s. unat (s - 1)) ` set (lsp_valueSlots sp)"
proof -
  let ?w = "cw_emit (entry_prefix (actualOffset (lsp_osiCallPointOffset sp)) sp) (spw_stream sw)"
  obtain t c ws where t: "MapSlotsToBitset (spw_frameSlots sw) ?w (lsp_gcSlots sp) =
      Some (t, cw_emit (concat (map unsigned_bytes (c # ws))) ?w)" "bs_max t = n"
    "1 + length ws = RawLengthForBits n" "pending 0 c ws = (\<lambda>s. unat (s - 1)) ` set (lsp_gcSlots sp)"
    using MapSlotsToBitset_spec[OF assms(3) gc] by metis
  let ?w2 = "cw_emit (concat (map unsigned_bytes (c # ws))) ?w"
  obtain u c' ws' where u: "MapSlotsToBitset t ?w2 (lsp_valueSlots sp) =
      Some (u, cw_emit (concat (map unsigned_bytes (c' # ws'))) ?w2)"
    "1 + length ws' = RawLengthForBits n" "pending 0 c' ws' = (\<lambda>s. unat (s - 1)) ` set (lsp_valueSlots sp)"
    using MapSlotsToBitset_spec[OF t(2) vals] by metis
  show ?thesis
    by (rule exI[of _ "if a_punbox a then \<lparr>spw_stream = ?w2, spw_frameSlots = t\<rparr>
          else \<lparr>spw_stream = cw_emit (concat (map unsigned_bytes (c' # ws'))) ?w2, spw_frameSlots = u\<rparr>"],
        rule exI[of _ c], rule exI[of _ ws], rule exI[of _ c'], rule exI[of _ ws'])
      (use assms(1,2) t u in \<open>simp add: encodeSafepoint_def fixupOffset_def writeOsiCallPointOffset_def
        spw_lift_def writeUnsigned_emit writeGcRegs_emit writeGcSlots_def writeValueSlots_def
        writeNunboxParts_def entry_prefix_def split: if_splits\<close>)
qed

lemma SafepointReader_prefix:
  "SafepointReader n (entry_prefix off sp @ unsigned_bytes c @ r) =
    Some \<lparr>spr_stream = r, spr_localSlotCount = n, spr_chunk = c, spr_chunkNumber = 0,
      spr_osiCallPointOffset = off, spr_gcSpills = lsp_gcRegs sp,
      spr_allSpills = (if rs_empty (lsp_gcRegs sp) then lsp_gcRegs sp else gpr_set (lsp_liveRegs sp))\<rparr>"
  by (simp add: SafepointReader_def entry_prefix_def reg_mask_bytes_def spr_readUnsigned_def
      unsigned_codec.read_law advanceFromGcRegs_def rs_empty_def TypedRegisterSet_def)

lemma drain_values_after_gc:
  assumes flg: "is_floor_log2 flg"
    and t: "bitmap_done n ((if a_punbox a then [] else concat (map unsigned_bytes (c # ws))) @ r) t"
    and vb: "1 + length ws = RawLengthForBits n" "pending 0 c ws = (\<lambda>s. unat (s - 1)) ` S"
  shows "\<exists>sr1 vs sr2. advanceFromGcSlots a t = Some sr1 \<and> drainSlots (getValueSlot flg a) sr1 = Some (vs, sr2) \<and>
    distinct vs \<and> set vs = (if a_punbox a then {} else S) \<and> spr_stream sr2 = r"
proof (cases "a_punbox a")
  case True
  with t show ?thesis
    by (simp add: advanceFromGcSlots_def drainSlots.simps getValueSlot_def bitmap_done_def)
next
  case False
  let ?sr1 = "t\<lparr>spr_chunkNumber := 0, spr_stream := concat (map unsigned_bytes ws) @ r, spr_chunk := c\<rparr>"
  have adv: "advanceFromGcSlots a t = Some ?sr1"
    using t False by (simp add: advanceFromGcSlots_def spr_readUnsigned_def bitmap_done_def
        unsigned_codec.read_law)
  have "bitmap_at n ws r ?sr1" using t vb(1) by (simp add: bitmap_at_def bitmap_done_def)
  from drain_spec[OF flg this, of Some, folded getValueSlot_getter[OF False]] vb(2)
  obtain ix u where u: "bitmap_done n r u" "distinct ix" "set ix = (\<lambda>s. unat (s - 1)) ` S"
    "drainSlots (getValueSlot flg a) ?sr1 = Some (map (\<lambda>v. of_nat (Suc v)) ix, u)"
    by auto
  with adv slots_of_indices[OF u(2,3)] False show ?thesis by (auto simp: bitmap_done_def)
qed

text \<open>
  C5: a safepoint written by the code generator is read back by the collector.  For a safepoint
  that has not been encoded yet, whose OSI call point has been placed (its offset in the final
  code is not zero), and whose GC slots and value slots all lie in the frame (the bit set of
  frame slots has an index for them), encoding succeeds without a failed assertion and records
  the position of the entry; and when the stream had memory, the reader constructed at that
  position finds the call point offset and the registers holding GC things.  The live registers
  come back only when some register holds a GC thing: the writer leaves them out otherwise, and
  the reader then has no spilled register at all.  The loops of the reader return, without
  repetition, exactly the GC slots and, on platforms with separate tags, exactly the value
  slots; on platforms with punned boxes value slots are not part of an entry and the loop over
  them returns none.  The reader stops exactly behind the entry.
\<close>

theorem safepoint_roundtrip:
  assumes flg: "is_floor_log2 flg"
    and new: "\<not> lsp_encoded sp" "actualOffset (lsp_osiCallPointOffset sp) \<noteq> 0"
    and n: "bs_max (spw_frameSlots sw) = n"
    and gc: "\<forall>s\<in>set (lsp_gcSlots sp). unat (s - 1) \<le> n"
    and vals: "\<forall>s\<in>set (lsp_valueSlots sp). unat (s - 1) \<le> n"
  shows "\<exists>sp' sw'. encodeSafepoint a actualOffset sp sw = Some (sp', sw') \<and>
    lsp_offset sp' = of_nat (startEntry sw) \<and>
    (\<not> cw_oom (spw_stream sw') \<longrightarrow> (\<exists>sr gs sr1 vs sr2.
       SafepointReader n (drop (startEntry sw) (reader_of_writer (spw_stream sw')) @ r) = Some sr \<and>
       spr_osiCallPointOffset sr = actualOffset (lsp_osiCallPointOffset sp) \<and>
       spr_gcSpills sr = lsp_gcRegs sp \<and>
       spr_allSpills sr = (if rs_empty (lsp_gcRegs sp) then lsp_gcRegs sp else gpr_set (lsp_liveRegs sp)) \<and>
       drainSlots (getGcSlot flg a) sr = Some (gs, sr1) \<and> distinct gs \<and> set gs = set (lsp_gcSlots sp) \<and>
       drainSlots (getValueSlot flg a) sr1 = Some (vs, sr2) \<and> distinct vs \<and>
       set vs = (if a_punbox a then {} else set (lsp_valueSlots sp)) \<and> spr_stream sr2 = r))"
proof -
  let ?off = "actualOffset (lsp_osiCallPointOffset sp)"
  from encodeSafepoint_emit[where actualOffset = actualOffset, OF new n gc vals, of a] obtain sw' c ws c' ws' where
    e: "encodeSafepoint a actualOffset sp sw =
      Some ((fixupOffset actualOffset sp)\<lparr>lsp_offset := of_nat (startEntry sw)\<rparr>, sw')"
    and st: "spw_stream sw' = cw_emit (entry_prefix ?off sp @ concat (map unsigned_bytes (c # ws)) @
      (if a_punbox a then [] else concat (map unsigned_bytes (c' # ws')))) (spw_stream sw)"
    and gcb: "1 + length ws = RawLengthForBits n" "pending 0 c ws = (\<lambda>s. unat (s - 1)) ` set (lsp_gcSlots sp)"
    and vb: "1 + length ws' = RawLengthForBits n" "pending 0 c' ws' = (\<lambda>s. unat (s - 1)) ` set (lsp_valueSlots sp)"
    by (elim exE conjE) (rule that)
  let ?rest = "(if a_punbox a then [] else concat (map unsigned_bytes (c' # ws'))) @ r"
  let ?sr = "\<lparr>spr_stream = concat (map unsigned_bytes ws) @ ?rest, spr_localSlotCount = n, spr_chunk = c,
      spr_chunkNumber = 0, spr_osiCallPointOffset = ?off, spr_gcSpills = lsp_gcRegs sp,
      spr_allSpills = (if rs_empty (lsp_gcRegs sp) then lsp_gcRegs sp else gpr_set (lsp_liveRegs sp))\<rparr>"
  have rd: "SafepointReader n (drop (startEntry sw) (reader_of_writer (spw_stream sw')) @ r) = Some ?sr"
    if "\<not> cw_oom (spw_stream sw')"
    using that cw_buffer_emit[of _ "spw_stream sw"] SafepointReader_prefix[of n ?off sp c]
    by (simp add: cw_oom_def st reader_of_writer_def startEntry_def cw_length_def del: cw_emit_simps)
  have "bitmap_at n ws ?rest ?sr" using gcb(1) by (simp add: bitmap_at_def)
  from drain_spec[OF flg this, of "advanceFromGcSlots a", folded getGcSlot_getter] gcb(2)
  obtain ix t where t: "bitmap_done n ?rest t" "distinct ix" "set ix = (\<lambda>s. unat (s - 1)) ` set (lsp_gcSlots sp)"
    "drainSlots (getGcSlot flg a) ?sr = map_option (Pair (map (\<lambda>v. of_nat (Suc v)) ix)) (advanceFromGcSlots a t)"
    by auto
  note gs = slots_of_indices[OF t(2,3)]
  note drain_values_after_gc[OF flg t(1) vb]
  then obtain sr1 vs sr2 where v: "advanceFromGcSlots a t = Some sr1" "drainSlots (getValueSlot flg a) sr1 = Some (vs, sr2)"
    "distinct vs" "set vs = (if a_punbox a then {} else set (lsp_valueSlots sp))" "spr_stream sr2 = r"
    by (elim exE conjE) (rule that)
  have d: "drainSlots (getGcSlot flg a) ?sr = Some (map (\<lambda>v. of_nat (Suc v)) ix, sr1)"
    using t(4) v(1) by simp
  show ?thesis
    by (rule exI, rule exI, rule conjI, rule e, rule conjI, simp, rule impI)
      (rule exI, rule exI[of _ "map (\<lambda>v. of_nat (Suc v)) ix"], rule exI[of _ sr1], rule exI[of _ vs],
       rule exI[of _ sr2], rule conjI, erule rd, use d v(2-5) gs in \<open>simp del: of_nat_Suc\<close>)
qed

theorem safepoint_roundtrip_witness:
  "\<exists>sp' sw'. encodeSafepoint (arch_x64 False) (\<lambda>off. off)
      (LSafepoint\<lparr>lsp_osiCallPointOffset := 16, lsp_gcSlots := [3, 1]\<rparr>)
      \<lparr>spw_stream = writer_new (\<lambda>n. True), spw_frameSlots = \<lparr>bs_max = 5, bs_bits = [0]\<rparr>\<rparr> = Some (sp', sw') \<and>
    lsp_offset sp' = 0"
  using safepoint_roundtrip[OF floor_log2_scan_is_floor_log2,
      of "LSafepoint\<lparr>lsp_osiCallPointOffset := 16, lsp_gcSlots := [3, 1]\<rparr>" "\<lambda>off. off"
        "\<lparr>spw_stream = writer_new (\<lambda>n. True), spw_frameSlots = \<lparr>bs_max = 5, bs_bits = [0]\<rparr>\<rparr>" 5
        "arch_x64 False" "[]"]
  by (auto simp: LSafepoint_def lsp_encoded_def startEntry_def writer_new_def cw_length_def)

end
