(* ===== verification/Move_Resolver.thy ===== *)
theory Move_Resolver
  imports Ion_Prelude "HOL-Library.Multiset"
begin

text \<open>
  The resolver of parallel moves (\<open>ion/MoveResolver.h\<close>, \<open>ion/MoveResolver.cpp\<close>): a move group
  assigns several locations at once; \<open>resolve\<close> orders the moves so that they can be executed one
  by one, and marks the two moves of every cycle that need a temporary.

  The pending list is a list whose last element is popped first; the traversal stack is a list
  with its top in front, so its last element is the root \<open>pm\<close> of the traversal. \<open>None\<close> is a
  failed assertion, the boolean result is the one of the code: false when \<open>append\<close> finds no
  memory, which the parameter \<open>room\<close> decides from the length of the vector.

  Executing the ordered moves the way the emitter treats the marks is proved to be the parallel
  assignment, for every group of moves with distinct destinations.
\<close>

subsection \<open>Moves\<close>

datatype MoveOperand = REG nat | FLOAT_REG nat | ADDRESS nat int | EFFECTIVE_ADDRESS nat int

datatype MoveKind = GENERAL | DOUBLE

record Move =
  mv_from :: MoveOperand
  mv_to :: MoveOperand
  mv_cycle :: bool
  mv_kind :: MoveKind

record resolver =
  mr_pending :: "Move list"
  mr_ordered :: "Move list"
  mr_hasCycles :: bool

definition MoveResolver :: resolver where
  "MoveResolver = \<lparr>mr_pending = [], mr_ordered = [], mr_hasCycles = False\<rparr>"

definition setInCycle :: "Move \<Rightarrow> Move option" where
  "setInCycle m = do { js_assert (\<not> mv_cycle m); Some (m\<lparr>mv_cycle := True\<rparr>) }"

definition resetState :: "resolver \<Rightarrow> resolver" where
  "resetState r = r\<lparr>mr_hasCycles := False\<rparr>"

text \<open>\<open>addMove\<close>: \<open>mem\<close> says whether the pool can allocate a pending move.\<close>

definition addMove :: "bool \<Rightarrow> MoveOperand \<Rightarrow> MoveOperand \<Rightarrow> MoveKind \<Rightarrow> resolver \<Rightarrow> bool \<times> resolver" where
  "addMove mem from to kind r =
     (if \<not> mem then (False, r)
      else (True, r\<lparr>mr_pending := mr_pending r @ [\<lparr>mv_from = from, mv_to = to, mv_cycle = False, mv_kind = kind\<rparr>]\<rparr>))"

text \<open>A resolver with these moves pending, for the examples.\<close>

definition added_moves :: "(MoveOperand \<times> MoveOperand) list \<Rightarrow> resolver" where
  "added_moves ms = fold (\<lambda>(from, to) r. snd (addMove True from to GENERAL r)) ms MoveResolver"

definition findBlockingMove :: "Move list \<Rightarrow> Move \<Rightarrow> Move option" where
  "findBlockingMove pending m = find (\<lambda>other. mv_from other = mv_to m) pending"

lemma findBlockingMove_Some:
  "findBlockingMove ps m = Some b \<Longrightarrow> b \<in> set ps \<and> mv_from b = mv_to m"
  by (auto simp: findBlockingMove_def find_Some_iff)

lemma findBlockingMove_None: "findBlockingMove ps m = None \<Longrightarrow> b \<in> set ps \<Longrightarrow> mv_from b \<noteq> mv_to m"
  by (auto simp: findBlockingMove_def find_None_iff)

lemma findBlockingMove_length: "findBlockingMove ps m = Some b \<Longrightarrow> length ps = Suc (length (remove1 b ps))"
  by (drule findBlockingMove_Some) (auto simp: length_remove1 neq_Nil_conv dest: length_pos_if_in_set)

text \<open>The inner loop of \<open>resolve\<close>: the depth-first search from one root.\<close>

function traverse :: "(nat \<Rightarrow> bool) \<Rightarrow> Move list \<Rightarrow> resolver \<Rightarrow> (bool \<times> resolver) option" where
  "traverse room [] r = Some (True, r)"
| "traverse room (tp # stk) r =
     (case findBlockingMove (mr_pending r) tp of
        Some blocking \<Rightarrow>
          (let pm = last (tp # stk) in
           if mv_to blocking = mv_from pm then
             (case setInCycle pm of None \<Rightarrow> None | Some pm' \<Rightarrow>
               (case setInCycle blocking of None \<Rightarrow> None | Some blocking' \<Rightarrow>
                 traverse room (blocking' # butlast (tp # stk) @ [pm'])
                   (r\<lparr>mr_hasCycles := True, mr_pending := remove1 blocking (mr_pending r)\<rparr>)))
           else traverse room (blocking # tp # stk)
                  (r\<lparr>mr_pending := remove1 blocking (mr_pending r)\<rparr>))
      | None \<Rightarrow>
          if room (length (mr_ordered r)) then traverse room stk (r\<lparr>mr_ordered := mr_ordered r @ [tp]\<rparr>)
          else Some (False, r))"
  by pat_completeness auto
termination
  by (relation "measure (\<lambda>(room, stk, r). 2 * length (mr_pending r) + length stk)")
    (auto dest!: findBlockingMove_length)

declare traverse.simps(2) [simp del]

lemma traverse_pending: "traverse room stk r = Some (ok, r') \<Longrightarrow> length (mr_pending r') \<le> length (mr_pending r)"
proof (induction room stk r rule: traverse.induct)
  case (2 room tp stk r)
  note s = "2.prems"[unfolded traverse.simps(2)[of room tp stk r]]
  show ?case
  proof (cases "findBlockingMove (mr_pending r) tp")
    case None
    with s "2.IH" show ?thesis by (auto split: if_splits)
  next
    case (Some b)
    have "length (remove1 b (mr_pending r)) \<le> length (mr_pending r)" by (simp add: length_remove1)
    with s Some "2.IH" show ?thesis
      by (fastforce simp: Let_def split: if_splits option.splits)
  qed
qed simp

function resolveLoop :: "(nat \<Rightarrow> bool) \<Rightarrow> resolver \<Rightarrow> (bool \<times> resolver) option" where
  "resolveLoop room r =
     (if mr_pending r = [] then Some (True, r)
      else (case traverse room [last (mr_pending r)] (r\<lparr>mr_pending := butlast (mr_pending r)\<rparr>) of
          None \<Rightarrow> None
        | Some (ok, r') \<Rightarrow> if ok then resolveLoop room r' else Some (False, r')))"
  by pat_completeness auto
termination
proof (relation "measure (\<lambda>(room, r). length (mr_pending r))", goal_cases)
  case (2 room r p ok r')
  from traverse_pending[of room _ _ ok r'] 2 have "length (mr_pending r') \<le> length (butlast (mr_pending r))"
    by fastforce
  with 2(1) show ?case by (cases "mr_pending r" rule: rev_cases) auto
qed simp

declare resolveLoop.simps [simp del]

definition resolve :: "(nat \<Rightarrow> bool) \<Rightarrow> resolver \<Rightarrow> (bool \<times> resolver) option" where
  "resolve room r = resolveLoop room ((resetState r)\<lparr>mr_ordered := []\<rparr>)"

subsection \<open>Executing moves\<close>

text \<open>
  How the emitter treats one move (\<open>MoveEmitter::emit(const Move &)\<close>), on an environment that
  gives every operand a value, with the content of the cycle slot and the flag \<open>inCycle_\<close>:
  the first marked move saves its destination, the second one takes the saved value.
\<close>

type_synonym 'v exec_state = "(MoveOperand \<Rightarrow> 'v) \<times> 'v \<times> bool"

fun exec_move :: "Move \<Rightarrow> 'v exec_state \<Rightarrow> 'v exec_state" where
  "exec_move m (e, c, inCycle) =
     (if mv_cycle m then
        if inCycle then (e(mv_to m := c), c, False)
        else (e(mv_to m := e (mv_from m)), e (mv_to m), True)
      else (e(mv_to m := e (mv_from m)), c, inCycle))"

definition exec_moves :: "Move list \<Rightarrow> 'v exec_state \<Rightarrow> 'v exec_state" where
  "exec_moves ms st = fold exec_move ms st"

lemma exec_moves_simps [simp]:
  "exec_moves [] st = st" "exec_moves (ms @ [m]) st = exec_move m (exec_moves ms st)"
  by (simp_all add: exec_moves_def)

text \<open>The parallel assignment.\<close>

definition parallel_assign :: "Move list \<Rightarrow> (MoveOperand \<Rightarrow> 'v) \<Rightarrow> MoveOperand \<Rightarrow> 'v" where
  "parallel_assign ms e x = (case find (\<lambda>m. mv_to m = x) ms of Some m \<Rightarrow> e (mv_from m) | None \<Rightarrow> e x)"

subsection \<open>Invariant of the traversal\<close>

fun chain :: "Move list \<Rightarrow> bool" where
  "chain (x # y # zs) \<longleftrightarrow> mv_from x = mv_to y \<and> chain (y # zs)"
| "chain _ \<longleftrightarrow> True"

definition move_core :: "Move \<Rightarrow> MoveOperand \<times> MoveOperand \<times> MoveKind" where
  "move_core m = (mv_from m, mv_to m, mv_kind m)"

lemma move_core_cycle [simp]: "move_core (m\<lparr>mv_cycle := b\<rparr>) = move_core m"
  by (simp add: move_core_def)

text \<open>The shape of the work lists: what is known without executing anything.\<close>

definition shape_inv :: "Move list \<Rightarrow> Move list \<Rightarrow> resolver \<Rightarrow> bool" where
  "shape_inv M stk r \<longleftrightarrow>
     distinct (map mv_to (stk @ mr_pending r @ mr_ordered r)) \<and>
     mset (map move_core (stk @ mr_pending r @ mr_ordered r)) = mset (map move_core M) \<and>
     chain stk \<and>
     (\<forall>m\<in>set (mr_pending r). \<not> mv_cycle m) \<and>
     (\<forall>x\<in>set (butlast stk). mv_cycle x \<longleftrightarrow> mv_to x = mv_from (last stk)) \<and>
     ((\<exists>m\<in>set stk \<union> set (mr_ordered r). mv_cycle m) \<longrightarrow> mr_hasCycles r)"

lemma shape_invD:
  assumes "shape_inv M stk r"
  shows "distinct (map mv_to (stk @ mr_pending r @ mr_ordered r))"
    "mset (map move_core (stk @ mr_pending r @ mr_ordered r)) = mset (map move_core M)"
    "chain stk" "m \<in> set (mr_pending r) \<Longrightarrow> \<not> mv_cycle m"
    "x \<in> set (butlast stk) \<Longrightarrow> mv_cycle x \<longleftrightarrow> mv_to x = mv_from (last stk)"
    "m \<in> set stk \<union> set (mr_ordered r) \<Longrightarrow> mv_cycle m \<Longrightarrow> mr_hasCycles r"
  using assms unfolding shape_inv_def by blast+

lemma shape_invI:
  assumes "distinct (map mv_to (stk @ mr_pending r @ mr_ordered r))"
    "mset (map move_core (stk @ mr_pending r @ mr_ordered r)) = mset (map move_core M)"
    "chain stk" "\<And>m. m \<in> set (mr_pending r) \<Longrightarrow> \<not> mv_cycle m"
    "\<And>x. x \<in> set (butlast stk) \<Longrightarrow> mv_cycle x \<longleftrightarrow> mv_to x = mv_from (last stk)"
    "\<And>m. m \<in> set stk \<union> set (mr_ordered r) \<Longrightarrow> mv_cycle m \<Longrightarrow> mr_hasCycles r"
  shows "shape_inv M stk r"
  using assms unfolding shape_inv_def by blast

text \<open>The values: what executing the ordered moves has done so far.\<close>

definition value_inv :: "(MoveOperand \<Rightarrow> 'v) \<Rightarrow> 'v exec_state \<Rightarrow> Move list \<Rightarrow> resolver \<Rightarrow> bool" where
  "value_inv e0 st stk r \<longleftrightarrow> (case st of (e, c, fl) \<Rightarrow>
     (stk \<noteq> [] \<longrightarrow> (mv_cycle (last stk) \<longleftrightarrow> fl \<or> (\<exists>x\<in>set (butlast stk). mv_cycle x))) \<and>
     (fl \<longrightarrow> stk \<noteq> [] \<and> c = e0 (mv_from (last stk)) \<and> mv_from (last stk) \<in> mv_to ` set (mr_ordered r)) \<and>
     (\<forall>m\<in>set (stk @ mr_pending r). \<not> (fl \<and> m = last stk) \<longrightarrow> e (mv_from m) = e0 (mv_from m)) \<and>
     (\<forall>m\<in>set (mr_ordered r). e (mv_to m) = e0 (mv_from m)) \<and>
     (\<forall>x. x \<notin> mv_to ` set (mr_ordered r) \<longrightarrow> e x = e0 x))"

definition trav_inv :: "Move list \<Rightarrow> (MoveOperand \<Rightarrow> 'v) \<Rightarrow> 'v \<Rightarrow> Move list \<Rightarrow> resolver \<Rightarrow> bool" where
  "trav_inv M e0 c0 stk r \<longleftrightarrow> shape_inv M stk r \<and> value_inv e0 (exec_moves (mr_ordered r) (e0, c0, False)) stk r"

lemma chain_source_in_tail:
  "chain stk \<Longrightarrow> m \<in> set stk \<Longrightarrow> m \<noteq> last stk \<Longrightarrow> mv_from m \<in> mv_to ` set (tl stk)"
  by (induction stk rule: chain.induct) auto

lemma chain_tl: "chain (x # stk) \<Longrightarrow> chain stk"
  by (cases stk) auto

text \<open>The three list movements of the search only permute the moves.\<close>

lemma perm_pop:
  "mset (map f (stk @ ps @ os @ [tp])) = mset (map f ((tp # stk) @ ps @ os))"
  by simp

lemma perm_push:
  assumes "b \<in> set ps"
  shows "mset (map f ((b # stk) @ remove1 b ps @ os)) = mset (map f (stk @ ps @ os))"
proof -
  have "mset (map f ps) = add_mset (f b) (mset (map f (remove1 b ps)))"
    using assms by (induction ps) auto
  then show ?thesis by simp
qed

lemma distinct_perm: "mset xs = mset ys \<Longrightarrow> distinct xs \<longleftrightarrow> distinct ys"
  by (rule mset_eq_imp_distinct_iff)

lemma shape_inv_pop:
  assumes "shape_inv M (tp # stk) r"
  shows "shape_inv M stk (r\<lparr>mr_ordered := mr_ordered r @ [tp]\<rparr>)"
  unfolding shape_inv_def
proof (intro conjI)
  show "distinct (map mv_to (stk @ mr_pending (r\<lparr>mr_ordered := mr_ordered r @ [tp]\<rparr>) @
      mr_ordered (r\<lparr>mr_ordered := mr_ordered r @ [tp]\<rparr>)))"
    using assms by (auto simp: shape_inv_def)
  show "mset (map move_core (stk @ mr_pending (r\<lparr>mr_ordered := mr_ordered r @ [tp]\<rparr>) @
      mr_ordered (r\<lparr>mr_ordered := mr_ordered r @ [tp]\<rparr>))) = mset (map move_core M)"
    using assms by (simp add: shape_inv_def)
  show "chain stk" using assms chain_tl by (auto simp: shape_inv_def)
  show "\<forall>x\<in>set (butlast stk). mv_cycle x \<longleftrightarrow> mv_to x = mv_from (last stk)"
    using assms by (cases "stk = []") (simp_all add: shape_inv_def)
qed (use assms in \<open>auto simp: shape_inv_def\<close>)

lemma shape_inv_push:
  assumes inv: "shape_inv M (tp # stk) r" and f: "findBlockingMove (mr_pending r) tp = Some b"
    and ne: "mv_to b \<noteq> mv_from (last (tp # stk))"
  shows "shape_inv M (b # tp # stk) (r\<lparr>mr_pending := remove1 b (mr_pending r)\<rparr>)"
proof (rule shape_invI)
  let ?r = "r\<lparr>mr_pending := remove1 b (mr_pending r)\<rparr>"
  note b = findBlockingMove_Some[OF f]
  note p = perm_push[of b "mr_pending r" _ "tp # stk" "mr_ordered r"]
  show "distinct (map mv_to ((b # tp # stk) @ mr_pending ?r @ mr_ordered ?r))"
    using shape_invD(1)[OF inv] b distinct_perm[OF p[of mv_to]] by (simp del: append_Cons)
  show "mset (map move_core ((b # tp # stk) @ mr_pending ?r @ mr_ordered ?r)) = mset (map move_core M)"
    using shape_invD(2)[OF inv] b p[of move_core] by (simp del: append_Cons)
  show "chain (b # tp # stk)" using shape_invD(3)[OF inv] b by simp
  show "\<not> mv_cycle m" if "m \<in> set (mr_pending ?r)" for m
    using that shape_invD(4)[OF inv] by (auto dest: notin_set_remove1)
  show "mv_cycle x \<longleftrightarrow> mv_to x = mv_from (last (b # tp # stk))" if "x \<in> set (butlast (b # tp # stk))" for x
    using that ne shape_invD(4)[OF inv] shape_invD(5)[OF inv] b by auto
  show "mr_hasCycles ?r" if "m \<in> set (b # tp # stk) \<union> set (mr_ordered ?r)" "mv_cycle m" for m
    using that shape_invD(6)[OF inv, of m] shape_invD(4)[OF inv] b by auto
qed

lemma shape_inv_root_unmarked:
  assumes inv: "shape_inv M (tp # stk) r" and f: "findBlockingMove (mr_pending r) tp = Some b"
    and eq: "mv_to b = mv_from (last (tp # stk))"
  shows "\<not> mv_cycle b" "\<forall>x\<in>set (butlast (tp # stk)). \<not> mv_cycle x"
    "mv_from (last (tp # stk)) \<notin> mv_to ` set (mr_ordered r)"
proof -
  note b = findBlockingMove_Some[OF f]
  note d = shape_invD(1)[OF inv]
  show "\<not> mv_cycle b" using shape_invD(4)[OF inv] b by blast
  show "mv_from (last (tp # stk)) \<notin> mv_to ` set (mr_ordered r)" using d b eq by force
  have "mv_to x \<noteq> mv_from (last (tp # stk))" if "x \<in> set (butlast (tp # stk))" for x
    using d b eq in_set_butlastD[OF that] unfolding map_append distinct_append set_map set_append
    by (metis Un_iff disjoint_iff image_eqI)
  then show "\<forall>x\<in>set (butlast (tp # stk)). \<not> mv_cycle x" using shape_invD(5)[OF inv] by blast
qed

lemma chain_last: "chain (xs @ [x]) \<Longrightarrow> mv_to y = mv_to x \<Longrightarrow> mv_from y = mv_from x \<Longrightarrow> chain (xs @ [y])"
  by (induction xs rule: chain.induct) auto

lemma shape_inv_cycle:
  assumes inv: "shape_inv M (tp # stk) r" and f: "findBlockingMove (mr_pending r) tp = Some b"
    and eq: "mv_to b = mv_from (last (tp # stk))"
  shows "shape_inv M (b\<lparr>mv_cycle := True\<rparr> # butlast (tp # stk) @ [(last (tp # stk))\<lparr>mv_cycle := True\<rparr>])
    (r\<lparr>mr_hasCycles := True, mr_pending := remove1 b (mr_pending r)\<rparr>)" (is "shape_inv M ?stk ?r")
proof (rule shape_invI)
  note b = findBlockingMove_Some[OF f]
  note p = perm_push[of b "mr_pending r" _ "tp # stk" "mr_ordered r"]
  obtain ys y where stk: "tp # stk = ys @ [y]" by (metis append_butlast_last_id list.distinct(1))
  have eqmap: "map g ?stk = map g (b # tp # stk)" if "\<And>m. g (m\<lparr>mv_cycle := True\<rparr>) = g m" for g :: "Move \<Rightarrow> 'x"
    using that by (simp add: stk)
  show "distinct (map mv_to (?stk @ mr_pending ?r @ mr_ordered ?r))"
    using shape_invD(1)[OF inv] b distinct_perm[OF p[of mv_to]] eqmap[of mv_to] by (simp del: append_Cons list.map)
  show "mset (map move_core (?stk @ mr_pending ?r @ mr_ordered ?r)) = mset (map move_core M)"
    using shape_invD(2)[OF inv] b p[of move_core] eqmap[of move_core] by (simp del: append_Cons list.map)
  have "chain (b # ys @ [y])" using shape_invD(3)[OF inv] b unfolding stk[symmetric] by simp
  then show "chain ?stk"
    unfolding stk using chain_last[of "b # ys" y "y\<lparr>mv_cycle := True\<rparr>"] by (cases ys) auto
  show "\<not> mv_cycle m" if "m \<in> set (mr_pending ?r)" for m
    using that shape_invD(4)[OF inv] by (auto dest: notin_set_remove1)
  show "mv_cycle x \<longleftrightarrow> mv_to x = mv_from (last ?stk)" if "x \<in> set (butlast ?stk)" for x
    using that eq shape_invD(5)[OF inv, of x] unfolding stk by auto
qed simp

subsection \<open>Invariant of the values\<close>

lemma value_invD:
  assumes "value_inv e0 (e, c, fl) stk r"
  shows "stk \<noteq> [] \<Longrightarrow> mv_cycle (last stk) \<longleftrightarrow> fl \<or> (\<exists>x\<in>set (butlast stk). mv_cycle x)"
    "fl \<Longrightarrow> stk \<noteq> [] \<and> c = e0 (mv_from (last stk)) \<and> mv_from (last stk) \<in> mv_to ` set (mr_ordered r)"
    "m \<in> set (stk @ mr_pending r) \<Longrightarrow> \<not> (fl \<and> m = last stk) \<Longrightarrow> e (mv_from m) = e0 (mv_from m)"
    "m \<in> set (mr_ordered r) \<Longrightarrow> e (mv_to m) = e0 (mv_from m)"
    "x \<notin> mv_to ` set (mr_ordered r) \<Longrightarrow> e x = e0 x"
  using assms unfolding value_inv_def prod.case by blast+

lemma value_invI:
  assumes "stk \<noteq> [] \<Longrightarrow> mv_cycle (last stk) \<longleftrightarrow> fl \<or> (\<exists>x\<in>set (butlast stk). mv_cycle x)"
    "fl \<Longrightarrow> stk \<noteq> [] \<and> c = e0 (mv_from (last stk)) \<and> mv_from (last stk) \<in> mv_to ` set (mr_ordered r)"
    "\<And>m. m \<in> set (stk @ mr_pending r) \<Longrightarrow> \<not> (fl \<and> m = last stk) \<Longrightarrow> e (mv_from m) = e0 (mv_from m)"
    "\<And>m. m \<in> set (mr_ordered r) \<Longrightarrow> e (mv_to m) = e0 (mv_from m)"
    "\<And>x. x \<notin> mv_to ` set (mr_ordered r) \<Longrightarrow> e x = e0 x"
  shows "value_inv e0 (e, c, fl) stk r"
  using assms unfolding value_inv_def prod.case by blast

lemma value_inv_push:
  assumes v: "value_inv e0 st (tp # stk) r" and inv: "shape_inv M (tp # stk) r"
    and f: "findBlockingMove (mr_pending r) tp = Some b"
  shows "value_inv e0 st (b # tp # stk) (r\<lparr>mr_pending := remove1 b (mr_pending r)\<rparr>)"
proof -
  obtain e c fl where st: "st = (e, c, fl)" by (cases st) auto
  note D = value_invD[OF v[unfolded st]]
  note b = findBlockingMove_Some[OF f]
  have nc: "\<not> mv_cycle b" using shape_invD(4)[OF inv] b by blast
  have mem: "m \<in> set (mr_pending r)" if "m \<in> set (remove1 b (mr_pending r))" for m
    using that by (metis notin_set_remove1)
  have nl: "b \<noteq> last (tp # stk)"
    using shape_invD(1)[OF inv] b last_in_set[of "tp # stk"] by fastforce
  show ?thesis unfolding st
  proof (rule value_invI)
    show "e (mv_from m) = e0 (mv_from m)"
      if "m \<in> set ((b # tp # stk) @ mr_pending (r\<lparr>mr_pending := remove1 b (mr_pending r)\<rparr>))"
        "\<not> (fl \<and> m = last (b # tp # stk))" for m
      using that mem D(3)[of m] D(3)[of b] b nl by (cases "m = b") auto
  qed (use D(1,2,4,5) nc in auto)
qed

lemma value_inv_cycle:
  assumes v: "value_inv e0 st (tp # stk) r" and inv: "shape_inv M (tp # stk) r"
    and f: "findBlockingMove (mr_pending r) tp = Some b" and eq: "mv_to b = mv_from (last (tp # stk))"
  shows "\<not> mv_cycle (last (tp # stk))"
    "value_inv e0 st (b\<lparr>mv_cycle := True\<rparr> # butlast (tp # stk) @ [(last (tp # stk))\<lparr>mv_cycle := True\<rparr>])
      (r\<lparr>mr_hasCycles := True, mr_pending := remove1 b (mr_pending r)\<rparr>)" (is "value_inv e0 st ?stk ?r")
proof -
  obtain e c fl where st: "st = (e, c, fl)" by (cases st) auto
  note D = value_invD[OF v[unfolded st]]
  note b = findBlockingMove_Some[OF f]
  note un = shape_inv_root_unmarked[OF inv f eq]
  obtain ys y where stk: "tp # stk = ys @ [y]" by (metis append_butlast_last_id list.distinct(1))
  have fl: "\<not> fl" using D(2) un(3) by blast
  with D(1) un(2) show "\<not> mv_cycle (last (tp # stk))" by blast
  have mem: "m \<in> set (mr_pending r)" if "m \<in> set (remove1 b (mr_pending r))" for m
    using that by (metis notin_set_remove1)
  have all: "e (mv_from m) = e0 (mv_from m)" if "m \<in> set ((ys @ [y]) @ mr_pending r)" for m
    using D(3)[of m] fl that unfolding stk by blast
  show "value_inv e0 st ?stk ?r" unfolding st
  proof (rule value_invI)
    show "e (mv_from m) = e0 (mv_from m)" if "m \<in> set (?stk @ mr_pending ?r)" for m
      using that all[of m] all[of b] all[of y] mem b unfolding stk by auto
  qed (use D(4,5) fl in auto)
qed

text \<open>Executing the top of the stack when nothing pending reads its destination.\<close>

lemma source_not_overwritten:
  assumes inv: "shape_inv M (tp # stk) r" and f: "findBlockingMove (mr_pending r) tp = None"
    and m: "m \<in> set (stk @ mr_pending r)" and ne: "stk = [] \<or> m \<noteq> last stk \<or> mv_to tp \<noteq> mv_from (last stk)"
  shows "mv_from m \<noteq> mv_to tp"
proof (cases "m \<in> set (mr_pending r)")
  case True
  with f show ?thesis by (rule findBlockingMove_None)
next
  case False
  with m have s: "m \<in> set stk" by simp
  show ?thesis
  proof (cases "m = last stk")
    case True
    with ne s show ?thesis by force
  next
    case False
    from chain_source_in_tail[OF chain_tl[OF shape_invD(3)[OF inv]] s False]
    have "mv_from m \<in> mv_to ` set stk" by (cases stk) auto
    with shape_invD(1)[OF inv] show ?thesis by auto
  qed
qed

lemma value_inv_pop:
  assumes v: "value_inv e0 st (tp # stk) r" and inv: "shape_inv M (tp # stk) r"
    and f: "findBlockingMove (mr_pending r) tp = None"
  shows "value_inv e0 (exec_move tp st) stk (r\<lparr>mr_ordered := mr_ordered r @ [tp]\<rparr>)" (is "value_inv e0 _ stk ?r")
proof -
  obtain e c fl where st: "st = (e, c, fl)" by (cases st) auto
  note D = value_invD[OF v[unfolded st]]
  have fresh: "mv_to tp \<notin> mv_to ` set (mr_ordered r)" using shape_invD(1)[OF inv] by auto
  have tpl: "tp \<noteq> last (tp # stk)" if "stk \<noteq> []"
    using shape_invD(1)[OF inv] last_in_set[OF that] that by auto
  have cyc: "mv_cycle tp \<longleftrightarrow> (if stk = [] then fl else mv_to tp = mv_from (last stk))"
    using D(1) shape_invD(5)[OF inv, of tp] by auto
  have nfl: "\<not> fl" if "mv_cycle tp" "stk \<noteq> []" using D(2) cyc fresh that by auto
  let ?v = "if mv_cycle tp \<and> fl then c else e (mv_from tp)"
  let ?c = "if mv_cycle tp \<and> \<not> fl then e (mv_to tp) else c"
  let ?fl = "fl \<noteq> mv_cycle tp"
  have ex: "exec_move tp st = (e(mv_to tp := ?v), ?c, ?fl)" unfolding st by simp
  have val: "?v = e0 (mv_from tp)"
    using D(2) D(3)[of tp] tpl cyc nfl by (cases "stk = []") auto
  show ?thesis unfolding ex
  proof (rule value_invI)
    show "mv_cycle (last stk) \<longleftrightarrow> ?fl \<or> (\<exists>x\<in>set (butlast stk). mv_cycle x)" if "stk \<noteq> []"
      using D(1) that nfl by auto
    show "stk \<noteq> [] \<and> ?c = e0 (mv_from (last stk)) \<and> mv_from (last stk) \<in> mv_to ` set (mr_ordered ?r)" if ?fl
      using D(2) D(5)[OF fresh] that cyc nfl by (cases "stk = []") auto
    show "(e(mv_to tp := ?v)) (mv_from m) = e0 (mv_from m)"
      if "m \<in> set (stk @ mr_pending ?r)" "\<not> (?fl \<and> m = last stk)" for m
    proof -
      have m: "m \<in> set (stk @ mr_pending r)" using that(1) by simp
      have "stk = [] \<or> m \<noteq> last stk \<or> mv_to tp \<noteq> mv_from (last stk)" using that(2) cyc nfl by auto
      from source_not_overwritten[OF inv f m this] have "mv_from m \<noteq> mv_to tp" .
      moreover have "m \<noteq> tp" using m shape_invD(1)[OF inv] by auto
      then have "\<not> (fl \<and> m = last (tp # stk))" using that(2) cyc nfl by auto
      then have "e (mv_from m) = e0 (mv_from m)" using D(3)[of m] m by auto
      ultimately show ?thesis by simp
    qed
    show "(e(mv_to tp := ?v)) (mv_to m) = e0 (mv_from m)" if "m \<in> set (mr_ordered ?r)" for m
    proof (cases "m = tp")
      case True
      with val show ?thesis by (simp del: if_split)
    next
      case False
      with that have "m \<in> set (mr_ordered r)" by simp
      moreover from this fresh have "mv_to m \<noteq> mv_to tp" by (metis image_eqI)
      ultimately show ?thesis using D(4)[of m] by simp
    qed
    show "(e(mv_to tp := ?v)) x = e0 x" if "x \<notin> mv_to ` set (mr_ordered ?r)" for x
      using that D(5)[of x] by auto
  qed
qed

subsection \<open>The resolver is correct\<close>

lemma traverse_inv:
  assumes "trav_inv M e0 c0 stk r"
  shows "\<exists>ok r'. traverse room stk r = Some (ok, r') \<and> (ok \<longrightarrow> trav_inv M e0 c0 [] r') \<and> ((\<forall>n. room n) \<longrightarrow> ok)"
  using assms
proof (induction room stk r rule: traverse.induct)
  case (1 room r)
  then show ?case by auto
next
  case (2 room tp stk r)
  have sh: "shape_inv M (tp # stk) r"
    and va: "value_inv e0 (exec_moves (mr_ordered r) (e0, c0, False)) (tp # stk) r"
    using "2.prems" by (simp_all add: trav_inv_def)
  note unfold = traverse.simps(2)[of room tp stk r]
  show ?case
  proof (cases "findBlockingMove (mr_pending r) tp")
    case None
    have "trav_inv M e0 c0 stk (r\<lparr>mr_ordered := mr_ordered r @ [tp]\<rparr>)"
      using shape_inv_pop[OF sh] value_inv_pop[OF va sh None] by (simp add: trav_inv_def)
    with None "2.IH"(1)[OF None] show ?thesis by (auto simp: unfold)
  next
    case (Some b)
    show ?thesis
    proof (cases "mv_to b = mv_from (last (tp # stk))")
      case True
      note c = shape_inv_cycle[OF sh Some True] value_inv_cycle[OF va sh Some True]
        shape_inv_root_unmarked(1)[OF sh Some True]
      have "trav_inv M e0 c0 (b\<lparr>mv_cycle := True\<rparr> # butlast (tp # stk) @ [(last (tp # stk))\<lparr>mv_cycle := True\<rparr>])
          (r\<lparr>mr_hasCycles := True, mr_pending := remove1 b (mr_pending r)\<rparr>)"
        using c(1,3) by (simp add: trav_inv_def del: butlast.simps last.simps)
      with "2.IH"(2)[OF Some refl True] c(2,4) Some True show ?thesis
        unfolding unfold by (auto simp: setInCycle_def Let_def simp del: butlast.simps last.simps)
    next
      case False
      have "trav_inv M e0 c0 (b # tp # stk) (r\<lparr>mr_pending := remove1 b (mr_pending r)\<rparr>)"
        using shape_inv_push[OF sh Some False] value_inv_push[OF va sh Some] by (simp add: trav_inv_def)
      with "2.IH"(3)[OF Some refl False] Some False show ?thesis
        unfolding unfold by (auto simp: Let_def simp del: last.simps)
    qed
  qed
qed

lemma trav_inv_start:
  assumes "trav_inv M e0 c0 [] r" "mr_pending r \<noteq> []"
  shows "trav_inv M e0 c0 [last (mr_pending r)] (r\<lparr>mr_pending := butlast (mr_pending r)\<rparr>)"
proof -
  obtain ps p where ps: "mr_pending r = ps @ [p]" using assms(2) by (metis append_butlast_last_id)
  obtain e c fl where st: "exec_moves (mr_ordered r) (e0, c0, False) = (e, c, fl)" by (metis prod_cases3)
  have sh: "shape_inv M [] r" and v: "value_inv e0 (e, c, fl) [] r"
    using assms(1) by (auto simp: trav_inv_def st)
  have fl: "\<not> fl" using value_invD(2)[OF v] by blast
  have "shape_inv M [p] (r\<lparr>mr_pending := ps\<rparr>)"
    using sh by (auto simp: shape_inv_def ps)
  moreover have "value_inv e0 (e, c, fl) [p] (r\<lparr>mr_pending := ps\<rparr>)"
    using v fl sh by (auto simp: value_inv_def ps shape_inv_def)
  ultimately show ?thesis by (simp add: trav_inv_def st ps)
qed

lemma resolveLoop_inv:
  assumes "trav_inv M e0 c0 [] r"
  shows "\<exists>ok r'. resolveLoop room r = Some (ok, r') \<and>
    (ok \<longrightarrow> trav_inv M e0 c0 [] r' \<and> mr_pending r' = []) \<and> ((\<forall>n. room n) \<longrightarrow> ok)"
  using assms
proof (induction room r rule: resolveLoop.induct)
  case (1 room r)
  show ?case
  proof (cases "mr_pending r = []")
    case True
    with 1 show ?thesis by (auto simp: resolveLoop.simps[of room r])
  next
    case False
    from traverse_inv[OF trav_inv_start[OF "1.prems" False], of room] obtain ok r' where
      t: "traverse room [last (mr_pending r)] (r\<lparr>mr_pending := butlast (mr_pending r)\<rparr>) = Some (ok, r')"
      "ok \<longrightarrow> trav_inv M e0 c0 [] r'" "(\<forall>n. room n) \<longrightarrow> ok" by blast
    show ?thesis
    proof (cases ok)
      case True
      with "1.IH"[OF False t(1) refl] t False show ?thesis by (simp add: resolveLoop.simps[of room r])
    next
      case nok: False
      with t False show ?thesis by (auto simp: resolveLoop.simps[of room r])
    qed
  qed
qed

lemma trav_inv_final:
  assumes "trav_inv M e0 c0 [] r" "mr_pending r = []" "distinct (map mv_to M)"
  shows "\<exists>c. exec_moves (mr_ordered r) (e0, c0, False) = (parallel_assign M e0, c, False)"
proof -
  obtain e c fl where st: "exec_moves (mr_ordered r) (e0, c0, False) = (e, c, fl)" by (metis prod_cases3)
  have v: "value_inv e0 (e, c, fl) [] r" and ms: "mset (map move_core (mr_ordered r)) = mset (map move_core M)"
    using assms(1,2) by (auto simp: trav_inv_def st shape_inv_def)
  have cores: "move_core ` set (mr_ordered r) = move_core ` set M" using ms by (metis set_map set_mset_mset)
  have "e x = parallel_assign M e0 x" for x
  proof (cases "find (\<lambda>m. mv_to m = x) M")
    case None
    then have "x \<notin> mv_to ` set M" by (auto simp: find_None_iff)
    moreover have "mv_to ` set (mr_ordered r) = mv_to ` set M"
      using arg_cong[OF cores, of "image (\<lambda>t. fst (snd t))"] by (simp add: image_image move_core_def)
    ultimately have "x \<notin> mv_to ` set (mr_ordered r)" by simp
    from value_invD(5)[OF v this] None show ?thesis by (simp add: parallel_assign_def)
  next
    case (Some m)
    then have m: "m \<in> set M" "mv_to m = x" by (auto simp: find_Some_iff)
    with cores obtain n where "n \<in> set (mr_ordered r)" "move_core n = move_core m" by (metis (no_types, lifting) image_iff)
    with value_invD(4)[OF v this(1)] m Some show ?thesis by (simp add: parallel_assign_def move_core_def)
  qed
  with value_invD(2)[OF v] st show ?thesis by auto
qed

lemma resolve_correct:
  fixes e :: "MoveOperand \<Rightarrow> 'v"
  assumes dist: "distinct (map mv_to (mr_pending r))" and un: "\<forall>m\<in>set (mr_pending r). \<not> mv_cycle m"
  shows "\<exists>ok r'. resolve room r = Some (ok, r') \<and> ((\<forall>n. room n) \<longrightarrow> ok) \<and>
    (ok \<longrightarrow> mr_pending r' = [] \<and>
      mset (map move_core (mr_ordered r')) = mset (map move_core (mr_pending r)) \<and>
      (\<exists>c'. exec_moves (mr_ordered r') (e, c, False) = (parallel_assign (mr_pending r) e, c', False)) \<and>
      ((\<exists>m\<in>set (mr_ordered r'). mv_cycle m) \<longrightarrow> mr_hasCycles r'))"
proof -
  have "trav_inv (mr_pending r) e c [] ((resetState r)\<lparr>mr_ordered := []\<rparr>)"
    using dist un by (simp add: trav_inv_def shape_inv_def value_inv_def resetState_def)
  from resolveLoop_inv[OF this, of room] obtain ok r' where r': "resolve room r = Some (ok, r')"
    "ok \<longrightarrow> trav_inv (mr_pending r) e c [] r' \<and> mr_pending r' = []" "(\<forall>n. room n) \<longrightarrow> ok"
    unfolding resolve_def by blast
  show ?thesis
    using r' trav_inv_final[OF _ _ dist, of e c r'] by (auto simp: trav_inv_def shape_inv_def)
qed

text \<open>
  C2: for every group of moves with pairwise distinct destinations, \<open>resolve\<close> ends without a
  failed assertion, and unless it runs out of memory it returns true with an empty pending
  list and an ordered list that has the moves of the group and, executed one by one with a
  single cycle slot, performs the parallel assignment from any environment and ends outside a
  cycle (so cycles never nest). \<open>hasCycles\<close> is set whenever a move is marked.
\<close>

theorem resolve_parallel_assignment:
  fixes e :: "MoveOperand \<Rightarrow> 'v"
  assumes dist: "distinct (map mv_to (mr_pending r))" and un: "\<forall>m\<in>set (mr_pending r). \<not> mv_cycle m"
  shows "\<exists>ok r'. resolve room r = Some (ok, r') \<and> ((\<forall>n. room n) \<longrightarrow> ok) \<and>
    (ok \<longrightarrow> mr_pending r' = [] \<and>
      mset (map move_core (mr_ordered r')) = mset (map move_core (mr_pending r)) \<and>
      (\<exists>c'. exec_moves (mr_ordered r') (e, c, False) = (parallel_assign (mr_pending r) e, c', False)) \<and>
      ((\<exists>m\<in>set (mr_ordered r'). mv_cycle m) \<longrightarrow> mr_hasCycles r'))"
  using resolve_correct[OF assms] .

text \<open>Exchanging two registers.\<close>

theorem resolve_parallel_assignment_witness:
  "\<exists>r' c'. resolve (\<lambda>n. True) (added_moves [(REG 0, REG 1), (REG 1, REG 0)]) = Some (True, r') \<and>
    exec_moves (mr_ordered r') (\<lambda>x. if x = REG 0 then 10 else if x = REG 1 then 20 else 0, 0, False) =
      (parallel_assign (mr_pending (added_moves [(REG 0, REG 1), (REG 1, REG 0)]))
        (\<lambda>x. if x = REG 0 then 10 else if x = REG 1 then 20 else (0::int)), c', False)"
proof -
  have "distinct (map mv_to (mr_pending (added_moves [(REG 0, REG 1), (REG 1, REG 0)])))"
    "\<forall>m\<in>set (mr_pending (added_moves [(REG 0, REG 1), (REG 1, REG 0)])). \<not> mv_cycle m"
    by (simp_all add: added_moves_def addMove_def MoveResolver_def)
  from resolve_parallel_assignment[OF this, of "\<lambda>n. True" "\<lambda>x. if x = REG 0 then 10 else if x = REG 1 then 20 else (0::int)" 0]
  show ?thesis by auto
qed

end
