(* ===== verification/Move_Emitter.thy ===== *)
theory Move_Emitter
  imports Move_Resolver
begin

text \<open>
  The code emitter of resolved moves on x86 and x64 (\<open>ion/shared/MoveEmitter-x86-shared.cpp\<close>):
  each method appends instructions to the code and updates the emitter's fields. A small machine
  with general and float registers and a memory of cells gives the instructions their meaning;
  a cell holds whatever one move writes, so operands at different addresses do not overlap.

  \<open>InvalidReg\<close> is \<open>None\<close>. The platform is a record with the code of the stack pointer, of the
  scratch float register, and the size of a pushed word.
\<close>

subsection \<open>Instructions and the machine\<close>

datatype Operand = OReg nat | OFpr nat | OMem nat int

datatype instr =
    mov_ro nat Operand
  | mov_or Operand nat
  | lea Operand nat
  | movsd_ro nat Operand
  | movsd_or Operand nat
  | Push nat
  | reserveStack int
  | freeStack int

record platform =
  pl_StackPointer :: nat
  pl_ScratchFloatReg :: nat
  pl_word :: int

record machine =
  mc_reg :: "nat \<Rightarrow> int"
  mc_fpr :: "nat \<Rightarrow> int"
  mc_mem :: "int \<Rightarrow> int"

fun address :: "Operand \<Rightarrow> machine \<Rightarrow> int" where
  "address (OMem b d) m = mc_reg m b + d"
| "address _ m = 0"

fun load :: "Operand \<Rightarrow> machine \<Rightarrow> int" where
  "load (OReg r) m = mc_reg m r"
| "load (OFpr f) m = mc_fpr m f"
| "load (OMem b d) m = mc_mem m (mc_reg m b + d)"

fun store :: "Operand \<Rightarrow> int \<Rightarrow> machine \<Rightarrow> machine" where
  "store (OReg r) v m = m\<lparr>mc_reg := (mc_reg m)(r := v)\<rparr>"
| "store (OFpr f) v m = m\<lparr>mc_fpr := (mc_fpr m)(f := v)\<rparr>"
| "store (OMem b d) v m = m\<lparr>mc_mem := (mc_mem m)(mc_reg m b + d := v)\<rparr>"

fun run_instr :: "platform \<Rightarrow> instr \<Rightarrow> machine \<Rightarrow> machine" where
  "run_instr p (mov_ro r o') m = store o' (mc_reg m r) m"
| "run_instr p (mov_or o' r) m = store (OReg r) (load o' m) m"
| "run_instr p (lea o' r) m = store (OReg r) (address o' m) m"
| "run_instr p (movsd_ro f o') m = store o' (mc_fpr m f) m"
| "run_instr p (movsd_or o' f) m = store (OFpr f) (load o' m) m"
| "run_instr p (Push r) m =
     (let v = mc_reg m r; sp = mc_reg m (pl_StackPointer p) - pl_word p in
      m\<lparr>mc_reg := (mc_reg m)(pl_StackPointer p := sp), mc_mem := (mc_mem m)(sp := v)\<rparr>)"
| "run_instr p (reserveStack n) m =
     m\<lparr>mc_reg := (mc_reg m)(pl_StackPointer p := mc_reg m (pl_StackPointer p) - n)\<rparr>"
| "run_instr p (freeStack n) m =
     m\<lparr>mc_reg := (mc_reg m)(pl_StackPointer p := mc_reg m (pl_StackPointer p) + n)\<rparr>"

definition run :: "platform \<Rightarrow> instr list \<Rightarrow> machine \<Rightarrow> machine" where
  "run p is m = fold (run_instr p) is m"

lemma run_simps [simp]:
  "run p [] m = m" "run p (is @ js) m = run p js (run p is m)" "run p (i # is) m = run p is (run_instr p i m)"
  by (simp_all add: run_def)

subsection \<open>The emitter\<close>

record emitter =
  em_inCycle :: bool
  em_pushedAtStart :: int
  em_pushedAtCycle :: int
  em_pushedAtSpill :: int
  em_spilledReg :: "nat option"
  em_framePushed :: int
  em_code :: "instr list"

definition MoveEmitterX86 :: "int \<Rightarrow> emitter" where
  "MoveEmitterX86 framePushed = \<lparr>em_inCycle = False, em_pushedAtStart = framePushed, em_pushedAtCycle = -1,
     em_pushedAtSpill = -1, em_spilledReg = None, em_framePushed = framePushed, em_code = []\<rparr>"

definition masm :: "instr \<Rightarrow> emitter \<Rightarrow> emitter" where
  "masm i em = em\<lparr>em_code := em_code em @ [i]\<rparr>"

definition cycleSlot :: "platform \<Rightarrow> emitter \<Rightarrow> Operand" where
  "cycleSlot p em = OMem (pl_StackPointer p) (em_framePushed em - em_pushedAtCycle em)"

definition spillSlot :: "platform \<Rightarrow> emitter \<Rightarrow> Operand" where
  "spillSlot p em = OMem (pl_StackPointer p) (em_framePushed em - em_pushedAtSpill em)"

fun toOperand :: "platform \<Rightarrow> emitter \<Rightarrow> MoveOperand \<Rightarrow> Operand option" where
  "toOperand p em (REG r) = Some (OReg r)"
| "toOperand p em (FLOAT_REG f) = Some (OFpr f)"
| "toOperand p em (ADDRESS b d) =
     (if b \<noteq> pl_StackPointer p then Some (OMem b d)
      else do { js_assert (d \<ge> 0); Some (OMem b (d + (em_framePushed em - em_pushedAtStart em))) })"
| "toOperand p em (EFFECTIVE_ADDRESS b d) =
     (if b \<noteq> pl_StackPointer p then Some (OMem b d)
      else do { js_assert (d \<ge> 0); Some (OMem b (d + (em_framePushed em - em_pushedAtStart em))) })"

definition tempReg :: "platform \<Rightarrow> emitter \<Rightarrow> nat \<times> emitter" where
  "tempReg p em = (case em_spilledReg em of Some r \<Rightarrow> (r, em)
     | None \<Rightarrow>
        (let em = em\<lparr>em_spilledReg := Some 2\<rparr> in
         if em_pushedAtSpill em = -1 then
           (let em = masm (Push 2) (em\<lparr>em_framePushed := em_framePushed em + pl_word p\<rparr>)
            in (2, em\<lparr>em_pushedAtSpill := em_framePushed em\<rparr>))
         else (2, masm (mov_ro 2 (spillSlot p em)) em)))"

text \<open>The accessors of \<open>MoveOperand\<close> and their assertions.\<close>

fun isMemory :: "MoveOperand \<Rightarrow> bool" where
  "isMemory (ADDRESS b d) = True"
| "isMemory _ = False"

fun isEffectiveAddress :: "MoveOperand \<Rightarrow> bool" where
  "isEffectiveAddress (EFFECTIVE_ADDRESS b d) = True"
| "isEffectiveAddress _ = False"

fun isGeneralReg :: "MoveOperand \<Rightarrow> bool" where
  "isGeneralReg (REG r) = True"
| "isGeneralReg _ = False"

fun isFloatReg :: "MoveOperand \<Rightarrow> bool" where
  "isFloatReg (FLOAT_REG f) = True"
| "isFloatReg _ = False"

fun mo_reg :: "MoveOperand \<Rightarrow> nat option" where
  "mo_reg (REG r) = Some r"
| "mo_reg _ = None"

fun mo_floatReg :: "MoveOperand \<Rightarrow> nat option" where
  "mo_floatReg (FLOAT_REG f) = Some f"
| "mo_floatReg _ = None"

fun mo_base :: "MoveOperand \<Rightarrow> nat option" where
  "mo_base (ADDRESS b d) = Some b"
| "mo_base (EFFECTIVE_ADDRESS b d) = Some b"
| "mo_base _ = None"

definition breakCycle :: "platform \<Rightarrow> MoveOperand \<Rightarrow> MoveOperand \<Rightarrow> MoveKind \<Rightarrow> emitter \<Rightarrow> emitter option" where
  "breakCycle p from to kind em =
     (if kind = DOUBLE then
        if isMemory to then do {
          o' \<leftarrow> toOperand p em to;
          Some (masm (movsd_ro (pl_ScratchFloatReg p) (cycleSlot p em)) (masm (movsd_or o' (pl_ScratchFloatReg p)) em)) }
        else do { f \<leftarrow> mo_floatReg to; Some (masm (movsd_ro f (cycleSlot p em)) em) }
      else
        if isMemory to then do {
          let (temp, em) = tempReg p em;
          o' \<leftarrow> toOperand p em to;
          Some (masm (mov_ro temp (cycleSlot p em)) (masm (mov_or o' temp) em)) }
        else do { r \<leftarrow> mo_reg to; Some (masm (mov_ro r (cycleSlot p em)) em) })"

definition completeCycle :: "platform \<Rightarrow> MoveOperand \<Rightarrow> MoveOperand \<Rightarrow> MoveKind \<Rightarrow> emitter \<Rightarrow> emitter option" where
  "completeCycle p from to kind em =
     (if kind = DOUBLE then
        if isMemory to then do {
          o' \<leftarrow> toOperand p em to;
          Some (masm (movsd_ro (pl_ScratchFloatReg p) o') (masm (movsd_or (cycleSlot p em) (pl_ScratchFloatReg p)) em)) }
        else do { f \<leftarrow> mo_floatReg to; Some (masm (movsd_or (cycleSlot p em) f) em) }
      else
        if isMemory to then do {
          let (temp, em) = tempReg p em;
          o' \<leftarrow> toOperand p em to;
          Some (masm (mov_ro temp o') (masm (mov_or (cycleSlot p em) temp) em)) }
        else do { r \<leftarrow> mo_reg to; Some (masm (mov_or (cycleSlot p em) r) em) })"

definition emitMove :: "platform \<Rightarrow> MoveOperand \<Rightarrow> MoveOperand \<Rightarrow> emitter \<Rightarrow> emitter option" where
  "emitMove p from to em = do {
     let em = (if isGeneralReg to \<and> mo_reg to = em_spilledReg em then em\<lparr>em_spilledReg := None\<rparr> else em);
     if isGeneralReg from then do {
       r \<leftarrow> mo_reg from;
       let em = (if em_spilledReg em = Some r
                 then (masm (mov_or (spillSlot p em) r) em)\<lparr>em_spilledReg := None\<rparr> else em);
       o' \<leftarrow> toOperand p em to;
       Some (masm (mov_ro r o') em) }
     else if isGeneralReg to then do {
       js_assert (isMemory from \<or> isEffectiveAddress from);
       r \<leftarrow> mo_reg to;
       o' \<leftarrow> toOperand p em from;
       if isMemory from then Some (masm (mov_or o' r) em) else Some (masm (lea o' r) em) }
     else do {
       let (reg, em) = tempReg p em;
       b \<leftarrow> mo_base from;
       let em = (if reg = b then masm (mov_or (spillSlot p em) b) em else em);
       js_assert (isMemory from \<or> isEffectiveAddress from);
       o' \<leftarrow> toOperand p em from;
       let em = (if isMemory from then masm (mov_or o' reg) em else masm (lea o' reg) em);
       tb \<leftarrow> mo_base to;
       js_assert (tb \<noteq> reg);
       o' \<leftarrow> toOperand p em to;
       Some (masm (mov_ro reg o') em) } }"

definition emitDoubleMove :: "platform \<Rightarrow> MoveOperand \<Rightarrow> MoveOperand \<Rightarrow> emitter \<Rightarrow> emitter option" where
  "emitDoubleMove p from to em =
     (if isFloatReg from then do {
        f \<leftarrow> mo_floatReg from;
        o' \<leftarrow> toOperand p em to;
        Some (masm (movsd_ro f o') em) }
      else if isFloatReg to then do {
        f \<leftarrow> mo_floatReg to;
        o' \<leftarrow> toOperand p em from;
        Some (masm (movsd_or o' f) em) }
      else do {
        js_assert (isMemory from);
        o1 \<leftarrow> toOperand p em from;
        o2 \<leftarrow> toOperand p em to;
        Some (masm (movsd_ro (pl_ScratchFloatReg p) o2) (masm (movsd_or o1 (pl_ScratchFloatReg p)) em)) })"

definition emit_move :: "platform \<Rightarrow> Move \<Rightarrow> emitter \<Rightarrow> emitter option" where
  "emit_move p m em =
     (if mv_cycle m \<and> em_inCycle em then do {
        em \<leftarrow> completeCycle p (mv_from m) (mv_to m) (mv_kind m) em;
        Some (em\<lparr>em_inCycle := False\<rparr>) }
      else do {
        em \<leftarrow> (if mv_cycle m then do {
                 em \<leftarrow> breakCycle p (mv_from m) (mv_to m) (mv_kind m) em;
                 Some (em\<lparr>em_inCycle := True\<rparr>) } else Some em);
        if mv_kind m = DOUBLE then emitDoubleMove p (mv_from m) (mv_to m) em
        else emitMove p (mv_from m) (mv_to m) em })"

definition emit :: "platform \<Rightarrow> resolver \<Rightarrow> emitter \<Rightarrow> emitter option" where
  "emit p moves em = do {
     let em = (if mr_hasCycles moves then
                 (let em = masm (reserveStack 8) (em\<lparr>em_framePushed := em_framePushed em + 8\<rparr>)
                  in em\<lparr>em_pushedAtCycle := em_framePushed em\<rparr>)
               else em);
     mfold (emit_move p) (mr_ordered moves) em }"

definition finish :: "platform \<Rightarrow> emitter \<Rightarrow> emitter option" where
  "finish p em = do {
     js_assert (\<not> em_inCycle em);
     let em = (case em_spilledReg em of
                 Some r \<Rightarrow> if em_pushedAtSpill em \<noteq> -1 then masm (mov_or (spillSlot p em) r) em else em
               | None \<Rightarrow> em);
     Some ((masm (freeStack (em_framePushed em - em_pushedAtStart em)) em)\<lparr>em_framePushed := em_pushedAtStart em\<rparr>) }"

subsection \<open>Simulation of the abstract execution\<close>

text \<open>
  The operands the code generator builds for move groups: registers other than the stack pointer and
  the scratch register, and stack addresses above the stack pointer.
\<close>

fun valid_operand :: "platform \<Rightarrow> MoveOperand \<Rightarrow> bool" where
  "valid_operand p (REG r) \<longleftrightarrow> r \<noteq> pl_StackPointer p"
| "valid_operand p (FLOAT_REG f) \<longleftrightarrow> f \<noteq> pl_ScratchFloatReg p"
| "valid_operand p (ADDRESS b d) \<longleftrightarrow> b = pl_StackPointer p \<and> 0 \<le> d"
| "valid_operand p (EFFECTIVE_ADDRESS b d) \<longleftrightarrow> b = pl_StackPointer p \<and> 0 \<le> d"

definition valid_move :: "platform \<Rightarrow> Move \<Rightarrow> bool" where
  "valid_move p m \<longleftrightarrow> valid_operand p (mv_from m) \<and> valid_operand p (mv_to m) \<and> mv_from m \<noteq> mv_to m \<and>
     \<not> isEffectiveAddress (mv_to m) \<and>
     (case mv_kind m of GENERAL \<Rightarrow> \<not> isFloatReg (mv_from m) \<and> \<not> isFloatReg (mv_to m)
      | DOUBLE \<Rightarrow> (isFloatReg (mv_from m) \<or> isMemory (mv_from m)) \<and> (isFloatReg (mv_to m) \<or> isMemory (mv_to m)))"

definition wf_platform :: "platform \<Rightarrow> bool" where
  "wf_platform p \<longleftrightarrow> pl_StackPointer p \<noteq> 2 \<and> 0 < pl_word p"

abbreviation "mrun p m0 em \<equiv> run p (em_code em) m0"

text \<open>Where an operand has its value while the emitter works: \<open>s\<close> is the stack pointer at the start.\<close>

fun operand_value :: "int \<Rightarrow> int \<Rightarrow> nat option \<Rightarrow> machine \<Rightarrow> MoveOperand \<Rightarrow> int" where
  "operand_value s spill sr m (REG r) = (if sr = Some r then mc_mem m spill else mc_reg m r)"
| "operand_value s spill sr m (FLOAT_REG f) = mc_fpr m f"
| "operand_value s spill sr m (ADDRESS b d) = mc_mem m (s + d)"
| "operand_value s spill sr m (EFFECTIVE_ADDRESS b d) = s + d"

definition cycle_size :: "bool \<Rightarrow> int" where
  "cycle_size has = (if has then 8 else 0)"

definition sim :: "platform \<Rightarrow> bool \<Rightarrow> int \<Rightarrow> machine \<Rightarrow> emitter \<Rightarrow> int exec_state \<Rightarrow> bool" where
  "sim p has s m0 em st \<longleftrightarrow> (case st of (e, c, inC) \<Rightarrow>
     let m = mrun p m0 em; cs = cycle_size has in
     mc_reg m (pl_StackPointer p) = s - (em_framePushed em - em_pushedAtStart em) \<and>
     0 \<le> em_pushedAtStart em \<and>
     (has \<longrightarrow> em_pushedAtCycle em = em_pushedAtStart em + 8 \<and> mc_mem m (s - 8) = c) \<and>
     (if em_pushedAtSpill em = -1
      then em_framePushed em = em_pushedAtStart em + cs \<and> em_spilledReg em = None
      else em_framePushed em = em_pushedAtStart em + cs + pl_word p \<and> em_pushedAtSpill em = em_framePushed em) \<and>
     em_spilledReg em \<in> {None, Some 2} \<and>
     em_inCycle em = inC \<and>
     (\<forall>x. valid_operand p x \<longrightarrow> operand_value s (s - cs - pl_word p) (em_spilledReg em) m x = e x))"

lemma simD:
  assumes "sim p has s m0 em (e, c, inC)"
  shows "mc_reg (mrun p m0 em) (pl_StackPointer p) = s - (em_framePushed em - em_pushedAtStart em)"
    "0 \<le> em_pushedAtStart em"
    "has \<Longrightarrow> em_pushedAtCycle em = em_pushedAtStart em + 8" "has \<Longrightarrow> mc_mem (mrun p m0 em) (s - 8) = c"
    "em_pushedAtSpill em = -1 \<Longrightarrow> em_framePushed em = em_pushedAtStart em + cycle_size has"
    "em_pushedAtSpill em = -1 \<Longrightarrow> em_spilledReg em = None"
    "em_pushedAtSpill em \<noteq> -1 \<Longrightarrow> em_framePushed em = em_pushedAtStart em + cycle_size has + pl_word p"
    "em_pushedAtSpill em \<noteq> -1 \<Longrightarrow> em_pushedAtSpill em = em_framePushed em"
    "em_spilledReg em = None \<or> em_spilledReg em = Some 2" "em_inCycle em = inC"
    "valid_operand p x \<Longrightarrow>
      operand_value s (s - cycle_size has - pl_word p) (em_spilledReg em) (mrun p m0 em) x = e x"
  using assms by (auto simp: sim_def Let_def split: if_splits)

lemma masm_fields [simp]:
  "em_code (masm i em) = em_code em @ [i]" "em_inCycle (masm i em) = em_inCycle em"
  "em_pushedAtStart (masm i em) = em_pushedAtStart em" "em_pushedAtCycle (masm i em) = em_pushedAtCycle em"
  "em_pushedAtSpill (masm i em) = em_pushedAtSpill em" "em_spilledReg (masm i em) = em_spilledReg em"
  "em_framePushed (masm i em) = em_framePushed em"
  by (simp_all add: masm_def)

lemma slots_masm [simp]:
  "toOperand p (masm i em) x = toOperand p em x" "cycleSlot p (masm i em) = cycleSlot p em"
  by (cases x; simp) (simp add: cycleSlot_def)

lemma cycle_size_simps [simp]: "cycle_size True = 8" "cycle_size False = 0"
  by (simp_all add: cycle_size_def)

text \<open>Addresses the emitter computes.\<close>

lemma toOperand_address:
  assumes "sim p has s m0 em (e, c, b)" "valid_operand p (ADDRESS r d)"
  shows "\<exists>o'. toOperand p em (ADDRESS r d) = Some o' \<and> toOperand p em (EFFECTIVE_ADDRESS r d) = Some o' \<and>
    address o' (mrun p m0 em) = s + d \<and> load o' (mrun p m0 em) = mc_mem (mrun p m0 em) (s + d) \<and>
    (\<forall>v. store o' v (mrun p m0 em) = (mrun p m0 em)\<lparr>mc_mem := (mc_mem (mrun p m0 em))(s + d := v)\<rparr>)"
  using assms(2) simD(1)[OF assms(1)] by simp

lemma cycleSlot_address:
  assumes "sim p True s m0 em (e, c, b)"
  shows "load (cycleSlot p em) (mrun p m0 em) = c"
    "store (cycleSlot p em) v (mrun p m0 em) = (mrun p m0 em)\<lparr>mc_mem := (mc_mem (mrun p m0 em))(s - 8 := v)\<rparr>"
  using simD(1,3,4)[OF assms] by (simp_all add: cycleSlot_def)

lemma spillSlot_address:
  assumes "sim p has s m0 em (e, c, b)" "em_pushedAtSpill em \<noteq> -1"
  shows "load (spillSlot p em) (mrun p m0 em) = mc_mem (mrun p m0 em) (s - cycle_size has - pl_word p)"
    "store (spillSlot p em) v (mrun p m0 em) =
      (mrun p m0 em)\<lparr>mc_mem := (mc_mem (mrun p m0 em))(s - cycle_size has - pl_word p := v)\<rparr>"
proof -
  have "mc_reg (mrun p m0 em) (pl_StackPointer p) + (em_framePushed em - em_pushedAtSpill em) =
      s - cycle_size has - pl_word p"
    using simD(1,7,8)[OF assms(1)] assms(2) by simp
  then show "load (spillSlot p em) (mrun p m0 em) = mc_mem (mrun p m0 em) (s - cycle_size has - pl_word p)"
    "store (spillSlot p em) v (mrun p m0 em) =
      (mrun p m0 em)\<lparr>mc_mem := (mc_mem (mrun p m0 em))(s - cycle_size has - pl_word p := v)\<rparr>"
    by (simp_all add: spillSlot_def)
qed

text \<open>One instruction, with \<open>sr\<close> the spilled register after it.\<close>

lemma sim_instr:
  assumes "sim p has s m0 em (e, c, b)" "run_instr p i (mrun p m0 em) = m'"
    "mc_reg m' (pl_StackPointer p) = mc_reg (mrun p m0 em) (pl_StackPointer p)"
    "has \<Longrightarrow> mc_mem m' (s - 8) = c'"
    "sr = em_spilledReg em \<or> sr = None"
    "\<And>x. valid_operand p x \<Longrightarrow> operand_value s (s - cycle_size has - pl_word p) sr m' x = e' x"
  shows "sim p has s m0 ((masm i em)\<lparr>em_spilledReg := sr\<rparr>) (e', c', b)"
  using assms by (auto simp: sim_def Let_def)

lemma sim_instr_same:
  assumes "sim p has s m0 em (e, c, b)" "run_instr p i (mrun p m0 em) = m'"
    "mc_reg m' (pl_StackPointer p) = mc_reg (mrun p m0 em) (pl_StackPointer p)"
    "has \<Longrightarrow> mc_mem m' (s - 8) = c'"
    "\<And>x. valid_operand p x \<Longrightarrow> operand_value s (s - cycle_size has - pl_word p) (em_spilledReg em) m' x = e' x"
  shows "sim p has s m0 (masm i em) (e', c', b)"
proof -
  have "(masm i em)\<lparr>em_spilledReg := em_spilledReg em\<rparr> = masm i em" by (simp add: masm_def)
  with sim_instr[OF assms(1-4) disjI1[OF refl] assms(5)] show ?thesis by simp
qed

lemma sim_temp:
  assumes wf: "wf_platform p" and sm: "sim p has s m0 em (e, c, b)" and sp: "em_spilledReg em = Some 2"
    and i: "run_instr p i (mrun p m0 em) = (mrun p m0 em)\<lparr>mc_reg := (mc_reg (mrun p m0 em))(2 := v)\<rparr>"
  shows "sim p has s m0 (masm i em) (e, c, b)"
proof (rule sim_instr_same[OF sm i])
  show "operand_value s (s - cycle_size has - pl_word p) (em_spilledReg em)
      ((mrun p m0 em)\<lparr>mc_reg := (mc_reg (mrun p m0 em))(2 := v)\<rparr>) x = e x" if "valid_operand p x" for x
    using simD(11)[OF sm that] sp by (cases x) auto
qed (use wf simD(4)[OF sm] in \<open>simp_all add: wf_platform_def\<close>)

lemma sim_scratch:
  assumes sm: "sim p has s m0 em (e, c, b)"
    and i: "run_instr p i (mrun p m0 em) = (mrun p m0 em)\<lparr>mc_fpr := (mc_fpr (mrun p m0 em))(pl_ScratchFloatReg p := v)\<rparr>"
  shows "sim p has s m0 (masm i em) (e, c, b)"
proof (rule sim_instr_same[OF sm i])
  show "operand_value s (s - cycle_size has - pl_word p) (em_spilledReg em)
      ((mrun p m0 em)\<lparr>mc_fpr := (mc_fpr (mrun p m0 em))(pl_ScratchFloatReg p := v)\<rparr>) x = e x" if "valid_operand p x" for x
    using simD(11)[OF sm that] that by (cases x) auto
qed (use simD(4)[OF sm] in simp_all)

lemma sim_store_mem:
  assumes wf: "wf_platform p" and sm: "sim p has s m0 em (e, c, b)" and d: "valid_operand p (ADDRESS r d)"
    and i: "run_instr p i (mrun p m0 em) = (mrun p m0 em)\<lparr>mc_mem := (mc_mem (mrun p m0 em))(s + d := v)\<rparr>"
  shows "sim p has s m0 (masm i em) (e(ADDRESS r d := v), c, b)"
proof (rule sim_instr_same[OF sm i])
  have w: "0 < pl_word p" "0 \<le> d" using wf d by (simp_all add: wf_platform_def)
  show "operand_value s (s - cycle_size has - pl_word p) (em_spilledReg em)
      ((mrun p m0 em)\<lparr>mc_mem := (mc_mem (mrun p m0 em))(s + d := v)\<rparr>) x = (e(ADDRESS r d := v)) x"
    if "valid_operand p x" for x
    using simD(11)[OF sm that] that d w by (cases x) (auto simp: cycle_size_def)
qed (use simD(4)[OF sm] d in \<open>auto simp: fun_upd_def\<close>)

lemma sim_store_reg:
  assumes sm: "sim p has s m0 em (e, c, b)" and r: "valid_operand p (REG r)" "em_spilledReg em \<noteq> Some r"
    and i: "run_instr p i (mrun p m0 em) = (mrun p m0 em)\<lparr>mc_reg := (mc_reg (mrun p m0 em))(r := v)\<rparr>"
  shows "sim p has s m0 (masm i em) (e(REG r := v), c, b)"
proof (rule sim_instr_same[OF sm i])
  show "operand_value s (s - cycle_size has - pl_word p) (em_spilledReg em)
      ((mrun p m0 em)\<lparr>mc_reg := (mc_reg (mrun p m0 em))(r := v)\<rparr>) x = (e(REG r := v)) x"
    if "valid_operand p x" for x
    using simD(11)[OF sm that] that r by (cases x) auto
qed (use simD(4)[OF sm] r in auto)

lemma sim_store_fpr:
  assumes sm: "sim p has s m0 em (e, c, b)"
    and i: "run_instr p i (mrun p m0 em) = (mrun p m0 em)\<lparr>mc_fpr := (mc_fpr (mrun p m0 em))(f := v)\<rparr>"
  shows "sim p has s m0 (masm i em) (e(FLOAT_REG f := v), c, b)"
proof (rule sim_instr_same[OF sm i])
  show "operand_value s (s - cycle_size has - pl_word p) (em_spilledReg em)
      ((mrun p m0 em)\<lparr>mc_fpr := (mc_fpr (mrun p m0 em))(f := v)\<rparr>) x = (e(FLOAT_REG f := v)) x"
    if "valid_operand p x" for x
    using simD(11)[OF sm that] that by (cases x) auto
qed (use simD(4)[OF sm] in auto)

lemma sim_store_cycle:
  assumes wf: "wf_platform p" and sm: "sim p True s m0 em (e, c, b)"
    and i: "run_instr p i (mrun p m0 em) = (mrun p m0 em)\<lparr>mc_mem := (mc_mem (mrun p m0 em))(s - 8 := v)\<rparr>"
  shows "sim p True s m0 (masm i em) (e, v, b)"
proof (rule sim_instr_same[OF sm i])
  show "operand_value s (s - cycle_size True - pl_word p) (em_spilledReg em)
      ((mrun p m0 em)\<lparr>mc_mem := (mc_mem (mrun p m0 em))(s - 8 := v)\<rparr>) x = e x"
    if "valid_operand p x" for x
    using simD(11)[OF sm that] that wf by (cases x) (auto simp: wf_platform_def)
qed auto

text \<open>The spilled register is loaded back, or about to be overwritten.\<close>

lemma sim_reload:
  assumes wf: "wf_platform p" and sm: "sim p has s m0 em (e, c, b)" and sp: "em_spilledReg em = Some r"
  shows "sim p has s m0 ((masm (mov_or (spillSlot p em) r) em)\<lparr>em_spilledReg := None\<rparr>) (e, c, b)"
proof -
  have r: "r = 2" using sp simD(9)[OF sm] by auto
  have ps: "em_pushedAtSpill em \<noteq> -1" using sp simD(6)[OF sm] by auto
  let ?m = "mrun p m0 em"
  have i: "run_instr p (mov_or (spillSlot p em) r) ?m =
      ?m\<lparr>mc_reg := (mc_reg ?m)(2 := mc_mem ?m (s - cycle_size has - pl_word p))\<rparr>"
    using spillSlot_address(1)[OF sm ps] by (simp add: r)
  show ?thesis
  proof (rule sim_instr[OF sm i])
    show "operand_value s (s - cycle_size has - pl_word p) None
        (?m\<lparr>mc_reg := (mc_reg ?m)(2 := mc_mem ?m (s - cycle_size has - pl_word p))\<rparr>) x = e x"
      if "valid_operand p x" for x
      using simD(11)[OF sm that] sp r by (cases x) auto
  qed (use wf simD(4)[OF sm] in \<open>auto simp: wf_platform_def\<close>)
qed

text \<open>Forgetting the spilled register gives the register operand an unknown value.\<close>

lemma sim_forget:
  assumes "sim p has s m0 em (e, c, b)" "em_spilledReg em = Some r"
  shows "\<exists>v. sim p has s m0 (em\<lparr>em_spilledReg := None\<rparr>) (e(REG r := v), c, b)"
proof (rule exI[of _ "mc_reg (mrun p m0 em) r"])
  have "operand_value s (s - cycle_size has - pl_word p) None (mrun p m0 em) x =
      (e(REG r := mc_reg (mrun p m0 em) r)) x" if "valid_operand p x" for x
    using simD(11)[OF assms(1) that] assms(2) by (cases x) auto
  then show "sim p has s m0 (em\<lparr>em_spilledReg := None\<rparr>) (e(REG r := mc_reg (mrun p m0 em) r), c, b)"
    using assms by (auto simp: sim_def Let_def)
qed

lemma sim_tempReg:
  assumes wf: "wf_platform p" and sm: "sim p has s m0 em (e, c, b)"
  shows "\<exists>em'. tempReg p em = (2, em') \<and> sim p has s m0 em' (e, c, b) \<and> em_spilledReg em' = Some 2"
proof (cases "em_spilledReg em")
  case (Some r)
  with simD(9)[OF sm] sm show ?thesis by (auto simp: tempReg_def)
next
  case None
  let ?m = "mrun p m0 em"
  have w: "pl_StackPointer p \<noteq> 2" "0 < pl_word p" using wf by (simp_all add: wf_platform_def)
  show ?thesis
  proof (cases "em_pushedAtSpill em = -1")
    case True
    let ?em = "(masm (Push 2) (em\<lparr>em_spilledReg := Some 2, em_framePushed := em_framePushed em + pl_word p\<rparr>))
      \<lparr>em_pushedAtSpill := em_framePushed em + pl_word p\<rparr>"
    have t: "tempReg p em = (2, ?em)" using None True by (simp add: tempReg_def Let_def)
    have fp: "em_framePushed em = em_pushedAtStart em + cycle_size has" by (rule simD(5)[OF sm True])
    have "operand_value s (s - cycle_size has - pl_word p) (Some 2) (mrun p m0 ?em) x = e x" if "valid_operand p x" for x
      using simD(11)[OF sm that] simD(1)[OF sm] None w that fp
      by (cases x) (auto simp: Let_def cycle_size_def)
    then have "sim p has s m0 ?em (e, c, b)"
      using sm True w fp by (auto simp: sim_def Let_def cycle_size_def split: if_splits)
    with t show ?thesis by simp
  next
    case False
    have i: "run_instr p (mov_ro 2 (spillSlot p em)) ?m =
        ?m\<lparr>mc_mem := (mc_mem ?m)(s - cycle_size has - pl_word p := mc_reg ?m 2)\<rparr>"
      using spillSlot_address(2)[OF sm False] by simp
    have "operand_value s (s - cycle_size has - pl_word p) (Some 2) (run_instr p (mov_ro 2 (spillSlot p em)) ?m) x = e x"
      if "valid_operand p x" for x
      unfolding i using simD(11)[OF sm that] None w that by (cases x) (auto simp: cycle_size_def)
    then have "sim p has s m0 (masm (mov_ro 2 (spillSlot p em)) (em\<lparr>em_spilledReg := Some 2\<rparr>)) (e, c, b)"
      using sm False w by (auto simp: sim_def Let_def i cycle_size_def split: if_splits simp del: run_instr.simps)
    with None False show ?thesis by (simp add: tempReg_def Let_def spillSlot_def)
  qed
qed

subsection \<open>Moves\<close>

text \<open>Writing a register or a memory cell from a general register.\<close>

lemma sim_write_general:
  assumes wf: "wf_platform p" and sm: "sim p has s m0 em (e, c, b)" and to: "valid_operand p to"
    "isGeneralReg to \<or> isMemory to" and sp: "\<forall>r. to = REG r \<longrightarrow> em_spilledReg em \<noteq> Some r"
  shows "\<exists>o'. toOperand p em to = Some o' \<and>
    sim p has s m0 (masm (mov_ro q o') em) (e(to := mc_reg (mrun p m0 em) q), c, b)"
proof (cases to)
  case (REG r)
  with sim_store_reg[OF sm, of r "mov_ro q (OReg r)"] to sp show ?thesis by simp
next
  case (ADDRESS r d)
  with toOperand_address[OF sm, of r d] to obtain o' where o': "toOperand p em to = Some o'"
    "store o' (mc_reg (mrun p m0 em) q) (mrun p m0 em) =
      (mrun p m0 em)\<lparr>mc_mem := (mc_mem (mrun p m0 em))(s + d := mc_reg (mrun p m0 em) q)\<rparr>" by auto
  with sim_store_mem[OF wf sm, of r d "mov_ro q o'"] ADDRESS to show ?thesis by simp
qed (use to in auto)

text \<open>Loading a memory operand or its address into a general register.\<close>

lemma sim_read_general:
  assumes sm: "sim p has s m0 em (e, c, b)" and fr: "valid_operand p from" "isMemory from \<or> isEffectiveAddress from"
  shows "\<exists>o'. toOperand p em from = Some o' \<and>
    run_instr p (if isMemory from then mov_or o' r else lea o' r) (mrun p m0 em) =
      (mrun p m0 em)\<lparr>mc_reg := (mc_reg (mrun p m0 em))(r := e from)\<rparr>"
proof (cases "from")
  case (ADDRESS q d)
  with toOperand_address[OF sm, of q d] fr simD(11)[OF sm fr(1)] show ?thesis by auto
next
  case (EFFECTIVE_ADDRESS q d)
  with fr have "valid_operand p (ADDRESS q d)" by simp
  from toOperand_address[OF sm this] obtain o' where
    o': "toOperand p em (EFFECTIVE_ADDRESS q d) = Some o'" "address o' (mrun p m0 em) = s + d" by blast
  with EFFECTIVE_ADDRESS simD(11)[OF sm fr(1)] show ?thesis by (simp del: toOperand.simps)
qed (use fr in auto)

lemma emitMove_destination:
  assumes sm: "sim p has s m0 em (e, c, b)" and ne: "from \<noteq> to"
  defines "em1 \<equiv> (if isGeneralReg to \<and> mo_reg to = em_spilledReg em then em\<lparr>em_spilledReg := None\<rparr> else em)"
  shows "\<exists>e1. sim p has s m0 em1 (e1, c, b) \<and> (\<forall>x. e1(to := x) = e(to := x)) \<and> e1 from = e from \<and>
    (\<forall>r. to = REG r \<longrightarrow> em_spilledReg em1 \<noteq> Some r)"
proof (cases "isGeneralReg to \<and> mo_reg to = em_spilledReg em")
  case True
  then obtain r where r: "to = REG r" "em_spilledReg em = Some r" by (cases to) auto
  from sim_forget[OF sm r(2)] obtain v where "sim p has s m0 (em\<lparr>em_spilledReg := None\<rparr>) (e(REG r := v), c, b)" ..
  with True r ne show ?thesis unfolding em1_def by (intro exI[of _ "e(REG r := v)"]) auto
next
  case False
  with sm show ?thesis unfolding em1_def by (intro exI[of _ e]) auto
qed

text \<open>Memory to memory, through the temporary register.\<close>

lemma sim_memory_move:
  assumes wf: "wf_platform p" and sm: "sim p has s m0 em (e, c, b)"
    and fr: "valid_operand p from" and mem: "isMemory from \<or> isEffectiveAddress from"
    and to: "valid_operand p to" and tm: "isMemory to"
  shows "\<exists>em2 o1 o2. tempReg p em = (2, em2) \<and> toOperand p em2 from = Some o1 \<and>
    (let em3 = masm (if isMemory from then mov_or o1 2 else lea o1 2) em2 in
     toOperand p em3 to = Some o2 \<and> sim p has s m0 (masm (mov_ro 2 o2) em3) (e(to := e from), c, b))"
proof -
  from sim_tempReg[OF wf sm] obtain em2 where em2: "tempReg p em = (2, em2)"
    "sim p has s m0 em2 (e, c, b)" "em_spilledReg em2 = Some 2" by blast
  let ?i = "\<lambda>o'. if isMemory from then mov_or o' 2 else lea o' 2"
  from sim_read_general[OF em2(2) fr mem, of 2] obtain o1 where o1: "toOperand p em2 from = Some o1"
    "run_instr p (?i o1) (mrun p m0 em2) = (mrun p m0 em2)\<lparr>mc_reg := (mc_reg (mrun p m0 em2))(2 := e from)\<rparr>" by auto
  have s3: "sim p has s m0 (masm (?i o1) em2) (e, c, b)" by (rule sim_temp[OF wf em2(2,3) o1(2)])
  have "\<forall>r. to = REG r \<longrightarrow> em_spilledReg (masm (?i o1) em2) \<noteq> Some r" using tm by auto
  from sim_write_general[OF wf s3 to _ this, of 2] tm o1(2) obtain o2 where
    "toOperand p (masm (?i o1) em2) to = Some o2"
    "sim p has s m0 (masm (mov_ro 2 o2) (masm (?i o1) em2)) (e(to := e from), c, b)"
    by (auto simp del: run_instr.simps)
  with em2 o1 show ?thesis by (auto simp: Let_def)
qed

lemma sim_emitMove:
  assumes wf: "wf_platform p" and sm: "sim p has s m0 em (e, c, b)" and ne: "from \<noteq> to"
    and fr: "valid_operand p from" "\<not> isFloatReg from"
    and to: "valid_operand p to" "isGeneralReg to \<or> isMemory to"
  shows "\<exists>em'. emitMove p from to em = Some em' \<and> sim p has s m0 em' (e(to := e from), c, b)"
proof -
  let ?em1 = "if isGeneralReg to \<and> mo_reg to = em_spilledReg em then em\<lparr>em_spilledReg := None\<rparr> else em"
  obtain e1 where e1: "sim p has s m0 ?em1 (e1, c, b)" "\<forall>x. e1(to := x) = e(to := x)" "e1 from = e from"
    "\<forall>r. to = REG r \<longrightarrow> em_spilledReg ?em1 \<noteq> Some r"
    using emitMove_destination[OF sm ne] by auto
  show ?thesis
  proof (cases "isGeneralReg from")
    case True
    then obtain q where q: "from = REG q" by (cases "from") auto
    let ?em2 = "if em_spilledReg ?em1 = Some q then (masm (mov_or (spillSlot p ?em1) q) ?em1)\<lparr>em_spilledReg := None\<rparr> else ?em1"
    have s2: "sim p has s m0 ?em2 (e1, c, b)" using sim_reload[OF wf e1(1), of q] e1(1) by presburger
    have u2: "\<forall>r. to = REG r \<longrightarrow> em_spilledReg ?em2 \<noteq> Some r" using e1(4) by auto
    have v: "mc_reg (mrun p m0 ?em2) q = e1 from"
      using simD(11)[OF s2 fr(1)] unfolding q by (auto split: if_splits)
    from sim_write_general[OF wf s2 to u2, of q] obtain o' where
      "toOperand p ?em2 to = Some o'" "sim p has s m0 (masm (mov_ro q o') ?em2) (e1(to := e1 from), c, b)"
      unfolding v by blast
    then show ?thesis using e1(2,3) by (auto simp: emitMove_def Let_def q simp del: if_split)
  next
    case False
    then have mem: "isMemory from \<or> isEffectiveAddress from" using fr by (cases "from") auto
    show ?thesis
    proof (cases "isGeneralReg to")
      case True
      then obtain r where r: "to = REG r" by (cases to) auto
      from sim_read_general[OF e1(1) fr(1) mem, of r] obtain o' where o': "toOperand p ?em1 from = Some o'"
        "run_instr p (if isMemory from then mov_or o' r else lea o' r) (mrun p m0 ?em1) =
          (mrun p m0 ?em1)\<lparr>mc_reg := (mc_reg (mrun p m0 ?em1))(r := e1 from)\<rparr>" by auto
      have "sim p has s m0 (masm (if isMemory from then mov_or o' r else lea o' r) ?em1) (e1(to := e1 from), c, b)"
        using sim_store_reg[OF e1(1) _ _ o'(2)] to e1(4) unfolding r by blast
      then show ?thesis using e1(2,3) o'(1) mem False r
        by (auto simp: emitMove_def Let_def simp del: if_split split: if_split_asm)
    next
      case nreg: False
      then have tm: "isMemory to" using to by simp
      have em1: "?em1 = em" using nreg by simp
      have "mo_base from = Some (pl_StackPointer p)" "mo_base to = Some (pl_StackPointer p)"
        using fr mem tm to by (cases "from"; auto; cases to; auto)+
      moreover have "pl_StackPointer p \<noteq> 2" using wf by (simp add: wf_platform_def)
      moreover note sim_memory_move[OF wf sm fr(1) mem to(1) tm]
      ultimately show ?thesis using mem False nreg
        by (auto simp: emitMove_def Let_def split: if_splits)
    qed
  qed
qed

lemma sim_emitDoubleMove:
  assumes wf: "wf_platform p" and sm: "sim p has s m0 em (e, c, b)"
    and fr: "valid_operand p from" "isFloatReg from \<or> isMemory from"
    and to: "valid_operand p to" "isFloatReg to \<or> isMemory to"
  shows "\<exists>em'. emitDoubleMove p from to em = Some em' \<and> sim p has s m0 em' (e(to := e from), c, b)"
proof -
  have wr: "\<exists>o'. toOperand p em1 to = Some o' \<and> sim p has s m0 (masm (movsd_ro f o') em1) (e(to := mc_fpr (mrun p m0 em1) f), c, b)"
    if "sim p has s m0 em1 (e, c, b)" for em1 f
  proof (cases to)
    case (FLOAT_REG g)
    with sim_store_fpr[OF that, of "movsd_ro f (OFpr g)" g] show ?thesis by simp
  next
    case (ADDRESS r d)
    with toOperand_address[OF that, of r d] to obtain o' where o': "toOperand p em1 to = Some o'"
      "store o' (mc_fpr (mrun p m0 em1) f) (mrun p m0 em1) =
        (mrun p m0 em1)\<lparr>mc_mem := (mc_mem (mrun p m0 em1))(s + d := mc_fpr (mrun p m0 em1) f)\<rparr>" by auto
    with sim_store_mem[OF wf that, of r d "movsd_ro f o'"] ADDRESS to show ?thesis by simp
  qed (use to in auto)
  show ?thesis
  proof (cases "from")
    case (FLOAT_REG f)
    with wr[OF sm, of f] simD(11)[OF sm fr(1)] show ?thesis by (auto simp: emitDoubleMove_def)
  next
    case (ADDRESS r d)
    with fr toOperand_address[OF sm, of r d] simD(11)[OF sm fr(1)] obtain o1 where
      o1: "toOperand p em from = Some o1" "load o1 (mrun p m0 em) = e from"
      by (auto simp del: toOperand.simps)
    show ?thesis
    proof (cases to)
      case (FLOAT_REG g)
      with sim_store_fpr[OF sm, of "movsd_or o1 g" g "e from"] o1 ADDRESS show ?thesis
        by (simp add: emitDoubleMove_def del: toOperand.simps)
    next
      case (ADDRESS r' d')
      let ?sc = "pl_ScratchFloatReg p"
      have i: "run_instr p (movsd_or o1 ?sc) (mrun p m0 em) =
          (mrun p m0 em)\<lparr>mc_fpr := (mc_fpr (mrun p m0 em))(?sc := e from)\<rparr>" using o1 by simp
      from wr[OF sim_scratch[OF sm i], of ?sc] o1(2) obtain o2 where
        "toOperand p (masm (movsd_or o1 ?sc) em) to = Some o2"
        "sim p has s m0 (masm (movsd_ro ?sc o2) (masm (movsd_or o1 ?sc) em)) (e(to := e from), c, b)" by auto
      moreover from this(1) have "toOperand p em to = Some o2" by (simp del: toOperand.simps)
      ultimately show ?thesis using o1(1) \<open>from = ADDRESS r d\<close> ADDRESS
        by (simp add: emitDoubleMove_def del: toOperand.simps)
    qed (use to in auto)
  qed (use fr in auto)
qed

subsection \<open>Cycles\<close>

lemma sim_breakCycle:
  assumes wf: "wf_platform p" and sm: "sim p True s m0 em (e, c, b)"
    and to: "valid_operand p to" "\<not> isEffectiveAddress to"
    and kind: "kind = DOUBLE \<Longrightarrow> \<not> isGeneralReg to" "kind = GENERAL \<Longrightarrow> \<not> isFloatReg to"
    and sp: "kind = GENERAL \<Longrightarrow> to \<noteq> REG 2"
  shows "\<exists>em'. breakCycle p from to kind em = Some em' \<and> sim p True s m0 em' (e, e to, b)"
proof (cases to)
  case (REG r)
  then have k: "kind = GENERAL" using kind by (cases kind) auto
  have "mc_reg (mrun p m0 em) r = e to"
    using simD(11)[OF sm to(1)] simD(9)[OF sm] REG sp[OF k] by auto
  with sim_store_cycle[OF wf sm, of "mov_ro r (cycleSlot p em)"] cycleSlot_address[OF sm] REG k show ?thesis
    by (simp add: breakCycle_def)
next
  case (FLOAT_REG f)
  then have k: "kind = DOUBLE" using kind by (cases kind) auto
  with sim_store_cycle[OF wf sm, of "movsd_ro f (cycleSlot p em)"] cycleSlot_address[OF sm] FLOAT_REG simD(11)[OF sm to(1)]
  show ?thesis by (simp add: breakCycle_def)
next
  case (ADDRESS r d)
  have rd: "\<exists>o'. toOperand p em1 to = Some o' \<and> load o' (mrun p m0 em1) = e to"
    if "sim p True s m0 em1 (e, c, b)" for em1
    using toOperand_address[OF that, of r d] to simD(11)[OF that to(1)] unfolding ADDRESS
    by (auto simp del: toOperand.simps)
  show ?thesis
  proof (cases kind)
    case GENERAL
    from sim_tempReg[OF wf sm] obtain em2 where em2: "tempReg p em = (2, em2)"
      "sim p True s m0 em2 (e, c, b)" "em_spilledReg em2 = Some 2" by blast
    from rd[OF em2(2)] obtain o' where o': "toOperand p em2 to = Some o'" "load o' (mrun p m0 em2) = e to" by blast
    have s3: "sim p True s m0 (masm (mov_or o' 2) em2) (e, c, b)" by (rule sim_temp[OF wf em2(2,3)]) simp
    from sim_store_cycle[OF wf s3, of "mov_ro 2 (cycleSlot p em2)"] cycleSlot_address(2)[OF s3] o' em2(1) GENERAL ADDRESS
    show ?thesis by (simp add: breakCycle_def del: toOperand.simps)
  next
    case DOUBLE
    let ?sc = "pl_ScratchFloatReg p"
    from rd[OF sm] obtain o' where o': "toOperand p em to = Some o'" "load o' (mrun p m0 em) = e to" by blast
    have s3: "sim p True s m0 (masm (movsd_or o' ?sc) em) (e, c, b)" by (rule sim_scratch[OF sm]) simp
    from sim_store_cycle[OF wf s3, of "movsd_ro ?sc (cycleSlot p em)"] cycleSlot_address(2)[OF s3] o' DOUBLE ADDRESS
    show ?thesis by (simp add: breakCycle_def del: toOperand.simps)
  qed
qed (use to in auto)

lemma sim_completeCycle:
  assumes wf: "wf_platform p" and sm: "sim p True s m0 em (e, c, b)"
    and to: "valid_operand p to" "\<not> isEffectiveAddress to"
    and kind: "kind = DOUBLE \<Longrightarrow> \<not> isGeneralReg to" "kind = GENERAL \<Longrightarrow> \<not> isFloatReg to"
    and sp: "kind = GENERAL \<Longrightarrow> to \<noteq> REG 2"
  shows "\<exists>em'. completeCycle p from to kind em = Some em' \<and> sim p True s m0 em' (e(to := c), c, b)"
proof (cases to)
  case (REG r)
  then have k: "kind = GENERAL" using kind by (cases kind) auto
  have "em_spilledReg em \<noteq> Some r" using simD(9)[OF sm] REG sp[OF k] by auto
  with sim_store_reg[OF sm, of r "mov_or (cycleSlot p em) r"] cycleSlot_address(1)[OF sm] REG k to show ?thesis
    by (simp add: completeCycle_def)
next
  case (FLOAT_REG f)
  then have k: "kind = DOUBLE" using kind by (cases kind) auto
  with sim_store_fpr[OF sm, of "movsd_or (cycleSlot p em) f" f] cycleSlot_address(1)[OF sm] FLOAT_REG
  show ?thesis by (simp add: completeCycle_def)
next
  case (ADDRESS r d)
  have wr: "\<exists>o'. toOperand p em1 to = Some o' \<and>
      (\<forall>v. store o' v (mrun p m0 em1) = (mrun p m0 em1)\<lparr>mc_mem := (mc_mem (mrun p m0 em1))(s + d := v)\<rparr>)"
    if "sim p True s m0 em1 (e, c, b)" for em1
    using toOperand_address[OF that, of r d] to unfolding ADDRESS by (auto simp del: toOperand.simps)
  have v: "valid_operand p (ADDRESS r d)" using to ADDRESS by simp
  show ?thesis
  proof (cases kind)
    case GENERAL
    from sim_tempReg[OF wf sm] obtain em2 where em2: "tempReg p em = (2, em2)"
      "sim p True s m0 em2 (e, c, b)" "em_spilledReg em2 = Some 2" by blast
    have s3: "sim p True s m0 (masm (mov_or (cycleSlot p em2) 2) em2) (e, c, b)"
      by (rule sim_temp[OF wf em2(2,3)]) simp
    from wr[OF s3] obtain o' where o': "toOperand p em2 to = Some o'"
      "\<forall>v. store o' v (mrun p m0 (masm (mov_or (cycleSlot p em2) 2) em2)) =
        (mrun p m0 (masm (mov_or (cycleSlot p em2) 2) em2))\<lparr>mc_mem := (mc_mem (mrun p m0 (masm (mov_or (cycleSlot p em2) 2) em2)))(s + d := v)\<rparr>"
      by (auto simp del: toOperand.simps)
    have "sim p True s m0 (masm (mov_ro 2 o') (masm (mov_or (cycleSlot p em2) 2) em2)) (e(ADDRESS r d := c), c, b)"
      by (rule sim_store_mem[OF wf s3 v]) (use o'(2) cycleSlot_address(1)[OF em2(2)] in simp)
    with o'(1) em2(1) GENERAL ADDRESS show ?thesis by (simp add: completeCycle_def del: toOperand.simps)
  next
    case DOUBLE
    let ?sc = "pl_ScratchFloatReg p"
    have s3: "sim p True s m0 (masm (movsd_or (cycleSlot p em) ?sc) em) (e, c, b)" by (rule sim_scratch[OF sm]) simp
    from wr[OF s3] obtain o' where o': "toOperand p em to = Some o'"
      "\<forall>v. store o' v (mrun p m0 (masm (movsd_or (cycleSlot p em) ?sc) em)) =
        (mrun p m0 (masm (movsd_or (cycleSlot p em) ?sc) em))\<lparr>mc_mem := (mc_mem (mrun p m0 (masm (movsd_or (cycleSlot p em) ?sc) em)))(s + d := v)\<rparr>"
      by (auto simp del: toOperand.simps)
    have "sim p True s m0 (masm (movsd_ro ?sc o') (masm (movsd_or (cycleSlot p em) ?sc) em)) (e(ADDRESS r d := c), c, b)"
      by (rule sim_store_mem[OF wf s3 v]) (use o'(2) cycleSlot_address(1)[OF sm] in simp)
    with o'(1) DOUBLE ADDRESS show ?thesis by (simp add: completeCycle_def del: toOperand.simps)
  qed
qed (use to in auto)

subsection \<open>Move groups\<close>

lemma sim_flag: "sim p has s m0 em (e, c, b) \<Longrightarrow> sim p has s m0 (em\<lparr>em_inCycle := b'\<rparr>) (e, c, b')"
  by (auto simp: sim_def Let_def)

lemma sim_emit_any:
  assumes wf: "wf_platform p" and sm: "sim p has s m0 em (e, c, b)" and v: "valid_move p m"
  shows "\<exists>em'. (if mv_kind m = DOUBLE then emitDoubleMove p (mv_from m) (mv_to m) em
      else emitMove p (mv_from m) (mv_to m) em) = Some em' \<and> sim p has s m0 em' (e(mv_to m := e (mv_from m)), c, b)"
proof (cases "mv_kind m")
  case GENERAL
  with v have "isGeneralReg (mv_to m) \<or> isMemory (mv_to m)" by (cases "mv_to m") (auto simp: valid_move_def)
  with sim_emitMove[OF wf sm] v GENERAL show ?thesis by (auto simp: valid_move_def)
next
  case DOUBLE
  with sim_emitDoubleMove[OF wf sm] v show ?thesis by (auto simp: valid_move_def)
qed

lemma sim_emit_move:
  assumes wf: "wf_platform p" and sm: "sim p has s m0 em st" and v: "valid_move p m"
    and cyc: "mv_cycle m \<Longrightarrow> has" and sp: "mv_cycle m \<Longrightarrow> mv_kind m = GENERAL \<Longrightarrow> mv_to m \<noteq> REG 2"
  shows "\<exists>em'. emit_move p m em = Some em' \<and> sim p has s m0 em' (exec_move m st)"
proof -
  obtain e c b where st: "st = (e, c, b)" by (cases st) auto
  note sm = sm[unfolded st]
  show ?thesis
  proof (cases "mv_cycle m")
    case False
    with sim_emit_any[OF wf sm v] show ?thesis by (simp add: emit_move_def st)
  next
    case True
    with cyc have has by simp
    with sm have smT: "sim p True s m0 em (e, c, b)" by simp
    have k: "mv_kind m = DOUBLE \<Longrightarrow> \<not> isGeneralReg (mv_to m)" "mv_kind m = GENERAL \<Longrightarrow> \<not> isFloatReg (mv_to m)"
      using v by (auto simp: valid_move_def) (cases "mv_to m"; simp)+
    have t: "valid_operand p (mv_to m)" "\<not> isEffectiveAddress (mv_to m)" using v by (simp_all add: valid_move_def)
    show ?thesis
    proof (cases b)
      case b: True
      from sim_completeCycle[OF wf smT t k sp[OF True]] obtain em' where
        "completeCycle p (mv_from m) (mv_to m) (mv_kind m) em = Some em'" "sim p True s m0 em' (e(mv_to m := c), c, b)"
        by blast
      with sim_flag[OF this(2), of False] True b simD(10)[OF sm] \<open>has\<close> show ?thesis by (simp add: emit_move_def st)
    next
      case b: False
      from sim_breakCycle[OF wf smT t k sp[OF True]] obtain em1 where
        em1: "breakCycle p (mv_from m) (mv_to m) (mv_kind m) em = Some em1" "sim p True s m0 em1 (e, e (mv_to m), b)"
        by blast
      from sim_emit_any[OF wf sim_flag[OF em1(2), of True] v] em1(1) True b simD(10)[OF sm] \<open>has\<close> show ?thesis
        by (simp add: emit_move_def st)
    qed
  qed
qed

lemma sim_emit_moves:
  assumes wf: "wf_platform p" and "sim p has s m0 em st" "\<forall>m\<in>set ms. valid_move p m"
    "\<forall>m\<in>set ms. mv_cycle m \<longrightarrow> has" "\<forall>m\<in>set ms. mv_cycle m \<and> mv_kind m = GENERAL \<longrightarrow> mv_to m \<noteq> REG 2"
  shows "\<exists>em'. mfold (emit_move p) ms em = Some em' \<and> sim p has s m0 em' (exec_moves ms st)"
  using assms(2-)
proof (induction ms arbitrary: em st)
  case Nil
  then show ?case by simp
next
  case (Cons m ms)
  from sim_emit_move[OF wf Cons.prems(1), of m] Cons.prems(2-) obtain em1 where
    "emit_move p m em = Some em1" "sim p has s m0 em1 (exec_move m st)" by auto
  with Cons.IH[OF this(2)] Cons.prems(2-) show ?case by (simp add: exec_moves_def)
qed

lemma sim_start:
  assumes "0 \<le> fp"
  defines "em \<equiv> MoveEmitterX86 fp"
  shows "sim p has (mc_reg m0 (pl_StackPointer p)) m0
    (if has then (masm (reserveStack 8) (em\<lparr>em_framePushed := em_framePushed em + 8\<rparr>))\<lparr>em_pushedAtCycle := fp + 8\<rparr>
     else em)
    (operand_value (mc_reg m0 (pl_StackPointer p)) 0 None m0, mc_mem m0 (mc_reg m0 (pl_StackPointer p) - 8), False)"
proof -
  let ?s = "mc_reg m0 (pl_StackPointer p)"
  have a: "operand_value ?s k None (run_instr p (reserveStack 8) m0) x = operand_value ?s 0 None m0 x"
    if "valid_operand p x" for x k using that by (cases x) simp_all
  have b: "operand_value ?s k None m0 x = operand_value ?s 0 None m0 x" for x k by (cases x) simp_all
  show ?thesis
  proof (cases has)
    case True
    with assms(1) a[of _ "?s - 8 - pl_word p"] show ?thesis
      by (simp add: sim_def em_def MoveEmitterX86_def Let_def)
  next
    case False
    with assms(1) b[of "?s - pl_word p"] show ?thesis
      by (simp add: sim_def em_def MoveEmitterX86_def Let_def)
  qed
qed

lemma sim_finish:
  assumes wf: "wf_platform p" and sm: "sim p has s m0 em (e, c, False)"
  shows "\<exists>em'. finish p em = Some em' \<and> em_framePushed em' = em_pushedAtStart em \<and>
    mc_reg (mrun p m0 em') (pl_StackPointer p) = s \<and>
    (\<forall>x. valid_operand p x \<longrightarrow> operand_value s 0 None (mrun p m0 em') x = e x)"
proof -
  let ?em1 = "case em_spilledReg em of
      Some r \<Rightarrow> if em_pushedAtSpill em \<noteq> -1 then masm (mov_or (spillSlot p em) r) em else em | None \<Rightarrow> em"
  have s1: "sim p has s m0 (?em1\<lparr>em_spilledReg := None\<rparr>) (e, c, False)"
  proof (cases "em_spilledReg em")
    case None
    then have eq: "em\<lparr>em_spilledReg := None\<rparr> = em" by simp
    show ?thesis unfolding None option.case eq by (rule sm)
  next
    case (Some r)
    with simD(6)[OF sm] have "em_pushedAtSpill em \<noteq> -1" by auto
    with Some sim_reload[OF wf sm Some] show ?thesis by simp
  qed
  have f: "finish p em = Some ((masm (freeStack (em_framePushed ?em1 - em_pushedAtStart ?em1)) ?em1)
      \<lparr>em_framePushed := em_pushedAtStart ?em1\<rparr>)" (is "_ = Some ?em'")
    using simD(10)[OF sm] by (simp add: finish_def Let_def)
  have st: "em_pushedAtStart ?em1 = em_pushedAtStart em" by (simp split: option.split)
  have sp: "mc_reg (mrun p m0 ?em') (pl_StackPointer p) = s" using simD(1)[OF s1] by simp
  moreover have "operand_value s 0 None (mrun p m0 ?em') x = e x" if "valid_operand p x" for x
    using simD(11)[OF s1 that] that by (cases x) auto
  ultimately show ?thesis using f st by auto
qed

lemma valid_move_core: "move_core m = move_core n \<Longrightarrow> valid_move p m \<longleftrightarrow> valid_move p n"
  by (simp add: move_core_def valid_move_def cong: MoveKind.case_cong)

text \<open>No method moves the start of the frame.\<close>

lemma tempReg_start: "em_pushedAtStart (snd (tempReg p em)) = em_pushedAtStart em"
  by (simp add: tempReg_def Let_def split: option.split)

lemma emitMove_start: "emitMove p from to em = Some em' \<Longrightarrow> em_pushedAtStart em' = em_pushedAtStart em"
  using tempReg_start[of p em] tempReg_start[of p "em\<lparr>em_spilledReg := None\<rparr>"]
  by (auto simp: emitMove_def Let_def split: if_splits Option.bind_splits prod.splits)

lemma emitDoubleMove_start: "emitDoubleMove p from to em = Some em' \<Longrightarrow> em_pushedAtStart em' = em_pushedAtStart em"
  by (auto simp: emitDoubleMove_def split: if_splits Option.bind_splits)

lemma cycle_start:
  "breakCycle p from to kind em = Some em' \<Longrightarrow> em_pushedAtStart em' = em_pushedAtStart em"
  "completeCycle p from to kind em = Some em' \<Longrightarrow> em_pushedAtStart em' = em_pushedAtStart em"
  using tempReg_start[of p em]
  by (auto simp: breakCycle_def completeCycle_def split: if_splits Option.bind_splits prod.splits)

lemma emit_move_start: "emit_move p m em = Some em' \<Longrightarrow> em_pushedAtStart em' = em_pushedAtStart em"
  by (auto simp: emit_move_def dest!: cycle_start emitMove_start emitDoubleMove_start
      split: if_splits Option.bind_splits)

lemma emit_moves_start: "mfold (emit_move p) ms em = Some em' \<Longrightarrow> em_pushedAtStart em' = em_pushedAtStart em"
  by (induction ms arbitrary: em) (auto dest: emit_move_start split: option.splits)

text \<open>
  C3: the machine code of a move group performs the parallel assignment. For moves with
  distinct destinations between distinct operands the code generator can build, if \<open>resolve\<close>
  finds memory then emitting the ordered moves and finishing fails no assertion, and running the
  code leaves the stack pointer and the frame depth as they were and gives every operand the
  value that its source had before, provided that no move of a cycle writes the register
  the emitter takes as temporary.
\<close>

theorem emitted_code_parallel_assignment:
  assumes wf: "wf_platform p" and fp: "0 \<le> fp"
    and dist: "distinct (map mv_to (mr_pending r))"
    and ms: "\<forall>m\<in>set (mr_pending r). valid_move p m \<and> \<not> mv_cycle m"
    and res: "resolve room r = Some (True, r')"
    and temp: "\<forall>m\<in>set (mr_ordered r'). mv_cycle m \<and> mv_kind m = GENERAL \<longrightarrow> mv_to m \<noteq> REG 2"
  shows "\<exists>em em'. emit p r' (MoveEmitterX86 fp) = Some em \<and> finish p em = Some em' \<and> em_framePushed em' = fp \<and>
    (let s = mc_reg m (pl_StackPointer p); m' = run p (em_code em') m in
     mc_reg m' (pl_StackPointer p) = s \<and>
     (\<forall>x. valid_operand p x \<longrightarrow> operand_value s 0 None m' x =
        parallel_assign (mr_pending r) (operand_value s 0 None m) x))"
proof -
  let ?s = "mc_reg m (pl_StackPointer p)"
  let ?e = "operand_value ?s 0 None m"
  obtain c' where ord: "mset (map move_core (mr_ordered r')) = mset (map move_core (mr_pending r))"
    "exec_moves (mr_ordered r') (?e, mc_mem m (?s - 8), False) = (parallel_assign (mr_pending r) ?e, c', False)"
    "\<forall>m\<in>set (mr_ordered r'). mv_cycle m \<longrightarrow> mr_hasCycles r'"
    using resolve_correct[OF dist, of room ?e "mc_mem m (?s - 8)"] ms res by auto
  have cores: "move_core ` set (mr_ordered r') = move_core ` set (mr_pending r)"
    using ord(1) by (metis set_map set_mset_mset)
  have valid: "\<forall>m\<in>set (mr_ordered r'). valid_move p m"
  proof
    fix m assume "m \<in> set (mr_ordered r')"
    with cores obtain n where "n \<in> set (mr_pending r)" "move_core m = move_core n" by (metis (no_types, lifting) imageI image_iff)
    with ms valid_move_core show "valid_move p m" by blast
  qed
  note start = sim_start[OF fp, of p "mr_hasCycles r'" m]
  obtain em where em: "emit p r' (MoveEmitterX86 fp) = Some em"
    "sim p (mr_hasCycles r') ?s m em (parallel_assign (mr_pending r) ?e, c', False)"
    using sim_emit_moves[OF wf start valid ord(3) temp] ord(2)
    by (auto simp: emit_def Let_def MoveEmitterX86_def cong: if_cong)
  moreover have "em_pushedAtStart em = fp"
    using em(1) by (auto simp: emit_def Let_def MoveEmitterX86_def dest: emit_moves_start split: if_splits)
  ultimately show ?thesis using sim_finish[OF wf em(2)] by (auto simp: Let_def)
qed

theorem emitted_code_parallel_assignment_witness:
  "\<exists>em em'. emit \<lparr>pl_StackPointer = 4, pl_ScratchFloatReg = 15, pl_word = 8\<rparr>
      \<lparr>mr_pending = [], mr_ordered = [\<lparr>mv_from = REG 1, mv_to = ADDRESS 4 8, mv_cycle = False, mv_kind = GENERAL\<rparr>],
       mr_hasCycles = False\<rparr> (MoveEmitterX86 0) = Some em \<and>
    finish \<lparr>pl_StackPointer = 4, pl_ScratchFloatReg = 15, pl_word = 8\<rparr> em = Some em' \<and> em_framePushed em' = 0"
proof -
  let ?p = "\<lparr>pl_StackPointer = 4, pl_ScratchFloatReg = 15, pl_word = 8\<rparr>"
  let ?m = "\<lparr>mv_from = REG 1, mv_to = ADDRESS 4 8, mv_cycle = False, mv_kind = GENERAL\<rparr>"
  let ?r = "\<lparr>mr_pending = [?m], mr_ordered = [], mr_hasCycles = False\<rparr>"
  have "wf_platform ?p" "distinct (map mv_to (mr_pending ?r))"
    "\<forall>m\<in>set (mr_pending ?r). valid_move ?p m \<and> \<not> mv_cycle m"
    by (simp_all add: wf_platform_def valid_move_def)
  moreover have "resolve (\<lambda>n. True) ?r = Some (True, \<lparr>mr_pending = [], mr_ordered = [?m], mr_hasCycles = False\<rparr>)"
    by (simp add: resolve_def resetState_def resolveLoop.simps traverse.simps(2) findBlockingMove_def)
  ultimately show ?thesis
    using emitted_code_parallel_assignment[where p = ?p and fp = 0 and r = ?r and room = "\<lambda>n. True"
        and r' = "\<lparr>mr_pending = [], mr_ordered = [?m], mr_hasCycles = False\<rparr>"
        and m = "\<lparr>mc_reg = (\<lambda>r. 0), mc_fpr = (\<lambda>r. 0), mc_mem = (\<lambda>a. 0)\<rparr>"]
    by (auto simp: Let_def)
qed

subsection \<open>A cycle through the temporary register\<close>

definition platform_x64 :: platform where
  "platform_x64 = \<lparr>pl_StackPointer = 4, pl_ScratchFloatReg = 15, pl_word = 8\<rparr>"

text \<open>A group that exchanges the registers with codes 0 and 2 and copies a stack slot.\<close>

definition swap_and_copy :: resolver where
  "swap_and_copy = added_moves [(REG 0, REG 2), (REG 2, REG 0), (ADDRESS 4 0, ADDRESS 4 8)]"

definition swap_machine :: machine where
  "swap_machine = \<lparr>mc_reg = (\<lambda>r. if r = 0 then 10 else if r = 2 then 20 else 0), mc_fpr = (\<lambda>f. 0),
     mc_mem = (\<lambda>a. if a = 0 then 30 else 0)\<rparr>"

lemma swap_and_copy_resolved:
  "resolve (\<lambda>n. True) swap_and_copy = Some (True, \<lparr>mr_pending = [], mr_ordered =
     [\<lparr>mv_from = ADDRESS 4 0, mv_to = ADDRESS 4 8, mv_cycle = False, mv_kind = GENERAL\<rparr>,
      \<lparr>mv_from = REG 0, mv_to = REG 2, mv_cycle = True, mv_kind = GENERAL\<rparr>,
      \<lparr>mv_from = REG 2, mv_to = REG 0, mv_cycle = True, mv_kind = GENERAL\<rparr>], mr_hasCycles = True\<rparr>)"
  by (simp add: resolve_def swap_and_copy_def added_moves_def addMove_def MoveResolver_def resetState_def resolveLoop.simps
      traverse.simps(2) findBlockingMove_def setInCycle_def Let_def)

text \<open>
  C11: the exclusion of the temporary register in the previous property is needed. Copying a
  stack slot takes register 2 as temporary; when the same group then exchanges registers 0 and
  2, \<open>breakCycle\<close> saves the temporary instead of the value of register 2: the moves are valid,
  resolving, emitting and finishing succeed, and register 0 ends with the copied slot (30)
  instead of the value that register 2 had (20).
\<close>

theorem cycle_through_temporary_clobbers:
  "\<exists>r' em em'. resolve (\<lambda>n. True) swap_and_copy = Some (True, r') \<and>
    list_all (valid_move platform_x64) (mr_pending swap_and_copy) \<and>
    distinct (map mv_to (mr_pending swap_and_copy)) \<and>
    emit platform_x64 r' (MoveEmitterX86 0) = Some em \<and> finish platform_x64 em = Some em' \<and>
    mc_reg (run platform_x64 (em_code em') swap_machine) 0 = 30 \<and>
    parallel_assign (mr_pending swap_and_copy) (operand_value 0 0 None swap_machine) (REG 0) = 20"
  unfolding swap_and_copy_resolved
  by (simp add: swap_and_copy_def added_moves_def addMove_def MoveResolver_def valid_move_def platform_x64_def emit_def
      emit_move_def breakCycle_def completeCycle_def emitMove_def tempReg_def finish_def masm_def spillSlot_def
      cycleSlot_def MoveEmitterX86_def swap_machine_def parallel_assign_def Let_def)

end
