(* ===== verification/Live_Intervals.thy ===== *)
theory Live_Intervals
  imports Lir
begin

text \<open>
  The live intervals of the linear scan allocator (\<open>ion/LinearScan.h\<close>, \<open>ion/LinearScan.cpp\<close>):
  code positions, ranges, \<open>LiveInterval\<close> with its list of ranges, its list of uses and its
  cached range, and the intervals of a \<open>VirtualRegister\<close>.

  A vector of ranges is a list in the order of the vector, the last range of the interval
  first. Loops that walk the vector with a pointer or an unsigned index downwards recurse on
  that index plus one. Requests for memory of
  \<open>addRange\<close> and \<open>splitFrom\<close> may fail; \<open>addRangeAtHead\<close> and \<open>addInterval\<close> are modelled for a vector
  that grows. What an interval means is the
  set of positions its ranges contain; each operation is proved to compute on that set.
\<close>

subsection \<open>Code positions\<close>

type_synonym code_pos = u32

datatype sub_position = INPUT | OUTPUT

definition CodePosition_MAX :: code_pos where "CodePosition_MAX = -1"
definition CodePosition_MIN :: code_pos where "CodePosition_MIN = 0"

definition CodePosition :: "u32 \<Rightarrow> sub_position \<Rightarrow> code_pos option" where
  "CodePosition ins sub = do {
     js_assert (ins < 0x80000000);
     Some (push_bit 1 ins OR (case sub of INPUT \<Rightarrow> 0 | OUTPUT \<Rightarrow> 1)) }"

definition cp_ins :: "code_pos \<Rightarrow> u32" where "cp_ins p = drop_bit 1 p"

definition cp_subpos :: "code_pos \<Rightarrow> sub_position" where
  "cp_subpos p = (if p AND 1 = 0 then INPUT else OUTPUT)"

definition cp_previous :: "code_pos \<Rightarrow> code_pos option" where
  "cp_previous p = do { js_assert (p \<noteq> CodePosition_MIN); Some (p - 1) }"

definition cp_next :: "code_pos \<Rightarrow> code_pos option" where
  "cp_next p = do { js_assert (p \<noteq> CodePosition_MAX); Some (p + 1) }"

subsection \<open>Requirements\<close>

datatype req_kind = Req_NONE | Req_REGISTER | Req_FIXED | Req_SAME_AS_OTHER

record requirement =
  rq_kind :: req_kind
  rq_allocation :: LAllocation
  rq_position :: code_pos

definition Requirement_new :: "req_kind \<Rightarrow> requirement option" where
  "Requirement_new k = do {
     js_assert (k \<noteq> Req_FIXED \<and> k \<noteq> Req_SAME_AS_OTHER);
     Some \<lparr>rq_kind = k, rq_allocation = 0, rq_position = 0\<rparr> }"

definition Requirement_at :: "req_kind \<Rightarrow> code_pos \<Rightarrow> requirement" where
  "Requirement_at k p = \<lparr>rq_kind = k, rq_allocation = 0, rq_position = p\<rparr>"

definition Requirement_fixed :: "LAllocation \<Rightarrow> code_pos \<Rightarrow> requirement" where
  "Requirement_fixed a p = \<lparr>rq_kind = Req_FIXED, rq_allocation = a, rq_position = p\<rparr>"

definition Requirement_same :: "u32 \<Rightarrow> code_pos \<Rightarrow> requirement option" where
  "Requirement_same vreg p = do {
     u \<leftarrow> LUse_vreg vreg ANY False;
     Some \<lparr>rq_kind = Req_SAME_AS_OTHER, rq_allocation = u, rq_position = p\<rparr> }"

definition req_allocation :: "requirement \<Rightarrow> LAllocation option" where
  "req_allocation r = do { js_assert (\<not> la_isUse (rq_allocation r)); Some (rq_allocation r) }"

definition req_virtualRegister :: "requirement \<Rightarrow> u32 option" where
  "req_virtualRegister r = do { js_assert (la_isUse (rq_allocation r)); Some (lu_virtualRegister (rq_allocation r)) }"

fun req_priority :: "req_kind \<Rightarrow> nat option" where
  "req_priority Req_FIXED = Some 0"
| "req_priority Req_REGISTER = Some 1"
| "req_priority Req_NONE = Some 2"
| "req_priority Req_SAME_AS_OTHER = None"

subsection \<open>Ranges\<close>

record range =
  r_from :: code_pos
  r_to :: code_pos

definition Range_new :: "code_pos \<Rightarrow> code_pos \<Rightarrow> range option" where
  "Range_new f t = do { js_assert (f < t); Some \<lparr>r_from = f, r_to = t\<rparr> }"

record use_position =
  up_use :: LAllocation
  up_pos :: code_pos

record live_interval =
  li_ranges :: "range list"
  li_alloc :: LAllocation
  li_reg :: "nat option"
  li_index :: nat
  li_requirement :: requirement
  li_hint :: requirement
  li_uses :: "use_position list"
  li_lastProcessed :: nat

text \<open>A new interval; \<open>lastProcessedRange_\<close> starts as \<open>size_t(-1)\<close>, beyond every index.\<close>

definition LiveInterval_new :: "nat option \<Rightarrow> nat \<Rightarrow> live_interval" where
  "LiveInterval_new reg index =
     \<lparr>li_ranges = [], li_alloc = 0, li_reg = reg, li_index = index,
      li_requirement = \<lparr>rq_kind = Req_NONE, rq_allocation = 0, rq_position = 0\<rparr>,
      li_hint = \<lparr>rq_kind = Req_NONE, rq_allocation = 0, rq_position = 0\<rparr>,
      li_uses = [], li_lastProcessed = 2 ^ 64 - 1\<rparr>"

definition li_start :: "live_interval \<Rightarrow> code_pos option" where
  "li_start iv = do { js_assert (li_ranges iv \<noteq> []); Some (r_from (last (li_ranges iv))) }"

definition li_end :: "live_interval \<Rightarrow> code_pos option" where
  "li_end iv = do { js_assert (li_ranges iv \<noteq> []); Some (r_to (hd (li_ranges iv))) }"

definition li_isSpill :: "live_interval \<Rightarrow> bool" where
  "li_isSpill iv = la_isStackSlot (li_alloc iv)"

definition li_setRequirement :: "requirement \<Rightarrow> live_interval \<Rightarrow> live_interval option" where
  "li_setRequirement r iv = do {
     js_assert (rq_kind r \<noteq> Req_SAME_AS_OTHER);
     (if rq_kind r = Req_FIXED then do { a \<leftarrow> req_allocation r; js_assert (\<not> la_isRegister a) } else Some ());
     Some (iv\<lparr>li_requirement := r\<rparr>) }"

definition addRangeAtHead :: "code_pos \<Rightarrow> code_pos \<Rightarrow> live_interval \<Rightarrow> live_interval option" where
  "addRangeAtHead from to iv = do {
     newRange \<leftarrow> Range_new from to;
     let rs = li_ranges iv;
     if rs = [] then Some (iv\<lparr>li_ranges := [newRange]\<rparr>)
     else do {
       let first = last rs;
       if to < r_from first then Some (iv\<lparr>li_ranges := rs @ [newRange]\<rparr>)
       else if to = r_from first then Some (iv\<lparr>li_ranges := butlast rs @ [first\<lparr>r_from := from\<rparr>]\<rparr>)
       else do {
         js_assert (from < r_to first);
         js_assert (r_from first < to);
         let first = (if from < r_from first then first\<lparr>r_from := from\<rparr> else first);
         let first = (if r_to first < to then first\<lparr>r_to := to\<rparr> else first);
         Some (iv\<lparr>li_ranges := butlast rs @ [first]\<rparr>) } } }"

text \<open>
  \<open>addRange\<close>: the search for the place, the loop that coalesces from there, and the insertion,
  for which \<open>mem\<close> says whether the vector can grow; the result says so too.
\<close>

fun addRange_find :: "range list \<Rightarrow> nat \<Rightarrow> range \<Rightarrow> nat \<times> range" where
  "addRange_find rs 0 nr = (0, nr)"
| "addRange_find rs (Suc i) nr =
     (if r_from nr \<le> r_to (rs ! i)
      then (Suc i, if r_from (rs ! i) < r_from nr then nr\<lparr>r_from := r_from (rs ! i)\<rparr> else nr)
      else addRange_find rs i nr)"

fun addRange_coalesce :: "range list \<Rightarrow> nat \<Rightarrow> range \<Rightarrow> range list \<times> nat \<times> range" where
  "addRange_coalesce rs 0 nr = (rs, 0, nr)"
| "addRange_coalesce rs (Suc i) nr =
     (if r_to nr < r_from (rs ! i) then (rs, Suc i, nr)
      else addRange_coalesce (take i rs @ drop (Suc i) rs) i
             (if r_to nr < r_to (rs ! i) then nr\<lparr>r_to := r_to (rs ! i)\<rparr> else nr))"

definition addRange :: "bool \<Rightarrow> code_pos \<Rightarrow> code_pos \<Rightarrow> live_interval \<Rightarrow> (bool \<times> live_interval) option" where
  "addRange mem from to iv = do {
     newRange \<leftarrow> Range_new from to;
     let (i, newRange) = addRange_find (li_ranges iv) (length (li_ranges iv)) newRange;
     let (rs, i, newRange) = addRange_coalesce (li_ranges iv) i newRange;
     Some (if mem then (True, iv\<lparr>li_ranges := take i rs @ newRange # drop i rs\<rparr>)
           else (False, iv\<lparr>li_ranges := rs\<rparr>)) }"

text \<open>\<open>setFrom\<close>: the recursion removes from the back of the vector.\<close>

function setFrom_loop :: "code_pos \<Rightarrow> range list \<Rightarrow> range list" where
  "setFrom_loop from rs =
     (if rs = [] then []
      else if r_to (last rs) < from then setFrom_loop from (butlast rs)
      else if from = r_to (last rs) then butlast rs
      else butlast rs @ [(last rs)\<lparr>r_from := from\<rparr>])"
  by pat_completeness auto
termination by (relation "measure (\<lambda>(_, rs). length rs)") auto

declare setFrom_loop.simps [simp del]

definition setFrom :: "code_pos \<Rightarrow> live_interval \<Rightarrow> live_interval" where
  "setFrom from iv = iv\<lparr>li_ranges := setFrom_loop from (li_ranges iv)\<rparr>"

definition setLastProcessedRange :: "nat \<Rightarrow> code_pos \<Rightarrow> live_interval \<Rightarrow> live_interval option" where
  "setLastProcessedRange i pos iv = do {
     js_assert (r_from (li_ranges iv ! i) \<le> pos);
     Some (iv\<lparr>li_lastProcessed := i\<rparr>) }"

text \<open>The length of the index loop is returned, one more than the index to start at.\<close>

definition lastProcessedRangeIfValid :: "code_pos \<Rightarrow> live_interval \<Rightarrow> nat" where
  "lastProcessedRangeIfValid pos iv =
     (if li_lastProcessed iv < length (li_ranges iv) \<and> r_from (li_ranges iv ! li_lastProcessed iv) \<le> pos
      then li_lastProcessed iv else length (li_ranges iv) - 1)"

fun covers_loop :: "code_pos \<Rightarrow> nat \<Rightarrow> live_interval \<Rightarrow> (bool \<times> live_interval) option" where
  "covers_loop pos 0 iv = Some (False, iv)"
| "covers_loop pos (Suc i) iv =
     (if pos < r_from (li_ranges iv ! i) then Some (False, iv)
      else do {
        iv \<leftarrow> setLastProcessedRange i pos iv;
        if pos < r_to (li_ranges iv ! i) then Some (True, iv) else covers_loop pos i iv })"

definition covers :: "code_pos \<Rightarrow> live_interval \<Rightarrow> (bool \<times> live_interval) option" where
  "covers pos iv = do {
     s \<leftarrow> li_start iv;
     e \<leftarrow> li_end iv;
     if pos < s \<or> pos \<ge> e then Some (False, iv)
     else covers_loop pos (Suc (lastProcessedRangeIfValid pos iv)) iv }"

fun nextCovered_loop :: "code_pos \<Rightarrow> range list \<Rightarrow> nat \<Rightarrow> range list \<Rightarrow> code_pos" where
  "nextCovered_loop pos rs i [] = CodePosition_MIN"
| "nextCovered_loop pos rs i (r # rest) =
     (if r_to r \<le> pos then (if i \<noteq> 0 then r_from (rs ! (i - 1)) else CodePosition_MIN)
      else if r_from r \<le> pos then pos
      else nextCovered_loop pos rs (Suc i) rest)"

definition nextCoveredAfter :: "code_pos \<Rightarrow> live_interval \<Rightarrow> code_pos" where
  "nextCoveredAfter pos iv = nextCovered_loop pos (li_ranges iv) 0 (li_ranges iv)"

text \<open>
  \<open>intersect\<close>: the two indices walk down together. The caller with the later start swaps the
  roles, so the cached range that is used and updated belongs to the interval that starts first.
\<close>

function intersect_loop ::
  "live_interval \<Rightarrow> live_interval \<Rightarrow> nat \<Rightarrow> nat \<Rightarrow> (code_pos \<times> live_interval) option" where
  "intersect_loop iv ov i j = do {
     let r1 = li_ranges iv ! i;
     let r2 = li_ranges ov ! j;
     ostart \<leftarrow> li_start ov;
     oend \<leftarrow> li_end ov;
     iend \<leftarrow> li_end iv;
     if r_from r1 \<le> r_from r2 then do {
       iv \<leftarrow> (if r_from r1 \<le> ostart then setLastProcessedRange i ostart iv else Some iv);
       if r_from r2 < r_to r1 then Some (r_from r2, iv)
       else if i = 0 \<or> oend < r_from (li_ranges iv ! (i - 1)) then Some (CodePosition_MIN, iv)
       else intersect_loop iv ov (i - 1) j }
     else
       if r_from r1 < r_to r2 then Some (r_from r1, iv)
       else if j = 0 \<or> iend < r_from (li_ranges ov ! (j - 1)) then Some (CodePosition_MIN, iv)
       else intersect_loop iv ov i (j - 1) }"
  by pat_completeness auto
termination by (relation "measure (\<lambda>(_, _, i, j). i + j)") (auto simp: Let_def)

declare intersect_loop.simps [simp del]

definition intersect_from :: "live_interval \<Rightarrow> live_interval \<Rightarrow> (code_pos \<times> live_interval) option" where
  "intersect_from iv ov = do {
     ostart \<leftarrow> li_start ov;
     intersect_loop iv ov (lastProcessedRangeIfValid ostart iv) (length (li_ranges ov) - 1) }"

definition intersect ::
  "live_interval \<Rightarrow> live_interval \<Rightarrow> (code_pos \<times> live_interval \<times> live_interval) option" where
  "intersect iv ov = do {
     s \<leftarrow> li_start iv;
     t \<leftarrow> li_start ov;
     if t < s then do { (p, ov) \<leftarrow> intersect_from ov iv; Some (p, iv, ov) }
     else do { (p, iv) \<leftarrow> intersect_from iv ov; Some (p, iv, ov) } }"

text \<open>
  \<open>splitFrom\<close>: success, the ranges that stay, and those of the interval split off. \<open>mem k\<close> says
  whether the \<open>k\<close>-th request for memory succeeds: 0 for \<open>extractRawBuffer\<close>, 1 for the half of a
  split range, 2 for the ranges moved back. A failure leaves the intervals as they are then.
\<close>

fun splitFrom_loop :: "(nat \<Rightarrow> bool) \<Rightarrow> code_pos \<Rightarrow> nat \<Rightarrow> range list \<Rightarrow> bool \<times> range list \<times> range list" where
  "splitFrom_loop mem pos 0 rs = (True, [], rs)"
| "splitFrom_loop mem pos (Suc i) rs =
     (if pos \<ge> r_to (rs ! i) then splitFrom_loop mem pos i rs
      else
        (let inside = (r_from (rs ! i) < pos);
             kept = (if inside then [\<lparr>r_from = r_from (rs ! i), r_to = pos\<rparr>] else []);
             rs' = (if inside then rs[i := (rs ! i)\<lparr>r_from := pos\<rparr>] else rs)
         in if inside \<and> \<not> mem 1 then (False, [], rs')
            else if \<not> mem 2 then (False, kept, rs')
            else (True, kept @ drop (Suc i) rs', take (Suc i) rs')))"

definition splitFrom ::
  "(nat \<Rightarrow> bool) \<Rightarrow> code_pos \<Rightarrow> live_interval \<Rightarrow> live_interval \<Rightarrow> (bool \<times> live_interval \<times> live_interval) option" where
  "splitFrom mem pos iv after = do {
     s \<leftarrow> li_start iv;
     e \<leftarrow> li_end iv;
     js_assert (pos \<ge> s \<and> pos < e);
     js_assert (li_ranges after = []);
     if \<not> mem 0 then Some (False, iv, after)
     else (case splitFrom_loop mem pos (length (li_ranges iv)) (li_ranges iv) of (ok, kept, moved) \<Rightarrow>
       if \<not> ok then Some (False, iv\<lparr>li_ranges := kept\<rparr>, after\<lparr>li_ranges := moved\<rparr>)
       else do {
         js_assert (li_uses after = []);
         let before = takeWhile (\<lambda>u. \<not> up_pos u > pos) (li_uses iv);
         let rest = dropWhile (\<lambda>u. \<not> up_pos u > pos) (li_uses iv);
         Some (True, iv\<lparr>li_ranges := kept, li_uses := before\<rparr>, after\<lparr>li_ranges := moved, li_uses := rest\<rparr>) }) }"

subsection \<open>Uses\<close>

definition UseCompatibleWith :: "LAllocation \<Rightarrow> LAllocation \<Rightarrow> bool option" where
  "UseCompatibleWith u alloc = (case lu_policy u of
     Some ANY \<Rightarrow> Some (la_isRegister alloc \<or> la_isMemory alloc)
   | Some KEEPALIVE \<Rightarrow> Some (la_isRegister alloc \<or> la_isMemory alloc)
   | Some REGISTER \<Rightarrow> Some (la_isRegister alloc)
   | Some FIXED \<Rightarrow> Some (la_isRegister alloc)
   | None \<Rightarrow> None)"

definition addUse :: "use_position \<Rightarrow> live_interval \<Rightarrow> live_interval" where
  "addUse u iv = iv\<lparr>li_uses := takeWhile (\<lambda>c. \<not> up_pos c \<ge> up_pos u) (li_uses iv) @
                               u # dropWhile (\<lambda>c. \<not> up_pos c \<ge> up_pos u) (li_uses iv)\<rparr>"

fun nextUse_loop :: "code_pos \<Rightarrow> use_position list \<Rightarrow> use_position option" where
  "nextUse_loop after [] = None"
| "nextUse_loop after (u # us) =
     (if up_pos u \<ge> after \<and> lu_policy (up_use u) \<noteq> Some KEEPALIVE then Some u else nextUse_loop after us)"

definition nextUseAfter :: "code_pos \<Rightarrow> live_interval \<Rightarrow> use_position option" where
  "nextUseAfter after iv = nextUse_loop after (li_uses iv)"

definition nextUsePosAfter :: "code_pos \<Rightarrow> live_interval \<Rightarrow> code_pos" where
  "nextUsePosAfter after iv = (case nextUseAfter after iv of None \<Rightarrow> CodePosition_MAX | Some u \<Rightarrow> up_pos u)"

fun firstIncompatible_loop :: "LAllocation \<Rightarrow> use_position list \<Rightarrow> code_pos option" where
  "firstIncompatible_loop alloc [] = Some CodePosition_MAX"
| "firstIncompatible_loop alloc (u # us) = do {
     ok \<leftarrow> UseCompatibleWith (up_use u) alloc;
     if \<not> ok then Some (up_pos u) else firstIncompatible_loop alloc us }"

definition firstIncompatibleUse :: "LAllocation \<Rightarrow> live_interval \<Rightarrow> code_pos option" where
  "firstIncompatibleUse alloc iv = firstIncompatible_loop alloc (li_uses iv)"

subsection \<open>The intervals of a virtual register\<close>

text \<open>
  \<open>intervals_\<close> of a \<open>VirtualRegister\<close> as the list of its intervals. \<open>covers\<close> updates the cache
  of the intervals it looks at, so \<open>intervalFor\<close> returns the list as well as the index found.
\<close>

fun intervalFor_loop ::
  "code_pos \<Rightarrow> nat \<Rightarrow> live_interval list \<Rightarrow> (nat option \<times> live_interval list) option" where
  "intervalFor_loop pos k [] = Some (None, [])"
| "intervalFor_loop pos k (iv # ivs) = do {
     (c, iv) \<leftarrow> covers pos iv;
     if c then Some (Some k, iv # ivs)
     else do {
       e \<leftarrow> li_end iv;
       if pos < e then Some (None, iv # ivs)
       else do { (res, ivs) \<leftarrow> intervalFor_loop pos (Suc k) ivs; Some (res, iv # ivs) } } }"

definition intervalFor :: "code_pos \<Rightarrow> live_interval list \<Rightarrow> (nat option \<times> live_interval list) option" where
  "intervalFor pos ivs = intervalFor_loop pos 0 ivs"

definition getFirstInterval :: "live_interval list \<Rightarrow> live_interval option" where
  "getFirstInterval ivs = do { js_assert (ivs \<noteq> []); Some (hd ivs) }"

text \<open>\<open>addInterval\<close>: the first interval that starts later, and all after it, move up by one.\<close>

fun addInterval_loop :: "code_pos \<Rightarrow> live_interval list \<Rightarrow> (live_interval list \<times> live_interval list) option" where
  "addInterval_loop s [] = Some ([], [])"
| "addInterval_loop s (iv # ivs) = do {
     t \<leftarrow> li_start iv;
     if s < t then Some ([], map (\<lambda>x. x\<lparr>li_index := li_index x + 1\<rparr>) (iv # ivs))
     else do { (xs, ys) \<leftarrow> addInterval_loop s ivs; Some (iv # xs, ys) } }"

definition addInterval :: "live_interval \<Rightarrow> live_interval list \<Rightarrow> live_interval list option" where
  "addInterval interval ivs = do {
     js_assert (length (li_ranges interval) \<noteq> 0);
     s \<leftarrow> li_start interval;
     (xs, ys) \<leftarrow> addInterval_loop s ivs;
     Some (xs @ interval # ys) }"

text \<open>\<open>validateRanges\<close>, from the back of the vector; the state is the previous range.\<close>

fun validateRanges_loop :: "range option \<Rightarrow> range list \<Rightarrow> bool" where
  "validateRanges_loop prev [] = True"
| "validateRanges_loop prev (r # rs) =
     (r_from r < r_to r \<and> (case prev of None \<Rightarrow> True | Some q \<Rightarrow> r_to q \<le> r_from r) \<and>
      validateRanges_loop (Some r) rs)"

definition validateRanges :: "live_interval \<Rightarrow> bool" where
  "validateRanges iv = validateRanges_loop None (rev (li_ranges iv))"

subsection \<open>The positions of an interval\<close>

definition covered :: "range list \<Rightarrow> code_pos set" where
  "covered rs = {p. \<exists>r\<in>set rs. r_from r \<le> p \<and> p < r_to r}"

definition ranges_ok :: "range list \<Rightarrow> bool" where
  "ranges_ok rs \<longleftrightarrow> sorted_wrt (\<lambda>r s. r_to s \<le> r_from r) rs \<and> (\<forall>r\<in>set rs. r_from r < r_to r)"

lemma covered_simps [simp]:
  "covered [] = {}"
  "covered (r # rs) = {r_from r..<r_to r} \<union> covered rs"
  "covered (xs @ ys) = covered xs \<union> covered ys"
  by (auto simp: covered_def)

lemma ranges_ok_append:
  "ranges_ok (xs @ ys) \<longleftrightarrow> ranges_ok xs \<and> ranges_ok ys \<and> (\<forall>r\<in>set xs. \<forall>s\<in>set ys. r_to s \<le> r_from r)"
  by (auto simp: ranges_ok_def sorted_wrt_append)

lemma ranges_ok_Cons:
  "ranges_ok (r # rs) \<longleftrightarrow> r_from r < r_to r \<and> (\<forall>s\<in>set rs. r_to s \<le> r_from r) \<and> ranges_ok rs"
  by (auto simp: ranges_ok_def)

lemma ranges_ok_Nil [simp]: "ranges_ok []"
  by (simp add: ranges_ok_def)

lemmas ranges_ok_simps = ranges_ok_append ranges_ok_Cons

lemma validateRanges_loop_iff:
  "validateRanges_loop prev rs \<longleftrightarrow>
     ranges_ok (rev rs) \<and> (case prev of None \<Rightarrow> True | Some q \<Rightarrow> rs = [] \<or> r_to q \<le> r_from (hd rs))"
proof (induction rs arbitrary: prev)
  case Nil
  then show ?case by (simp split: option.splits)
next
  case (Cons r rs)
  have "(\<forall>s\<in>set rs. r_to r \<le> r_from s) \<longleftrightarrow> rs = [] \<or> r_to r \<le> r_from (hd rs)" if "ranges_ok (rev rs)"
    using that by (cases rs) (force simp: ranges_ok_simps)+
  with Cons.IH[of "Some r"] show ?case by (auto simp: ranges_ok_simps split: option.splits)
qed

text \<open>The debug check of the allocator is the invariant of the proofs.\<close>

lemma validateRanges_iff: "validateRanges iv \<longleftrightarrow> ranges_ok (li_ranges iv)"
  by (simp add: validateRanges_def validateRanges_loop_iff)

subsection \<open>Adding ranges\<close>

lemma addRange_find_spec:
  assumes "ranges_ok xs" "r_from nr < r_to nr"
  shows "\<exists>as bs nr'. xs = as @ bs \<and> addRange_find (xs @ ys) (length xs) nr = (length as, nr') \<and>
    r_from nr' \<le> r_from nr \<and> r_to nr' = r_to nr \<and> (\<forall>r\<in>set as. r_from nr' \<le> r_from r) \<and>
    (\<forall>r\<in>set bs. r_to r \<le> r_from nr') \<and> covered (as @ [nr']) = covered (as @ [nr]) \<and>
    (r_from nr' = r_from nr \<or> r_from nr' \<in> r_from ` set as)"
  using assms
proof (induction xs arbitrary: ys rule: rev_induct)
  case Nil
  then show ?case by simp
next
  case (snoc r xs)
  have ok: "ranges_ok xs" "r_from r < r_to r" "\<forall>s\<in>set xs. r_to r \<le> r_from s"
    using snoc.prems(1) by (auto simp: ranges_ok_simps)
  show ?case
  proof (cases "r_from nr \<le> r_to r")
    case True
    let ?nr = "if r_from r < r_from nr then nr\<lparr>r_from := r_from r\<rparr> else nr"
    have "covered ((xs @ [r]) @ [?nr]) = covered ((xs @ [r]) @ [nr])"
      using True snoc.prems(2) by (auto simp: not_less)
    moreover have "\<forall>s\<in>set (xs @ [r]). r_from ?nr \<le> r_from s"
      using ok by (auto intro: order_trans less_imp_le)
    ultimately show ?thesis
      using True by (intro exI[of _ "xs @ [r]"] exI[of _ "[]"] exI[of _ ?nr]) (auto simp: nth_append)
  next
    case False
    obtain as bs nr' where "xs = as @ bs" "addRange_find (xs @ r # ys) (length xs) nr = (length as, nr')"
      "r_from nr' \<le> r_from nr" "r_to nr' = r_to nr" "\<forall>r\<in>set as. r_from nr' \<le> r_from r"
      "\<forall>r\<in>set bs. r_to r \<le> r_from nr'" "covered (as @ [nr']) = covered (as @ [nr])"
      "r_from nr' = r_from nr \<or> r_from nr' \<in> r_from ` set as"
      using snoc.IH[OF ok(1) snoc.prems(2), of "r # ys"] by blast
    moreover from this have "r_to r \<le> r_from nr'" using False ok(3) by auto
    ultimately show ?thesis
      using False by (intro exI[of _ as] exI[of _ "bs @ [r]"] exI[of _ nr']) (auto simp: nth_append)
  qed
qed

lemma addRange_coalesce_spec:
  assumes "ranges_ok xs" "r_from nr < r_to nr" "\<forall>r\<in>set xs. r_from nr \<le> r_from r"
  shows "\<exists>as nr'. addRange_coalesce (xs @ ys) (length xs) nr = (as @ ys, length as, nr') \<and>
    r_from nr' = r_from nr \<and> ranges_ok (as @ [nr']) \<and> covered (as @ [nr']) = covered (xs @ [nr])"
  using assms
proof (induction xs arbitrary: nr rule: rev_induct)
  case Nil
  then show ?case by (intro exI[of _ "[]"] exI[of _ nr]) (simp add: ranges_ok_simps)
next
  case (snoc r xs)
  have ok: "ranges_ok xs" "r_from r < r_to r" "\<forall>s\<in>set xs. r_to r \<le> r_from s"
    using snoc.prems(1) by (auto simp: ranges_ok_simps)
  show ?case
  proof (cases "r_to nr < r_from r")
    case True
    have "\<forall>s\<in>set xs. r_to nr \<le> r_from s"
      using True ok by (meson less_imp_le order_trans)
    with True snoc.prems ok show ?thesis
      by (intro exI[of _ "xs @ [r]"] exI[of _ nr]) (auto simp: nth_append ranges_ok_simps)
  next
    case False
    let ?nr = "if r_to nr < r_to r then nr\<lparr>r_to := r_to r\<rparr> else nr"
    have lt: "r_from ?nr < r_to ?nr" using snoc.prems(2) by auto
    have fr: "\<forall>s\<in>set xs. r_from ?nr \<le> r_from s" using snoc.prems(3) by auto
    obtain as nr' where as: "addRange_coalesce (xs @ ys) (length xs) ?nr = (as @ ys, length as, nr')"
      "r_from nr' = r_from ?nr" "ranges_ok (as @ [nr'])" "covered (as @ [nr']) = covered (xs @ [?nr])"
      using snoc.IH[OF ok(1) lt fr] by blast
    have "covered (xs @ [?nr]) = covered ((xs @ [r]) @ [nr])"
      using False snoc.prems(2,3) ok(2) by (auto simp: not_less)
    moreover have "addRange_coalesce ((xs @ [r]) @ ys) (length (xs @ [r])) nr =
        addRange_coalesce (xs @ ys) (length xs) ?nr"
      using False by (simp add: nth_append)
    ultimately show ?thesis using as by (intro exI[of _ as] exI[of _ nr']) auto
  qed
qed

text \<open>
  C18: \<open>addRange\<close> fails no assertion and reports success when the vector can grow; then it has kept
  the ranges sorted and disjoint and added exactly the positions of the new range, whatever it
  overlaps or touches. When it reports failure the ranges that overlap the new one are gone.
\<close>

theorem addRange_union:
  assumes "ranges_ok (li_ranges iv)" "from < to"
  shows "\<exists>iv'. addRange mem from to iv = Some (mem, iv') \<and>
    (mem \<longrightarrow> ranges_ok (li_ranges iv') \<and> covered (li_ranges iv') = covered (li_ranges iv) \<union> {from..<to})"
proof -
  let ?nr = "\<lparr>r_from = from, r_to = to\<rparr>"
  obtain as bs nr where f: "li_ranges iv = as @ bs"
    "addRange_find (li_ranges iv) (length (li_ranges iv)) ?nr = (length as, nr)"
    "r_from nr \<le> from" "r_to nr = to" "\<forall>r\<in>set as. r_from nr \<le> r_from r"
    "\<forall>r\<in>set bs. r_to r \<le> r_from nr" "covered (as @ [nr]) = covered (as @ [?nr])"
    using addRange_find_spec[OF assms(1), of ?nr "[]"] assms(2) by auto
  have ok: "ranges_ok as" "ranges_ok bs" "\<forall>r\<in>set as. \<forall>s\<in>set bs. r_to s \<le> r_from r"
    using assms(1) f(1) by (auto simp: ranges_ok_append)
  have "r_from nr < r_to nr" using f(3,4) assms(2) by simp
  from addRange_coalesce_spec[OF ok(1) this f(5), of bs] obtain cs nr' where
    c: "addRange_coalesce (as @ bs) (length as) nr = (cs @ bs, length cs, nr')"
      "r_from nr' = r_from nr" "ranges_ok (cs @ [nr'])" "covered (cs @ [nr']) = covered (as @ [nr])"
    by blast
  have res: "addRange mem from to iv =
      Some (mem, iv\<lparr>li_ranges := if mem then cs @ nr' # bs else cs @ bs\<rparr>)"
    using assms(2) f(1,2) c(1) by (simp add: addRange_def Range_new_def)
  have "\<forall>r\<in>set cs. \<forall>s\<in>set bs. r_to s \<le> r_from r"
    using c(2,3) f(6) by (fastforce simp: ranges_ok_simps intro: order_trans)
  then have "ranges_ok (cs @ nr' # bs)"
    using c(2,3) ok(2) f(6) by (auto simp: ranges_ok_simps)
  moreover have "covered (cs @ nr' # bs) = covered (li_ranges iv) \<union> {from..<to}"
    using c(4) f(1,7) by auto
  ultimately show ?thesis using res by (cases mem) simp_all
qed

theorem addRange_union_witness:
  "ranges_ok (li_ranges ((LiveInterval_new None 0)\<lparr>li_ranges := [\<lparr>r_from = 8, r_to = 10\<rparr>, \<lparr>r_from = 2, r_to = 4\<rparr>]\<rparr>)) \<and>
   (3::code_pos) < 8 \<and>
   (\<exists>iv'. addRange True 3 8 ((LiveInterval_new None 0)\<lparr>li_ranges := [\<lparr>r_from = 8, r_to = 10\<rparr>, \<lparr>r_from = 2, r_to = 4\<rparr>]\<rparr>) = Some (True, iv') \<and>
    ranges_ok (li_ranges iv') \<and>
    covered (li_ranges iv') = covered [\<lparr>r_from = 8, r_to = 10\<rparr>, \<lparr>r_from = 2, r_to = 4\<rparr>] \<union> {3..<8})"
proof -
  let ?iv = "(LiveInterval_new None 0)\<lparr>li_ranges := [\<lparr>r_from = 8, r_to = 10\<rparr>, \<lparr>r_from = 2, r_to = 4\<rparr>]\<rparr>"
  have ok: "ranges_ok (li_ranges ?iv)" by (simp add: ranges_ok_simps)
  have lt: "(3::code_pos) < 8" by simp
  show ?thesis using addRange_union[OF ok lt, of True] ok lt by simp
qed

text \<open>
  \<open>addRangeAtHead\<close> looks only at the first range of the interval. It is right when the new
  range ends before the second one starts, which its assertions do not check.
\<close>

lemma last_range_cases:
  assumes "rs \<noteq> []"
  obtains xs r where "rs = xs @ [r]"
  using assms by (metis append_butlast_last_id)

lemma addRangeAtHead_union:
  assumes "ranges_ok (li_ranges iv)" "from < to"
    "li_ranges iv \<noteq> [] \<Longrightarrow> from < r_to (last (li_ranges iv))"
    "\<forall>r\<in>set (butlast (li_ranges iv)). to \<le> r_from r"
  shows "\<exists>iv'. addRangeAtHead from to iv = Some iv' \<and> ranges_ok (li_ranges iv') \<and>
    covered (li_ranges iv') = covered (li_ranges iv) \<union> {from..<to}"
proof (cases "li_ranges iv = []")
  case True
  with assms(2) show ?thesis by (simp add: addRangeAtHead_def Range_new_def ranges_ok_simps)
next
  case False
  obtain xs r where rs: "li_ranges iv = xs @ [r]" using last_range_cases[OF False] by blast
  have ok: "ranges_ok xs" "r_from r < r_to r" "\<forall>s\<in>set xs. r_to r \<le> r_from s"
    "from < r_to r" "\<forall>s\<in>set xs. to \<le> r_from s"
    using assms rs by (auto simp: ranges_ok_simps)
  consider "to < r_from r" | "to = r_from r" | "r_from r < to" by fastforce
  then show ?thesis
  proof cases
    case 1
    then have "addRangeAtHead from to iv = Some (iv\<lparr>li_ranges := xs @ [r, \<lparr>r_from = from, r_to = to\<rparr>]\<rparr>)"
      using assms(2) rs by (simp add: addRangeAtHead_def Range_new_def)
    with ok 1 assms(2) rs show ?thesis by (auto simp: ranges_ok_simps)
  next
    case 2
    then have "addRangeAtHead from to iv = Some (iv\<lparr>li_ranges := xs @ [r\<lparr>r_from := from\<rparr>]\<rparr>)"
      using assms(2) rs by (simp add: addRangeAtHead_def Range_new_def)
    with ok 2 assms(2) rs show ?thesis by (auto simp: ranges_ok_simps)
  next
    case 3
    let ?r1 = "if from < r_from r then r\<lparr>r_from := from\<rparr> else r"
    let ?r2 = "if r_to ?r1 < to then ?r1\<lparr>r_to := to\<rparr> else ?r1"
    have "addRangeAtHead from to iv = Some (iv\<lparr>li_ranges := xs @ [?r2]\<rparr>)"
      using 3 assms(2) rs ok(4) by (simp add: addRangeAtHead_def Range_new_def Let_def)
    moreover have "ranges_ok (xs @ [?r2])" using ok assms(2) by (auto simp: ranges_ok_simps)
    moreover have "covered (xs @ [?r2]) = covered (li_ranges iv) \<union> {from..<to}"
      using 3 ok rs by (auto simp: not_less)
    ultimately show ?thesis by simp
  qed
qed

lemma setFrom_loop_simps [simp]:
  "setFrom_loop from [] = []"
  "setFrom_loop from (rs @ [r]) =
     (if r_to r < from then setFrom_loop from rs
      else if from = r_to r then rs else rs @ [r\<lparr>r_from := from\<rparr>])"
  by (simp_all add: setFrom_loop.simps[of "from" "[]"] setFrom_loop.simps[of "from" "rs @ [r]"])

lemma setFrom_loop_spec:
  assumes "ranges_ok rs"
  shows "ranges_ok (setFrom_loop from rs) \<and>
    covered (setFrom_loop from rs) \<inter> {..<from} = {} \<and>
    covered rs \<inter> {from..} \<subseteq> covered (setFrom_loop from rs)"
  using assms
proof (induction rs rule: rev_induct)
  case Nil
  then show ?case by simp
next
  case (snoc r rs)
  have ok: "ranges_ok rs" "r_from r < r_to r" "\<forall>s\<in>set rs. r_to r \<le> r_from s"
    using snoc.prems by (auto simp: ranges_ok_simps)
  have low: "covered rs \<inter> {..<r_to r} = {}"
    using ok(3) unfolding covered_def by (fastforce dest: order_trans)
  consider "r_to r < from" | "from = r_to r" | "from < r_to r" by fastforce
  then show ?case
  proof cases
    case 1
    with snoc.IH[OF ok(1)] show ?thesis by auto
  next
    case 2
    with low ok(1) show ?thesis by auto
  next
    case 3
    then have "covered rs \<inter> {..<from} = {}" using low by (auto dest: order_less_trans)
    with 3 ok show ?thesis by (auto simp: ranges_ok_simps)
  qed
qed

text \<open>
  \<open>setFrom\<close> cuts the interval at the definition: nothing before it stays, nothing after it is
  lost, and the ranges stay in order.
\<close>

lemma setFrom_cuts:
  "ranges_ok (li_ranges iv) \<Longrightarrow> ranges_ok (li_ranges (setFrom from iv)) \<and>
     covered (li_ranges (setFrom from iv)) \<inter> {..<from} = {} \<and>
     covered (li_ranges iv) \<inter> {from..} \<subseteq> covered (li_ranges (setFrom from iv))"
  using setFrom_loop_spec by (simp add: setFrom_def)

subsection \<open>Membership and the cached range\<close>

lemma ranges_ok_nth:
  "ranges_ok rs \<Longrightarrow> i < j \<Longrightarrow> j < length rs \<Longrightarrow> r_to (rs ! j) \<le> r_from (rs ! i)"
  unfolding ranges_ok_def by (drule conjunct1) (rule sorted_wrt_nth_less)

lemma ranges_ok_nth_lt: "ranges_ok rs \<Longrightarrow> i < length rs \<Longrightarrow> r_from (rs ! i) < r_to (rs ! i)"
  by (simp add: ranges_ok_def)

lemma covered_nth: "p \<in> covered rs \<longleftrightarrow> (\<exists>i<length rs. r_from (rs ! i) \<le> p \<and> p < r_to (rs ! i))"
  unfolding covered_def by (auto simp: in_set_conv_nth intro: bexI[OF _ nth_mem])

lemma ranges_ok_from_mono:
  "ranges_ok rs \<Longrightarrow> i \<le> j \<Longrightarrow> j < length rs \<Longrightarrow> r_from (rs ! j) \<le> r_from (rs ! i)"
  using ranges_ok_nth[of rs i j] ranges_ok_nth_lt[of rs j] by (cases "i = j") auto

lemma covers_loop_spec:
  assumes "ranges_ok (li_ranges iv)" "n \<le> length (li_ranges iv)"
    "\<forall>i<length (li_ranges iv). n \<le> i \<longrightarrow> r_to (li_ranges iv ! i) \<le> pos"
  shows "\<exists>iv'. covers_loop pos n iv = Some (pos \<in> covered (li_ranges iv), iv') \<and>
    (\<exists>k. iv' = iv\<lparr>li_lastProcessed := k\<rparr>)"
  using assms
proof (induction n arbitrary: iv)
  case 0
  then have "pos \<notin> covered (li_ranges iv)" by (auto simp: covered_nth)
  then show ?case by (auto intro: exI[of _ "li_lastProcessed iv"])
next
  case (Suc i)
  let ?r = "li_ranges iv ! i"
  consider "pos < r_from ?r" | "r_from ?r \<le> pos" "pos < r_to ?r" | "r_to ?r \<le> pos" by fastforce
  then show ?case
  proof cases
    case 1
    have "pos \<notin> covered (li_ranges iv)"
    proof
      assume "pos \<in> covered (li_ranges iv)"
      then obtain j where j: "j < length (li_ranges iv)" "r_from (li_ranges iv ! j) \<le> pos" "pos < r_to (li_ranges iv ! j)"
        by (auto simp: covered_nth)
      with Suc.prems(3) have "j \<le> i" by (meson not_less not_less_eq_eq)
      then have "r_from ?r \<le> r_from (li_ranges iv ! j)"
        using Suc.prems(2) by (intro ranges_ok_from_mono[OF Suc.prems(1)]) auto
      with 1 j(2) show False by simp
    qed
    with 1 show ?thesis by (auto intro: exI[of _ "li_lastProcessed iv"])
  next
    case 2
    then have "pos \<in> covered (li_ranges iv)" using Suc.prems(2) unfolding covered_nth by (intro exI[of _ i]) simp
    with 2 show ?thesis by (auto simp: setLastProcessedRange_def)
  next
    case 3
    let ?iv = "iv\<lparr>li_lastProcessed := i\<rparr>"
    have le: "r_from ?r \<le> pos"
      using 3 ranges_ok_nth_lt[OF Suc.prems(1), of i] Suc.prems(2) by simp
    have "\<forall>k<length (li_ranges ?iv). i \<le> k \<longrightarrow> r_to (li_ranges ?iv ! k) \<le> pos"
      using Suc.prems(3) 3 by (metis Suc_leI le_neq_implies_less live_interval.select_convs(1)
          live_interval.update_convs(8) live_interval.surjective)
    then obtain iv' k where "covers_loop pos i ?iv = Some (pos \<in> covered (li_ranges ?iv), iv')"
      "iv' = ?iv\<lparr>li_lastProcessed := k\<rparr>"
      using Suc.IH[of ?iv] Suc.prems by auto
    with 3 le show ?thesis by (auto simp: setLastProcessedRange_def)
  qed
qed

lemma covered_bounds:
  assumes "ranges_ok rs" "p \<in> covered rs"
  shows "r_from (last rs) \<le> p" "p < r_to (hd rs)" "rs \<noteq> []"
proof -
  obtain i where i: "i < length rs" "r_from (rs ! i) \<le> p" "p < r_to (rs ! i)"
    using assms(2) by (auto simp: covered_nth)
  then show ne: "rs \<noteq> []" by auto
  have "r_from (rs ! (length rs - 1)) \<le> r_from (rs ! i)" using i(1) by (intro ranges_ok_from_mono[OF assms(1)]) auto
  then show "r_from (last rs) \<le> p" using i(2) ne by (simp add: last_conv_nth)
  have "r_to (rs ! i) \<le> r_to (rs ! 0)"
    using ranges_ok_nth[OF assms(1), of 0 i] ranges_ok_nth_lt[OF assms(1), of 0] i(1) ne
    by (cases "i = 0") auto
  then show "p < r_to (hd rs)" using i(3) ne by (simp add: hd_conv_nth)
qed

text \<open>Ranges after a cached one that starts at or before the position cannot contain it.\<close>

lemma lastProcessed_sound:
  assumes "ranges_ok (li_ranges iv)" "li_ranges iv \<noteq> []"
  shows "lastProcessedRangeIfValid pos iv < length (li_ranges iv)"
    "\<forall>i<length (li_ranges iv). lastProcessedRangeIfValid pos iv < i \<longrightarrow> r_to (li_ranges iv ! i) \<le> pos"
proof -
  show "lastProcessedRangeIfValid pos iv < length (li_ranges iv)"
    using assms(2) by (auto simp: lastProcessedRangeIfValid_def)
  show "\<forall>i<length (li_ranges iv). lastProcessedRangeIfValid pos iv < i \<longrightarrow> r_to (li_ranges iv ! i) \<le> pos"
    using ranges_ok_nth[OF assms(1)] by (fastforce simp: lastProcessedRangeIfValid_def split: if_splits)
qed

lemma covers_spec:
  assumes "ranges_ok (li_ranges iv)" "li_ranges iv \<noteq> []"
  shows "\<exists>k. covers pos iv = Some (pos \<in> covered (li_ranges iv), iv\<lparr>li_lastProcessed := k\<rparr>)"
proof (cases "pos < r_from (last (li_ranges iv)) \<or> r_to (hd (li_ranges iv)) \<le> pos")
  case True
  then have "pos \<notin> covered (li_ranges iv)" using covered_bounds[OF assms(1), of pos] by auto
  with True assms(2) have "covers pos iv = Some (pos \<in> covered (li_ranges iv), iv)"
    by (simp add: covers_def li_start_def li_end_def)
  then show ?thesis by (intro exI[of _ "li_lastProcessed iv"]) simp
next
  case False
  let ?n = "Suc (lastProcessedRangeIfValid pos iv)"
  obtain k where "covers_loop pos ?n iv = Some (pos \<in> covered (li_ranges iv), iv\<lparr>li_lastProcessed := k\<rparr>)"
    using covers_loop_spec[OF assms(1), of ?n pos] lastProcessed_sound[OF assms, of pos] by (auto simp: Suc_le_eq)
  with False assms(2) show ?thesis by (intro exI[of _ k]) (simp add: covers_def li_start_def li_end_def)
qed

text \<open>
  C19: \<open>covers\<close> answers membership in the ranges whatever the cached range is, changes nothing
  but the cache, and no assertion on the cache fails.
\<close>

theorem covers_is_membership:
  assumes "ranges_ok (li_ranges iv)" "li_ranges iv \<noteq> []"
  shows "\<exists>k. covers pos iv = Some (pos \<in> covered (li_ranges iv), iv\<lparr>li_lastProcessed := k\<rparr>)"
  by (rule covers_spec[OF assms])

theorem covers_is_membership_witness:
  "\<exists>iv. ranges_ok (li_ranges iv) \<and> li_ranges iv \<noteq> [] \<and>
   (\<exists>k. covers 3 iv = Some (3 \<in> covered (li_ranges iv), iv\<lparr>li_lastProcessed := k\<rparr>))"
proof -
  let ?iv = "(LiveInterval_new None 0)\<lparr>li_ranges := [\<lparr>r_from = 8, r_to = 10\<rparr>, \<lparr>r_from = 2, r_to = 4\<rparr>]\<rparr>"
  have "ranges_ok (li_ranges ?iv)" "li_ranges ?iv \<noteq> []" by (simp_all add: ranges_ok_simps)
  with covers_is_membership[of ?iv 3] show ?thesis by blast
qed

subsection \<open>The next covered position\<close>

lemma nextCovered_loop_spec:
  assumes "ranges_ok rs" "rest = drop i rs" "\<forall>j<i. j < length rs \<longrightarrow> pos < r_from (rs ! j)"
    "rs \<noteq> []" "r_from (last rs) \<le> pos" "pos < r_to (hd rs)" "i < length rs"
  shows "nextCovered_loop pos rs i rest \<in> covered rs \<and> pos \<le> nextCovered_loop pos rs i rest \<and>
    (\<forall>p\<in>covered rs. pos \<le> p \<longrightarrow> nextCovered_loop pos rs i rest \<le> p)"
  using assms(2,3,7)
proof (induction rest arbitrary: i)
  case Nil
  then show ?case by simp
next
  case (Cons r rest)
  have r: "r = rs ! i" and rest: "rest = drop (Suc i) rs"
    using Cons.prems(1,3) by (metis Cons_nth_drop_Suc list.inject)+
  show ?case
  proof (cases "r_to r \<le> pos")
    case True
    have i: "i \<noteq> 0" using True assms(4,6) r by (cases i) (auto simp: hd_conv_nth)
    let ?q = "rs ! (i - 1)"
    have q: "i - 1 < length rs" "pos < r_from ?q" using Cons.prems(2,3) i by auto
    have "r_from ?q \<in> covered rs"
      unfolding covered_nth using q ranges_ok_nth_lt[OF assms(1) q(1)] by blast
    moreover have "r_from ?q \<le> p" if pc: "p \<in> covered rs" "pos \<le> p" for p
    proof -
      obtain j where j: "j < length rs" "r_from (rs ! j) \<le> p" "p < r_to (rs ! j)"
        using pc(1) unfolding covered_nth by blast
      have "j < i"
      proof (rule ccontr)
        assume "\<not> j < i"
        then have "r_to (rs ! j) \<le> r_to r"
          using ranges_ok_nth[OF assms(1), of i j] ranges_ok_nth_lt[OF assms(1), of i] j(1) Cons.prems(3) r
          by (cases "i = j") auto
        with True j(3) that(2) show False by simp
      qed
      then have "r_from ?q \<le> r_from (rs ! j)"
        using q(1) by (intro ranges_ok_from_mono[OF assms(1)]) auto
      with j(2) show ?thesis by simp
    qed
    ultimately show ?thesis using True i q(2) by auto
  next
    case False
    show ?thesis
    proof (cases "r_from r \<le> pos")
      case True
      then have "pos \<in> covered rs" unfolding covered_nth using r False Cons.prems(3) by (auto simp: not_le)
      with True False show ?thesis by simp
    next
      case nf: False
      have "Suc i < length rs"
      proof (rule ccontr)
        assume "\<not> Suc i < length rs"
        with Cons.prems(3) have "length rs = Suc i" by simp
        then have "rs ! i = last rs" by (simp add: last_conv_nth assms(4))
        with nf r assms(5) show False by simp
      qed
      moreover have "\<forall>j<Suc i. j < length rs \<longrightarrow> pos < r_from (rs ! j)"
        using Cons.prems(2) nf r by (auto simp: less_Suc_eq)
      ultimately show ?thesis using Cons.IH[OF rest] False nf by simp
    qed
  qed
qed

lemma nextCoveredAfter_least:
  assumes "ranges_ok (li_ranges iv)" "li_start iv = Some s" "li_end iv = Some e" "s \<le> pos" "pos < e"
  shows "nextCoveredAfter pos iv \<in> covered (li_ranges iv) \<and> pos \<le> nextCoveredAfter pos iv \<and>
    (\<forall>p\<in>covered (li_ranges iv). pos \<le> p \<longrightarrow> nextCoveredAfter pos iv \<le> p)"
proof -
  have "li_ranges iv \<noteq> []" "r_from (last (li_ranges iv)) \<le> pos" "pos < r_to (hd (li_ranges iv))"
    using assms(2-5) by (auto simp: li_start_def li_end_def split: if_splits)
  with nextCovered_loop_spec[OF assms(1), of "li_ranges iv" 0 pos] show ?thesis
    by (simp add: nextCoveredAfter_def)
qed

subsection \<open>Intersection\<close>

lemma li_bounds_update [simp]:
  "li_start (iv\<lparr>li_lastProcessed := k\<rparr>) = li_start iv" "li_end (iv\<lparr>li_lastProcessed := k\<rparr>) = li_end iv"
  by (simp_all add: li_start_def li_end_def)

definition is_first :: "code_pos set \<Rightarrow> code_pos \<Rightarrow> bool" where
  "is_first S p \<longleftrightarrow> (if S = {} then p = CodePosition_MIN else p \<in> S \<and> (\<forall>q\<in>S. p \<le> q))"

text \<open>
  The state of the walk: every common position lies in a range up to \<open>i\<close> of the one interval
  and in a range up to \<open>j\<close> of the other.
\<close>

definition walk_inv :: "range list \<Rightarrow> range list \<Rightarrow> nat \<Rightarrow> nat \<Rightarrow> bool" where
  "walk_inv rs os i j \<longleftrightarrow> i < length rs \<and> j < length os \<and>
     (\<forall>p\<in>covered rs \<inter> covered os. (\<forall>a<length rs. p \<in> covered [rs ! a] \<longrightarrow> a \<le> i) \<and>
        (\<forall>b<length os. p \<in> covered [os ! b] \<longrightarrow> b \<le> j))"

lemma walk_inv_sym: "walk_inv rs os i j \<Longrightarrow> walk_inv os rs j i"
  by (auto simp: walk_inv_def)

lemma walk_from:
  assumes "walk_inv rs os i j" "ranges_ok rs" "p \<in> covered rs" "p \<in> covered os"
  shows "r_from (rs ! i) \<le> p"
proof -
  obtain a where a: "a < length rs" "r_from (rs ! a) \<le> p" "p < r_to (rs ! a)"
    using assms(3) unfolding covered_nth by blast
  with assms(1,3,4) have "a \<le> i" by (auto simp: walk_inv_def)
  then have "r_from (rs ! i) \<le> r_from (rs ! a)"
    using assms(1) by (intro ranges_ok_from_mono[OF assms(2)]) (auto simp: walk_inv_def)
  with a(2) show ?thesis by simp
qed

lemma walk_found:
  assumes "walk_inv rs os i j" "ranges_ok rs" "ranges_ok os"
    "r_from (rs ! i) \<le> r_from (os ! j)" "r_from (os ! j) < r_to (rs ! i)"
  shows "is_first (covered rs \<inter> covered os) (r_from (os ! j))"
proof -
  have ij: "i < length rs" "j < length os" using assms(1) by (auto simp: walk_inv_def)
  have "r_from (os ! j) \<in> covered rs" unfolding covered_nth using assms(4,5) ij by blast
  moreover have "r_from (os ! j) \<in> covered os"
    unfolding covered_nth using ranges_ok_nth_lt[OF assms(3) ij(2)] ij by blast
  moreover have "\<forall>q\<in>covered rs \<inter> covered os. r_from (os ! j) \<le> q"
    using walk_from[OF walk_inv_sym[OF assms(1)] assms(3)] by blast
  ultimately show ?thesis by (auto simp: is_first_def)
qed

text \<open>A range that ends before the other one starts is done with.\<close>

lemma walk_skip:
  assumes "walk_inv rs os i j" "ranges_ok os" "r_to (rs ! i) \<le> r_from (os ! j)"
    "p \<in> covered rs" "p \<in> covered os" "a < length rs" "p \<in> covered [rs ! a]"
  shows "a < i"
proof -
  have "a \<le> i" using assms(1,4-7) by (auto simp: walk_inv_def)
  moreover have "r_from (os ! j) \<le> p" using walk_from[OF walk_inv_sym[OF assms(1)] assms(2,5,4)] .
  then have "a \<noteq> i" using assms(3,7) by auto
  ultimately show ?thesis by simp
qed

lemma walk_step:
  assumes "walk_inv rs os i j" "ranges_ok os" "r_to (rs ! i) \<le> r_from (os ! j)" "i \<noteq> 0"
  shows "walk_inv rs os (i - 1) j"
  using assms(1,4) walk_skip[OF assms(1-3)] by (fastforce simp: walk_inv_def)

lemma walk_done:
  assumes "walk_inv rs os i j" "ranges_ok rs" "ranges_ok os" "r_to (rs ! i) \<le> r_from (os ! j)"
    "i = 0 \<or> r_to (hd os) < r_from (rs ! (i - 1))"
  shows "is_first (covered rs \<inter> covered os) CodePosition_MIN"
proof -
  have "False" if p: "p \<in> covered rs" "p \<in> covered os" for p
  proof -
    obtain a where a: "a < length rs" "p \<in> covered [rs ! a]" using p(1) by (auto simp: covered_nth)
    then have ai: "a < i" using walk_skip[OF assms(1,3,4) p] by blast
    then have "r_from (rs ! (i - 1)) \<le> r_from (rs ! a)"
      using assms(1) by (intro ranges_ok_from_mono[OF assms(2)]) (auto simp: walk_inv_def)
    then show False
      using assms(5) ai a(2) covered_bounds(2)[OF assms(3) p(2)] by (auto dest: order_less_trans order_trans)
  qed
  then show ?thesis by (auto simp: is_first_def)
qed

lemma intersect_loop_spec:
  assumes "ranges_ok (li_ranges iv)" "ranges_ok (li_ranges ov)" "walk_inv (li_ranges iv) (li_ranges ov) i j"
  shows "\<exists>p k. intersect_loop iv ov i j = Some (p, iv\<lparr>li_lastProcessed := k\<rparr>) \<and>
    is_first (covered (li_ranges iv) \<inter> covered (li_ranges ov)) p"
  using assms(1,3)
proof (induction "i + j" arbitrary: i j iv rule: less_induct)
  case less
  let ?r1 = "li_ranges iv ! i" and ?r2 = "li_ranges ov ! j"
  let ?ret = "\<lambda>iv. iv\<lparr>li_lastProcessed := li_lastProcessed iv\<rparr>"
  have ne: "li_ranges iv \<noteq> []" "li_ranges ov \<noteq> []" using less.prems(2) by (auto simp: walk_inv_def)
  have step: "\<exists>p k. intersect_loop iv' ov i' j' = Some (p, iv'\<lparr>li_lastProcessed := k\<rparr>) \<and>
      is_first (covered (li_ranges iv) \<inter> covered (li_ranges ov)) p"
    if "i' + j' < i + j" "walk_inv (li_ranges iv) (li_ranges ov) i' j'" "iv' = iv\<lparr>li_lastProcessed := l\<rparr>"
    for i' j' iv' l
    using less.hyps[of i' j' iv'] that less.prems(1) by auto
  note loop = intersect_loop.simps[of iv ov i j]
  show ?case
  proof (cases "r_from ?r1 \<le> r_from ?r2")
    case le: True
    let ?k = "if r_from ?r1 \<le> r_from (last (li_ranges ov)) then i else li_lastProcessed iv"
    let ?iv = "iv\<lparr>li_lastProcessed := ?k\<rparr>"
    have set: "(if r_from ?r1 \<le> r_from (last (li_ranges ov))
                then setLastProcessedRange i (r_from (last (li_ranges ov))) iv else Some iv) = Some ?iv"
      by (simp add: setLastProcessedRange_def)
    show ?thesis
    proof (cases "r_from ?r2 < r_to ?r1")
      case True
      then have "intersect_loop iv ov i j = Some (r_from ?r2, ?iv)"
        unfolding loop using le ne set by (simp add: li_start_def li_end_def Let_def)
      with walk_found[OF less.prems(2,1) assms(2) le True] show ?thesis by blast
    next
      case False
      then have f: "r_to ?r1 \<le> r_from ?r2" by simp
      show ?thesis
      proof (cases "i = 0 \<or> r_to (hd (li_ranges ov)) < r_from (li_ranges iv ! (i - 1))")
        case True
        then have "intersect_loop iv ov i j = Some (CodePosition_MIN, ?iv)"
          unfolding loop using le ne set False by (auto simp: li_start_def li_end_def Let_def)
        with walk_done[OF less.prems(2,1) assms(2) f True] show ?thesis by blast
      next
        case nd: False
        then have "intersect_loop iv ov i j = intersect_loop ?iv ov (i - 1) j"
          unfolding loop using le ne set False by (simp add: li_start_def li_end_def Let_def)
        with step[OF _ walk_step[OF less.prems(2) assms(2) f] refl, of ?k] nd show ?thesis by auto
      qed
    qed
  next
    case nle: False
    then have le: "r_from ?r2 \<le> r_from ?r1" by simp
    note winv = walk_inv_sym[OF less.prems(2)]
    show ?thesis
    proof (cases "r_from ?r1 < r_to ?r2")
      case True
      then have "intersect_loop iv ov i j = Some (r_from ?r1, ?ret iv)"
        unfolding loop using nle ne by (simp add: li_start_def li_end_def Let_def)
      with walk_found[OF winv assms(2) less.prems(1) le True, unfolded Int_commute[of "covered (li_ranges ov)"]]
      show ?thesis by blast
    next
      case False
      then have f: "r_to ?r2 \<le> r_from ?r1" by simp
      show ?thesis
      proof (cases "j = 0 \<or> r_to (hd (li_ranges iv)) < r_from (li_ranges ov ! (j - 1))")
        case True
        then have "intersect_loop iv ov i j = Some (CodePosition_MIN, ?ret iv)"
          unfolding loop using nle ne False by (auto simp: li_start_def li_end_def Let_def)
        with walk_done[OF winv assms(2) less.prems(1) f True, unfolded Int_commute[of "covered (li_ranges ov)"]]
        show ?thesis by blast
      next
        case nd: False
        then have "intersect_loop iv ov i j = intersect_loop (?ret iv) ov i (j - 1)"
          unfolding loop using nle ne False by (simp add: li_start_def li_end_def Let_def)
        with step[OF _ walk_inv_sym[OF walk_step[OF winv less.prems(1) f]] refl, of "li_lastProcessed iv"] nd
        show ?thesis by auto
      qed
    qed
  qed
qed

lemma intersect_from_spec:
  assumes "ranges_ok (li_ranges iv)" "ranges_ok (li_ranges ov)" "li_ranges iv \<noteq> []" "li_ranges ov \<noteq> []"
  shows "\<exists>p k. intersect_from iv ov = Some (p, iv\<lparr>li_lastProcessed := k\<rparr>) \<and>
    is_first (covered (li_ranges iv) \<inter> covered (li_ranges ov)) p"
proof -
  let ?s = "r_from (last (li_ranges ov))"
  let ?i = "lastProcessedRangeIfValid ?s iv" and ?j = "length (li_ranges ov) - 1"
  have "walk_inv (li_ranges iv) (li_ranges ov) ?i ?j"
    unfolding walk_inv_def
  proof (intro conjI ballI allI impI)
    show "?i < length (li_ranges iv)" by (rule lastProcessed_sound(1)[OF assms(1,3)])
    show "?j < length (li_ranges ov)" using assms(4) by simp
    fix p b assume p: "p \<in> covered (li_ranges iv) \<inter> covered (li_ranges ov)"
    show "b \<le> ?j" if "b < length (li_ranges ov)" using that by simp
    show "b \<le> ?i" if b: "b < length (li_ranges iv)" "p \<in> covered [li_ranges iv ! b]"
    proof (rule ccontr)
      assume "\<not> b \<le> ?i"
      then have "r_to (li_ranges iv ! b) \<le> ?s"
        using lastProcessed_sound(2)[OF assms(1,3), of ?s] b(1) by (meson not_less)
      with b(2) covered_bounds(1)[OF assms(2), of p] p show False by auto
    qed
  qed
  from intersect_loop_spec[OF assms(1,2) this] assms(4) show ?thesis
    by (simp add: intersect_from_def li_start_def)
qed

text \<open>
  C20: \<open>intersect\<close> returns the first position that both intervals cover, and \<open>CodePosition::MIN\<close>
  if there is none, for every state of the two caches; it terminates, fails no assertion and
  changes only the caches.
\<close>

theorem intersect_first_common:
  assumes "ranges_ok (li_ranges iv)" "ranges_ok (li_ranges ov)" "li_ranges iv \<noteq> []" "li_ranges ov \<noteq> []"
  shows "\<exists>p k l. intersect iv ov = Some (p, iv\<lparr>li_lastProcessed := k\<rparr>, ov\<lparr>li_lastProcessed := l\<rparr>) \<and>
    is_first (covered (li_ranges iv) \<inter> covered (li_ranges ov)) p"
proof (cases "r_from (last (li_ranges ov)) < r_from (last (li_ranges iv))")
  case True
  obtain p l where "intersect_from ov iv = Some (p, ov\<lparr>li_lastProcessed := l\<rparr>)"
    "is_first (covered (li_ranges ov) \<inter> covered (li_ranges iv)) p"
    using intersect_from_spec[OF assms(2,1,4,3)] by blast
  with True assms(3,4) show ?thesis
    by (intro exI[of _ p] exI[of _ "li_lastProcessed iv"] exI[of _ l]) (simp add: intersect_def li_start_def Int_commute)
next
  case False
  obtain p k where "intersect_from iv ov = Some (p, iv\<lparr>li_lastProcessed := k\<rparr>)"
    "is_first (covered (li_ranges iv) \<inter> covered (li_ranges ov)) p"
    using intersect_from_spec[OF assms] by blast
  with False assms(3,4) show ?thesis
    by (intro exI[of _ p] exI[of _ k] exI[of _ "li_lastProcessed ov"]) (simp add: intersect_def li_start_def)
qed

theorem intersect_first_common_witness:
  "\<exists>iv ov. ranges_ok (li_ranges iv) \<and> ranges_ok (li_ranges ov) \<and> li_ranges iv \<noteq> [] \<and> li_ranges ov \<noteq> [] \<and>
   (\<exists>p k l. intersect iv ov = Some (p, iv\<lparr>li_lastProcessed := k\<rparr>, ov\<lparr>li_lastProcessed := l\<rparr>) \<and>
    is_first (covered (li_ranges iv) \<inter> covered (li_ranges ov)) p)"
proof -
  let ?iv = "(LiveInterval_new None 0)\<lparr>li_ranges := [\<lparr>r_from = 8, r_to = 10\<rparr>, \<lparr>r_from = 2, r_to = 4\<rparr>]\<rparr>"
  let ?ov = "(LiveInterval_new None 0)\<lparr>li_ranges := [\<lparr>r_from = 5, r_to = 9\<rparr>]\<rparr>"
  have "ranges_ok (li_ranges ?iv)" "ranges_ok (li_ranges ?ov)" "li_ranges ?iv \<noteq> []" "li_ranges ?ov \<noteq> []"
    by (simp_all add: ranges_ok_simps)
  with intersect_first_common[of ?iv ?ov] show ?thesis by blast
qed

subsection \<open>Splitting\<close>

lemma covered_below: "\<forall>r\<in>set rs. r_to r \<le> pos \<Longrightarrow> covered rs \<subseteq> {..<pos}"
  by (auto simp: covered_def)

lemma covered_above: "\<forall>r\<in>set rs. pos \<le> r_from r \<Longrightarrow> covered rs \<subseteq> {pos..}"
  by (auto simp: covered_def)

lemma splitFrom_loop_spec:
  assumes "ranges_ok (xs @ ys)" "\<forall>r\<in>set ys. r_to r \<le> pos" "xs \<noteq> []" "pos < r_to (hd xs)"
    "splitFrom_loop mem pos (length xs) (xs @ ys) = (True, kept, moved)"
  shows "ranges_ok kept \<and> ranges_ok moved \<and> covered kept = covered (xs @ ys) \<inter> {..<pos} \<and>
    covered moved = covered (xs @ ys) \<inter> {pos..}"
  using assms
proof (induction xs arbitrary: ys rule: rev_induct)
  case Nil
  then show ?case by simp
next
  case (snoc r xs)
  have ok: "ranges_ok xs" "ranges_ok ys" "r_from r < r_to r" "\<forall>s\<in>set xs. r_to r \<le> r_from s"
    "\<forall>s\<in>set ys. r_to s \<le> r_from r"
    using snoc.prems(1) by (auto simp: ranges_ok_simps)
  show ?case
  proof (cases "r_to r \<le> pos")
    case True
    then have ne: "xs \<noteq> []" using snoc.prems(4) by auto
    have "splitFrom_loop mem pos (length xs) (xs @ r # ys) = (True, kept, moved)"
      using snoc.prems(5) True by (simp add: nth_append)
    then show ?thesis
      using snoc.IH[of "r # ys"] snoc.prems(1,2,4) True ne by simp
  next
    case False
    have "\<forall>s\<in>set xs. pos \<le> r_from s" using False ok(4) by (auto dest: order_trans)
    then have hi: "covered xs \<subseteq> {pos..}" by (rule covered_above)
    have lo: "covered ys \<subseteq> {..<pos}" using snoc.prems(2) by (rule covered_below)
    show ?thesis
    proof (cases "r_from r < pos")
      case True
      then have res: "kept = \<lparr>r_from = r_from r, r_to = pos\<rparr> # ys" "moved = xs @ [r\<lparr>r_from := pos\<rparr>]"
        using snoc.prems(5) False by (auto simp: nth_append list_update_append Let_def split: if_splits)
      show ?thesis using ok hi lo False True unfolding res by (auto simp: ranges_ok_simps)
    next
      case nf: False
      then have res: "kept = ys" "moved = xs @ [r]"
        using snoc.prems(5) False nf by (auto simp: nth_append Let_def split: if_splits)
      show ?thesis using ok hi lo False nf unfolding res by (auto simp: ranges_ok_simps)
    qed
  qed
qed

lemma splitFrom_loop_memory: "\<forall>k<3. mem k \<Longrightarrow> fst (splitFrom_loop mem pos i rs)"
  by (induction i) (auto simp: Let_def)

lemma covered_start:
  assumes "ranges_ok rs" "rs \<noteq> []"
  shows "covered rs \<inter> {..<pos} = {} \<longleftrightarrow> pos \<le> r_from (last rs)"
proof -
  have l: "r_from (last rs) < r_to (last rs)" "last rs \<in> set rs" using assms by (auto simp: ranges_ok_def)
  have ge: "r_from (last rs) \<le> r_from r" if "r \<in> set rs" for r
  proof -
    have "ranges_ok (butlast rs @ [last rs])" using assms by simp
    then have "r \<in> set (butlast rs) \<Longrightarrow> r_to (last rs) \<le> r_from r" by (auto simp: ranges_ok_simps)
    moreover have "r \<in> set (butlast rs) \<or> r = last rs"
      using that assms(2) by (metis append_butlast_last_id rotate1.simps(2) set_ConsD set_rotate1)
    ultimately show ?thesis using l(1) by auto
  qed
  have "r_from (last rs) \<in> covered rs" using l by (auto simp: covered_def)
  moreover have "r_from (last rs) \<le> p" if "p \<in> covered rs" for p
    using that ge by (auto simp: covered_def dest: order_trans)
  ultimately show ?thesis by (auto simp: disjoint_iff dest: order_trans not_less[THEN iffD1] leD)
qed

lemma split_last_position:
  assumes "ranges_ok (li_ranges iv)" "li_end iv = Some e"
  shows "e - 1 \<in> covered (li_ranges iv) \<and> (\<forall>pos<e. pos \<le> e - 1)"
proof (cases "li_ranges iv")
  case Nil
  with assms(2) show ?thesis by (simp add: li_end_def)
next
  case (Cons r rs)
  then have "r_from r < e" using assms by (auto simp: ranges_ok_simps li_end_def)
  then have "r_from r \<le> e - 1" "e - 1 < e" by (auto simp: word_le_nat_alt word_less_nat_alt unat_sub_if' split: if_splits) 
  moreover have "pos \<le> e - 1" if "pos < e" for pos
    using that by (auto simp: word_le_nat_alt word_less_nat_alt unat_sub_if' split: if_splits)
  ultimately show ?thesis using Cons assms(2) by (auto simp: li_end_def)
qed

lemma ranges_ok_covered_empty: "ranges_ok rs \<Longrightarrow> covered rs = {} \<longleftrightarrow> rs = []"
  by (cases rs) (auto simp: ranges_ok_simps)

lemma sorted_dropWhile_none:
  fixes f :: "'b \<Rightarrow> 'a :: linorder"
  assumes "sorted (map f xs)" "\<And>x y. f x \<le> f y \<Longrightarrow> P y \<Longrightarrow> P x" "x \<in> set (dropWhile P xs)"
  shows "\<not> P x"
  using assms(1,3)
proof (induction xs)
  case Nil
  then show ?case by simp
next
  case (Cons y ys)
  show ?case
  proof (cases "P y")
    case True
    with Cons show ?thesis by simp
  next
    case False
    then have "x = y \<or> f y \<le> f x" using Cons.prems by auto
    with False assms(2)[of y x] show ?thesis by auto
  qed
qed

definition uses_sorted :: "live_interval \<Rightarrow> bool" where
  "uses_sorted iv \<longleftrightarrow> sorted (map up_pos (li_uses iv))"

text \<open>
  C21: splitting at a position from the start of an interval to before its end, which is what the
  assertion of \<open>splitFrom\<close> allows, fails no assertion, and it reports success when memory is
  found. After a success the old interval keeps exactly the covered positions before the split
  position and the new one has exactly those from it on, both in order; the uses are divided at
  the position, in order, and none is lost; the new interval is not empty, and the old one is empty
  exactly when the position is its start. The comment above \<open>splitFrom\<close> says that such a split
  trips an assertion at the bottom of the function; there is none, only the caller
  \<open>splitInterval\<close> asserts that the position lies behind the start. After a failure the uses
  have not been touched; nothing is claimed of the ranges, some of which may be gone.
\<close>

theorem splitFrom_partition:
  assumes "ranges_ok (li_ranges iv)" "li_start iv = Some s" "li_end iv = Some e" "s \<le> pos" "pos < e"
    "uses_sorted iv" "li_ranges after = []" "li_uses after = []"
  shows "(\<exists>ok iv' after'. splitFrom mem pos iv after = Some (ok, iv', after') \<and>
    ((\<forall>k<3. mem k) \<longrightarrow> ok) \<and>
    (ok \<longrightarrow> ranges_ok (li_ranges iv') \<and> ranges_ok (li_ranges after') \<and>
      covered (li_ranges iv') = covered (li_ranges iv) \<inter> {..<pos} \<and>
      covered (li_ranges after') = covered (li_ranges iv) \<inter> {pos..} \<and>
      li_ranges after' \<noteq> [] \<and> (li_ranges iv' = [] \<longleftrightarrow> pos = s) \<and>
      li_uses iv' @ li_uses after' = li_uses iv \<and>
      (\<forall>u\<in>set (li_uses iv'). up_pos u \<le> pos) \<and> (\<forall>u\<in>set (li_uses after'). pos < up_pos u)) \<and>
    (\<not> ok \<longrightarrow> li_uses iv' = li_uses iv \<and> li_uses after' = []))"
proof -
  have ne: "li_ranges iv \<noteq> []" "pos < r_to (hd (li_ranges iv))" "s = r_from (last (li_ranges iv))"
    using assms(2,3,5) by (auto simp: li_start_def li_end_def split: if_splits)
  obtain ok kept moved where sp: "splitFrom_loop mem pos (length (li_ranges iv)) (li_ranges iv) = (ok, kept, moved)"
    using prod_cases3 by blast
  show ?thesis
  proof (cases "mem 0 \<and> ok")
    case True
    let ?a = "iv\<lparr>li_ranges := kept, li_uses := takeWhile (\<lambda>u. \<not> up_pos u > pos) (li_uses iv)\<rparr>"
    let ?b = "after\<lparr>li_ranges := moved, li_uses := dropWhile (\<lambda>u. \<not> up_pos u > pos) (li_uses iv)\<rparr>"
    have res: "splitFrom mem pos iv after = Some (True, ?a, ?b)"
      using assms(2-5,7,8) sp True by (simp add: splitFrom_def Let_def)
    have ranges: "ranges_ok kept \<and> ranges_ok moved \<and> covered kept = covered (li_ranges iv) \<inter> {..<pos} \<and>
        covered moved = covered (li_ranges iv) \<inter> {pos..}"
      using splitFrom_loop_spec[of "li_ranges iv" "[]" pos mem kept moved] assms(1) ne sp True by simp
    have "kept = [] \<longleftrightarrow> pos \<le> s"
      using covered_start[OF assms(1) ne(1), of pos] ranges ranges_ok_covered_empty[of kept] ne(3) by simp
    then have empty: "kept = [] \<longleftrightarrow> pos = s" using assms(4) by auto
    have "e - 1 \<in> covered (li_ranges iv)" "pos \<le> e - 1"
      using split_last_position[OF assms(1,3)] assms(5) by blast+
    then have moved: "moved \<noteq> []" using ranges by auto
    have srt: "sorted (map up_pos (li_uses iv))" using assms(6) by (simp add: uses_sorted_def)
    have "\<not> \<not> pos < up_pos u" if "u \<in> set (dropWhile (\<lambda>u. \<not> up_pos u > pos) (li_uses iv))" for u
      using that by (rule sorted_dropWhile_none[OF srt, rotated]) simp
    moreover have "\<not> pos < up_pos u" if "u \<in> set (takeWhile (\<lambda>u. \<not> up_pos u > pos) (li_uses iv))" for u
      using that by (auto dest: set_takeWhileD)
    ultimately have uses: "\<forall>u\<in>set (takeWhile (\<lambda>u. \<not> up_pos u > pos) (li_uses iv)). up_pos u \<le> pos"
      "\<forall>u\<in>set (dropWhile (\<lambda>u. \<not> up_pos u > pos) (li_uses iv)). pos < up_pos u"
      by (meson not_less)+
    have sel: "li_ranges ?a = kept" "li_ranges ?b = moved"
      "li_uses ?a = takeWhile (\<lambda>u. \<not> up_pos u > pos) (li_uses iv)"
      "li_uses ?b = dropWhile (\<lambda>u. \<not> up_pos u > pos) (li_uses iv)"
      by simp_all
    show ?thesis
      by (rule exI[of _ True], rule exI[of _ ?a], rule exI[of _ ?b], unfold sel takeWhile_dropWhile_id)
        (use res ranges uses empty moved in blast)
  next
    case False
    then have "\<not> (\<forall>k<3. mem k)" using splitFrom_loop_memory[of mem pos "length (li_ranges iv)" "li_ranges iv"] sp by auto
    then show ?thesis using False assms(2-5,7,8) sp by (auto simp: splitFrom_def)
  qed
qed

theorem splitFrom_partition_witness:
  "\<exists>mem iv s e pos after. (\<forall>k<3. mem k) \<and>
    ranges_ok (li_ranges iv) \<and> li_start iv = Some s \<and> li_end iv = Some e \<and> s \<le> pos \<and> pos < e \<and>
    uses_sorted iv \<and> li_ranges after = [] \<and> li_uses after = [] \<and>
    (\<exists>ok iv' after'. splitFrom mem pos iv after = Some (ok, iv', after') \<and>
    ((\<forall>k<3. mem k) \<longrightarrow> ok) \<and>
    (ok \<longrightarrow> ranges_ok (li_ranges iv') \<and> ranges_ok (li_ranges after') \<and>
      covered (li_ranges iv') = covered (li_ranges iv) \<inter> {..<pos} \<and>
      covered (li_ranges after') = covered (li_ranges iv) \<inter> {pos..} \<and>
      li_ranges after' \<noteq> [] \<and> (li_ranges iv' = [] \<longleftrightarrow> pos = s) \<and>
      li_uses iv' @ li_uses after' = li_uses iv \<and>
      (\<forall>u\<in>set (li_uses iv'). up_pos u \<le> pos) \<and> (\<forall>u\<in>set (li_uses after'). pos < up_pos u)) \<and>
    (\<not> ok \<longrightarrow> li_uses iv' = li_uses iv \<and> li_uses after' = []))"
proof -
  let ?iv = "(LiveInterval_new None 0)\<lparr>li_ranges := [\<lparr>r_from = 8, r_to = 10\<rparr>, \<lparr>r_from = 2, r_to = 4\<rparr>],
    li_uses := [\<lparr>up_use = 0, up_pos = 3\<rparr>, \<lparr>up_use = 0, up_pos = 9\<rparr>]\<rparr>"
  let ?after = "LiveInterval_new None 1" let ?mem = "\<lambda>k::nat. True"
  have h: "ranges_ok (li_ranges ?iv)" "li_start ?iv = Some 2" "li_end ?iv = Some 10" "(2::code_pos) \<le> 3"
    "(3::code_pos) < 10" "uses_sorted ?iv" "li_ranges ?after = []" "li_uses ?after = []"
    by (simp_all add: ranges_ok_simps li_start_def li_end_def uses_sorted_def LiveInterval_new_def)
  show ?thesis
    by (rule exI[of _ ?mem], rule exI[of _ ?iv], rule exI[of _ 2], rule exI[of _ 10], rule exI[of _ 3], rule exI[of _ ?after],
        intro conjI allI impI TrueI) (rule h splitFrom_partition[OF h])+
qed

subsection \<open>Uses and intervals of a register\<close>

lemma sorted_insert_mid:
  fixes f :: "'b \<Rightarrow> 'a :: linorder"
  assumes "sorted (map f (ys @ zs))" "\<forall>c\<in>set ys. f c \<le> f u" "\<forall>c\<in>set zs. f u \<le> f c"
  shows "sorted (map f (ys @ u # zs))"
  using assms by (auto simp: sorted_append)

lemma addUse_sorted:
  assumes "uses_sorted iv"
  shows "uses_sorted (addUse u iv)"
proof -
  let ?P = "\<lambda>c. \<not> up_pos c \<ge> up_pos u"
  let ?ys = "takeWhile ?P (li_uses iv)" and ?zs = "dropWhile ?P (li_uses iv)"
  have "sorted (map up_pos (?ys @ ?zs))" using assms by (simp add: uses_sorted_def)
  moreover have "\<forall>c\<in>set ?ys. up_pos c \<le> up_pos u" by (auto dest!: set_takeWhileD)
  moreover have "\<forall>c\<in>set ?zs. up_pos u \<le> up_pos c"
  proof
    fix c assume c: "c \<in> set ?zs"
    have srt: "sorted (map up_pos (li_uses iv))" using assms by (simp add: uses_sorted_def)
    from c have "\<not> \<not> up_pos u \<le> up_pos c" by (rule sorted_dropWhile_none[OF srt, rotated]) simp
    then show "up_pos u \<le> up_pos c" by simp
  qed
  ultimately have "sorted (map up_pos (?ys @ u # ?zs))" by (rule sorted_insert_mid)
  then show ?thesis by (simp add: uses_sorted_def addUse_def)
qed

lemma nextUse_loop_spec:
  "nextUse_loop after us = Some u \<Longrightarrow> u \<in> set us \<and> after \<le> up_pos u \<and> lu_policy (up_use u) \<noteq> Some KEEPALIVE"
  "nextUse_loop after us = None \<Longrightarrow> \<forall>u\<in>set us. after \<le> up_pos u \<longrightarrow> lu_policy (up_use u) = Some KEEPALIVE"
  by (induction us) (auto split: if_splits)

lemma nextUse_loop_first:
  "sorted (map up_pos us) \<Longrightarrow> v \<in> set us \<Longrightarrow> after \<le> up_pos v \<Longrightarrow> lu_policy (up_use v) \<noteq> Some KEEPALIVE \<Longrightarrow>
     \<exists>u. nextUse_loop after us = Some u \<and> up_pos u \<le> up_pos v"
  by (induction us) auto

text \<open>
  The intervals of a register: sorted by position and disjoint, as \<open>validateVirtualRegisters\<close>
  checks, with the index of each interval its place in the vector.
\<close>

definition intervals_ok :: "live_interval list \<Rightarrow> bool" where
  "intervals_ok ivs \<longleftrightarrow>
     (\<forall>iv\<in>set ivs. ranges_ok (li_ranges iv) \<and> li_ranges iv \<noteq> []) \<and>
     sorted_wrt (\<lambda>a b. r_to (hd (li_ranges a)) \<le> r_from (last (li_ranges b))) ivs"

lemma intervals_ok_Cons:
  "intervals_ok (iv # ivs) \<longleftrightarrow> ranges_ok (li_ranges iv) \<and> li_ranges iv \<noteq> [] \<and> intervals_ok ivs \<and>
     (\<forall>b\<in>set ivs. r_to (hd (li_ranges iv)) \<le> r_from (last (li_ranges b)))"
  by (auto simp: intervals_ok_def)

lemma intervalFor_loop_spec:
  assumes "intervals_ok ivs"
  shows "\<exists>res ivs'. intervalFor_loop pos k ivs = Some (res, ivs') \<and> map li_ranges ivs' = map li_ranges ivs \<and>
    (case res of
       None \<Rightarrow> \<forall>iv\<in>set ivs. pos \<notin> covered (li_ranges iv)
     | Some n \<Rightarrow> k \<le> n \<and> n - k < length ivs \<and> pos \<in> covered (li_ranges (ivs ! (n - k))))"
  using assms
proof (induction ivs arbitrary: k)
  case Nil
  then show ?case by simp
next
  case (Cons iv ivs)
  have ok: "ranges_ok (li_ranges iv)" "li_ranges iv \<noteq> []" "intervals_ok ivs"
    "\<forall>b\<in>set ivs. r_to (hd (li_ranges iv)) \<le> r_from (last (li_ranges b))"
    using Cons.prems by (simp_all add: intervals_ok_Cons)
  obtain c where c: "covers pos iv = Some (pos \<in> covered (li_ranges iv), iv\<lparr>li_lastProcessed := c\<rparr>)"
    using covers_spec[OF ok(1,2)] by blast
  let ?iv = "iv\<lparr>li_lastProcessed := c\<rparr>"
  have e: "li_end iv = Some (r_to (hd (li_ranges iv)))" using ok(2) by (simp add: li_end_def)
  show ?case
  proof (cases "pos \<in> covered (li_ranges iv)")
    case True
    with c show ?thesis by simp
  next
    case nc: False
    show ?thesis
    proof (cases "pos < r_to (hd (li_ranges iv))")
      case True
      have "pos \<notin> covered (li_ranges b)" if b: "b \<in> set ivs" for b
      proof
        assume "pos \<in> covered (li_ranges b)"
        moreover have "ranges_ok (li_ranges b)" using ok(3) b by (simp add: intervals_ok_def)
        ultimately have "r_from (last (li_ranges b)) \<le> pos" by (simp add: covered_bounds)
        with ok(4) b True show False by (meson leD le_less_trans order_trans)
      qed
      with nc c e True show ?thesis by simp
    next
      case False
      obtain res ivs' where r: "intervalFor_loop pos (Suc k) ivs = Some (res, ivs')"
        "map li_ranges ivs' = map li_ranges ivs"
        "case res of None \<Rightarrow> \<forall>iv\<in>set ivs. pos \<notin> covered (li_ranges iv)
         | Some n \<Rightarrow> Suc k \<le> n \<and> n - Suc k < length ivs \<and> pos \<in> covered (li_ranges (ivs ! (n - Suc k)))"
        using Cons.IH[OF ok(3), of "Suc k"] by blast
      have "intervalFor_loop pos k (iv # ivs) = Some (res, ?iv # ivs')"
        using nc c e False r(1) by simp
      moreover have "case res of None \<Rightarrow> \<forall>i\<in>set (iv # ivs). pos \<notin> covered (li_ranges i)
         | Some n \<Rightarrow> k \<le> n \<and> n - k < length (iv # ivs) \<and> pos \<in> covered (li_ranges ((iv # ivs) ! (n - k)))"
        using r(3) nc by (auto split: option.splits simp: nth_Cons' Suc_diff_Suc Suc_le_eq)
      ultimately show ?thesis using r(2) by simp
    qed
  qed
qed

text \<open>
  C22: looking up the interval of a virtual register for a position finds an interval that covers
  it when there is one, and answers \<open>NULL\<close> only when none does, whatever the caches hold.
\<close>

theorem intervalFor_finds:
  assumes "intervals_ok ivs"
  shows "\<exists>res ivs'. intervalFor pos ivs = Some (res, ivs') \<and> map li_ranges ivs' = map li_ranges ivs \<and>
    (case res of
       None \<Rightarrow> \<forall>iv\<in>set ivs. pos \<notin> covered (li_ranges iv)
     | Some n \<Rightarrow> n < length ivs \<and> pos \<in> covered (li_ranges (ivs ! n)))"
  using intervalFor_loop_spec[OF assms, of pos 0] by (simp add: intervalFor_def cong: option.case_cong)

theorem intervalFor_finds_witness:
  "\<exists>ivs. intervals_ok ivs \<and>
    (\<exists>res ivs'. intervalFor 9 ivs = Some (res, ivs') \<and> map li_ranges ivs' = map li_ranges ivs \<and>
    (case res of
       None \<Rightarrow> \<forall>iv\<in>set ivs. 9 \<notin> covered (li_ranges iv)
     | Some n \<Rightarrow> n < length ivs \<and> 9 \<in> covered (li_ranges (ivs ! n))))"
proof -
  let ?ivs = "[(LiveInterval_new None 0)\<lparr>li_ranges := [\<lparr>r_from = 2, r_to = 4\<rparr>]\<rparr>,
    (LiveInterval_new None 1)\<lparr>li_ranges := [\<lparr>r_from = 8, r_to = 10\<rparr>]\<rparr>]"
  have "intervals_ok ?ivs" by (simp add: intervals_ok_def ranges_ok_simps)
  with intervalFor_finds[of ?ivs 9] show ?thesis by blast
qed

text \<open>
  \<open>addInterval\<close> keeps the vector in order when the new interval lies before or after each of the
  others, and shifts the indices of exactly those behind it.
\<close>

lemma intervals_ok_append:
  "intervals_ok (xs @ ys) \<longleftrightarrow> intervals_ok xs \<and> intervals_ok ys \<and>
     (\<forall>a\<in>set xs. \<forall>b\<in>set ys. r_to (hd (li_ranges a)) \<le> r_from (last (li_ranges b)))"
  by (auto simp: intervals_ok_def sorted_wrt_append)

lemma intervals_ok_reindex: "intervals_ok (map (\<lambda>x. x\<lparr>li_index := f x\<rparr>) ivs) = intervals_ok ivs"
  by (induction ivs) (auto simp: intervals_ok_Cons intervals_ok_def)

lemma range_bounds: "ranges_ok rs \<Longrightarrow> rs \<noteq> [] \<Longrightarrow> r_from (last rs) < r_to (hd rs)"
  by (metis covered_bounds(1,2) covered_simps(2) hd_Cons_tl UnI1 atLeastLessThan_iff order_refl
      ranges_ok_Cons le_less_trans)

lemma addInterval_loop_spec:
  assumes "intervals_ok ivs"
  shows "\<exists>xs ys. addInterval_loop s ivs = Some (xs, map (\<lambda>x. x\<lparr>li_index := li_index x + 1\<rparr>) ys) \<and> ivs = xs @ ys \<and>
    (\<forall>x\<in>set xs. r_from (last (li_ranges x)) \<le> s) \<and> (\<forall>y\<in>set ys. s < r_from (last (li_ranges y)))"
  using assms
proof (induction ivs)
  case Nil
  then show ?case by simp
next
  case (Cons iv ivs)
  have ok: "ranges_ok (li_ranges iv)" "li_ranges iv \<noteq> []" "intervals_ok ivs"
    "\<forall>b\<in>set ivs. r_to (hd (li_ranges iv)) \<le> r_from (last (li_ranges b))"
    using Cons.prems by (simp_all add: intervals_ok_Cons)
  show ?case
  proof (cases "s < r_from (last (li_ranges iv))")
    case True
    have "\<forall>b\<in>set ivs. s < r_from (last (li_ranges b))"
      using ok(4) range_bounds[OF ok(1,2)] True by (meson less_le_trans less_trans)
    with True ok(2) show ?thesis
      by (intro exI[of _ "[]"] exI[of _ "iv # ivs"]) (simp add: li_start_def)
  next
    case False
    obtain xs ys where "addInterval_loop s ivs = Some (xs, map (\<lambda>x. x\<lparr>li_index := li_index x + 1\<rparr>) ys)"
      "ivs = xs @ ys" "\<forall>x\<in>set xs. r_from (last (li_ranges x)) \<le> s"
      "\<forall>y\<in>set ys. s < r_from (last (li_ranges y))"
      using Cons.IH[OF ok(3)] by blast
    with False ok(2) show ?thesis
      by (intro exI[of _ "iv # xs"] exI[of _ ys]) (simp add: li_start_def)
  qed
qed

lemma addInterval_ok:
  assumes "intervals_ok ivs" "ranges_ok (li_ranges iv)" "li_ranges iv \<noteq> []"
    "\<forall>b\<in>set ivs. r_to (hd (li_ranges iv)) \<le> r_from (last (li_ranges b)) \<or>
                 r_to (hd (li_ranges b)) \<le> r_from (last (li_ranges iv))"
  shows "\<exists>xs ys. ivs = xs @ ys \<and>
    addInterval iv ivs = Some (xs @ iv # map (\<lambda>x. x\<lparr>li_index := li_index x + 1\<rparr>) ys) \<and>
    intervals_ok (xs @ iv # map (\<lambda>x. x\<lparr>li_index := li_index x + 1\<rparr>) ys)"
proof -
  let ?s = "r_from (last (li_ranges iv))"
  let ?inc = "\<lambda>x. x\<lparr>li_index := li_index x + 1\<rparr>"
  obtain xs ys where l: "addInterval_loop ?s ivs = Some (xs, map ?inc ys)" "ivs = xs @ ys"
    "\<forall>x\<in>set xs. r_from (last (li_ranges x)) \<le> ?s" "\<forall>y\<in>set ys. ?s < r_from (last (li_ranges y))"
    using addInterval_loop_spec[OF assms(1)] by blast
  have ok: "intervals_ok xs" "intervals_ok ys" "\<forall>x\<in>set xs. \<forall>y\<in>set ys. r_to (hd (li_ranges x)) \<le> r_from (last (li_ranges y))"
    using assms(1) l(2) by (auto simp: intervals_ok_append)
  have b: "r_from (last (li_ranges x)) < r_to (hd (li_ranges x))" if "x \<in> set ivs" for x
    using assms(1) that range_bounds by (auto simp: intervals_ok_def)
  have "r_to (hd (li_ranges x)) \<le> ?s" if x: "x \<in> set xs" for x
  proof -
    have "r_to (hd (li_ranges iv)) \<le> r_from (last (li_ranges x)) \<or> r_to (hd (li_ranges x)) \<le> ?s"
      using assms(4) l(2) x by auto
    moreover have "r_from (last (li_ranges x)) \<le> ?s" using l(3) x by blast
    ultimately show ?thesis using range_bounds[OF assms(2,3)] by auto
  qed
  moreover have "r_to (hd (li_ranges iv)) \<le> r_from (last (li_ranges y))" if y: "y \<in> set ys" for y
  proof -
    have "r_to (hd (li_ranges iv)) \<le> r_from (last (li_ranges y)) \<or> r_to (hd (li_ranges y)) \<le> ?s"
      using assms(4) l(2) y by auto
    moreover have "?s < r_from (last (li_ranges y))" using l(4) y by blast
    moreover have "y \<in> set ivs" using l(2) y by simp
    ultimately show ?thesis using b[of y] by auto
  qed
  moreover have "intervals_ok (map ?inc ys)"
    using ok(2) intervals_ok_reindex[of "\<lambda>x. li_index x + 1" ys] by simp
  ultimately have "intervals_ok (xs @ iv # map ?inc ys)"
    using ok(1,3) assms(2,3) by (auto simp: intervals_ok_append intervals_ok_Cons)
  with l(1,2) assms(3) show ?thesis
    by (intro exI[of _ xs] exI[of _ ys]) (simp add: addInterval_def li_start_def)
qed

end
