(* ===== verification/Mir_Blocks.thy ===== *)
theory Mir_Blocks
  imports Mir_Nodes
begin

text \<open>
  Basic blocks and the graph (\<open>ion/MIRGraph.h\<close>, \<open>ion/MIRGraph.cpp\<close>, \<open>ion/CompileInfo.h\<close>): the
  abstract stack of a block, its instruction, phi and predecessor lists, and the construction of
  SSA form at joins and loop headers.

  The graph is a record with the node store, the block store, the list of blocks, the two id
  generators and the next free addresses. The successors of a control instruction are a function
  of its address. Memory for a block, a node or a longer vector is always available. A slot that
  was never written is \<open>None\<close>, and reading it fails, like reading past the list.
\<close>

subsection \<open>Slots of a compilation unit\<close>

text \<open>\<open>ci_fun\<close> is the number of formal arguments, or \<open>None\<close> for a global script.\<close>

record compile_info =
  ci_fun :: "nat option"
  ci_script_nslots :: nat
  ci_nfixed :: nat

definition nslots :: "compile_info \<Rightarrow> nat" where
  "nslots ci = ci_script_nslots ci + CountArgSlots (ci_fun ci)"

definition firstArgSlot :: "compile_info \<Rightarrow> nat option" where
  "firstArgSlot ci = do { js_assert (ci_fun ci \<noteq> None); Some 2 }"

definition argSlot :: "compile_info \<Rightarrow> nat \<Rightarrow> nat option" where
  "argSlot ci i = do { f \<leftarrow> firstArgSlot ci; Some (f + i) }"

definition firstLocalSlot :: "compile_info \<Rightarrow> nat" where
  "firstLocalSlot ci = CountArgSlots (ci_fun ci)"

definition localSlot :: "compile_info \<Rightarrow> nat \<Rightarrow> nat" where
  "localSlot ci i = firstLocalSlot ci + i"

definition firstStackSlot :: "compile_info \<Rightarrow> nat" where
  "firstStackSlot ci = firstLocalSlot ci + ci_nfixed ci"

definition ninvoke :: "compile_info \<Rightarrow> nat" where
  "ninvoke ci = ci_nfixed ci + CountArgSlots (ci_fun ci)"

text \<open>
  Arguments, locals and the expression stack occupy consecutive, disjoint parts of the slots.
\<close>

lemma slot_layout:
  assumes "ci_fun ci = Some nargs" "i < nargs" "j < ci_nfixed ci"
  shows "argSlot ci i = Some (2 + i)" "2 + i < firstLocalSlot ci" "firstLocalSlot ci \<le> localSlot ci j"
    "localSlot ci j < firstStackSlot ci" "firstStackSlot ci = ninvoke ci"
  using assms by (auto simp: argSlot_def firstArgSlot_def firstLocalSlot_def localSlot_def
      firstStackSlot_def ninvoke_def CountArgSlots_def)

subsection \<open>Blocks and graphs\<close>

datatype block_kind = NORMAL | PENDING_LOOP_HEADER | LOOP_HEADER | SPLIT_EDGE

record mblock =
  bl_info :: compile_info
  bl_instructions :: "nat list"
  bl_predecessors :: "nat list"
  bl_phis :: "nat list"
  bl_slots :: "nat option list"
  bl_stackPosition :: nat
  bl_lastIns :: "nat option"
  bl_pc :: nat
  bl_id :: nat
  bl_start :: "nat option"
  bl_entryResumePoint :: "nat option"
  bl_successorWithPhis :: "nat option"
  bl_positionInPhiSuccessor :: nat
  bl_kind :: block_kind
  bl_loopDepth :: nat
  bl_mark :: bool
  bl_immediatelyDominated :: "nat list"
  bl_containedInLoop :: "nat list"
  bl_immediateDominator :: "nat option"
  bl_numDominated :: nat
  bl_loopHeader :: "nat option"

record mir_graph =
  g_nodes :: nodes
  g_blocks :: "nat \<Rightarrow> mblock"
  g_blockList :: "nat list"
  g_blockIdGen :: nat
  g_idGen :: nat
  g_succs :: "nat \<Rightarrow> nat list"
  g_nextNode :: nat
  g_nextBlock :: nat
  g_osrBlock :: "nat option"

definition updBlock :: "nat \<Rightarrow> (mblock \<Rightarrow> mblock) \<Rightarrow> mir_graph \<Rightarrow> mir_graph" where
  "updBlock b f g = g\<lparr>g_blocks := (g_blocks g)(b := f (g_blocks g b))\<rparr>"

definition updNodes :: "(nodes \<Rightarrow> nodes) \<Rightarrow> mir_graph \<Rightarrow> mir_graph" where
  "updNodes f g = g\<lparr>g_nodes := f (g_nodes g)\<rparr>"

definition liftNodes :: "(nodes \<Rightarrow> nodes option) \<Rightarrow> mir_graph \<Rightarrow> mir_graph option" where
  "liftNodes f g = do { h \<leftarrow> f (g_nodes g); Some (g\<lparr>g_nodes := h\<rparr>) }"

definition allocDefinitionId :: "nat \<Rightarrow> mir_graph \<Rightarrow> mir_graph" where
  "allocDefinitionId n g =
     (let g = g\<lparr>g_idGen := g_idGen g + 2\<rparr>
      in g\<lparr>g_nodes := (g_nodes g)(n := (g_nodes g n)\<lparr>mn_id := g_idGen g\<rparr>)\<rparr>)"

definition addBlock :: "nat \<Rightarrow> mir_graph \<Rightarrow> mir_graph" where
  "addBlock b g =
     (let g = updBlock b (\<lambda>x. x\<lparr>bl_id := g_blockIdGen g\<rparr>) g
      in g\<lparr>g_blockIdGen := g_blockIdGen g + 1, g_blockList := g_blockList g @ [b]\<rparr>)"

definition insertBlockAfter :: "nat \<Rightarrow> nat \<Rightarrow> mir_graph \<Rightarrow> mir_graph" where
  "insertBlockAfter at b g =
     (let g = updBlock b (\<lambda>x. x\<lparr>bl_id := g_blockIdGen g\<rparr>) g;
          bs = g_blockList g
      in g\<lparr>g_blockIdGen := g_blockIdGen g + 1,
           g_blockList := takeWhile (\<lambda>x. x \<noteq> at) bs @ at # b # tl (dropWhile (\<lambda>x. x \<noteq> at) bs)\<rparr>)"

definition removeBlock :: "nat \<Rightarrow> mir_graph \<Rightarrow> mir_graph" where
  "removeBlock b g = g\<lparr>g_blockList := remove1 b (g_blockList g)\<rparr>"

definition moveBlockToEnd :: "nat \<Rightarrow> mir_graph \<Rightarrow> mir_graph option" where
  "moveBlockToEnd b g = do {
     js_assert (bl_id (g_blocks g b) \<noteq> 0);
     Some (g\<lparr>g_blockList := remove1 b (g_blockList g) @ [b]\<rparr>) }"

definition unmarkBlocks :: "mir_graph \<Rightarrow> mir_graph" where
  "unmarkBlocks g = fold (\<lambda>b. updBlock b (\<lambda>x. x\<lparr>bl_mark := False\<rparr>)) (g_blockList g) g"

subsection \<open>The abstract stack\<close>

definition stackDepth :: "mir_graph \<Rightarrow> nat \<Rightarrow> nat" where
  "stackDepth g b = bl_stackPosition (g_blocks g b)"

text \<open>\<open>slots_[i]\<close>, with the bounds assertion of \<open>FixedList\<close>.\<close>

definition readSlotAt :: "mir_graph \<Rightarrow> nat \<Rightarrow> nat \<Rightarrow> nat option" where
  "readSlotAt g b i = do {
     js_assert (i < length (bl_slots (g_blocks g b)));
     bl_slots (g_blocks g b) ! i }"

definition getSlot :: "mir_graph \<Rightarrow> nat \<Rightarrow> nat \<Rightarrow> nat option" where
  "getSlot g b i = do { js_assert (i < stackDepth g b); readSlotAt g b i }"

definition setSlot :: "nat \<Rightarrow> nat \<Rightarrow> nat \<Rightarrow> mir_graph \<Rightarrow> mir_graph option" where
  "setSlot b i d g = do {
     js_assert (i < length (bl_slots (g_blocks g b)));
     Some (updBlock b (\<lambda>x. x\<lparr>bl_slots := (bl_slots x)[i := Some d]\<rparr>) g) }"

definition initSlot :: "nat \<Rightarrow> nat \<Rightarrow> nat \<Rightarrow> mir_graph \<Rightarrow> mir_graph option" where
  "initSlot b i d g = do {
     g \<leftarrow> setSlot b i d g;
     rp \<leftarrow> bl_entryResumePoint (g_blocks g b);
     Some (updNodes (initOperand rp i d) g) }"

definition setStackPosition :: "nat \<Rightarrow> nat \<Rightarrow> mir_graph \<Rightarrow> mir_graph" where
  "setStackPosition b p g = updBlock b (\<lambda>x. x\<lparr>bl_stackPosition := p\<rparr>) g"

text \<open>
  Depths are negative numbers, counted from the top of the stack; \<open>depth\<close> here is their absolute
  value, so the slot is \<open>stackPosition_ - depth\<close>. That sum of a \<open>uint32\<close> and a negative number
  wraps around below zero, so the assertions on it hold there too, and it is the access to the
  slots that is out of range.
\<close>

definition slotAtDepth :: "nat \<Rightarrow> nat \<Rightarrow> nat" where
  "slotAtDepth sp depth = (sp + 2 ^ 32 - depth) mod 2 ^ 32"

definition shimmySlots :: "nat \<Rightarrow> nat \<Rightarrow> mir_graph \<Rightarrow> mir_graph option" where
  "shimmySlots b depth g = do {
     let sp = stackDepth g b;
     js_assert (0 < depth);
     js_assert (slotAtDepth sp depth \<ge> firstStackSlot (bl_info (g_blocks g b)));
     g \<leftarrow> mfold (\<lambda>i g. do { d \<leftarrow> readSlotAt g b (slotAtDepth sp (i - 1)); setSlot b (slotAtDepth sp i) d g })
       (rev [2..<depth + 1]) g;
     Some (setStackPosition b (slotAtDepth sp 1) g) }"

definition setVariable :: "nat \<Rightarrow> nat \<Rightarrow> mir_graph \<Rightarrow> mir_graph option" where
  "setVariable b index g = do {
     js_assert (stackDepth g b > firstStackSlot (bl_info (g_blocks g b)));
     d \<leftarrow> readSlotAt g b (stackDepth g b - 1);
     setSlot b index d g }"

definition setArg :: "nat \<Rightarrow> nat \<Rightarrow> mir_graph \<Rightarrow> mir_graph option" where
  "setArg b arg g = do { s \<leftarrow> argSlot (bl_info (g_blocks g b)) arg; setVariable b s g }"

definition setLocal :: "nat \<Rightarrow> nat \<Rightarrow> mir_graph \<Rightarrow> mir_graph option" where
  "setLocal b local g = setVariable b (localSlot (bl_info (g_blocks g b)) local) g"

definition rewriteSlot :: "nat \<Rightarrow> nat \<Rightarrow> nat \<Rightarrow> mir_graph \<Rightarrow> mir_graph option" where
  "rewriteSlot b i d g = setSlot b i d g"

definition rewriteAtDepth :: "nat \<Rightarrow> nat \<Rightarrow> nat \<Rightarrow> mir_graph \<Rightarrow> mir_graph option" where
  "rewriteAtDepth b depth d g = do {
     js_assert (0 < depth);
     js_assert (slotAtDepth (stackDepth g b) depth \<ge> firstStackSlot (bl_info (g_blocks g b)));
     rewriteSlot b (slotAtDepth (stackDepth g b) depth) d g }"

definition push :: "nat \<Rightarrow> nat \<Rightarrow> mir_graph \<Rightarrow> mir_graph option" where
  "push b d g = do {
     let sp = stackDepth g b;
     js_assert (sp < nslots (bl_info (g_blocks g b)));
     g \<leftarrow> setSlot b sp d g;
     Some (setStackPosition b (sp + 1) g) }"

definition pushVariable :: "nat \<Rightarrow> nat \<Rightarrow> mir_graph \<Rightarrow> mir_graph option" where
  "pushVariable b slot g = do { d \<leftarrow> readSlotAt g b slot; push b d g }"

definition pushArg :: "nat \<Rightarrow> nat \<Rightarrow> mir_graph \<Rightarrow> mir_graph option" where
  "pushArg b arg g = do { s \<leftarrow> argSlot (bl_info (g_blocks g b)) arg; pushVariable b s g }"

definition pushLocal :: "nat \<Rightarrow> nat \<Rightarrow> mir_graph \<Rightarrow> mir_graph option" where
  "pushLocal b local g = pushVariable b (localSlot (bl_info (g_blocks g b)) local) g"

definition pop :: "nat \<Rightarrow> mir_graph \<Rightarrow> (nat \<times> mir_graph) option" where
  "pop b g = do {
     js_assert (stackDepth g b > firstStackSlot (bl_info (g_blocks g b)));
     let g = setStackPosition b (stackDepth g b - 1) g;
     d \<leftarrow> readSlotAt g b (stackDepth g b);
     Some (d, g) }"

definition swapAt :: "nat \<Rightarrow> nat \<Rightarrow> mir_graph \<Rightarrow> mir_graph option" where
  "swapAt b depth g = do {
     js_assert (depth + 1 \<le> stackDepth g b);
     let lhs = stackDepth g b - depth - 1;
     let rhs = stackDepth g b - depth;
     temp \<leftarrow> readSlotAt g b lhs;
     r \<leftarrow> readSlotAt g b rhs;
     g \<leftarrow> setSlot b lhs r g;
     setSlot b rhs temp g }"

fun pick :: "nat \<Rightarrow> nat \<Rightarrow> mir_graph \<Rightarrow> mir_graph option" where
  "pick b 0 g = Some g"
| "pick b (Suc depth) g = do { g \<leftarrow> swapAt b (Suc depth) g; pick b depth g }"

definition peek :: "nat \<Rightarrow> nat \<Rightarrow> mir_graph \<Rightarrow> nat option" where
  "peek b depth g = do {
     js_assert (0 < depth);
     js_assert (depth \<le> stackDepth g b \<and> stackDepth g b - depth \<ge> firstStackSlot (bl_info (g_blocks g b)));
     getSlot g b (stackDepth g b - depth) }"

subsection \<open>Instructions\<close>

definition setNodeBlock :: "nat \<Rightarrow> nat \<Rightarrow> mir_graph \<Rightarrow> mir_graph" where
  "setNodeBlock n b g = updNodes (\<lambda>h. h(n := (h n)\<lparr>mn_block := Some b\<rparr>)) g"

definition insert_before :: "nat \<Rightarrow> nat \<Rightarrow> nat list \<Rightarrow> nat list" where
  "insert_before at x xs = takeWhile (\<lambda>y. y \<noteq> at) xs @ x # dropWhile (\<lambda>y. y \<noteq> at) xs"

definition insert_after :: "nat \<Rightarrow> nat \<Rightarrow> nat list \<Rightarrow> nat list" where
  "insert_after at x xs = takeWhile (\<lambda>y. y \<noteq> at) xs @ at # x # tl (dropWhile (\<lambda>y. y \<noteq> at) xs)"

definition insertBefore :: "nat \<Rightarrow> nat \<Rightarrow> nat \<Rightarrow> mir_graph \<Rightarrow> mir_graph" where
  "insertBefore b at ins g =
     updBlock b (\<lambda>x. x\<lparr>bl_instructions := insert_before at ins (bl_instructions x)\<rparr>)
       (allocDefinitionId ins (setNodeBlock ins b g))"

definition insertAfter :: "nat \<Rightarrow> nat \<Rightarrow> nat \<Rightarrow> mir_graph \<Rightarrow> mir_graph" where
  "insertAfter b at ins g =
     updBlock b (\<lambda>x. x\<lparr>bl_instructions := insert_after at ins (bl_instructions x)\<rparr>)
       (allocDefinitionId ins (setNodeBlock ins b g))"

definition add :: "nat \<Rightarrow> nat \<Rightarrow> mir_graph \<Rightarrow> mir_graph option" where
  "add b ins g = do {
     js_assert (bl_lastIns (g_blocks g b) = None);
     Some (updBlock b (\<lambda>x. x\<lparr>bl_instructions := bl_instructions x @ [ins]\<rparr>)
             (allocDefinitionId ins (setNodeBlock ins b g))) }"

definition end_block :: "nat \<Rightarrow> nat \<Rightarrow> mir_graph \<Rightarrow> mir_graph option" where
  "end_block b ins g = do {
     g \<leftarrow> add b ins g;
     Some (updBlock b (\<lambda>x. x\<lparr>bl_lastIns := Some ins\<rparr>) g) }"

definition moveBefore :: "nat \<Rightarrow> nat \<Rightarrow> nat \<Rightarrow> mir_graph \<Rightarrow> mir_graph option" where
  "moveBefore b at ins g = do {
     js_assert (mn_block (g_nodes g ins) = Some b);
     let g = updBlock b (\<lambda>x. x\<lparr>bl_instructions := remove1 ins (bl_instructions x)\<rparr>) g;
     c \<leftarrow> mn_block (g_nodes g at);
     Some (insertBefore c at ins g) }"

definition discard :: "nat \<Rightarrow> nat \<Rightarrow> mir_graph \<Rightarrow> mir_graph option" where
  "discard b ins g = do {
     g \<leftarrow> liftNodes (releaseOperands ins) g;
     Some (updBlock b (\<lambda>x. x\<lparr>bl_instructions := remove1 ins (bl_instructions x)\<rparr>) g) }"

definition discardLastIns :: "nat \<Rightarrow> mir_graph \<Rightarrow> mir_graph option" where
  "discardLastIns b g = do {
     l \<leftarrow> bl_lastIns (g_blocks g b);
     g \<leftarrow> discard b l g;
     Some (updBlock b (\<lambda>x. x\<lparr>bl_lastIns := None\<rparr>) g) }"

text \<open>\<open>new MPhi\<close>: an address and a node with no inputs.\<close>

definition MPhi_New :: "nat \<Rightarrow> mir_graph \<Rightarrow> nat \<times> mir_graph" where
  "MPhi_New slot g =
     (g_nextNode g,
      g\<lparr>g_nextNode := g_nextNode g + 1,
        g_nodes := (g_nodes g)(g_nextNode g :=
          (blank_node Op_Phi 0)\<lparr>mn_slot := slot, mn_type := MIRType_Value\<rparr>)\<rparr>)"

definition addPhi :: "nat \<Rightarrow> nat \<Rightarrow> mir_graph \<Rightarrow> mir_graph" where
  "addPhi b phi g =
     allocDefinitionId phi (setNodeBlock phi b (updBlock b (\<lambda>x. x\<lparr>bl_phis := bl_phis x @ [phi]\<rparr>) g))"

definition setSuccessorWithPhis :: "nat option \<Rightarrow> nat \<Rightarrow> nat \<Rightarrow> mir_graph \<Rightarrow> mir_graph" where
  "setSuccessorWithPhis succ i b g =
     updBlock b (\<lambda>x. x\<lparr>bl_successorWithPhis := succ, bl_positionInPhiSuccessor := i\<rparr>) g"

definition discardPhi :: "nat \<Rightarrow> nat \<Rightarrow> mir_graph \<Rightarrow> mir_graph option" where
  "discardPhi b phi g = do {
     js_assert (bl_phis (g_blocks g b) \<noteq> []);
     g \<leftarrow> liftNodes (releaseOperands phi) g;
     let g = updBlock b (\<lambda>x. x\<lparr>bl_phis := remove1 phi (bl_phis x)\<rparr>) g;
     Some (if bl_phis (g_blocks g b) = []
           then fold (setSuccessorWithPhis None 0) (bl_predecessors (g_blocks g b)) g else g) }"

text \<open>\<open>new MResumePoint\<close> followed by \<open>init\<close>: as many empty operands as the block has slots in use.\<close>

definition MResumePoint_alloc :: "nat \<Rightarrow> nat \<Rightarrow> nat option \<Rightarrow> resume_mode \<Rightarrow> mir_graph \<Rightarrow> nat \<times> mir_graph" where
  "MResumePoint_alloc b pc caller mode g =
     (g_nextNode g,
      g\<lparr>g_nextNode := g_nextNode g + 1,
        g_nodes := (g_nodes g)(g_nextNode g :=
          (blank_node (Op_Other 0) (stackDepth g b))
            \<lparr>mn_kind := ResumePoint, mn_block := Some b, mn_pc := pc, mn_caller := caller, mn_mode := mode\<rparr>)\<rparr>)"

definition getArgument :: "mir_graph \<Rightarrow> nat \<Rightarrow> nat option" where
  "getArgument g n = getOperand (g_nodes g) n 0"

definition MResumePoint_inherit :: "nat \<Rightarrow> nat \<Rightarrow> mir_graph \<Rightarrow> mir_graph option" where
  "MResumePoint_inherit rp b g =
     mfold (\<lambda>i g. do {
         d \<leftarrow> getSlot g b i;
         d \<leftarrow> (if mn_op (g_nodes g d) = Op_PassArg then getArgument g d else Some d);
         Some (updNodes (initOperand rp i d) g) })
       [0..<numOperands (g_nodes g) rp] g"

definition MResumePoint_New :: "nat \<Rightarrow> nat \<Rightarrow> nat option \<Rightarrow> resume_mode \<Rightarrow> mir_graph \<Rightarrow> (nat \<times> mir_graph) option" where
  "MResumePoint_New b pc caller mode g = do {
     let (rp, g) = MResumePoint_alloc b pc caller mode g;
     g \<leftarrow> MResumePoint_inherit rp b g;
     Some (rp, g) }"

subsection \<open>Joining control flow\<close>

definition copySlots :: "nat \<Rightarrow> nat \<Rightarrow> mir_graph \<Rightarrow> mir_graph option" where
  "copySlots b src g = do {
     js_assert (stackDepth g b = stackDepth g src);
     mfold (\<lambda>i g. do {
         js_assert (i < length (bl_slots (g_blocks g src)) \<and> i < length (bl_slots (g_blocks g b)));
         Some (updBlock b (\<lambda>x. x\<lparr>bl_slots := (bl_slots x)[i := bl_slots (g_blocks g src) ! i]\<rparr>) g) })
       [0..<stackDepth g b] g }"

definition callerResumePoint :: "mir_graph \<Rightarrow> nat \<Rightarrow> nat option" where
  "callerResumePoint g b = do { rp \<leftarrow> bl_entryResumePoint (g_blocks g b); mn_caller (g_nodes g rp) }"

text \<open>
  \<open>inherit\<close>; \<open>entryDepth\<close> is the stack depth the bytecode analysis gives for the entry, used when
  there is no predecessor.
\<close>

definition inherit :: "nat \<Rightarrow> nat option \<Rightarrow> nat \<Rightarrow> mir_graph \<Rightarrow> mir_graph option" where
  "inherit b pred entryDepth g = do {
     let kind = bl_kind (g_blocks g b);
     g \<leftarrow> (case pred of
            Some p \<Rightarrow> do {
              let g = setStackPosition b (stackDepth g p) g;
              (if kind \<noteq> PENDING_LOOP_HEADER then copySlots b p g else Some g) }
          | None \<Rightarrow> Some (setStackPosition b (firstStackSlot (bl_info (g_blocks g b)) + entryDepth) g));
     js_assert (nslots (bl_info (g_blocks g b)) \<ge> stackDepth g b);
     let caller = (case pred of Some p \<Rightarrow> callerResumePoint g p | None \<Rightarrow> None);
     let (rp, g) = MResumePoint_alloc b (bl_pc (g_blocks g b)) caller ResumeAt g;
     let g = updBlock b (\<lambda>x. x\<lparr>bl_entryResumePoint := Some rp\<rparr>) g;
     (case pred of
        None \<Rightarrow> Some g
      | Some p \<Rightarrow> do {
          let g = updBlock b (\<lambda>x. x\<lparr>bl_predecessors := bl_predecessors x @ [p]\<rparr>) g;
          (if kind = PENDING_LOOP_HEADER
           then mfold (\<lambda>i g. do {
                  d \<leftarrow> getSlot g p i;
                  let (phi, g) = MPhi_New i g;
                  let g = updNodes (addInput phi d) g;
                  let g = addPhi b phi g;
                  g \<leftarrow> setSlot b i phi g;
                  Some (updNodes (initOperand rp i phi) g) }) [0..<stackDepth g b] g
           else mfold (\<lambda>i g. do {
                  d \<leftarrow> getSlot g b i;
                  Some (updNodes (initOperand rp i d) g) }) [0..<stackDepth g b] g) }) }"

definition MBasicBlock_alloc :: "compile_info \<Rightarrow> nat \<Rightarrow> block_kind \<Rightarrow> mir_graph \<Rightarrow> nat \<times> mir_graph" where
  "MBasicBlock_alloc info pc kind g =
     (g_nextBlock g,
      g\<lparr>g_nextBlock := g_nextBlock g + 1,
        g_blocks := (g_blocks g)(g_nextBlock g :=
          \<lparr>bl_info = info, bl_instructions = [], bl_predecessors = [], bl_phis = [],
           bl_slots = replicate (nslots info) None, bl_stackPosition = firstStackSlot info, bl_lastIns = None,
           bl_pc = pc, bl_id = 0, bl_start = None, bl_entryResumePoint = None, bl_successorWithPhis = None,
           bl_positionInPhiSuccessor = 0, bl_kind = kind, bl_loopDepth = 0, bl_mark = False,
           bl_immediatelyDominated = [], bl_containedInLoop = [], bl_immediateDominator = None,
           bl_numDominated = 0, bl_loopHeader = None\<rparr>)\<rparr>)"

definition MBasicBlock_New ::
  "compile_info \<Rightarrow> nat option \<Rightarrow> nat \<Rightarrow> nat \<Rightarrow> block_kind \<Rightarrow> mir_graph \<Rightarrow> (nat \<times> mir_graph) option" where
  "MBasicBlock_New info pred entryDepth pc kind g = do {
     let (b, g) = MBasicBlock_alloc info pc kind g;
     g \<leftarrow> inherit b pred entryDepth g;
     Some (b, g) }"

definition MBasicBlock_NewPendingLoopHeader :: "compile_info \<Rightarrow> nat \<Rightarrow> nat \<Rightarrow> mir_graph \<Rightarrow> (nat \<times> mir_graph) option" where
  "MBasicBlock_NewPendingLoopHeader info pred pc g =
     MBasicBlock_New info (Some pred) 0 pc PENDING_LOOP_HEADER g"

definition MBasicBlock_NewSplitEdge :: "compile_info \<Rightarrow> nat \<Rightarrow> mir_graph \<Rightarrow> (nat \<times> mir_graph) option" where
  "MBasicBlock_NewSplitEdge info pred g =
     MBasicBlock_New info (Some pred) 0 (bl_pc (g_blocks g pred)) SPLIT_EDGE g"

text \<open>\<open>addPredecessor\<close>, one slot at a time.\<close>

definition isOwnPhi :: "mir_graph \<Rightarrow> nat \<Rightarrow> nat \<Rightarrow> bool" where
  "isOwnPhi g b d \<longleftrightarrow> mn_op (g_nodes g d) = Op_Phi \<and> mn_block (g_nodes g d) = Some b"

definition placePhi :: "nat \<Rightarrow> nat \<Rightarrow> nat \<Rightarrow> mir_graph \<Rightarrow> (nat \<times> mir_graph) option" where
  "placePhi b i mine g = do {
     let (phi, g) = MPhi_New i g;
     let g = addPhi b phi g;
     g \<leftarrow> mfold (\<lambda>p g. do {
            s \<leftarrow> getSlot g p i;
            js_assert (s = mine);
            Some (updNodes (addInput phi mine) g) }) (bl_predecessors (g_blocks g b)) g;
     g \<leftarrow> setSlot b i phi g;
     rp \<leftarrow> bl_entryResumePoint (g_blocks g b);
     g \<leftarrow> liftNodes (replaceOperand rp i (Some phi)) g;
     Some (phi, g) }"

definition mergeSlot :: "nat \<Rightarrow> nat \<Rightarrow> nat \<Rightarrow> mir_graph \<Rightarrow> mir_graph option" where
  "mergeSlot b pred i g = do {
     mine \<leftarrow> getSlot g b i;
     other \<leftarrow> getSlot g pred i;
     if mine = other then Some g
     else do {
       (phi, g) \<leftarrow>
         (if isOwnPhi g b mine then do { js_assert (bl_predecessors (g_blocks g b) \<noteq> []); Some (mine, g) }
          else placePhi b i mine g);
       Some (updNodes (addInput phi other) g) } }"

definition addPredecessor :: "nat \<Rightarrow> nat \<Rightarrow> mir_graph \<Rightarrow> mir_graph option" where
  "addPredecessor b pred g = do {
     js_assert (bl_predecessors (g_blocks g b) \<noteq> []);
     js_assert (bl_lastIns (g_blocks g pred) \<noteq> None);
     js_assert (stackDepth g pred = stackDepth g b);
     g \<leftarrow> mfold (mergeSlot b pred) [0..<stackDepth g b] g;
     Some (updBlock b (\<lambda>x. x\<lparr>bl_predecessors := bl_predecessors x @ [pred]\<rparr>) g) }"

definition addPredecessorWithoutPhis :: "nat \<Rightarrow> nat \<Rightarrow> mir_graph \<Rightarrow> mir_graph option" where
  "addPredecessorWithoutPhis b pred g = do {
     js_assert (bl_lastIns (g_blocks g pred) \<noteq> None);
     Some (updBlock b (\<lambda>x. x\<lparr>bl_predecessors := bl_predecessors x @ [pred]\<rparr>) g) }"

definition backedgeSlot :: "nat \<Rightarrow> nat \<Rightarrow> nat \<Rightarrow> nat \<Rightarrow> mir_graph \<Rightarrow> mir_graph option" where
  "backedgeSlot b rp pred i g = do {
     entryDef \<leftarrow> getOperand (g_nodes g) rp i;
     js_assert (mn_op (g_nodes g entryDef) = Op_Phi);
     exitDef \<leftarrow> readSlotAt g pred i;
     js_assert (mn_block (g_nodes g entryDef) = Some b);
     exitDef \<leftarrow> (if entryDef = exitDef then getOperand (g_nodes g) entryDef 0 else Some exitDef);
     let g = updNodes (addInput entryDef exitDef) g;
     setSlot b i entryDef g }"

definition setBackedge :: "nat \<Rightarrow> nat \<Rightarrow> mir_graph \<Rightarrow> mir_graph option" where
  "setBackedge b pred g = do {
     js_assert (bl_lastIns (g_blocks g b) \<noteq> None);
     js_assert (bl_lastIns (g_blocks g pred) \<noteq> None);
     rp \<leftarrow> bl_entryResumePoint (g_blocks g b);
     js_assert (stackDepth g pred = numOperands (g_nodes g) rp);
     js_assert (bl_kind (g_blocks g b) = PENDING_LOOP_HEADER);
     g \<leftarrow> mfold (backedgeSlot b rp pred) [0..<stackDepth g pred] g;
     Some (updBlock b (\<lambda>x. x\<lparr>bl_kind := LOOP_HEADER, bl_predecessors := bl_predecessors x @ [pred]\<rparr>) g) }"

definition inheritPhis :: "nat \<Rightarrow> nat \<Rightarrow> mir_graph \<Rightarrow> mir_graph option" where
  "inheritPhis b header g =
     mfold (\<lambda>phi g. do {
         js_assert (numOperands (g_nodes g) phi = 2);
         entryDef \<leftarrow> getOperand (g_nodes g) phi 0;
         exitDef \<leftarrow> getSlot g b (mn_slot (g_nodes g phi));
         if entryDef \<noteq> exitDef then Some g else setSlot b (mn_slot (g_nodes g phi)) phi g })
       (bl_phis (g_blocks g header)) g"

subsection \<open>Edges\<close>

definition numSuccessors :: "mir_graph \<Rightarrow> nat \<Rightarrow> nat option" where
  "numSuccessors g b = do { l \<leftarrow> bl_lastIns (g_blocks g b); Some (length (g_succs g l)) }"

definition getSuccessor :: "mir_graph \<Rightarrow> nat \<Rightarrow> nat \<Rightarrow> nat option" where
  "getSuccessor g b i = do {
     l \<leftarrow> bl_lastIns (g_blocks g b);
     js_assert (i < length (g_succs g l));
     Some (g_succs g l ! i) }"

definition replaceSuccessor :: "nat \<Rightarrow> nat \<Rightarrow> nat \<Rightarrow> mir_graph \<Rightarrow> mir_graph option" where
  "replaceSuccessor b pos split g = do {
     l \<leftarrow> bl_lastIns (g_blocks g b);
     js_assert (pos < length (g_succs g l));
     js_assert (bl_successorWithPhis (g_blocks g b) = None);
     Some (g\<lparr>g_succs := (g_succs g)(l := (g_succs g l)[pos := split])\<rparr>) }"

fun replacePred_list :: "nat \<Rightarrow> nat \<Rightarrow> nat list \<Rightarrow> nat list option" where
  "replacePred_list old split [] = None"
| "replacePred_list old split (p # ps) =
     (if p = old then do { js_assert (old \<notin> set ps \<and> split \<noteq> old); Some (split # ps) }
      else do { ps \<leftarrow> replacePred_list old split ps; Some (p # ps) })"

definition replacePredecessor :: "nat \<Rightarrow> nat \<Rightarrow> nat \<Rightarrow> mir_graph \<Rightarrow> mir_graph option" where
  "replacePredecessor b old split g = do {
     ps \<leftarrow> replacePred_list old split (bl_predecessors (g_blocks g b));
     Some (updBlock b (\<lambda>x. x\<lparr>bl_predecessors := ps\<rparr>) g) }"

definition isLoopHeader :: "mir_graph \<Rightarrow> nat \<Rightarrow> bool" where
  "isLoopHeader g b \<longleftrightarrow> bl_kind (g_blocks g b) = LOOP_HEADER"

definition backedge :: "mir_graph \<Rightarrow> nat \<Rightarrow> nat option" where
  "backedge g b = do {
     js_assert (isLoopHeader g b);
     js_assert (length (bl_predecessors (g_blocks g b)) \<in> {1, 2});
     Some (last (bl_predecessors (g_blocks g b))) }"

definition loopPredecessor :: "mir_graph \<Rightarrow> nat \<Rightarrow> nat option" where
  "loopPredecessor g b = do { js_assert (isLoopHeader g b); Some (hd (bl_predecessors (g_blocks g b))) }"

definition isLoopBackedge :: "mir_graph \<Rightarrow> nat \<Rightarrow> bool option" where
  "isLoopBackedge g b = do {
     n \<leftarrow> numSuccessors g b;
     if n = 0 then Some False
     else do {
       s \<leftarrow> getSuccessor g b (n - 1);
       if \<not> isLoopHeader g s then Some False else do { e \<leftarrow> backedge g s; Some (e = b) } } }"

datatype branch_direction = FALSE_BRANCH | TRUE_BRANCH

text \<open>\<open>ifTrue\<close> and \<open>ifFalse\<close> are the successors 0 and 1 of an \<open>MTest\<close>.\<close>

definition immediateDominatorBranch :: "mir_graph \<Rightarrow> nat \<Rightarrow> (nat \<times> branch_direction) option option" where
  "immediateDominatorBranch g b =
     (if length (bl_predecessors (g_blocks g b)) \<noteq> 1 then Some None
      else if bl_immediateDominator (g_blocks g b) \<noteq> Some (hd (bl_predecessors (g_blocks g b))) then Some None
      else do {
        l \<leftarrow> bl_lastIns (g_blocks g (hd (bl_predecessors (g_blocks g b))));
        if mn_op (g_nodes g l) = Op_Test then do {
          let t = g_succs g l ! 0;
          let f = g_succs g l ! 1;
          js_assert (t = b \<or> f = b);
          if t = b \<and> f = b then Some None
          else Some (Some (l, if t = b then TRUE_BRANCH else FALSE_BRANCH)) }
        else Some None })"

subsection \<open>Several inputs of a phi\<close>

definition links_in_range :: "(nat \<times> nat) set \<Rightarrow> nodes \<Rightarrow> bool" where
  "links_in_range L h \<longleftrightarrow> (\<forall>(n, i)\<in>L. i < numOperands h n)"

lemma addInput_operands:
  "mn_operands (addInput phi d h m) = (if m = phi then mn_operands (h m) @ [Some d] else mn_operands (h m))"
  by (simp add: addInput_def addUse_def Let_def)

lemma addInput_links:
  assumes "use_inv L h" "links_in_range L h"
  shows "use_inv (insert (phi, numOperands h phi) L) (addInput phi d h) \<and>
    links_in_range (insert (phi, numOperands h phi) L) (addInput phi d h)"
proof
  have "(phi, numOperands h phi) \<notin> L" using assms(2) by (auto simp: links_in_range_def)
  then show "use_inv (insert (phi, numOperands h phi) L) (addInput phi d h)" by (rule use_inv_addInput[OF assms(1)])
  show "links_in_range (insert (phi, numOperands h phi) L) (addInput phi d h)"
    using assms(2) by (auto simp: links_in_range_def numOperands_addInput less_Suc_eq)
qed

lemma addInputs_spec:
  assumes "use_inv L h" "links_in_range L h"
  shows "\<exists>L'. use_inv L' (fold (addInput phi) ds h) \<and> links_in_range L' (fold (addInput phi) ds h) \<and>
    L \<subseteq> L' \<and> L' \<subseteq> L \<union> {phi} \<times> UNIV \<and> same_nodes h (fold (addInput phi) ds h) \<and>
    (\<forall>m. mn_operands (fold (addInput phi) ds h m) =
      (if m = phi then mn_operands (h m) @ map Some ds else mn_operands (h m)))"
  using assms
proof (induction ds arbitrary: L h)
  case Nil
  then show ?case by (auto simp: same_nodes_refl)
next
  case (Cons d ds)
  let ?L = "insert (phi, numOperands h phi) L" and ?h = "addInput phi d h"
  obtain L' where "use_inv L' (fold (addInput phi) ds ?h)" "links_in_range L' (fold (addInput phi) ds ?h)"
    "?L \<subseteq> L'" "L' \<subseteq> ?L \<union> {phi} \<times> UNIV" "same_nodes ?h (fold (addInput phi) ds ?h)"
    "\<forall>m. mn_operands (fold (addInput phi) ds ?h m) =
      (if m = phi then mn_operands (?h m) @ map Some ds else mn_operands (?h m))"
    using Cons.IH[of ?L ?h] addInput_links[OF Cons.prems] by blast
  then show ?case
    using same_nodes_trans[OF same_nodes_ops(4)]
    by (intro exI[of _ L']) (auto simp: addInput_operands)
qed

subsection \<open>The invariant of a join\<close>

text \<open>
  What a slot of the block stands for, given the values \<open>vs\<close> that the predecessors have in that
  slot: a phi of the block for this slot whose inputs are \<open>vs\<close> in order, or one definition that
  all predecessors agree on.
\<close>

definition slot_sound :: "mir_graph \<Rightarrow> nat \<Rightarrow> nat \<Rightarrow> nat list \<Rightarrow> bool" where
  "slot_sound g b k vs \<longleftrightarrow> (\<exists>m. getSlot g b k = Some m \<and> m < g_nextNode g \<and>
     (if isOwnPhi g b m
      then mn_slot (g_nodes g m) = k \<and> mn_operands (g_nodes g m) = map Some vs
      else \<forall>v\<in>set vs. v = m))"

definition join_inv :: "(nat \<times> nat) set \<Rightarrow> nat \<Rightarrow> nat \<Rightarrow> (nat \<Rightarrow> nat list) \<Rightarrow> mir_graph \<Rightarrow> bool" where
  "join_inv L b rp W g \<longleftrightarrow>
     use_inv L (g_nodes g) \<and> links_in_range L (g_nodes g) \<and> (\<forall>(n, i)\<in>L. n < g_nextNode g) \<and>
     bl_entryResumePoint (g_blocks g b) = Some rp \<and> rp < g_nextNode g \<and> mn_op (g_nodes g rp) \<noteq> Op_Phi \<and>
     (\<forall>d\<ge>g_nextNode g. mn_uses (g_nodes g d) = []) \<and>
     stackDepth g b \<le> length (bl_slots (g_blocks g b)) \<and>
     (\<forall>k < stackDepth g b. slot_sound g b k (W k) \<and> (rp, k) \<in> L \<and>
        getOperand (g_nodes g) rp k = getSlot g b k)"

lemma join_invD:
  assumes "join_inv L b rp W g"
  shows "use_inv L (g_nodes g)" "links_in_range L (g_nodes g)" "(n, i) \<in> L \<Longrightarrow> n < g_nextNode g"
    "bl_entryResumePoint (g_blocks g b) = Some rp" "rp < g_nextNode g" "mn_op (g_nodes g rp) \<noteq> Op_Phi"
    "d \<ge> g_nextNode g \<Longrightarrow> mn_uses (g_nodes g d) = []" "stackDepth g b \<le> length (bl_slots (g_blocks g b))"
    "k < stackDepth g b \<Longrightarrow> slot_sound g b k (W k)" "k < stackDepth g b \<Longrightarrow> (rp, k) \<in> L"
    "k < stackDepth g b \<Longrightarrow> getOperand (g_nodes g) rp k = getSlot g b k"
  using assms by (auto simp: join_inv_def)

text \<open>Reads that the updates do not disturb.\<close>

lemma upd_simps [simp]:
  "g_nodes (updBlock b f g) = g_nodes g" "g_nextNode (updBlock b f g) = g_nextNode g"
  "g_blocks (updNodes fn g) = g_blocks g" "g_nextNode (updNodes fn g) = g_nextNode g"
  "g_nodes (updNodes fn g) = fn (g_nodes g)"
  "g_blocks (updBlock b f g) c = (if c = b then f (g_blocks g b) else g_blocks g c)"
  by (simp_all add: updBlock_def updNodes_def)

lemma slots_updNodes [simp]:
  "getSlot (updNodes f g) b k = getSlot g b k" "stackDepth (updNodes f g) b = stackDepth g b"
  by (simp_all add: getSlot_def readSlotAt_def stackDepth_def)

lemma slots_nodes_update [simp]:
  "getSlot (g\<lparr>g_nodes := h\<rparr>) b k = getSlot g b k" "stackDepth (g\<lparr>g_nodes := h\<rparr>) b = stackDepth g b"
  by (simp_all add: getSlot_def readSlotAt_def stackDepth_def)

lemma setSlot_ok:
  "i < length (bl_slots (g_blocks g b)) \<Longrightarrow>
     setSlot b i d g = Some (updBlock b (\<lambda>x. x\<lparr>bl_slots := (bl_slots x)[i := Some d]\<rparr>) g)"
  by (simp add: setSlot_def)

lemma getSlot_updated:
  assumes "i < length (bl_slots (g_blocks g b))"
  shows "getSlot (updBlock b (\<lambda>x. x\<lparr>bl_slots := (bl_slots x)[i := Some d]\<rparr>) g) c k =
    (if c = b \<and> k = i \<and> i < stackDepth g b then Some d else getSlot g c k)"
  using assms by (auto simp: getSlot_def readSlotAt_def stackDepth_def)

text \<open>The first case: the phi is there already.\<close>

lemma merge_own_phi:
  assumes J: "join_inv L b rp W g" and i: "i < stackDepth g b" and m: "getSlot g b i = Some m" "isOwnPhi g b m"
    and oth: "oth < g_nextNode g"
  shows "join_inv (insert (m, numOperands (g_nodes g) m) L) b rp (W(i := W i @ [oth])) (updNodes (addInput m oth) g)"
proof -
  let ?g = "updNodes (addInput m oth) g" and ?L = "insert (m, numOperands (g_nodes g) m) L"
  note D = join_invD[OF J]
  have sm: "m < g_nextNode g" "mn_slot (g_nodes g m) = i" "mn_operands (g_nodes g m) = map Some (W i)"
    using D(9)[OF i] m by (auto simp: slot_sound_def)
  have mr: "m \<noteq> rp" using m(2) D(6) by (auto simp: isOwnPhi_def)
  note fld = same_nodes_fields[OF same_nodes_ops(4)]
  have own: "isOwnPhi ?g b x = isOwnPhi g b x" for x by (simp add: isOwnPhi_def fld)
  have sound: "slot_sound ?g b k ((W(i := W i @ [oth])) k)" if k: "k < stackDepth g b" for k
  proof (cases "k = i")
    case True
    then show ?thesis using m sm by (auto simp: slot_sound_def own fld addInput_operands)
  next
    case False
    obtain x where x: "getSlot g b k = Some x" "x < g_nextNode g"
      "if isOwnPhi g b x then mn_slot (g_nodes g x) = k \<and> mn_operands (g_nodes g x) = map Some (W k) else \<forall>v\<in>set (W k). v = x"
      using D(9)[OF k] by (auto simp: slot_sound_def)
    have "x \<noteq> m" if "isOwnPhi g b x" using x(3) that False sm(2) by auto
    with x False show ?thesis by (auto simp: slot_sound_def own fld addInput_operands)
  qed
  have rp: "getOperand (addInput m oth (g_nodes g)) rp k = getOperand (g_nodes g) rp k" for k
    using mr by (simp add: getOperand_def numOperands_addInput addInput_operands)
  have uses: "mn_uses (addInput m oth (g_nodes g) d) = []" if "d \<ge> g_nextNode g" for d
    using D(7)[OF that] that oth by (auto simp: addInput_def addUse_def Let_def)
  show ?thesis
    unfolding join_inv_def
    using addInput_links[OF D(1,2), of m oth] D(3-6,8,10,11) sm(1) sound rp uses
    by (auto simp: fld stackDepth_def)
qed

text \<open>The second case: a new phi, primed with one input per predecessor.\<close>

lemma use_inv_new_node:
  assumes "use_inv L h" "links_in_range L h" "\<forall>(n, i)\<in>L. n \<noteq> x" "mn_uses (h x) = []" "mn_uses P = []"
  shows "use_inv L (h(x := P))" "links_in_range L (h(x := P))"
proof -
  have op: "getOperand (h(x := P)) n i = getOperand h n i" if "(n, i) \<in> L" for n i
    using assms(3) that by (auto simp: getOperand_def numOperands_def)
  show "use_inv L (h(x := P))"
    unfolding use_inv_def
  proof (intro allI)
    fix d n i
    show "count_list (mn_uses ((h(x := P)) d)) (n, i) =
      (if (n, i) \<in> L \<and> getOperand (h(x := P)) n i = Some d then 1 else 0)"
      using use_invD[OF assms(1), of d n i] assms(4,5) op[of n i] by auto
  qed
  show "links_in_range L (h(x := P))"
    using assms(2,3) by (auto simp: links_in_range_def numOperands_def)
qed

definition new_phi_node :: "nat \<Rightarrow> nat \<Rightarrow> nat \<Rightarrow> mnode" where
  "new_phi_node b slot ident =
     (blank_node Op_Phi 0)\<lparr>mn_slot := slot, mn_type := MIRType_Value, mn_block := Some b, mn_id := ident\<rparr>"

lemma addPhi_new:
  "addPhi b (g_nextNode g) (snd (MPhi_New i g)) =
     updBlock b (\<lambda>x. x\<lparr>bl_phis := bl_phis x @ [g_nextNode g]\<rparr>)
       (g\<lparr>g_nextNode := g_nextNode g + 1, g_idGen := g_idGen g + 2,
          g_nodes := (g_nodes g)(g_nextNode g := new_phi_node b i (g_idGen g + 2))\<rparr>)"
  by (simp add: addPhi_def MPhi_New_def allocDefinitionId_def setNodeBlock_def updBlock_def updNodes_def
      new_phi_node_def Let_def)

lemma prime_inputs:
  assumes "\<forall>p\<in>set ps. getSlot g p i = Some m"
  shows "mfold (\<lambda>p g. do {
           s \<leftarrow> getSlot g p i;
           js_assert (s = m);
           Some (updNodes (addInput phi m) g) }) ps g =
    Some (updNodes (fold (addInput phi) (replicate (length ps) m)) g)"
  using assms
proof (induction ps arbitrary: g)
  case Nil
  then show ?case by (simp add: updNodes_def)
next
  case (Cons p ps)
  have "\<forall>p\<in>set ps. getSlot (updNodes (addInput phi m) g) p i = Some m" using Cons.prems by simp
  from Cons.IH[OF this] Cons.prems show ?case by (simp add: updNodes_def)
qed

text \<open>What merging one slot leaves alone.\<close>

definition block_frame :: "nat \<Rightarrow> mir_graph \<Rightarrow> mir_graph \<Rightarrow> bool" where
  "block_frame b g g' \<longleftrightarrow>
     (\<forall>c. c \<noteq> b \<longrightarrow> g_blocks g' c = g_blocks g c) \<and>
     bl_predecessors (g_blocks g' b) = bl_predecessors (g_blocks g b) \<and> stackDepth g' b = stackDepth g b \<and>
     g_nextNode g \<le> g_nextNode g' \<and> (\<forall>x<g_nextNode g. isOwnPhi g' b x = isOwnPhi g b x)"

lemma block_frame_trans: "block_frame b g g1 \<Longrightarrow> block_frame b g1 g2 \<Longrightarrow> block_frame b g g2"
  by (auto simp: block_frame_def)

lemma block_frame_getSlot: "block_frame b g g' \<Longrightarrow> c \<noteq> b \<Longrightarrow> getSlot g' c k = getSlot g c k"
  by (simp add: block_frame_def getSlot_def readSlotAt_def stackDepth_def)

lemma uses_fold_addInput: "d \<notin> set ds \<Longrightarrow> mn_uses (fold (addInput phi) ds h d) = mn_uses (h d)"
  by (induction ds arbitrary: h) (auto simp: uses_addInput)

lemma placePhi_run:
  assumes preds: "\<forall>p\<in>set (bl_predecessors (g_blocks g b)). p \<noteq> b \<and> getSlot g p i = Some m"
    and il: "i < length (bl_slots (g_blocks g b))" and rp: "bl_entryResumePoint (g_blocks g b) = Some rp"
    and phi: "phi = g_nextNode g"
    and h3: "replaceOperand rp i (Some phi)
      (fold (addInput phi) (replicate (length (bl_predecessors (g_blocks g b))) m)
        ((g_nodes g)(phi := new_phi_node b i (g_idGen g + 2)))) = Some h3"
  shows "placePhi b i m g = Some (phi,
    g\<lparr>g_nextNode := phi + 1, g_idGen := g_idGen g + 2, g_nodes := h3,
      g_blocks := (g_blocks g)(b := (g_blocks g b)\<lparr>bl_phis := bl_phis (g_blocks g b) @ [phi],
        bl_slots := (bl_slots (g_blocks g b))[i := Some phi]\<rparr>)\<rparr>)"
proof -
  let ?g2 = "updBlock b (\<lambda>x. x\<lparr>bl_phis := bl_phis x @ [phi]\<rparr>)
       (g\<lparr>g_nextNode := phi + 1, g_idGen := g_idGen g + 2,
          g_nodes := (g_nodes g)(phi := new_phi_node b i (g_idGen g + 2))\<rparr>)"
  let ?ps = "bl_predecessors (g_blocks g b)"
  have "\<forall>p\<in>set ?ps. getSlot ?g2 p i = Some m"
    using preds by (auto simp: getSlot_def readSlotAt_def stackDepth_def)
  note prime = prime_inputs[OF this, of phi]
  obtain g1 where new: "MPhi_New i g = (phi, g1)" by (simp add: MPhi_New_def phi)
  then have g1: "addPhi b phi g1 = ?g2" using addPhi_new[of b g i, folded phi] by simp
  have ps: "bl_predecessors (g_blocks ?g2 b) = ?ps" by simp
  show ?thesis
    unfolding placePhi_def new Let_def prod.case g1 ps prime
    using il rp h3 by (simp add: setSlot_ok liftNodes_def updBlock_def updNodes_def)
qed

lemma merge_new_phi:
  assumes J: "join_inv L b rp W g" and i: "i < stackDepth g b" and m: "getSlot g b i = Some m" "\<not> isOwnPhi g b m"
    and oth: "getSlot g pred i = Some oth" "oth \<noteq> m" "oth < g_nextNode g"
    and preds: "\<forall>p\<in>set (bl_predecessors (g_blocks g b)). p \<noteq> b \<and> getSlot g p i = Some m"
    and W: "W i = replicate (length (bl_predecessors (g_blocks g b))) m"
  shows "\<exists>L' g'. mergeSlot b pred i g = Some g' \<and> join_inv L' b rp (W(i := W i @ [oth])) g' \<and> block_frame b g g'"
proof -
  note D = join_invD[OF J]
  define phi where "phi = g_nextNode g"
  define ps where "ps = bl_predecessors (g_blocks g b)"
  define P where "P = new_phi_node b i (g_idGen g + 2)"
  let ?h1 = "(g_nodes g)(phi := P)"
  let ?h2 = "fold (addInput phi) (W i) ?h1"
  have mlt: "m < phi" using D(9)[OF i] m by (auto simp: slot_sound_def phi_def)
  have rlt: "rp < phi" using D(5) by (simp add: phi_def)
  have new: "use_inv L ?h1" "links_in_range L ?h1"
    using use_inv_new_node[OF D(1,2), of phi P] D(3,7) by (force simp: phi_def P_def new_phi_node_def blank_node_def)+
  obtain L2 where h2: "use_inv L2 ?h2" "links_in_range L2 ?h2" "L \<subseteq> L2" "L2 \<subseteq> L \<union> {phi} \<times> UNIV" "same_nodes ?h1 ?h2"
    "\<forall>x. mn_operands (?h2 x) = (if x = phi then mn_operands (?h1 x) @ map Some (W i) else mn_operands (?h1 x))"
    using addInputs_spec[OF new, of phi "W i"] by blast
  have rpop: "getOperand ?h2 rp i = Some m"
    using D(11)[OF i] m(1) rlt h2(6) by (simp add: getOperand_def numOperands_def split: if_splits)
  have rpL: "(rp, i) \<in> L2" using D(10)[OF i] h2(3) by blast
  obtain h3 where h3: "replaceOperand rp i (Some phi) ?h2 = Some h3" "use_inv L2 h3"
    "\<forall>x j. getOperand h3 x j = (if x = rp \<and> j = i then Some phi else getOperand ?h2 x j)"
    using replaceOperand_spec[OF h2(1) rpL rpop] by blast
  have n3: "numOperands h3 x = numOperands ?h2 x" for x by (rule numOperands_replaceOperand[OF h3(1)])
  have l3: "links_in_range L2 h3" using h2(2) n3 by (simp add: links_in_range_def)
  let ?h4 = "addInput phi oth h3" and ?L4 = "insert (phi, numOperands h3 phi) L2"
  have l4: "use_inv ?L4 ?h4" "links_in_range ?L4 ?h4" using addInput_links[OF h3(2) l3, of phi oth] by auto
  have s4: "same_nodes ?h1 ?h4"
    by (rule same_nodes_trans[OF same_nodes_trans[OF h2(5) same_nodes_replaceOperand[OF h3(1)]] same_nodes_ops(4)])
  note f4 = same_nodes_fields[OF s4]
  let ?blk = "(g_blocks g b)\<lparr>bl_phis := bl_phis (g_blocks g b) @ [phi], bl_slots := (bl_slots (g_blocks g b))[i := Some phi]\<rparr>"
  let ?g = "g\<lparr>g_nextNode := phi + 1, g_idGen := g_idGen g + 2, g_nodes := ?h4, g_blocks := (g_blocks g)(b := ?blk)\<rparr>"
  have il: "i < length (bl_slots (g_blocks g b))" using i D(8) by simp
  have run: "mergeSlot b pred i g = Some ?g"
    using m oth(1,2) placePhi_run[OF preds il D(4) phi_def h3(1)[unfolded W P_def]]
    by (simp add: mergeSlot_def updNodes_def)
  have op3: "mn_operands (h3 x) = mn_operands (?h2 x)" if "x \<noteq> rp" for x
    using that h3(3) n3 operands_eqI[of h3 x ?h2 x] by simp
  have op4: "mn_operands (?h4 x) = (if x = phi then map Some (W i @ [oth]) else mn_operands (g_nodes g x))" if "x \<noteq> rp" for x
    using op3[OF that] h2(6) by (auto simp: addInput_operands P_def new_phi_node_def blank_node_def)
  have own: "isOwnPhi ?g b x = (x = phi \<or> isOwnPhi g b x)" for x
    by (auto simp: isOwnPhi_def f4 P_def new_phi_node_def blank_node_def)
  have slot: "getSlot ?g b k = (if k = i then Some phi else getSlot g b k)" for k
    using i il by (auto simp: getSlot_def readSlotAt_def stackDepth_def)
  have sd: "stackDepth ?g b = stackDepth g b" by (simp add: stackDepth_def)
  have sound: "slot_sound ?g b k ((W(i := W i @ [oth])) k)" if k: "k < stackDepth g b" for k
  proof (cases "k = i")
    case True
    have "mn_slot (?h4 phi) = i" by (simp add: f4 P_def new_phi_node_def)
    moreover have "phi \<noteq> rp" using rlt by simp
    ultimately show ?thesis using True slot own op4 by (simp add: slot_sound_def)
  next
    case False
    obtain x where x: "getSlot g b k = Some x" "x < g_nextNode g"
      "if isOwnPhi g b x then mn_slot (g_nodes g x) = k \<and> mn_operands (g_nodes g x) = map Some (W k) else \<forall>v\<in>set (W k). v = x"
      using D(9)[OF k] by (auto simp: slot_sound_def)
    have xp: "x \<noteq> phi" using x(2) by (simp add: phi_def)
    have xr: "x \<noteq> rp" if "isOwnPhi g b x" using that D(6) by (auto simp: isOwnPhi_def)
    have xs: "mn_slot (?h4 x) = mn_slot (g_nodes g x)" using xp by (simp add: f4)
    show ?thesis using x False slot own op4 xp xr xs by (auto simp: slot_sound_def phi_def)
  qed
  have rpk: "getOperand ?h4 rp k = getSlot ?g b k" if k: "k < stackDepth g b" for k
  proof -
    have "getOperand ?h4 rp k = getOperand h3 rp k"
      using rlt by (simp add: getOperand_def numOperands_addInput addInput_operands)
    also have "\<dots> = (if k = i then Some phi else getOperand (g_nodes g) rp k)"
      using h3(3) h2(6) rlt by (simp add: getOperand_def numOperands_def)
    finally show ?thesis using slot D(11)[OF k] by simp
  qed
  have uses: "mn_uses (?h4 d) = []" if "d \<ge> phi + 1" for d
  proof -
    have "d \<noteq> oth" "d \<noteq> m" "d \<noteq> phi" using that oth(3) mlt by (auto simp: phi_def)
    moreover have "mn_uses (?h2 d) = mn_uses (?h1 d)"
      using uses_fold_addInput[of d "W i" phi] \<open>d \<noteq> m\<close> W by simp
    ultimately show ?thesis
      using uses_replaceOperand_other[OF h3(1) rpop _ _ h2(1) rpL, of d] D(7)[of d] that
      by (simp add: uses_addInput phi_def)
  qed
  have "join_inv ?L4 b rp (W(i := W i @ [oth])) ?g"
    unfolding join_inv_def
  proof (intro conjI)
    show "\<forall>(n, j)\<in>?L4. n < g_nextNode ?g" using D(3) h2(4) by (force simp: phi_def)
    show "mn_op (g_nodes ?g rp) \<noteq> Op_Phi" using D(6) rlt by (simp add: f4)
    show "\<forall>k < stackDepth ?g b. slot_sound ?g b k ((W(i := W i @ [oth])) k) \<and> (rp, k) \<in> ?L4 \<and>
        getOperand (g_nodes ?g) rp k = getSlot ?g b k"
      unfolding sd using sound rpk D(10) h2(3) by auto
    show "stackDepth ?g b \<le> length (bl_slots (g_blocks ?g b))" using D(8) sd by simp
    show "\<forall>d\<ge>g_nextNode ?g. mn_uses (g_nodes ?g d) = []" using uses by simp
  qed (use l4 rlt D(4) in simp_all)
  moreover have "block_frame b g ?g"
    using own sd by (auto simp: block_frame_def phi_def)
  ultimately show ?thesis using run by blast
qed

lemma list_all2_left: "list_all2 P xs ys \<Longrightarrow> x \<in> set xs \<Longrightarrow> \<exists>y\<in>set ys. P x y"
  by (induction rule: list_all2_induct) auto

lemma mergeSlot_spec:
  assumes J: "join_inv L b rp W g" and i: "i < stackDepth g b"
    and oth: "getSlot g pred i = Some oth" "oth < g_nextNode g" "\<not> isOwnPhi g b oth"
    and preds: "b \<notin> set (bl_predecessors (g_blocks g b))" "bl_predecessors (g_blocks g b) \<noteq> []"
      "list_all2 (\<lambda>p v. getSlot g p i = Some v) (bl_predecessors (g_blocks g b)) (W i)"
  shows "\<exists>L' g'. mergeSlot b pred i g = Some g' \<and> join_inv L' b rp (W(i := W i @ [oth])) g' \<and> block_frame b g g'"
proof -
  obtain m where m: "getSlot g b i = Some m"
    "if isOwnPhi g b m then mn_slot (g_nodes g m) = i \<and> mn_operands (g_nodes g m) = map Some (W i) else \<forall>v\<in>set (W i). v = m"
    using join_invD(9)[OF J i] by (auto simp: slot_sound_def)
  consider (same) "m = oth" | (own) "m \<noteq> oth" "isOwnPhi g b m" | (new) "m \<noteq> oth" "\<not> isOwnPhi g b m" by blast
  then show ?thesis
  proof cases
    case same
    have "slot_sound g b i (W i @ [oth])" using m same oth join_invD(9)[OF J i] by (auto simp: slot_sound_def)
    then have "join_inv L b rp (W(i := W i @ [oth])) g" using J by (auto simp: join_inv_def)
    moreover have "mergeSlot b pred i g = Some g" using m same oth by (simp add: mergeSlot_def)
    ultimately show ?thesis by (auto simp: block_frame_def)
  next
    case own
    have "mergeSlot b pred i g = Some (updNodes (addInput m oth) g)"
      using m own oth preds(2) by (simp add: mergeSlot_def)
    moreover have "block_frame b g (updNodes (addInput m oth) g)"
      by (simp add: block_frame_def isOwnPhi_def same_nodes_fields[OF same_nodes_ops(4)])
    ultimately show ?thesis using merge_own_phi[OF J i m(1) own(2) oth(2)] by blast
  next
    case new
    have "\<forall>p\<in>set (bl_predecessors (g_blocks g b)). p \<noteq> b \<and> getSlot g p i = Some m"
    proof
      fix p assume p: "p \<in> set (bl_predecessors (g_blocks g b))"
      then obtain v where "v \<in> set (W i)" "getSlot g p i = Some v" using list_all2_left[OF preds(3)] by blast
      then show "p \<noteq> b \<and> getSlot g p i = Some m" using m(2) new(2) p preds(1) by auto
    qed
    moreover have "W i = replicate (length (bl_predecessors (g_blocks g b))) m"
      using m(2) new(2) list_all2_lengthD[OF preds(3)] by (simp add: replicate_eqI)
    ultimately show ?thesis using merge_new_phi[OF J i m(1) new(2) oth(1) _ oth(2)] new(1) by metis
  qed
qed

lemma mergeSlots_spec:
  assumes "join_inv L b rp V g" "pred \<noteq> b" "n \<le> stackDepth g b"
    "b \<notin> set (bl_predecessors (g_blocks g b))" "bl_predecessors (g_blocks g b) \<noteq> []"
    "\<forall>k < stackDepth g b. list_all2 (\<lambda>p v. getSlot g p k = Some v) (bl_predecessors (g_blocks g b)) (V k)"
    "\<forall>k < stackDepth g b. getSlot g pred k = Some (X k) \<and> X k < g_nextNode g \<and> \<not> isOwnPhi g b (X k)"
  shows "\<exists>L' g'. mfold (mergeSlot b pred) [0..<n] g = Some g' \<and>
    join_inv L' b rp (\<lambda>k. if k < n then V k @ [X k] else V k) g' \<and> block_frame b g g'"
  using assms(3)
proof (induction n)
  case 0
  then show ?case using assms(1) by (auto simp: block_frame_def)
next
  case (Suc n)
  obtain L1 g1 where g1: "mfold (mergeSlot b pred) [0..<n] g = Some g1"
    "join_inv L1 b rp (\<lambda>k. if k < n then V k @ [X k] else V k) g1" "block_frame b g g1"
    using Suc by auto
  let ?W = "\<lambda>k. if k < n then V k @ [X k] else V k"
  have n: "n < stackDepth g1 b" "n < stackDepth g b" using Suc.prems g1(3) by (auto simp: block_frame_def)
  have same: "getSlot g1 p k = getSlot g p k" if "p \<noteq> b" for p k using block_frame_getSlot[OF g1(3) that] .
  have p1: "bl_predecessors (g_blocks g1 b) = bl_predecessors (g_blocks g b)" using g1(3) by (simp add: block_frame_def)
  have la: "list_all2 (\<lambda>p v. getSlot g1 p n = Some v) (bl_predecessors (g_blocks g1 b)) (?W n)"
  proof -
    have "list_all2 (\<lambda>p v. getSlot g p n = Some v) (bl_predecessors (g_blocks g b)) (V n)" using assms(6) n(2) by blast
    then have "list_all2 (\<lambda>p v. getSlot g1 p n = Some v) (bl_predecessors (g_blocks g b)) (V n)"
    proof (rule list.rel_mono_strong)
      fix p v assume "p \<in> set (bl_predecessors (g_blocks g b))" "getSlot g p n = Some v"
      then show "getSlot g1 p n = Some v" using assms(4) same[of p n] by auto
    qed
    then show ?thesis by (simp add: p1)
  qed
  have o: "getSlot g1 pred n = Some (X n)" "X n < g_nextNode g1" "\<not> isOwnPhi g1 b (X n)"
    using assms(2,7) n(2) same g1(3) by (auto simp: block_frame_def)
  obtain L2 g2 where g2: "mergeSlot b pred n g1 = Some g2" "join_inv L2 b rp (?W(n := ?W n @ [X n])) g2" "block_frame b g1 g2"
    using mergeSlot_spec[OF g1(2) n(1) o _ _ la] assms(4,5) p1 by auto
  have "?W(n := ?W n @ [X n]) = (\<lambda>k. if k < Suc n then V k @ [X k] else V k)" by (auto simp: fun_eq_iff less_Suc_eq)
  with g2 have "join_inv L2 b rp (\<lambda>k. if k < Suc n then V k @ [X k] else V k) g2" by simp
  moreover have "mfold (mergeSlot b pred) [0..<Suc n] g = Some g2" using g1(1) g2(1) by (simp add: mfold_append)
  ultimately show ?case using block_frame_trans[OF g1(3) g2(3)] by blast
qed

text \<open>
  C23: joining one more predecessor keeps SSA form right. If every slot of the block is a phi of
  the block with one input per predecessor, in their order, or a definition they agree on, then
  \<open>addPredecessor\<close> fails no assertion and the same holds with the new predecessor at the end: a
  slot in which it differs is a phi whose last input is the new predecessor's definition. The use
  chains stay consistent and the entry resume point names the new phis.
\<close>

theorem addPredecessor_merges:
  assumes "join_inv L b rp V g" "pred \<noteq> b" "stackDepth g pred = stackDepth g b" "bl_lastIns (g_blocks g pred) \<noteq> None"
    "b \<notin> set (bl_predecessors (g_blocks g b))" "bl_predecessors (g_blocks g b) \<noteq> []"
    "\<forall>k < stackDepth g b. list_all2 (\<lambda>p v. getSlot g p k = Some v) (bl_predecessors (g_blocks g b)) (V k)"
    "\<forall>k < stackDepth g b. getSlot g pred k = Some (X k) \<and> X k < g_nextNode g \<and> \<not> isOwnPhi g b (X k)"
  shows "\<exists>L' g'. addPredecessor b pred g = Some g' \<and>
    join_inv L' b rp (\<lambda>k. if k < stackDepth g b then V k @ [X k] else V k) g' \<and>
    bl_predecessors (g_blocks g' b) = bl_predecessors (g_blocks g b) @ [pred]"
proof -
  obtain L' g' where g': "mfold (mergeSlot b pred) [0..<stackDepth g b] g = Some g'"
    "join_inv L' b rp (\<lambda>k. if k < stackDepth g b then V k @ [X k] else V k) g'" "block_frame b g g'"
    using mergeSlots_spec[OF assms(1,2) order_refl assms(5-8)] by blast
  let ?g = "updBlock b (\<lambda>x. x\<lparr>bl_predecessors := bl_predecessors x @ [pred]\<rparr>) g'"
  have sl: "getSlot ?g b k = getSlot g' b k" "stackDepth ?g b = stackDepth g' b" for k
    by (simp_all add: getSlot_def readSlotAt_def stackDepth_def)
  have eq: "join_inv L' b rp W ?g = join_inv L' b rp W g'" for W
    by (simp add: join_inv_def slot_sound_def isOwnPhi_def sl)
  have "join_inv L' b rp (\<lambda>k. if k < stackDepth g b then V k @ [X k] else V k) ?g"
    unfolding eq by (rule g'(2))
  moreover have "bl_predecessors (g_blocks ?g b) = bl_predecessors (g_blocks g b) @ [pred]"
    using g'(3) by (simp add: block_frame_def)
  moreover have "addPredecessor b pred g = Some ?g"
    using assms(3,4,6) g'(1) by (simp add: addPredecessor_def)
  ultimately show ?thesis by blast
qed

text \<open>A join of blocks 0 and 1 in block 2, whose entry resume point is node 2.\<close>

definition sample_graph :: mir_graph where
  "sample_graph =
     \<lparr>g_nodes = initOperand 2 0 0
        (\<lambda>n. if n = 2 then (blank_node (Op_Other 0) 1)\<lparr>mn_kind := ResumePoint, mn_block := Some 2\<rparr>
             else blank_node Op_Constant 0),
      g_blocks = (\<lambda>c. \<lparr>bl_info = \<lparr>ci_fun = None, ci_script_nslots = 0, ci_nfixed = 0\<rparr>, bl_instructions = [],
        bl_predecessors = (if c = 2 then [0] else []), bl_phis = [], bl_slots = [Some (if c = 1 then 1 else 0)],
        bl_stackPosition = 1, bl_lastIns = Some 0, bl_pc = 0, bl_id = c, bl_start = None,
        bl_entryResumePoint = Some 2, bl_successorWithPhis = None, bl_positionInPhiSuccessor = 0,
        bl_kind = NORMAL, bl_loopDepth = 0, bl_mark = False, bl_immediatelyDominated = [], bl_containedInLoop = [],
        bl_immediateDominator = None, bl_numDominated = 0, bl_loopHeader = None\<rparr>),
      g_blockList = [0, 1, 2], g_blockIdGen = 3, g_idGen = 0, g_succs = (\<lambda>_. [2]), g_nextNode = 3,
      g_nextBlock = 3, g_osrBlock = None\<rparr>"

lemma sample_getSlot: "getSlot sample_graph c 0 = Some (if c = 1 then 1 else 0)"
  by (simp add: getSlot_def readSlotAt_def stackDepth_def sample_graph_def)

lemma sample_stackDepth: "stackDepth sample_graph c = 1"
  by (simp add: stackDepth_def sample_graph_def)

lemma sample_node_op: "mn_op (g_nodes sample_graph n) = (if n = 2 then Op_Other 0 else Op_Constant)"
  by (simp add: sample_graph_def initOperand_def addUse_def setOperand_def blank_node_def)

lemma sample_own: "\<not> isOwnPhi sample_graph b n"
  by (simp add: isOwnPhi_def sample_node_op)

lemma sample_next: "g_nextNode sample_graph = 3"
  by (simp add: sample_graph_def)

lemma sample_block:
  "bl_predecessors (g_blocks sample_graph 2) = [0]" "bl_lastIns (g_blocks sample_graph c) = Some 0"
  by (simp_all add: sample_graph_def)

lemma sample_join: "join_inv {(2, 0)} 2 2 (\<lambda>k. [0]) sample_graph"
proof -
  let ?h = "\<lambda>n. if n = 2 then (blank_node (Op_Other 0) 1)\<lparr>mn_kind := ResumePoint, mn_block := Some 2\<rparr>
             else blank_node Op_Constant 0"
  have h: "g_nodes sample_graph = initOperand 2 0 0 ?h" by (simp add: sample_graph_def)
  have "use_inv {} ?h" by (rule use_inv_unlinked) (simp add: blank_node_def)
  then have inv: "use_inv {(2, 0)} (initOperand 2 0 0 ?h)"
    by (rule use_inv_initOperand) (simp_all add: numOperands_def blank_node_def)
  have op: "getOperand (initOperand 2 0 0 ?h) 2 0 = Some 0"
    by (simp add: getOperand_def numOperands_def initOperand_def addUse_def setOperand_def blank_node_def)
  show ?thesis
    unfolding join_inv_def
  proof (intro conjI)
    show "use_inv {(2, 0)} (g_nodes sample_graph)" using inv h by simp
    show "links_in_range {(2, 0)} (g_nodes sample_graph)"
      using getOperand_Some_less[OF op] by (simp add: links_in_range_def h)
    show "\<forall>d\<ge>g_nextNode sample_graph. mn_uses (g_nodes sample_graph d) = []"
      by (simp add: sample_graph_def initOperand_def addUse_def setOperand_def blank_node_def)
    show "\<forall>k < stackDepth sample_graph 2. slot_sound sample_graph 2 k [0] \<and> (2, k) \<in> {(2, 0)} \<and>
        getOperand (g_nodes sample_graph) 2 k = getSlot sample_graph 2 k"
      using op by (simp add: sample_stackDepth slot_sound_def sample_getSlot sample_own sample_next h)
  qed (simp_all add: sample_node_op, simp_all add: sample_graph_def stackDepth_def)
qed

theorem addPredecessor_merges_witness:
  "\<exists>L b rp V X g pred. join_inv L b rp V g \<and> pred \<noteq> b \<and> stackDepth g pred = stackDepth g b \<and>
    bl_lastIns (g_blocks g pred) \<noteq> None \<and> b \<notin> set (bl_predecessors (g_blocks g b)) \<and> bl_predecessors (g_blocks g b) \<noteq> [] \<and>
    (\<forall>k < stackDepth g b. list_all2 (\<lambda>p v. getSlot g p k = Some v) (bl_predecessors (g_blocks g b)) (V k)) \<and>
    (\<forall>k < stackDepth g b. getSlot g pred k = Some (X k) \<and> X k < g_nextNode g \<and> \<not> isOwnPhi g b (X k)) \<and>
    (\<exists>L' g'. addPredecessor b pred g = Some g' \<and>
    join_inv L' b rp (\<lambda>k. if k < stackDepth g b then V k @ [X k] else V k) g' \<and>
    bl_predecessors (g_blocks g' b) = bl_predecessors (g_blocks g b) @ [pred])"
proof -
  let ?V = "\<lambda>k::nat. [0::nat]" and ?X = "\<lambda>k::nat. 1::nat"
  have h: "(1::nat) \<noteq> 2" "stackDepth sample_graph 1 = stackDepth sample_graph 2"
    "bl_lastIns (g_blocks sample_graph 1) \<noteq> None" "2 \<notin> set (bl_predecessors (g_blocks sample_graph 2))"
    "bl_predecessors (g_blocks sample_graph 2) \<noteq> []"
    "\<forall>k < stackDepth sample_graph 2. list_all2 (\<lambda>p v. getSlot sample_graph p k = Some v) (bl_predecessors (g_blocks sample_graph 2)) (?V k)"
    "\<forall>k < stackDepth sample_graph 2. getSlot sample_graph 1 k = Some (?X k) \<and> ?X k < g_nextNode sample_graph \<and> \<not> isOwnPhi sample_graph 2 (?X k)"
    by (simp_all add: sample_stackDepth sample_getSlot sample_own sample_next sample_block)
  show ?thesis
    by (rule exI[of _ "{(2, 0)}"], rule exI[of _ 2], rule exI[of _ 2], rule exI[of _ ?V], rule exI[of _ ?X],
        rule exI[of _ sample_graph], rule exI[of _ 1])
      (intro conjI sample_join h addPredecessor_merges[OF sample_join h])
qed

subsection \<open>Closing a loop\<close>

text \<open>
  A pending loop header before its back edge is known, from slot \<open>n\<close> on: the entry resume point
  names a phi of the header for every slot, with the value from the loop entry as its only input.
  Below \<open>n\<close> the second input has been added.
\<close>

definition loop_inv ::
  "(nat \<times> nat) set \<Rightarrow> nat \<Rightarrow> nat \<Rightarrow> (nat \<Rightarrow> nat) \<Rightarrow> (nat \<Rightarrow> nat) \<Rightarrow> (nat \<Rightarrow> nat) \<Rightarrow> nat \<Rightarrow> nat \<Rightarrow> mir_graph \<Rightarrow> bool" where
  "loop_inv L b rp P E X sp n g \<longleftrightarrow>
     use_inv L (g_nodes g) \<and> links_in_range L (g_nodes g) \<and> sp = numOperands (g_nodes g) rp \<and>
     mn_op (g_nodes g rp) \<noteq> Op_Phi \<and> sp \<le> length (bl_slots (g_blocks g b)) \<and>
     (\<forall>k < sp. getOperand (g_nodes g) rp k = Some (P k) \<and> isOwnPhi g b (P k) \<and> mn_slot (g_nodes g (P k)) = k \<and>
        mn_operands (g_nodes g (P k)) =
          (if k < n then [Some (E k), Some (if X k = P k then E k else X k)] else [Some (E k)])) \<and>
     (\<forall>k<n. bl_slots (g_blocks g b) ! k = Some (P k))"

lemma backedgeSlot_spec:
  assumes I: "loop_inv L b rp P E X sp n g" and n: "n < sp" and x: "readSlotAt g pred n = Some (X n)"
  shows "\<exists>L' g'. backedgeSlot b rp pred n g = Some g' \<and> loop_inv L' b rp P E X sp (Suc n) g' \<and>
    (\<forall>c. g_blocks g' c = (if c = b then (g_blocks g b)\<lparr>bl_slots := (bl_slots (g_blocks g b))[n := Some (P n)]\<rparr> else g_blocks g c))"
proof -
  let ?e = "if P n = X n then E n else X n"
  have D: "use_inv L (g_nodes g)" "links_in_range L (g_nodes g)" "sp = numOperands (g_nodes g) rp"
    "mn_op (g_nodes g rp) \<noteq> Op_Phi" "sp \<le> length (bl_slots (g_blocks g b))"
    "\<forall>k < sp. getOperand (g_nodes g) rp k = Some (P k) \<and> isOwnPhi g b (P k) \<and> mn_slot (g_nodes g (P k)) = k \<and>
        mn_operands (g_nodes g (P k)) =
          (if k < n then [Some (E k), Some (if X k = P k then E k else X k)] else [Some (E k)])"
    "\<forall>k<n. bl_slots (g_blocks g b) ! k = Some (P k)"
    using I by (simp_all add: loop_inv_def)
  have pn: "getOperand (g_nodes g) rp n = Some (P n)" "isOwnPhi g b (P n)" "mn_slot (g_nodes g (P n)) = n"
    "mn_operands (g_nodes g (P n)) = [Some (E n)]"
    using D(6) n by auto
  have e0: "getOperand (g_nodes g) (P n) 0 = Some (E n)" using pn(4) by (simp add: getOperand_def numOperands_def)
  let ?g = "updBlock b (\<lambda>x. x\<lparr>bl_slots := (bl_slots x)[n := Some (P n)]\<rparr>) (updNodes (addInput (P n) ?e) g)"
  have run: "backedgeSlot b rp pred n g = Some ?g"
    using pn(1,2) x n D(5) e0 by (cases "P n = X n") (auto simp: backedgeSlot_def isOwnPhi_def setSlot_ok)
  note fld = same_nodes_fields[OF same_nodes_ops(4)]
  have own: "isOwnPhi ?g b y = isOwnPhi g b y" for y by (simp add: isOwnPhi_def fld)
  have rpp: "rp \<noteq> P k" if "k < sp" for k using D(4,6) that by (auto simp: isOwnPhi_def)
  have inj: "P k \<noteq> P n" if "k < sp" "k \<noteq> n" for k using D(6) that n by metis
  have "loop_inv (insert (P n, numOperands (g_nodes g) (P n)) L) b rp P E X sp (Suc n) ?g"
    unfolding loop_inv_def
  proof (intro conjI allI impI)
    fix k assume k: "k < sp"
    show "getOperand (g_nodes ?g) rp k = Some (P k)"
      using D(3,6) k rpp[OF n] by (simp add: getOperand_def numOperands_addInput addInput_operands)
    show "isOwnPhi ?g b (P k)" "mn_slot (g_nodes ?g (P k)) = k" using D(6) k own by (simp_all add: fld)
    show "mn_operands (g_nodes ?g (P k)) =
      (if k < Suc n then [Some (E k), Some (if X k = P k then E k else X k)] else [Some (E k)])"
    proof (cases "k = n")
      case True
      then show ?thesis using pn(4) by (auto simp: addInput_operands)
    next
      case False
      then show ?thesis using D(6) k inj[OF k False] by (auto simp: addInput_operands)
    qed
  next
    fix k assume "k < Suc n"
    then show "bl_slots (g_blocks ?g b) ! k = Some (P k)" using D(5,7) n by (auto simp: less_Suc_eq)
  qed (use addInput_links[OF D(1,2), of "P n" ?e] D(3-5) rpp[OF n] in \<open>simp_all add: fld numOperands_addInput\<close>)
  then show ?thesis using run by (intro exI conjI) auto
qed

lemma backedge_loop:
  assumes "loop_inv L b rp P E X sp 0 g" "pred \<noteq> b" "\<forall>k < sp. readSlotAt g pred k = Some (X k)" "n \<le> sp"
  shows "\<exists>L' g'. mfold (backedgeSlot b rp pred) [0..<n] g = Some g' \<and> loop_inv L' b rp P E X sp n g' \<and>
    (\<forall>c. c \<noteq> b \<longrightarrow> g_blocks g' c = g_blocks g c) \<and> bl_predecessors (g_blocks g' b) = bl_predecessors (g_blocks g b)"
  using assms(4)
proof (induction n)
  case 0
  then show ?case using assms(1) by auto
next
  case (Suc n)
  obtain L1 g1 where g1: "mfold (backedgeSlot b rp pred) [0..<n] g = Some g1" "loop_inv L1 b rp P E X sp n g1"
    "\<forall>c. c \<noteq> b \<longrightarrow> g_blocks g1 c = g_blocks g c" "bl_predecessors (g_blocks g1 b) = bl_predecessors (g_blocks g b)"
    using Suc by auto
  have "readSlotAt g1 pred n = Some (X n)"
    using assms(2,3) Suc.prems g1(3) by (simp add: readSlotAt_def)
  with backedgeSlot_spec[OF g1(2)] Suc.prems obtain L2 g2 where
    g2: "backedgeSlot b rp pred n g1 = Some g2" "loop_inv L2 b rp P E X sp (Suc n) g2"
    "\<forall>c. g_blocks g2 c = (if c = b then (g_blocks g1 b)\<lparr>bl_slots := (bl_slots (g_blocks g1 b))[n := Some (P n)]\<rparr> else g_blocks g1 c)"
    by (meson Suc_le_lessD)
  then show ?case using g1 by (intro exI[of _ L2] exI[of _ g2]) (simp add: mfold_append)
qed

text \<open>
  C24: closing a loop turns every phi of the pending header into the merge of the value at loop
  entry and the value at the back edge; a variable that the loop leaves alone, whose value at the
  back edge is the phi itself, gets the entry value twice. No assertion fails, the use chains stay
  consistent, and the header becomes a loop header with the back edge as its last predecessor.
\<close>

theorem setBackedge_closes_loop:
  assumes "loop_inv L b rp P E X sp 0 g" "pred \<noteq> b" "\<forall>k < sp. readSlotAt g pred k = Some (X k)"
    "bl_entryResumePoint (g_blocks g b) = Some rp" "bl_kind (g_blocks g b) = PENDING_LOOP_HEADER"
    "bl_lastIns (g_blocks g b) \<noteq> None" "bl_lastIns (g_blocks g pred) \<noteq> None" "stackDepth g pred = sp"
  shows "\<exists>L' g'. setBackedge b pred g = Some g' \<and> loop_inv L' b rp P E X sp sp g' \<and> isLoopHeader g' b \<and>
    bl_predecessors (g_blocks g' b) = bl_predecessors (g_blocks g b) @ [pred]"
proof -
  obtain L' g' where g': "mfold (backedgeSlot b rp pred) [0..<sp] g = Some g'" "loop_inv L' b rp P E X sp sp g'"
    "bl_predecessors (g_blocks g' b) = bl_predecessors (g_blocks g b)"
    using backedge_loop[OF assms(1-3) order_refl] by blast
  let ?g = "updBlock b (\<lambda>x. x\<lparr>bl_kind := LOOP_HEADER, bl_predecessors := bl_predecessors x @ [pred]\<rparr>) g'"
  have sp: "sp = numOperands (g_nodes g) rp" using assms(1) by (simp add: loop_inv_def)
  have "setBackedge b pred g = Some ?g"
    using assms(4-8) g'(1) sp by (simp add: setBackedge_def)
  moreover have "loop_inv L' b rp P E X sp sp ?g" using g'(2) by (simp add: loop_inv_def isOwnPhi_def)
  ultimately show ?thesis using g'(3) by (auto simp: isLoopHeader_def)
qed

text \<open>A loop header, block 2, with one phi (node 3) for its one slot; block 1 ends the body.\<close>

definition sample_loop :: mir_graph where
  "sample_loop = sample_graph
     \<lparr>g_nodes := initOperand 2 0 3 (addInput 3 0
        (\<lambda>n. if n = 2 then (blank_node (Op_Other 0) 1)\<lparr>mn_kind := ResumePoint, mn_block := Some 2\<rparr>
             else if n = 3 then new_phi_node 2 0 2 else blank_node Op_Constant 0)),
      g_blocks := (g_blocks sample_graph)(2 := (g_blocks sample_graph 2)\<lparr>bl_kind := PENDING_LOOP_HEADER, bl_slots := [Some 3]\<rparr>),
      g_nextNode := 4\<rparr>"

lemma sample_loop_inv: "loop_inv {(3, 0), (2, 0)} 2 2 (\<lambda>_. 3) (\<lambda>_. 0) (\<lambda>_. 1) 1 0 sample_loop"
proof -
  let ?h = "\<lambda>n. if n = 2 then (blank_node (Op_Other 0) 1)\<lparr>mn_kind := ResumePoint, mn_block := Some 2\<rparr>
             else if n = 3 then new_phi_node 2 0 2 else blank_node Op_Constant 0"
  have "use_inv {} ?h" by (rule use_inv_unlinked) (simp add: blank_node_def new_phi_node_def)
  then have "use_inv (insert (3, numOperands ?h 3) {}) (addInput 3 0 ?h)" by (rule use_inv_addInput) simp
  then have "use_inv {(3, 0)} (addInput 3 0 ?h)" by (simp add: numOperands_def new_phi_node_def blank_node_def)
  then have "use_inv (insert (2, 0) {(3, 0)}) (initOperand 2 0 3 (addInput 3 0 ?h))"
    by (rule use_inv_initOperand) (simp_all add: numOperands_addInput, simp add: numOperands_def blank_node_def)
  then have "use_inv {(3, 0), (2, 0)} (g_nodes sample_loop)" by (simp add: sample_loop_def insert_commute)
  moreover have "links_in_range {(3, 0), (2, 0)} (g_nodes sample_loop)"
    "mn_operands (g_nodes sample_loop 3) = [Some 0]" "mn_operands (g_nodes sample_loop 2) = [Some 3]"
    "mn_op (g_nodes sample_loop 2) = Op_Other 0" "mn_op (g_nodes sample_loop 3) = Op_Phi"
    "mn_block (g_nodes sample_loop 3) = Some 2" "mn_slot (g_nodes sample_loop 3) = 0"
    by (simp_all add: links_in_range_def sample_loop_def numOperands_def initOperand_def addInput_def addUse_def
        setOperand_def new_phi_node_def blank_node_def Let_def)
  moreover have "bl_slots (g_blocks sample_loop 2) = [Some 3]" by (simp add: sample_loop_def)
  ultimately show ?thesis by (simp add: loop_inv_def numOperands_def getOperand_def isOwnPhi_def)
qed

theorem setBackedge_closes_loop_witness:
  "\<exists>L b rp P E X sp g pred. loop_inv L b rp P E X sp 0 g \<and> pred \<noteq> b \<and> (\<forall>k < sp. readSlotAt g pred k = Some (X k)) \<and>
    bl_entryResumePoint (g_blocks g b) = Some rp \<and> bl_kind (g_blocks g b) = PENDING_LOOP_HEADER \<and>
    bl_lastIns (g_blocks g b) \<noteq> None \<and> bl_lastIns (g_blocks g pred) \<noteq> None \<and> stackDepth g pred = sp \<and>
    (\<exists>L' g'. setBackedge b pred g = Some g' \<and> loop_inv L' b rp P E X sp sp g' \<and> isLoopHeader g' b \<and>
    bl_predecessors (g_blocks g' b) = bl_predecessors (g_blocks g b) @ [pred])"
proof -
  have h: "(1::nat) \<noteq> 2" "\<forall>k < (1::nat). readSlotAt sample_loop 1 k = Some 1"
    "bl_entryResumePoint (g_blocks sample_loop 2) = Some 2" "bl_kind (g_blocks sample_loop 2) = PENDING_LOOP_HEADER"
    "bl_lastIns (g_blocks sample_loop 2) \<noteq> None" "bl_lastIns (g_blocks sample_loop 1) \<noteq> None" "stackDepth sample_loop 1 = 1"
    by (simp_all add: sample_loop_def sample_graph_def readSlotAt_def stackDepth_def)
  show ?thesis
    by (rule exI[of _ "{(3, 0), (2, 0)}"], rule exI[of _ 2], rule exI[of _ 2], rule exI[of _ "\<lambda>_. 3"],
        rule exI[of _ "\<lambda>_. 0"], rule exI[of _ "\<lambda>_. 1"], rule exI[of _ 1], rule exI[of _ sample_loop], rule exI[of _ 1])
      (intro conjI sample_loop_inv h setBackedge_closes_loop[OF sample_loop_inv h])
qed

end
