(* ===== verification/Int32_Codegen.thy ===== *)
theory Int32_Codegen
  imports Mir_Folding "HOL-Library.Signed_Division"
begin

text \<open>
  The int32 instructions of the x86 and x64 code generator
  (\<open>ion/shared/CodeGenerator-x86-shared.cpp\<close>), as functions from the operand values to what the
  emitted code does: it leaves a value in the output register, it bails out to the interpreter, or
  the processor traps. Comparisons and flags of the emitted instructions are written out on the
  values: \<open>Overflow\<close> after an addition means that the exact sum is no int32, \<open>Signed\<close> that bit 31 is
  set.

  The checks that the code generator leaves out when an attribute of the instruction allows it are
  the subject of the range analysis; here the attributes are arguments.
\<close>

datatype outcome = Value i32 | Bailout | Trap

definition in_int32 :: "int \<Rightarrow> bool" where
  "in_int32 i \<longleftrightarrow> - (2 ^ 31) \<le> i \<and> i < 2 ^ 31"

text \<open>\<open>bailoutIf\<close>.\<close>

definition bailoutIf :: "bool \<Rightarrow> outcome \<Rightarrow> outcome" where
  "bailoutIf c out = (if c then Bailout else out)"

text \<open>\<open>snapshot\<close> tells whether the instruction has a snapshot to bail out to.\<close>

definition visitAddI :: "bool \<Rightarrow> i32 \<Rightarrow> i32 \<Rightarrow> outcome" where
  "visitAddI snapshot lhs rhs =
     bailoutIf (snapshot \<and> \<not> in_int32 (sint lhs + sint rhs)) (Value (lhs + rhs))"

definition visitSubI :: "bool \<Rightarrow> i32 \<Rightarrow> i32 \<Rightarrow> outcome" where
  "visitSubI snapshot lhs rhs =
     bailoutIf (snapshot \<and> \<not> in_int32 (sint lhs - sint rhs)) (Value (lhs - rhs))"

definition visitMulNegativeZeroCheck :: "i32 \<Rightarrow> i32 \<Rightarrow> outcome" where
  "visitMulNegativeZeroCheck lhsCopy rhs = bailoutIf (sint (lhsCopy OR rhs) < 0) (Value 0)"

text \<open>\<open>JS_FLOOR_LOG2\<close> of the bits of a constant; 0 for 0.\<close>

definition floor_log2 :: "i32 \<Rightarrow> nat" where
  "floor_log2 c = floorlog 2 (unat c) - 1"

definition visitMulI_const :: "mattr \<Rightarrow> i32 \<Rightarrow> i32 \<Rightarrow> outcome" where
  "visitMulI_const mul lhs constant =
     (let overflow = \<not> in_int32 (sint lhs * sint constant)
      in bailoutIf (ma_canBeNegativeZero mul \<and> sint constant \<le> 0 \<and> (if constant = 0 then sint lhs < 0 else lhs = 0))
          (if constant = -1 then bailoutIf (ma_canOverflow mul \<and> overflow) (Value (- lhs))
           else if constant = 0 then Value (lhs XOR lhs)
           else if constant = 1 then Value lhs
           else if constant = 2 then bailoutIf (ma_canOverflow mul \<and> overflow) (Value (lhs + lhs))
           else if \<not> ma_canOverflow mul \<and> sint constant > 0 \<and> push_bit (floor_log2 constant) 1 = constant
                then Value (push_bit (floor_log2 constant) lhs)
           else bailoutIf (ma_canOverflow mul \<and> overflow) (Value (lhs * constant))))"

definition visitMulI_reg :: "mattr \<Rightarrow> i32 \<Rightarrow> i32 \<Rightarrow> outcome" where
  "visitMulI_reg mul lhs rhs =
     (let overflow = \<not> in_int32 (sint lhs * sint rhs);
          result = lhs * rhs
      in bailoutIf (ma_canOverflow mul \<and> overflow)
          (if ma_canBeNegativeZero mul \<and> result = 0 then visitMulNegativeZeroCheck lhs rhs else Value result))"

definition visitMulI :: "mattr \<Rightarrow> bool \<Rightarrow> i32 \<Rightarrow> i32 \<Rightarrow> outcome" where
  "visitMulI mul rhsConstant lhs rhs =
     (if rhsConstant then visitMulI_const mul lhs rhs else visitMulI_reg mul lhs rhs)"

text \<open>\<open>idiv\<close> of a sign-extended dividend: quotient and remainder, or a divide error.\<close>

definition idiv :: "int \<Rightarrow> i32 \<Rightarrow> (i32 \<times> i32) option" where
  "idiv n d = (if d = 0 \<or> \<not> in_int32 (n sdiv sint d) then None
               else Some (word_of_int (n sdiv sint d), word_of_int (n smod sint d)))"

definition visitDivI :: "mattr \<Rightarrow> i32 \<Rightarrow> i32 \<Rightarrow> outcome" where
  "visitDivI mir lhs rhs =
     bailoutIf (ma_canBeDivideByZero mir \<and> rhs = 0)
      (bailoutIf (ma_canBeNegativeOverflow mir \<and> lhs = 0x80000000 \<and> rhs = -1)
        (bailoutIf (ma_canBeNegativeZero mir \<and> lhs = 0 \<and> sint rhs < 0)
          (case idiv (sint lhs) rhs of
             None \<Rightarrow> Trap
           | Some (q, remainder) \<Rightarrow> bailoutIf (\<not> ma_implicitTruncate mir \<and> remainder \<noteq> 0) (Value q))))"

definition visitModPowTwoI :: "nat \<Rightarrow> i32 \<Rightarrow> outcome" where
  "visitModPowTwoI shift lhs =
     (if \<not> sint lhs < 0 then Value (lhs AND (push_bit shift 1 - 1))
      else let r = - ((- lhs) AND (push_bit shift 1 - 1))
           in bailoutIf (r = 0) (Value r))"

definition visitModI :: "i32 \<Rightarrow> i32 \<Rightarrow> outcome" where
  "visitModI lhs rhs =
     bailoutIf (rhs = 0)
      (if \<not> sint lhs < 0
       then (case idiv (uint lhs) rhs of None \<Rightarrow> Trap | Some (q, remainder) \<Rightarrow> Value remainder)
       else bailoutIf (\<not> in_int32 (- sint lhs))
             (case idiv (uint (- lhs)) rhs of
                None \<Rightarrow> Trap
              | Some (q, remainder) \<Rightarrow> bailoutIf (remainder = 0) (Value (- remainder))))"

definition visitBitNotI :: "i32 \<Rightarrow> outcome" where
  "visitBitNotI x = Value (NOT x)"

definition visitBitOpI :: "Opcode \<Rightarrow> i32 \<Rightarrow> i32 \<Rightarrow> outcome option" where
  "visitBitOpI opc lhs rhs = (case opc of
      Op_BitOr \<Rightarrow> Some (Value (lhs OR rhs))
    | Op_BitXor \<Rightarrow> Some (Value (lhs XOR rhs))
    | Op_BitAnd \<Rightarrow> Some (Value (lhs AND rhs))
    | _ \<Rightarrow> None)"

text \<open>The processor masks the count in \<open>cl\<close> to five bits, as the code does for a constant.\<close>

definition visitShiftOp :: "Opcode \<Rightarrow> bool \<Rightarrow> i32 \<Rightarrow> i32 \<Rightarrow> outcome option" where
  "visitShiftOp opc canOverflow lhs rhs =
     (let k = unat (rhs AND 0x1F) in case opc of
        Op_Lsh \<Rightarrow> Some (Value (push_bit k lhs))
      | Op_Rsh \<Rightarrow> Some (Value (signed_drop_bit k lhs))
      | Op_Ursh \<Rightarrow> Some (bailoutIf (canOverflow \<and> sint (drop_bit k lhs) < 0) (Value (drop_bit k lhs)))
      | _ \<Rightarrow> None)"

text \<open>
  The code for an int32 arithmetic instruction. The lowering gives an addition or subtraction a
  snapshot unless it is truncated, and uses \<open>LModPowTwoI\<close> for a constant power of two.
\<close>

definition is_pow2_const :: "bool \<Rightarrow> i32 \<Rightarrow> bool" where
  "is_pow2_const rhsConstant rhs \<longleftrightarrow> rhsConstant \<and> push_bit (floor_log2 rhs) 1 = rhs"

definition int32_code :: "Opcode \<Rightarrow> mattr \<Rightarrow> bool \<Rightarrow> i32 \<Rightarrow> i32 \<Rightarrow> outcome option" where
  "int32_code opc m rhsConstant lhs rhs = (case opc of
      Op_Add \<Rightarrow> Some (visitAddI (\<not> ma_implicitTruncate m) lhs rhs)
    | Op_Sub \<Rightarrow> Some (visitSubI (\<not> ma_implicitTruncate m) lhs rhs)
    | Op_Mul \<Rightarrow> Some (visitMulI m rhsConstant lhs rhs)
    | Op_Div \<Rightarrow> Some (visitDivI m lhs rhs)
    | Op_Mod \<Rightarrow> Some (if is_pow2_const rhsConstant rhs then visitModPowTwoI (floor_log2 rhs) lhs else visitModI lhs rhs)
    | _ \<Rightarrow> None)"

subsection \<open>Arithmetic on int32 numbers in doubles\<close>

abbreviation num :: "i32 \<Rightarrow> double" where
  "num i \<equiv> dbl_of_int (sint i)"

lemma sint_bounds: "- (2 ^ 31) \<le> sint (i :: i32)" "sint i < 2 ^ 31" "\<bar>sint i\<bar> \<le> 2 ^ 31" "\<bar>sint i\<bar> < 2 ^ 53"
  using sint_greater_eq[of i] sint_less[of i] by auto

lemma sint_eq_0: "sint (i :: i32) = 0 \<longleftrightarrow> i = 0"
  by (metis signed_0 signed_word_eqI)

lemma num_facts [simp]:
  "dbl_is_finite (num i)" "\<not> dbl_is_nan (num i)" "\<not> dbl_is_infinite (num i)"
  "dbl_negative (num i) \<longleftrightarrow> sint i < 0" "dbl_mag (num i) = 0 \<longleftrightarrow> i = 0"
  and dval_num: "dval (num i) = of_int (sint i)"
proof -
  note d = dbl_of_int_simps[OF sint_bounds(4)[of i]]
  show "dbl_is_finite (num i)" by (rule d)
  then show "\<not> dbl_is_nan (num i)" "\<not> dbl_is_infinite (num i)" by (simp_all add: finite_not_nan finite_not_infinite)
  show "dbl_negative (num i) \<longleftrightarrow> sint i < 0" by (rule d)
  show "dval (num i) = of_int (sint i)" by (rule d)
  then have "dval (num i) = 0 \<longleftrightarrow> sint i = 0" by (simp only: of_int_eq_0_iff)
  then show "dbl_mag (num i) = 0 \<longleftrightarrow> i = 0" by (simp add: dval_eq_0_iff sint_eq_0)
qed

lemma round_dbl_of_int: "i \<noteq> 0 \<or> \<not> zs \<Longrightarrow> round_dbl zs (of_int i) = dbl_of_int i"
  by (auto simp: round_dbl_def dbl_of_int_def)

lemma num_add: "dbl_add (num a) (num b) = dbl_of_int (sint a + sint b)"
proof -
  have "dbl_add (num a) (num b) = round_dbl (sint a < 0 \<and> sint b < 0) (of_int (sint a + sint b))"
    by (simp only: dbl_add_def num_facts dval_num if_False of_int_add simp_thms)
  also have "\<dots> = dbl_of_int (sint a + sint b)" by (rule round_dbl_of_int) linarith
  finally show ?thesis .
qed

lemma num_sub: "dbl_sub (num a) (num b) = dbl_of_int (sint a - sint b)"
proof -
  have "dbl_sub (num a) (num b) = round_dbl (sint a < 0 \<and> \<not> sint b < 0) (of_int (sint a - sint b))"
    by (simp only: dbl_sub_def num_facts dval_num if_False of_int_diff simp_thms)
  also have "\<dots> = dbl_of_int (sint a - sint b)" by (rule round_dbl_of_int) linarith
  finally show ?thesis .
qed

lemma num_mul: "dbl_mul (num a) (num b) =
    (if sint a * sint b = 0 \<and> (sint a < 0 \<or> sint b < 0) then mk_dbl True 0 else dbl_of_int (sint a * sint b))"
proof -
  have m: "dbl_mul (num a) (num b) = round_dbl ((sint a < 0) \<noteq> (sint b < 0)) (of_int (sint a * sint b))"
    by (simp only: dbl_mul_def num_facts dval_num if_False of_int_mult simp_thms Let_def)
  show ?thesis
  proof (cases "sint a * sint b = 0 \<and> (sint a < 0 \<or> sint b < 0)")
    case True
    then have z: "sint a * sint b = 0" and s: "(sint a < 0) \<noteq> (sint b < 0)" by auto
    show ?thesis using True s unfolding m z by (simp add: round_dbl_def)
  next
    case False
    then have "sint a * sint b \<noteq> 0 \<or> \<not> ((sint a < 0) \<noteq> (sint b < 0))" by auto
    then show ?thesis using False round_dbl_of_int unfolding m by (simp only: if_False)
  qed
qed

text \<open>Truncated division of integers and of their quotient as rationals.\<close>

lemma sdiv_trunc: "rat_trunc (of_int a / of_int b) = a sdiv b"
proof -
  have q: "of_int a / of_int b = (if sgn a * sgn b = -1 then - (of_int \<bar>a\<bar> / of_int \<bar>b\<bar>) else of_int \<bar>a\<bar> / of_int \<bar>b\<bar> :: rat)"
    by (auto simp: sgn_if abs_if split: if_splits)
  have "rat_trunc (of_int a / of_int b) = (if sgn a * sgn b = -1 then - (\<bar>a\<bar> div \<bar>b\<bar>) else \<bar>a\<bar> div \<bar>b\<bar>)"
    unfolding q by (subst rat_trunc_signed) (simp_all add: floor_divide_of_int_eq flip: of_int_abs)
  then show ?thesis by (auto simp: signed_divide_int_def sgn_if split: if_splits)
qed

lemma smod_sign: "a smod b = 0 \<or> (a smod b < 0 \<longleftrightarrow> (a :: int) < 0)"
proof -
  have "0 \<le> \<bar>a\<bar> mod \<bar>b\<bar>" by (cases "b = 0") simp_all
  then show ?thesis by (cases "a = 0"; cases "a < 0") (auto simp: signed_modulo_int_def)
qed

lemma num_fmod:
  assumes "b \<noteq> 0"
  shows "dbl_fmod (num a) (num b) = (if sint a smod sint b = 0 \<and> sint a < 0 then mk_dbl True 0 else dbl_of_int (sint a smod sint b))"
proof -
  have r: "of_int (sint a) - of_int (rat_trunc (of_int (sint a) / of_int (sint b))) * of_int (sint b) = (of_int (sint a smod sint b) :: rat)"
    unfolding sdiv_trunc by (simp only: minus_sdiv_mult_eq_smod flip: of_int_mult of_int_diff)
  have m: "dbl_fmod (num a) (num b) = round_dbl (sint a < 0) (of_int (sint a smod sint b))"
    using assms by (simp only: dbl_fmod_def num_facts dval_num if_False simp_thms r)
  show ?thesis
  proof (cases "sint a smod sint b = 0 \<and> sint a < 0")
    case True
    then have z: "sint a smod sint b = 0" and s: "sint a < 0" by auto
    show ?thesis using True s unfolding m z by (simp add: round_dbl_def)
  next
    case False
    then show ?thesis unfolding m by (auto intro!: round_dbl_of_int)
  qed
qed

lemma num_div_exact:
  assumes "b \<noteq> 0" "sint a smod sint b = 0"
  shows "dbl_div (num a) (num b) = (if a = 0 \<and> sint b < 0 then mk_dbl True 0 else dbl_of_int (sint a sdiv sint b))"
proof -
  have "sint b \<noteq> 0" using assms(1) by (simp add: sint_eq_0)
  moreover have "sint a sdiv sint b * sint b = sint a" using sdiv_mult_smod_eq[of "sint a" "sint b"] assms(2) by simp
  ultimately have q: "of_int (sint a) / of_int (sint b) = (of_int (sint a sdiv sint b) :: rat)"
    by (metis nonzero_mult_div_cancel_right of_int_eq_0_iff of_int_mult)
  have m: "dbl_div (num a) (num b) = round_dbl ((sint a < 0) \<noteq> (sint b < 0)) (of_int (sint a sdiv sint b))"
    using assms(1) by (simp only: dbl_div_def num_facts dval_num if_False simp_thms q Let_def)
  show ?thesis
  proof (cases "a = 0")
    case True
    then show ?thesis unfolding m by (simp add: round_dbl_def dbl_of_int_def)
  next
    case False
    then have "sint a sdiv sint b \<noteq> 0"
      using sint_eq_0[of a] \<open>sint a sdiv sint b * sint b = sint a\<close> by (metis mult_zero_left)
    then show ?thesis using False unfolding m by (simp add: round_dbl_of_int)
  qed
qed

text \<open>
  A quotient that is no integer is not rounded to one: the reciprocal of the divisor bounds its
  distance from the neighbouring integers, and \<open>2 ^ k\<close> with \<open>b \<le> 2 ^ k < 2 * b\<close> bounds the precision.
\<close>

lemma pow2_above:
  assumes "0 < (b :: nat)"
  obtains k where "b \<le> 2 ^ k" "2 ^ k \<le> 2 * b"
proof -
  have "0 < floorlog 2 b" using assms by (auto simp: floorlog_eq_zero_iff intro!: Nat.gr0I)
  moreover have "2 ^ (floorlog 2 b - 1) \<le> b \<and> b < 2 ^ floorlog 2 b"
    using floorlog_bounds[of b 2] assms by simp
  ultimately show ?thesis using that[of "floorlog 2 b"] by (cases "floorlog 2 b") auto
qed

lemma round_quotient_between:
  assumes a: "a \<le> 2 ^ 31" and b: "0 < b" "b \<le> 2 ^ 31" and nd: "\<not> b dvd a"
  defines "q \<equiv> of_nat a / (of_nat b :: rat)" and "n \<equiv> a div b"
  shows "round_mag q < inf_mag" "of_nat n < mag_val (round_mag q)" "mag_val (round_mag q) < of_nat n + 1"
proof -
  obtain k where k: "b \<le> 2 ^ k" "2 ^ k \<le> 2 * b" using pow2_above[OF b(1)] .
  have kb: "k \<le> 33"
  proof (rule ccontr)
    assume "\<not> k \<le> 33"
    then have "(2::nat) ^ 34 \<le> 2 ^ k" by (intro power_increasing) auto
    then show False using k(2) b(2) by simp
  qed
  have r: "a mod b + 1 \<le> b" "1 \<le> a mod b" using b(1) nd by (auto simp: dvd_eq_mod_eq_0 Suc_le_eq)
  define u where "u = (1 / of_nat (2 ^ k) :: rat)"
  have upow: "u = 2 powi (- int k)" by (simp add: u_def power_int_minus divide_inverse)
  have b0: "(0::rat) < of_nat b" using b(1) by simp
  have ab: "of_nat a = of_nat n * of_nat b + (of_nat (a mod b) :: rat)"
    unfolding n_def by (metis div_mult_mod_eq of_nat_add of_nat_mult)
  have qn: "q = of_nat n + of_nat (a mod b) / of_nat b" using b0 unfolding q_def ab by (simp add: field_simps)
  have "of_nat b \<le> (of_nat (2 ^ k) :: rat)" using k(1) by (simp only: of_nat_le_iff)
  then have ub: "u \<le> 1 / of_nat b" unfolding u_def by (intro divide_left_mono mult_pos_pos b0) auto
  have lo: "of_nat n + u \<le> q"
  proof -
    have "1 / of_nat b \<le> (of_nat (a mod b) / of_nat b :: rat)" using r(2) b0 by (intro divide_right_mono) auto
    then show ?thesis using ub unfolding qn by linarith
  qed
  have hi: "q \<le> of_nat n + 1 - u"
  proof -
    have "of_nat (a mod b + 1) \<le> (of_nat b :: rat)" using r(1) by (simp only: of_nat_le_iff)
    then have "of_nat (a mod b) + 1 \<le> (of_nat b :: rat)" by (simp only: of_nat_add of_nat_1)
    then have "of_nat (a mod b) / of_nat b + 1 / of_nat b \<le> (1::rat)" using b0 by (simp add: field_simps)
    then show ?thesis using ub unfolding qn by linarith
  qed
  have nk: "(n + 1) * 2 ^ k < 2 ^ 53"
  proof -
    have "n * b \<le> 2 ^ 31" using a unfolding n_def by (metis div_times_less_eq_dividend le_trans)
    moreover have "n * 2 ^ k \<le> n * (2 * b)" using k(2) by (rule mult_left_mono) simp
    moreover have "n * (2 * b) = 2 * (n * b)" by simp
    ultimately have "n * 2 ^ k \<le> 2 * 2 ^ 31" by linarith
    moreover have "(2::nat) ^ k \<le> 2 ^ 33" using kb by (intro power_increasing) auto
    ultimately show ?thesis by simp
  qed
  have ex: "dbl_exact (of_nat m * u)" if "m < 2 ^ 53" for m
    using that kb by (intro dbl_exactI[of _ m "- int k"]) (auto simp: upow)
  have one: "of_nat (2 ^ k) * u = 1" by (simp add: u_def)
  have p1: "of_nat n + u = of_nat (n * 2 ^ k + 1) * u" using one by (simp add: algebra_simps)
  define m where "m = (n + 1) * 2 ^ k - 1"
  have m: "m + 1 = (n + 1) * 2 ^ k" by (simp add: m_def)
  have "of_nat (m + 1) * u = (of_nat n + 1) * (of_nat (2 ^ k) * u)" unfolding m by (simp add: algebra_simps)
  then have p2: "of_nat n + 1 - u = of_nat m * u" unfolding one by (simp add: algebra_simps)
  have e1: "dbl_exact (of_nat n + u)" unfolding p1
  proof (rule ex)
    have "n * 2 ^ k + 1 \<le> (n + 1) * 2 ^ k" by simp
    then show "n * 2 ^ k + 1 < 2 ^ 53" using nk by (rule le_less_trans)
  qed
  have e2: "dbl_exact (of_nat n + 1 - u)" unfolding p2 by (rule ex) (use nk in \<open>simp add: m_def\<close>)
  have u: "0 < u" "u \<le> 1" by (simp_all add: u_def)
  have n0: "(0::rat) \<le> of_nat n" by simp
  show fin: "round_mag q < inf_mag" using round_le_exact(1)[OF e2 _ hi] u n0 by linarith
  show "mag_val (round_mag q) < of_nat n + 1" using round_le_exact(2)[OF e2 _ hi] u n0 by linarith
  show "of_nat n < mag_val (round_mag q)" using round_ge_exact[OF e1 _ lo fin] u n0 by linarith
qed

lemma num_div_inexact:
  assumes b: "b \<noteq> 0" and nd: "sint a smod sint b \<noteq> 0"
  shows "dbl_is_finite (dbl_div (num a) (num b))" "rat_trunc (dval (dbl_div (num a) (num b))) = sint a sdiv sint b"
    and "dval (dbl_div (num a) (num b)) \<noteq> of_int i"
proof -
  define A where "A = nat \<bar>sint a\<bar>"
  define B where "B = nat \<bar>sint b\<bar>"
  define q where "q = of_nat A / (of_nat B :: rat)"
  define s where "s = ((sint a < 0) \<noteq> (sint b < 0))"
  have AB: "A \<le> 2 ^ 31" "0 < B" "B \<le> 2 ^ 31"
    using sint_bounds(3)[of a] sint_bounds(3)[of b] b by (auto simp: A_def B_def nat_le_iff sint_eq_0)
  have iA: "int A = \<bar>sint a\<bar>" "int B = \<bar>sint b\<bar>" by (simp_all add: A_def B_def)
  have a0: "sint a \<noteq> 0" using nd by auto
  have ndvd: "\<not> B dvd A"
  proof
    assume "B dvd A"
    then have "int B dvd int A" by simp
    then have "\<bar>sint a\<bar> mod \<bar>sint b\<bar> = 0" unfolding iA by simp
    then show False using nd by (simp add: signed_modulo_int_def)
  qed
  note r = round_quotient_between[OF AB ndvd, folded q_def]
  have rA: "of_nat A = (of_int \<bar>sint a\<bar> :: rat)" "of_nat B = (of_int \<bar>sint b\<bar> :: rat)" using iA by (metis of_int_of_nat_eq)+
  have q0: "0 < q" using AB a0 unfolding q_def rA by (simp only: zero_less_divide_iff of_int_0_less_iff) (simp add: sint_eq_0 b)
  have quo: "of_int (sint a) / of_int (sint b) = (if s then - q else q)"
    unfolding q_def rA s_def by (auto simp: abs_if simp del: of_int_sint)
  have "dbl_div (num a) (num b) = round_dbl s (of_int (sint a) / of_int (sint b))"
    using b by (simp only: dbl_div_def num_facts dval_num if_False simp_thms s_def Let_def)
  also have "\<dots> = mk_dbl s (round_mag q)" using q0 unfolding quo by (simp add: round_dbl_def)
  finally have d: "dbl_div (num a) (num b) = mk_dbl s (round_mag q)" .
  have v: "dval (dbl_div (num a) (num b)) = (if s then - mag_val (round_mag q) else mag_val (round_mag q))"
    unfolding d by (rule mk_dbl_val[OF round_mag_less])
  show "dbl_is_finite (dbl_div (num a) (num b))" unfolding d using r(1) round_mag_less[of q] by (simp add: dbl_is_finite_def)
  have fl: "\<lfloor>mag_val (round_mag q)\<rfloor> = int (A div B)" using r(2,3) by (simp add: floor_eq_iff)
  have "rat_trunc (dval (dbl_div (num a) (num b))) = (if s then - int (A div B) else int (A div B))"
    unfolding v by (subst rat_trunc_signed) (simp_all add: fl)
  also have "\<dots> = sint a sdiv sint b"
    unfolding zdiv_int iA signed_divide_int_def s_def using a0 b by (auto simp: sgn_if sint_eq_0)
  finally show "rat_trunc (dval (dbl_div (num a) (num b))) = sint a sdiv sint b" .
  show "dval (dbl_div (num a) (num b)) \<noteq> of_int i"
  proof
    assume e: "dval (dbl_div (num a) (num b)) = of_int i"
    have "mag_val (round_mag q) = \<bar>of_int i\<bar>"
      unfolding e[symmetric] v using mag_val_nonneg[of "round_mag q"] by simp
    then have "mag_val (round_mag q) = of_int \<bar>i\<bar>" by simp
    then have "int (A div B) < \<bar>i\<bar>" "\<bar>i\<bar> < int (A div B) + 1" using r(2,3) by (metis of_int_less_iff of_int_of_nat_eq, metis of_int_1 of_int_add of_int_less_iff of_int_of_nat_eq)
    then show False by simp
  qed
qed

subsection \<open>Which doubles are int32 numbers\<close>

lemma sint_word_of_int: "in_int32 i \<Longrightarrow> sint (word_of_int i :: i32) = i"
  by (simp add: in_int32_def signed_of_int signed_take_bit_int_eq_self)

lemma num_inject: "num a = num b \<longleftrightarrow> a = b"
  by (metis es5_ToInt32_of_int)

lemma in_int32_sint: "in_int32 (sint (i :: i32))"
  using sint_bounds[of i] by (simp add: in_int32_def)

lemma big_not_num:
  assumes "\<not> in_int32 i" "\<bar>i\<bar> \<le> 2 ^ 63"
  shows "dbl_of_int i \<noteq> num r"
proof
  assume e: "dbl_of_int i = num r"
  define m where "m = (if i < 0 then 2 ^ 31 + 1 else 2 ^ 31 :: int)"
  have m: "m \<le> \<bar>i\<bar>" "i \<noteq> 0" using assms(1) by (auto simp: m_def in_int32_def)
  have x1: "dbl_exact (of_int m)" by (intro dbl_exact_int) (simp add: m_def)
  have x2: "dbl_exact (2 ^ 63)" by (rule dbl_exactI[of _ 1 63]) (simp_all add: power_int_def)
  have "\<bar>of_int i\<bar> \<le> (2 ^ 63 :: rat)" using assms(2) by (metis of_int_abs of_int_le_iff of_int_numeral of_int_power)
  then have fin: "round_mag \<bar>of_int i\<bar> < inf_mag" using round_le_exact(1)[OF x2] by simp
  have "of_int m \<le> (\<bar>of_int i\<bar> :: rat)" using m(1) by (metis of_int_abs of_int_le_iff)
  then have "of_int m \<le> mag_val (round_mag \<bar>of_int i\<bar>)" using round_ge_exact[OF x1 _ _ fin] by (simp add: m_def)
  moreover have "dval (dbl_of_int i) = (if i < 0 then - mag_val (round_mag \<bar>of_int i\<bar>) else mag_val (round_mag \<bar>of_int i\<bar>))"
    using m(2) round_mag_less by (simp add: dbl_of_int_def round_dbl_def mk_dbl_val)
  ultimately have v: "if i < 0 then of_int (sint r) \<le> (- of_int m :: rat) else of_int m \<le> (of_int (sint r) :: rat)"
    unfolding e dval_num by (simp split: if_splits)
  have "if i < 0 then sint r \<le> - m else m \<le> sint r"
    using v by (cases "i < 0") (simp_all only: if_True if_False of_int_le_iff of_int_minus[symmetric])
  then show False using sint_bounds[of r] by (auto simp: m_def split: if_splits)
qed

lemma dii_of_int:
  assumes "is_int32_spec dii" "\<bar>i\<bar> \<le> 2 ^ 63"
  shows "dii (dbl_of_int i) = (if in_int32 i then Some (word_of_int i) else None)"
proof (cases "in_int32 i")
  case True
  then have "dbl_of_int i = num (word_of_int i)" by (simp only: sint_word_of_int)
  then show ?thesis using assms(1) True by (simp add: is_int32_spec_def)
next
  case False
  then have "dii (dbl_of_int i) \<noteq> Some r" for r using big_not_num[OF False assms(2)] assms(1) by (auto simp: is_int32_spec_def)
  then show ?thesis using False by (cases "dii (dbl_of_int i)") auto
qed

lemma dii_None: "is_int32_spec dii \<Longrightarrow> (\<And>r. d \<noteq> num r) \<Longrightarrow> dii d = None"
  by (cases "dii d") (auto simp: is_int32_spec_def)

lemma dii_neg_zero: "is_int32_spec dii \<Longrightarrow> dii (mk_dbl True 0) = None"
proof (rule dii_None)
  fix r :: i32
  show "mk_dbl True 0 \<noteq> num r"
    using num_facts(4,5)[of r] mk_dbl_simps[of 0 True] by (metis signed_0 less_irrefl zero_less_numeral zero_less_power)
qed

lemma dii_not_finite: "is_int32_spec dii \<Longrightarrow> \<not> dbl_is_finite d \<Longrightarrow> dii d = None"
  by (rule dii_None) auto

subsection \<open>The emitted code computes the JavaScript operator or bails out\<close>

text \<open>
  What must hold of the operand values for the checks an instruction leaves out to be redundant.
\<close>

definition int32_min :: i32 where
  "int32_min = 0x80000000"

definition checks_ok :: "Opcode \<Rightarrow> mattr \<Rightarrow> i32 \<Rightarrow> i32 \<Rightarrow> bool" where
  "checks_ok opc m a b \<longleftrightarrow> (case opc of
      Op_Add \<Rightarrow> \<not> ma_implicitTruncate m
    | Op_Sub \<Rightarrow> \<not> ma_implicitTruncate m
    | Op_Mul \<Rightarrow> (ma_canOverflow m \<or> in_int32 (sint a * sint b)) \<and>
                 (ma_canBeNegativeZero m \<or> \<not> (sint a * sint b = 0 \<and> (sint a < 0 \<or> sint b < 0)))
    | Op_Div \<Rightarrow> \<not> ma_implicitTruncate m \<and> (ma_canBeDivideByZero m \<or> b \<noteq> 0) \<and>
                 (ma_canBeNegativeOverflow m \<or> \<not> (a = int32_min \<and> b = -1)) \<and>
                 (ma_canBeNegativeZero m \<or> \<not> (a = 0 \<and> sint b < 0))
    | _ \<Rightarrow> True)"

definition int32_or_bail :: "(double \<Rightarrow> i32 option) \<Rightarrow> double \<Rightarrow> outcome" where
  "int32_or_bail dii d = (case dii d of Some r \<Rightarrow> Value r | None \<Rightarrow> Bailout)"

lemma sint_int32_min [simp]: "sint int32_min = - (2 ^ 31)"
  by (simp add: int32_min_def)

lemma sint_eq_min: "sint a = - (2 ^ 31) \<longleftrightarrow> a = int32_min"
  by (metis sint_int32_min signed_word_eqI)

lemma sint_eq_minus_1: "sint (a :: i32) = -1 \<longleftrightarrow> a = -1"
  by (metis signed_minus_1 signed_word_eqI)

lemma int32_or_bail_of_int:
  assumes "is_int32_spec dii" "\<bar>i\<bar> \<le> 2 ^ 63"
  shows "int32_or_bail dii (dbl_of_int i) = (if in_int32 i then Value (word_of_int i) else Bailout)"
  by (simp add: int32_or_bail_def dii_of_int[OF assms])

lemma abs_product: "\<bar>sint (a :: i32) * sint (b :: i32)\<bar> \<le> 2 ^ 62"
proof -
  have "\<bar>sint a\<bar> * \<bar>sint b\<bar> \<le> 2 ^ 31 * 2 ^ 31" by (intro mult_mono sint_bounds(3)) auto
  then show ?thesis by (simp add: abs_mult)
qed

lemma add_code: "is_int32_spec dii \<Longrightarrow> visitAddI True a b = int32_or_bail dii (dbl_add (num a) (num b))"
  using sint_bounds(3)[of a] sint_bounds(3)[of b] unfolding num_add
  by (subst int32_or_bail_of_int) (auto simp: visitAddI_def bailoutIf_def)

lemma sub_code: "is_int32_spec dii \<Longrightarrow> visitSubI True a b = int32_or_bail dii (dbl_sub (num a) (num b))"
  using sint_bounds(3)[of a] sint_bounds(3)[of b] unfolding num_sub
  by (subst int32_or_bail_of_int) (auto simp: visitSubI_def bailoutIf_def)

lemma int32_or_bail_neg_zero: "is_int32_spec dii \<Longrightarrow> int32_or_bail dii (mk_dbl True 0) = Bailout"
  by (simp add: int32_or_bail_def dii_neg_zero)

text \<open>What both variants of the multiplication compute when the checks they leave out are redundant.\<close>

definition mul_result :: "i32 \<Rightarrow> i32 \<Rightarrow> outcome" where
  "mul_result a b =
     (if sint a * sint b = 0 \<and> (sint a < 0 \<or> sint b < 0) \<or> \<not> in_int32 (sint a * sint b) then Bailout else Value (a * b))"

lemma mul_result_exact: "is_int32_spec dii \<Longrightarrow> int32_or_bail dii (dbl_mul (num a) (num b)) = mul_result a b"
  using abs_product[of a b] unfolding num_mul mul_result_def
  by (auto simp: int32_or_bail_neg_zero int32_or_bail_of_int in_int32_def)

lemma mul_reg_code:
  assumes "checks_ok Op_Mul m a b"
  shows "visitMulI_reg m a b = mul_result a b"
proof -
  have z: "in_int32 (sint a * sint b) \<Longrightarrow> a * b = 0 \<longleftrightarrow> sint a * sint b = 0"
    using sint_word_of_int[of "sint a * sint b"] by (auto simp: sint_eq_0 simp flip: sint_eq_0[of "a * b"])
  have s: "sint (a OR b) < 0 \<longleftrightarrow> sint a < 0 \<or> sint b < 0"
    using bit_last_iff[of a] bit_last_iff[of b] bit_last_iff[of "a OR b"] by (simp add: bit_or_iff)
  show ?thesis
    using assms z
    by (auto simp: visitMulI_reg_def mul_result_def bailoutIf_def checks_ok_def Let_def visitMulNegativeZeroCheck_def s)
qed

lemma mul_const_code:
  assumes "checks_ok Op_Mul m a b"
  shows "visitMulI_const m a b = mul_result a b"
proof -
  have sh: "push_bit (floor_log2 b) 1 = b \<Longrightarrow> push_bit (floor_log2 b) a = a * b"
    by (simp add: push_bit_eq_mult)
  have nz: "(sint b \<le> 0 \<and> (if b = 0 then sint a < 0 else a = 0)) \<longleftrightarrow> (sint a * sint b = 0 \<and> (sint a < 0 \<or> sint b < 0))"
    unfolding sint_eq_0[symmetric] mult_eq_0_iff by (rule iffI; (simp split: if_splits)?; linarith)
  consider "b = -1" | "b = 0" | "b = 1" | "b = 2" | "b \<noteq> -1" "b \<noteq> 0" "b \<noteq> 1" "b \<noteq> 2" by blast
  then show ?thesis
  proof cases
    case 1
    then show ?thesis using assms nz by (auto simp: visitMulI_const_def mul_result_def bailoutIf_def checks_ok_def)
  next
    case 2
    then show ?thesis using assms nz by (auto simp: visitMulI_const_def mul_result_def bailoutIf_def checks_ok_def in_int32_def)
  next
    case 3
    then show ?thesis using assms nz in_int32_sint[of a]
      by (auto simp: visitMulI_const_def mul_result_def bailoutIf_def checks_ok_def)
  next
    case 4
    then show ?thesis using assms nz
      by (auto simp: visitMulI_const_def mul_result_def bailoutIf_def checks_ok_def mult_2_right)
  next
    case 5
    then show ?thesis using assms nz sh
      by (auto simp: visitMulI_const_def mul_result_def bailoutIf_def checks_ok_def Let_def)
  qed
qed


lemma sdiv_range: "in_int32 (sint (a :: i32) sdiv sint (b :: i32)) \<longleftrightarrow> \<not> (a = int32_min \<and> b = -1)"
proof
  assume r: "in_int32 (sint a sdiv sint b)"
  show "\<not> (a = int32_min \<and> b = -1)"
  proof
    assume "a = int32_min \<and> b = -1"
    then show False using r by (simp add: in_int32_def)
  qed
next
  assume n: "\<not> (a = int32_min \<and> b = -1)"
  have r: "\<bar>sint a sdiv sint b\<bar> \<le> \<bar>sint a\<bar>" using sdiv_int_range[of "sint a" "sint b"] by auto
  show "in_int32 (sint a sdiv sint b)"
  proof (rule ccontr)
    assume "\<not> in_int32 (sint a sdiv sint b)"
    then have q: "sint a sdiv sint b = 2 ^ 31" using r sint_bounds(3)[of a] by (auto simp: in_int32_def)
    then have a: "sint a = - (2 ^ 31)" using r sint_bounds(1,2)[of a] by auto
    then have "sint a sdiv sint b = - sint a" using q by simp
    then have "sint b = -1" using int_sdiv_negated_is_minus1[of "sint a" "sint b"] a by simp
    then show False using n a by (simp only: sint_eq_min sint_eq_minus_1) simp
  qed
qed

lemma idiv_sint:
  "b \<noteq> 0 \<Longrightarrow> \<not> (a = int32_min \<and> b = -1) \<Longrightarrow>
     idiv (sint a) b = Some (word_of_int (sint a sdiv sint b), word_of_int (sint a smod sint b))"
  by (simp only: idiv_def sdiv_range) simp

lemma smod_range: "(b :: i32) \<noteq> 0 \<Longrightarrow> in_int32 (sint (a :: i32) smod sint b)"
  using smod_int_range[of "sint b" "sint a"] sint_bounds(3)[of b] by (auto simp: in_int32_def sint_eq_0)

lemma word_smod_eq_0: "(b :: i32) \<noteq> 0 \<Longrightarrow> (word_of_int (sint (a :: i32) smod sint b) :: i32) = 0 \<longleftrightarrow> sint a smod sint b = 0"
  using sint_word_of_int[OF smod_range, of b a] by (metis sint_eq_0)

lemma dii_div_zero:
  assumes "is_int32_spec dii"
  shows "dii (dbl_div (num a) (num 0)) = None"
proof (rule dii_not_finite[OF assms])
  have "dbl_div (num a) (num 0) = (if a = 0 then dbl_nan else mk_dbl (sint a < 0) inf_mag)"
    by (simp only: dbl_div_def num_facts Let_def) simp
  then show "\<not> dbl_is_finite (dbl_div (num a) (num 0))"
    using mk_dbl_simps(2)[of inf_mag "sint a < 0"]
    by (auto simp: dbl_is_finite_def dbl_nan_def inf_mag_def dbl_mag_def)
qed

lemma div_code:
  assumes dii: "is_int32_spec dii" and ok: "checks_ok Op_Div m a b"
  shows "visitDivI m a b = int32_or_bail dii (dbl_div (num a) (num b))"
proof (cases "b = 0")
  case True
  then show ?thesis using ok dii_div_zero[OF dii, of a] by (simp add: visitDivI_def bailoutIf_def checks_ok_def int32_or_bail_def)
next
  case b: False
  show ?thesis
  proof (cases "sint a smod sint b = 0")
    case True
    have r: "\<bar>sint a sdiv sint b\<bar> \<le> 2 ^ 63" using sdiv_int_range[of "sint a" "sint b"] sint_bounds(3)[of a] by auto
    have m: "a = int32_min \<Longrightarrow> b = -1 \<Longrightarrow> int32_or_bail dii (dbl_of_int (2 ^ 31)) = Bailout"
      by (subst int32_or_bail_of_int[OF dii]) (simp_all add: in_int32_def)
    show ?thesis using b ok True m
      by (auto simp: num_div_exact int32_or_bail_neg_zero[OF dii] int32_or_bail_of_int[OF dii r] visitDivI_def bailoutIf_def
          checks_ok_def idiv_sint sdiv_range simp flip: int32_min_def)
  next
    case False
    have "dii (dbl_div (num a) (num b)) = None"
    proof (rule dii_None[OF dii])
      show "dbl_div (num a) (num b) \<noteq> num r" for r
        using num_div_inexact(3)[OF b False, of "sint r"] dval_num[of r] by auto
    qed
    moreover have "\<not> (a = int32_min \<and> b = -1)" using False by (auto simp: signed_modulo_int_def)
    ultimately show ?thesis using b ok False
      by (auto simp: int32_or_bail_def visitDivI_def bailoutIf_def checks_ok_def idiv_sint word_smod_eq_0 simp flip: int32_min_def)
  qed
qed


lemma mod_result_exact:
  assumes "is_int32_spec dii" "b \<noteq> 0"
  shows "int32_or_bail dii (dbl_fmod (num a) (num b)) =
    (if sint a smod sint b = 0 \<and> sint a < 0 then Bailout else Value (word_of_int (sint a smod sint b)))"
proof -
  have "\<bar>sint a smod sint b\<bar> \<le> 2 ^ 63" using smod_range[OF assms(2), of a] by (auto simp: in_int32_def)
  then show ?thesis
    using assms smod_range[OF assms(2), of a] by (simp add: num_fmod int32_or_bail_neg_zero int32_or_bail_of_int)
qed

lemma dii_fmod_zero: "is_int32_spec dii \<Longrightarrow> dii (dbl_fmod (num a) (num 0)) = None"
proof (rule dii_not_finite)
  have "dbl_fmod (num a) (num 0) = dbl_nan" by (simp only: dbl_fmod_def num_facts) simp
  then show "\<not> dbl_is_finite (dbl_fmod (num a) (num 0))" by (simp add: dbl_is_finite_def dbl_nan_def inf_mag_def dbl_mag_def)
qed

lemma uint_neg:
  assumes "sint (a :: i32) < 0"
  shows "uint (- a) = - sint a"
proof -
  have "uint (word_of_int (- sint a) :: i32) = (- sint a) mod 2 ^ 32" by (simp only: uint_word_of_int) simp
  then have "uint (- a) = (- sint a) mod 2 ^ 32" by simp
  moreover have "(- sint a) mod 2 ^ 32 = - sint a" using assms sint_bounds(1)[of a] by (intro mod_pos_pos_trivial) auto
  ultimately show ?thesis by simp
qed

lemma uint_nonneg: "\<not> sint (a :: i32) < 0 \<Longrightarrow> uint a = sint a"
  unfolding uint_sint[of a] using sint_bounds(2)[of a] by (intro take_bit_int_eq_self) auto

lemma mod_code:
  assumes dii: "is_int32_spec dii"
  shows "visitModI a b = (if a = int32_min then Bailout else int32_or_bail dii (dbl_fmod (num a) (num b)))"
proof (cases "b = 0")
  case True
  then show ?thesis using dii_fmod_zero[OF dii, of a] by (simp add: visitModI_def bailoutIf_def int32_or_bail_def)
next
  case b: False
  show ?thesis
  proof (cases "sint a < 0")
    case False
    then have "a \<noteq> int32_min" by auto
    then show ?thesis using False b uint_nonneg[OF False]
      by (auto simp: visitModI_def bailoutIf_def mod_result_exact[OF dii b] idiv_sint)
  next
    case True
    have ov: "in_int32 (- sint a) \<longleftrightarrow> a \<noteq> int32_min"
      using sint_bounds(1,2)[of a] sint_eq_min[of a] by (auto simp: in_int32_def)
    have "visitModI a b =
        (if a = int32_min \<or> sint a smod sint b = 0 then Bailout else Value (word_of_int (sint a smod sint b)))"
    proof (cases "a = int32_min")
      case m: True
      have "visitModI a b = Bailout"
        unfolding visitModI_def bailoutIf_def using True b m ov by (simp only: simp_thms if_False if_True)
      then show ?thesis using m by simp
    next
      case m: False
      have s: "sint (- a) = - sint a" using sint_word_of_int[of "- sint a"] m ov by simp
      then have "- a \<noteq> int32_min" using True by auto
      then have i: "idiv (- sint a) b = Some (word_of_int (- sint a sdiv sint b), - word_of_int (sint a smod sint b))"
        using idiv_sint[OF b, of "- a"] unfolding s by (simp only: simp_thms minus_sdiv_eq minus_smod_eq of_int_minus)
      have "visitModI a b = bailoutIf ((- word_of_int (sint a smod sint b) :: i32) = 0)
          (Value (- (- word_of_int (sint a smod sint b))))"
        unfolding visitModI_def bailoutIf_def uint_neg[OF True] i using True b m ov
        by (simp only: simp_thms if_False if_True option.case prod.case)
      then show ?thesis using m word_smod_eq_0[OF b, of a] by (simp add: bailoutIf_def)
    qed
    then show ?thesis using True by (simp add: mod_result_exact[OF dii b])
  qed
qed

lemma pow2_const:
  assumes "push_bit k 1 = (b :: i32)" "b \<noteq> 0"
  shows "\<bar>sint b\<bar> = 2 ^ k" "x AND (push_bit k 1 - 1) = take_bit k x"
proof -
  have b: "b = 2 ^ k" using assms(1) by (simp add: push_bit_eq_mult)
  show "x AND (push_bit k 1 - 1) = take_bit k x" by (simp add: take_bit_eq_mask mask_eq_exp_minus_1 push_bit_eq_mult)
  have "k < 32"
  proof (rule ccontr)
    assume "\<not> k < 32"
    then have "(2 ^ k :: i32) = 0" by (simp add: exp_eq_zero_iff)
    then show False using assms(2) b by simp
  qed
  then consider "k < 31" | "k = 31" by linarith
  then show "\<bar>sint b\<bar> = 2 ^ k"
  proof cases
    case 1
    then have "(2 :: int) ^ k < 2 ^ 31" by (rule power_strict_increasing) simp
    moreover have "(0 :: int) < 2 ^ k" by (rule zero_less_power) simp
    ultimately have "in_int32 (2 ^ k)" unfolding in_int32_def by linarith
    then have "sint (word_of_int (2 ^ k) :: i32) = 2 ^ k" by (rule sint_word_of_int)
    then show ?thesis unfolding b by simp
  qed (simp add: b)
qed

lemma is_pow2_const_nonzero: "is_pow2_const c b \<Longrightarrow> b \<noteq> 0"
  by (auto simp: is_pow2_const_def floor_log2_def floorlog_def)

lemma smod_abs: "(a :: int) smod \<bar>b\<bar> = a smod b"
  by (simp add: abs_if)

lemma mod_pow2_code:
  assumes dii: "is_int32_spec dii" and k: "push_bit k 1 = b" and b: "b \<noteq> 0"
  shows "visitModPowTwoI k a = int32_or_bail dii (dbl_fmod (num a) (num b))"
proof -
  note p = pow2_const[OF k b]
  have tb: "take_bit k x = word_of_int (uint x mod \<bar>sint b\<bar>)" for x :: i32
  proof -
    have "uint (take_bit k x) = uint x mod \<bar>sint b\<bar>"
      by (subst unsigned_take_bit_eq) (simp only: p(1) take_bit_eq_mod)
    then show ?thesis by (metis word_of_int_uint)
  qed
  show ?thesis
  proof (cases "sint a < 0")
    case False
    have "uint a mod \<bar>sint b\<bar> = sint a smod sint b"
      using smod_mod_positive[of "sint a" "\<bar>sint b\<bar>"] False uint_nonneg[OF False] by (simp add: smod_abs)
    then show ?thesis using False unfolding visitModPowTwoI_def p(2) tb by (simp add: mod_result_exact[OF dii b] del: of_int_uint)
  next
    case True
    have "uint (- a) mod \<bar>sint b\<bar> = - sint a mod \<bar>sint b\<bar>" by (simp only: uint_neg[OF True])
    also have "\<dots> = - sint a smod \<bar>sint b\<bar>" using smod_mod_positive[of "- sint a" "\<bar>sint b\<bar>"] True by simp
    also have "\<dots> = - (sint a smod sint b)" by (simp add: smod_abs)
    finally have u: "take_bit k (- a) = word_of_int (- (sint a smod sint b))" unfolding tb by (simp only:)
    show ?thesis using True word_smod_eq_0[OF b, of a]
      unfolding visitModPowTwoI_def p(2) u by (simp add: mod_result_exact[OF dii b] bailoutIf_def)
  qed
qed

text \<open>
  C35: the int32 arithmetic that the code generator emits computes the JavaScript operator on the
  operand values, or bails out. When every check an instruction leaves out is redundant for its
  operands, the code for an addition, subtraction, multiplication, division or remainder leaves the
  int32 that represents the exact JavaScript result (IEEE binary64, -0 distinguished) in the output
  register if there is one, and bails out precisely when there is none, apart from \<open>INT32_MIN % x\<close>
  outside the power-of-two path, where it always bails out. It never traps.
\<close>

theorem int32_code_exact:
  assumes dii: "is_int32_spec dii" and ok: "checks_ok opc m a b"
    and opc: "opc \<in> {Op_Add, Op_Sub, Op_Mul, Op_Div, Op_Mod}"
  shows "int32_code opc m rhsConstant a b =
    Some (if opc = Op_Mod \<and> a = int32_min \<and> \<not> is_pow2_const rhsConstant b then Bailout
          else int32_or_bail dii (js_op opc (num a) (num b)))"
proof -
  have mul: "visitMulI m rhsConstant a b = int32_or_bail dii (dbl_mul (num a) (num b))" if "opc = Op_Mul"
    using ok that mul_const_code[of m a b] mul_reg_code[of m a b] by (simp add: visitMulI_def mul_result_exact[OF dii])
  have div: "visitDivI m a b = int32_or_bail dii (dbl_div (num a) (num b))" if "opc = Op_Div"
    using ok that div_code[OF dii, of m a b] by simp
  have pw: "visitModPowTwoI (floor_log2 b) a = int32_or_bail dii (dbl_fmod (num a) (num b))" if "is_pow2_const rhsConstant b"
    using that mod_pow2_code[OF dii _ is_pow2_const_nonzero[OF that], of "floor_log2 b" a] by (simp add: is_pow2_const_def)
  have tr: "opc = Op_Add \<or> opc = Op_Sub \<Longrightarrow> \<not> ma_implicitTruncate m" using ok by (auto simp: checks_ok_def)
  show ?thesis using opc tr mul div pw add_code[OF dii] sub_code[OF dii] mod_code[OF dii]
    by (elim insertE emptyE) (simp_all add: int32_code_def)
qed


theorem int32_code_exact_witness:
  "int32_code Op_Div (ex_attrs MIRType_Int32 VUndefined VUndefined 2) False 7 2 = Some (int32_or_bail ex_dii (js_op Op_Div (num 7) (num 2)))
   \<and> int32_code Op_Div (ex_attrs MIRType_Int32 VUndefined VUndefined 2) False 7 2 = Some Bailout
   \<and> int32_code Op_Div (ex_attrs MIRType_Int32 VUndefined VUndefined 2) False 8 2 = Some (int32_or_bail ex_dii (js_op Op_Div (num 8) (num 2)))
   \<and> int32_code Op_Div (ex_attrs MIRType_Int32 VUndefined VUndefined 2) False 8 2 = Some (Value 4)"
proof (intro conjI)
  have ok: "checks_ok Op_Div (ex_attrs MIRType_Int32 VUndefined VUndefined 2) a b" for a b
    by (simp add: checks_ok_def ex_attrs_def)
  show "int32_code Op_Div (ex_attrs MIRType_Int32 VUndefined VUndefined 2) False 7 2 = Some (int32_or_bail ex_dii (js_op Op_Div (num 7) (num 2)))"
    using int32_code_exact[OF ex_dii_spec ok[of 7 2], of False] by simp
  show "int32_code Op_Div (ex_attrs MIRType_Int32 VUndefined VUndefined 2) False 8 2 = Some (int32_or_bail ex_dii (js_op Op_Div (num 8) (num 2)))"
    using int32_code_exact[OF ex_dii_spec ok[of 8 2], of False] by simp
qed code_simp+

end
