(* ===== verification/Range_Analysis.thy ===== *)
theory Range_Analysis
  imports Mir_Blocks Int32_Codegen
begin

text \<open>
  Range analysis (\<open>ion/RangeAnalysis.cpp\<close> and the analysis methods of \<open>ion/MIR.cpp\<close>): it sets
  the attributes that let the code generator leave out a check. The early pass marks additions,
  subtractions and divisions as truncated when every use only looks at the value modulo \<open>2 ^ 32\<close>;
  the late pass clears the checks that a constant operand makes redundant, then the negative zero
  check of every instruction no use of which can tell -0 from 0.

  The passes change only the attributes, so the nodes are an argument. An absent operand, which the
  code would dereference, makes the result \<open>None\<close>.
\<close>

subsection \<open>The early pass\<close>

text \<open>One iteration of the loop of \<open>AllUsesTruncate\<close>: the using node continues the loop.\<close>

definition use_truncates :: "nodes \<Rightarrow> attrs \<Rightarrow> nat \<Rightarrow> bool" where
  "use_truncates h a n =
     (if isResumePoint h n then False
      else case mn_op (h n) of
        Op_TruncateToInt32 \<Rightarrow> True
      | Op_BitAnd \<Rightarrow> True
      | Op_BitOr \<Rightarrow> True
      | Op_BitXor \<Rightarrow> True
      | Op_Lsh \<Rightarrow> True
      | Op_Rsh \<Rightarrow> True
      | Op_BitNot \<Rightarrow> True
      | Op_Add \<Rightarrow> ma_implicitTruncate (a n)
      | Op_Sub \<Rightarrow> ma_implicitTruncate (a n)
      | _ \<Rightarrow> False)"

fun all_uses_truncate :: "nodes \<Rightarrow> attrs \<Rightarrow> (nat \<times> nat) list \<Rightarrow> bool" where
  "all_uses_truncate h a [] = True"
| "all_uses_truncate h a (u # us) = (if use_truncates h a (fst u) then all_uses_truncate h a us else False)"

definition AllUsesTruncate :: "nodes \<Rightarrow> attrs \<Rightarrow> nat \<Rightarrow> bool" where
  "AllUsesTruncate h a m = all_uses_truncate h a (mn_uses (h m))"

definition setTruncated :: "nat \<Rightarrow> bool \<Rightarrow> attrs \<Rightarrow> attrs" where
  "setTruncated n v a = a(n := (a n)\<lparr>ma_implicitTruncate := v\<rparr>)"

text \<open>\<open>MAdd\<close>, \<open>MSub\<close> and \<open>MDiv\<close> override the empty \<open>MDefinition::analyzeTruncateBackward\<close>.\<close>

definition analyzeTruncateBackward :: "nodes \<Rightarrow> nat \<Rightarrow> attrs \<Rightarrow> attrs" where
  "analyzeTruncateBackward h n a =
     (if mn_op (h n) = Op_Add \<or> mn_op (h n) = Op_Sub \<or> mn_op (h n) = Op_Div
      then (if \<not> ma_implicitTruncate (a n) then setTruncated n (AllUsesTruncate h a n) a else a)
      else a)"

definition postorder_instructions :: "mir_graph \<Rightarrow> nat list" where
  "postorder_instructions g = concat (map (\<lambda>b. rev (bl_instructions (g_blocks g b))) (rev (g_blockList g)))"

definition analyzeEarly :: "mir_graph \<Rightarrow> attrs \<Rightarrow> attrs" where
  "analyzeEarly g a = fold (analyzeTruncateBackward (g_nodes g)) (postorder_instructions g) a"

text \<open>The \<open>updateForReplacement\<close> of the arithmetic instructions, called when GVN replaces \<open>n\<close> by a
  congruent instruction; \<open>n\<close> is the instruction that stays.\<close>

definition arith_updateForReplacement :: "nodes \<Rightarrow> nat \<Rightarrow> nat \<Rightarrow> attrs \<Rightarrow> attrs option" where
  "arith_updateForReplacement h n ins a = (case mn_op (h n) of
      Op_Add \<Rightarrow> do { js_assert (mn_op (h ins) = Op_Add);
                     Some (if ma_implicitTruncate (a n) then setTruncated n (ma_implicitTruncate (a ins)) a else a) }
    | Op_Sub \<Rightarrow> do { js_assert (mn_op (h ins) = Op_Sub);
                     Some (if ma_implicitTruncate (a n) then setTruncated n (ma_implicitTruncate (a ins)) a else a) }
    | Op_Div \<Rightarrow> do { js_assert (mn_op (h ins) = Op_Div);
                     Some (if ma_implicitTruncate (a n) then setTruncated n (ma_implicitTruncate (a ins)) a else a) }
    | _ \<Rightarrow> Some a)"

subsection \<open>Which uses tell -0 from 0\<close>

definition zero_op :: "Opcode \<Rightarrow> bool" where
  "zero_op opc \<longleftrightarrow> opc = Op_Mul \<or> opc = Op_Div \<or> opc = Op_ToInt32"

text \<open>The case for an addition: \<open>Some True\<close> is \<open>return true\<close>, \<open>Some False\<close> the end of the case.\<close>

definition add_use_needs_check :: "nodes \<Rightarrow> attrs \<Rightarrow> nat \<Rightarrow> nat \<Rightarrow> bool option" where
  "add_use_needs_check h a d n = do {
     op0 \<leftarrow> getOperand h n 0;
     op1 \<leftarrow> getOperand h n 1;
     let operand = (if op0 = d then op1 else op0);
     if op0 = d \<and> operand = d then Some True
     else if zero_op (mn_op (h operand)) then Some (\<not> ma_canBeNegativeZero (a operand))
     else Some (mn_op (h operand) = Op_Phi) }"

definition other_than_second_operand :: "nodes \<Rightarrow> nat \<Rightarrow> nat \<Rightarrow> bool" where
  "other_than_second_operand h d n =
     (if getOperand h n 0 = Some d then True
      else numOperands h n > 2 \<and> (\<exists>i \<in> set [2..<numOperands h n]. getOperand h n i = Some d))"

definition use_needs_check :: "nodes \<Rightarrow> attrs \<Rightarrow> nat \<Rightarrow> nat \<Rightarrow> bool option" where
  "use_needs_check h a d n =
     (if isResumePoint h n then Some True
      else if mn_op (h n) = Op_Add then add_use_needs_check h a d n
      else if mn_op (h n) \<in> {Op_StoreElement, Op_StoreElementHole, Op_LoadElement, Op_LoadElementHole,
                Op_LoadTypedArrayElement, Op_LoadTypedArrayElementHole, Op_CharCodeAt, Op_Mod, Op_Sub}
           then Some (other_than_second_operand h d n)
      else if mn_op (h n) = Op_BoundsCheck then Some (getOperand h n 1 = Some d)
      else if mn_op (h n) \<in> {Op_ToString, Op_FromCharCode, Op_TableSwitch, Op_Compare, Op_BitAnd, Op_BitOr, Op_BitXor, Op_Abs}
           then Some False
      else Some True)"

fun any_use_needs_check :: "nodes \<Rightarrow> attrs \<Rightarrow> nat \<Rightarrow> (nat \<times> nat) list \<Rightarrow> bool option" where
  "any_use_needs_check h a d [] = Some False"
| "any_use_needs_check h a d (u # us) = do {
     b \<leftarrow> use_needs_check h a d (fst u);
     if b then Some True else any_use_needs_check h a d us }"

definition NeedNegativeZeroCheck :: "nodes \<Rightarrow> attrs \<Rightarrow> nat \<Rightarrow> bool option" where
  "NeedNegativeZeroCheck h a d = any_use_needs_check h a d (mn_uses (h d))"

subsection \<open>The late pass\<close>

definition setCanBeNegativeZero :: "nat \<Rightarrow> bool \<Rightarrow> attrs \<Rightarrow> attrs" where
  "setCanBeNegativeZero n v a = a(n := (a n)\<lparr>ma_canBeNegativeZero := v\<rparr>)"

definition MDiv_clearChecks :: "nodes \<Rightarrow> attrs \<Rightarrow> nat \<Rightarrow> nat \<Rightarrow> mattr \<Rightarrow> mattr" where
  "MDiv_clearChecks h a lhs rhs m =
     (let m = (if isConstant h rhs \<and> ma_value (a rhs) \<noteq> VInt32 0 then m\<lparr>ma_canBeDivideByZero := False\<rparr> else m);
          m = (if isConstant h lhs \<and> ma_value (a lhs) \<noteq> VInt32 0x80000000 then m\<lparr>ma_canBeNegativeOverflow := False\<rparr> else m);
          m = (if isConstant h rhs \<and> ma_value (a rhs) \<noteq> VInt32 (-1) then m\<lparr>ma_canBeNegativeOverflow := False\<rparr> else m);
          m = (if isConstant h lhs \<and> ma_value (a lhs) \<noteq> VInt32 0 then m\<lparr>ma_canBeNegativeZero := False\<rparr> else m)
      in if isConstant h rhs \<and> (case ma_value (a rhs) of VInt32 i \<Rightarrow> sint i \<ge> 0 | _ \<Rightarrow> False)
         then m\<lparr>ma_canBeNegativeZero := False\<rparr> else m)"

definition MDiv_analyzeRangeForward :: "nodes \<Rightarrow> nat \<Rightarrow> attrs \<Rightarrow> attrs option" where
  "MDiv_analyzeRangeForward h n a =
     (if ma_specialization (a n) \<noteq> MIRType_Int32 then Some a
      else do {
        lhs \<leftarrow> getOperand h n 0;
        rhs \<leftarrow> getOperand h n 1;
        Some (a(n := MDiv_clearChecks h a lhs rhs (a n))) })"

definition positive_constant :: "nodes \<Rightarrow> attrs \<Rightarrow> nat \<Rightarrow> bool" where
  "positive_constant h a k \<longleftrightarrow> isConstant h k \<and> (case ma_value (a k) of VInt32 i \<Rightarrow> sint i > 0 | _ \<Rightarrow> False)"

definition MMul_analyzeRangeForward :: "nodes \<Rightarrow> nat \<Rightarrow> attrs \<Rightarrow> attrs option" where
  "MMul_analyzeRangeForward h n a =
     (if ma_specialization (a n) \<noteq> MIRType_Int32 then Some a
      else do {
        lhs \<leftarrow> getOperand h n 0;
        rhs \<leftarrow> getOperand h n 1;
        let a = (if positive_constant h a lhs then setCanBeNegativeZero n False a else a);
        Some (if positive_constant h a rhs then setCanBeNegativeZero n False a else a) })"

definition analyzeRangeForward :: "nodes \<Rightarrow> nat \<Rightarrow> attrs \<Rightarrow> attrs option" where
  "analyzeRangeForward h n a = (case mn_op (h n) of
      Op_Div \<Rightarrow> MDiv_analyzeRangeForward h n a
    | Op_Mul \<Rightarrow> MMul_analyzeRangeForward h n a
    | _ \<Rightarrow> Some a)"

definition checkedBackward :: "nodes \<Rightarrow> nat \<Rightarrow> attrs \<Rightarrow> attrs option" where
  "checkedBackward h n a =
     (if ma_canBeNegativeZero (a n) then do { b \<leftarrow> NeedNegativeZeroCheck h a n; Some (setCanBeNegativeZero n b a) }
      else Some a)"

definition analyzeRangeBackward :: "nodes \<Rightarrow> nat \<Rightarrow> attrs \<Rightarrow> attrs option" where
  "analyzeRangeBackward h n a = (case mn_op (h n) of
      Op_Div \<Rightarrow> checkedBackward h n a
    | Op_Mul \<Rightarrow> checkedBackward h n a
    | Op_ToInt32 \<Rightarrow> do { b \<leftarrow> NeedNegativeZeroCheck h a n; Some (setCanBeNegativeZero n b a) }
    | _ \<Rightarrow> Some a)"

text \<open>\<open>MDefinitionIterator\<close>: the phis, then the instructions before the last one.\<close>

definition block_definitions :: "mblock \<Rightarrow> nat list" where
  "block_definitions b = bl_phis b @ takeWhile (\<lambda>i. bl_lastIns b \<noteq> Some i) (bl_instructions b)"

definition rpo_definitions :: "mir_graph \<Rightarrow> nat list" where
  "rpo_definitions g = concat (map (\<lambda>b. block_definitions (g_blocks g b)) (g_blockList g))"

definition analyzeLate :: "mir_graph \<Rightarrow> attrs \<Rightarrow> attrs option" where
  "analyzeLate g a = do {
     a \<leftarrow> mfold (analyzeRangeForward (g_nodes g)) (rpo_definitions g) a;
     mfold (analyzeRangeBackward (g_nodes g)) (postorder_instructions g) a }"

subsection \<open>What the early pass establishes\<close>

definition trunc_op :: "Opcode \<Rightarrow> bool" where
  "trunc_op opc \<longleftrightarrow> opc = Op_Add \<or> opc = Op_Sub \<or> opc = Op_Div"

definition truncated :: "nodes \<Rightarrow> attrs \<Rightarrow> nat \<Rightarrow> bool" where
  "truncated h a n \<longleftrightarrow> trunc_op (mn_op (h n)) \<and> ma_implicitTruncate (a n)"

definition trunc_ok :: "nodes \<Rightarrow> attrs \<Rightarrow> bool" where
  "trunc_ok h a \<longleftrightarrow> (\<forall>n. truncated h a n \<longrightarrow> AllUsesTruncate h a n)"

lemma AllUsesTruncate_iff: "AllUsesTruncate h a m \<longleftrightarrow> (\<forall>u \<in> set (mn_uses (h m)). use_truncates h a (fst u))"
proof -
  have "all_uses_truncate h a us \<longleftrightarrow> (\<forall>u \<in> set us. use_truncates h a (fst u))" for us by (induction us) auto
  then show ?thesis by (simp add: AllUsesTruncate_def)
qed

lemma use_truncates_mono:
  "use_truncates h a n \<Longrightarrow> (\<And>k. ma_implicitTruncate (a k) \<Longrightarrow> ma_implicitTruncate (b k)) \<Longrightarrow> use_truncates h b n"
  by (auto simp: use_truncates_def split: Opcode.splits if_splits)

lemma analyzeTruncateBackward_mono:
  "ma_implicitTruncate (a k) \<Longrightarrow> ma_implicitTruncate (analyzeTruncateBackward h n a k)"
  by (auto simp: analyzeTruncateBackward_def setTruncated_def)

lemma analyzeTruncateBackward_keeps [simp]:
  "ma_value (analyzeTruncateBackward h n a k) = ma_value (a k)"
  "ma_specialization (analyzeTruncateBackward h n a k) = ma_specialization (a k)"
  "ma_canBeNegativeZero (analyzeTruncateBackward h n a k) = ma_canBeNegativeZero (a k)"
  "ma_canBeNegativeOverflow (analyzeTruncateBackward h n a k) = ma_canBeNegativeOverflow (a k)"
  "ma_canBeDivideByZero (analyzeTruncateBackward h n a k) = ma_canBeDivideByZero (a k)"
  "ma_canOverflow (analyzeTruncateBackward h n a k) = ma_canOverflow (a k)"
  by (simp_all add: analyzeTruncateBackward_def setTruncated_def)

lemma analyzeTruncateBackward_ok:
  assumes "trunc_ok h a"
  shows "trunc_ok h (analyzeTruncateBackward h n a)"
  unfolding trunc_ok_def
proof (intro allI impI)
  fix k
  let ?b = "analyzeTruncateBackward h n a"
  assume t: "truncated h ?b k"
  have "AllUsesTruncate h a k"
  proof (cases "truncated h a k")
    case False
    then have "k = n" "AllUsesTruncate h a n"
      using t by (auto simp: truncated_def analyzeTruncateBackward_def setTruncated_def split: if_splits)
    then show ?thesis by simp
  qed (use assms in \<open>simp add: trunc_ok_def\<close>)
  then show "AllUsesTruncate h ?b k"
    unfolding AllUsesTruncate_iff using use_truncates_mono[of h a _ ?b] analyzeTruncateBackward_mono by blast
qed

lemma early_fold:
  "trunc_ok h a \<Longrightarrow> trunc_ok h (fold (analyzeTruncateBackward h) ns a)"
  "ma_value (fold (analyzeTruncateBackward h) ns a k) = ma_value (a k)"
  "ma_specialization (fold (analyzeTruncateBackward h) ns a k) = ma_specialization (a k)"
  "ma_canBeNegativeZero (fold (analyzeTruncateBackward h) ns a k) = ma_canBeNegativeZero (a k)"
  "ma_canBeNegativeOverflow (fold (analyzeTruncateBackward h) ns a k) = ma_canBeNegativeOverflow (a k)"
  "ma_canBeDivideByZero (fold (analyzeTruncateBackward h) ns a k) = ma_canBeDivideByZero (a k)"
  "ma_canOverflow (fold (analyzeTruncateBackward h) ns a k) = ma_canOverflow (a k)"
  by (induction ns arbitrary: a) (simp_all add: analyzeTruncateBackward_ok)

subsection \<open>What the late pass establishes\<close>

definition nonneg_constant :: "nodes \<Rightarrow> attrs \<Rightarrow> nat \<Rightarrow> bool" where
  "nonneg_constant h a k \<longleftrightarrow> isConstant h k \<and> (case ma_value (a k) of VInt32 i \<Rightarrow> sint i \<ge> 0 | _ \<Rightarrow> False)"

definition constant_but :: "nodes \<Rightarrow> attrs \<Rightarrow> nat \<Rightarrow> i32 \<Rightarrow> bool" where
  "constant_but h a k i \<longleftrightarrow> isConstant h k \<and> ma_value (a k) \<noteq> VInt32 i"

text \<open>A constant operand rules out -0, a division by zero, or \<open>INT32_MIN / -1\<close>.\<close>

definition zero_justified :: "nodes \<Rightarrow> attrs \<Rightarrow> nat \<Rightarrow> bool" where
  "zero_justified h a n \<longleftrightarrow> (\<exists>l r. getOperand h n 0 = Some l \<and> getOperand h n 1 = Some r \<and>
     (mn_op (h n) = Op_Mul \<and> (positive_constant h a l \<or> positive_constant h a r) \<or>
      mn_op (h n) = Op_Div \<and> (constant_but h a l 0 \<or> nonneg_constant h a r)))"

definition forward_ok :: "nodes \<Rightarrow> attrs \<Rightarrow> bool" where
  "forward_ok h a \<longleftrightarrow>
     (\<forall>n l r. mn_op (h n) = Op_Div \<longrightarrow> getOperand h n 0 = Some l \<longrightarrow> getOperand h n 1 = Some r \<longrightarrow>
        (ma_canBeDivideByZero (a n) \<or> constant_but h a r 0) \<and>
        (ma_canBeNegativeOverflow (a n) \<or> constant_but h a l int32_min \<or> constant_but h a r (-1))) \<and>
     (\<forall>n. mn_op (h n) = Op_Mul \<or> mn_op (h n) = Op_Ursh \<longrightarrow> ma_canOverflow (a n))"

definition zero_ok :: "nodes \<Rightarrow> attrs \<Rightarrow> bool" where
  "zero_ok h a \<longleftrightarrow> (\<forall>n. zero_op (mn_op (h n)) \<longrightarrow> \<not> ma_canBeNegativeZero (a n) \<longrightarrow>
     zero_justified h a n \<or> NeedNegativeZeroCheck h a n = Some False)"


text \<open>The invariant of the forward pass: every cleared check is redundant by a constant operand.\<close>

definition forward_inv :: "nodes \<Rightarrow> attrs \<Rightarrow> bool" where
  "forward_inv h a \<longleftrightarrow> forward_ok h a \<and>
     (\<forall>n. zero_op (mn_op (h n)) \<longrightarrow> \<not> ma_canBeNegativeZero (a n) \<longrightarrow> zero_justified h a n)"

lemma constant_cong:
  assumes "\<And>k. ma_value (b k) = ma_value (a k)"
  shows "positive_constant h b = positive_constant h a" "nonneg_constant h b = nonneg_constant h a"
    "constant_but h b = constant_but h a" "zero_justified h b = zero_justified h a"
proof -
  show 1: "positive_constant h b = positive_constant h a" "nonneg_constant h b = nonneg_constant h a"
    "constant_but h b = constant_but h a"
    by (auto simp: positive_constant_def nonneg_constant_def constant_but_def assms fun_eq_iff)
  show "zero_justified h b = zero_justified h a"
    unfolding zero_justified_def[abs_def] 1 ..
qed

lemma MMul_forward:
  assumes "MMul_analyzeRangeForward h n a = Some b" "forward_inv h a" "mn_op (h n) = Op_Mul"
  shows "forward_inv h b" "\<And>k. ma_value (b k) = ma_value (a k)" "\<And>k. ma_implicitTruncate (b k) = ma_implicitTruncate (a k)"
proof -
  show v: "\<And>k. ma_value (b k) = ma_value (a k)" and "\<And>k. ma_implicitTruncate (b k) = ma_implicitTruncate (a k)"
    using assms(1)
    by (auto simp: MMul_analyzeRangeForward_def setCanBeNegativeZero_def Let_def split: if_splits Option.bind_splits)
  note c = constant_cong[where a = a and b = b, OF v]
  have fl: "\<And>k. k \<noteq> n \<Longrightarrow> b k = a k" "ma_canOverflow (b n) = ma_canOverflow (a n)"
    using assms(1)
    by (auto simp: MMul_analyzeRangeForward_def setCanBeNegativeZero_def Let_def split: if_splits Option.bind_splits)
  have z: "\<not> ma_canBeNegativeZero (b n) \<Longrightarrow> ma_canBeNegativeZero (a n) \<Longrightarrow> zero_justified h a n"
    using assms(1,3)
    by (auto simp: MMul_analyzeRangeForward_def setCanBeNegativeZero_def Let_def positive_constant_def zero_justified_def
        split: if_splits Option.bind_splits)
  show "forward_inv h b"
    using assms(2,3) fl z unfolding forward_inv_def forward_ok_def c by (metis Opcode.distinct)
qed


lemma MDiv_clearChecks_simps [simp]:
  "ma_value (MDiv_clearChecks h a l r m) = ma_value m"
  "ma_implicitTruncate (MDiv_clearChecks h a l r m) = ma_implicitTruncate m"
  "ma_canOverflow (MDiv_clearChecks h a l r m) = ma_canOverflow m"
  "ma_canBeDivideByZero (MDiv_clearChecks h a l r m) \<longleftrightarrow> ma_canBeDivideByZero m \<and> \<not> constant_but h a r 0"
  "ma_canBeNegativeOverflow (MDiv_clearChecks h a l r m) \<longleftrightarrow>
     ma_canBeNegativeOverflow m \<and> \<not> constant_but h a l int32_min \<and> \<not> constant_but h a r (-1)"
  "ma_canBeNegativeZero (MDiv_clearChecks h a l r m) \<longleftrightarrow>
     ma_canBeNegativeZero m \<and> \<not> constant_but h a l 0 \<and> \<not> nonneg_constant h a r"
  by (simp_all add: MDiv_clearChecks_def Let_def constant_but_def nonneg_constant_def int32_min_def)

lemma MDiv_forward:
  assumes "MDiv_analyzeRangeForward h n a = Some b" "forward_inv h a" "mn_op (h n) = Op_Div"
  shows "forward_inv h b \<and> (\<forall>k. ma_value (b k) = ma_value (a k)) \<and> (\<forall>k. ma_implicitTruncate (b k) = ma_implicitTruncate (a k))"
proof (cases "ma_specialization (a n) = MIRType_Int32")
  case True
  obtain l r where lr: "getOperand h n 0 = Some l" "getOperand h n 1 = Some r" and b: "b = a(n := MDiv_clearChecks h a l r (a n))"
    using assms(1) True by (auto simp: MDiv_analyzeRangeForward_def split: Option.bind_splits)
  have v: "\<And>k. ma_value (b k) = ma_value (a k)" "\<And>k. ma_implicitTruncate (b k) = ma_implicitTruncate (a k)"
    unfolding b by simp_all
  note c = constant_cong[where a = a and b = b, OF v(1)]
  have z: "\<not> ma_canBeNegativeZero (b k) \<Longrightarrow> \<not> ma_canBeNegativeZero (a k) \<or> zero_justified h a k" for k
    unfolding b using assms(3) lr by (auto simp: zero_justified_def split: if_splits)
  have f: "forward_ok h b" unfolding forward_ok_def c
  proof (intro conjI allI impI)
    fix k x y
    assume k: "mn_op (h k) = Op_Div" "getOperand h k 0 = Some x" "getOperand h k 1 = Some y"
    then have old: "ma_canBeDivideByZero (a k) \<or> constant_but h a y 0"
      "ma_canBeNegativeOverflow (a k) \<or> constant_but h a x int32_min \<or> constant_but h a y (-1)"
      using assms(2) unfolding forward_inv_def forward_ok_def by blast+
    show "ma_canBeDivideByZero (b k) \<or> constant_but h a y 0"
      using old(1) k(2,3) lr unfolding b by (cases "k = n") auto
    show "ma_canBeNegativeOverflow (b k) \<or> constant_but h a x int32_min \<or> constant_but h a y (-1)"
      using old(2) k(2,3) lr unfolding b by (cases "k = n") auto
  next
    show "ma_canOverflow (b k)" if "mn_op (h k) = Op_Mul \<or> mn_op (h k) = Op_Ursh" for k
      using assms(2) that unfolding forward_inv_def forward_ok_def b by auto
  qed
  have "forward_inv h b" unfolding forward_inv_def c using f z assms(2) unfolding forward_inv_def by blast
  then show ?thesis using v by blast
qed (use assms in \<open>simp add: MDiv_analyzeRangeForward_def\<close>)

lemma forward_step:
  assumes "analyzeRangeForward h n a = Some b" "forward_inv h a"
  shows "forward_inv h b \<and> (\<forall>k. ma_value (b k) = ma_value (a k)) \<and> (\<forall>k. ma_implicitTruncate (b k) = ma_implicitTruncate (a k))"
proof -
  consider "mn_op (h n) = Op_Div" | "mn_op (h n) = Op_Mul" | "b = a"
    using assms(1) by (auto simp: analyzeRangeForward_def split: Opcode.splits)
  then show ?thesis
  proof cases
    case 1
    then show ?thesis using MDiv_forward[of h n a b] assms by (simp add: analyzeRangeForward_def)
  next
    case 2
    then show ?thesis using MMul_forward[of h n a b] assms by (simp add: analyzeRangeForward_def)
  qed (use assms in simp)
qed

lemma forward_fold:
  "mfold (analyzeRangeForward h) ns a = Some b \<Longrightarrow> forward_inv h a \<Longrightarrow>
     forward_inv h b \<and> (\<forall>k. ma_value (b k) = ma_value (a k)) \<and> (\<forall>k. ma_implicitTruncate (b k) = ma_implicitTruncate (a k))"
proof (induction ns arbitrary: a)
  case (Cons n ns)
  then obtain c where "analyzeRangeForward h n a = Some c" "mfold (analyzeRangeForward h) ns c = Some b"
    by (auto split: option.splits)
  then show ?case using forward_step[of h n a c] Cons.IH[of c] Cons.prems(2) by auto
qed simp


text \<open>
  Use chains and operands agree (\<open>use_inv\<close> with nothing released), and the arithmetic instructions
  the passes look into have two operands.
\<close>

definition well_linked :: "nodes \<Rightarrow> bool" where
  "well_linked h \<longleftrightarrow> use_inv UNIV h \<and>
     (\<forall>n. mn_op (h n) = Op_Add \<or> mn_op (h n) = Op_Mul \<or> mn_op (h n) = Op_Div \<longrightarrow> (\<exists>l r. mn_operands (h n) = [Some l, Some r]))"

lemma well_linked_use: "well_linked h \<Longrightarrow> (n, i) \<in> set (mn_uses (h d)) \<longleftrightarrow> getOperand h n i = Some d"
  unfolding well_linked_def using use_inv_mem[of UNIV h n i d] by simp

lemma well_linked_add:
  assumes "well_linked h" "u \<in> set (mn_uses (h d))" "mn_op (h (fst u)) = Op_Add"
  shows "getOperand h (fst u) 0 = Some d \<or> getOperand h (fst u) 1 = Some d"
proof -
  have g: "getOperand h (fst u) (snd u) = Some d" using assms(1,2) well_linked_use by (metis prod.collapse)
  moreover obtain l r where "mn_operands (h (fst u)) = [Some l, Some r]" using assms(1,3) by (auto simp: well_linked_def)
  ultimately have "snd u < 2" by (auto simp: getOperand_def numOperands_def split: if_splits)
  then show ?thesis using g by (auto simp: less_2_cases_iff)
qed

lemma NeedNegativeZeroCheck_False:
  "NeedNegativeZeroCheck h a d = Some False \<longleftrightarrow> (\<forall>u \<in> set (mn_uses (h d)). use_needs_check h a d (fst u) = Some False)"
proof -
  have "any_use_needs_check h a d us = Some False \<longleftrightarrow> (\<forall>u \<in> set us. use_needs_check h a d (fst u) = Some False)" for us
    by (induction us) (auto split: Option.bind_splits if_splits)
  then show ?thesis by (simp add: NeedNegativeZeroCheck_def)
qed

lemma add_use_False:
  "add_use_needs_check h a d n = Some False \<longleftrightarrow>
     (\<exists>l r. getOperand h n 0 = Some l \<and> getOperand h n 1 = Some r \<and> \<not> (l = d \<and> r = d) \<and>
        (let other = (if l = d then r else l) in mn_op (h other) \<noteq> Op_Phi \<and> (zero_op (mn_op (h other)) \<longrightarrow> ma_canBeNegativeZero (a other))))"
  by (cases "getOperand h n 0"; cases "getOperand h n 1")
    (auto simp: add_use_needs_check_def Let_def zero_op_def split: if_splits)

text \<open>The check of one node after the flag of \<open>m\<close> was set to \<open>v\<close>.\<close>

lemma use_needs_check_update:
  assumes "use_needs_check h a d n = Some False" "\<not> v \<longrightarrow> ma_canBeNegativeZero (a m) \<longrightarrow> m \<noteq> d \<longrightarrow>
      \<not> (\<not> isResumePoint h n \<and> mn_op (h n) = Op_Add \<and> (getOperand h n 0 = Some m \<or> getOperand h n 1 = Some m))"
  shows "use_needs_check h (setCanBeNegativeZero m v a) d n = Some False"
proof (cases "\<not> isResumePoint h n \<and> mn_op (h n) = Op_Add")
  case True
  then have "add_use_needs_check h a d n = Some False" using assms(1) by (simp add: use_needs_check_def)
  then obtain l r where lr: "getOperand h n 0 = Some l" "getOperand h n 1 = Some r" "\<not> (l = d \<and> r = d)"
    and other: "mn_op (h (if l = d then r else l)) \<noteq> Op_Phi"
      "zero_op (mn_op (h (if l = d then r else l))) \<longrightarrow> ma_canBeNegativeZero (a (if l = d then r else l))"
    unfolding add_use_False Let_def by blast
  have "add_use_needs_check h (setCanBeNegativeZero m v a) d n = Some False"
    unfolding add_use_False Let_def setCanBeNegativeZero_def
    using lr other assms(2) True by (cases "l = d") auto
  then show ?thesis using True by (simp add: use_needs_check_def)
next
  case False
  then have "use_needs_check h (setCanBeNegativeZero m v a) d n = use_needs_check h a d n"
    unfolding use_needs_check_def by (cases "isResumePoint h n") simp_all
  then show ?thesis using assms(1) by simp
qed

lemma set_flag_zero_ok:
  assumes "zero_ok h a" "well_linked h" "zero_op (mn_op (h n))" "NeedNegativeZeroCheck h a n = Some v"
  shows "zero_ok h (setCanBeNegativeZero n v a)"
  unfolding zero_ok_def
proof (intro allI impI)
  fix x
  let ?b = "setCanBeNegativeZero n v a"
  assume x: "zero_op (mn_op (h x))" "\<not> ma_canBeNegativeZero (?b x)"
  have vals: "zero_justified h ?b = zero_justified h a"
    by (rule constant_cong(4)) (simp add: setCanBeNegativeZero_def)
  show "zero_justified h ?b x \<or> NeedNegativeZeroCheck h ?b x = Some False"
  proof (cases "x = n")
    case True
    then have "v = False" using x(2) by (simp add: setCanBeNegativeZero_def)
    then have "\<forall>u \<in> set (mn_uses (h n)). use_needs_check h a n (fst u) = Some False"
      using assms(4) NeedNegativeZeroCheck_False by simp
    then show ?thesis unfolding True NeedNegativeZeroCheck_False
      using use_needs_check_update[of h a n _ v n] by simp
  next
    case False
    then have fx: "\<not> ma_canBeNegativeZero (a x)" using x(2) by (simp add: setCanBeNegativeZero_def)
    show ?thesis
    proof (cases "zero_justified h a x")
      case nj: False
      then have need: "\<forall>u \<in> set (mn_uses (h x)). use_needs_check h a x (fst u) = Some False"
        using assms(1) x(1) fx NeedNegativeZeroCheck_False unfolding zero_ok_def by blast
      have "use_needs_check h ?b x (fst u) = Some False" if u: "u \<in> set (mn_uses (h x))" for u
      proof (rule use_needs_check_update[OF need[rule_format, OF u]], intro impI notI)
        let ?k = "fst u"
        assume nv: "\<not> v" and k: "\<not> isResumePoint h ?k \<and> mn_op (h ?k) = Op_Add \<and>
            (getOperand h ?k 0 = Some n \<or> getOperand h ?k 1 = Some n)"
        obtain i where "getOperand h ?k i = Some n" using k by blast
        then have "(?k, i) \<in> set (mn_uses (h n))" using assms(2) by (simp add: well_linked_use)
        then have "use_needs_check h a n ?k = Some False"
          using assms(4) nv NeedNegativeZeroCheck_False[of h a n] by (metis (full_types) fst_conv)
        then have cn: "add_use_needs_check h a n ?k = Some False" using k by (simp add: use_needs_check_def)
        have cx: "add_use_needs_check h a x ?k = Some False"
          using need[rule_format, OF u] k by (simp add: use_needs_check_def)
        have "getOperand h ?k 0 = Some x \<or> getOperand h ?k 1 = Some x"
          using well_linked_add[OF assms(2) u] k by blast
        then show False using cn cx False fx x(1) k unfolding add_use_False Let_def by (auto split: if_splits)
      qed
      then show ?thesis unfolding NeedNegativeZeroCheck_False by blast
    qed (simp add: vals)
  qed
qed


lemma set_flag_keeps:
  "ma_value (setCanBeNegativeZero n v a k) = ma_value (a k)"
  "ma_implicitTruncate (setCanBeNegativeZero n v a k) = ma_implicitTruncate (a k)"
  "forward_ok h (setCanBeNegativeZero n v a) = forward_ok h a"
proof -
  show 1: "ma_value (setCanBeNegativeZero n v a k) = ma_value (a k)" for k by (simp add: setCanBeNegativeZero_def)
  show "ma_implicitTruncate (setCanBeNegativeZero n v a k) = ma_implicitTruncate (a k)"
    by (simp add: setCanBeNegativeZero_def)
  have 2: "ma_canBeDivideByZero (setCanBeNegativeZero n v a k) = ma_canBeDivideByZero (a k)"
    "ma_canBeNegativeOverflow (setCanBeNegativeZero n v a k) = ma_canBeNegativeOverflow (a k)"
    "ma_canOverflow (setCanBeNegativeZero n v a k) = ma_canOverflow (a k)" for k
    by (simp_all add: setCanBeNegativeZero_def)
  show "forward_ok h (setCanBeNegativeZero n v a) = forward_ok h a"
    unfolding forward_ok_def constant_cong[where a = a and b = "setCanBeNegativeZero n v a", OF 1] 2 ..
qed

text \<open>Values and the truncation marks do not change during the late pass.\<close>

definition same_rest :: "attrs \<Rightarrow> attrs \<Rightarrow> bool" where
  "same_rest a b \<longleftrightarrow> (\<forall>k. ma_value (b k) = ma_value (a k) \<and> ma_implicitTruncate (b k) = ma_implicitTruncate (a k))"

lemma well_linked_operands:
  assumes "well_linked h" "mn_op (h n) = Op_Add \<or> mn_op (h n) = Op_Mul \<or> mn_op (h n) = Op_Div"
  obtains l r where "getOperand h n 0 = Some l" "getOperand h n 1 = Some r"
  using assms by (force simp: well_linked_def getOperand_def numOperands_def)

lemma NeedNegativeZeroCheck_total:
  assumes "well_linked h"
  shows "\<exists>b. NeedNegativeZeroCheck h a d = Some b"
proof -
  have u: "\<exists>b. use_needs_check h a d n = Some b" for n
  proof (cases "mn_op (h n) = Op_Add")
    case True
    then obtain l r where "getOperand h n 0 = Some l" "getOperand h n 1 = Some r"
      using well_linked_operands[OF assms] by blast
    then show ?thesis using True unfolding use_needs_check_def add_use_needs_check_def by (auto simp: Let_def)
  next
    case False
    then have "use_needs_check h a d n \<noteq> None" unfolding use_needs_check_def by (auto split: if_splits)
    then show ?thesis by blast
  qed
  have "\<exists>b. any_use_needs_check h a d us = Some b" for us
  proof (induction us)
    case (Cons x us)
    obtain b where "use_needs_check h a d (fst x) = Some b" using u by blast
    then show ?case using Cons by (cases b) auto
  qed auto
  then show ?thesis by (simp add: NeedNegativeZeroCheck_def)
qed

lemma backward_step:
  assumes "well_linked h" "zero_ok h a \<and> forward_ok h a \<and> same_rest a0 a"
  shows "\<exists>b. analyzeRangeBackward h n a = Some b \<and> zero_ok h b \<and> forward_ok h b \<and> same_rest a0 b"
proof -
  obtain v where v: "NeedNegativeZeroCheck h a n = Some v" using NeedNegativeZeroCheck_total[OF assms(1)] by blast
  have set: "zero_op (mn_op (h n)) \<Longrightarrow> zero_ok h (setCanBeNegativeZero n v a) \<and> forward_ok h (setCanBeNegativeZero n v a)
      \<and> same_rest a0 (setCanBeNegativeZero n v a)"
    using set_flag_zero_ok[OF _ assms(1) _ v] assms(2) by (simp add: set_flag_keeps same_rest_def)
  then show ?thesis using assms(2) v
    by (auto simp: analyzeRangeBackward_def checkedBackward_def zero_op_def split: Opcode.splits)
qed

lemma forward_total:
  assumes "well_linked h" "forward_inv h a \<and> same_rest a0 a"
  shows "\<exists>b. analyzeRangeForward h n a = Some b \<and> forward_inv h b \<and> same_rest a0 b"
proof -
  have "\<exists>b. analyzeRangeForward h n a = Some b"
  proof (cases "mn_op (h n) = Op_Mul \<or> mn_op (h n) = Op_Div")
    case True
    then obtain l r where "getOperand h n 0 = Some l" "getOperand h n 1 = Some r"
      using well_linked_operands[OF assms(1)] by blast
    then show ?thesis using True
      by (auto simp: analyzeRangeForward_def MDiv_analyzeRangeForward_def MMul_analyzeRangeForward_def Let_def)
  next
    case False
    then show ?thesis by (auto simp: analyzeRangeForward_def split: Opcode.splits)
  qed
  then show ?thesis using forward_step[of h n a] assms(2) by (auto simp: same_rest_def)
qed

subsection \<open>Both passes\<close>

text \<open>The attributes as the constructors of the instructions set them.\<close>

definition constructed :: "nodes \<Rightarrow> attrs \<Rightarrow> bool" where
  "constructed h a \<longleftrightarrow> (\<forall>n. ma_canBeNegativeZero (a n) \<and> ma_canBeNegativeOverflow (a n) \<and> ma_canBeDivideByZero (a n)
     \<and> ma_canOverflow (a n) \<and> \<not> ma_implicitTruncate (a n))"

text \<open>Every check that is left out is redundant or unobservable.\<close>

definition range_ok :: "nodes \<Rightarrow> attrs \<Rightarrow> bool" where
  "range_ok h a \<longleftrightarrow> trunc_ok h a \<and> forward_ok h a \<and> zero_ok h a"

lemma range_analysis:
  assumes "constructed (g_nodes g) a" "well_linked (g_nodes g)"
  shows "\<exists>b. analyzeLate g (analyzeEarly g a) = Some b \<and> range_ok (g_nodes g) b
    \<and> (\<forall>k. ma_value (b k) = ma_value (a k))"
proof -
  let ?h = "g_nodes g" and ?a1 = "analyzeEarly g a"
  have t: "trunc_ok ?h ?a1"
    unfolding analyzeEarly_def using assms(1) by (intro early_fold(1)) (simp add: trunc_ok_def truncated_def constructed_def)
  have f: "forward_inv ?h ?a1"
    using assms(1) by (simp add: forward_inv_def forward_ok_def analyzeEarly_def early_fold constructed_def)
  obtain a2 where a2: "mfold (analyzeRangeForward ?h) (rpo_definitions g) ?a1 = Some a2" "forward_inv ?h a2" "same_rest ?a1 a2"
    using mfold_total[of "rpo_definitions g" "\<lambda>s. forward_inv ?h s \<and> same_rest ?a1 s" "analyzeRangeForward ?h" ?a1]
      forward_total[OF assms(2)] f by (auto simp: same_rest_def)
  then have "zero_ok ?h a2 \<and> forward_ok ?h a2 \<and> same_rest ?a1 a2" by (auto simp: forward_inv_def zero_ok_def)
  then obtain b where b: "mfold (analyzeRangeBackward ?h) (postorder_instructions g) a2 = Some b"
      "zero_ok ?h b" "forward_ok ?h b" "same_rest ?a1 b"
    using mfold_total[of "postorder_instructions g" "\<lambda>s. zero_ok ?h s \<and> forward_ok ?h s \<and> same_rest ?a1 s"
        "analyzeRangeBackward ?h" a2] backward_step[OF assms(2)] by blast
  have "use_truncates ?h b = use_truncates ?h ?a1"
    using b(4) by (auto simp: use_truncates_def same_rest_def fun_eq_iff split: Opcode.splits)
  then have "trunc_ok ?h b" using t b(4) by (simp add: trunc_ok_def truncated_def AllUsesTruncate_iff same_rest_def)
  moreover have "ma_value (b k) = ma_value (a k)" for k
    using b(4) by (simp add: same_rest_def analyzeEarly_def early_fold)
  ultimately show ?thesis using a2(1) b by (simp add: analyzeLate_def range_ok_def)
qed

text \<open>
  C36: range analysis. On a graph whose instructions still have the flags their constructors set
  (\<open>constructed\<close>) and whose use chains agree with the operands, the two passes, run one after the
  other on this graph, end without a null dereference and leave the flags in
  a state in which every omitted check is accounted for: an addition, subtraction or division is
  marked as truncated only if all its uses truncate, given the final marks; the checks of a division
  for a zero divisor and for \<open>INT32_MIN / -1\<close> are off only if a constant operand makes them
  redundant, the overflow checks of a multiplication and of \<open>>>>\<close> are on; and a negative zero check is off only if
  a constant operand rules out -0 or if, with the final flags, no use needs the check, in particular
  never for both operands of an addition. In the compiler, value numbering, dead code elimination and loop
  invariant code motion run between the two passes; they change the graph, and \<open>MMul::foldsTo\<close> clears
  a negative zero check. The statement is about the passes alone.
\<close>

theorem range_analysis_ok:
  assumes "constructed (g_nodes g) a" "well_linked (g_nodes g)"
  shows "\<exists>b. analyzeLate g (analyzeEarly g a) = Some b \<and> range_ok (g_nodes g) b
    \<and> (\<forall>k. ma_value (b k) = ma_value (a k))"
  by (rule range_analysis[OF assms])

subsection \<open>Example graphs\<close>

text \<open>
  A graph of one block for a list of opcodes with operands: node \<open>k\<close> is the \<open>k\<close>-th entry, and the
  use chains are computed. The parameters and constants are not among the instructions of the block.
\<close>

type_synonym prog = "(Opcode \<times> nat list) list"

definition prog_entry :: "prog \<Rightarrow> nat \<Rightarrow> Opcode \<times> nat list" where
  "prog_entry p k = (if k < length p then p ! k else (Op_Parameter, []))"

definition prog_uses :: "prog \<Rightarrow> nat \<Rightarrow> (nat \<times> nat) list" where
  "prog_uses p k = concat (map (\<lambda>n. map (Pair n) (filter (\<lambda>i. snd (p ! n) ! i = k) [0..<length (snd (p ! n))])) [0..<length p])"

definition prog_nodes :: "prog \<Rightarrow> nodes" where
  "prog_nodes p k =
     (ex_node (fst (prog_entry p k)) (map Some (snd (prog_entry p k))) MIRType_Int32 k)\<lparr>mn_uses := prog_uses p k\<rparr>"

definition prog_graph :: "prog \<Rightarrow> nat list \<Rightarrow> mir_graph" where
  "prog_graph p ns = sample_graph\<lparr>g_nodes := prog_nodes p, g_blockList := [0],
     g_blocks := (\<lambda>b. (g_blocks sample_graph b)\<lparr>bl_instructions := ns, bl_phis := [], bl_lastIns := Some (last ns)\<rparr>)\<rparr>"

lemma prog_nodes_simps [simp]:
  "mn_op (prog_nodes p k) = fst (prog_entry p k)" "mn_operands (prog_nodes p k) = map Some (snd (prog_entry p k))"
  "mn_uses (prog_nodes p k) = prog_uses p k" "mn_kind (prog_nodes p k) = Definition"
  by (simp_all add: prog_nodes_def ex_node_def)

lemma count_pairs: "count_list (concat (map (\<lambda>n. map (Pair n) (f n)) ns)) (m, i) = count_list ns m * count_list (f m) i"
proof -
  have p: "count_list (map (Pair n) xs) (m, i) = (if n = m then count_list xs i else 0)" for n :: 'a and xs :: "'b list"
    by (induction xs) auto
  show ?thesis by (induction ns) (auto simp: p count_list_append)
qed

lemma count_list_upt: "count_list (filter P [0..<k]) i = (if i < k \<and> P i then 1 else 0)"
  by (induction k) (auto simp: count_list_append less_Suc_eq)

lemma prog_well_linked:
  assumes "\<forall>e \<in> set p. fst e \<in> {Op_Add, Op_Mul, Op_Div} \<longrightarrow> length (snd e) = 2"
  shows "well_linked (prog_nodes p)"
  unfolding well_linked_def
proof (intro conjI allI impI)
  have "count_list [0..<k] n = (if n < k then 1 else 0)" for k n :: nat
    using count_list_upt[of "\<lambda>_. True" k n] by simp
  then show "use_inv UNIV (prog_nodes p)"
    by (auto simp: use_inv_def prog_uses_def count_pairs count_list_upt getOperand_def numOperands_def prog_entry_def)
next
  fix n
  assume "mn_op (prog_nodes p n) = Op_Add \<or> mn_op (prog_nodes p n) = Op_Mul \<or> mn_op (prog_nodes p n) = Op_Div"
  then have "length (snd (prog_entry p n)) = 2"
    using assms nth_mem[of n p] by (auto simp: prog_entry_def split: if_splits)
  then show "\<exists>l r. mn_operands (prog_nodes p n) = [Some l, Some r]"
    by (auto simp: numeral_2_eq_2 length_Suc_conv)
qed

definition prog_attrs :: "(nat \<Rightarrow> i32) \<Rightarrow> attrs" where
  "prog_attrs c k = (ex_attrs MIRType_Int32 VUndefined VUndefined 0)\<lparr>ma_value := VInt32 (c k)\<rparr>"

lemma prog_constructed: "constructed h (prog_attrs c)"
  by (simp add: constructed_def prog_attrs_def ex_attrs_def)

text \<open>\<open>(x * 2) + y\<close>: the constant 2 makes the negative zero check of the product redundant.\<close>

theorem range_analysis_ok_witness:
  "\<exists>b. analyzeLate (prog_graph [(Op_Parameter, []), (Op_Constant, []), (Op_Mul, [0, 1]), (Op_Add, [2, 0]), (Op_Return, [3])] [2, 3, 4])
        (analyzeEarly (prog_graph [(Op_Parameter, []), (Op_Constant, []), (Op_Mul, [0, 1]), (Op_Add, [2, 0]), (Op_Return, [3])] [2, 3, 4])
          (prog_attrs (\<lambda>k. 2))) = Some b \<and>
      range_ok (prog_nodes [(Op_Parameter, []), (Op_Constant, []), (Op_Mul, [0, 1]), (Op_Add, [2, 0]), (Op_Return, [3])]) b
    \<and> (\<forall>k. ma_value (b k) = VInt32 2)"
proof -
  let ?p = "[(Op_Parameter, []), (Op_Constant, []), (Op_Mul, [0, 1]), (Op_Add, [2, 0]), (Op_Return, [3])] :: prog"
  have g: "g_nodes (prog_graph ?p [2, 3, 4]) = prog_nodes ?p" by (simp add: prog_graph_def)
  have "well_linked (prog_nodes ?p)" by (rule prog_well_linked) simp
  then show ?thesis using range_analysis_ok[of "prog_graph ?p [2, 3, 4]" "prog_attrs (\<lambda>k. 2)"] prog_constructed
    unfolding g by (simp add: prog_attrs_def)
qed

end
