(* ===== verification/Block_Code.thy ===== *)
theory Block_Code
  imports Range_Analysis
begin

text \<open>
  The code of a block of int32 instructions, from the MIR attributes that range analysis left to the
  emitted x86 code: the lowering (\<open>ion/Lowering.cpp\<close>) picks the operands, the code generator of
  \<open>Int32_Codegen\<close> emits the instruction. The main result relates a run of the code to the JavaScript
  values of the instructions, given that the attributes are \<open>range_ok\<close>.
\<close>

subsection \<open>Lowering and running a block\<close>

definition ReorderCommutative :: "nodes \<Rightarrow> nat \<Rightarrow> nat \<Rightarrow> nat \<times> nat" where
  "ReorderCommutative h lhs rhs = (if isConstant h lhs then (rhs, lhs) else (lhs, rhs))"

definition lower_operands :: "nodes \<Rightarrow> nat \<Rightarrow> (nat \<times> nat) option" where
  "lower_operands h n = do {
     lhs \<leftarrow> getOperand h n 0;
     rhs \<leftarrow> getOperand h n 1;
     Some (if mn_op (h n) \<in> {Op_Add, Op_Mul, Op_BitAnd, Op_BitOr, Op_BitXor}
           then ReorderCommutative h lhs rhs else (lhs, rhs)) }"

text \<open>The code of one instruction; \<open>m\<close> holds the register of each definition.\<close>

definition instr_code :: "nodes \<Rightarrow> attrs \<Rightarrow> nat \<Rightarrow> (nat \<Rightarrow> i32) \<Rightarrow> outcome option" where
  "instr_code h a n m = do {
     (lhs, rhs) \<leftarrow> lower_operands h n;
     (case mn_op (h n) of
        Op_BitAnd \<Rightarrow> visitBitOpI Op_BitAnd (m lhs) (m rhs)
      | Op_BitOr \<Rightarrow> visitBitOpI Op_BitOr (m lhs) (m rhs)
      | Op_BitXor \<Rightarrow> visitBitOpI Op_BitXor (m lhs) (m rhs)
      | Op_Lsh \<Rightarrow> visitShiftOp Op_Lsh False (m lhs) (m rhs)
      | Op_Rsh \<Rightarrow> visitShiftOp Op_Rsh False (m lhs) (m rhs)
      | Op_Ursh \<Rightarrow> do { c \<leftarrow> MUrsh_canOverflow h a n; visitShiftOp Op_Ursh c (m lhs) (m rhs) }
      | opc \<Rightarrow> int32_code opc (a n) (isConstant h rhs) (m lhs) (m rhs)) }"

datatype block_result = Done "nat \<Rightarrow> i32" | Bailed | Trapped

fun run_block :: "nodes \<Rightarrow> attrs \<Rightarrow> nat list \<Rightarrow> (nat \<Rightarrow> i32) \<Rightarrow> block_result option" where
  "run_block h a [] m = Some (Done m)"
| "run_block h a (n # ns) m = do {
     out \<leftarrow> instr_code h a n m;
     (case out of
        Value r \<Rightarrow> run_block h a ns (m(n := r))
      | Bailout \<Rightarrow> Some Bailed
      | Trap \<Rightarrow> Some Trapped) }"

subsection \<open>The relation between JavaScript values and registers\<close>

definition maybe_neg_zero :: "nodes \<Rightarrow> attrs \<Rightarrow> nat \<Rightarrow> bool" where
  "maybe_neg_zero h a n \<longleftrightarrow> zero_op (mn_op (h n)) \<and> \<not> ma_canBeNegativeZero (a n) \<and> NeedNegativeZeroCheck h a n = Some False"

text \<open>
  The register of a truncated division holds the quotient after \<open>ToInt32\<close>; that of a truncated sum
  holds an integer modulo \<open>2 ^ 32\<close> whose size is bounded by the depth \<open>rk\<close> of the sum; every other
  register holds the value itself, or 0 for a -0 that no use can tell from 0.
\<close>

definition node_rel :: "nodes \<Rightarrow> attrs \<Rightarrow> (nat \<Rightarrow> nat) \<Rightarrow> nat \<Rightarrow> double \<Rightarrow> i32 \<Rightarrow> bool" where
  "node_rel h a rk n v i \<longleftrightarrow>
     (if truncated h a n
      then if mn_op (h n) = Op_Div then es5_ToInt32 v = i
           else \<exists>x. v = dbl_of_int x \<and> i = word_of_int x \<and> \<bar>x\<bar> \<le> 2 ^ (31 + rk n) \<and> rk n \<le> 21
      else v = num i \<or> v = mk_dbl True 0 \<and> i = 0 \<and> maybe_neg_zero h a n)"

subsection \<open>Integers in doubles and -0\<close>

lemma int_dbl:
  assumes "\<bar>x\<bar> < 2 ^ 53"
  shows "\<not> dbl_is_nan (dbl_of_int x)" "\<not> dbl_is_infinite (dbl_of_int x)" "dval (dbl_of_int x) = of_int x"
    "dbl_negative (dbl_of_int x) \<longleftrightarrow> x < 0" "es5_ToInt32 (dbl_of_int x) = word_of_int x"
proof -
  note d = dbl_of_int_simps[OF assms]
  show "\<not> dbl_is_nan (dbl_of_int x)" "\<not> dbl_is_infinite (dbl_of_int x)"
    using d(1) by (simp_all add: finite_not_nan finite_not_infinite)
  show "dval (dbl_of_int x) = of_int x" "dbl_negative (dbl_of_int x) \<longleftrightarrow> x < 0" by (rule d)+
  show "es5_ToInt32 (dbl_of_int x) = word_of_int x" unfolding es5_ToInt32_def d(2) rat_trunc_int using d(1) by simp
qed

lemma neg_zero_dbl:
  "\<not> dbl_is_nan (mk_dbl True 0)" "\<not> dbl_is_infinite (mk_dbl True 0)" "dval (mk_dbl True 0) = 0"
  "dbl_negative (mk_dbl True 0)" "dbl_mag (mk_dbl True 0) = 0" "es5_ToInt32 (mk_dbl True 0) = 0"
proof -
  show "\<not> dbl_is_nan (mk_dbl True 0)" "\<not> dbl_is_infinite (mk_dbl True 0)"
    by (simp_all add: dbl_is_nan_def dbl_is_infinite_def inf_mag_def)
  show v: "dval (mk_dbl True 0) = 0" by (simp add: mk_dbl_val)
  show "dbl_negative (mk_dbl True 0)" "dbl_mag (mk_dbl True 0) = 0" by simp_all
  show "es5_ToInt32 (mk_dbl True 0) = 0" unfolding es5_ToInt32_def v by (simp add: rat_trunc_def)
qed

lemma int_add: "\<bar>x\<bar> < 2 ^ 53 \<Longrightarrow> \<bar>y\<bar> < 2 ^ 53 \<Longrightarrow> dbl_add (dbl_of_int x) (dbl_of_int y) = dbl_of_int (x + y)"
  by (simp only: dbl_add_def int_dbl if_False simp_thms flip: of_int_add) (rule round_dbl_of_int, linarith)

lemma int_sub: "\<bar>x\<bar> < 2 ^ 53 \<Longrightarrow> \<bar>y\<bar> < 2 ^ 53 \<Longrightarrow> dbl_sub (dbl_of_int x) (dbl_of_int y) = dbl_of_int (x - y)"
  by (simp only: dbl_sub_def int_dbl if_False simp_thms flip: of_int_diff) (rule round_dbl_of_int, linarith)

lemma neg_zero_arith:
  assumes "\<bar>y\<bar> < 2 ^ 53"
  shows "dbl_add (mk_dbl True 0) (dbl_of_int y) = dbl_of_int y" "dbl_add (dbl_of_int y) (mk_dbl True 0) = dbl_of_int y"
    "dbl_sub (dbl_of_int y) (mk_dbl True 0) = dbl_of_int y"
  using assms
  by (simp_all only: dbl_add_def dbl_sub_def int_dbl neg_zero_dbl if_False simp_thms add_0_left add_0_right diff_0_right)
    (rule round_dbl_of_int, linarith | rule round_dbl_of_int, simp)+

lemma fmod_neg_zero: "dbl_fmod (num x) (mk_dbl True 0) = dbl_fmod (num x) (num 0)"
  by (simp only: dbl_fmod_def num_facts neg_zero_dbl) simp

subsection \<open>What the analysis guarantees for the operands\<close>

lemma operand_truncated:
  assumes "range_ok h a" "well_linked h" "getOperand h n i = Some x" "truncated h a x"
  shows "use_truncates h a n"
proof -
  have "AllUsesTruncate h a x" using assms(1,4) by (simp add: range_ok_def trunc_ok_def)
  then show ?thesis unfolding AllUsesTruncate_iff using well_linked_use[OF assms(2), of n i x] assms(3) by force
qed

lemma operand_neg_zero:
  assumes "well_linked h" "getOperand h n i = Some x" "maybe_neg_zero h a x"
  shows "use_needs_check h a x n = Some False"
  using assms well_linked_use[OF assms(1), of n i x] unfolding maybe_neg_zero_def NeedNegativeZeroCheck_False by force

lemma rel_exact: "node_rel h a rk x v i \<Longrightarrow> \<not> truncated h a x \<Longrightarrow> \<not> maybe_neg_zero h a x \<Longrightarrow> v = num i"
  by (simp add: node_rel_def)

lemma rel_zeroish:
  "node_rel h a rk x v i \<Longrightarrow> \<not> truncated h a x \<Longrightarrow> v = num i \<or> v = mk_dbl True 0 \<and> i = 0 \<and> maybe_neg_zero h a x"
  by (simp add: node_rel_def)

lemma sum_bound: "k \<le> 21 \<Longrightarrow> (2 :: int) ^ (31 + k) < 2 ^ 53"
  by (rule power_strict_increasing) simp_all

lemma rel_ToInt32: "node_rel h a rk x v i \<Longrightarrow> es5_ToInt32 v = i"
  using sum_bound[of "rk x"] by (auto simp: node_rel_def neg_zero_dbl int_dbl split: if_splits)

subsection \<open>Bitwise instructions\<close>

lemma bit_step:
  assumes "mn_op (h n) \<in> {Op_BitAnd, Op_BitOr, Op_BitXor, Op_Lsh, Op_Rsh}"
    and "getOperand h n 0 = Some l" "getOperand h n 1 = Some r"
    and "es5_ToInt32 x = m l" "es5_ToInt32 y = m r"
  shows "\<exists>w. instr_code h a n m = Some (Value w) \<and> js_op (mn_op (h n)) x y = num w"
  using assms
  by (auto simp: instr_code_def lower_operands_def ReorderCommutative_def visitBitOpI_def visitShiftOp_def Let_def
      and.commute or.commute xor.commute)

lemma sint_nonneg_bit: "0 \<le> sint (w :: i32) \<longleftrightarrow> \<not> bit w 31"
  using bit_last_iff[of w] by (simp add: not_less)

lemma drop_bit_nonneg:
  assumes "0 \<le> sint (w :: i32) \<or> 0 < k"
  shows "0 \<le> sint (drop_bit k w)"
proof (cases "k = 0")
  case False
  then have "\<not> bit w (k + 31)" using bit_imp_le_length[of w "k + 31"] by auto
  then show ?thesis by (simp add: sint_nonneg_bit bit_drop_bit_eq)
qed (use assms in simp)

lemma shift_count_pos:
  assumes "\<not> 32 dvd sint (y :: i32)"
  shows "0 < unat (y AND 0x1F)"
proof (rule ccontr)
  assume "\<not> 0 < unat (y AND 0x1F)"
  then have "take_bit 5 y = 0" by (simp add: take_bit_eq_mask mask_numeral unat_eq_0)
  then have "uint (take_bit 5 y) = 0" by simp
  then have "take_bit 5 (uint y) = 0" by (subst (asm) unsigned_take_bit_eq)
  then have "take_bit 5 (sint y) = 0" unfolding uint_sint[of y] by (subst (asm) take_bit_take_bit) simp
  then show False using assms by (simp add: take_bit_eq_0_iff)
qed

lemma ursh_step:
  assumes "mn_op (h n) = Op_Ursh" "getOperand h n 0 = Some l" "getOperand h n 1 = Some r"
    and "es5_ToInt32 x = m l" "es5_ToInt32 y = m r" and c: "ma_canOverflow (a n)"
    and k: "isConstant h l \<longrightarrow> ma_value (a l) = VInt32 (m l)" "isConstant h r \<longrightarrow> ma_value (a r) = VInt32 (m r)"
  shows "\<exists>out. instr_code h a n m = Some out \<and> out \<noteq> Trap \<and> (\<forall>w. out = Value w \<longrightarrow> js_op Op_Ursh x y = num w)"
proof -
  let ?k = "unat (m r AND 0x1F)" let ?w = "drop_bit ?k (m l)"
  have u: "\<not> sint ?w < 0 \<Longrightarrow> js_op Op_Ursh x y = num ?w"
    using uint_nonneg[of ?w] assms(4,5) by simp
  obtain c where c: "MUrsh_canOverflow h a n = Some c" "\<not> c \<longrightarrow> \<not> sint ?w < 0"
  proof -
    have "0 \<le> sint (m l) \<Longrightarrow> \<not> sint ?w < 0" using drop_bit_nonneg[of "m l" ?k] by simp
    moreover have "\<not> 32 dvd sint (m r) \<Longrightarrow> \<not> sint ?w < 0" using drop_bit_nonneg[of "m l" ?k] shift_count_pos[of "m r"] by simp
    ultimately show thesis using that assms(2,3) c k by (force simp: MUrsh_canOverflow_def)
  qed
  then show ?thesis using u assms(1-3)
    by (auto simp: instr_code_def lower_operands_def visitShiftOp_def Let_def bailoutIf_def)
qed


subsection \<open>Additions and subtractions\<close>

definition code_ok :: "nodes \<Rightarrow> attrs \<Rightarrow> (nat \<Rightarrow> nat) \<Rightarrow> nat \<Rightarrow> double \<Rightarrow> outcome option \<Rightarrow> bool" where
  "code_ok h a rk n v res \<longleftrightarrow> (\<exists>out. res = Some out \<and> out \<noteq> Trap \<and> (\<forall>w. out = Value w \<longrightarrow> node_rel h a rk n v w))"

lemma code_ok_bail:
  assumes "res = Some (int32_or_bail ex_dii v)" "\<not> truncated h a n"
  shows "code_ok h a rk n v res"
  using assms ex_dii_spec
  by (auto simp: code_ok_def int32_or_bail_def node_rel_def is_int32_spec_def split: option.splits)

text \<open>An operand that is an integer, where -0 counts as 0.\<close>

definition intlike :: "double \<Rightarrow> i32 \<Rightarrow> int \<Rightarrow> bool" where
  "intlike v i x \<longleftrightarrow> (v = dbl_of_int x \<or> v = mk_dbl True 0 \<and> x = 0) \<and> i = word_of_int x \<and> \<bar>x\<bar> < 2 ^ 53"

lemma intlike_num: "intlike (num i) i (sint i)"
  using sint_bounds(4)[of i] by (simp add: intlike_def)

lemma intlike_add:
  "intlike v i x \<Longrightarrow> intlike w j y \<Longrightarrow> \<not> (v = mk_dbl True 0 \<and> w = mk_dbl True 0) \<Longrightarrow> dbl_add v w = dbl_of_int (x + y)"
  by (auto simp: intlike_def int_add neg_zero_arith)

lemma intlike_sub:
  "intlike v i x \<Longrightarrow> intlike w j y \<Longrightarrow> v \<noteq> mk_dbl True 0 \<Longrightarrow> dbl_sub v w = dbl_of_int (x - y)"
  by (auto simp: intlike_def int_sub neg_zero_arith)

lemma num_not_neg_zero: "num i \<noteq> mk_dbl True 0"
  using num_facts(4,5)[of i] neg_zero_dbl(4,5) by (metis less_irrefl signed_0)

lemma dbl_of_int_not_neg_zero: "\<bar>x\<bar> < 2 ^ 53 \<Longrightarrow> dbl_of_int x \<noteq> mk_dbl True 0"
  using int_dbl(3,4)[of x] neg_zero_dbl(3,4) by (metis less_irrefl of_int_eq_0_iff)

lemma rel_intlike_exact:
  assumes "node_rel h a rk x v i" "\<not> truncated h a x"
  shows "intlike v i (sint i)" "v = mk_dbl True 0 \<Longrightarrow> maybe_neg_zero h a x"
  using rel_zeroish[OF assms] intlike_num[of i] num_not_neg_zero[of i] by (auto simp: intlike_def)

lemma rel_intlike_sum:
  assumes "node_rel h a rk x v i" "\<not> (truncated h a x \<and> mn_op (h x) = Op_Div)" "(if truncated h a x then rk x else 0) < k"
  obtains y where "intlike v i y" "\<bar>y\<bar> \<le> 2 ^ (30 + k)" "v = mk_dbl True 0 \<Longrightarrow> maybe_neg_zero h a x"
proof (cases "truncated h a x")
  case True
  then obtain y where y: "v = dbl_of_int y" "i = word_of_int y" "\<bar>y\<bar> \<le> 2 ^ (31 + rk x)" "rk x \<le> 21"
    using assms(1,2) by (auto simp: node_rel_def)
  have "(2 :: int) ^ (31 + rk x) \<le> 2 ^ (30 + k)" using assms(3) True by (intro power_increasing) auto
  then have b: "\<bar>y\<bar> \<le> 2 ^ (30 + k)" using y(3) by linarith
  have s: "\<bar>y\<bar> < 2 ^ 53" using y(3) sum_bound[OF y(4)] by linarith
  show thesis using that[of y] y b s dbl_of_int_not_neg_zero[OF s] by (simp add: intlike_def)
next
  case False
  have "(2 :: int) ^ 31 \<le> 2 ^ (30 + k)" using assms(3) False by (intro power_increasing) auto
  then have "\<bar>sint i\<bar> \<le> 2 ^ (30 + k)" using sint_bounds(3)[of i] by linarith
  then show thesis using that rel_intlike_exact[OF assms(1) False] by blast
qed

lemma sum_operands:
  assumes ok: "range_ok h a" "well_linked h" and n: "mn_op (h n) = Op_Add \<or> mn_op (h n) = Op_Sub"
    and ops: "getOperand h n 0 = Some l" "getOperand h n 1 = Some r"
    and z: "x = mk_dbl True 0 \<Longrightarrow> maybe_neg_zero h a l" "y = mk_dbl True 0 \<Longrightarrow> maybe_neg_zero h a r"
  shows "mn_op (h n) = Op_Add \<Longrightarrow> \<not> (x = mk_dbl True 0 \<and> y = mk_dbl True 0)"
    and "mn_op (h n) = Op_Sub \<Longrightarrow> x \<noteq> mk_dbl True 0"
proof -
  note nl = operand_neg_zero[OF ok(2) ops(1)]
  show "\<not> (x = mk_dbl True 0 \<and> y = mk_dbl True 0)" if add: "mn_op (h n) = Op_Add"
  proof
    assume "x = mk_dbl True 0 \<and> y = mk_dbl True 0"
    then have mz: "maybe_neg_zero h a l" "maybe_neg_zero h a r" using z by auto
    have "add_use_needs_check h a l n = Some False" using nl[OF mz(1)] add by (simp add: use_needs_check_def split: if_splits)
    then show False using ops mz by (auto simp: add_use_False maybe_neg_zero_def Let_def)
  qed
  show "x \<noteq> mk_dbl True 0" if sub: "mn_op (h n) = Op_Sub"
  proof
    assume "x = mk_dbl True 0"
    then have "use_needs_check h a l n = Some False" using nl z(1) by blast
    then show False using sub ops by (simp add: use_needs_check_def other_than_second_operand_def split: if_splits)
  qed
qed

lemma add_sub_step:
  assumes ok: "range_ok h a" "well_linked h" and n: "mn_op (h n) = Op_Add \<or> mn_op (h n) = Op_Sub" "\<not> truncated h a n"
    and ops: "getOperand h n 0 = Some l" "getOperand h n 1 = Some r"
    and rel: "node_rel h a rk l x (m l)" "node_rel h a rk r y (m r)"
    and nt: "\<not> truncated h a l" "\<not> truncated h a r"
  shows "code_ok h a rk n (js_op (mn_op (h n)) x y) (instr_code h a n m)"
proof (rule code_ok_bail)
  note il = rel_intlike_exact[OF rel(1) nt(1)] and ir = rel_intlike_exact[OF rel(2) nt(2)]
  have z: "mn_op (h n) = Op_Add \<Longrightarrow> \<not> (x = mk_dbl True 0 \<and> y = mk_dbl True 0)" "mn_op (h n) = Op_Sub \<Longrightarrow> x \<noteq> mk_dbl True 0"
    using sum_operands[OF ok n(1) ops, of x y] il(2) ir(2) by blast+
  have tr: "\<not> ma_implicitTruncate (a n)" using n by (auto simp: truncated_def trunc_op_def)
  show "instr_code h a n m = Some (int32_or_bail ex_dii (js_op (mn_op (h n)) x y))"
    using n(1)
  proof
    assume add: "mn_op (h n) = Op_Add"
    have "js_op Op_Add x y = dbl_of_int (sint (m l) + sint (m r))" using intlike_add[OF il(1) ir(1)] z add by simp
    then show ?thesis
      using ops tr add add_code[OF ex_dii_spec, of "m l" "m r"] add_code[OF ex_dii_spec, of "m r" "m l"]
      by (simp add: instr_code_def lower_operands_def ReorderCommutative_def int32_code_def num_add add.commute)
  next
    assume sub: "mn_op (h n) = Op_Sub"
    have "js_op Op_Sub x y = dbl_of_int (sint (m l) - sint (m r))" using intlike_sub[OF il(1) ir(1)] z sub by simp
    then show ?thesis
      using ops tr sub sub_code[OF ex_dii_spec, of "m l" "m r"]
      by (simp add: instr_code_def lower_operands_def int32_code_def num_sub)
  qed
qed (rule n(2))


lemma truncated_sum_step:
  assumes ok: "range_ok h a" "well_linked h" and n: "mn_op (h n) = Op_Add \<or> mn_op (h n) = Op_Sub" "truncated h a n"
    and ops: "getOperand h n 0 = Some l" "getOperand h n 1 = Some r"
    and rel: "node_rel h a rk l x (m l)" "node_rel h a rk r y (m r)"
    and nd: "\<not> (truncated h a l \<and> mn_op (h l) = Op_Div)" "\<not> (truncated h a r \<and> mn_op (h r) = Op_Div)"
    and depth: "(if truncated h a l then rk l else 0) < rk n" "(if truncated h a r then rk r else 0) < rk n" "rk n \<le> 21"
  shows "code_ok h a rk n (js_op (mn_op (h n)) x y) (instr_code h a n m)"
proof -
  obtain s where s: "intlike x (m l) s" "\<bar>s\<bar> \<le> 2 ^ (30 + rk n)" "x = mk_dbl True 0 \<Longrightarrow> maybe_neg_zero h a l"
    using rel_intlike_sum[OF rel(1) nd(1) depth(1)] by blast
  obtain t where t: "intlike y (m r) t" "\<bar>t\<bar> \<le> 2 ^ (30 + rk n)" "y = mk_dbl True 0 \<Longrightarrow> maybe_neg_zero h a r"
    using rel_intlike_sum[OF rel(2) nd(2) depth(2)] by blast
  have z: "mn_op (h n) = Op_Add \<Longrightarrow> \<not> (x = mk_dbl True 0 \<and> y = mk_dbl True 0)" "mn_op (h n) = Op_Sub \<Longrightarrow> x \<noteq> mk_dbl True 0"
    using sum_operands[OF ok n(1) ops, of x y] s(3) t(3) by blast+
  have tr: "ma_implicitTruncate (a n)" using n by (auto simp: truncated_def)
  have pow: "2 ^ (31 + rk n) = 2 * (2 ^ (30 + rk n) :: int)" by (simp flip: power_Suc)
  have m: "m l = word_of_int s" "m r = word_of_int t" using s(1) t(1) by (simp_all add: intlike_def)
  have "\<exists>u. js_op (mn_op (h n)) x y = dbl_of_int u \<and> instr_code h a n m = Some (Value (word_of_int u)) \<and> \<bar>u\<bar> \<le> 2 ^ (31 + rk n)"
    using n(1)
  proof
    assume add: "mn_op (h n) = Op_Add"
    have "js_op Op_Add x y = dbl_of_int (s + t)" using intlike_add[OF s(1) t(1)] z add by simp
    moreover have "instr_code h a n m = Some (Value (word_of_int (s + t)))"
      using ops tr add m
      by (simp add: instr_code_def lower_operands_def ReorderCommutative_def int32_code_def visitAddI_def bailoutIf_def add.commute)
    moreover have "\<bar>s + t\<bar> \<le> 2 ^ (31 + rk n)" using s(2) t(2) unfolding pow by linarith
    ultimately show ?thesis using add by auto
  next
    assume sub: "mn_op (h n) = Op_Sub"
    have "js_op Op_Sub x y = dbl_of_int (s - t)" using intlike_sub[OF s(1) t(1)] z sub by simp
    moreover have "instr_code h a n m = Some (Value (word_of_int (s - t)))"
      using ops tr sub m by (simp add: instr_code_def lower_operands_def int32_code_def visitSubI_def bailoutIf_def)
    moreover have "\<bar>s - t\<bar> \<le> 2 ^ (31 + rk n)" using s(2) t(2) unfolding pow by linarith
    ultimately show ?thesis using sub by auto
  qed
  then show ?thesis using n depth(3) by (auto simp: code_ok_def node_rel_def)
qed

subsection \<open>Multiplications, divisions and remainders\<close>

text \<open>Registers of constants hold the constant.\<close>

definition consts_ok :: "nodes \<Rightarrow> attrs \<Rightarrow> (nat \<Rightarrow> i32) \<Rightarrow> nat \<Rightarrow> bool" where
  "consts_ok h a m k \<longleftrightarrow> (isConstant h k \<longrightarrow> ma_value (a k) = VInt32 (m k))"

lemma consts_facts:
  assumes "consts_ok h a m k"
  shows "positive_constant h a k \<Longrightarrow> sint (m k) > 0" "nonneg_constant h a k \<Longrightarrow> sint (m k) \<ge> 0"
    "constant_but h a k i \<Longrightarrow> m k \<noteq> i"
  using assms by (auto simp: consts_ok_def positive_constant_def nonneg_constant_def constant_but_def)

text \<open>The operands of a multiplication and of a division are exact, and those of a remainder nearly so.\<close>

lemma mul_div_operand:
  assumes "range_ok h a" "well_linked h" "mn_op (h n) = Op_Mul \<or> mn_op (h n) = Op_Div" "getOperand h n i = Some k"
    and "node_rel h a rk k v w"
  shows "v = num w"
proof (rule rel_exact[OF assms(5)])
  show "\<not> truncated h a k"
    using operand_truncated[OF assms(1,2,4)] assms(3) by (auto simp: use_truncates_def split: if_splits)
  show "\<not> maybe_neg_zero h a k"
    using operand_neg_zero[OF assms(2,4), of a] assms(3) by (auto simp: use_needs_check_def split: if_splits)
qed

lemma visitMulI_neg_zero:
  assumes "\<not> ma_canBeNegativeZero mul" "sint a * sint b = 0"
  shows "visitMulI mul c a b = Value 0"
proof -
  have i0: "in_int32 0" by (simp add: in_int32_def)
  have "a = 0 \<or> b = 0" using assms(2) by (simp add: sint_eq_0)
  then show ?thesis
  proof
    assume "a = 0"
    then show ?thesis using assms(1) i0 by (simp add: visitMulI_def visitMulI_const_def visitMulI_reg_def bailoutIf_def)
  next
    assume "b = 0"
    then show ?thesis using assms(1) i0 by (simp add: visitMulI_def visitMulI_const_def visitMulI_reg_def bailoutIf_def)
  qed
qed

lemma visitDivI_neg_zero:
  assumes "\<not> ma_canBeNegativeZero mir" "sint b < 0"
  shows "visitDivI mir 0 b = Value 0"
proof -
  have "idiv 0 b = Some (0, 0)" using assms(2) by (auto simp: idiv_def in_int32_def)
  then show ?thesis using assms by (auto simp: visitDivI_def bailoutIf_def)
qed

lemma dbl_mul_neg_zero: "sint a * sint b = 0 \<Longrightarrow> sint a < 0 \<or> sint b < 0 \<Longrightarrow> dbl_mul (num a) (num b) = mk_dbl True 0"
  by (simp only: num_mul simp_thms if_True)

lemma dbl_div_neg_zero: "sint b < 0 \<Longrightarrow> dbl_div (num 0) (num b) = mk_dbl True 0"
  using num_div_exact[of b 0] sint_eq_0[of b] by force

lemma code_ok_neg_zero:
  "maybe_neg_zero h a n \<Longrightarrow> \<not> truncated h a n \<Longrightarrow> code_ok h a rk n (mk_dbl True 0) (Some (Value 0))"
  by (simp add: code_ok_def node_rel_def)


lemma mul_step:
  assumes ok: "range_ok h a" "well_linked h" and n: "mn_op (h n) = Op_Mul"
    and ops: "getOperand h n 0 = Some l" "getOperand h n 1 = Some r"
    and rel: "node_rel h a rk l x (m l)" "node_rel h a rk r y (m r)"
    and k: "consts_ok h a m l" "consts_ok h a m r"
  shows "code_ok h a rk n (js_op (mn_op (h n)) x y) (instr_code h a n m)"
proof -
  have xy: "x = num (m l)" "y = num (m r)"
    using mul_div_operand[OF ok _ ops(1) rel(1)] mul_div_operand[OF ok _ ops(2) rel(2)] n by auto
  have nt: "\<not> truncated h a n" using n by (simp add: truncated_def trunc_op_def)
  have ov: "ma_canOverflow (a n)" using ok(1) n by (auto simp: range_ok_def forward_ok_def)
  obtain p q c where pq: "lower_operands h n = Some (p, q)" "c = isConstant h q" "p = l \<and> q = r \<or> p = r \<and> q = l"
    using ops n by (cases "isConstant h l") (simp_all add: lower_operands_def ReorderCommutative_def)
  have sw: "dbl_mul (num (m p)) (num (m q)) = dbl_mul (num (m l)) (num (m r))"
    "sint (m p) * sint (m q) = sint (m l) * sint (m r)" "sint (m p) < 0 \<or> sint (m q) < 0 \<longleftrightarrow> sint (m l) < 0 \<or> sint (m r) < 0"
    using pq(3) by (auto simp: num_mul mult.commute disj_commute)
  have code: "instr_code h a n m = Some (visitMulI (a n) c (m p) (m q))"
    using pq n by (simp add: instr_code_def int32_code_def)
  let ?nz = "sint (m l) * sint (m r) = 0 \<and> (sint (m l) < 0 \<or> sint (m r) < 0)"
  show ?thesis
  proof (cases "?nz \<and> \<not> ma_canBeNegativeZero (a n)")
    case True
    have "\<not> zero_justified h a n"
    proof
      assume "zero_justified h a n"
      then have "sint (m l) > 0 \<or> sint (m r) > 0" using ops n consts_facts(1)[OF k(1)] consts_facts(1)[OF k(2)]
        by (auto simp: zero_justified_def)
      then show False using True by auto
    qed
    then have "maybe_neg_zero h a n" using ok(1) n True by (auto simp: range_ok_def zero_ok_def maybe_neg_zero_def zero_op_def)
    moreover have "visitMulI (a n) c (m p) (m q) = Value 0" using visitMulI_neg_zero[of "a n" "m p" "m q" c] True sw(2) by simp
    ultimately show ?thesis
      using code_ok_neg_zero[OF _ nt] dbl_mul_neg_zero[of "m l" "m r"] True n code xy by simp
  next
    case False
    then have ck: "checks_ok Op_Mul (a n) (m p) (m q)" using ov sw(2,3) by (auto simp: checks_ok_def)
    have "visitMulI (a n) c (m p) (m q) = int32_or_bail ex_dii (dbl_mul (num (m l)) (num (m r)))"
      using mul_const_code[OF ck] mul_reg_code[OF ck] by (simp add: visitMulI_def mul_result_exact[OF ex_dii_spec] flip: sw(1))
    then show ?thesis using code n xy by (intro code_ok_bail nt) simp
  qed
qed

lemma div_flags:
  assumes ok: "range_ok h a" and n: "mn_op (h n) = Op_Div"
    and ops: "getOperand h n 0 = Some l" "getOperand h n 1 = Some r"
    and k: "consts_ok h a m l" "consts_ok h a m r"
  shows "ma_canBeDivideByZero (a n) \<or> m r \<noteq> 0"
    "ma_canBeNegativeOverflow (a n) \<or> \<not> (m l = int32_min \<and> m r = -1)"
    "m l = 0 \<Longrightarrow> sint (m r) < 0 \<Longrightarrow> ma_canBeNegativeZero (a n) \<or> maybe_neg_zero h a n"
proof -
  have f: "(ma_canBeDivideByZero (a n) \<or> constant_but h a r 0) \<and>
      (ma_canBeNegativeOverflow (a n) \<or> constant_but h a l int32_min \<or> constant_but h a r (-1))"
    using ok n ops unfolding range_ok_def forward_ok_def by blast
  show "ma_canBeDivideByZero (a n) \<or> m r \<noteq> 0"
    "ma_canBeNegativeOverflow (a n) \<or> \<not> (m l = int32_min \<and> m r = -1)"
    using f consts_facts(3)[OF k(1)] consts_facts(3)[OF k(2)] by blast+
  show "ma_canBeNegativeZero (a n) \<or> maybe_neg_zero h a n" if z: "m l = 0" "sint (m r) < 0"
  proof -
    have "\<not> zero_justified h a n"
    proof
      assume "zero_justified h a n"
      then have "m l \<noteq> 0 \<or> sint (m r) \<ge> 0"
        using ops n consts_facts(3)[OF k(1), of 0] consts_facts(2)[OF k(2)] by (auto simp: zero_justified_def)
      then show False using z by auto
    qed
    then show ?thesis using ok n by (auto simp: range_ok_def zero_ok_def maybe_neg_zero_def zero_op_def)
  qed
qed


lemma ToInt32_div:
  assumes "b \<noteq> 0"
  shows "es5_ToInt32 (dbl_div (num a) (num b)) = word_of_int (sint a sdiv sint b)"
proof (cases "sint a smod sint b = 0")
  case True
  have "\<bar>sint a sdiv sint b\<bar> < 2 ^ 53" using sdiv_int_range[of "sint a" "sint b"] sint_bounds(4)[of a] by auto
  note i = int_dbl(5)[OF this]
  show ?thesis
  proof (cases "a = 0 \<and> sint b < 0")
    case z: True
    then show ?thesis unfolding num_div_exact[OF assms True] by (simp only: if_True simp_thms neg_zero_dbl) simp
  next
    case False
    then show ?thesis unfolding num_div_exact[OF assms True] by (simp only: if_False i)
  qed
next
  case False
  then show ?thesis unfolding es5_ToInt32_def using num_div_inexact[OF assms False] by simp
qed

lemma truncated_div_code:
  assumes "ma_canBeDivideByZero mir \<or> b \<noteq> 0" "ma_canBeNegativeOverflow mir \<or> \<not> (a = int32_min \<and> b = -1)" "ma_implicitTruncate mir"
  shows "visitDivI mir a b = Bailout \<or> b \<noteq> 0 \<and> visitDivI mir a b = Value (word_of_int (sint a sdiv sint b))"
  using assms idiv_sint[of b a] by (auto simp: visitDivI_def bailoutIf_def simp flip: int32_min_def)

lemma div_step:
  assumes ok: "range_ok h a" "well_linked h" and n: "mn_op (h n) = Op_Div"
    and ops: "getOperand h n 0 = Some l" "getOperand h n 1 = Some r"
    and rel: "node_rel h a rk l x (m l)" "node_rel h a rk r y (m r)"
    and k: "consts_ok h a m l" "consts_ok h a m r"
  shows "code_ok h a rk n (js_op (mn_op (h n)) x y) (instr_code h a n m)"
proof -
  have xy: "x = num (m l)" "y = num (m r)"
    using mul_div_operand[OF ok _ ops(1) rel(1)] mul_div_operand[OF ok _ ops(2) rel(2)] n by auto
  note fl = div_flags[OF ok(1) n ops k]
  have code: "instr_code h a n m = Some (visitDivI (a n) (m l) (m r))"
    using ops n by (simp add: instr_code_def int32_code_def lower_operands_def)
  show ?thesis
  proof (cases "ma_implicitTruncate (a n)")
    case True
    then have t: "truncated h a n" using n by (simp add: truncated_def trunc_op_def)
    show ?thesis using truncated_div_code[OF fl(1,2) True] ToInt32_div[of "m r" "m l"] code n t xy
      by (auto simp: code_ok_def node_rel_def)
  next
    case False
    then have nt: "\<not> truncated h a n" by (simp add: truncated_def)
    show ?thesis
    proof (cases "m l = 0 \<and> sint (m r) < 0 \<and> \<not> ma_canBeNegativeZero (a n)")
      case True
      then have "visitDivI (a n) (m l) (m r) = Value 0" "maybe_neg_zero h a n"
        using visitDivI_neg_zero[of "a n" "m r"] fl(3) by auto
      then show ?thesis using code_ok_neg_zero[OF _ nt] dbl_div_neg_zero[of "m r"] True code xy n by simp
    next
      case nz: False
      have "checks_ok Op_Div (a n) (m l) (m r)" using fl(1,2) nz False by (auto simp: checks_ok_def)
      then show ?thesis using div_code[OF ex_dii_spec, of "a n" "m l" "m r"] code xy n
        by (intro code_ok_bail nt) simp
    qed
  qed
qed

lemma mod_step:
  assumes ok: "range_ok h a" "well_linked h" and n: "mn_op (h n) = Op_Mod"
    and ops: "getOperand h n 0 = Some l" "getOperand h n 1 = Some r"
    and rel: "node_rel h a rk l x (m l)" "node_rel h a rk r y (m r)"
  shows "code_ok h a rk n (js_op (mn_op (h n)) x y) (instr_code h a n m)"
proof -
  have nt: "\<not> truncated h a n" "\<not> truncated h a l" "\<not> truncated h a r"
    using n operand_truncated[OF ok ops(1)] operand_truncated[OF ok ops(2)]
    by (auto simp: truncated_def trunc_op_def use_truncates_def split: if_splits)
  have "\<not> maybe_neg_zero h a l"
    using operand_neg_zero[OF ok(2) ops(1), of a] n ops
    by (auto simp: use_needs_check_def other_than_second_operand_def split: if_splits)
  then have x: "x = num (m l)" by (rule rel_exact[OF rel(1) nt(2)])
  have d: "js_op Op_Mod x y = dbl_fmod (num (m l)) (num (m r))"
    using rel_zeroish[OF rel(2) nt(3)] fmod_neg_zero[of "m l"] x by auto
  let ?c = "is_pow2_const (isConstant h r) (m r)"
  have code: "instr_code h a n m = Some (if ?c then visitModPowTwoI (floor_log2 (m r)) (m l) else visitModI (m l) (m r))"
    using ops n by (simp add: instr_code_def int32_code_def lower_operands_def)
  have "?c \<Longrightarrow> visitModPowTwoI (floor_log2 (m r)) (m l) = int32_or_bail ex_dii (dbl_fmod (num (m l)) (num (m r)))"
    using mod_pow2_code[OF ex_dii_spec, of "floor_log2 (m r)" "m r" "m l"] is_pow2_const_nonzero by (simp add: is_pow2_const_def)
  then have "code_ok h a rk n (js_op (mn_op (h n)) x y) (Some (int32_or_bail ex_dii (dbl_fmod (num (m l)) (num (m r)))))"
    using d n by (intro code_ok_bail nt) simp
  moreover have "code_ok h a rk n v (Some Bailout)" for v by (simp add: code_ok_def)
  ultimately show ?thesis unfolding code
    using mod_code[OF ex_dii_spec, of "m l" "m r"] \<open>?c \<Longrightarrow> _ = _\<close> by (cases ?c; cases "m l = int32_min") simp_all
qed


subsection \<open>A whole block\<close>

definition int32_instr :: "nodes \<Rightarrow> nat \<Rightarrow> bool" where
  "int32_instr h n \<longleftrightarrow>
     mn_op (h n) \<in> {Op_Add, Op_Sub, Op_Mul, Op_Div, Op_Mod, Op_BitAnd, Op_BitOr, Op_BitXor, Op_Lsh, Op_Rsh, Op_Ursh} \<and>
     (\<exists>l r. mn_operands (h n) = [Some l, Some r])"

text \<open>Definitions precede their uses, and every instruction appears once.\<close>

fun scheduled :: "nodes \<Rightarrow> nat list \<Rightarrow> bool" where
  "scheduled h [] = True"
| "scheduled h (n # ns) \<longleftrightarrow> n \<notin> set ns \<and> (\<forall>d \<in> set (n # ns). Some d \<notin> set (mn_operands (h n))) \<and> scheduled h ns"

text \<open>\<open>rk\<close> bounds how deep truncated sums nest; their operands are no truncated divisions.\<close>

definition sum_ok :: "nodes \<Rightarrow> attrs \<Rightarrow> (nat \<Rightarrow> nat) \<Rightarrow> nat \<Rightarrow> bool" where
  "sum_ok h a rk n \<longleftrightarrow> (truncated h a n \<and> mn_op (h n) \<noteq> Op_Div \<longrightarrow> rk n \<le> 21 \<and>
     (\<forall>x. Some x \<in> set (mn_operands (h n)) \<longrightarrow>
        \<not> (truncated h a x \<and> mn_op (h x) = Op_Div) \<and> (if truncated h a x then rk x else 0) < rk n))"

text \<open>The JavaScript value of an instruction is the operator applied to the values of its operands.\<close>

definition js_instr :: "nodes \<Rightarrow> (nat \<Rightarrow> double) \<Rightarrow> nat \<Rightarrow> bool" where
  "js_instr h env n \<longleftrightarrow> (\<forall>l r. mn_operands (h n) = [Some l, Some r] \<longrightarrow> env n = js_op (mn_op (h n)) (env l) (env r))"

definition input_ok :: "nodes \<Rightarrow> attrs \<Rightarrow> (nat \<Rightarrow> nat) \<Rightarrow> (nat \<Rightarrow> double) \<Rightarrow> (nat \<Rightarrow> i32) \<Rightarrow> nat \<Rightarrow> bool" where
  "input_ok h a rk env m x \<longleftrightarrow> node_rel h a rk x (env x) (m x) \<and> consts_ok h a m x"

lemma code_ok_exact:
  "\<not> truncated h a n \<Longrightarrow> \<exists>out. res = Some out \<and> out \<noteq> Trap \<and> (\<forall>w. out = Value w \<longrightarrow> v = num w) \<Longrightarrow> code_ok h a rk n v res"
  by (auto simp: code_ok_def node_rel_def)

lemma instr_step:
  assumes ok: "range_ok h a" "well_linked h" and sum: "sum_ok h a rk n" and n: "int32_instr h n"
    and ops: "mn_operands (h n) = [Some l, Some r]"
    and inp: "input_ok h a rk env m l" "input_ok h a rk env m r"
  shows "code_ok h a rk n (js_op (mn_op (h n)) (env l) (env r)) (instr_code h a n m)"
proof -
  have g: "getOperand h n 0 = Some l" "getOperand h n 1 = Some r" using ops by (simp_all add: getOperand_def numOperands_def)
  have rel: "node_rel h a rk l (env l) (m l)" "node_rel h a rk r (env r) (m r)"
    and k: "consts_ok h a m l" "consts_ok h a m r" using inp by (simp_all add: input_ok_def)
  note t = rel[THEN rel_ToInt32]
  consider "mn_op (h n) \<in> {Op_BitAnd, Op_BitOr, Op_BitXor, Op_Lsh, Op_Rsh}" | "mn_op (h n) = Op_Ursh"
    | "mn_op (h n) = Op_Add \<or> mn_op (h n) = Op_Sub" | "mn_op (h n) = Op_Mul" | "mn_op (h n) = Op_Div" | "mn_op (h n) = Op_Mod"
    using n by (auto simp: int32_instr_def)
  then show ?thesis
  proof cases
    case 1
    then show ?thesis using bit_step[OF 1 g, of "env l" m "env r" a] t
      by (intro code_ok_exact) (auto simp: truncated_def trunc_op_def)
  next
    case 2
    have "ma_canOverflow (a n)" using ok(1) 2 by (auto simp: range_ok_def forward_ok_def)
    then show ?thesis using ursh_step[of h n l r "env l" m "env r" a] 2 g t k
      by (intro code_ok_exact) (auto simp: truncated_def trunc_op_def consts_ok_def)
  next
    case 3
    show ?thesis
    proof (cases "truncated h a n")
      case True
      then show ?thesis using 3 sum ops
        by (intro truncated_sum_step[OF ok 3 True g rel]) (auto simp: sum_ok_def)
    next
      case False
      have "\<not> truncated h a x" if "getOperand h n i = Some x" for i x
        using operand_truncated[OF ok that] 3 False
        by (auto simp: use_truncates_def truncated_def trunc_op_def split: if_splits)
      then show ?thesis using add_sub_step[OF ok 3 False g rel] g by blast
    qed
  qed (use mul_step[OF ok _ g rel k] div_step[OF ok _ g rel k] mod_step[OF ok _ g rel] in auto)
qed

lemma run_block_ok:
  assumes ok: "range_ok h a" "well_linked h"
  shows "(\<forall>n \<in> set ns. int32_instr h n \<and> sum_ok h a rk n \<and> js_instr h env n \<and> n \<in> D \<and> (\<forall>x. Some x \<in> set (mn_operands (h n)) \<longrightarrow> x \<in> D)) \<Longrightarrow>
    scheduled h ns \<Longrightarrow> \<forall>x \<in> D - set ns. input_ok h a rk env m x \<Longrightarrow>
    \<exists>res. run_block h a ns m = Some res \<and> res \<noteq> Trapped \<and>
      (\<forall>m'. res = Done m' \<longrightarrow> (\<forall>x \<in> D. input_ok h a rk env m' x))"
proof (induction ns arbitrary: m)
  case (Cons n ns)
  have n: "int32_instr h n" "sum_ok h a rk n" "js_instr h env n" "n \<in> D" using Cons.prems(1) by auto
  obtain l r where lr: "mn_operands (h n) = [Some l, Some r]" using n(1) by (auto simp: int32_instr_def)
  have "l \<in> D - set (n # ns)" "r \<in> D - set (n # ns)" using Cons.prems(1,2) lr by auto
  then have inp: "input_ok h a rk env m l" "input_ok h a rk env m r" using Cons.prems(3) by blast+
  have "code_ok h a rk n (env n) (instr_code h a n m)"
    using instr_step[OF ok n(2,1) lr inp] n(3) lr by (simp add: js_instr_def)
  then obtain out where out: "instr_code h a n m = Some out" "out \<noteq> Trap" "\<And>w. out = Value w \<Longrightarrow> node_rel h a rk n (env n) w"
    by (auto simp: code_ok_def)
  show ?case
  proof (cases out)
    case (Value w)
    have c: "\<not> isConstant h n" using n(1) by (auto simp: int32_instr_def isConstant_def)
    have "\<forall>x \<in> D - set ns. input_ok h a rk env (m(n := w)) x"
      using Cons.prems(3) out(3)[OF Value] c by (auto simp: input_ok_def consts_ok_def)
    then have "\<exists>res. run_block h a ns (m(n := w)) = Some res \<and> res \<noteq> Trapped \<and>
      (\<forall>m'. res = Done m' \<longrightarrow> (\<forall>x \<in> D. input_ok h a rk env m' x))"
      by (intro Cons.IH) (use Cons.prems(1,2) in \<open>simp_all only: list.set ball_simps scheduled.simps simp_thms, blast\<close>)
    then show ?thesis using out(1) Value by simp
  qed (use out in simp_all)
qed simp


text \<open>
  C4: the code of an analysed block. Both passes of range analysis run on a freshly built graph, and
  the code of a block of int32 instructions is emitted with the attributes they leave. Started with
  registers that hold the JavaScript values of the operands from outside the block, a run of the code
  never reaches a processor trap and is never undefined: it bails out or completes, and then every
  register holds the value of its instruction modulo \<open>2 ^ 32\<close>, and the exact value wherever the
  instruction is not marked as truncated and its -0 is observable. The condition \<open>sum_ok\<close> limits
  truncated sums to 21 nested levels and keeps truncated divisions out of them.
\<close>

theorem analysed_block_correct:
  assumes "constructed (g_nodes g) a" "well_linked (g_nodes g)" "analyzeLate g (analyzeEarly g a) = Some b"
    and "\<forall>n \<in> set ns. int32_instr (g_nodes g) n \<and> sum_ok (g_nodes g) b rk n \<and> js_instr (g_nodes g) env n"
    and "scheduled (g_nodes g) ns"
    and "\<forall>n \<in> set ns. \<forall>x. Some x \<in> set (mn_operands (g_nodes g n)) \<and> x \<notin> set ns \<longrightarrow> input_ok (g_nodes g) b rk env m x"
  shows "\<exists>res. run_block (g_nodes g) b ns m = Some res \<and> res \<noteq> Trapped \<and>
    (\<forall>m'. res = Done m' \<longrightarrow> (\<forall>n \<in> set ns. es5_ToInt32 (env n) = m' n \<and>
       (\<not> truncated (g_nodes g) b n \<and> \<not> maybe_neg_zero (g_nodes g) b n \<longrightarrow> env n = num (m' n)) \<and>
       node_rel (g_nodes g) b rk n (env n) (m' n)))"
proof -
  have ok: "range_ok (g_nodes g) b" using range_analysis[OF assms(1,2)] assms(3) by auto
  let ?D = "set ns \<union> {x. \<exists>n \<in> set ns. Some x \<in> set (mn_operands (g_nodes g n))}"
  have "\<exists>res. run_block (g_nodes g) b ns m = Some res \<and> res \<noteq> Trapped \<and>
      (\<forall>m'. res = Done m' \<longrightarrow> (\<forall>x \<in> ?D. input_ok (g_nodes g) b rk env m' x))"
    by (rule run_block_ok[OF ok assms(2)]) (use assms(4-6) in blast)+
  then obtain res where res: "run_block (g_nodes g) b ns m = Some res" "res \<noteq> Trapped"
    "\<And>m' n. res = Done m' \<Longrightarrow> n \<in> set ns \<Longrightarrow> node_rel (g_nodes g) b rk n (env n) (m' n)"
    by (auto simp: input_ok_def)
  then show ?thesis using rel_ToInt32 rel_exact by (intro exI[of _ res]) blast
qed

subsection \<open>Examples\<close>

text \<open>Analysis of the program and a run of its code, up to the register of one instruction.\<close>

definition prog_result :: "prog \<Rightarrow> nat list \<Rightarrow> (nat \<Rightarrow> i32) \<Rightarrow> nat \<Rightarrow> i32 option" where
  "prog_result p ns m n = do {
     b \<leftarrow> analyzeLate (prog_graph p (ns @ [length p - 1])) (analyzeEarly (prog_graph p (ns @ [length p - 1])) (prog_attrs m));
     res \<leftarrow> run_block (prog_nodes p) b ns m;
     (case res of Done m' \<Rightarrow> Some (m' n) | _ \<Rightarrow> None) }"

lemma prog_resultD:
  assumes "prog_result p ns m n = Some v"
  obtains b m' where "analyzeLate (prog_graph p (ns @ [length p - 1])) (analyzeEarly (prog_graph p (ns @ [length p - 1])) (prog_attrs m)) = Some b"
    "run_block (prog_nodes p) b ns m = Some (Done m')" "m' n = v"
  using assms by (auto simp: prog_result_def split: Option.bind_splits block_result.splits)

text \<open>\<open>((x / y) + z) | 0\<close>, with parameters 0, 1 and 2 and the constant 3.\<close>

definition div_sum_prog :: prog where
  "div_sum_prog = [(Op_Parameter, []), (Op_Parameter, []), (Op_Parameter, []), (Op_Constant, []),
     (Op_Div, [0, 1]), (Op_Add, [4, 2]), (Op_BitOr, [5, 3]), (Op_Return, [6])]"

text \<open>\<open>((((x + x) + ..) + ..) + 1) | 0\<close> with 23 doublings, the parameter 0 and the constants 1 and 2.\<close>

definition deep_sum_prog :: prog where
  "deep_sum_prog = [(Op_Parameter, []), (Op_Constant, []), (Op_Constant, []), (Op_Add, [0, 0])] @
     map (\<lambda>k. (Op_Add, [k, k])) [3..<25] @ [(Op_Add, [25, 1]), (Op_BitOr, [26, 2]), (Op_Return, [27])]"

text \<open>The JavaScript values of the instructions of a program.\<close>

fun prog_js :: "prog \<Rightarrow> nat list \<Rightarrow> (nat \<Rightarrow> double) \<Rightarrow> nat \<Rightarrow> double" where
  "prog_js p [] env = env"
| "prog_js p (n # ns) env = prog_js p ns (env(n := js_op (fst (p ! n)) (env (snd (p ! n) ! 0)) (env (snd (p ! n) ! 1))))"

lemma half_dbl: "dbl_add (dbl_div (num 1) (num 2)) (num (-1)) = round_dbl False (- (1 / 2))" "es5_ToInt32 (round_dbl False (- (1 / 2))) = 0"
proof -
  have e: "dbl_exact (1 / 2)" "dbl_exact (- (1 / 2))" by (rule dbl_exactI[of _ 1 "-1"]; simp add: power_int_minus)+
  note h1 = round_dbl_exact[OF e(1), of False] and h2 = round_dbl_exact[OF e(2), of False]
  have d: "dbl_div (num 1) (num 2) = round_dbl False (1 / 2)"
    using num_facts(5)[of 2] by (simp only: dbl_div_def num_facts dval_num Let_def) simp
  have f: "\<not> dbl_is_nan (round_dbl False (1 / 2))" "\<not> dbl_is_infinite (round_dbl False (1 / 2))"
    using h1 by (simp_all add: finite_not_nan finite_not_infinite)
  show "dbl_add (dbl_div (num 1) (num 2)) (num (-1)) = round_dbl False (- (1 / 2))"
    using h1 f unfolding d by (simp only: dbl_add_def num_facts dval_num if_False simp_thms) simp
  show "es5_ToInt32 (round_dbl False (- (1 / 2))) = 0"
    using h2 ceiling_eq_iff[of "- (1 / 2) :: rat" 0] unfolding es5_ToInt32_def by (simp add: rat_trunc_def)
qed

lemma tie_dbl:
  "dbl_add (dbl_of_int 18014398501093376) (num 1) = dbl_of_int 18014398501093376"
  "es5_ToInt32 (dbl_of_int 18014398501093376) = - 8388608"
proof -
  have l: "ilog2 q = 53" if "9007199254740992 \<le> q" "q < 18014398509481984" for q
    using that by (intro ilog2_unique) (simp_all add: power_int_def)
  have fl: "\<lfloor>18014398501093377 / 2 :: rat\<rfloor> = 9007199250546688" by (simp add: floor_eq_iff)
  have "round_mag 18014398501093377 = round_mag 18014398501093376"
    by (simp add: round_mag_def l round_even_def Let_def power_int_def fl)
  then have t: "round_dbl False 18014398501093377 = dbl_of_int 18014398501093376" by (simp add: dbl_of_int_def round_dbl_def)
  have "dbl_exact (of_int 18014398501093376)" by (rule dbl_exactI[of _ 2147483647 23]) simp_all
  note d = round_dbl_exact[OF this, of False]
  have f: "\<not> dbl_is_nan (dbl_of_int 18014398501093376)" "\<not> dbl_is_infinite (dbl_of_int 18014398501093376)"
    "dval (dbl_of_int 18014398501093376) = 18014398501093376"
    using d unfolding dbl_of_int_def by (simp_all add: finite_not_nan finite_not_infinite)
  show "dbl_add (dbl_of_int 18014398501093376) (num 1) = dbl_of_int 18014398501093376"
    by (simp only: dbl_add_def num_facts dval_num if_False simp_thms f) (simp add: t)
  show "es5_ToInt32 (dbl_of_int 18014398501093376) = - 8388608"
    using d unfolding es5_ToInt32_def dbl_of_int_def by (simp add: rat_trunc_def)
qed

lemma deep_sum_js: "prog_js deep_sum_prog [3..<28] (\<lambda>k. num ([2147483647, 1, 0] ! k)) 27 = num (-8388608)"
  using tie_dbl es5_ToInt32_of_int[of 0] by (simp add: deep_sum_prog_def int_add upt_rec nth_append)

text \<open>
  C37: where truncation goes wrong. The analysis marks a division as truncated when its only use is a
  truncated addition, although the sum of the truncated quotient differs from the truncated sum:
  \<open>((x / y) + z) | 0\<close> for 1, 2 and -1 gives -1 instead of 0. And it puts no bound on the depth of
  truncated sums, although doubles round integers above \<open>2 ^ 53\<close>: after 23 doublings of
  \<open>INT32_MAX\<close>, adding 1 is lost in JavaScript and not in the emitted code.
\<close>

theorem truncation_limits:
  "prog_result div_sum_prog [4, 5, 6] (\<lambda>k. [1, 2, -1, 0] ! k) 6 = Some (-1) \<and>
   prog_js div_sum_prog [4, 5, 6] (\<lambda>k. num ([1, 2, -1, 0] ! k)) 6 = num 0 \<and>
   prog_result deep_sum_prog [3..<28] (\<lambda>k. [2147483647, 1, 0] ! k) 27 = Some (-8388607) \<and>
   prog_js deep_sum_prog [3..<28] (\<lambda>k. num ([2147483647, 1, 0] ! k)) 27 = num (-8388608)"
proof (intro conjI)
  show "prog_result div_sum_prog [4, 5, 6] (\<lambda>k. [1, 2, -1, 0] ! k) 6 = Some (-1)" by code_simp
  show "prog_js div_sum_prog [4, 5, 6] (\<lambda>k. num ([1, 2, -1, 0] ! k)) 6 = num 0"
    using half_dbl es5_ToInt32_of_int[of 0] by (simp add: div_sum_prog_def)
  show "prog_result deep_sum_prog [3..<28] (\<lambda>k. [2147483647, 1, 0] ! k) 27 = Some (-8388607)" by code_simp
qed (rule deep_sum_js)

text \<open>\<open>(x + y) & y\<close> with both parameters \<open>INT32_MAX\<close>: the sum is truncated and wraps.\<close>

definition and_sum_prog :: prog where
  "and_sum_prog = [(Op_Parameter, []), (Op_Parameter, []), (Op_Add, [0, 1]), (Op_BitAnd, [2, 1]), (Op_Return, [3])]"

theorem analysed_block_correct_witness:
  "\<exists>b m'. analyzeLate (prog_graph and_sum_prog [2, 3, 4]) (analyzeEarly (prog_graph and_sum_prog [2, 3, 4]) (prog_attrs (\<lambda>_. 2147483647))) = Some b \<and>
     run_block (prog_nodes and_sum_prog) b [2, 3] (\<lambda>_. 2147483647) = Some (Done m') \<and> m' 3 = 2147483646 \<and>
     es5_ToInt32 (prog_js and_sum_prog [2, 3] (\<lambda>_. num 2147483647) 2) = m' 2 \<and>
     prog_js and_sum_prog [2, 3] (\<lambda>_. num 2147483647) 3 = num (m' 3)"
proof -
  let ?g = "prog_graph and_sum_prog [2, 3, 4]" and ?a = "prog_attrs (\<lambda>_. 2147483647)" and ?m = "\<lambda>_::nat. 2147483647 :: i32"
  let ?env = "prog_js and_sum_prog [2, 3] (\<lambda>_. num 2147483647)" and ?h = "prog_nodes and_sum_prog"
  have g: "g_nodes ?g = ?h" by (simp add: prog_graph_def)
  have r: "prog_result and_sum_prog [2, 3] ?m 3 = Some 2147483646" by code_simp
  have l: "[2, 3] @ [length and_sum_prog - 1] = [2, 3, 4]" by (simp add: and_sum_prog_def)
  obtain b m' where b: "analyzeLate ?g (analyzeEarly ?g ?a) = Some b" and run: "run_block ?h b [2, 3] ?m = Some (Done m')"
    and m3: "m' 3 = 2147483646"
    using prog_resultD[OF r] l by auto
  have c: "constructed (g_nodes ?g) ?a" "well_linked (g_nodes ?g)"
    unfolding g by (rule prog_constructed, rule prog_well_linked) (simp add: and_sum_prog_def)
  have e: "prog_entry and_sum_prog 0 = (Op_Parameter, [])" "prog_entry and_sum_prog 1 = (Op_Parameter, [])"
    "prog_entry and_sum_prog 2 = (Op_Add, [0, 1])" "prog_entry and_sum_prog 3 = (Op_BitAnd, [2, 1])"
    by (simp_all add: prog_entry_def and_sum_prog_def)
  have "\<exists>res. run_block (g_nodes ?g) b [2, 3] ?m = Some res \<and> res \<noteq> Trapped \<and>
    (\<forall>m'. res = Done m' \<longrightarrow> (\<forall>n \<in> set [2, 3]. es5_ToInt32 (?env n) = m' n \<and>
       (\<not> truncated (g_nodes ?g) b n \<and> \<not> maybe_neg_zero (g_nodes ?g) b n \<longrightarrow> ?env n = num (m' n)) \<and>
       node_rel (g_nodes ?g) b (\<lambda>_. 1) n (?env n) (m' n)))"
  proof (rule analysed_block_correct[OF c b])
    show "\<forall>n \<in> set [2, 3]. int32_instr (g_nodes ?g) n \<and> sum_ok (g_nodes ?g) b (\<lambda>_. 1) n \<and> js_instr (g_nodes ?g) ?env n"
      unfolding g using e by (auto simp: int32_instr_def sum_ok_def truncated_def trunc_op_def js_instr_def and_sum_prog_def)
    show "scheduled (g_nodes ?g) [2, 3]" unfolding g using e by auto
    show "\<forall>n \<in> set [2, 3]. \<forall>x. Some x \<in> set (mn_operands (g_nodes ?g n)) \<and> x \<notin> set [2, 3] \<longrightarrow> input_ok (g_nodes ?g) b (\<lambda>_. 1) ?env ?m x"
      unfolding g using e
      by (auto simp: input_ok_def node_rel_def truncated_def trunc_op_def consts_ok_def isConstant_def and_sum_prog_def)
  qed
  then have "es5_ToInt32 (?env 2) = m' 2" "\<not> truncated ?h b 3 \<and> \<not> maybe_neg_zero ?h b 3 \<longrightarrow> ?env 3 = num (m' 3)"
    using run unfolding g by auto
  moreover have "\<not> truncated ?h b 3 \<and> \<not> maybe_neg_zero ?h b 3"
    using e by (simp add: truncated_def maybe_neg_zero_def trunc_op_def zero_op_def)
  ultimately show ?thesis using b run m3 by blast
qed

end
