(* ===== verification/Phi_Types.thy ===== *)
theory Phi_Types
  imports Mir_Blocks
begin

text \<open>
  The type analysis of phis (class \<open>TypeAnalyzer\<close> of \<open>ion/IonAnalysis.cpp\<close>). \<open>specializePhis\<close> guesses
  a type for every phi from its inputs and propagates it to the phis that use it, with a worklist of
  the phis whose type changed; \<open>adjustPhiInputs\<close> then converts or boxes the inputs that do not have
  the type of their phi.

  The state is the node store, the member \<open>triedToSpecialize_\<close> of the phis and the worklist. The
  worklist loop is a partial function: \<open>None\<close> is a failed assertion or a run that does not end, and
  the main theorem says that neither happens. The worklist is a vector for which memory is
  available: the failure of an append, which ends the analysis with the result false, is not modelled.
\<close>

subsection \<open>The code\<close>

record type_analyzer =
  ta_nodes :: nodes
  ta_tried :: "nat \<Rightarrow> bool"
  ta_worklist :: "nat list"

definition ta_type :: "type_analyzer \<Rightarrow> nat \<Rightarrow> MIRType" where
  "ta_type s n = mn_type (ta_nodes s n)"

definition isPhi :: "nodes \<Rightarrow> nat \<Rightarrow> bool" where
  "isPhi h n \<longleftrightarrow> mn_op (h n) = Op_Phi"

definition addPhiToWorklist :: "nat \<Rightarrow> type_analyzer \<Rightarrow> type_analyzer option" where
  "addPhiToWorklist phi s =
     (if hasFlag (ta_nodes s) InWorklist phi then Some s
      else do {
        h \<leftarrow> setFlag InWorklist phi (ta_nodes s);
        Some (s\<lparr>ta_nodes := h, ta_worklist := ta_worklist s @ [phi]\<rparr>) })"

definition popPhi :: "type_analyzer \<Rightarrow> (nat \<times> type_analyzer) option" where
  "popPhi s = do {
     js_assert (ta_worklist s \<noteq> []);
     let phi = last (ta_worklist s);
     h \<leftarrow> setNotFlag InWorklist phi (ta_nodes s);
     Some (phi, s\<lparr>ta_nodes := h, ta_worklist := butlast (ta_worklist s)\<rparr>) }"

definition specialize :: "nat \<Rightarrow> MIRType \<Rightarrow> type_analyzer \<Rightarrow> type_analyzer" where
  "specialize phi t s =
     s\<lparr>ta_tried := (ta_tried s)(phi := True),
       ta_nodes := (ta_nodes s)(phi := (ta_nodes s phi)\<lparr>mn_type := t\<rparr>)\<rparr>"

fun GuessPhiType_loop :: "type_analyzer \<Rightarrow> nat option list \<Rightarrow> MIRType \<Rightarrow> MIRType option" where
  "GuessPhiType_loop s [] type = Some type"
| "GuessPhiType_loop s (d # ds) type = do {
     input \<leftarrow> d;
     if isPhi (ta_nodes s) input \<and> \<not> ta_tried s input then GuessPhiType_loop s ds type
     else if type = MIRType_None then GuessPhiType_loop s ds (ta_type s input)
     else if type \<noteq> ta_type s input
     then (if IsNumberType type \<and> IsNumberType (ta_type s input) then GuessPhiType_loop s ds MIRType_Double
           else Some MIRType_Value)
     else GuessPhiType_loop s ds type }"

definition GuessPhiType :: "type_analyzer \<Rightarrow> nat \<Rightarrow> MIRType option" where
  "GuessPhiType s phi = GuessPhiType_loop s (mn_operands (ta_nodes s phi)) MIRType_None"

definition respecialize :: "nat \<Rightarrow> MIRType \<Rightarrow> type_analyzer \<Rightarrow> type_analyzer option" where
  "respecialize phi t s = (if ta_type s phi = t then Some s else addPhiToWorklist phi (specialize phi t s))"

definition propagateToUse :: "nat \<Rightarrow> nat \<Rightarrow> type_analyzer \<Rightarrow> type_analyzer option" where
  "propagateToUse phi def s =
     (if \<not> isPhi (ta_nodes s) def then Some s
      else if \<not> ta_tried s def then Some s
      else if ta_type s def = MIRType_None then respecialize def (ta_type s phi) s
      else if ta_type s def \<noteq> ta_type s phi
      then (if IsNumberType (ta_type s def) \<and> IsNumberType (ta_type s phi) then respecialize def MIRType_Double s
            else respecialize def MIRType_Value s)
      else Some s)"

text \<open>\<open>MUseDefIterator\<close> skips the uses by resume points.\<close>

definition use_defs :: "nodes \<Rightarrow> nat \<Rightarrow> nat list" where
  "use_defs h n = filter (isDefinition h) (map fst (mn_uses (h n)))"

definition propagateSpecialization :: "nat \<Rightarrow> type_analyzer \<Rightarrow> type_analyzer option" where
  "propagateSpecialization phi s = mfold (propagateToUse phi) (use_defs (ta_nodes s) phi) s"

definition specializePhi :: "nat \<Rightarrow> type_analyzer \<Rightarrow> type_analyzer option" where
  "specializePhi phi s = do {
     t \<leftarrow> GuessPhiType s phi;
     propagateSpecialization phi (specialize phi t s) }"

partial_function (option) specializePhis_drain :: "type_analyzer \<Rightarrow> type_analyzer option" where
  "specializePhis_drain s =
     (if ta_worklist s = [] then Some s
      else do {
        (phi, s) \<leftarrow> popPhi s;
        s \<leftarrow> propagateSpecialization phi s;
        specializePhis_drain s })"

declare specializePhis_drain.simps [code]

definition postorder_phis :: "mir_graph \<Rightarrow> nat list" where
  "postorder_phis g = concat (map (\<lambda>b. bl_phis (g_blocks g b)) (rev (g_blockList g)))"

definition specializePhis :: "mir_graph \<Rightarrow> type_analyzer \<Rightarrow> type_analyzer option" where
  "specializePhis g s = do {
     s \<leftarrow> mfold specializePhi (postorder_phis g) s;
     specializePhis_drain s }"

subsection \<open>The order of types\<close>

text \<open>An input of type \<open>t\<close> may feed a phi of type \<open>u\<close>; \<open>None\<close> is the type not yet known.\<close>

definition feeds :: "MIRType \<Rightarrow> MIRType \<Rightarrow> bool" where
  "feeds t u \<longleftrightarrow> t = u \<or> u = MIRType_Value \<or> t = MIRType_Int32 \<and> u = MIRType_Double \<or> t = MIRType_None"

definition type_join :: "MIRType \<Rightarrow> MIRType \<Rightarrow> MIRType" where
  "type_join u t = (if u = MIRType_None then t else if u = t then u
     else if IsNumberType u \<and> IsNumberType t then MIRType_Double else MIRType_Value)"

fun type_rank :: "MIRType \<Rightarrow> nat" where
  "type_rank MIRType_None = 0"
| "type_rank MIRType_Value = 3"
| "type_rank MIRType_Double = 2"
| "type_rank _ = 1"

lemma feeds_refl [simp]: "feeds t t" by (simp add: feeds_def)

lemma feeds_join: "feeds t (type_join u t)"
  by (auto simp: feeds_def type_join_def IsNumberType_def)

lemma feeds_raise: "feeds t u \<Longrightarrow> feeds t (type_join u v)"
  by (auto simp: feeds_def type_join_def IsNumberType_def)

lemma type_rank_le: "type_rank t \<le> 3" by (cases t) auto

lemma type_rank_join: "type_join u t \<noteq> u \<Longrightarrow> type_rank u < type_rank (type_join u t)"
  by (cases u; cases t) (auto simp: type_join_def IsNumberType_def)

lemma feeds_None: "feeds t MIRType_None \<longleftrightarrow> t = MIRType_None"
  by (auto simp: feeds_def)

lemma propagateToUse_alt:
  "propagateToUse phi def s =
     (if isPhi (ta_nodes s) def \<and> ta_tried s def then respecialize def (type_join (ta_type s def) (ta_type s phi)) s else Some s)"
  by (auto simp: propagateToUse_def type_join_def respecialize_def)


subsection \<open>Flags\<close>

lemma hasFlag_bit: "hasFlag h f n \<longleftrightarrow> bit (mn_flags (h n)) (flag_bit f)"
proof -
  have f: "flag_bit f < 32" by (cases f) auto
  have "mn_flags (h n) AND push_bit (flag_bit f) 1 = push_bit (flag_bit f) 1 \<longleftrightarrow> bit (mn_flags (h n)) (flag_bit f)"
  proof
    assume "mn_flags (h n) AND push_bit (flag_bit f) 1 = push_bit (flag_bit f) 1"
    then have "bit (mn_flags (h n) AND push_bit (flag_bit f) 1) (flag_bit f)"
      using f by (simp add: bit_push_bit_iff bit_1_iff)
    then show "bit (mn_flags (h n)) (flag_bit f)" by (simp add: bit_and_iff)
  next
    assume "bit (mn_flags (h n)) (flag_bit f)"
    then show "mn_flags (h n) AND push_bit (flag_bit f) 1 = push_bit (flag_bit f) 1"
      by (intro bit_word_eqI) (auto simp: bit_and_iff bit_push_bit_iff bit_1_iff)
  qed
  then show ?thesis by (simp add: hasFlag_def)
qed

lemma setFlag_spec:
  assumes "\<not> hasFlag h f n"
  obtains h' where "setFlag f n h = Some h'" "h' = h(n := (h n)\<lparr>mn_flags := mn_flags (h' n)\<rparr>)"
    "\<And>m. hasFlag h' f m \<longleftrightarrow> m = n \<or> hasFlag h f m"
proof -
  have f: "flag_bit f < 32" by (cases f) auto
  show thesis
    by (rule that[of "setFlagUnchecked f n h"])
      (use assms f in \<open>auto simp: setFlag_def setFlagUnchecked_def hasFlag_bit bit_or_iff bit_push_bit_iff\<close>)
qed

lemma setNotFlag_spec:
  assumes "hasFlag h f n"
  obtains h' where "setNotFlag f n h = Some h'" "h' = h(n := (h n)\<lparr>mn_flags := mn_flags (h' n)\<rparr>)"
    "\<And>m. hasFlag h' f m \<longleftrightarrow> m \<noteq> n \<and> hasFlag h f m"
proof -
  have f: "flag_bit f < 32" by (cases f) auto
  show thesis
    by (rule that[of "h(n := (h n)\<lparr>mn_flags := mn_flags (h n) AND NOT (push_bit (flag_bit f) 1)\<rparr>)"])
      (use assms f in \<open>auto simp: setNotFlag_def hasFlag_bit bit_and_iff bit_not_iff bit_push_bit_iff\<close>)
qed

subsection \<open>The invariant\<close>

text \<open>
  The phis of the graph with their neighbours: all inputs are set, phis that are inputs or users of a
  phi of the graph belong to it, and a phi is on the use chain of each of its inputs.
\<close>

definition phi_graph :: "nat set \<Rightarrow> nodes \<Rightarrow> bool" where
  "phi_graph P h \<longleftrightarrow> finite P \<and>
     (\<forall>p \<in> P. isPhi h p \<and> isDefinition h p \<and> None \<notin> set (mn_operands (h p)) \<and>
        (\<forall>d \<in> set (use_defs h p). isPhi h d \<longrightarrow> d \<in> P) \<and>
        (\<forall>q. Some q \<in> set (mn_operands (h p)) \<longrightarrow> p \<in> set (use_defs h q) \<and>
           (if isPhi h q then q \<in> P else mn_type (h q) \<noteq> MIRType_None)))"

lemma phi_graphD:
  assumes "phi_graph P h"
  shows "finite P" "p \<in> P \<Longrightarrow> isPhi h p" "p \<in> P \<Longrightarrow> d \<in> set (use_defs h p) \<Longrightarrow> isPhi h d \<Longrightarrow> d \<in> P"
    "p \<in> P \<Longrightarrow> Some q \<in> set (mn_operands (h p)) \<Longrightarrow> p \<in> set (use_defs h q)"
    "p \<in> P \<Longrightarrow> None \<notin> set (mn_operands (h p))"
    "p \<in> P \<Longrightarrow> Some q \<in> set (mn_operands (h p)) \<Longrightarrow> isPhi h q \<Longrightarrow> q \<in> P"
    "p \<in> P \<Longrightarrow> Some q \<in> set (mn_operands (h p)) \<Longrightarrow> \<not> isPhi h q \<Longrightarrow> mn_type (h q) \<noteq> MIRType_None"
  using assms unfolding phi_graph_def by (blast, blast, blast, blast, blast, metis, metis)

text \<open>Only types and flags change, and only those of phis.\<close>

definition ta_frame :: "nat set \<Rightarrow> nodes \<Rightarrow> nodes \<Rightarrow> bool" where
  "ta_frame P h0 h \<longleftrightarrow> (\<forall>n. h n = (h0 n)\<lparr>mn_type := mn_type (h n), mn_flags := mn_flags (h n)\<rparr> \<and> (n \<notin> P \<longrightarrow> h n = h0 n))"

text \<open>The edges from an input to a phi that a run may still have to look at: the input is not yet
  guessed, on the worklist, or in \<open>X\<close>.\<close>

definition ta_stable :: "nat set \<Rightarrow> nodes \<Rightarrow> nat set \<Rightarrow> type_analyzer \<Rightarrow> bool" where
  "ta_stable P h0 X s \<longleftrightarrow> (\<forall>p \<in> P. ta_tried s p \<longrightarrow> (\<forall>q. Some q \<in> set (mn_operands (h0 p)) \<longrightarrow>
     isPhi h0 q \<and> \<not> ta_tried s q \<or> q \<in> set (ta_worklist s) \<or> q \<in> X \<or> feeds (ta_type s q) (ta_type s p)))"

definition ta_inv :: "nat set \<Rightarrow> nodes \<Rightarrow> nat set \<Rightarrow> type_analyzer \<Rightarrow> bool" where
  "ta_inv P h0 X s \<longleftrightarrow> ta_frame P h0 (ta_nodes s) \<and> ta_stable P h0 X s \<and> distinct (ta_worklist s) \<and>
     (\<forall>n \<in> P. hasFlag (ta_nodes s) InWorklist n \<longleftrightarrow> n \<in> set (ta_worklist s)) \<and>
     set (ta_worklist s) \<subseteq> {n \<in> P. ta_tried s n} \<and> (\<forall>n. ta_tried s n \<longrightarrow> n \<in> P)"

definition ta_measure :: "nat set \<Rightarrow> type_analyzer \<Rightarrow> nat" where
  "ta_measure P s = 2 * (\<Sum>n \<in> P. 3 - type_rank (ta_type s n)) + length (ta_worklist s)"

lemma ta_frame_fields:
  assumes "ta_frame P h0 h"
  shows "mn_op (h n) = mn_op (h0 n)" "mn_operands (h n) = mn_operands (h0 n)" "mn_uses (h n) = mn_uses (h0 n)"
    "mn_kind (h n) = mn_kind (h0 n)" "n \<notin> P \<Longrightarrow> mn_type (h n) = mn_type (h0 n)"
proof -
  have h: "h n = (h0 n)\<lparr>mn_type := mn_type (h n), mn_flags := mn_flags (h n)\<rparr>" "n \<notin> P \<Longrightarrow> h n = h0 n"
    using assms by (simp_all add: ta_frame_def)
  show "mn_op (h n) = mn_op (h0 n)" "mn_operands (h n) = mn_operands (h0 n)" "mn_uses (h n) = mn_uses (h0 n)"
    "mn_kind (h n) = mn_kind (h0 n)" by (subst h(1), simp)+
  show "n \<notin> P \<Longrightarrow> mn_type (h n) = mn_type (h0 n)" using h(2) by simp
qed

lemma ta_frame_isPhi: "ta_frame P h0 h \<Longrightarrow> isPhi h = isPhi h0"
  using ta_frame_fields(1) by (auto simp: isPhi_def fun_eq_iff)

lemma ta_frame_use_defs: "ta_frame P h0 h \<Longrightarrow> use_defs h = use_defs h0"
  using ta_frame_fields(3,4)
  by (auto simp: use_defs_def isDefinition_def fun_eq_iff intro!: filter_cong)

lemma ta_frame_update:
  assumes "ta_frame P h0 h" "n \<in> P"
  shows "ta_frame P h0 (h(n := (h n)\<lparr>mn_type := t\<rparr>))" "ta_frame P h0 (h(n := (h n)\<lparr>mn_flags := f\<rparr>))"
proof -
  have h: "h n = (h0 n)\<lparr>mn_type := mn_type (h n), mn_flags := mn_flags (h n)\<rparr>" using assms(1) by (simp add: ta_frame_def)
  have "(h n)\<lparr>mn_type := t\<rparr> = (h0 n)\<lparr>mn_type := t, mn_flags := mn_flags (h n)\<rparr>"
    "(h n)\<lparr>mn_flags := f\<rparr> = (h0 n)\<lparr>mn_type := mn_type (h n), mn_flags := f\<rparr>" by (subst h, simp)+
  then show "ta_frame P h0 (h(n := (h n)\<lparr>mn_type := t\<rparr>))" "ta_frame P h0 (h(n := (h n)\<lparr>mn_flags := f\<rparr>))"
    using assms by (simp_all add: ta_frame_def)
qed


subsection \<open>Raising the type of one phi\<close>

lemma specialize_simps [simp]:
  "ta_worklist (specialize p t s) = ta_worklist s" "ta_tried (specialize p t s) = (ta_tried s)(p := True)"
  "ta_type (specialize p t s) n = (if n = p then t else ta_type s n)"
  "hasFlag (ta_nodes (specialize p t s)) f n = hasFlag (ta_nodes s) f n"
  by (simp_all add: specialize_def ta_type_def hasFlag_def)

lemma type_update_flags: "h' = h(n := (h n)\<lparr>mn_flags := f\<rparr>) \<Longrightarrow> mn_type (h' m) = mn_type (h m)"
  by simp

text \<open>What one step of the propagation from \<open>phi\<close> keeps.\<close>

definition ta_step :: "nat set \<Rightarrow> nodes \<Rightarrow> nat \<Rightarrow> type_analyzer \<Rightarrow> type_analyzer \<Rightarrow> bool" where
  "ta_step P h0 phi s s' \<longleftrightarrow> ta_inv P h0 {phi} s' \<and> ta_measure P s' \<le> ta_measure P s \<and> ta_tried s' = ta_tried s \<and>
     ta_type s' phi = ta_type s phi \<and> (\<forall>t n. feeds t (ta_type s n) \<longrightarrow> feeds t (ta_type s' n))"

lemma ta_step_refl: "ta_inv P h0 {phi} s \<Longrightarrow> ta_step P h0 phi s s"
  by (simp add: ta_step_def)

lemma ta_step_trans: "ta_step P h0 phi s t \<Longrightarrow> ta_step P h0 phi t u \<Longrightarrow> ta_step P h0 phi s u"
  by (auto simp: ta_step_def)

lemma measure_raise:
  assumes "finite P" "d \<in> P" "type_rank (ta_type s d) < type_rank t" "\<And>n. ta_type s' n = (if n = d then t else ta_type s n)"
    and "length (ta_worklist s') \<le> length (ta_worklist s) + 1"
  shows "ta_measure P s' \<le> ta_measure P s"
proof -
  have "(\<Sum>n \<in> P. 3 - type_rank (ta_type s' n)) < (\<Sum>n \<in> P. 3 - type_rank (ta_type s n))"
    using assms(1-4) type_rank_le[of t] by (intro sum_strict_mono_ex1) auto
  then show ?thesis using assms(5) by (simp add: ta_measure_def)
qed

lemma stable_raise:
  assumes "ta_stable P h0 X s" "ta_tried s d"
    and "\<And>n. ta_type s' n = (if n = d then type_join (ta_type s d) v else ta_type s n)"
    and "ta_tried s' = ta_tried s" "set (ta_worklist s) \<subseteq> set (ta_worklist s')" "d \<in> set (ta_worklist s')"
  shows "ta_stable P h0 X s'"
  unfolding ta_stable_def
proof (intro ballI impI allI)
  fix p q
  assume p: "p \<in> P" "ta_tried s' p" "Some q \<in> set (mn_operands (h0 p))"
  then have "isPhi h0 q \<and> \<not> ta_tried s q \<or> q \<in> set (ta_worklist s) \<or> q \<in> X \<or> feeds (ta_type s q) (ta_type s p)"
    using assms(1,4) unfolding ta_stable_def by auto
  then show "isPhi h0 q \<and> \<not> ta_tried s' q \<or> q \<in> set (ta_worklist s') \<or> q \<in> X \<or> feeds (ta_type s' q) (ta_type s' p)"
    using assms(3-6) feeds_raise[of "ta_type s q" "ta_type s d" v] by (cases "q = d"; cases "p = d") auto
qed

lemma respecialize_step:
  assumes inv: "ta_inv P h0 {phi} s" and fin: "finite P" and d: "d \<in> P" "ta_tried s d"
  shows "\<exists>s'. respecialize d (type_join (ta_type s d) (ta_type s phi)) s = Some s' \<and> ta_step P h0 phi s s' \<and>
    feeds (ta_type s phi) (ta_type s' d)"
proof (cases "ta_type s d = type_join (ta_type s d) (ta_type s phi)")
  case True
  then have "respecialize d (type_join (ta_type s d) (ta_type s phi)) s = Some s" by (simp add: respecialize_def)
  then show ?thesis using feeds_join[of "ta_type s phi" "ta_type s d"] ta_step_refl[OF inv] True by auto
next
  case False
  define t where "t = type_join (ta_type s d) (ta_type s phi)"
  define s1 where "s1 = specialize d t s"
  have dphi: "d \<noteq> phi" using False by (auto simp: type_join_def split: if_splits)
  note i = inv[unfolded ta_inv_def]
  have tr: "(ta_tried s)(d := True) = ta_tried s" using d(2) by (intro fun_upd_idem) simp
  have fr1: "ta_frame P h0 (ta_nodes s1)" unfolding s1_def specialize_def using ta_frame_update(1)[OF _ d(1)] i by simp
  have rank: "type_rank (ta_type s d) < type_rank t" unfolding t_def by (rule type_rank_join) (use False in metis)
  obtain s' where s': "addPhiToWorklist d s1 = Some s'" "ta_frame P h0 (ta_nodes s')" "\<And>n. ta_type s' n = ta_type s1 n"
    "ta_tried s' = ta_tried s" "\<And>n. n \<in> P \<Longrightarrow> hasFlag (ta_nodes s') InWorklist n \<longleftrightarrow> n \<in> set (ta_worklist s')"
    "distinct (ta_worklist s')" "set (ta_worklist s') = insert d (set (ta_worklist s))"
    "length (ta_worklist s') \<le> length (ta_worklist s) + 1"
  proof (cases "hasFlag (ta_nodes s) InWorklist d")
    case True
    then have "d \<in> set (ta_worklist s)" using i d(1) by blast
    then show thesis using True i fr1 tr by (intro that[of s1]) (auto simp: addPhiToWorklist_def s1_def)
  next
    case nf: False
    then have nd: "d \<notin> set (ta_worklist s)" using i d(1) by blast
    have "\<not> hasFlag (ta_nodes s1) InWorklist d" using nf by (simp add: s1_def)
    then obtain h' where h': "setFlag InWorklist d (ta_nodes s1) = Some h'"
      "h' = (ta_nodes s1)(d := (ta_nodes s1 d)\<lparr>mn_flags := mn_flags (h' d)\<rparr>)"
      "\<And>m. hasFlag h' InWorklist m \<longleftrightarrow> m = d \<or> hasFlag (ta_nodes s1) InWorklist m"
      using setFlag_spec by blast
    have fr: "ta_frame P h0 h'" by (subst h'(2)) (rule ta_frame_update(2)[OF fr1 d(1)])
    have ty: "mn_type (h' n) = ta_type s1 n" for n unfolding ta_type_def by (rule type_update_flags[OF h'(2)])
    show thesis
      by (rule that[of "s1\<lparr>ta_nodes := h', ta_worklist := ta_worklist s1 @ [d]\<rparr>"])
        (use nf nd h' fr ty i tr d in \<open>auto simp: addPhiToWorklist_def s1_def ta_type_def\<close>)
  qed
  have ty: "ta_type s' n = (if n = d then t else ta_type s n)" for n using s'(3) by (simp add: s1_def)
  have "ta_stable P h0 {phi} s'"
    using i s' by (intro stable_raise[OF _ d(2) ty[unfolded t_def]]) auto
  then have "ta_inv P h0 {phi} s'" using s' i d unfolding ta_inv_def by auto
  moreover have "ta_measure P s' \<le> ta_measure P s" by (rule measure_raise[OF fin d(1) rank ty s'(8)])
  moreover have "feeds u (ta_type s n) \<Longrightarrow> feeds u (ta_type s' n)" for u n
    using feeds_raise[of u "ta_type s d" "ta_type s phi"] by (auto simp: ty t_def)
  ultimately have "ta_step P h0 phi s s'" using s'(4) dphi by (simp add: ta_step_def ty)
  moreover have "feeds (ta_type s phi) (ta_type s' d)" by (simp add: ty t_def feeds_join)
  moreover have "respecialize d t s = Some s'" using False s'(1) by (simp add: respecialize_def s1_def t_def)
  ultimately show ?thesis unfolding t_def by blast
qed


subsection \<open>Propagation and the initial pass\<close>

lemma propagateToUse_step:
  assumes inv: "ta_inv P h0 {phi} s" and g: "phi_graph P h0" and phi: "phi \<in> P" and d: "d \<in> set (use_defs h0 phi)"
  shows "\<exists>s'. propagateToUse phi d s = Some s' \<and> ta_step P h0 phi s s' \<and>
    (isPhi h0 d \<longrightarrow> ta_tried s d \<longrightarrow> feeds (ta_type s phi) (ta_type s' d))"
proof (cases "isPhi h0 d \<and> ta_tried s d")
  case True
  have "ta_frame P h0 (ta_nodes s)" using inv by (simp add: ta_inv_def)
  moreover have "d \<in> P" "finite P" using phi_graphD(1,3)[OF g] phi d True by blast+
  ultimately show ?thesis using respecialize_step[OF inv, of d] True by (simp add: propagateToUse_alt ta_frame_isPhi)
next
  case False
  have "ta_frame P h0 (ta_nodes s)" using inv by (simp add: ta_inv_def)
  then show ?thesis using ta_step_refl[OF inv] False by (auto simp: propagateToUse_alt ta_frame_isPhi)
qed

lemma propagate_loop:
  assumes g: "phi_graph P h0" and phi: "phi \<in> P"
  shows "ta_inv P h0 {phi} s \<Longrightarrow> set ds \<subseteq> set (use_defs h0 phi) \<Longrightarrow>
    \<exists>s'. mfold (propagateToUse phi) ds s = Some s' \<and> ta_step P h0 phi s s' \<and>
      (\<forall>d \<in> set ds. isPhi h0 d \<longrightarrow> ta_tried s d \<longrightarrow> feeds (ta_type s phi) (ta_type s' d))"
proof (induction ds arbitrary: s)
  case (Cons d ds)
  obtain s1 where s1: "propagateToUse phi d s = Some s1" "ta_step P h0 phi s s1"
    "isPhi h0 d \<longrightarrow> ta_tried s d \<longrightarrow> feeds (ta_type s phi) (ta_type s1 d)"
    using propagateToUse_step[OF Cons.prems(1) g phi, of d] Cons.prems(2) by auto
  have "ta_inv P h0 {phi} s1" using s1(2) by (simp add: ta_step_def)
  then obtain s2 where s2: "mfold (propagateToUse phi) ds s1 = Some s2" "ta_step P h0 phi s1 s2"
    "\<forall>d \<in> set ds. isPhi h0 d \<longrightarrow> ta_tried s1 d \<longrightarrow> feeds (ta_type s1 phi) (ta_type s2 d)"
    using Cons.IH[of s1] Cons.prems(2) by auto
  have same: "ta_tried s1 = ta_tried s" "ta_type s1 phi = ta_type s phi" using s1(2) by (simp_all add: ta_step_def)
  have "isPhi h0 d \<longrightarrow> ta_tried s d \<longrightarrow> feeds (ta_type s phi) (ta_type s2 d)"
    using s1(3) s2(2) unfolding ta_step_def by blast
  then have "\<forall>e \<in> set (d # ds). isPhi h0 e \<longrightarrow> ta_tried s e \<longrightarrow> feeds (ta_type s phi) (ta_type s2 e)"
    using s2(3) same by simp
  moreover have "mfold (propagateToUse phi) (d # ds) s = Some s2" using s1(1) s2(1) by simp
  ultimately show ?case using ta_step_trans[OF s1(2) s2(2)] by blast
qed (simp add: ta_step_refl)

lemma propagateSpecialization_ok:
  assumes inv: "ta_inv P h0 {phi} s" and g: "phi_graph P h0" and phi: "phi \<in> P" "ta_tried s phi"
  shows "\<exists>s'. propagateSpecialization phi s = Some s' \<and> ta_inv P h0 {} s' \<and> ta_tried s' = ta_tried s \<and>
    ta_measure P s' \<le> ta_measure P s"
proof -
  obtain s' where s': "mfold (propagateToUse phi) (use_defs h0 phi) s = Some s'" "ta_step P h0 phi s s'"
    and f: "\<forall>d \<in> set (use_defs h0 phi). isPhi h0 d \<longrightarrow> ta_tried s d \<longrightarrow> feeds (ta_type s phi) (ta_type s' d)"
    using propagate_loop[OF g phi(1) inv] by blast
  note st = s'(2)[unfolded ta_step_def]
  have "ta_stable P h0 {} s'" unfolding ta_stable_def
  proof (intro ballI impI allI)
    fix p q
    assume p: "p \<in> P" "ta_tried s' p" "Some q \<in> set (mn_operands (h0 p))"
    then have "isPhi h0 q \<and> \<not> ta_tried s' q \<or> q \<in> set (ta_worklist s') \<or> q \<in> {phi} \<or> feeds (ta_type s' q) (ta_type s' p)"
      using st unfolding ta_inv_def ta_stable_def by blast
    moreover have "feeds (ta_type s' q) (ta_type s' p)" if "q = phi"
    proof -
      have "p \<in> set (use_defs h0 phi)" "isPhi h0 p" using phi_graphD(2,4)[OF g] p that by blast+
      then show ?thesis using f p(2) st that by simp
    qed
    ultimately show "isPhi h0 q \<and> \<not> ta_tried s' q \<or> q \<in> set (ta_worklist s') \<or> q \<in> {} \<or> feeds (ta_type s' q) (ta_type s' p)"
      by blast
  qed
  then have "ta_inv P h0 {} s'" using st unfolding ta_inv_def by blast
  moreover have "ta_frame P h0 (ta_nodes s)" using inv by (simp add: ta_inv_def)
  ultimately show ?thesis using s'(1) st by (simp add: propagateSpecialization_def ta_frame_use_defs)
qed

lemma GuessPhiType_loop_ok:
  assumes "None \<notin> set ds"
  shows "\<exists>t. GuessPhiType_loop s ds acc = Some t \<and> feeds acc t \<and>
    (\<forall>q. Some q \<in> set ds \<longrightarrow> isPhi (ta_nodes s) q \<and> \<not> ta_tried s q \<or> feeds (ta_type s q) t)"
  using assms
proof (induction ds arbitrary: acc)
  case (Cons d ds)
  obtain q where d: "d = Some q" using Cons.prems by (cases d) auto
  have nn: "None \<notin> set ds" using Cons.prems by simp
  have up: "feeds a t \<Longrightarrow> feeds acc a \<Longrightarrow> feeds acc t" for a t
    by (auto simp: feeds_def)
  have up2: "feeds a t \<Longrightarrow> feeds (ta_type s q) a \<Longrightarrow> feeds (ta_type s q) t" for a t
    by (auto simp: feeds_def)
  let ?skip = "isPhi (ta_nodes s) q \<and> \<not> ta_tried s q"
  consider "?skip" | "\<not> ?skip" "acc = MIRType_None" | "\<not> ?skip" "acc \<noteq> MIRType_None" "acc = ta_type s q"
    | "\<not> ?skip" "acc \<noteq> MIRType_None" "acc \<noteq> ta_type s q" "IsNumberType acc \<and> IsNumberType (ta_type s q)"
    | "\<not> ?skip" "acc \<noteq> MIRType_None" "acc \<noteq> ta_type s q" "\<not> (IsNumberType acc \<and> IsNumberType (ta_type s q))" by blast
  then show ?case
  proof cases
    case 1
    then show ?thesis using Cons.IH[OF nn, of acc] d by auto
  next
    case 2
    then show ?thesis using Cons.IH[OF nn, of "ta_type s q"] d by (auto simp: feeds_def)
  next
    case 3
    then show ?thesis using Cons.IH[OF nn, of acc] d by auto
  next
    case 4
    have f: "feeds acc MIRType_Double" "feeds (ta_type s q) MIRType_Double" using 4 by (auto simp: feeds_def IsNumberType_def)
    then show ?thesis using Cons.IH[OF nn, of MIRType_Double] d 4 up up2 by auto
  next
    case 5
    then show ?thesis using d by (auto simp: feeds_def)
  qed
qed simp


lemma specializePhi_ok:
  assumes inv: "ta_inv P h0 {} s" and g: "phi_graph P h0" and phi: "phi \<in> P" "\<not> ta_tried s phi"
  shows "\<exists>s'. specializePhi phi s = Some s' \<and> ta_inv P h0 {} s' \<and> ta_tried s' = (ta_tried s)(phi := True)"
proof -
  note i = inv[unfolded ta_inv_def]
  have fr: "ta_frame P h0 (ta_nodes s)" using i by blast
  note ff = ta_frame_fields[OF fr]
  obtain t where t: "GuessPhiType s phi = Some t"
    "\<And>q. Some q \<in> set (mn_operands (h0 phi)) \<Longrightarrow> isPhi h0 q \<and> \<not> ta_tried s q \<or> feeds (ta_type s q) t"
    using GuessPhiType_loop_ok[of "mn_operands (h0 phi)" s MIRType_None] phi_graphD(5)[OF g phi(1)]
    by (auto simp: GuessPhiType_def ff ta_frame_isPhi[OF fr])
  define s1 where "s1 = specialize phi t s"
  have fr1: "ta_frame P h0 (ta_nodes s1)" unfolding s1_def specialize_def using ta_frame_update(1)[OF fr phi(1)] by simp
  have nwl: "phi \<notin> set (ta_worklist s)" using i phi(2) by blast
  have "ta_stable P h0 {phi} s1" unfolding ta_stable_def
  proof (intro ballI impI allI)
    fix p q
    assume p: "p \<in> P" "ta_tried s1 p" "Some q \<in> set (mn_operands (h0 p))"
    show "isPhi h0 q \<and> \<not> ta_tried s1 q \<or> q \<in> set (ta_worklist s1) \<or> q \<in> {phi} \<or> feeds (ta_type s1 q) (ta_type s1 p)"
    proof (cases "p = phi")
      case True
      then show ?thesis using t(2)[of q] p(3) by (cases "q = phi") (auto simp: s1_def)
    next
      case False
      then have "isPhi h0 q \<and> \<not> ta_tried s q \<or> q \<in> set (ta_worklist s) \<or> feeds (ta_type s q) (ta_type s p)"
        using i p unfolding ta_stable_def by (auto simp: s1_def)
      then show ?thesis using False by (cases "q = phi") (auto simp: s1_def)
    qed
  qed
  then have inv1: "ta_inv P h0 {phi} s1" using i fr1 nwl phi(1) unfolding ta_inv_def by (auto simp: s1_def)
  obtain s' where "propagateSpecialization phi s1 = Some s'" "ta_inv P h0 {} s'" "ta_tried s' = ta_tried s1"
    using propagateSpecialization_ok[OF inv1 g phi(1)] by (auto simp: s1_def)
  then show ?thesis using t(1) by (simp add: specializePhi_def s1_def)
qed

lemma specialize_all:
  assumes g: "phi_graph P h0"
  shows "ta_inv P h0 {} s \<Longrightarrow> set ps \<subseteq> P \<Longrightarrow> distinct ps \<Longrightarrow> \<forall>p \<in> set ps. \<not> ta_tried s p \<Longrightarrow>
    \<exists>s'. mfold specializePhi ps s = Some s' \<and> ta_inv P h0 {} s' \<and> (\<forall>n. ta_tried s' n \<longleftrightarrow> ta_tried s n \<or> n \<in> set ps)"
proof (induction ps arbitrary: s)
  case (Cons p ps)
  obtain s1 where s1: "specializePhi p s = Some s1" "ta_inv P h0 {} s1" "ta_tried s1 = (ta_tried s)(p := True)"
    using specializePhi_ok[OF Cons.prems(1) g, of p] Cons.prems(2,4) by auto
  have "\<forall>q \<in> set ps. \<not> ta_tried s1 q" using s1(3) Cons.prems(3,4) by auto
  then obtain s2 where "mfold specializePhi ps s1 = Some s2" "ta_inv P h0 {} s2" "\<forall>n. ta_tried s2 n \<longleftrightarrow> ta_tried s1 n \<or> n \<in> set ps"
    using Cons.IH[OF s1(2)] Cons.prems(2,3) by auto
  then show ?case using s1(1,3) by auto
qed simp

subsection \<open>The worklist loop\<close>

lemma popPhi_ok:
  assumes inv: "ta_inv P h0 {} s" and ne: "ta_worklist s \<noteq> []"
  obtains phi s1 where "popPhi s = Some (phi, s1)" "ta_inv P h0 {phi} s1" "phi \<in> P" "ta_tried s1 phi"
    "ta_tried s1 = ta_tried s" "ta_measure P s1 < ta_measure P s"
proof -
  note i = inv[unfolded ta_inv_def]
  define phi where "phi = last (ta_worklist s)"
  have wl: "ta_worklist s = butlast (ta_worklist s) @ [phi]" using ne by (simp add: phi_def)
  have phi: "phi \<in> set (ta_worklist s)" using ne by (simp add: phi_def)
  have p: "phi \<in> P" "ta_tried s phi" using i phi by auto
  have fl: "hasFlag (ta_nodes s) InWorklist phi" using i phi p by blast
  have set: "set (butlast (ta_worklist s)) = set (ta_worklist s) - {phi}"
    using i wl by (metis Diff_insert_absorb Un_insert_right distinct_append not_distinct_conv_prefix set_append
        list.simps(15) empty_set sup_bot_right)
  obtain h' where h': "setNotFlag InWorklist phi (ta_nodes s) = Some h'"
    "h' = (ta_nodes s)(phi := (ta_nodes s phi)\<lparr>mn_flags := mn_flags (h' phi)\<rparr>)"
    "\<And>m. hasFlag h' InWorklist m \<longleftrightarrow> m \<noteq> phi \<and> hasFlag (ta_nodes s) InWorklist m"
    using setNotFlag_spec[OF fl] by blast
  define s1 where "s1 = s\<lparr>ta_nodes := h', ta_worklist := butlast (ta_worklist s)\<rparr>"
  have fr: "ta_frame P h0 h'" by (subst h'(2)) (rule ta_frame_update(2), use i p in auto)
  have ty: "ta_type s1 n = ta_type s n" for n unfolding ta_type_def s1_def using type_update_flags[OF h'(2)] by simp
  have "ta_stable P h0 {phi} s1"
    using i set unfolding ta_stable_def by (auto simp: ty) (auto simp: s1_def)
  then have "ta_inv P h0 {phi} s1"
    using i fr h'(3) set distinct_butlast[of "ta_worklist s"] unfolding ta_inv_def by (auto simp: s1_def)
  moreover have "ta_measure P s1 < ta_measure P s"
    using ne by (simp add: ta_measure_def ty) (simp add: s1_def)
  moreover have "popPhi s = Some (phi, s1)" using ne h'(1) by (simp add: popPhi_def phi_def s1_def Let_def)
  ultimately show thesis using that p by (simp add: s1_def)
qed

lemma drain_ok:
  assumes g: "phi_graph P h0"
  shows "ta_inv P h0 {} s \<Longrightarrow>
    \<exists>s'. specializePhis_drain s = Some s' \<and> ta_inv P h0 {} s' \<and> ta_worklist s' = [] \<and> ta_tried s' = ta_tried s"
proof (induction "ta_measure P s" arbitrary: s rule: less_induct)
  case less
  show ?case
  proof (cases "ta_worklist s = []")
    case True
    then show ?thesis using less.prems by (simp add: specializePhis_drain.simps)
  next
    case False
    obtain phi s1 where s1: "popPhi s = Some (phi, s1)" "ta_inv P h0 {phi} s1" "phi \<in> P" "ta_tried s1 phi"
      "ta_tried s1 = ta_tried s" "ta_measure P s1 < ta_measure P s"
      using popPhi_ok[OF less.prems False] by blast
    obtain s2 where s2: "propagateSpecialization phi s1 = Some s2" "ta_inv P h0 {} s2" "ta_tried s2 = ta_tried s1"
      "ta_measure P s2 \<le> ta_measure P s1"
      using propagateSpecialization_ok[OF s1(2) g s1(3,4)] by blast
    obtain s' where "specializePhis_drain s2 = Some s'" "ta_inv P h0 {} s'" "ta_worklist s' = []" "ta_tried s' = ta_tried s2"
      using less.hyps[OF _ s2(2)] s1(6) s2(4) by auto
    then show ?thesis using False s1 s2 by (simp add: specializePhis_drain.simps[of s])
  qed
qed


subsection \<open>The result of the specialisation\<close>

text \<open>A value reaches the phi through its inputs.\<close>

inductive grounded :: "nodes \<Rightarrow> nat \<Rightarrow> bool" for h where
  input: "Some q \<in> set (mn_operands (h p)) \<Longrightarrow> \<not> isPhi h q \<Longrightarrow> grounded h p"
| phi: "Some q \<in> set (mn_operands (h p)) \<Longrightarrow> isPhi h q \<Longrightarrow> grounded h q \<Longrightarrow> grounded h p"

definition ta_initial :: "mir_graph \<Rightarrow> type_analyzer" where
  "ta_initial g = \<lparr>ta_nodes = g_nodes g, ta_tried = (\<lambda>_. False), ta_worklist = []\<rparr>"

lemma specializePhis_spec:
  assumes g: "phi_graph (set (postorder_phis g)) (g_nodes g)" and dist: "distinct (postorder_phis g)"
    and fl: "\<forall>p \<in> set (postorder_phis g). \<not> hasFlag (g_nodes g) InWorklist p"
    and gr: "\<forall>p \<in> set (postorder_phis g). grounded (g_nodes g) p"
  obtains s where "specializePhis g (ta_initial g) = Some s" "ta_frame (set (postorder_phis g)) (g_nodes g) (ta_nodes s)"
    "ta_worklist s = []" "\<forall>p \<in> set (postorder_phis g). ta_tried s p \<and> \<not> hasFlag (ta_nodes s) InWorklist p"
    "\<forall>p \<in> set (postorder_phis g). ta_type s p \<noteq> MIRType_None"
    "\<forall>p \<in> set (postorder_phis g). \<forall>q. Some q \<in> set (mn_operands (g_nodes g p)) \<longrightarrow>
       feeds (ta_type s q) (ta_type s p) \<and> ta_type s q \<noteq> MIRType_None"
proof -
  let ?P = "set (postorder_phis g)" and ?h = "g_nodes g"
  have "ta_inv ?P ?h {} (ta_initial g)"
    using fl by (auto simp: ta_inv_def ta_initial_def ta_frame_def ta_stable_def)
  then obtain s1 where s1: "mfold specializePhi (postorder_phis g) (ta_initial g) = Some s1" "ta_inv ?P ?h {} s1"
    "\<forall>n. ta_tried s1 n \<longleftrightarrow> n \<in> ?P"
    using specialize_all[OF g _ _ dist, of "ta_initial g"] by (auto simp: ta_initial_def)
  obtain s where s: "specializePhis_drain s1 = Some s" "ta_inv ?P ?h {} s" "ta_worklist s = []" "ta_tried s = ta_tried s1"
    using drain_ok[OF g s1(2)] by blast
  have fr: "ta_frame ?P ?h (ta_nodes s)" using s(2) by (simp add: ta_inv_def)
  have edge: "feeds (ta_type s q) (ta_type s p)" if "p \<in> ?P" "Some q \<in> set (mn_operands (?h p))" for p q
  proof -
    have "isPhi ?h q \<longrightarrow> q \<in> ?P" using phi_graphD(6)[OF g that] by blast
    then show ?thesis using s(2-4) s1(3) that unfolding ta_inv_def ta_stable_def by auto
  qed
  have ty: "\<not> isPhi ?h q \<Longrightarrow> ta_type s q = mn_type (?h q)" for q
    using ta_frame_fields(5)[OF fr, of q] phi_graphD(2)[OF g, of q] unfolding ta_type_def by blast
  have some: "ta_type s p \<noteq> MIRType_None" if "grounded ?h p" "p \<in> ?P" for p
    using that
  proof (induction rule: grounded.induct)
    case (input q p)
    then show ?case using edge[of p q] feeds_None phi_graphD(7)[OF g, of p q] ty[of q] by metis
  next
    case (phi q p)
    then show ?case using edge[of p q] feeds_None phi_graphD(6)[OF g, of p q] by metis
  qed
  have "ta_type s q \<noteq> MIRType_None" if "p \<in> ?P" "Some q \<in> set (mn_operands (?h p))" for p q
    using phi_graphD(6,7)[OF g that] ty[of q] some[of q] gr by (cases "isPhi ?h q") auto
  note neq = this
  have run: "specializePhis g (ta_initial g) = Some s" using s1(1) s(1) by (simp add: specializePhis_def)
  have flags: "\<forall>p \<in> ?P. ta_tried s p \<and> \<not> hasFlag (ta_nodes s) InWorklist p"
    using s(2-4) s1(3) unfolding ta_inv_def by simp
  have "ta_type s p \<noteq> MIRType_None" if "p \<in> ?P" for p using some[OF _ that] gr that by blast
  note nn = this
  show thesis
  proof (rule that[OF run fr s(3) flags])
    show "\<forall>p \<in> ?P. ta_type s p \<noteq> MIRType_None" using nn by blast
    show "\<forall>p \<in> ?P. \<forall>q. Some q \<in> set (mn_operands (?h p)) \<longrightarrow> feeds (ta_type s q) (ta_type s p) \<and> ta_type s q \<noteq> MIRType_None"
      using edge neq by blast
  qed
qed

end
