(* ===== verification/Phi_Conversions.thy ===== *)
theory Phi_Conversions
  imports Phi_Types
begin

text \<open>
  The conversion of the inputs of phis (\<open>TypeAnalyzer::adjustPhiInputs\<close> and \<open>replaceRedundantPhi\<close> of
  \<open>ion/IonAnalysis.cpp\<close>): a phi of type undefined or null is replaced by the constant, and the inputs of
  a phi of type double or value are converted or boxed at the end of their block.

  A step is described by an edit: the operands of some nodes change, every other node keeps operands
  of the same types, and the use chains stay consistent. The theory \<open>Type_Policies\<close> shows the same of the
  type policies of instructions.
\<close>

subsection \<open>The code\<close>

definition new_node :: "mnode \<Rightarrow> mir_graph \<Rightarrow> nat \<times> mir_graph" where
  "new_node m g = (g_nextNode g, g\<lparr>g_nextNode := g_nextNode g + 1, g_nodes := (g_nodes g)(g_nextNode g := m)\<rparr>)"

text \<open>The constructor of \<open>MUnaryInstruction\<close> initialises operand 0.\<close>

definition MUnary_New :: "Opcode \<Rightarrow> MIRType \<Rightarrow> nat \<Rightarrow> mir_graph \<Rightarrow> nat \<times> mir_graph" where
  "MUnary_New op t q g =
     (let (x, g) = new_node ((blank_node op 1)\<lparr>mn_type := t, mn_flags := push_bit (flag_bit Movable) 1\<rparr>) g
      in (x, updNodes (initOperand x 0 q) g))"

definition MToDouble_New :: "nat \<Rightarrow> mir_graph \<Rightarrow> nat \<times> mir_graph" where
  "MToDouble_New = MUnary_New Op_ToDouble MIRType_Double"

definition MBox_New :: "nat \<Rightarrow> mir_graph \<Rightarrow> (nat \<times> mir_graph) option" where
  "MBox_New q g = do {
     js_assert (mn_type (g_nodes g q) \<noteq> MIRType_Value);
     Some (MUnary_New Op_Box MIRType_Value q g) }"

text \<open>The value of a constant is no part of the node store; its type is what the pass looks at.\<close>

definition MConstant_New :: "MIRType \<Rightarrow> mir_graph \<Rightarrow> nat \<times> mir_graph" where
  "MConstant_New t g =
     new_node ((blank_node Op_Constant 0)\<lparr>mn_type := t, mn_flags := push_bit (flag_bit Movable) 1\<rparr>) g"

text \<open>\<open>in->block()->insertBefore(in->block()->lastIns(), x)\<close>\<close>

definition insertAtEndOf :: "nat \<Rightarrow> nat \<Rightarrow> mir_graph \<Rightarrow> mir_graph option" where
  "insertAtEndOf q x g = do {
     b \<leftarrow> mn_block (g_nodes g q);
     l \<leftarrow> bl_lastIns (g_blocks g b);
     Some (insertBefore b l x g) }"

definition toDoubleInput :: "nat \<Rightarrow> nat \<Rightarrow> mir_graph \<Rightarrow> mir_graph option" where
  "toDoubleInput phi i g = do {
     q \<leftarrow> getOperand (g_nodes g) phi i;
     if mn_type (g_nodes g q) = MIRType_Int32
     then do {
       let (x, g) = MToDouble_New q g;
       g \<leftarrow> insertAtEndOf q x g;
       liftNodes (replaceOperand phi i (Some x)) g }
     else do {
       js_assert (mn_type (g_nodes g q) = MIRType_Double);
       Some g } }"

definition boxInput :: "nat \<Rightarrow> nat \<Rightarrow> mir_graph \<Rightarrow> mir_graph option" where
  "boxInput phi i g = do {
     q \<leftarrow> getOperand (g_nodes g) phi i;
     if mn_type (g_nodes g q) = MIRType_Value then Some g
     else if mn_op (g_nodes g q) = Op_Unbox
     then do {
       r \<leftarrow> getOperand (g_nodes g) q 0;
       liftNodes (replaceOperand phi i (Some r)) g }
     else do {
       (x, g) \<leftarrow> MBox_New q g;
       g \<leftarrow> insertAtEndOf q x g;
       liftNodes (replaceOperand phi i (Some x)) g } }"

definition adjustPhiInputs :: "nat \<Rightarrow> mir_graph \<Rightarrow> mir_graph option" where
  "adjustPhiInputs phi g =
     (if mn_type (g_nodes g phi) = MIRType_Double
      then mfold (toDoubleInput phi) [0..<numOperands (g_nodes g) phi] g
      else if mn_type (g_nodes g phi) \<noteq> MIRType_Value then Some g
      else mfold (boxInput phi) [0..<numOperands (g_nodes g) phi] g)"

definition replaceRedundantPhi :: "nat \<Rightarrow> mir_graph \<Rightarrow> mir_graph option" where
  "replaceRedundantPhi phi g = do {
     b \<leftarrow> mn_block (g_nodes g phi);
     let t = (if mn_type (g_nodes g phi) = MIRType_Undefined then MIRType_Undefined else MIRType_Null);
     let (c, g) = MConstant_New t g;
     js_assert (bl_instructions (g_blocks g b) \<noteq> []);
     let g = insertBefore b (hd (bl_instructions (g_blocks g b))) c g;
     liftNodes (replaceAllUsesWith phi c) g }"

definition convertPhi :: "nat \<Rightarrow> nat \<Rightarrow> mir_graph \<Rightarrow> mir_graph option" where
  "convertPhi b phi g =
     (if mn_type (g_nodes g phi) \<in> {MIRType_Undefined, MIRType_Null}
      then do {
        g \<leftarrow> replaceRedundantPhi phi g;
        discardPhi b phi g }
      else adjustPhiInputs phi g)"

subsection \<open>The store\<close>

text \<open>A node of a block that has its control instruction.\<close>

definition placed :: "mir_graph \<Rightarrow> nat \<Rightarrow> bool" where
  "placed g q \<longleftrightarrow> q < g_nextNode g \<and> (\<exists>b l. mn_block (g_nodes g q) = Some b \<and> bl_lastIns (g_blocks g b) = Some l)"

text \<open>What the constructor of \<open>MUnbox\<close> asserts: a value goes in, something else comes out.\<close>

definition unbox_ok :: "mir_graph \<Rightarrow> bool" where
  "unbox_ok g \<longleftrightarrow> (\<forall>n < g_nextNode g. mn_op (g_nodes g n) = Op_Unbox \<longrightarrow> mn_type (g_nodes g n) \<noteq> MIRType_Value \<and>
     (\<exists>r. getOperand (g_nodes g) n 0 = Some r \<and> placed g r \<and> mn_type (g_nodes g r) = MIRType_Value))"

text \<open>Instruction lists have no duplicates and only nodes that exist.\<close>

definition lists_ok :: "mir_graph \<Rightarrow> bool" where
  "lists_ok g \<longleftrightarrow> (\<forall>c. distinct (bl_instructions (g_blocks g c)) \<and> (\<forall>n \<in> set (bl_instructions (g_blocks g c)). n < g_nextNode g))"

definition store_ok :: "(nat \<times> nat) set \<Rightarrow> mir_graph \<Rightarrow> bool" where
  "store_ok L g \<longleftrightarrow> use_inv L (g_nodes g) \<and> links_in_range L (g_nodes g) \<and> (\<forall>(n, i)\<in>L. n < g_nextNode g) \<and>
     (\<forall>d \<ge> g_nextNode g. mn_uses (g_nodes g d) = []) \<and> unbox_ok g \<and> lists_ok g"

lemma no_usesI: "use_inv L h \<Longrightarrow> (\<And>n i. (n, i) \<in> L \<Longrightarrow> getOperand h n i \<noteq> Some d) \<Longrightarrow> mn_uses (h d) = []"
  using use_inv_mem[of L h _ _ d] by (metis list.set_intros(1) neq_Nil_conv surj_pair)

lemma store_okD:
  assumes "store_ok L g"
  shows "use_inv L (g_nodes g)" "links_in_range L (g_nodes g)" "(n, i) \<in> L \<Longrightarrow> n < g_nextNode g"
    "d \<ge> g_nextNode g \<Longrightarrow> mn_uses (g_nodes g d) = []" "(n, i) \<in> L \<Longrightarrow> getOperand (g_nodes g) n i = Some d \<Longrightarrow> d < g_nextNode g"
    "unbox_ok g" "lists_ok g"
proof -
  show "use_inv L (g_nodes g)" "links_in_range L (g_nodes g)" "(n, i) \<in> L \<Longrightarrow> n < g_nextNode g"
    "d \<ge> g_nextNode g \<Longrightarrow> mn_uses (g_nodes g d) = []" "unbox_ok g" "lists_ok g" using assms unfolding store_ok_def by blast+
  show "d < g_nextNode g" if "(n, i) \<in> L" "getOperand (g_nodes g) n i = Some d"
  proof (rule ccontr)
    assume "\<not> d < g_nextNode g"
    then have "mn_uses (g_nodes g d) = []" "use_inv L (g_nodes g)" using assms unfolding store_ok_def by simp_all
    then show False using use_inv_mem[of L "g_nodes g" n i d] that by simp
  qed
qed

lemma placed_less: "placed g q \<Longrightarrow> q < g_nextNode g"
  by (simp add: placed_def)

text \<open>What every step keeps of the nodes that were there before and of the blocks.\<close>

definition conv_frame :: "mir_graph \<Rightarrow> mir_graph \<Rightarrow> bool" where
  "conv_frame g g' \<longleftrightarrow> g_nextNode g \<le> g_nextNode g' \<and>
     (\<forall>n < g_nextNode g. mn_type (g_nodes g' n) = mn_type (g_nodes g n) \<and> mn_op (g_nodes g' n) = mn_op (g_nodes g n) \<and>
        mn_block (g_nodes g' n) = mn_block (g_nodes g n) \<and> numOperands (g_nodes g' ) n = numOperands (g_nodes g) n) \<and>
     (\<forall>b. bl_lastIns (g_blocks g' b) = bl_lastIns (g_blocks g b) \<and>
        set (bl_instructions (g_blocks g b)) \<subseteq> set (bl_instructions (g_blocks g' b))) \<and> g_blockList g' = g_blockList g"

lemma conv_frame_refl: "conv_frame g g"
  by (simp add: conv_frame_def)

lemma conv_frame_trans: "conv_frame g g1 \<Longrightarrow> conv_frame g1 g2 \<Longrightarrow> conv_frame g g2"
  unfolding conv_frame_def by (auto dest: subsetD) (meson subsetD)

lemma conv_frameD:
  assumes "conv_frame g g'"
  shows "n < g_nextNode g \<Longrightarrow> mn_type (g_nodes g' n) = mn_type (g_nodes g n)"
    "n < g_nextNode g \<Longrightarrow> mn_op (g_nodes g' n) = mn_op (g_nodes g n)"
    "n < g_nextNode g \<Longrightarrow> mn_block (g_nodes g' n) = mn_block (g_nodes g n)"
    "n < g_nextNode g \<Longrightarrow> numOperands (g_nodes g') n = numOperands (g_nodes g) n"
    "bl_lastIns (g_blocks g' b) = bl_lastIns (g_blocks g b)" "g_nextNode g \<le> g_nextNode g'" "g_blockList g' = g_blockList g"
    "bl_instructions (g_blocks g b) \<noteq> [] \<Longrightarrow> bl_instructions (g_blocks g' b) \<noteq> []"
    "set (bl_instructions (g_blocks g b)) \<subseteq> set (bl_instructions (g_blocks g' b))"
proof -
  show *: "set (bl_instructions (g_blocks g b)) \<subseteq> set (bl_instructions (g_blocks g' b))"
    using assms unfolding conv_frame_def by blast
  then show "bl_instructions (g_blocks g b) \<noteq> [] \<Longrightarrow> bl_instructions (g_blocks g' b) \<noteq> []" by auto
qed (use assms in \<open>unfold conv_frame_def, blast+\<close>)

lemma placed_frame: "conv_frame g g' \<Longrightarrow> placed g q \<Longrightarrow> placed g' q"
  unfolding placed_def conv_frame_def by fastforce

lemma same_nodes_type: "same_nodes h h' \<Longrightarrow> mn_type (h' n) = mn_type (h n)"
  unfolding same_nodes_def by (metis mnode.select_convs(7) mnode.surjective mnode.update_convs(4,5))

lemma conv_frame_nodes:
  assumes "same_nodes (g_nodes g) h" "\<And>n. numOperands h n = numOperands (g_nodes g) n"
  shows "conv_frame g (g\<lparr>g_nodes := h\<rparr>)"
  using same_nodes_fields[OF assms(1)] same_nodes_type[OF assms(1)] assms(2) by (simp add: conv_frame_def)

text \<open>Unboxing stays well formed if its operand stays or gets a substitute of its type.\<close>

lemma unbox_ok_frame:
  assumes u: "unbox_ok g" and fr: "conv_frame g g'"
    and old: "\<And>n r. n < g_nextNode g \<Longrightarrow> mn_op (g_nodes g n) = Op_Unbox \<Longrightarrow> getOperand (g_nodes g) n 0 = Some r \<Longrightarrow>
      mn_type (g_nodes g r) = MIRType_Value \<Longrightarrow> getOperand (g_nodes g') n 0 = Some r"
    and new: "\<And>n. g_nextNode g \<le> n \<Longrightarrow> n < g_nextNode g' \<Longrightarrow> mn_op (g_nodes g' n) = Op_Unbox \<Longrightarrow> mn_type (g_nodes g' n) \<noteq> MIRType_Value \<and>
     (\<exists>r. getOperand (g_nodes g') n 0 = Some r \<and> placed g' r \<and> mn_type (g_nodes g' r) = MIRType_Value)"
  shows "unbox_ok g'"
  unfolding unbox_ok_def
proof (intro allI impI)
  fix n assume n: "n < g_nextNode g'" "mn_op (g_nodes g' n) = Op_Unbox"
  show "mn_type (g_nodes g' n) \<noteq> MIRType_Value \<and>
     (\<exists>r. getOperand (g_nodes g') n 0 = Some r \<and> placed g' r \<and> mn_type (g_nodes g' r) = MIRType_Value)"
  proof (cases "n < g_nextNode g")
    case True
    have op: "mn_op (g_nodes g n) = Op_Unbox" using n(2) conv_frameD(2)[OF fr True] by simp
    then obtain r where r: "mn_type (g_nodes g n) \<noteq> MIRType_Value" "getOperand (g_nodes g) n 0 = Some r" "placed g r"
      "mn_type (g_nodes g r) = MIRType_Value" using u True unfolding unbox_ok_def by blast
    then show ?thesis
      using old[OF True op r(2,4)] placed_frame[OF fr r(3)] conv_frameD(1)[OF fr True] conv_frameD(1)[OF fr placed_less[OF r(3)]]
      by auto
  next
    case False
    then show ?thesis using new[of n] n by simp
  qed
qed

text \<open>
  Every step of the pass, of phis and of instructions, is an edit of the operands of some nodes \<open>X\<close>.
  Any other node keeps its operands, but that a phi of type undefined or null becomes a constant.
\<close>

definition same_target :: "mir_graph \<Rightarrow> mir_graph \<Rightarrow> nat \<Rightarrow> nat \<Rightarrow> bool" where
  "same_target g g' n i \<longleftrightarrow> (\<forall>q < g_nextNode g. getOperand (g_nodes g) n i = Some q \<longrightarrow>
     (\<exists>x < g_nextNode g'. getOperand (g_nodes g') n i = Some x \<and> (x = q \<or> placed g' x) \<and>
        mn_type (g_nodes g' x) = mn_type (g_nodes g q)))"

lemma same_target_same:
  "conv_frame g g' \<Longrightarrow> getOperand (g_nodes g') n i = getOperand (g_nodes g) n i \<Longrightarrow> same_target g g' n i"
  unfolding same_target_def using conv_frameD(1,6) by (metis order_less_le_trans)

definition edit :: "(nat \<times> nat) set \<Rightarrow> mir_graph \<Rightarrow> nat set \<Rightarrow> (nat \<times> nat) set \<Rightarrow> mir_graph \<Rightarrow> bool" where
  "edit L g X L' g' \<longleftrightarrow> store_ok L' g' \<and> conv_frame g g' \<and> (\<forall>n i. (n, i) \<in> L \<longrightarrow> n \<notin> X \<longrightarrow> (n, i) \<in> L') \<and>
     (\<forall>n < g_nextNode g. n \<notin> X \<longrightarrow> (\<forall>i. same_target g g' n i))"

lemma edit_refl: "store_ok L g \<Longrightarrow> edit L g X L g"
  by (simp add: edit_def conv_frame_refl same_target_same)

lemma editD:
  assumes "edit L g X L' g'"
  shows "store_ok L' g'" "conv_frame g g'" "(n, i) \<in> L \<Longrightarrow> n \<notin> X \<Longrightarrow> (n, i) \<in> L'"
    "n < g_nextNode g \<Longrightarrow> n \<notin> X \<Longrightarrow> same_target g g' n i"
  using assms unfolding edit_def by blast+

lemma edit_mono: "edit L g X L' g' \<Longrightarrow> X \<subseteq> Y \<Longrightarrow> edit L g Y L' g'"
  unfolding edit_def by blast

text \<open>The operands of a node, each related by \<open>R\<close> to the type of the node.\<close>

definition ops_ok :: "(nat \<times> nat) set \<Rightarrow> mir_graph \<Rightarrow> (nat \<Rightarrow> MIRType \<Rightarrow> MIRType \<Rightarrow> bool) \<Rightarrow> nat \<Rightarrow> bool" where
  "ops_ok L g R n \<longleftrightarrow> n < g_nextNode g \<and> (\<forall>i < numOperands (g_nodes g) n. (n, i) \<in> L \<and>
     (\<exists>q. getOperand (g_nodes g) n i = Some q \<and> placed g q \<and> R i (mn_type (g_nodes g n)) (mn_type (g_nodes g q))))"

lemma ops_okD:
  assumes "ops_ok L g R n"
  shows "n < g_nextNode g" "i < numOperands (g_nodes g) n \<Longrightarrow> (n, i) \<in> L"
    "i < numOperands (g_nodes g) n \<Longrightarrow> \<exists>q. getOperand (g_nodes g) n i = Some q \<and> placed g q \<and>
       R i (mn_type (g_nodes g n)) (mn_type (g_nodes g q))"
  using assms unfolding ops_ok_def by blast+

lemma ops_ok_mono: "ops_ok L g R n \<Longrightarrow> (\<And>i u v. R i u v \<Longrightarrow> S i u v) \<Longrightarrow> ops_ok L g S n"
  unfolding ops_ok_def by blast

lemma ops_ok_edit:
  assumes e: "edit L g X L' g'" and o: "ops_ok L g R n" and n: "n \<notin> X"
  shows "ops_ok L' g' R n"
proof -
  note d = ops_okD[OF o] and ed = editD[OF e]
  have "\<exists>q. getOperand (g_nodes g') n i = Some q \<and> placed g' q \<and> R i (mn_type (g_nodes g' n)) (mn_type (g_nodes g' q))"
    if i: "i < numOperands (g_nodes g) n" for i
  proof -
    obtain q where q: "getOperand (g_nodes g) n i = Some q" "placed g q" "R i (mn_type (g_nodes g n)) (mn_type (g_nodes g q))"
      using d(3)[OF i] by blast
    note ty = conv_frameD(1)[OF ed(2) d(1)] conv_frameD(1)[OF ed(2) placed_less[OF q(2)]]
    obtain x where x: "getOperand (g_nodes g') n i = Some x" "x = q \<or> placed g' x" "mn_type (g_nodes g' x) = mn_type (g_nodes g q)"
      using ed(4)[OF d(1) n, of i] placed_less[OF q(2)] q(1) unfolding same_target_def by blast
    then show ?thesis using q ty placed_frame[OF ed(2) q(2)] by auto
  qed
  then show ?thesis using d(1,2) ed(3)[OF _ n] conv_frameD(4,6)[OF ed(2)] d(1) unfolding ops_ok_def
    by (metis order_less_le_trans)
qed

lemma edit_trans:
  assumes a: "edit L g X L1 g1" and b: "edit L1 g1 X L2 g2"
  shows "edit L g X L2 g2"
proof -
  note da = editD[OF a] and db = editD[OF b]
  note fr = conv_frame_trans[OF da(2) db(2)]
  have "same_target g g2 n i" if n: "n < g_nextNode g" "n \<notin> X" for n i
    unfolding same_target_def
  proof (intro allI impI)
    fix q assume q: "q < g_nextNode g" "getOperand (g_nodes g) n i = Some q"
    have n1: "n < g_nextNode g1" using n(1) conv_frameD(6)[OF da(2)] by simp
    obtain x where x: "x < g_nextNode g1" "getOperand (g_nodes g1) n i = Some x" "x = q \<or> placed g1 x"
      "mn_type (g_nodes g1 x) = mn_type (g_nodes g q)" using da(4)[OF n, of i] q unfolding same_target_def by blast
    obtain y where y: "y < g_nextNode g2" "getOperand (g_nodes g2) n i = Some y" "y = x \<or> placed g2 y"
      "mn_type (g_nodes g2 y) = mn_type (g_nodes g1 x)" using db(4)[OF n1 n(2), of i] x unfolding same_target_def by blast
    then show "\<exists>x < g_nextNode g2. getOperand (g_nodes g2) n i = Some x \<and> (x = q \<or> placed g2 x) \<and>
        mn_type (g_nodes g2 x) = mn_type (g_nodes g q)"
      using x(3,4) placed_frame[OF db(2)] by (intro exI[of _ y]) auto
  qed
  then show ?thesis using da(3) db(1,3) fr unfolding edit_def by blast
qed


subsection \<open>New instructions and relinked operands\<close>

lemma insertBefore_nodes:
  "g_nodes (insertBefore b at x g) = (g_nodes g)(x := (g_nodes g x)\<lparr>mn_block := Some b, mn_id := g_idGen g + 2\<rparr>)"
  by (simp add: insertBefore_def allocDefinitionId_def setNodeBlock_def updNodes_def updBlock_def Let_def)

lemma insertBefore_graph [simp]:
  "g_nextNode (insertBefore b at x g) = g_nextNode g" "g_blockList (insertBefore b at x g) = g_blockList g"
  "bl_lastIns (g_blocks (insertBefore b at x g) c) = bl_lastIns (g_blocks g c)"
  "bl_phis (g_blocks (insertBefore b at x g) c) = bl_phis (g_blocks g c)"
  "bl_instructions (g_blocks (insertBefore b at x g) c) =
     (if c = b then insert_before at x (bl_instructions (g_blocks g c)) else bl_instructions (g_blocks g c))"
  by (auto simp: insertBefore_def allocDefinitionId_def setNodeBlock_def updNodes_def updBlock_def Let_def)

lemma insertBefore_reads [simp]:
  "mn_type (g_nodes (insertBefore b at x g) n) = mn_type (g_nodes g n)"
  "mn_op (g_nodes (insertBefore b at x g) n) = mn_op (g_nodes g n)"
  "mn_uses (g_nodes (insertBefore b at x g) n) = mn_uses (g_nodes g n)"
  "numOperands (g_nodes (insertBefore b at x g)) n = numOperands (g_nodes g) n"
  "getOperand (g_nodes (insertBefore b at x g)) n i = getOperand (g_nodes g) n i"
  "mn_block (g_nodes (insertBefore b at x g) n) = (if n = x then Some b else mn_block (g_nodes g n))"
  by (simp_all add: insertBefore_nodes getOperand_def numOperands_def)

lemma insert_before_set [simp]: "set (insert_before at x xs) = insert x (set xs)"
  unfolding insert_before_def
  by (metis (no_types, lifting) Un_insert_right list.simps(15) set_append takeWhile_dropWhile_id)

lemma insert_before_distinct: "distinct xs \<Longrightarrow> x \<notin> set xs \<Longrightarrow> distinct (insert_before at x xs)"
proof -
  assume a: "distinct xs" "x \<notin> set xs"
  define ys zs where "ys = takeWhile (\<lambda>y. y \<noteq> at) xs" and "zs = dropWhile (\<lambda>y. y \<noteq> at) xs"
  have xs: "insert_before at x xs = ys @ x # zs" "xs = ys @ zs" by (simp_all add: insert_before_def ys_def zs_def)
  show ?thesis unfolding xs(1) using a unfolding xs(2) by auto
qed

lemma store_ok_insertBefore:
  assumes "store_ok L g" "bl_lastIns (g_blocks g b) = Some l" "x < g_nextNode g" "\<And>c. x \<notin> set (bl_instructions (g_blocks g c))"
  shows "store_ok L (insertBefore b at x g)"
proof -
  have "placed (insertBefore b at x g) r" if "placed g r" for r using that assms(2) by (auto simp: placed_def)
  then have "unbox_ok (insertBefore b at x g)"
    using store_okD(6)[OF assms(1)] unfolding unbox_ok_def insertBefore_reads insertBefore_graph by blast
  moreover have "lists_ok (insertBefore b at x g)"
    using store_okD(7)[OF assms(1)] assms(3,4) by (auto simp: lists_ok_def insert_before_distinct)
  ultimately show ?thesis using assms(1) by (simp add: store_ok_def use_inv_def links_in_range_def)
qed

lemma MUnary_New_spec:
  assumes s: "store_ok L g" and q: "placed g q"
    and unb: "op = Op_Unbox \<Longrightarrow> mn_type (g_nodes g q) = MIRType_Value \<and> t \<noteq> MIRType_Value"
  obtains g1 where "MUnary_New op t q g = (g_nextNode g, g1)" "store_ok (insert (g_nextNode g, 0) L) g1" "conv_frame g g1"
    "g_nextNode g1 = Suc (g_nextNode g)" "g_blocks g1 = g_blocks g"
    "mn_type (g_nodes g1 (g_nextNode g)) = t" "mn_op (g_nodes g1 (g_nextNode g)) = op"
    "\<And>n i. n < g_nextNode g \<Longrightarrow> getOperand (g_nodes g1) n i = getOperand (g_nodes g) n i"
proof -
  let ?x = "g_nextNode g"
  define m where "m = (blank_node op 1)\<lparr>mn_type := t, mn_flags := push_bit (flag_bit Movable) 1\<rparr>"
  have m: "mn_uses m = []" "length (mn_operands m) = 1" "mn_type m = t" "mn_op m = op" by (simp_all add: m_def blank_node_def)
  define h where "h = (g_nodes g)(?x := m)"
  have new: "\<forall>(n, i) \<in> L. n \<noteq> ?x" using store_okD(3)[OF s] by fastforce
  have inv: "use_inv L h" "links_in_range L h"
    unfolding h_def using use_inv_new_node[OF store_okD(1,2)[OF s] new store_okD(4)[OF s] m(1)] by simp_all
  have nx: "0 < numOperands h ?x" by (simp add: h_def numOperands_def m(2))
  have inv2: "use_inv (insert (?x, 0) L) (initOperand ?x 0 q h)"
    by (rule use_inv_initOperand[OF inv(1)]) (use new nx in auto)
  define g1 where "g1 = g\<lparr>g_nextNode := Suc ?x, g_nodes := initOperand ?x 0 q h\<rparr>"
  have num: "numOperands (initOperand ?x 0 q h) n = numOperands h n" for n by (simp add: initOperand_def)
  have run: "MUnary_New op t q g = (?x, g1)"
    by (simp add: MUnary_New_def new_node_def updNodes_def g1_def h_def m_def)
  have fr: "conv_frame g g1"
    by (auto simp: conv_frame_def g1_def num) (auto simp: h_def initOperand_def addUse_def setOperand_def numOperands_def)
  have ty: "mn_type (g_nodes g1 ?x) = t" "mn_op (g_nodes g1 ?x) = op"
    by (simp_all add: g1_def h_def initOperand_def addUse_def setOperand_def m)
  have opd: "getOperand (g_nodes g1) n i = getOperand (g_nodes g) n i" if "n < ?x" for n i
    using that by (simp add: g1_def initOperand_def getOperand_setOperand) (simp add: getOperand_def numOperands_def h_def)
  have opx: "getOperand (g_nodes g1) ?x 0 = Some q" using nx by (simp add: g1_def initOperand_def getOperand_setOperand)
  have q1: "placed g1 q" "mn_type (g_nodes g1 q) = mn_type (g_nodes g q)"
    using placed_frame[OF fr q] conv_frameD(1)[OF fr placed_less[OF q]] by simp_all
  have "unbox_ok g1"
    by (rule unbox_ok_frame[OF store_okD(6)[OF s] fr])
      (use opd opx q1 ty unb in \<open>auto simp: g1_def less_Suc_eq\<close>)
  moreover have "lists_ok g1" using store_okD(7)[OF s] by (auto simp: lists_ok_def g1_def less_Suc_eq)
  ultimately have "store_ok (insert (?x, 0) L) g1"
    using inv(2) inv2 nx num store_okD(3)[OF s] store_okD(4)[OF s] placed_less[OF q] m(1)
    by (auto simp: store_ok_def g1_def links_in_range_def less_Suc_eq initOperand_def uses_addUse)
      (simp add: setOperand_def h_def)
  then show thesis using that[of g1] run fr ty opd by (simp add: g1_def)
qed

text \<open>Creating an instruction and placing it in block \<open>b\<close>.\<close>

lemma place_unary:
  assumes s: "store_ok L g" and q: "placed g q" and l: "bl_lastIns (g_blocks g b) = Some l"
    and unb: "op = Op_Unbox \<Longrightarrow> mn_type (g_nodes g q) = MIRType_Value \<and> t \<noteq> MIRType_Value"
  obtains g1 g2 where "MUnary_New op t q g = (g_nextNode g, g1)" "g2 = insertBefore b at (g_nextNode g) g1"
    "edit L g {} (insert (g_nextNode g, 0) L) g2" "g_nextNode g2 = Suc (g_nextNode g)" "placed g2 (g_nextNode g)"
    "mn_type (g_nodes g2 (g_nextNode g)) = t" "mn_op (g_nodes g2 (g_nextNode g)) = op"
    "\<forall>n i. n < g_nextNode g \<longrightarrow> getOperand (g_nodes g2) n i = getOperand (g_nodes g) n i"
    "\<forall>c. bl_phis (g_blocks g2 c) = bl_phis (g_blocks g c) \<and> bl_instructions (g_blocks g2 c) =
       (if c = b then insert_before at (g_nextNode g) (bl_instructions (g_blocks g c)) else bl_instructions (g_blocks g c))"
proof -
  let ?x = "g_nextNode g"
  obtain g1 where g1: "MUnary_New op t q g = (?x, g1)" "store_ok (insert (?x, 0) L) g1" "conv_frame g g1"
    "g_nextNode g1 = Suc ?x" "g_blocks g1 = g_blocks g" "mn_type (g_nodes g1 ?x) = t" "mn_op (g_nodes g1 ?x) = op"
    "\<And>n i. n < ?x \<Longrightarrow> getOperand (g_nodes g1) n i = getOperand (g_nodes g) n i"
    using MUnary_New_spec[OF s q unb] by blast
  define g2 where "g2 = insertBefore b at ?x g1"
  have fr: "conv_frame g g2" using g1(3,4) unfolding conv_frame_def by (auto simp: g2_def g1(5))
  have "?x \<notin> set (bl_instructions (g_blocks g1 c))" for c using store_okD(7)[OF s] by (auto simp: lists_ok_def g1(5))
  then have s2: "store_ok (insert (?x, 0) L) g2" unfolding g2_def by (intro store_ok_insertBefore[OF g1(2)]) (simp_all add: g1(4,5) l)
  have op: "\<forall>n i. n < ?x \<longrightarrow> getOperand (g_nodes g2) n i = getOperand (g_nodes g) n i" using g1(8) by (simp add: g2_def)
  have "edit L g {} (insert (?x, 0) L) g2" unfolding edit_def using s2 fr op same_target_same[OF fr] by blast
  moreover have "placed g2 ?x" using l by (simp add: placed_def g2_def g1(4,5))
  ultimately show thesis using that[of g1 g2] g1 op by (simp add: g2_def)
qed

text \<open>Relinking one operand of a node that is no unbox instruction.\<close>

lemma store_ok_nodes:
  assumes s: "store_ok L g" and inv: "use_inv L' h" "L' \<subseteq> L" and sn: "same_nodes (g_nodes g) h"
    and num: "\<And>n. numOperands h n = numOperands (g_nodes g) n"
    and op: "\<And>n i d. (n, i) \<in> L' \<Longrightarrow> getOperand h n i = Some d \<Longrightarrow> d < g_nextNode g"
    and unb: "\<And>n r. mn_op (g_nodes g n) = Op_Unbox \<Longrightarrow> getOperand (g_nodes g) n 0 = Some r \<Longrightarrow>
      mn_type (g_nodes g r) = MIRType_Value \<Longrightarrow> getOperand h n 0 = Some r"
  shows "store_ok L' (g\<lparr>g_nodes := h\<rparr>)"
proof -
  have "mn_uses (h d) = []" if "d \<ge> g_nextNode g" for d
    using no_usesI[OF inv(1)] op that leD by blast
  moreover have "links_in_range L' h" using store_okD(2)[OF s] inv(2) num by (auto simp: links_in_range_def)
  moreover have "unbox_ok (g\<lparr>g_nodes := h\<rparr>)"
    by (rule unbox_ok_frame[OF store_okD(6)[OF s] conv_frame_nodes[OF sn num]]) (use unb in auto)
  moreover have "lists_ok (g\<lparr>g_nodes := h\<rparr>)" using store_okD(7)[OF s] by (simp add: lists_ok_def)
  ultimately show ?thesis using inv store_okD(3)[OF s] by (auto simp: store_ok_def)
qed

lemma relink_input:
  assumes s: "store_ok L g" and l: "(p, i) \<in> L" "getOperand (g_nodes g) p i = Some d" and e: "e < g_nextNode g"
    and u: "mn_op (g_nodes g p) \<noteq> Op_Unbox"
  obtains h where "liftNodes (replaceOperand p i (Some e)) g = Some (g\<lparr>g_nodes := h\<rparr>)"
    "edit L g {p} L (g\<lparr>g_nodes := h\<rparr>)" "same_nodes (g_nodes g) h"
    "\<forall>m j. getOperand h m j = (if m = p \<and> j = i then Some e else getOperand (g_nodes g) m j)"
proof -
  obtain h where h: "replaceOperand p i (Some e) (g_nodes g) = Some h" "use_inv L h"
    "\<And>m j. getOperand h m j = (if m = p \<and> j = i then Some e else getOperand (g_nodes g) m j)"
    using replaceOperand_spec[OF store_okD(1)[OF s] l] by blast
  note sn = same_nodes_replaceOperand[OF h(1)]
  have num: "numOperands h n = numOperands (g_nodes g) n" for n by (rule numOperands_replaceOperand[OF h(1)])
  have "store_ok L (g\<lparr>g_nodes := h\<rparr>)"
  proof (rule store_ok_nodes[OF s h(2) subset_refl sn num])
    show "(n, j) \<in> L \<Longrightarrow> getOperand h n j = Some x \<Longrightarrow> x < g_nextNode g" for n j x
      using h(3)[of n j] store_okD(5)[OF s, of n j] e by (auto split: if_splits)
    show "mn_op (g_nodes g n) = Op_Unbox \<Longrightarrow> getOperand (g_nodes g) n 0 = Some r \<Longrightarrow> getOperand h n 0 = Some r" for n r
      using h(3)[of n 0] u by auto
  qed
  moreover note fr = conv_frame_nodes[OF sn num]
  moreover have "same_target g (g\<lparr>g_nodes := h\<rparr>) n j" if "n \<notin> {p}" for n j
    using same_target_same[OF fr] h(3) that by auto
  ultimately have "edit L g {p} L (g\<lparr>g_nodes := h\<rparr>)" by (auto simp: edit_def)
  moreover have "liftNodes (replaceOperand p i (Some e)) g = Some (g\<lparr>g_nodes := h\<rparr>)" using h(1) by (simp add: liftNodes_def)
  ultimately show thesis using that sn h(3) by blast
qed


subsection \<open>One operand\<close>

text \<open>
  Only boxes, conversions to double and constants are put into a block other than \<open>B\<close>.
\<close>

definition grow :: "nat option \<Rightarrow> mir_graph \<Rightarrow> mir_graph \<Rightarrow> bool" where
  "grow B g g' \<longleftrightarrow> (\<forall>c. Some c \<noteq> B \<longrightarrow> (\<forall>n \<in> set (bl_instructions (g_blocks g' c)). n \<in> set (bl_instructions (g_blocks g c)) \<or>
     g_nextNode g \<le> n \<and> n < g_nextNode g' \<and> mn_op (g_nodes g' n) \<in> {Op_Box, Op_ToDouble, Op_Constant}))"

lemma grow_refl: "grow B g g"
  by (simp add: grow_def)

lemma grow_trans:
  assumes a: "grow B g g1" "conv_frame g g1" and b: "grow B g1 g2" "conv_frame g1 g2"
  shows "grow B g g2"
  unfolding grow_def
proof (intro allI impI ballI)
  fix c n assume n: "Some c \<noteq> B" "n \<in> set (bl_instructions (g_blocks g2 c))"
  then consider "n \<in> set (bl_instructions (g_blocks g1 c))"
    | "g_nextNode g1 \<le> n" "n < g_nextNode g2" "mn_op (g_nodes g2 n) \<in> {Op_Box, Op_ToDouble, Op_Constant}"
    using b(1) unfolding grow_def by blast
  then show "n \<in> set (bl_instructions (g_blocks g c)) \<or>
     g_nextNode g \<le> n \<and> n < g_nextNode g2 \<and> mn_op (g_nodes g2 n) \<in> {Op_Box, Op_ToDouble, Op_Constant}"
  proof cases
    case 1
    then have "n \<in> set (bl_instructions (g_blocks g c)) \<or>
      g_nextNode g \<le> n \<and> n < g_nextNode g1 \<and> mn_op (g_nodes g1 n) \<in> {Op_Box, Op_ToDouble, Op_Constant}"
      using a(1) n(1) unfolding grow_def by blast
    then show ?thesis using conv_frameD(2,6)[OF b(2)] by auto
  next
    case 2
    then show ?thesis using conv_frameD(6)[OF a(2)] by auto
  qed
qed

definition same_phis :: "mir_graph \<Rightarrow> mir_graph \<Rightarrow> bool" where
  "same_phis g g' \<longleftrightarrow> (\<forall>c. bl_phis (g_blocks g' c) = bl_phis (g_blocks g c))"

text \<open>Operand \<open>i\<close> of \<open>p\<close> is edited and has a type in \<open>P\<close> afterwards.\<close>

definition operand_edit ::
  "nat option \<Rightarrow> (nat \<times> nat) set \<Rightarrow> mir_graph \<Rightarrow> nat \<Rightarrow> nat \<Rightarrow> (MIRType \<Rightarrow> bool) \<Rightarrow> (nat \<times> nat) set \<Rightarrow> mir_graph \<Rightarrow> bool" where
  "operand_edit B L g p i P L' g' \<longleftrightarrow> edit L g {p} L' g' \<and> grow B g g' \<and> same_phis g g' \<and> L \<subseteq> L' \<and>
     (\<forall>j. j \<noteq> i \<longrightarrow> getOperand (g_nodes g') p j = getOperand (g_nodes g) p j) \<and>
     (\<exists>x. getOperand (g_nodes g') p i = Some x \<and> placed g' x \<and> P (mn_type (g_nodes g' x)))"

lemma operand_edit_same:
  assumes "store_ok L g" "getOperand (g_nodes g) p i = Some q" "placed g q" "P (mn_type (g_nodes g q))"
  shows "operand_edit B L g p i P L g"
  using assms edit_refl grow_refl by (auto simp: operand_edit_def same_phis_def)

lemma operand_edit_mono: "operand_edit B L g p i P L' g' \<Longrightarrow> (\<And>v. P v \<Longrightarrow> Q v) \<Longrightarrow> operand_edit B L g p i Q L' g'"
  unfolding operand_edit_def by blast

lemma relink_edit:
  assumes s: "store_ok L g" and l: "(p, i) \<in> L" "getOperand (g_nodes g) p i = Some d" and e: "placed g e"
    and u: "mn_op (g_nodes g p) \<noteq> Op_Unbox" and P: "P (mn_type (g_nodes g e))"
  shows "\<exists>g'. liftNodes (replaceOperand p i (Some e)) g = Some g' \<and> operand_edit B L g p i P L g'"
proof -
  obtain h where h: "liftNodes (replaceOperand p i (Some e)) g = Some (g\<lparr>g_nodes := h\<rparr>)"
    "edit L g {p} L (g\<lparr>g_nodes := h\<rparr>)" "same_nodes (g_nodes g) h"
    "\<forall>m j. getOperand h m j = (if m = p \<and> j = i then Some e else getOperand (g_nodes g) m j)"
    using relink_input[OF s l placed_less[OF e] u] by blast
  have "placed (g\<lparr>g_nodes := h\<rparr>) e" "mn_type (h e) = mn_type (g_nodes g e)"
    using placed_frame[OF editD(2)[OF h(2)] e] same_nodes_type[OF h(3)] by simp_all
  then have "operand_edit B L g p i P L (g\<lparr>g_nodes := h\<rparr>)"
    using h(2,4) P by (auto simp: operand_edit_def grow_def same_phis_def)
  then show ?thesis using h(1) by blast
qed

text \<open>A placed node as the new operand: first the node is made, then the operand is relinked.\<close>

lemma place_then:
  assumes e: "edit L g {} L1 g1" "L \<subseteq> L1" "grow B g g1" "same_phis g g1"
    and op: "\<forall>j. getOperand (g_nodes g1) p j = getOperand (g_nodes g) p j"
    and o: "operand_edit B L1 g1 p i P L2 g2"
  shows "operand_edit B L g p i P L2 g2"
proof -
  have "edit L g {p} L1 g1" "edit L1 g1 {p} L2 g2" using edit_mono[OF e(1)] o by (simp_all add: operand_edit_def)
  then have "edit L g {p} L2 g2" by (rule edit_trans)
  moreover have "grow B g g2" using grow_trans[OF e(3) editD(2)[OF e(1)]] o editD(2) unfolding operand_edit_def by blast
  ultimately show ?thesis using e(2,4) op o by (simp add: operand_edit_def same_phis_def) blast
qed

lemma place_unary_at:
  assumes s: "store_ok L g" and q: "placed g q" and l: "bl_lastIns (g_blocks g b) = Some l"
    and unb: "op = Op_Unbox \<Longrightarrow> mn_type (g_nodes g q) = MIRType_Value \<and> t \<noteq> MIRType_Value"
    and B: "op \<in> {Op_Box, Op_ToDouble} \<or> B = Some b"
  obtains g1 g2 where "MUnary_New op t q g = (g_nextNode g, g1)" "g2 = insertBefore b at (g_nextNode g) g1"
    "edit L g {} (insert (g_nextNode g, 0) L) g2" "grow B g g2" "same_phis g g2" "placed g2 (g_nextNode g)"
    "mn_type (g_nodes g2 (g_nextNode g)) = t" "conv_frame g g1" "g_blocks g1 = g_blocks g"
    "\<forall>n i. n < g_nextNode g \<longrightarrow> getOperand (g_nodes g2) n i = getOperand (g_nodes g) n i"
proof -
  let ?x = "g_nextNode g"
  obtain g1 g2 where g: "MUnary_New op t q g = (?x, g1)" "g2 = insertBefore b at ?x g1"
    "edit L g {} (insert (?x, 0) L) g2" "g_nextNode g2 = Suc ?x" "placed g2 ?x"
    "mn_type (g_nodes g2 ?x) = t" "mn_op (g_nodes g2 ?x) = op"
    "\<forall>n i. n < g_nextNode g \<longrightarrow> getOperand (g_nodes g2) n i = getOperand (g_nodes g) n i"
    "\<forall>c. bl_phis (g_blocks g2 c) = bl_phis (g_blocks g c) \<and> bl_instructions (g_blocks g2 c) =
       (if c = b then insert_before at ?x (bl_instructions (g_blocks g c)) else bl_instructions (g_blocks g c))"
    using place_unary[OF s q l unb] by blast
  obtain g1' where g1: "MUnary_New op t q g = (?x, g1')" "conv_frame g g1'" "g_blocks g1' = g_blocks g"
    using MUnary_New_spec[OF s q unb] by blast
  have "grow B g g2" using B g(4,7,9) by (auto simp: grow_def)
  moreover have "same_phis g g2" using g(9) by (simp add: same_phis_def)
  ultimately show thesis using that[OF g(1-3) _ _ g(5,6) _ _ g(8)] g1 g(1) by simp
qed

lemma insertAtEndOf_some:
  assumes "placed g q" "conv_frame g g1" "g_blocks g1 = g_blocks g"
  obtains b l where "insertAtEndOf q x g1 = Some (insertBefore b l x g1)" "bl_lastIns (g_blocks g b) = Some l"
proof -
  obtain b l where bl: "mn_block (g_nodes g q) = Some b" "bl_lastIns (g_blocks g b) = Some l" using assms(1) by (auto simp: placed_def)
  then have "mn_block (g_nodes g1 q) = Some b" using conv_frameD(3)[OF assms(2)] placed_less[OF assms(1)] by simp
  then show thesis using that bl(2) assms(3) by (simp add: insertAtEndOf_def)
qed


text \<open>The conversion of an input of a phi.\<close>

lemma convert_input:
  assumes s: "store_ok L g" and l: "(p, i) \<in> L" "getOperand (g_nodes g) p i = Some q" and pl: "placed g q"
    and op: "op \<in> {Op_Box, Op_ToDouble}" "mn_op (g_nodes g p) \<noteq> Op_Unbox" and P: "P t"
  shows "\<exists>x g1 g2 g3 L3. MUnary_New op t q g = (x, g1) \<and> insertAtEndOf q x g1 = Some g2 \<and>
    liftNodes (replaceOperand p i (Some x)) g2 = Some g3 \<and> operand_edit None L g p i P L3 g3"
proof -
  let ?x = "g_nextNode g"
  have p: "p < ?x" using store_okD(3)[OF s l(1)] .
  have nu: "op \<noteq> Op_Unbox" using op(1) by auto
  obtain g0 where g0: "MUnary_New op t q g = (?x, g0)" "conv_frame g g0" "g_blocks g0 = g_blocks g"
    using MUnary_New_spec[OF s pl, of op t] nu by metis
  obtain b at where b: "insertAtEndOf q ?x g0 = Some (insertBefore b at ?x g0)" "bl_lastIns (g_blocks g b) = Some at"
    using insertAtEndOf_some[OF pl g0(2,3)] by metis
  obtain g1 g2 where g: "MUnary_New op t q g = (?x, g1)" "g2 = insertBefore b at ?x g1"
    "edit L g {} (insert (?x, 0) L) g2" "grow None g g2" "same_phis g g2" "placed g2 ?x" "mn_type (g_nodes g2 ?x) = t"
    "conv_frame g g1" "g_blocks g1 = g_blocks g" "\<forall>n i. n < ?x \<longrightarrow> getOperand (g_nodes g2) n i = getOperand (g_nodes g) n i"
    using place_unary_at[OF s pl b(2), of op t None at] op(1) nu by metis
  have g01: "g1 = g0" using g0(1) g(1) by simp
  note ed = editD[OF g(3)]
  have "(p, i) \<in> insert (?x, 0) L" "getOperand (g_nodes g2) p i = Some q" "mn_op (g_nodes g2 p) \<noteq> Op_Unbox"
    using l g(10) p op(2) conv_frameD(2)[OF ed(2) p] by auto
  then obtain g3 where g3: "liftNodes (replaceOperand p i (Some ?x)) g2 = Some g3"
    "operand_edit None (insert (?x, 0) L) g2 p i P (insert (?x, 0) L) g3"
    using relink_edit[OF ed(1) _ _ g(6), of p i q P None] g(7) P by auto
  have "operand_edit None L g p i P (insert (?x, 0) L) g3"
    by (rule place_then[OF g(3) _ g(4,5) _ g3(2)]) (use g(10) p in auto)
  then show ?thesis using g(1,2) b(1) g3(1) g01 by blast
qed

text \<open>What a phi wants of an input: \<open>T\<close> says that the input is adjusted.\<close>

definition phi_rel :: "(nat \<Rightarrow> bool) \<Rightarrow> nat \<Rightarrow> MIRType \<Rightarrow> MIRType \<Rightarrow> bool" where
  "phi_rel T i u v \<longleftrightarrow> v \<noteq> MIRType_None \<and> feeds v u \<and> (T i \<longrightarrow> v = u)"

definition phi_ok :: "(nat \<times> nat) set \<Rightarrow> mir_graph \<Rightarrow> (nat \<Rightarrow> bool) \<Rightarrow> nat \<Rightarrow> bool" where
  "phi_ok L g T p \<longleftrightarrow> isPhi (g_nodes g) p \<and> ops_ok L g (phi_rel T) p"

lemma isPhi_not_unbox: "isPhi h p \<Longrightarrow> mn_op (h p) \<noteq> Op_Unbox"
  by (simp add: isPhi_def)

lemma toDoubleInput_ok:
  assumes s: "store_ok L g" and l: "(p, i) \<in> L" "getOperand (g_nodes g) p i = Some q" "placed g q"
    and p: "mn_op (g_nodes g p) \<noteq> Op_Unbox" "feeds (mn_type (g_nodes g q)) MIRType_Double" "mn_type (g_nodes g q) \<noteq> MIRType_None"
  shows "\<exists>g' L'. toDoubleInput p i g = Some g' \<and> operand_edit None L g p i (\<lambda>v. v = MIRType_Double) L' g'"
proof (cases "mn_type (g_nodes g q) = MIRType_Int32")
  case True
  have c: "Op_ToDouble \<in> {Op_Box, Op_ToDouble}" by simp
  obtain x g1 g2 g3 L3 where "MUnary_New Op_ToDouble MIRType_Double q g = (x, g1)" "insertAtEndOf q x g1 = Some g2"
    "liftNodes (replaceOperand p i (Some x)) g2 = Some g3" "operand_edit None L g p i (\<lambda>v. v = MIRType_Double) L3 g3"
    using convert_input[OF s l c p(1), where P = "\<lambda>v. v = MIRType_Double" and t = MIRType_Double, OF refl]
    by (elim exE conjE)
  then show ?thesis using True l(2) by (simp add: toDoubleInput_def MToDouble_New_def) blast
next
  case False
  then have ty: "mn_type (g_nodes g q) = MIRType_Double" using p by (auto simp: feeds_def)
  then have "operand_edit None L g p i (\<lambda>v. v = MIRType_Double) L g" by (intro operand_edit_same[OF s l(2,3)])
  then show ?thesis using ty l(2) by (auto simp: toDoubleInput_def)
qed

lemma unbox_input:
  assumes "store_ok L g" "placed g q" "mn_op (g_nodes g q) = Op_Unbox"
  obtains r where "getOperand (g_nodes g) q 0 = Some r" "placed g r" "mn_type (g_nodes g r) = MIRType_Value"
  using store_okD(6)[OF assms(1)] assms(2,3) unfolding unbox_ok_def by (meson placed_less)

lemma boxInput_ok:
  assumes s: "store_ok L g" and l: "(p, i) \<in> L" "getOperand (g_nodes g) p i = Some q" "placed g q"
    and p: "mn_op (g_nodes g p) \<noteq> Op_Unbox"
  shows "\<exists>g' L'. boxInput p i g = Some g' \<and> operand_edit None L g p i (\<lambda>v. v = MIRType_Value) L' g'"
proof -
  consider "mn_type (g_nodes g q) = MIRType_Value"
    | "mn_type (g_nodes g q) \<noteq> MIRType_Value" "mn_op (g_nodes g q) = Op_Unbox"
    | "mn_type (g_nodes g q) \<noteq> MIRType_Value" "mn_op (g_nodes g q) \<noteq> Op_Unbox" by blast
  then show ?thesis
  proof cases
    case 1
    then have "operand_edit None L g p i (\<lambda>v. v = MIRType_Value) L g" by (intro operand_edit_same[OF s l(2,3)])
    then show ?thesis using 1 l(2) by (auto simp: boxInput_def)
  next
    case 2
    obtain r where r: "getOperand (g_nodes g) q 0 = Some r" "placed g r" "mn_type (g_nodes g r) = MIRType_Value"
      using unbox_input[OF s l(3) 2(2)] .
    then obtain g' where "liftNodes (replaceOperand p i (Some r)) g = Some g'" "operand_edit None L g p i (\<lambda>v. v = MIRType_Value) L g'"
      using relink_edit[OF s l(1,2) r(2) p, where P = "\<lambda>v. v = MIRType_Value" and B = None, OF r(3)] by blast
    then show ?thesis using 2 r(1) l(2) by (auto simp: boxInput_def)
  next
    case 3
    have c: "Op_Box \<in> {Op_Box, Op_ToDouble}" by simp
    obtain x g1 g2 g3 L3 where "MUnary_New Op_Box MIRType_Value q g = (x, g1)" "insertAtEndOf q x g1 = Some g2"
      "liftNodes (replaceOperand p i (Some x)) g2 = Some g3" "operand_edit None L g p i (\<lambda>v. v = MIRType_Value) L3 g3"
      using convert_input[OF s l c p, where P = "\<lambda>v. v = MIRType_Value" and t = MIRType_Value, OF refl]
      by (elim exE conjE)
    then show ?thesis using 3 l(2) by (simp add: boxInput_def MBox_New_def) blast
  qed
qed

subsection \<open>All operands of one node\<close>

text \<open>\<open>f i\<close> turns operand \<open>i\<close> of \<open>p\<close>, of a type in \<open>R i\<close>, into one of a type in \<open>S i\<close>.\<close>

definition adjusts ::
  "nat option \<Rightarrow> nat \<Rightarrow> MIRType \<Rightarrow> (nat \<Rightarrow> MIRType \<Rightarrow> MIRType \<Rightarrow> bool) \<Rightarrow> (nat \<Rightarrow> MIRType \<Rightarrow> MIRType \<Rightarrow> bool) \<Rightarrow>
   (nat \<Rightarrow> mir_graph \<Rightarrow> mir_graph option) \<Rightarrow> bool" where
  "adjusts B p t R S f \<longleftrightarrow> (\<forall>L g i q. store_ok L g \<longrightarrow> (p, i) \<in> L \<longrightarrow> getOperand (g_nodes g) p i = Some q \<longrightarrow> placed g q \<longrightarrow>
      mn_op (g_nodes g p) \<noteq> Op_Unbox \<longrightarrow> mn_type (g_nodes g p) = t \<longrightarrow> (\<forall>b. B = Some b \<longrightarrow> mn_block (g_nodes g p) = B \<and> placed g p) \<longrightarrow>
      R i t (mn_type (g_nodes g q)) \<longrightarrow> (\<exists>g' L'. f i g = Some g' \<and> operand_edit B L g p i (S i t) L' g'))"

lemma adjustsD:
  assumes "adjusts B p t R S f" "store_ok L g" "(p, i) \<in> L" "getOperand (g_nodes g) p i = Some q" "placed g q"
    "mn_op (g_nodes g p) \<noteq> Op_Unbox" "mn_type (g_nodes g p) = t" "\<forall>b. B = Some b \<longrightarrow> mn_block (g_nodes g p) = B \<and> placed g p"
    "R i t (mn_type (g_nodes g q))"
  shows "\<exists>g' L'. f i g = Some g' \<and> operand_edit B L g p i (S i t) L' g'"
  using assms(1)[unfolded adjusts_def, THEN spec, THEN spec, THEN spec, THEN spec] assms(2-) by blast

definition node_edit :: "nat option \<Rightarrow> (nat \<times> nat) set \<Rightarrow> mir_graph \<Rightarrow> nat \<Rightarrow> (nat \<times> nat) set \<Rightarrow> mir_graph \<Rightarrow> bool" where
  "node_edit B L g p L' g' \<longleftrightarrow> edit L g {p} L' g' \<and> grow B g g' \<and> same_phis g g'"

lemma node_edit_refl: "store_ok L g \<Longrightarrow> node_edit B L g p L g"
  by (simp add: node_edit_def edit_refl grow_refl same_phis_def)

lemma node_edit_trans: "node_edit B L g p L1 g1 \<Longrightarrow> node_edit B L1 g1 p L2 g2 \<Longrightarrow> node_edit B L g p L2 g2"
  unfolding node_edit_def same_phis_def
  using edit_trans[of L g "{p}" L1 g1 L2 g2] grow_trans[of B g g1 g2] editD(2)[of L g "{p}" L1 g1] editD(2)[of L1 g1 "{p}" L2 g2]
  by simp

lemma operand_node_edit: "operand_edit B L g p i P L' g' \<Longrightarrow> node_edit B L g p L' g'"
  by (simp add: operand_edit_def node_edit_def)

lemma operand_edit_ops:
  assumes o: "ops_ok L g R p" and e: "operand_edit B L g p i (S i (mn_type (g_nodes g p))) L' g'"
  shows "ops_ok L' g' (R(i := S i)) p"
proof -
  note d = ops_okD[OF o] and e' = e[unfolded operand_edit_def]
  have fr: "conv_frame g g'" using e' editD(2) by blast
  note ty = conv_frameD(1)[OF fr d(1)]
  have "\<exists>q. getOperand (g_nodes g') p j = Some q \<and> placed g' q \<and> (R(i := S i)) j (mn_type (g_nodes g' p)) (mn_type (g_nodes g' q))"
    if j: "j < numOperands (g_nodes g) p" for j
  proof (cases "j = i")
    case True
    then show ?thesis using e' ty by auto
  next
    case False
    obtain q where q: "getOperand (g_nodes g) p j = Some q" "placed g q" "R j (mn_type (g_nodes g p)) (mn_type (g_nodes g q))"
      using d(3)[OF j] by blast
    then show ?thesis using False e' ty placed_frame[OF fr q(2)] conv_frameD(1)[OF fr placed_less[OF q(2)]] by auto
  qed
  moreover have "L \<subseteq> L'" using e' by blast
  ultimately show ?thesis using d(1,2) conv_frameD(4,6)[OF fr] unfolding ops_ok_def by (metis order_less_le_trans subsetD)
qed

lemma adjust_loop:
  assumes step: "adjusts B p t R S f"
  shows "store_ok L g \<Longrightarrow> ops_ok L g R' p \<Longrightarrow> mn_op (g_nodes g p) \<noteq> Op_Unbox \<Longrightarrow> mn_type (g_nodes g p) = t \<Longrightarrow>
    (\<forall>b. B = Some b \<longrightarrow> mn_block (g_nodes g p) = B \<and> placed g p) \<Longrightarrow> distinct is \<Longrightarrow>
    \<forall>i \<in> set is. i < numOperands (g_nodes g) p \<and> R' i = R i \<Longrightarrow>
    \<exists>g' L'. mfold f is g = Some g' \<and> node_edit B L g p L' g' \<and> ops_ok L' g' (\<lambda>i. if i \<in> set is then S i else R' i) p"
proof (induction "is" arbitrary: L g R')
  case Nil
  then show ?case using node_edit_refl[OF Nil.prems(1)] by (intro exI[of _ g] exI[of _ L]) simp
next
  case (Cons i "is")
  note d = ops_okD[OF Cons.prems(2)]
  have i: "i < numOperands (g_nodes g) p" "R' i = R i" using Cons.prems(7) by simp_all
  obtain q where q: "getOperand (g_nodes g) p i = Some q" "placed g q" "R i t (mn_type (g_nodes g q))"
    using d(3)[OF i(1)] i(2) Cons.prems(4) by auto
  obtain g1 L1 where g1: "f i g = Some g1" "operand_edit B L g p i (S i t) L1 g1"
    using adjustsD[OF step Cons.prems(1) d(2)[OF i(1)] q(1,2) Cons.prems(3,4,5) q(3)] by blast
  note ne = operand_node_edit[OF g1(2)]
  have fr: "conv_frame g g1" "store_ok L1 g1" using ne editD(1,2) unfolding node_edit_def by blast+
  have ops1: "ops_ok L1 g1 (R'(i := S i)) p" using operand_edit_ops[OF Cons.prems(2)] g1(2) Cons.prems(4) by blast
  have B1: "\<forall>b. B = Some b \<longrightarrow> mn_block (g_nodes g1 p) = B \<and> placed g1 p"
    using Cons.prems(5) conv_frameD(3)[OF fr(1) d(1)] placed_frame[OF fr(1)] by simp
  have rest: "\<forall>j \<in> set is. j < numOperands (g_nodes g1) p \<and> (R'(i := S i)) j = R j"
    using Cons.prems(6,7) conv_frameD(4)[OF fr(1) d(1)] by auto
  obtain g2 L2 where g2: "mfold f is g1 = Some g2" "node_edit B L1 g1 p L2 g2"
    "ops_ok L2 g2 (\<lambda>j. if j \<in> set is then S j else (R'(i := S i)) j) p"
    using Cons.IH[OF fr(2) ops1 _ _ B1 _ rest] Cons.prems(3,4,6) conv_frameD(1,2)[OF fr(1) d(1)] by auto
  moreover have "(\<lambda>j. if j \<in> set is then S j else (R'(i := S i)) j) = (\<lambda>j. if j \<in> set (i # is) then S j else R' j)"
    by (auto simp: fun_eq_iff)
  ultimately show ?case using g1(1) node_edit_trans[OF ne g2(2)] by auto
qed


lemma ops_ok_conv:
  "ops_ok L g R n \<Longrightarrow> (\<And>i v. i < numOperands (g_nodes g) n \<Longrightarrow> R i (mn_type (g_nodes g n)) v \<Longrightarrow> S i (mn_type (g_nodes g n)) v) \<Longrightarrow>
   ops_ok L g S n"
  unfolding ops_ok_def by blast

lemma phi_adjusts:
  "adjusts None p MIRType_Double (phi_rel (\<lambda>_. False)) (\<lambda>i u v. v = MIRType_Double) (toDoubleInput p)"
  "adjusts None p MIRType_Value (phi_rel (\<lambda>_. False)) (\<lambda>i u v. v = MIRType_Value) (boxInput p)"
  using toDoubleInput_ok boxInput_ok by (simp_all add: adjusts_def phi_rel_def)

lemma adjustPhiInputs_ok:
  assumes s: "store_ok L g" and p: "phi_ok L g (\<lambda>_. False) p"
  shows "\<exists>g' L'. adjustPhiInputs p g = Some g' \<and> node_edit None L g p L' g' \<and> phi_ok L' g' (\<lambda>_. True) p"
proof -
  let ?n = "numOperands (g_nodes g) p"
  have o: "ops_ok L g (phi_rel (\<lambda>_. False)) p" and isp: "isPhi (g_nodes g) p" using p by (simp_all add: phi_ok_def)
  note nu = isPhi_not_unbox[OF isp] and pl = ops_okD(1)[OF o]
  have loop: ?thesis
    if t: "mn_type (g_nodes g p) = t" "t \<noteq> MIRType_None" and run: "adjustPhiInputs p g = mfold f [0..<?n] g"
      and step: "adjusts None p t (phi_rel (\<lambda>_. False)) (\<lambda>i u v. v = t) f" for t f
  proof -
    have b: "\<forall>i \<in> set [0..<?n]. i < ?n \<and> phi_rel (\<lambda>_. False) i = phi_rel (\<lambda>_. False) i" by simp
    obtain g' L' where r: "mfold f [0..<?n] g = Some g'" "node_edit None L g p L' g'"
      "ops_ok L' g' (\<lambda>i. if i \<in> set [0..<?n] then (\<lambda>u v. v = t) else phi_rel (\<lambda>_. False) i) p"
      using adjust_loop[OF step s o nu t(1) _ distinct_upt b] by blast
    have fr: "conv_frame g g'" using r(2) editD(2) by (auto simp: node_edit_def)
    note ty = conv_frameD(1,2,4)[OF fr pl]
    have "ops_ok L' g' (phi_rel (\<lambda>_. True)) p"
      by (rule ops_ok_conv[OF r(3)]) (use ty t in \<open>auto simp: phi_rel_def\<close>)
    then have "phi_ok L' g' (\<lambda>_. True) p" using isp ty by (simp add: phi_ok_def isPhi_def)
    then show ?thesis using r run by auto
  qed
  consider "mn_type (g_nodes g p) = MIRType_Double" | "mn_type (g_nodes g p) = MIRType_Value"
    | "mn_type (g_nodes g p) \<noteq> MIRType_Double" "mn_type (g_nodes g p) \<noteq> MIRType_Value" by blast
  then show ?thesis
  proof cases
    case 1
    then show ?thesis using loop[OF 1 _ _ phi_adjusts(1)] by (simp add: adjustPhiInputs_def)
  next
    case 2
    then show ?thesis using loop[OF 2 _ _ phi_adjusts(2)] by (simp add: adjustPhiInputs_def)
  next
    case 3
    have "ops_ok L g (phi_rel (\<lambda>_. True)) p"
      by (rule ops_ok_conv[OF o]) (use 3 in \<open>auto simp: phi_rel_def feeds_def\<close>)
    then show ?thesis using 3 isp node_edit_refl[OF s] by (auto simp: adjustPhiInputs_def phi_ok_def)
  qed
qed

subsection \<open>A phi of type undefined or null\<close>

lemma same_nodes_replaceUses: "replaceUses_loop d e us h = Some h' \<Longrightarrow> same_nodes h h'"
proof (induction us arbitrary: h)
  case (Cons u us)
  have "same_nodes h (addUse e a b (setOperand x y e (removeUse d 0 h)))" for a b x y
    by (rule same_nodes_trans[OF same_nodes_trans[OF same_nodes_ops(3,1)] same_nodes_ops(2)])
  note step = same_nodes_trans[OF this Cons.IH]
  show ?case using Cons.prems by (auto simp: linkUse_def Let_def bind_eq_Some_conv intro: step split: if_splits)
qed (simp add: same_nodes_refl)

lemma numOperands_replaceUses: "replaceUses_loop d e us h = Some h' \<Longrightarrow> numOperands h' n = numOperands h n"
  by (induction us arbitrary: h) (auto simp: linkUse_def Let_def bind_eq_Some_conv split: if_splits)

lemma same_nodes_release: "mfold (\<lambda>i. replaceOperand n i None) is h = Some h' \<Longrightarrow> same_nodes h h'"
  by (induction "is" arbitrary: h)
    (auto simp: same_nodes_refl split: option.splits intro: same_nodes_trans[OF same_nodes_replaceOperand])

lemma numOperands_release: "mfold (\<lambda>i. replaceOperand n i None) is h = Some h' \<Longrightarrow> numOperands h' m = numOperands h m"
  by (induction "is" arbitrary: h) (auto simp: numOperands_replaceOperand split: option.splits)

lemma replaceAllUses_ok:
  assumes s: "store_ok L g" and e: "p \<noteq> e" "placed g e" "mn_type (g_nodes g e) = mn_type (g_nodes g p)"
    and t: "mn_type (g_nodes g p) \<noteq> MIRType_Value"
  obtains h where "liftNodes (replaceAllUsesWith p e) g = Some (g\<lparr>g_nodes := h\<rparr>)" "edit L g {} L (g\<lparr>g_nodes := h\<rparr>)"
    "\<forall>i. getOperand (g_nodes g) p i \<noteq> None \<longrightarrow> getOperand h p i \<noteq> None"
proof -
  obtain h where h: "replaceUses_loop p e (mn_uses (g_nodes g p)) (g_nodes g) = Some h" "use_inv L h"
    "\<And>m j. getOperand h m j = (if (m, j) \<in> set (mn_uses (g_nodes g p)) then Some e else getOperand (g_nodes g) m j)"
    using replaceUses_loop_spec[OF store_okD(1)[OF s] e(1) refl] by blast
  note sn = same_nodes_replaceUses[OF h(1)] and num = numOperands_replaceUses[OF h(1)]
  have op: "getOperand h m j = (if (m, j) \<in> L \<and> getOperand (g_nodes g) m j = Some p then Some e else getOperand (g_nodes g) m j)" for m j
    using h(3) use_inv_mem[OF store_okD(1)[OF s], of m j p] by simp
  note fr = conv_frame_nodes[OF sn num] and ty = same_nodes_type[OF sn]
  have st: "store_ok L (g\<lparr>g_nodes := h\<rparr>)"
  proof (rule store_ok_nodes[OF s h(2) subset_refl sn num])
    show "(n, i) \<in> L \<Longrightarrow> getOperand h n i = Some d \<Longrightarrow> d < g_nextNode g" for n i d
      using op[of n i] store_okD(5)[OF s, of n i] placed_less[OF e(2)] by (auto split: if_splits)
    show "getOperand (g_nodes g) n 0 = Some r \<Longrightarrow> mn_type (g_nodes g r) = MIRType_Value \<Longrightarrow> getOperand h n 0 = Some r" for n r
      using op[of n 0] t by auto
  qed
  have "same_target g (g\<lparr>g_nodes := h\<rparr>) n i" for n i
  proof (cases "(n, i) \<in> L \<and> getOperand (g_nodes g) n i = Some p")
    case True
    then show ?thesis using op[of n i] e(3) ty placed_less[OF e(2)] placed_frame[OF fr e(2)] by (simp add: same_target_def)
  next
    case False
    then show ?thesis using same_target_same[OF fr] op[of n i] by auto
  qed
  then have "edit L g {} L (g\<lparr>g_nodes := h\<rparr>)" using st fr by (simp add: edit_def)
  moreover have "liftNodes (replaceAllUsesWith p e) g = Some (g\<lparr>g_nodes := h\<rparr>)"
    using h(1) by (simp add: liftNodes_def replaceAllUsesWith_def)
  ultimately show thesis using that op by simp
qed

lemma release_ok:
  assumes s: "store_ok L g" and p: "\<forall>i < numOperands (g_nodes g) p. (p, i) \<in> L \<and> getOperand (g_nodes g) p i \<noteq> None"
  obtains h where "liftNodes (releaseOperands p) g = Some (g\<lparr>g_nodes := h\<rparr>)" "edit L g {p} (L - {p} \<times> UNIV) (g\<lparr>g_nodes := h\<rparr>)"
proof -
  let ?is = "[0..<numOperands (g_nodes g) p]"
  have all: "\<forall>i \<in> set ?is. (p, i) \<in> L \<and> (\<exists>d. getOperand (g_nodes g) p i = Some d)" using p by simp
  have dist: "distinct ?is" by simp
  obtain h where h: "mfold (\<lambda>i. replaceOperand p i None) ?is (g_nodes g) = Some h" "use_inv (L - {p} \<times> set ?is) h"
    "\<And>m j. getOperand h m j = getOperand (g_nodes g) m j"
    using releaseOperands_loop[OF store_okD(1)[OF s] all dist] by blast
  note sn = same_nodes_release[OF h(1)] and num = numOperands_release[OF h(1)]
  have "L - {p} \<times> set ?is = L - {p} \<times> UNIV" using store_okD(2)[OF s] by (auto simp: links_in_range_def)
  then have inv: "use_inv (L - {p} \<times> UNIV) h" using h(2) by simp
  have "store_ok (L - {p} \<times> UNIV) (g\<lparr>g_nodes := h\<rparr>)"
    by (rule store_ok_nodes[OF s inv _ sn num]) (use h(3) store_okD(5)[OF s] in auto)
  moreover note fr = conv_frame_nodes[OF sn num]
  ultimately have "edit L g {p} (L - {p} \<times> UNIV) (g\<lparr>g_nodes := h\<rparr>)"
    using same_target_same[OF fr] h(3) by (simp add: edit_def)
  then show thesis using that h(1) by (simp add: liftNodes_def releaseOperands_def)
qed

lemma fold_setSuccessor:
  "g_nodes (fold (setSuccessorWithPhis x k) bs g) = g_nodes g" "g_nextNode (fold (setSuccessorWithPhis x k) bs g) = g_nextNode g"
  "g_blockList (fold (setSuccessorWithPhis x k) bs g) = g_blockList g"
  "bl_phis (g_blocks (fold (setSuccessorWithPhis x k) bs g) c) = bl_phis (g_blocks g c)"
  "bl_lastIns (g_blocks (fold (setSuccessorWithPhis x k) bs g) c) = bl_lastIns (g_blocks g c)"
  "bl_instructions (g_blocks (fold (setSuccessorWithPhis x k) bs g) c) = bl_instructions (g_blocks g c)"
  by (induction bs arbitrary: g) (simp_all add: setSuccessorWithPhis_def, simp_all add: updBlock_def)

text \<open>Edits depend only on these parts of a graph.\<close>

lemma edit_cong:
  assumes "edit L g X L' g1" "g_nodes g2 = g_nodes g1" "g_nextNode g2 = g_nextNode g1" "g_blockList g2 = g_blockList g1"
    "\<And>c. bl_lastIns (g_blocks g2 c) = bl_lastIns (g_blocks g1 c)" "\<And>c. bl_instructions (g_blocks g2 c) = bl_instructions (g_blocks g1 c)"
  shows "edit L g X L' g2"
proof -
  have pl: "placed g2 = placed g1" by (simp add: fun_eq_iff placed_def assms(2-6))
  show ?thesis using assms(1)
    by (simp add: edit_def store_ok_def unbox_ok_def lists_ok_def conv_frame_def same_target_def pl assms(2-6))
qed

lemma discardPhi_ok:
  assumes s: "store_ok L g" and p: "\<forall>i < numOperands (g_nodes g) p. (p, i) \<in> L \<and> getOperand (g_nodes g) p i \<noteq> None"
    and b: "p \<in> set (bl_phis (g_blocks g b))"
  obtains g' where "discardPhi b p g = Some g'" "edit L g {p} (L - {p} \<times> UNIV) g'" "grow None g g'"
    "\<forall>c. bl_phis (g_blocks g' c) = (if c = b then remove1 p (bl_phis (g_blocks g b)) else bl_phis (g_blocks g c))"
proof -
  obtain h where h: "liftNodes (releaseOperands p) g = Some (g\<lparr>g_nodes := h\<rparr>)" "edit L g {p} (L - {p} \<times> UNIV) (g\<lparr>g_nodes := h\<rparr>)"
    using release_ok[OF s p] by blast
  define g1 where "g1 = updBlock b (\<lambda>x. x\<lparr>bl_phis := remove1 p (bl_phis x)\<rparr>) (g\<lparr>g_nodes := h\<rparr>)"
  define g2 where "g2 = (if bl_phis (g_blocks g1 b) = [] then fold (setSuccessorWithPhis None 0) (bl_predecessors (g_blocks g1 b)) g1 else g1)"
  have g1: "g_nodes g1 = h" "g_nextNode g1 = g_nextNode g" "g_blockList g1 = g_blockList g"
    "bl_lastIns (g_blocks g1 c) = bl_lastIns (g_blocks g c)" "bl_instructions (g_blocks g1 c) = bl_instructions (g_blocks g c)"
    "bl_phis (g_blocks g1 c) = (if c = b then remove1 p (bl_phis (g_blocks g b)) else bl_phis (g_blocks g c))" for c
    by (simp_all add: g1_def) (simp add: updBlock_def)
  have g2: "g_nodes g2 = h" "g_nextNode g2 = g_nextNode g" "g_blockList g2 = g_blockList g"
    "bl_lastIns (g_blocks g2 c) = bl_lastIns (g_blocks g c)" "bl_instructions (g_blocks g2 c) = bl_instructions (g_blocks g c)"
    "bl_phis (g_blocks g2 c) = (if c = b then remove1 p (bl_phis (g_blocks g b)) else bl_phis (g_blocks g c))" for c
    by (simp_all add: g2_def fold_setSuccessor g1)
  have "discardPhi b p g = Some g2" using b h(1) by (auto simp: discardPhi_def g2_def g1_def Let_def)
  moreover have "edit L g {p} (L - {p} \<times> UNIV) g2" by (rule edit_cong[OF h(2)]) (simp_all add: g2)
  moreover have "grow None g g2" by (simp add: grow_def g2)
  ultimately show thesis using that g2(6) by blast
qed


lemma place_constant:
  assumes s: "store_ok L g" and l: "bl_lastIns (g_blocks g b) = Some l" and t: "MConstant_New t g = (x, g1)"
    and g2: "g2 = insertBefore b at x g1"
  shows "edit L g {} L g2" "grow None g g2" "same_phis g g2" "placed g2 x" "mn_type (g_nodes g2 x) = t" "x = g_nextNode g"
    "g_blocks g1 = g_blocks g" "\<forall>n i. n < g_nextNode g \<longrightarrow> getOperand (g_nodes g2) n i = getOperand (g_nodes g) n i"
proof -
  define m where "m = (blank_node Op_Constant 0)\<lparr>mn_type := t, mn_flags := push_bit (flag_bit Movable) 1\<rparr>"
  have m: "mn_uses m = []" "mn_type m = t" "mn_op m = Op_Constant" by (simp_all add: m_def blank_node_def)
  have g1: "g1 = g\<lparr>g_nextNode := Suc (g_nextNode g), g_nodes := (g_nodes g)(g_nextNode g := m)\<rparr>" and x: "x = g_nextNode g"
    using t by (auto simp: MConstant_New_def new_node_def m_def)
  have new: "\<forall>(n, i) \<in> L. n \<noteq> g_nextNode g" using store_okD(3)[OF s] by fastforce
  note inv = use_inv_new_node[OF store_okD(1,2)[OF s] new store_okD(4)[OF s order_refl] m(1)]
  have fr1: "conv_frame g g1" by (auto simp: conv_frame_def g1 numOperands_def)
  have op: "getOperand (g_nodes g1) n i = getOperand (g_nodes g) n i" if "n < g_nextNode g" for n i
    using that by (simp add: g1 getOperand_def numOperands_def)
  have "unbox_ok g1"
    by (rule unbox_ok_frame[OF store_okD(6)[OF s] fr1]) (use op m in \<open>auto simp: g1 less_Suc_eq\<close>)
  moreover have "lists_ok g1" using store_okD(7)[OF s] by (auto simp: lists_ok_def g1 less_Suc_eq)
  ultimately have "store_ok L g1"
    using inv store_okD(3)[OF s] store_okD(4)[OF s] m(1) by (auto simp: store_ok_def g1 less_Suc_eq)
  moreover have "x \<notin> set (bl_instructions (g_blocks g1 c))" for c using store_okD(7)[OF s] by (auto simp: lists_ok_def g1 x)
  ultimately have s2: "store_ok L g2" unfolding g2 by (intro store_ok_insertBefore) (simp_all add: g1 l x)
  have fr: "conv_frame g g2" using fr1 unfolding conv_frame_def g2 by (auto simp: x)
  have op2: "\<forall>n i. n < g_nextNode g \<longrightarrow> getOperand (g_nodes g2) n i = getOperand (g_nodes g) n i" using op by (simp add: g2)
  show "edit L g {} L g2" unfolding edit_def using s2 fr op2 same_target_same[OF fr] by blast
  show "grow None g g2" using m by (auto simp: grow_def g2 x) (auto simp: g1)
  show "same_phis g g2" by (simp add: same_phis_def g2) (simp add: g1)
  show "placed g2 x" using l by (simp add: placed_def g2 x) (simp add: g1)
  show "mn_type (g_nodes g2 x) = t" using m by (simp add: g2 x) (simp add: g1)
  show "x = g_nextNode g" "g_blocks g1 = g_blocks g" by (simp_all add: x g1)
  show "\<forall>n i. n < g_nextNode g \<longrightarrow> getOperand (g_nodes g2) n i = getOperand (g_nodes g) n i" by (rule op2)
qed

definition redundant_type :: "mir_graph \<Rightarrow> nat \<Rightarrow> bool" where
  "redundant_type g p \<longleftrightarrow> mn_type (g_nodes g p) \<in> {MIRType_Undefined, MIRType_Null}"

lemma edit_then: "edit L g {} L1 g1 \<Longrightarrow> edit L1 g1 X L2 g2 \<Longrightarrow> edit L g X L2 g2"
  using edit_trans[of L g X L1 g1 L2 g2] edit_mono[of L g "{}" L1 g1 X] by blast

lemma replaceRedundantPhi_ok:
  assumes s: "store_ok L g" and p: "p < g_nextNode g" "mn_block (g_nodes g p) = Some b" "redundant_type g p"
    and b: "bl_lastIns (g_blocks g b) \<noteq> None" "bl_instructions (g_blocks g b) \<noteq> []"
  obtains g' where "replaceRedundantPhi p g = Some g'" "edit L g {} L g'" "grow None g g'" "same_phis g g'"
    "\<forall>i. getOperand (g_nodes g) p i \<noteq> None \<longrightarrow> getOperand (g_nodes g') p i \<noteq> None"
proof -
  define t where "t = (if mn_type (g_nodes g p) = MIRType_Undefined then MIRType_Undefined else MIRType_Null)"
  have tp: "mn_type (g_nodes g p) = t" "t \<noteq> MIRType_Value" using p(3) by (auto simp: t_def redundant_type_def)
  obtain x g1 where new: "MConstant_New t g = (x, g1)" by (cases "MConstant_New t g")
  define g2 where "g2 = insertBefore b (hd (bl_instructions (g_blocks g b))) x g1"
  obtain l where l: "bl_lastIns (g_blocks g b) = Some l" using b(1) by auto
  note c = place_constant[OF s l new g2_def]
  note ed = editD[OF c(1)]
  have px: "p \<noteq> x" using p(1) c(6) by simp
  have ty: "mn_type (g_nodes g2 x) = mn_type (g_nodes g2 p)" "mn_type (g_nodes g2 p) \<noteq> MIRType_Value"
    using c(5) tp conv_frameD(1)[OF ed(2) p(1)] by simp_all
  obtain h where h: "liftNodes (replaceAllUsesWith p x) g2 = Some (g2\<lparr>g_nodes := h\<rparr>)" "edit L g2 {} L (g2\<lparr>g_nodes := h\<rparr>)"
    "\<forall>i. getOperand (g_nodes g2) p i \<noteq> None \<longrightarrow> getOperand h p i \<noteq> None"
    using replaceAllUses_ok[OF ed(1) px c(4) ty] by blast
  have "replaceRedundantPhi p g = Some (g2\<lparr>g_nodes := h\<rparr>)"
    using p(2) new c(7) b(2) h(1) by (simp add: replaceRedundantPhi_def t_def[symmetric] g2_def[symmetric])
  moreover have "grow None g2 (g2\<lparr>g_nodes := h\<rparr>)" "same_phis g2 (g2\<lparr>g_nodes := h\<rparr>)" by (auto simp: grow_def same_phis_def)
  then have "grow None g (g2\<lparr>g_nodes := h\<rparr>)" "same_phis g (g2\<lparr>g_nodes := h\<rparr>)"
    using grow_trans[OF c(2) ed(2) _ editD(2)[OF h(2)]] c(3) by (simp_all add: same_phis_def)
  moreover have "edit L g {} L (g2\<lparr>g_nodes := h\<rparr>)" by (rule edit_then[OF c(1) h(2)])
  ultimately show thesis using that h(3) c(8) p(1) by simp
qed

lemma convertPhi_redundant:
  assumes s: "store_ok L g" and p: "phi_ok L g T p" "mn_block (g_nodes g p) = Some b" "p \<in> set (bl_phis (g_blocks g b))"
    and t: "redundant_type g p" and b: "bl_lastIns (g_blocks g b) \<noteq> None" "bl_instructions (g_blocks g b) \<noteq> []"
  obtains g' where "convertPhi b p g = Some g'" "edit L g {p} (L - {p} \<times> UNIV) g'" "grow None g g'"
    "\<forall>c. bl_phis (g_blocks g' c) = (if c = b then remove1 p (bl_phis (g_blocks g b)) else bl_phis (g_blocks g c))"
proof -
  have o: "ops_ok L g (phi_rel T) p" using p(1) by (simp add: phi_ok_def)
  note d = ops_okD[OF o]
  obtain g1 where g1: "replaceRedundantPhi p g = Some g1" "edit L g {} L g1" "grow None g g1" "same_phis g g1"
    "\<forall>i. getOperand (g_nodes g) p i \<noteq> None \<longrightarrow> getOperand (g_nodes g1) p i \<noteq> None"
    using replaceRedundantPhi_ok[OF s d(1) p(2) t b] by blast
  note ed = editD[OF g1(2)]
  have ops: "\<forall>i < numOperands (g_nodes g1) p. (p, i) \<in> L \<and> getOperand (g_nodes g1) p i \<noteq> None"
    using conv_frameD(4)[OF ed(2) d(1)] d(2,3) g1(5) by fastforce
  have "p \<in> set (bl_phis (g_blocks g1 b))" using p(3) g1(4) by (simp add: same_phis_def)
  then obtain g2 where g2: "discardPhi b p g1 = Some g2" "edit L g1 {p} (L - {p} \<times> UNIV) g2" "grow None g1 g2"
    "\<forall>c. bl_phis (g_blocks g2 c) = (if c = b then remove1 p (bl_phis (g_blocks g1 b)) else bl_phis (g_blocks g1 c))"
    using discardPhi_ok[OF ed(1) ops] by blast
  show thesis
  proof (rule that)
    show "convertPhi b p g = Some g2" using t g1(1) g2(1) by (auto simp: convertPhi_def redundant_type_def)
    show "edit L g {p} (L - {p} \<times> UNIV) g2" by (rule edit_then[OF g1(2) g2(2)])
    show "grow None g g2" by (rule grow_trans[OF g1(3) ed(2) g2(3) editD(2)[OF g2(2)]])
    show "\<forall>c. bl_phis (g_blocks g2 c) = (if c = b then remove1 p (bl_phis (g_blocks g b)) else bl_phis (g_blocks g c))"
      using g2(4) g1(4) by (simp add: same_phis_def)
  qed
qed


subsection \<open>All phis\<close>

text \<open>\<open>P\<close> are the phis of the graph, \<open>D\<close> those that are adjusted.\<close>

definition in_block :: "mir_graph \<Rightarrow> nat \<Rightarrow> nat \<Rightarrow> bool" where
  "in_block g p b \<longleftrightarrow> mn_block (g_nodes g p) = Some b \<and> bl_lastIns (g_blocks g b) \<noteq> None \<and> bl_instructions (g_blocks g b) \<noteq> [] \<and>
     p \<in> set (bl_phis (g_blocks g b)) \<and> distinct (bl_phis (g_blocks g b))"

definition conv_inv :: "(nat \<times> nat) set \<Rightarrow> mir_graph \<Rightarrow> nat set \<Rightarrow> nat set \<Rightarrow> bool" where
  "conv_inv L g P D \<longleftrightarrow> store_ok L g \<and> (\<forall>p \<in> P. phi_ok L g (\<lambda>_. p \<in> D) p \<and> (\<exists>b. in_block g p b))"

lemma conv_invD:
  assumes "conv_inv L g P D"
  shows "store_ok L g" "p \<in> P \<Longrightarrow> phi_ok L g (\<lambda>_. p \<in> D) p"
    "p \<in> P \<Longrightarrow> mn_block (g_nodes g p) = Some b \<Longrightarrow> in_block g p b" "p \<in> P \<Longrightarrow> p < g_nextNode g"
  using assms unfolding conv_inv_def phi_ok_def ops_ok_def in_block_def by fastforce+

lemma conv_inv_step:
  assumes i: "conv_inv L g P D" and fr: "conv_frame g g'" "store_ok L' g'"
    and ph: "\<And>c. bl_phis (g_blocks g' c) = filter (\<lambda>q. q \<notin> R) (bl_phis (g_blocks g c))" "P' \<subseteq> P - R"
    and ok: "\<And>p. p \<in> P' \<Longrightarrow> phi_ok L' g' (\<lambda>_. p \<in> D') p"
  shows "conv_inv L' g' P' D'"
  unfolding conv_inv_def
proof (intro conjI ballI fr(2))
  fix p assume p: "p \<in> P'"
  then show "phi_ok L' g' (\<lambda>_. p \<in> D') p" by (rule ok)
  have "p \<in> P" "p \<notin> R" using p ph(2) by auto
  moreover obtain b where b: "in_block g p b" using i \<open>p \<in> P\<close> unfolding conv_inv_def by blast
  ultimately show "\<exists>b. in_block g' p b"
    using conv_frameD(3,5,8)[OF fr(1)] conv_invD(4)[OF i \<open>p \<in> P\<close>] ph(1)[of b] unfolding in_block_def by (intro exI[of _ b]) simp
qed

lemma phi_ok_edit:
  assumes "edit L g X L' g'" "phi_ok L g T q" "q \<notin> X"
  shows "phi_ok L' g' T q"
  using ops_ok_edit[OF assms(1) _ assms(3)] assms(2) conv_frameD(2)[OF editD(2)[OF assms(1)], of q]
  unfolding phi_ok_def isPhi_def ops_ok_def by metis

text \<open>The phis \<open>ps\<close> of a block have been looked at.\<close>

definition conv_done :: "(nat \<times> nat) set \<Rightarrow> nat list \<Rightarrow> mir_graph \<Rightarrow> nat set \<Rightarrow> nat set \<Rightarrow> (nat \<times> nat) set \<Rightarrow> mir_graph \<Rightarrow> bool" where
  "conv_done L ps g P D L' g' \<longleftrightarrow> edit L g (set ps) L' g' \<and> grow None g g' \<and>
    conv_inv L' g' (P - {q \<in> set ps. redundant_type g q}) (D \<union> set ps) \<and>
    (\<forall>c. bl_phis (g_blocks g' c) = filter (\<lambda>q. \<not> (q \<in> set ps \<and> redundant_type g q)) (bl_phis (g_blocks g c)))"

lemma convertPhi_ok:
  assumes i: "conv_inv L g P D" and p: "p \<in> P" "p \<notin> D" "mn_block (g_nodes g p) = Some b"
    and own: "\<And>c. c \<noteq> b \<Longrightarrow> p \<notin> set (bl_phis (g_blocks g c))"
  shows "\<exists>g' L'. convertPhi b p g = Some g' \<and> conv_done L [p] g P D L' g'"
proof -
  note d = conv_invD[OF i] and ib = conv_invD(3)[OF i p(1,3), unfolded in_block_def]
  show ?thesis
  proof (cases "redundant_type g p")
    case True
    obtain g' where g': "convertPhi b p g = Some g'" "edit L g {p} (L - {p} \<times> UNIV) g'" "grow None g g'"
      "\<forall>c. bl_phis (g_blocks g' c) = (if c = b then remove1 p (bl_phis (g_blocks g b)) else bl_phis (g_blocks g c))"
      using convertPhi_redundant[OF d(1) d(2)[OF p(1)] p(3) _ True] ib by blast
    have bp: "bl_phis (g_blocks g' c) = filter (\<lambda>q. q \<notin> {p}) (bl_phis (g_blocks g c))" for c
    proof (cases "c = b")
      case True
      then show ?thesis using g'(4) ib by (simp add: distinct_remove1_removeAll removeAll_filter_not_eq) (metis)
    next
      case False
      then show ?thesis using g'(4) own[OF False] by (auto intro!: filter_True[symmetric])
    qed
    have "phi_ok (L - {p} \<times> UNIV) g' (\<lambda>_. q \<in> insert p D) q" if "q \<in> P - {p}" for q
      using phi_ok_edit[OF g'(2) d(2)[of q]] that by auto
    then have "conv_inv (L - {p} \<times> UNIV) g' (P - {p}) (insert p D)"
      by (intro conv_inv_step[OF i editD(2,1)[OF g'(2)] bp]) auto
    moreover have e: "{q \<in> set [p]. redundant_type g q} = {p}" "(\<lambda>q. \<not> (q \<in> set [p] \<and> redundant_type g q)) = (\<lambda>q. q \<notin> {p})"
      using True by auto
    ultimately have "conv_done L [p] g P D (L - {p} \<times> UNIV) g'"
      using g'(2,3) bp unfolding conv_done_def e by simp
    then show ?thesis using g'(1) by blast
  next
    case False
    have "phi_ok L g (\<lambda>_. False) p" using d(2)[OF p(1)] p(2) by simp
    then obtain g' L' where g': "adjustPhiInputs p g = Some g'" "node_edit None L g p L' g'" "phi_ok L' g' (\<lambda>_. True) p"
      using adjustPhiInputs_ok[OF d(1)] by blast
    note ne = g'(2)[unfolded node_edit_def]
    have bp: "bl_phis (g_blocks g' c) = filter (\<lambda>q. q \<notin> {}) (bl_phis (g_blocks g c))" for c using ne by (simp add: same_phis_def)
    have ed: "edit L g {p} L' g'" using ne by blast
    have "phi_ok L' g' (\<lambda>_. q \<in> insert p D) q" if "q \<in> P" for q
      using phi_ok_edit[OF ed d(2)[OF that]] g'(3) by (cases "q = p") auto
    then have "conv_inv L' g' P (insert p D)" by (intro conv_inv_step[OF i editD(2,1)[OF ed] bp]) auto
    moreover have e: "P - {q \<in> set [p]. redundant_type g q} = P" "(\<lambda>q. \<not> (q \<in> set [p] \<and> redundant_type g q)) = (\<lambda>q. q \<notin> {})"
      using False by auto
    ultimately have "conv_done L [p] g P D L' g'" using ne bp unfolding conv_done_def e by simp
    moreover have "convertPhi b p g = Some g'" using False g'(1) by (simp add: convertPhi_def redundant_type_def)
    ultimately show ?thesis by blast
  qed
qed

lemma redundant_type_frame: "conv_frame g g' \<Longrightarrow> n < g_nextNode g \<Longrightarrow> redundant_type g' n = redundant_type g n"
  using conv_frameD(1) by (simp add: redundant_type_def)

lemma conv_done_refl: "conv_inv L g P D \<Longrightarrow> conv_done L [] g P D L g"
  using edit_refl[of L g "{}"] by (simp add: conv_done_def conv_inv_def grow_refl)

lemma conv_done_append:
  assumes a: "conv_done L ps g P D L1 g1" and i: "conv_inv L g P D" and ps: "set qs \<subseteq> P"
    and b: "conv_done L1 qs g1 (P - {q \<in> set ps. redundant_type g q}) (D \<union> set ps) L2 g2"
  shows "conv_done L (ps @ qs) g P D L2 g2"
proof -
  have ed: "edit L g (set ps) L1 g1" "edit L1 g1 (set qs) L2 g2" using a b by (simp_all add: conv_done_def)
  note fr = editD(2)[OF ed(1)] editD(2)[OF ed(2)]
  have "edit L g (set (ps @ qs)) L2 g2"
    by (rule edit_trans[OF edit_mono[OF ed(1)] edit_mono[OF ed(2)]]) auto
  moreover have "grow None g g2" using grow_trans[OF _ fr(1) _ fr(2)] a b unfolding conv_done_def by blast
  moreover have red: "redundant_type g1 q = redundant_type g q" if "q \<in> set qs" for q
    using redundant_type_frame[OF fr(1)] conv_invD(4)[OF i] ps that by blast
  moreover have "P - {q \<in> set ps. redundant_type g q} - {q \<in> set qs. redundant_type g1 q} = P - {q \<in> set (ps @ qs). redundant_type g q}"
    using red by auto
  moreover have "bl_phis (g_blocks g2 c) = filter (\<lambda>q. \<not> (q \<in> set (ps @ qs) \<and> redundant_type g q)) (bl_phis (g_blocks g c))" for c
  proof -
    have "bl_phis (g_blocks g2 c) = filter (\<lambda>q. \<not> (q \<in> set qs \<and> redundant_type g1 q))
        (filter (\<lambda>q. \<not> (q \<in> set ps \<and> redundant_type g q)) (bl_phis (g_blocks g c)))"
      using a b by (simp add: conv_done_def)
    also have "\<dots> = filter (\<lambda>q. \<not> (q \<in> set (ps @ qs) \<and> redundant_type g q)) (bl_phis (g_blocks g c))"
      unfolding filter_filter by (rule filter_cong) (use red in auto)
    finally show ?thesis .
  qed
  ultimately show ?thesis using b by (simp add: conv_done_def Un_assoc)
qed

lemma convert_block:
  "conv_inv L g P D \<Longrightarrow> set ps \<subseteq> P - D \<Longrightarrow> distinct ps \<Longrightarrow>
   \<forall>p \<in> set ps. mn_block (g_nodes g p) = Some b \<and> (\<forall>c. c \<noteq> b \<longrightarrow> p \<notin> set (bl_phis (g_blocks g c))) \<Longrightarrow>
   \<exists>g' L'. mfold (convertPhi b) ps g = Some g' \<and> conv_done L ps g P D L' g'"
proof (induction ps arbitrary: L g P D)
  case Nil
  then show ?case using conv_done_refl[OF Nil.prems(1)] by (intro exI[of _ g] exI[of _ L]) simp
next
  case (Cons p ps)
  have p: "p \<in> P" "p \<notin> D" "mn_block (g_nodes g p) = Some b" "\<And>c. c \<noteq> b \<Longrightarrow> p \<notin> set (bl_phis (g_blocks g c))"
    using Cons.prems(2,4) by auto
  obtain g1 L1 where g1: "convertPhi b p g = Some g1" "conv_done L [p] g P D L1 g1"
    using convertPhi_ok[OF Cons.prems(1) p] by blast
  note one = g1(2)[unfolded conv_done_def]
  have fr: "conv_frame g g1" using one editD(2) by blast
  have sub: "set ps \<subseteq> P - {q \<in> set [p]. redundant_type g q} - (D \<union> set [p])" using Cons.prems(2,3) by auto
  have blk: "mn_block (g_nodes g1 q) = Some b \<and> (\<forall>c. c \<noteq> b \<longrightarrow> q \<notin> set (bl_phis (g_blocks g1 c)))" if "q \<in> set ps" for q
    using Cons.prems(2,4) that conv_frameD(3)[OF fr] conv_invD(4)[OF Cons.prems(1), of q] one by auto
  have inv: "conv_inv L1 g1 (P - {q \<in> set [p]. redundant_type g q}) (D \<union> set [p])" using one by blast
  obtain g2 L2 where g2: "mfold (convertPhi b) ps g1 = Some g2"
    "conv_done L1 ps g1 (P - {q \<in> set [p]. redundant_type g q}) (D \<union> set [p]) L2 g2"
    using Cons.IH[OF inv sub] Cons.prems(3) blk by auto
  have "set ps \<subseteq> P" using Cons.prems(2) by auto
  then have "conv_done L ([p] @ ps) g P D L2 g2" using conv_done_append[OF g1(2) Cons.prems(1) _ g2(2)] by blast
  then show ?case using g1(1) g2(1) by auto
qed

text \<open>The loop over the phis of one block.\<close>

definition own_phis :: "mir_graph \<Rightarrow> bool" where
  "own_phis g \<longleftrightarrow> (\<forall>b. \<forall>p \<in> set (bl_phis (g_blocks g b)). mn_block (g_nodes g p) = Some b \<and> p < g_nextNode g)"

lemma own_phis_filter:
  assumes "own_phis g" "conv_frame g g'" "\<forall>c. set (bl_phis (g_blocks g' c)) \<subseteq> set (bl_phis (g_blocks g c))"
  shows "own_phis g'"
  unfolding own_phis_def
proof (intro allI ballI)
  fix b p assume "p \<in> set (bl_phis (g_blocks g' b))"
  then have "p \<in> set (bl_phis (g_blocks g b))" using assms(3) by blast
  then have "mn_block (g_nodes g p) = Some b" "p < g_nextNode g" using assms(1) by (auto simp: own_phis_def)
  then show "mn_block (g_nodes g' p) = Some b \<and> p < g_nextNode g'" using conv_frameD(3,6)[OF assms(2)] by auto
qed

lemma convert_block_phis:
  assumes i: "conv_inv L g P D" and sub: "set (bl_phis (g_blocks g b)) \<subseteq> P - D" and own: "own_phis g"
  shows "\<exists>g' L'. mfold (convertPhi b) (bl_phis (g_blocks g b)) g = Some g' \<and>
    conv_done L (bl_phis (g_blocks g b)) g P D L' g' \<and> own_phis g' \<and> (\<forall>c. c \<noteq> b \<longrightarrow> bl_phis (g_blocks g' c) = bl_phis (g_blocks g c))"
proof -
  let ?ps = "bl_phis (g_blocks g b)"
  have blk: "mn_block (g_nodes g p) = Some b \<and> (\<forall>c. c \<noteq> b \<longrightarrow> p \<notin> set (bl_phis (g_blocks g c)))" if "p \<in> set ?ps" for p
    using own that unfolding own_phis_def by (metis option.inject)
  have dist: "distinct ?ps"
  proof (cases ?ps)
    case (Cons p qs)
    then have "p \<in> P" "mn_block (g_nodes g p) = Some b" using sub blk[of p] by auto
    then show ?thesis using conv_invD(3)[OF i] unfolding in_block_def by blast
  qed simp
  obtain g' L' where g': "mfold (convertPhi b) ?ps g = Some g'" "conv_done L ?ps g P D L' g'"
    using convert_block[OF i sub dist, of b] blk by blast
  note dn = g'(2)[unfolded conv_done_def]
  have "conv_frame g g'" using dn editD(2) by blast
  then have "own_phis g'" by (rule own_phis_filter[OF own]) (use dn in simp)
  moreover have "bl_phis (g_blocks g' c) = bl_phis (g_blocks g c)" if "c \<noteq> b" for c
  proof -
    have "\<forall>q \<in> set (bl_phis (g_blocks g c)). \<not> (q \<in> set ?ps \<and> redundant_type g q)" using blk that by blast
    then show ?thesis using dn by (simp add: filter_id_conv)
  qed
  ultimately show ?thesis using g' by blast
qed


end
