(* ===== verification/Type_Policies.thy ===== *)
theory Type_Policies
  imports Phi_Conversions
begin

text \<open>
  The type policies of instructions (\<open>ion/TypePolicy.cpp\<close>, \<open>ion/TypePolicy.h\<close>): every instruction may have a
  policy that inserts boxes, unboxes and conversions before it until its operands have the types it
  can work on. The policy of an instruction follows from its class (\<open>typePolicy\<close> in \<open>ion/MIR.h\<close>) and from
  attributes that \<open>IonBuilder\<close> set.

  For each policy, \<open>wants\<close> states the types an operand has afterwards, and \<open>takes\<close> the types the
  policy copes with: the rest fails an assertion.
\<close>

subsection \<open>Policies\<close>

text \<open>The templates over an operand number, and the policies built from them.\<close>

datatype static_policy = StringPolicy | IntPolicy nat | DoublePolicy nat | ObjectPolicy nat | BoxPolicy nat

datatype type_policy = BoxInputsPolicy | ArithPolicy MIRType | BinaryStringPolicy | BitwisePolicy MIRType
  | TableSwitchPolicy | ComparePolicy MIRType | TestPolicy | CallPolicy | StaticPolicy static_policy
  | MixPolicy static_policy static_policy | CallSetElementPolicy | StoreTypedArrayPolicy nat | ClampPolicy
  | SimplePolicy bool

text \<open>\<open>TypedArray::TYPE_INT8\<close> and so on.\<close>

abbreviation "TYPE_UINT32 \<equiv> (5::nat)"
abbreviation "TYPE_FLOAT64 \<equiv> (7::nat)"
abbreviation "TYPE_UINT8_CLAMPED \<equiv> (8::nat)"

text \<open>What a policy reads of its instruction: \<open>specialization_\<close>, \<open>specialized_\<close> and \<open>arrayType_\<close>.\<close>

record policy_attrs =
  at_specialization :: MIRType
  at_specialized :: bool
  at_arrayType :: nat

text \<open>
  \<open>typePolicy\<close> of each class. \<open>MFromCharCode\<close> and \<open>MFunctionEnvironment\<close> (\<open>Op_Other 57\<close>) inherit a policy but do
  not override \<open>typePolicy\<close>, so they have none.
\<close>

fun op_policy :: "policy_attrs \<Rightarrow> Opcode \<Rightarrow> type_policy option" where
  "op_policy a Op_TableSwitch = Some TableSwitchPolicy"
| "op_policy a Op_Test = Some TestPolicy"
| "op_policy a Op_Not = Some TestPolicy"
| "op_policy a Op_Return = Some BoxInputsPolicy"
| "op_policy a Op_PassArg = Some BoxInputsPolicy"
| "op_policy a Op_TypeOf = Some BoxInputsPolicy"
| "op_policy a Op_Call = Some CallPolicy"
| "op_policy a Op_Compare = Some (ComparePolicy (at_specialization a))"
| "op_policy a Op_ToDouble = Some (SimplePolicy (at_specialized a))"
| "op_policy a Op_BitNot = Some (BitwisePolicy (at_specialization a))"
| "op_policy a Op_BitAnd = Some (BitwisePolicy (at_specialization a))"
| "op_policy a Op_BitOr = Some (BitwisePolicy (at_specialization a))"
| "op_policy a Op_BitXor = Some (BitwisePolicy (at_specialization a))"
| "op_policy a Op_Lsh = Some (BitwisePolicy (at_specialization a))"
| "op_policy a Op_Rsh = Some (BitwisePolicy (at_specialization a))"
| "op_policy a Op_Ursh = Some (BitwisePolicy (at_specialization a))"
| "op_policy a Op_Abs = Some (ArithPolicy (at_specialization a))"
| "op_policy a Op_Add = Some (ArithPolicy (at_specialization a))"
| "op_policy a Op_Sub = Some (ArithPolicy (at_specialization a))"
| "op_policy a Op_Mul = Some (ArithPolicy (at_specialization a))"
| "op_policy a Op_Div = Some (ArithPolicy (at_specialization a))"
| "op_policy a Op_Mod = Some (ArithPolicy (at_specialization a))"
| "op_policy a Op_CharCodeAt = Some (MixPolicy StringPolicy (IntPolicy 1))"
| "op_policy a Op_LoadElement = Some (StaticPolicy (ObjectPolicy 0))"
| "op_policy a Op_LoadElementHole = Some (StaticPolicy (ObjectPolicy 0))"
| "op_policy a Op_StoreElement = Some (StaticPolicy (ObjectPolicy 0))"
| "op_policy a Op_StoreElementHole = Some (StaticPolicy (ObjectPolicy 0))"
| "op_policy a Op_LoadTypedArrayElementHole = Some (StaticPolicy (ObjectPolicy 0))"
| "op_policy a Op_ClampToUint8 = Some ClampPolicy"
| "op_policy a (Op_Other k) =
     (if k = 13 then Some (MixPolicy (ObjectPolicy 0) (ObjectPolicy 1))
      else if k \<in> {47, 61} then Some (MixPolicy (ObjectPolicy 0) (BoxPolicy 1))
      else if k \<in> {19, 37, 85, 88, 91} then Some BoxInputsPolicy
      else if k = 27 then Some (ArithPolicy (at_specialization a))
      else if k = 33 then Some BinaryStringPolicy
      else if k \<in> {40, 51, 52, 53, 54, 55, 56, 60, 62, 63, 64, 66, 67, 77, 78, 83, 84, 86, 87, 92, 93, 94, 95, 96}
      then Some (StaticPolicy (ObjectPolicy 0))
      else if k = 81 then Some (StoreTypedArrayPolicy (at_arrayType a))
      else if k \<in> {89, 90} then Some CallSetElementPolicy
      else if k = 97 then Some (StaticPolicy StringPolicy)
      else if k \<in> {98, 99} then Some (StaticPolicy (DoublePolicy 0))
      else None)"
| "op_policy a _ = None"

subsection \<open>The code\<close>

text \<open>A new instruction in front of \<open>ins\<close>, and \<open>boxAt\<close>.\<close>

definition insertBeforeIns :: "nat \<Rightarrow> nat \<times> mir_graph \<Rightarrow> (nat \<times> mir_graph) option" where
  "insertBeforeIns ins = (\<lambda>(x, g). do {
     b \<leftarrow> mn_block (g_nodes g ins);
     Some (x, insertBefore b ins x g) })"

definition boxAt :: "nat \<Rightarrow> nat \<Rightarrow> mir_graph \<Rightarrow> (nat \<times> mir_graph) option" where
  "boxAt ins q g =
     (if mn_op (g_nodes g q) = Op_Unbox
      then do { r \<leftarrow> getOperand (g_nodes g) q 0; Some (r, g) }
      else do { xg \<leftarrow> MBox_New q g; insertBeforeIns ins xg })"

text \<open>\<open>replace = M...::New(in)\<close>, \<open>insertBefore(ins, replace)\<close> and \<open>replaceOperand(i, replace)\<close>.\<close>

definition convertOperand :: "Opcode \<Rightarrow> MIRType \<Rightarrow> nat \<Rightarrow> nat \<Rightarrow> nat \<Rightarrow> mir_graph \<Rightarrow> mir_graph option" where
  "convertOperand op t ins i q g = do {
     (x, g) \<leftarrow> insertBeforeIns ins (MUnary_New op t q g);
     liftNodes (replaceOperand ins i (Some x)) g }"

definition unboxOperand :: "MIRType \<Rightarrow> nat \<Rightarrow> nat \<Rightarrow> nat \<Rightarrow> mir_graph \<Rightarrow> mir_graph option" where
  "unboxOperand t ins i q g = do {
     js_assert (mn_type (g_nodes g q) = MIRType_Value);
     convertOperand Op_Unbox t ins i q g }"

definition boxOperand :: "nat \<Rightarrow> nat \<Rightarrow> nat \<Rightarrow> mir_graph \<Rightarrow> mir_graph option" where
  "boxOperand ins i q g = do {
     (x, g) \<leftarrow> boxAt ins q g;
     liftNodes (replaceOperand ins i (Some x)) g }"

text \<open>Boxing an operand first if a conversion of its type is not possible.\<close>

definition boxedIf :: "bool \<Rightarrow> nat \<Rightarrow> nat \<Rightarrow> mir_graph \<Rightarrow> (nat \<times> mir_graph) option" where
  "boxedIf c ins q g = (if c then boxAt ins q g else Some (q, g))"

definition boxInputs_at :: "nat \<Rightarrow> nat \<Rightarrow> mir_graph \<Rightarrow> mir_graph option" where
  "boxInputs_at ins i g = do {
     q \<leftarrow> getOperand (g_nodes g) ins i;
     if mn_type (g_nodes g q) = MIRType_Value then Some g else boxOperand ins i q g }"

definition BoxInputs_adjust :: "nat \<Rightarrow> mir_graph \<Rightarrow> mir_graph option" where
  "BoxInputs_adjust ins g = mfold (boxInputs_at ins) [0..<numOperands (g_nodes g) ins] g"

definition Arith_at :: "MIRType \<Rightarrow> nat \<Rightarrow> nat \<Rightarrow> mir_graph \<Rightarrow> mir_graph option" where
  "Arith_at spec ins i g = do {
     q \<leftarrow> getOperand (g_nodes g) ins i;
     let t = mn_type (g_nodes g q);
     if t = mn_type (g_nodes g ins) then Some g
     else do {
       (q, g) \<leftarrow> boxedIf (t = MIRType_Object \<or> t = MIRType_String \<or> t = MIRType_Undefined \<and> spec = MIRType_Int32) ins q g;
       if mn_type (g_nodes g ins) = MIRType_Double then convertOperand Op_ToDouble MIRType_Double ins i q g
       else convertOperand Op_ToInt32 MIRType_Int32 ins i q g } }"

definition Arith_adjust :: "MIRType \<Rightarrow> nat \<Rightarrow> mir_graph \<Rightarrow> mir_graph option" where
  "Arith_adjust spec ins g =
     (if spec = MIRType_None then BoxInputs_adjust ins g
      else do {
        js_assert (mn_type (g_nodes g ins) = MIRType_Double \<or> mn_type (g_nodes g ins) = MIRType_Int32);
        mfold (Arith_at spec ins) [0..<numOperands (g_nodes g) ins] g })"

definition BinaryString_at :: "nat \<Rightarrow> nat \<Rightarrow> mir_graph \<Rightarrow> mir_graph option" where
  "BinaryString_at ins i g = do {
     q \<leftarrow> getOperand (g_nodes g) ins i;
     let t = mn_type (g_nodes g q);
     if t = MIRType_String then Some g
     else if t = MIRType_Int32 then convertOperand Op_ToString MIRType_String ins i q g
     else do {
       (q, g) \<leftarrow> boxedIf (t \<noteq> MIRType_Value) ins q g;
       unboxOperand MIRType_String ins i q g } }"

definition Compare_at :: "MIRType \<Rightarrow> nat \<Rightarrow> nat \<Rightarrow> mir_graph \<Rightarrow> mir_graph option" where
  "Compare_at spec ins i g = do {
     q \<leftarrow> getOperand (g_nodes g) ins i;
     let t = mn_type (g_nodes g q);
     if t = spec then Some g
     else do {
       (q, g) \<leftarrow> boxedIf (t = MIRType_Object \<or> t = MIRType_String) ins q g;
       if spec = MIRType_Double then convertOperand Op_ToDouble MIRType_Double ins i q g
       else if spec = MIRType_Int32 \<or> spec = MIRType_Boolean then convertOperand Op_ToInt32 MIRType_Int32 ins i q g
       else if spec = MIRType_Object then unboxOperand MIRType_Object ins i q g
       else None } }"

definition Compare_adjust :: "MIRType \<Rightarrow> nat \<Rightarrow> mir_graph \<Rightarrow> mir_graph option" where
  "Compare_adjust spec ins g =
     (if spec = MIRType_None then BoxInputs_adjust ins g
      else if spec = MIRType_Null \<or> spec = MIRType_Undefined then boxInputs_at ins 0 g
      else mfold (Compare_at spec ins) [0..<2] g)"

definition Test_adjust :: "nat \<Rightarrow> mir_graph \<Rightarrow> mir_graph option" where
  "Test_adjust ins g = do {
     q \<leftarrow> getOperand (g_nodes g) ins 0;
     let t = mn_type (g_nodes g q);
     if t \<in> {MIRType_Value, MIRType_Null, MIRType_Undefined, MIRType_Boolean, MIRType_Int32, MIRType_Double, MIRType_Object}
     then Some g
     else if t = MIRType_String then convertOperand (Op_Other 97) MIRType_Int32 ins 0 q g
     else boxOperand ins 0 q g }"

definition Bitwise_at :: "nat \<Rightarrow> nat \<Rightarrow> mir_graph \<Rightarrow> mir_graph option" where
  "Bitwise_at ins i g = do {
     q \<leftarrow> getOperand (g_nodes g) ins i;
     let t = mn_type (g_nodes g q);
     if t = mn_type (g_nodes g ins) then Some g
     else do {
       (q, g) \<leftarrow> boxedIf (t = MIRType_Object \<or> t = MIRType_String) ins q g;
       convertOperand Op_TruncateToInt32 MIRType_Int32 ins i q g } }"

definition Bitwise_adjust :: "MIRType \<Rightarrow> nat \<Rightarrow> mir_graph \<Rightarrow> mir_graph option" where
  "Bitwise_adjust spec ins g =
     (if spec = MIRType_None then BoxInputs_adjust ins g
      else mfold (Bitwise_at ins) [0..<numOperands (g_nodes g) ins] g)"

definition TableSwitch_adjust :: "nat \<Rightarrow> mir_graph \<Rightarrow> mir_graph option" where
  "TableSwitch_adjust ins g = do {
     q \<leftarrow> getOperand (g_nodes g) ins 0;
     if mn_type (g_nodes g q) = MIRType_Value then unboxOperand MIRType_Int32 ins 0 q g else Some g }"

fun static_adjust :: "static_policy \<Rightarrow> nat \<Rightarrow> mir_graph \<Rightarrow> mir_graph option" where
  "static_adjust StringPolicy ins g = do {
     q \<leftarrow> getOperand (g_nodes g) ins 0;
     if mn_type (g_nodes g q) = MIRType_String then Some g else unboxOperand MIRType_String ins 0 q g }"
| "static_adjust (IntPolicy k) ins g = do {
     q \<leftarrow> getOperand (g_nodes g) ins k;
     if mn_type (g_nodes g q) = MIRType_Int32 then Some g else unboxOperand MIRType_Int32 ins k q g }"
| "static_adjust (DoublePolicy k) ins g = do {
     q \<leftarrow> getOperand (g_nodes g) ins k;
     if mn_type (g_nodes g q) = MIRType_Double then Some g else convertOperand Op_ToDouble MIRType_Double ins k q g }"
| "static_adjust (BoxPolicy k) ins g = boxInputs_at ins k g"
| "static_adjust (ObjectPolicy k) ins g = do {
     q \<leftarrow> getOperand (g_nodes g) ins k;
     let t = mn_type (g_nodes g q);
     if t \<in> {MIRType_Object, MIRType_Slots, MIRType_Elements, MIRType_UpvarSlots} then Some g
     else do {
       (q, g) \<leftarrow> boxedIf (t \<noteq> MIRType_Value) ins q g;
       unboxOperand MIRType_Object ins k q g } }"

text \<open>\<open>FunctionOperandIndex\<close> is 1.\<close>

definition Call_adjust :: "nat \<Rightarrow> mir_graph \<Rightarrow> mir_graph option" where
  "Call_adjust ins g = do {
     q \<leftarrow> getOperand (g_nodes g) ins 1;
     let t = mn_type (g_nodes g q);
     if t = MIRType_Object then Some g
     else do {
       (q, g) \<leftarrow> boxedIf (t \<noteq> MIRType_Value) ins q g;
       unboxOperand MIRType_Object ins 1 q g } }"

definition CallSetElement_adjust :: "nat \<Rightarrow> mir_graph \<Rightarrow> mir_graph option" where
  "CallSetElement_adjust ins g = do {
     g \<leftarrow> static_adjust (ObjectPolicy 0) ins g;
     mfold (boxInputs_at ins) [1..<numOperands (g_nodes g) ins] g }"

text \<open>The two halves of \<open>StoreTypedArrayPolicy\<close>; the value operand is read anew in between.\<close>

definition StoreTypedArray_value :: "nat \<Rightarrow> mir_graph \<Rightarrow> mir_graph option" where
  "StoreTypedArray_value ins g = do {
     q \<leftarrow> getOperand (g_nodes g) ins 2;
     let t = mn_type (g_nodes g q);
     if t \<in> {MIRType_Int32, MIRType_Double, MIRType_Boolean, MIRType_Value} then Some g
     else if t \<in> {MIRType_Null, MIRType_Object, MIRType_Undefined}
     then do {
       (x, g) \<leftarrow> insertBeforeIns ins (MConstant_New (if t = MIRType_Null then MIRType_Int32 else MIRType_Double) g);
       liftNodes (replaceOperand ins 2 (Some x)) g }
     else if t = MIRType_String then boxOperand ins 2 q g
     else None }"

definition StoreTypedArray_convert :: "nat \<Rightarrow> nat \<Rightarrow> mir_graph \<Rightarrow> mir_graph option" where
  "StoreTypedArray_convert at ins g = do {
     q \<leftarrow> getOperand (g_nodes g) ins 2;
     let t = mn_type (g_nodes g q);
     js_assert (t \<in> {MIRType_Int32, MIRType_Boolean, MIRType_Double, MIRType_Value});
     if at \<le> TYPE_UINT32
     then (if t \<noteq> MIRType_Int32 then convertOperand Op_TruncateToInt32 MIRType_Int32 ins 2 q g else Some g)
     else if at = TYPE_UINT8_CLAMPED then do { js_assert (t = MIRType_Int32); Some g }
     else if at \<le> TYPE_FLOAT64
     then (if t \<noteq> MIRType_Double then convertOperand Op_ToDouble MIRType_Double ins 2 q g else Some g)
     else None }"

definition StoreTypedArray_adjust :: "nat \<Rightarrow> nat \<Rightarrow> mir_graph \<Rightarrow> mir_graph option" where
  "StoreTypedArray_adjust at ins g = do {
     e \<leftarrow> getOperand (g_nodes g) ins 0;
     js_assert (mn_type (g_nodes g e) = MIRType_Elements);
     i \<leftarrow> getOperand (g_nodes g) ins 1;
     js_assert (mn_type (g_nodes g i) = MIRType_Int32);
     g \<leftarrow> StoreTypedArray_value ins g;
     StoreTypedArray_convert at ins g }"

definition Clamp_adjust :: "nat \<Rightarrow> mir_graph \<Rightarrow> mir_graph option" where
  "Clamp_adjust ins g = do {
     q \<leftarrow> getOperand (g_nodes g) ins 0;
     if mn_type (g_nodes g q) \<in> {MIRType_Int32, MIRType_Double, MIRType_Value} then Some g else boxOperand ins 0 q g }"

fun adjustInputs :: "type_policy \<Rightarrow> nat \<Rightarrow> mir_graph \<Rightarrow> mir_graph option" where
  "adjustInputs BoxInputsPolicy ins g = BoxInputs_adjust ins g"
| "adjustInputs (ArithPolicy s) ins g = Arith_adjust s ins g"
| "adjustInputs BinaryStringPolicy ins g = mfold (BinaryString_at ins) [0..<2] g"
| "adjustInputs (BitwisePolicy s) ins g = Bitwise_adjust s ins g"
| "adjustInputs TableSwitchPolicy ins g = TableSwitch_adjust ins g"
| "adjustInputs (ComparePolicy s) ins g = Compare_adjust s ins g"
| "adjustInputs TestPolicy ins g = Test_adjust ins g"
| "adjustInputs CallPolicy ins g = Call_adjust ins g"
| "adjustInputs (StaticPolicy p) ins g = static_adjust p ins g"
| "adjustInputs (MixPolicy p q) ins g = do { g \<leftarrow> static_adjust p ins g; static_adjust q ins g }"
| "adjustInputs CallSetElementPolicy ins g = CallSetElement_adjust ins g"
| "adjustInputs (StoreTypedArrayPolicy at) ins g = StoreTypedArray_adjust at ins g"
| "adjustInputs ClampPolicy ins g = Clamp_adjust ins g"
| "adjustInputs (SimplePolicy s) ins g = (if s then Some g else BoxInputs_adjust ins g)"

text \<open>
  \<open>TypeAnalyzer::adjustInputs\<close> and \<open>insertConversions\<close>. A policy only inserts before its instruction, so the
  walk over a block visits the instructions it had at the start.
\<close>

definition TypeAnalyzer_adjustInputs :: "(nat \<Rightarrow> policy_attrs) \<Rightarrow> nat \<Rightarrow> mir_graph \<Rightarrow> mir_graph option" where
  "TypeAnalyzer_adjustInputs A def g =
     (case op_policy (A def) (mn_op (g_nodes g def)) of None \<Rightarrow> Some g | Some p \<Rightarrow> adjustInputs p def g)"

text \<open>One round of the loop over the blocks, and the loop.\<close>

definition convertBlock :: "(nat \<Rightarrow> policy_attrs) \<Rightarrow> nat \<Rightarrow> mir_graph \<Rightarrow> mir_graph option" where
  "convertBlock A b g = do {
     g \<leftarrow> mfold (convertPhi b) (bl_phis (g_blocks g b)) g;
     mfold (TypeAnalyzer_adjustInputs A) (bl_instructions (g_blocks g b)) g }"

definition insertConversions :: "(nat \<Rightarrow> policy_attrs) \<Rightarrow> mir_graph \<Rightarrow> mir_graph option" where
  "insertConversions A g = mfold (convertBlock A) (g_blockList g) g"

definition TypeAnalyzer_analyze :: "(nat \<Rightarrow> policy_attrs) \<Rightarrow> mir_graph \<Rightarrow> mir_graph option" where
  "TypeAnalyzer_analyze A g = do {
     s \<leftarrow> specializePhis g (ta_initial g);
     insertConversions A (g\<lparr>g_nodes := ta_nodes s\<rparr>) }"


subsection \<open>What a policy copes with and what it leaves\<close>

fun sp_index :: "static_policy \<Rightarrow> nat" where
  "sp_index StringPolicy = 0" | "sp_index (IntPolicy k) = k" | "sp_index (DoublePolicy k) = k"
| "sp_index (ObjectPolicy k) = k" | "sp_index (BoxPolicy k) = k"

fun sp_takes :: "static_policy \<Rightarrow> MIRType \<Rightarrow> bool" where
  "sp_takes StringPolicy v = (v = MIRType_String \<or> v = MIRType_Value)"
| "sp_takes (IntPolicy k) v = (v = MIRType_Int32 \<or> v = MIRType_Value)"
| "sp_takes _ v = True"

fun sp_wants :: "static_policy \<Rightarrow> MIRType \<Rightarrow> bool" where
  "sp_wants StringPolicy v = (v = MIRType_String)"
| "sp_wants (IntPolicy k) v = (v = MIRType_Int32)"
| "sp_wants (DoublePolicy k) v = (v = MIRType_Double)"
| "sp_wants (ObjectPolicy k) v = (v \<in> {MIRType_Object, MIRType_Slots, MIRType_Elements, MIRType_UpvarSlots})"
| "sp_wants (BoxPolicy k) v = (v = MIRType_Value)"

text \<open>\<open>u\<close> is the type of the instruction and \<open>v\<close> that of operand \<open>i\<close>.\<close>

fun takes :: "type_policy \<Rightarrow> nat \<Rightarrow> MIRType \<Rightarrow> MIRType \<Rightarrow> bool" where
  "takes (ArithPolicy s) i u v = (s = MIRType_None \<or> u = MIRType_Double \<or> u = MIRType_Int32)"
| "takes (ComparePolicy s) i u v = (s \<in> {MIRType_None, MIRType_Null, MIRType_Undefined} \<or> i \<ge> 2 \<or> v = s \<or>
     s \<in> {MIRType_Double, MIRType_Int32, MIRType_Boolean} \<or> s = MIRType_Object \<and> v \<in> {MIRType_Value, MIRType_String})"
| "takes (StaticPolicy p) i u v = (i = sp_index p \<longrightarrow> sp_takes p v)"
| "takes (MixPolicy p q) i u v = ((i = sp_index p \<longrightarrow> sp_takes p v) \<and> (i = sp_index q \<longrightarrow> sp_takes q v))"
| "takes (StoreTypedArrayPolicy at) i u v = ((i = 0 \<longrightarrow> v = MIRType_Elements) \<and> (i = 1 \<longrightarrow> v = MIRType_Int32) \<and>
     (i = 2 \<longrightarrow> v \<in> {MIRType_Int32, MIRType_Double, MIRType_Boolean, MIRType_Value, MIRType_Null, MIRType_Object, MIRType_Undefined,
        MIRType_String} \<and> at \<le> TYPE_UINT8_CLAMPED \<and> (at = TYPE_UINT8_CLAMPED \<longrightarrow> v = MIRType_Int32)))"
| "takes _ i u v = True"

fun wants :: "type_policy \<Rightarrow> nat \<Rightarrow> MIRType \<Rightarrow> MIRType \<Rightarrow> bool" where
  "wants BoxInputsPolicy i u v = (v = MIRType_Value)"
| "wants (ArithPolicy s) i u v = (if s = MIRType_None then v = MIRType_Value else v = u)"
| "wants BinaryStringPolicy i u v = (i < 2 \<longrightarrow> v = MIRType_String)"
| "wants (BitwisePolicy s) i u v = (if s = MIRType_None then v = MIRType_Value else v = u \<or> v = MIRType_Int32)"
| "wants TableSwitchPolicy i u v = (i = 0 \<longrightarrow> v \<noteq> MIRType_Value)"
| "wants (ComparePolicy s) i u v = (if s = MIRType_None then v = MIRType_Value
     else if s \<in> {MIRType_Null, MIRType_Undefined} then i = 0 \<longrightarrow> v = MIRType_Value
     else i < 2 \<longrightarrow> v = s \<or> s = MIRType_Boolean \<and> v = MIRType_Int32)"
| "wants TestPolicy i u v = (i = 0 \<longrightarrow>
     v \<in> {MIRType_Value, MIRType_Null, MIRType_Undefined, MIRType_Boolean, MIRType_Int32, MIRType_Double, MIRType_Object})"
| "wants CallPolicy i u v = (i = 1 \<longrightarrow> v = MIRType_Object)"
| "wants (StaticPolicy p) i u v = (i = sp_index p \<longrightarrow> sp_wants p v)"
| "wants (MixPolicy p q) i u v = ((i = sp_index p \<longrightarrow> sp_wants p v) \<and> (i = sp_index q \<longrightarrow> sp_wants q v))"
| "wants CallSetElementPolicy i u v = (if i = 0 then sp_wants (ObjectPolicy 0) v else v = MIRType_Value)"
| "wants (StoreTypedArrayPolicy at) i u v = ((i = 0 \<longrightarrow> v = MIRType_Elements) \<and> (i = 1 \<longrightarrow> v = MIRType_Int32) \<and>
     (i = 2 \<longrightarrow> v = (if at \<in> {6, TYPE_FLOAT64} then MIRType_Double else MIRType_Int32)))"
| "wants ClampPolicy i u v = (i = 0 \<longrightarrow> v \<in> {MIRType_Int32, MIRType_Double, MIRType_Value})"
| "wants (SimplePolicy s) i u v = (s \<or> v = MIRType_Value)"

text \<open>The number of operands a policy reads.\<close>

fun policy_arity :: "type_policy \<Rightarrow> nat" where
  "policy_arity BinaryStringPolicy = 2"
| "policy_arity TableSwitchPolicy = 1"
| "policy_arity (ComparePolicy s) = 2"
| "policy_arity TestPolicy = 1"
| "policy_arity CallPolicy = 2"
| "policy_arity (StaticPolicy p) = Suc (sp_index p)"
| "policy_arity (MixPolicy p q) = Suc (max (sp_index p) (sp_index q))"
| "policy_arity CallSetElementPolicy = 1"
| "policy_arity (StoreTypedArrayPolicy at) = 3"
| "policy_arity ClampPolicy = 1"
| "policy_arity _ = 0"

fun policy_wf :: "type_policy \<Rightarrow> bool" where
  "policy_wf (MixPolicy p q) = (sp_index p \<noteq> sp_index q)"
| "policy_wf _ = True"

lemma op_policy_wf: "op_policy a op = Some p \<Longrightarrow> policy_wf p"
  by (induction a op rule: op_policy.induct) (auto split: if_splits)

lemma op_policy_not: "op_policy a Op_Unbox = None" "op_policy a Op_Phi = None" "op_policy a Op_Box = None" "op_policy a Op_Constant = None"
  by simp_all

subsection \<open>One operand of an instruction\<close>

text \<open>The instruction whose operands are adjusted.\<close>

definition at_ins :: "mir_graph \<Rightarrow> nat \<Rightarrow> nat \<Rightarrow> bool" where
  "at_ins g p b \<longleftrightarrow> mn_block (g_nodes g p) = Some b \<and> placed g p \<and> mn_op (g_nodes g p) \<noteq> Op_Unbox"

lemma at_ins_frame: "conv_frame g g' \<Longrightarrow> at_ins g p b \<Longrightarrow> at_ins g' p b"
  using conv_frameD(2,3)[of g g' p] placed_frame[of g g' p] placed_less[of g p] by (simp add: at_ins_def)

lemma at_ins_last: "at_ins g p b \<Longrightarrow> \<exists>l. bl_lastIns (g_blocks g b) = Some l"
  by (auto simp: at_ins_def placed_def)

text \<open>A step before the relinking: nodes are added, no operand changes.\<close>

definition pre_edit :: "nat \<Rightarrow> (nat \<times> nat) set \<Rightarrow> mir_graph \<Rightarrow> nat \<Rightarrow> (nat \<times> nat) set \<Rightarrow> mir_graph \<Rightarrow> bool" where
  "pre_edit b L g p L' g' \<longleftrightarrow> edit L g {} L' g' \<and> L \<subseteq> L' \<and> grow (Some b) g g' \<and> same_phis g g' \<and>
     (\<forall>j. getOperand (g_nodes g') p j = getOperand (g_nodes g) p j)"

lemma pre_edit_refl: "store_ok L g \<Longrightarrow> pre_edit b L g p L g"
  by (simp add: pre_edit_def edit_refl grow_refl same_phis_def)

lemma pre_then: "pre_edit b L g p L1 g1 \<Longrightarrow> operand_edit (Some b) L1 g1 p i P L2 g2 \<Longrightarrow> operand_edit (Some b) L g p i P L2 g2"
  unfolding pre_edit_def using place_then by blast

lemma insert_unary:
  assumes s: "store_ok L g" and p: "at_ins g p b" and q: "placed g q"
    and unb: "op = Op_Unbox \<Longrightarrow> mn_type (g_nodes g q) = MIRType_Value \<and> t \<noteq> MIRType_Value"
  obtains g' x where "insertBeforeIns p (MUnary_New op t q g) = Some (x, g')" "pre_edit b L g p (insert (x, 0) L) g'"
    "placed g' x" "mn_type (g_nodes g' x) = t"
proof -
  obtain l where l: "bl_lastIns (g_blocks g b) = Some l" using at_ins_last[OF p] by blast
  obtain g1 g2 where g: "MUnary_New op t q g = (g_nextNode g, g1)" "g2 = insertBefore b p (g_nextNode g) g1"
    "edit L g {} (insert (g_nextNode g, 0) L) g2" "grow (Some b) g g2" "same_phis g g2" "placed g2 (g_nextNode g)"
    "mn_type (g_nodes g2 (g_nextNode g)) = t" "conv_frame g g1" "g_blocks g1 = g_blocks g"
    "\<forall>n i. n < g_nextNode g \<longrightarrow> getOperand (g_nodes g2) n i = getOperand (g_nodes g) n i"
    using place_unary_at[OF s q l unb, where B = "Some b" and at = p] by blast
  have pl: "p < g_nextNode g" using p placed_less by (simp add: at_ins_def)
  then have "mn_block (g_nodes g1 p) = Some b" using conv_frameD(3)[OF g(8)] p by (simp add: at_ins_def)
  then have "insertBeforeIns p (MUnary_New op t q g) = Some (g_nextNode g, g2)" using g(1,2) by (simp add: insertBeforeIns_def)
  moreover have "pre_edit b L g p (insert (g_nextNode g, 0) L) g2" using g(3-5,10) pl by (auto simp: pre_edit_def)
  ultimately show thesis using that g(6,7) by blast
qed

lemma relink_at:
  assumes s: "store_ok L g" and p: "at_ins g p b" and l: "(p, i) \<in> L" "getOperand (g_nodes g) p i = Some d"
    and pre: "pre_edit b L g p L1 g1" and x: "placed g1 x" "P (mn_type (g_nodes g1 x))"
  shows "\<exists>g2. liftNodes (replaceOperand p i (Some x)) g1 = Some g2 \<and> operand_edit (Some b) L g p i P L1 g2"
proof -
  have e: "edit L g {} L1 g1" and lL: "(p, i) \<in> L1" and op: "getOperand (g_nodes g1) p i = Some d"
    using pre l by (auto simp: pre_edit_def)
  have "at_ins g1 p b" by (rule at_ins_frame[OF editD(2)[OF e] p])
  then have "mn_op (g_nodes g1 p) \<noteq> Op_Unbox" by (simp add: at_ins_def)
  then obtain g2 where "liftNodes (replaceOperand p i (Some x)) g1 = Some g2" "operand_edit (Some b) L1 g1 p i P L1 g2"
    using relink_edit[OF editD(1)[OF e] lL op x(1), where P = P and B = "Some b", OF _ x(2)] by blast
  then show ?thesis using pre_then[OF pre] by blast
qed

lemma convertOperand_ok:
  assumes s: "store_ok L g" and p: "at_ins g p b" and l: "(p, i) \<in> L" "getOperand (g_nodes g) p i = Some d"
    and q: "placed g q" and unb: "op = Op_Unbox \<Longrightarrow> mn_type (g_nodes g q) = MIRType_Value \<and> t \<noteq> MIRType_Value" and P: "P t"
  shows "\<exists>g' L'. convertOperand op t p i q g = Some g' \<and> operand_edit (Some b) L g p i P L' g'"
proof -
  obtain g1 x where g1: "insertBeforeIns p (MUnary_New op t q g) = Some (x, g1)" "pre_edit b L g p (insert (x, 0) L) g1"
    "placed g1 x" "mn_type (g_nodes g1 x) = t" using insert_unary[OF s p q unb] by blast
  obtain g2 where "liftNodes (replaceOperand p i (Some x)) g1 = Some g2" "operand_edit (Some b) L g p i P (insert (x, 0) L) g2"
    using relink_at[OF s p l g1(2,3), of P] g1(4) P by blast
  then show ?thesis using g1(1) by (auto simp: convertOperand_def)
qed

lemma boxAt_ok:
  assumes s: "store_ok L g" and p: "at_ins g p b" and q: "placed g q" "mn_type (g_nodes g q) \<noteq> MIRType_Value"
  obtains r g1 L1 where "boxAt p q g = Some (r, g1)" "pre_edit b L g p L1 g1" "placed g1 r" "mn_type (g_nodes g1 r) = MIRType_Value"
proof (cases "mn_op (g_nodes g q) = Op_Unbox")
  case True
  obtain r where "getOperand (g_nodes g) q 0 = Some r" "placed g r" "mn_type (g_nodes g r) = MIRType_Value"
    using unbox_input[OF s q(1) True] .
  then show thesis using that[of r g L] True pre_edit_refl[OF s] by (simp add: boxAt_def)
next
  case False
  obtain g1 x where "insertBeforeIns p (MUnary_New Op_Box MIRType_Value q g) = Some (x, g1)" "pre_edit b L g p (insert (x, 0) L) g1"
    "placed g1 x" "mn_type (g_nodes g1 x) = MIRType_Value" using insert_unary[OF s p q(1), of Op_Box MIRType_Value] by blast
  then show thesis using that False q(2) by (simp add: boxAt_def MBox_New_def)
qed

lemma boxedIf_ok:
  assumes s: "store_ok L g" and p: "at_ins g p b" and q: "placed g q" "c \<Longrightarrow> mn_type (g_nodes g q) \<noteq> MIRType_Value"
  obtains r g1 L1 where "boxedIf c p q g = Some (r, g1)" "pre_edit b L g p L1 g1" "placed g1 r"
    "mn_type (g_nodes g1 r) = (if c then MIRType_Value else mn_type (g_nodes g q))"
proof (cases c)
  case True
  obtain r g1 L1 where "boxAt p q g = Some (r, g1)" "pre_edit b L g p L1 g1" "placed g1 r" "mn_type (g_nodes g1 r) = MIRType_Value"
    using boxAt_ok[OF s p q(1) q(2)[OF True]] .
  then show thesis using that True by (simp add: boxedIf_def)
next
  case False
  then show thesis using that[of q g L] pre_edit_refl[OF s] q(1) by (simp add: boxedIf_def)
qed

lemma boxOperand_ok:
  assumes s: "store_ok L g" and p: "at_ins g p b" and l: "(p, i) \<in> L" "getOperand (g_nodes g) p i = Some q"
    and q: "placed g q" "mn_type (g_nodes g q) \<noteq> MIRType_Value" and P: "P MIRType_Value"
  shows "\<exists>g' L'. boxOperand p i q g = Some g' \<and> operand_edit (Some b) L g p i P L' g'"
proof -
  obtain r g1 L1 where g1: "boxAt p q g = Some (r, g1)" "pre_edit b L g p L1 g1" "placed g1 r" "mn_type (g_nodes g1 r) = MIRType_Value"
    using boxAt_ok[OF s p q] .
  obtain g2 where "liftNodes (replaceOperand p i (Some r)) g1 = Some g2" "operand_edit (Some b) L g p i P L1 g2"
    using relink_at[OF s p l g1(2,3), of P] g1(4) P by auto
  then show ?thesis using g1(1) by (auto simp: boxOperand_def)
qed

text \<open>Boxing where needed, then a conversion.\<close>

lemma boxed_convert:
  assumes s: "store_ok L g" and p: "at_ins g p b" and l: "(p, i) \<in> L" "getOperand (g_nodes g) p i = Some q"
    and q: "placed g q" "c \<Longrightarrow> mn_type (g_nodes g q) \<noteq> MIRType_Value" and P: "P t"
    and unb: "op = Op_Unbox \<Longrightarrow> (c \<or> mn_type (g_nodes g q) = MIRType_Value) \<and> t \<noteq> MIRType_Value"
  obtains r g1 g2 L2 where "boxedIf c p q g = Some (r, g1)" "convertOperand op t p i r g1 = Some g2"
    "operand_edit (Some b) L g p i P L2 g2" "mn_type (g_nodes g1 p) = mn_type (g_nodes g p)"
    "mn_type (g_nodes g1 r) = (if c then MIRType_Value else mn_type (g_nodes g q))"
proof -
  obtain r g1 L1 where g1: "boxedIf c p q g = Some (r, g1)" "pre_edit b L g p L1 g1" "placed g1 r"
    "mn_type (g_nodes g1 r) = (if c then MIRType_Value else mn_type (g_nodes g q))" using boxedIf_ok[OF s p q] .
  have e: "edit L g {} L1 g1" and l1: "(p, i) \<in> L1" "getOperand (g_nodes g1) p i = Some q"
    using g1(2) l by (auto simp: pre_edit_def)
  have p1: "at_ins g1 p b" by (rule at_ins_frame[OF editD(2)[OF e] p])
  have u: "op = Op_Unbox \<Longrightarrow> mn_type (g_nodes g1 r) = MIRType_Value \<and> t \<noteq> MIRType_Value" using unb g1(4) by auto
  obtain g2 L2 where "convertOperand op t p i r g1 = Some g2" "operand_edit (Some b) L1 g1 p i P L2 g2"
    using convertOperand_ok[OF editD(1)[OF e] p1 l1 g1(3) u, where P = P, OF _ P] by blast
  moreover have "mn_type (g_nodes g1 p) = mn_type (g_nodes g p)"
    using conv_frameD(1)[OF editD(2)[OF e]] p placed_less by (auto simp: at_ins_def)
  ultimately show thesis using that g1(1,4) pre_then[OF g1(2)] by blast
qed


text \<open>\<open>f\<close> turns operand \<open>i\<close> of \<open>p\<close>, which is \<open>q\<close>, into one of a type in \<open>P\<close>.\<close>

definition fits :: "(mir_graph \<Rightarrow> mir_graph option) \<Rightarrow> nat \<Rightarrow> (nat \<times> nat) set \<Rightarrow> mir_graph \<Rightarrow> nat \<Rightarrow> nat \<Rightarrow> (MIRType \<Rightarrow> bool) \<Rightarrow> bool" where
  "fits f b L g p i P \<longleftrightarrow> (\<exists>g' L'. f g = Some g' \<and> operand_edit (Some b) L g p i P L' g')"

definition operand_of :: "nat \<Rightarrow> (nat \<times> nat) set \<Rightarrow> mir_graph \<Rightarrow> nat \<Rightarrow> nat \<Rightarrow> nat \<Rightarrow> bool" where
  "operand_of b L g p i q \<longleftrightarrow> store_ok L g \<and> at_ins g p b \<and> (p, i) \<in> L \<and> getOperand (g_nodes g) p i = Some q \<and> placed g q"

lemma operand_ofD:
  assumes "operand_of b L g p i q"
  shows "store_ok L g" "at_ins g p b" "(p, i) \<in> L" "getOperand (g_nodes g) p i = Some q" "placed g q"
  using assms by (simp_all add: operand_of_def)

lemma fits_same:
  assumes "operand_of b L g p i q" "f g = Some g" "P (mn_type (g_nodes g q))"
  shows "fits f b L g p i P"
  using operand_edit_same[OF operand_ofD(1,4,5)[OF assms(1)], of P "Some b"] assms(2,3) unfolding fits_def by blast

lemma fits_box:
  assumes o: "operand_of b L g p i q" and f: "f g = boxOperand p i q g" and "mn_type (g_nodes g q) \<noteq> MIRType_Value" "P MIRType_Value"
  shows "fits f b L g p i P"
  using boxOperand_ok[OF operand_ofD(1-5)[OF o] assms(3), where P = P, OF assms(4)] f unfolding fits_def by simp

lemma fits_convert:
  assumes o: "operand_of b L g p i q" and f: "f g = convertOperand op t p i q g" and "op \<noteq> Op_Unbox" "P t"
  shows "fits f b L g p i P"
  using convertOperand_ok[OF operand_ofD[OF o], where op = op and t = t and P = P] assms unfolding fits_def by simp

lemma fits_unbox:
  assumes o: "operand_of b L g p i q" and f: "f g = unboxOperand t p i q g" and "mn_type (g_nodes g q) = MIRType_Value" "t \<noteq> MIRType_Value" "P t"
  shows "fits f b L g p i P"
  using convertOperand_ok[OF operand_ofD[OF o], where op = Op_Unbox and t = t and P = P] assms unfolding fits_def by (simp add: unboxOperand_def)

text \<open>Boxing where needed and a conversion \<open>k\<close>, in the shapes of the policies.\<close>

lemma fits_boxed:
  assumes o: "operand_of b L g p i q" and f: "f g = boxedIf c p q g \<bind> (\<lambda>(r, g). k r g)"
    and c: "c \<Longrightarrow> mn_type (g_nodes g q) \<noteq> MIRType_Value"
    and k: "\<And>r g1. mn_type (g_nodes g1 p) = mn_type (g_nodes g p) \<Longrightarrow>
       mn_type (g_nodes g1 r) = (if c then MIRType_Value else mn_type (g_nodes g q)) \<Longrightarrow> k r g1 = convertOperand op t p i r g1"
    and u: "op = Op_Unbox \<Longrightarrow> (c \<or> mn_type (g_nodes g q) = MIRType_Value) \<and> t \<noteq> MIRType_Value" and P: "P t"
  shows "fits f b L g p i P"
proof -
  obtain r g1 g2 L2 where g: "boxedIf c p q g = Some (r, g1)" "convertOperand op t p i r g1 = Some g2"
    "operand_edit (Some b) L g p i P L2 g2" "mn_type (g_nodes g1 p) = mn_type (g_nodes g p)"
    "mn_type (g_nodes g1 r) = (if c then MIRType_Value else mn_type (g_nodes g q))"
    using boxed_convert[OF operand_ofD[OF o], where P = P and c = c and op = op and t = t, OF c P u] by blast
  have "f g = Some g2" using f g(1,2) k[OF g(4,5)] by simp
  then show ?thesis using g(3) unfolding fits_def by blast
qed

lemma boxInputs_fits:
  assumes o: "operand_of b L g p i q"
  shows "fits (boxInputs_at p i) b L g p i (\<lambda>v. v = MIRType_Value)"
proof (cases "mn_type (g_nodes g q) = MIRType_Value")
  case True
  then show ?thesis using operand_ofD(4)[OF o] by (intro fits_same[OF o]) (simp_all add: boxInputs_at_def)
next
  case False
  then show ?thesis using operand_ofD(4)[OF o] by (intro fits_box[OF o]) (simp_all add: boxInputs_at_def)
qed

lemma Arith_fits:
  assumes o: "operand_of b L g p i q" and t: "mn_type (g_nodes g p) \<in> {MIRType_Double, MIRType_Int32}"
  shows "fits (Arith_at s p i) b L g p i (\<lambda>v. v = mn_type (g_nodes g p))"
proof -
  note op = operand_ofD(4)[OF o]
  let ?c = "mn_type (g_nodes g q) = MIRType_Object \<or> mn_type (g_nodes g q) = MIRType_String \<or>
    mn_type (g_nodes g q) = MIRType_Undefined \<and> s = MIRType_Int32"
  let ?k = "\<lambda>r g. if mn_type (g_nodes g p) = MIRType_Double then convertOperand Op_ToDouble MIRType_Double p i r g
       else convertOperand Op_ToInt32 MIRType_Int32 p i r g"
  show ?thesis
  proof (cases "mn_type (g_nodes g q) = mn_type (g_nodes g p)")
    case True
    then show ?thesis using op by (intro fits_same[OF o]) (simp_all add: Arith_at_def Let_def)
  next
    case False
    have f: "Arith_at s p i g = boxedIf ?c p q g \<bind> (\<lambda>(r, g). ?k r g)" using op False by (simp add: Arith_at_def Let_def)
    show ?thesis
    proof (cases "mn_type (g_nodes g p) = MIRType_Double")
      case True
      then show ?thesis by (intro fits_boxed[where f = "Arith_at s p i", OF o f, where op = Op_ToDouble and t = MIRType_Double]) auto
    next
      case False
      then show ?thesis using t by (intro fits_boxed[where f = "Arith_at s p i", OF o f, where op = Op_ToInt32 and t = MIRType_Int32]) auto
    qed
  qed
qed

lemma BinaryString_fits:
  assumes o: "operand_of b L g p i q"
  shows "fits (BinaryString_at p i) b L g p i (\<lambda>v. v = MIRType_String)"
proof -
  note op = operand_ofD(4)[OF o]
  let ?c = "mn_type (g_nodes g q) \<noteq> MIRType_Value"
  consider "mn_type (g_nodes g q) = MIRType_String" | "mn_type (g_nodes g q) = MIRType_Int32"
    | "mn_type (g_nodes g q) \<noteq> MIRType_String" "mn_type (g_nodes g q) \<noteq> MIRType_Int32" by blast
  then show ?thesis
  proof cases
    case 1
    then show ?thesis using op by (intro fits_same[OF o]) (simp_all add: BinaryString_at_def Let_def)
  next
    case 2
    then show ?thesis using op by (intro fits_convert[OF o, where op = Op_ToString and t = MIRType_String]) (simp_all add: BinaryString_at_def Let_def)
  next
    case 3
    then have f: "BinaryString_at p i g = boxedIf ?c p q g \<bind> (\<lambda>(r, g). unboxOperand MIRType_String p i r g)"
      using op by (simp add: BinaryString_at_def Let_def)
    show ?thesis by (rule fits_boxed[where f = "BinaryString_at p i", OF o f, where op = Op_Unbox and t = MIRType_String]) (auto simp: unboxOperand_def split: if_splits)
  qed
qed

lemma Compare_fits:
  assumes o: "operand_of b L g p i q" and t: "takes (ComparePolicy s) i u (mn_type (g_nodes g q))" "i < 2"
    and s: "s \<notin> {MIRType_None, MIRType_Null, MIRType_Undefined}"
  shows "fits (Compare_at s p i) b L g p i (\<lambda>v. v = s \<or> s = MIRType_Boolean \<and> v = MIRType_Int32)"
proof -
  note op = operand_ofD(4)[OF o]
  let ?c = "mn_type (g_nodes g q) = MIRType_Object \<or> mn_type (g_nodes g q) = MIRType_String"
  let ?k = "\<lambda>r g. if s = MIRType_Double then convertOperand Op_ToDouble MIRType_Double p i r g
       else if s = MIRType_Int32 \<or> s = MIRType_Boolean then convertOperand Op_ToInt32 MIRType_Int32 p i r g
       else if s = MIRType_Object then unboxOperand MIRType_Object p i r g else None"
  show ?thesis
  proof (cases "mn_type (g_nodes g q) = s")
    case True
    then show ?thesis using op by (intro fits_same[OF o]) (simp_all add: Compare_at_def Let_def)
  next
    case False
    have f: "Compare_at s p i g = boxedIf ?c p q g \<bind> (\<lambda>(r, g). ?k r g)" using op False by (simp add: Compare_at_def Let_def)
    consider "s = MIRType_Double" | "s = MIRType_Int32 \<or> s = MIRType_Boolean"
      | "s = MIRType_Object" "mn_type (g_nodes g q) \<in> {MIRType_Value, MIRType_String}" using t s False by auto
    then show ?thesis
    proof cases
      case 1
      then show ?thesis by (intro fits_boxed[where f = "Compare_at s p i", OF o f, where op = Op_ToDouble and t = MIRType_Double]) auto
    next
      case 2
      then show ?thesis by (intro fits_boxed[where f = "Compare_at s p i", OF o f, where op = Op_ToInt32 and t = MIRType_Int32]) auto
    next
      case 3
      then show ?thesis
        by (intro fits_boxed[where f = "Compare_at s p i", OF o f, where op = Op_Unbox and t = MIRType_Object]) (auto simp: unboxOperand_def split: if_splits)
    qed
  qed
qed

lemma Bitwise_fits:
  assumes o: "operand_of b L g p i q"
  shows "fits (Bitwise_at p i) b L g p i (\<lambda>v. v = mn_type (g_nodes g p) \<or> v = MIRType_Int32)"
proof -
  note op = operand_ofD(4)[OF o]
  let ?c = "mn_type (g_nodes g q) = MIRType_Object \<or> mn_type (g_nodes g q) = MIRType_String"
  show ?thesis
  proof (cases "mn_type (g_nodes g q) = mn_type (g_nodes g p)")
    case True
    then show ?thesis using op by (intro fits_same[OF o]) (simp_all add: Bitwise_at_def Let_def)
  next
    case False
    have f: "Bitwise_at p i g = boxedIf ?c p q g \<bind> (\<lambda>(r, g). convertOperand Op_TruncateToInt32 MIRType_Int32 p i r g)"
      using op False by (simp add: Bitwise_at_def Let_def)
    show ?thesis by (intro fits_boxed[where f = "Bitwise_at p i", OF o f, where op = Op_TruncateToInt32 and t = MIRType_Int32]) auto
  qed
qed

lemma object_fits:
  assumes o: "operand_of b L g p i q"
    and f: "f g = (if mn_type (g_nodes g q) \<in> T then Some g
       else boxedIf (mn_type (g_nodes g q) \<noteq> MIRType_Value) p q g \<bind> (\<lambda>(q, g). unboxOperand MIRType_Object p i q g))"
    and T: "MIRType_Object \<in> T" "MIRType_Value \<notin> T"
  shows "fits f b L g p i (\<lambda>v. v \<in> T)"
proof (cases "mn_type (g_nodes g q) \<in> T")
  case True
  then show ?thesis using f by (intro fits_same[OF o]) simp_all
next
  case False
  then have f': "f g = boxedIf (mn_type (g_nodes g q) \<noteq> MIRType_Value) p q g \<bind> (\<lambda>(q, g). unboxOperand MIRType_Object p i q g)"
    using f by simp
  show ?thesis using T(1)
    by (intro fits_boxed[where f = f, OF o f', where op = Op_Unbox and t = MIRType_Object]) (auto simp: unboxOperand_def split: if_splits)
qed

lemma static_fits:
  assumes o: "operand_of b L g p (sp_index sp) q" and t: "sp_takes sp (mn_type (g_nodes g q))"
  shows "fits (static_adjust sp p) b L g p (sp_index sp) (sp_wants sp)"
proof (cases sp)
  case StringPolicy
  have o': "operand_of b L g p 0 q" using o StringPolicy by simp
  note op = operand_ofD(4)[OF o']
  show ?thesis
  proof (cases "mn_type (g_nodes g q) = MIRType_String")
    case True
    then show ?thesis using op StringPolicy by (intro fits_same[OF o]) simp_all
  next
    case False
    then show ?thesis using op StringPolicy t by (intro fits_unbox[OF o, where t = MIRType_String]) simp_all
  qed
next
  case (IntPolicy k)
  have o': "operand_of b L g p k q" using o IntPolicy by simp
  note op = operand_ofD(4)[OF o']
  show ?thesis
  proof (cases "mn_type (g_nodes g q) = MIRType_Int32")
    case True
    then show ?thesis using op IntPolicy by (intro fits_same[OF o]) simp_all
  next
    case False
    then show ?thesis using op IntPolicy t by (intro fits_unbox[OF o, where t = MIRType_Int32]) simp_all
  qed
next
  case (DoublePolicy k)
  have o': "operand_of b L g p k q" using o DoublePolicy by simp
  note op = operand_ofD(4)[OF o']
  show ?thesis
  proof (cases "mn_type (g_nodes g q) = MIRType_Double")
    case True
    then show ?thesis using op DoublePolicy by (intro fits_same[OF o]) simp_all
  next
    case False
    then show ?thesis using op DoublePolicy by (intro fits_convert[OF o, where op = Op_ToDouble and t = MIRType_Double]) simp_all
  qed
next
  case (ObjectPolicy k)
  have o': "operand_of b L g p k q" using o ObjectPolicy by simp
  note op = operand_ofD(4)[OF o']
  let ?T = "{MIRType_Object, MIRType_Slots, MIRType_Elements, MIRType_UpvarSlots}"
  have w: "sp_wants sp = (\<lambda>v. v \<in> ?T)" by (simp add: ObjectPolicy fun_eq_iff)
  have "fits (static_adjust sp p) b L g p k (\<lambda>v. v \<in> ?T)"
    by (rule object_fits[OF o']) (use op ObjectPolicy in \<open>simp_all add: Let_def\<close>)
  then show ?thesis by (simp add: w) (simp add: ObjectPolicy)
next
  case (BoxPolicy k)
  have "sp_wants sp = (\<lambda>v. v = MIRType_Value)" by (simp add: BoxPolicy fun_eq_iff)
  moreover have "static_adjust sp p = boxInputs_at p k" by (simp add: BoxPolicy fun_eq_iff)
  ultimately show ?thesis using boxInputs_fits[OF o] BoxPolicy by simp
qed


lemma fits_mono: "fits f b L g p i P \<Longrightarrow> (\<And>v. P v \<Longrightarrow> Q v) \<Longrightarrow> fits f b L g p i Q"
  unfolding fits_def using operand_edit_mono by metis

lemma TableSwitch_fits:
  assumes o: "operand_of b L g p 0 q"
  shows "fits (TableSwitch_adjust p) b L g p 0 (\<lambda>v. v \<noteq> MIRType_Value)"
proof (cases "mn_type (g_nodes g q) = MIRType_Value")
  case True
  then show ?thesis using operand_ofD(4)[OF o]
    by (intro fits_unbox[OF o, where t = MIRType_Int32]) (simp_all add: TableSwitch_adjust_def)
next
  case False
  then show ?thesis using operand_ofD(4)[OF o] by (intro fits_same[OF o]) (simp_all add: TableSwitch_adjust_def)
qed

lemma Test_fits:
  assumes o: "operand_of b L g p 0 q"
  shows "fits (Test_adjust p) b L g p 0 (wants TestPolicy 0 u)"
proof -
  let ?T = "{MIRType_Value, MIRType_Null, MIRType_Undefined, MIRType_Boolean, MIRType_Int32, MIRType_Double, MIRType_Object}"
  note op = operand_ofD(4)[OF o]
  consider "mn_type (g_nodes g q) \<in> ?T" | "mn_type (g_nodes g q) = MIRType_String"
    | "mn_type (g_nodes g q) \<notin> ?T" "mn_type (g_nodes g q) \<noteq> MIRType_String" by blast
  then show ?thesis
  proof cases
    case 1
    then show ?thesis using op by (intro fits_same[OF o]) (simp_all add: Test_adjust_def)
  next
    case 2
    then show ?thesis using op
      by (intro fits_convert[OF o, where op = "Op_Other 97" and t = MIRType_Int32]) (simp_all add: Test_adjust_def)
  next
    case 3
    then show ?thesis using op by (intro fits_box[OF o]) (simp_all add: Test_adjust_def Let_def)
  qed
qed

lemma Call_fits:
  assumes o: "operand_of b L g p 1 q"
  shows "fits (Call_adjust p) b L g p 1 (\<lambda>v. v \<in> {MIRType_Object})"
  by (rule object_fits[OF o]) (use operand_ofD(4)[OF o] in \<open>simp_all add: Call_adjust_def Let_def\<close>)

lemma Clamp_fits:
  assumes o: "operand_of b L g p 0 q"
  shows "fits (Clamp_adjust p) b L g p 0 (wants ClampPolicy 0 u)"
proof (cases "mn_type (g_nodes g q) \<in> {MIRType_Int32, MIRType_Double, MIRType_Value}")
  case True
  then show ?thesis using operand_ofD(4)[OF o] by (intro fits_same[OF o]) (simp_all add: Clamp_adjust_def)
next
  case False
  then show ?thesis using operand_ofD(4)[OF o] by (intro fits_box[OF o]) (simp_all add: Clamp_adjust_def)
qed

lemma StoreTypedArray_value_fits:
  assumes o: "operand_of b L g p 2 q" and t: "takes (StoreTypedArrayPolicy at) 2 u (mn_type (g_nodes g q))"
  shows "fits (StoreTypedArray_value p) b L g p 2
    (\<lambda>v. v \<in> {MIRType_Int32, MIRType_Boolean, MIRType_Double, MIRType_Value} \<and> (at = TYPE_UINT8_CLAMPED \<longrightarrow> v = MIRType_Int32))"
    (is "fits _ _ _ _ _ _ ?P")
proof -
  let ?t = "mn_type (g_nodes g q)"
  note d = operand_ofD[OF o]
  consider "?t \<in> {MIRType_Int32, MIRType_Double, MIRType_Boolean, MIRType_Value}"
    | "?t \<in> {MIRType_Null, MIRType_Object, MIRType_Undefined}" | "?t = MIRType_String" using t by auto
  then show ?thesis
  proof cases
    case 1
    then show ?thesis using d(4) t by (intro fits_same[OF o]) (auto simp: StoreTypedArray_value_def)
  next
    case 3
    then show ?thesis using d(4) t by (intro fits_box[OF o]) (auto simp: StoreTypedArray_value_def)
  next
    case 2
    define t' where "t' = (if ?t = MIRType_Null then MIRType_Int32 else MIRType_Double)"
    obtain x g1 where new: "MConstant_New t' g = (x, g1)" by (cases "MConstant_New t' g")
    obtain l where l: "bl_lastIns (g_blocks g b) = Some l" using at_ins_last[OF d(2)] by blast
    define g2 where "g2 = insertBefore b p x g1"
    note c = place_constant[OF d(1) l new g2_def]
    have pl: "p < g_nextNode g" using d(2) placed_less by (simp add: at_ins_def)
    have "mn_block (g_nodes g1 p) = mn_block (g_nodes g p)"
      using new pl by (auto simp: MConstant_New_def new_node_def)
    then have ins: "insertBeforeIns p (MConstant_New t' g) = Some (x, g2)"
      using d(2) new by (simp add: insertBeforeIns_def at_ins_def g2_def)
    have pre: "pre_edit b L g p L g2" using c(1-3,8) pl by (auto simp: pre_edit_def grow_def)
    have P: "?P (mn_type (g_nodes g2 x))" using c(5) t 2 by (auto simp: t'_def)
    obtain g3 where g3: "liftNodes (replaceOperand p 2 (Some x)) g2 = Some g3" "operand_edit (Some b) L g p 2 ?P L g3"
      using relink_at[OF d(1-4) pre c(4), where P = ?P, OF P] by blast
    have "StoreTypedArray_value p g = Some g3"
      using 2 d(4) ins g3(1) by (auto simp: StoreTypedArray_value_def t'_def)
    then show ?thesis using g3(2) unfolding fits_def by blast
  qed
qed

lemma StoreTypedArray_convert_fits:
  assumes o: "operand_of b L g p 2 q" and at: "at \<le> TYPE_UINT8_CLAMPED"
    and t: "mn_type (g_nodes g q) \<in> {MIRType_Int32, MIRType_Boolean, MIRType_Double, MIRType_Value}"
      "at = TYPE_UINT8_CLAMPED \<longrightarrow> mn_type (g_nodes g q) = MIRType_Int32"
  shows "fits (StoreTypedArray_convert at p) b L g p 2 (\<lambda>v. v = (if at \<in> {6, TYPE_FLOAT64} then MIRType_Double else MIRType_Int32))"
proof -
  let ?w = "if at \<in> {6, TYPE_FLOAT64} then MIRType_Double else MIRType_Int32"
  note op = operand_ofD(4)[OF o]
  show ?thesis
  proof (cases "mn_type (g_nodes g q) = ?w")
    case True
    have "StoreTypedArray_convert at p g = Some g" using op True t at by (auto simp: StoreTypedArray_convert_def split: if_splits)
    then show ?thesis using True by (intro fits_same[OF o]) simp_all
  next
    case False
    show ?thesis
    proof (cases "at \<in> {6, TYPE_FLOAT64}")
      case True
      then show ?thesis using op False t
        by (intro fits_convert[OF o, where op = Op_ToDouble and t = MIRType_Double]) (auto simp: StoreTypedArray_convert_def)
    next
      case F: False
      have "at \<le> 5" using at F False t(2) by auto
      then show ?thesis using op False F t
        by (intro fits_convert[OF o, where op = Op_TruncateToInt32 and t = MIRType_Int32]) (auto simp: StoreTypedArray_convert_def)
    qed
  qed
qed


subsection \<open>All operands of an instruction\<close>

definition node_fits ::
  "(mir_graph \<Rightarrow> mir_graph option) \<Rightarrow> nat \<Rightarrow> (nat \<times> nat) set \<Rightarrow> mir_graph \<Rightarrow> nat \<Rightarrow> (nat \<Rightarrow> MIRType \<Rightarrow> MIRType \<Rightarrow> bool) \<Rightarrow> bool" where
  "node_fits f b L g p R \<longleftrightarrow> (\<exists>g' L'. f g = Some g' \<and> node_edit (Some b) L g p L' g' \<and> ops_ok L' g' R p)"

text \<open>An instruction before its policy runs: its operands are of types in \<open>R\<close>.\<close>

definition ready :: "nat \<Rightarrow> (nat \<times> nat) set \<Rightarrow> mir_graph \<Rightarrow> nat \<Rightarrow> (nat \<Rightarrow> MIRType \<Rightarrow> MIRType \<Rightarrow> bool) \<Rightarrow> bool" where
  "ready b L g p R \<longleftrightarrow> store_ok L g \<and> at_ins g p b \<and> ops_ok L g R p"

lemma readyD:
  assumes "ready b L g p R"
  shows "store_ok L g" "at_ins g p b" "ops_ok L g R p"
  using assms by (simp_all add: ready_def)

lemma ready_operand:
  assumes r: "ready b L g p R" and i: "i < numOperands (g_nodes g) p"
  obtains q where "operand_of b L g p i q" "R i (mn_type (g_nodes g p)) (mn_type (g_nodes g q))"
  using ops_okD(2,3)[OF readyD(3)[OF r] i] readyD(1,2)[OF r] unfolding operand_of_def by blast

lemma ready_after:
  assumes r: "ready b L g p R" and e: "node_edit (Some b) L g p L' g'" and o: "ops_ok L' g' S p"
  shows "ready b L' g' p S" "mn_type (g_nodes g' p) = mn_type (g_nodes g p)"
    "numOperands (g_nodes g') p = numOperands (g_nodes g) p"
proof -
  have ed: "edit L g {p} L' g'" using e by (simp add: node_edit_def)
  have pl: "p < g_nextNode g" using ops_okD(1)[OF readyD(3)[OF r]] .
  show "ready b L' g' p S" using editD(1)[OF ed] at_ins_frame[OF editD(2)[OF ed] readyD(2)[OF r]] o by (simp add: ready_def)
  show "mn_type (g_nodes g' p) = mn_type (g_nodes g p)" "numOperands (g_nodes g') p = numOperands (g_nodes g) p"
    using conv_frameD(1,4)[OF editD(2)[OF ed] pl] by simp_all
qed

lemma node_fits_skip: "ready b L g p R \<Longrightarrow> f g = Some g \<Longrightarrow> node_fits f b L g p R"
  using node_edit_refl[of L g "Some b" p] unfolding node_fits_def ready_def by blast

lemma node_fits_conv:
  assumes "node_fits f b L g p R" "p < g_nextNode g"
    "\<And>i v. i < numOperands (g_nodes g) p \<Longrightarrow> R i (mn_type (g_nodes g p)) v \<Longrightarrow> S i (mn_type (g_nodes g p)) v"
  shows "node_fits f b L g p S"
proof -
  obtain g' L' where g': "f g = Some g'" "node_edit (Some b) L g p L' g'" "ops_ok L' g' R p"
    using assms(1) unfolding node_fits_def by blast
  have fr: "conv_frame g g'" using g'(2) editD(2) by (auto simp: node_edit_def)
  have "ops_ok L' g' S p"
    by (rule ops_ok_conv[OF g'(3)]) (use assms(3) conv_frameD(1,4)[OF fr assms(2)] in auto)
  then show ?thesis using g' unfolding node_fits_def by blast
qed

lemma one_operand:
  assumes r: "ready b L g p R" and k: "k < numOperands (g_nodes g) p"
    and f: "\<And>q. operand_of b L g p k q \<Longrightarrow> R k (mn_type (g_nodes g p)) (mn_type (g_nodes g q)) \<Longrightarrow> fits f b L g p k (S (mn_type (g_nodes g p)))"
  shows "node_fits f b L g p (R(k := S))"
proof -
  obtain q where q: "operand_of b L g p k q" "R k (mn_type (g_nodes g p)) (mn_type (g_nodes g q))" using ready_operand[OF r k] .
  obtain g' L' where g': "f g = Some g'" "operand_edit (Some b) L g p k (S (mn_type (g_nodes g p))) L' g'"
    using f[OF q] unfolding fits_def by blast
  have "ops_ok L' g' (R(k := S)) p"
    using operand_edit_ops[OF readyD(3)[OF r], where S = "\<lambda>_. S", OF g'(2)] .
  then show ?thesis using g' operand_node_edit unfolding node_fits_def by blast
qed

lemma many_operands:
  assumes r: "ready b L g p R" and dis: "distinct is" "\<forall>i \<in> set is. i < numOperands (g_nodes g) p"
    and f: "\<And>L g' i q. operand_of b L g' p i q \<Longrightarrow> mn_type (g_nodes g' p) = mn_type (g_nodes g p) \<Longrightarrow> i \<in> set is \<Longrightarrow>
       R i (mn_type (g_nodes g p)) (mn_type (g_nodes g' q)) \<Longrightarrow> fits (f i) b L g' p i (S i (mn_type (g_nodes g p)))"
  shows "node_fits (mfold f is) b L g p (\<lambda>i. if i \<in> set is then S i else R i)"
proof -
  let ?R = "\<lambda>i. if i \<in> set is then R i else (\<lambda>_ _. False)"
  have a: "adjusts (Some b) p (mn_type (g_nodes g p)) ?R S f"
    unfolding adjusts_def using f unfolding operand_of_def at_ins_def fits_def by (auto split: if_splits)
  have b: "\<forall>c. Some b = Some c \<longrightarrow> mn_block (g_nodes g p) = Some b \<and> placed g p" "mn_op (g_nodes g p) \<noteq> Op_Unbox"
    using readyD(2)[OF r] by (simp_all add: at_ins_def)
  have c: "\<forall>i \<in> set is. i < numOperands (g_nodes g) p \<and> R i = ?R i" using dis(2) by simp
  show ?thesis
    using adjust_loop[OF a readyD(1,3)[OF r] b(2) refl b(1) dis(1) c] unfolding node_fits_def by blast
qed

lemma many_to:
  assumes r: "ready b L g p R" and dis: "distinct is" "\<forall>i \<in> set is. i < numOperands (g_nodes g) p"
    and f: "\<And>L g' i q. operand_of b L g' p i q \<Longrightarrow> mn_type (g_nodes g' p) = mn_type (g_nodes g p) \<Longrightarrow> i \<in> set is \<Longrightarrow>
       R i (mn_type (g_nodes g p)) (mn_type (g_nodes g' q)) \<Longrightarrow> fits (f i) b L g' p i (T i (mn_type (g_nodes g p)))"
    and rest: "\<And>i v. i \<notin> set is \<Longrightarrow> i < numOperands (g_nodes g) p \<Longrightarrow> R i (mn_type (g_nodes g p)) v \<Longrightarrow> T i (mn_type (g_nodes g p)) v"
  shows "node_fits (mfold f is) b L g p T"
  using node_fits_conv[OF many_operands[OF r dis, of f T] ops_okD(1)[OF readyD(3)[OF r]], of T] f rest by (auto split: if_splits)

lemma node_fits_seq:
  assumes r: "ready b L g p R" and f: "node_fits f b L g p S"
    and h: "\<And>L' g'. ready b L' g' p S \<Longrightarrow> mn_type (g_nodes g' p) = mn_type (g_nodes g p) \<Longrightarrow>
      numOperands (g_nodes g') p = numOperands (g_nodes g) p \<Longrightarrow> node_fits h b L' g' p T"
  shows "node_fits (\<lambda>g. f g \<bind> h) b L g p T"
proof -
  obtain g1 L1 where g1: "f g = Some g1" "node_edit (Some b) L g p L1 g1" "ops_ok L1 g1 S p" using f unfolding node_fits_def by blast
  obtain g2 L2 where g2: "h g1 = Some g2" "node_edit (Some b) L1 g1 p L2 g2" "ops_ok L2 g2 T p"
    using h[OF ready_after[OF r g1(2,3)]] unfolding node_fits_def by blast
  then show ?thesis using g1(1) node_edit_trans[OF g1(2) g2(2)] unfolding node_fits_def by auto
qed

subsection \<open>The policies\<close>

lemma ready_less: "ready b L g p R \<Longrightarrow> p < g_nextNode g"
  using readyD(3) ops_okD(1) by blast

lemma BoxInputs_node:
  assumes r: "ready b L g p R"
  shows "node_fits (BoxInputs_adjust p) b L g p (\<lambda>i u v. v = MIRType_Value)"
proof -
  have "node_fits (mfold (boxInputs_at p) [0..<numOperands (g_nodes g) p]) b L g p (\<lambda>i u v. v = MIRType_Value)"
    by (rule many_to[OF r distinct_upt]) (simp_all add: boxInputs_fits)
  then show ?thesis unfolding node_fits_def by (simp add: BoxInputs_adjust_def)
qed

lemma BoxInputs_to:
  assumes r: "ready b L g p R" and w: "\<And>i u. T i u MIRType_Value"
  shows "node_fits (BoxInputs_adjust p) b L g p T"
  by (rule node_fits_conv[OF BoxInputs_node[OF r] ready_less[OF r]]) (simp add: w)

lemma Arith_node:
  assumes r: "ready b L g p (takes (ArithPolicy s))" and n: "numOperands (g_nodes g) p \<noteq> 0"
  shows "node_fits (Arith_adjust s p) b L g p (wants (ArithPolicy s))"
proof (cases "s = MIRType_None")
  case True
  then have "node_fits (BoxInputs_adjust p) b L g p (wants (ArithPolicy s))" by (intro BoxInputs_to[OF r]) simp
  then show ?thesis by (simp add: node_fits_def Arith_adjust_def True)
next
  case False
  have t: "mn_type (g_nodes g p) \<in> {MIRType_Double, MIRType_Int32}"
    using ready_operand[OF r, of 0] n False by auto
  have "node_fits (mfold (Arith_at s p) [0..<numOperands (g_nodes g) p]) b L g p (wants (ArithPolicy s))"
  proof (rule many_to[OF r distinct_upt])
    fix L g' i q assume o: "operand_of b L g' p i q" "mn_type (g_nodes g' p) = mn_type (g_nodes g p)"
    then show "fits (Arith_at s p i) b L g' p i (wants (ArithPolicy s) i (mn_type (g_nodes g p)))"
      by (intro fits_mono[OF Arith_fits[OF o(1)]]) (use t False in simp_all)
  qed simp_all
  then show ?thesis using t False by (auto simp: node_fits_def Arith_adjust_def)
qed

lemma BinaryString_node:
  assumes r: "ready b L g p R" and n: "2 \<le> numOperands (g_nodes g) p"
  shows "node_fits (mfold (BinaryString_at p) [0..<2]) b L g p (wants BinaryStringPolicy)"
proof (rule many_to[OF r distinct_upt])
  fix L g' i q assume o: "operand_of b L g' p i q"
  then show "fits (BinaryString_at p i) b L g' p i (wants BinaryStringPolicy i (mn_type (g_nodes g p)))"
    by (intro fits_mono[OF BinaryString_fits[OF o(1)]]) simp
qed (use n in auto)

lemma Compare_node:
  assumes r: "ready b L g p (takes (ComparePolicy s))" and n: "2 \<le> numOperands (g_nodes g) p"
  shows "node_fits (Compare_adjust s p) b L g p (wants (ComparePolicy s))"
proof -
  consider "s = MIRType_None" | "s = MIRType_Null \<or> s = MIRType_Undefined"
    | "s \<notin> {MIRType_None, MIRType_Null, MIRType_Undefined}" by blast
  then show ?thesis
  proof cases
    case 1
    then have "node_fits (BoxInputs_adjust p) b L g p (wants (ComparePolicy s))" by (intro BoxInputs_to[OF r]) simp
    then show ?thesis by (simp add: node_fits_def Compare_adjust_def 1)
  next
    case 2
    have "node_fits (boxInputs_at p 0) b L g p ((takes (ComparePolicy s))(0 := (\<lambda>u v. v = MIRType_Value)))"
      using n boxInputs_fits by (intro one_operand[OF r]) simp_all
    then have "node_fits (boxInputs_at p 0) b L g p (wants (ComparePolicy s))"
      by (rule node_fits_conv[OF _ ready_less[OF r]]) (use 2 in auto)
    then show ?thesis using 2 by (auto simp: node_fits_def Compare_adjust_def)
  next
    case 3
    have "node_fits (mfold (Compare_at s p) [0..<2]) b L g p (wants (ComparePolicy s))"
    proof (rule many_to[OF r distinct_upt])
      fix L g' i q assume o: "operand_of b L g' p i q" "i \<in> set [0..<2]"
        "takes (ComparePolicy s) i (mn_type (g_nodes g p)) (mn_type (g_nodes g' q))"
      then have "i < 2" by simp
      then show "fits (Compare_at s p i) b L g' p i (wants (ComparePolicy s) i (mn_type (g_nodes g p)))"
        by (intro fits_mono[OF Compare_fits[OF o(1,3) _ 3]]) (use 3 in auto)
    qed (use n 3 in auto)
    then show ?thesis using 3 by (simp add: node_fits_def Compare_adjust_def)
  qed
qed

lemma Bitwise_node:
  assumes r: "ready b L g p R"
  shows "node_fits (Bitwise_adjust s p) b L g p (wants (BitwisePolicy s))"
proof (cases "s = MIRType_None")
  case True
  then have "node_fits (BoxInputs_adjust p) b L g p (wants (BitwisePolicy s))" by (intro BoxInputs_to[OF r]) simp
  then show ?thesis by (simp add: node_fits_def Bitwise_adjust_def True)
next
  case False
  have "node_fits (mfold (Bitwise_at p) [0..<numOperands (g_nodes g) p]) b L g p (wants (BitwisePolicy s))"
  proof (rule many_to[OF r distinct_upt])
    fix L g' i q assume o: "operand_of b L g' p i q" "mn_type (g_nodes g' p) = mn_type (g_nodes g p)"
    then show "fits (Bitwise_at p i) b L g' p i (wants (BitwisePolicy s) i (mn_type (g_nodes g p)))"
      by (intro fits_mono[OF Bitwise_fits[OF o(1)]]) (use False in auto)
  qed simp_all
  then show ?thesis using False by (simp add: node_fits_def Bitwise_adjust_def)
qed

lemma static_node:
  assumes r: "ready b L g p R" and n: "sp_index sp < numOperands (g_nodes g) p"
    and R: "\<And>u v. R (sp_index sp) u v \<Longrightarrow> sp_takes sp v"
  shows "node_fits (static_adjust sp p) b L g p (R(sp_index sp := (\<lambda>u. sp_wants sp)))"
  by (rule one_operand[OF r n]) (use static_fits R in blast)


lemma one_to:
  assumes r: "ready b L g p R" and k: "k < numOperands (g_nodes g) p"
    and f: "\<And>q. operand_of b L g p k q \<Longrightarrow> R k (mn_type (g_nodes g p)) (mn_type (g_nodes g q)) \<Longrightarrow> fits f b L g p k (T k (mn_type (g_nodes g p)))"
    and rest: "\<And>i v. i \<noteq> k \<Longrightarrow> R i (mn_type (g_nodes g p)) v \<Longrightarrow> T i (mn_type (g_nodes g p)) v"
  shows "node_fits f b L g p T"
  using node_fits_conv[OF one_operand[OF r k, of f "T k"] ready_less[OF r], of T] f rest by (auto split: if_splits)

lemma Mix_node:
  assumes r: "ready b L g p (takes (MixPolicy x y))" and n: "policy_arity (MixPolicy x y) \<le> numOperands (g_nodes g) p"
    and d: "sp_index x \<noteq> sp_index y"
  shows "node_fits (\<lambda>g. static_adjust x p g \<bind> static_adjust y p) b L g p (wants (MixPolicy x y))"
proof (rule node_fits_seq[OF r static_node[OF r, of x]])
  show "sp_index x < numOperands (g_nodes g) p" using n by simp
  show "takes (MixPolicy x y) (sp_index x) u v \<Longrightarrow> sp_takes x v" for u v by simp
  fix L' g'
  let ?S = "(takes (MixPolicy x y))(sp_index x := (\<lambda>u. sp_wants x))"
  assume r': "ready b L' g' p ?S" and "numOperands (g_nodes g') p = numOperands (g_nodes g) p"
  then have k: "sp_index y < numOperands (g_nodes g') p" using n by simp
  show "node_fits (static_adjust y p) b L' g' p (wants (MixPolicy x y))"
  proof (rule one_to[OF r' k])
    fix q assume o: "operand_of b L' g' p (sp_index y) q" "?S (sp_index y) (mn_type (g_nodes g' p)) (mn_type (g_nodes g' q))"
    then have "sp_takes y (mn_type (g_nodes g' q))" using d by simp
    from static_fits[OF o(1) this]
    show "fits (static_adjust y p) b L' g' p (sp_index y) (wants (MixPolicy x y) (sp_index y) (mn_type (g_nodes g' p)))"
      by (rule fits_mono) (use d in simp)
  qed (auto split: if_splits)
qed

lemma CallSetElement_node:
  assumes r: "ready b L g p R" and n: "0 < numOperands (g_nodes g) p"
  shows "node_fits (CallSetElement_adjust p) b L g p (wants CallSetElementPolicy)"
proof -
  let ?S = "R(sp_index (ObjectPolicy 0) := (\<lambda>u. sp_wants (ObjectPolicy 0)))"
  let ?h = "\<lambda>g. mfold (boxInputs_at p) [1..<numOperands (g_nodes g) p] g"
  have "node_fits (\<lambda>g. static_adjust (ObjectPolicy 0) p g \<bind> ?h) b L g p (wants CallSetElementPolicy)"
  proof (rule node_fits_seq[OF r static_node[OF r, of "ObjectPolicy 0"]])
    show "sp_index (ObjectPolicy 0) < numOperands (g_nodes g) p" using n by simp
    show "sp_takes (ObjectPolicy 0) v" for v by simp
    fix L' g'
    assume r': "ready b L' g' p ?S"
    have "node_fits (mfold (boxInputs_at p) [1..<numOperands (g_nodes g') p]) b L' g' p (wants CallSetElementPolicy)"
    proof (rule many_to[OF r' distinct_upt])
      fix L'' g'' i q assume o: "operand_of b L'' g'' p i q" "i \<in> set [1..<numOperands (g_nodes g') p]"
      show "fits (boxInputs_at p i) b L'' g'' p i (wants CallSetElementPolicy i (mn_type (g_nodes g' p)))"
        by (rule fits_mono[OF boxInputs_fits[OF o(1)]]) (use o(2) in simp)
    qed auto
    then show "node_fits ?h b L' g' p (wants CallSetElementPolicy)" by (simp add: node_fits_def)
  qed
  then show ?thesis by (simp add: node_fits_def CallSetElement_adjust_def)
qed

lemma StoreTypedArray_node:
  assumes r: "ready b L g p (takes (StoreTypedArrayPolicy at))" and n: "3 \<le> numOperands (g_nodes g) p"
  shows "node_fits (StoreTypedArray_adjust at p) b L g p (wants (StoreTypedArrayPolicy at))"
proof -
  let ?T = "takes (StoreTypedArrayPolicy at)"
  let ?P = "\<lambda>v. v \<in> {MIRType_Int32, MIRType_Boolean, MIRType_Double, MIRType_Value} \<and> (at = TYPE_UINT8_CLAMPED \<longrightarrow> v = MIRType_Int32)"
  obtain e where e: "operand_of b L g p 0 e" "mn_type (g_nodes g e) = MIRType_Elements" using ready_operand[OF r, of 0] n by auto
  obtain j where j: "operand_of b L g p 1 j" "mn_type (g_nodes g j) = MIRType_Int32" using ready_operand[OF r, of 1] n by auto
  obtain q where at: "at \<le> TYPE_UINT8_CLAMPED" using ready_operand[OF r, of 2] n by auto
  have k: "2 < numOperands (g_nodes g) p" using n by simp
  have "node_fits (\<lambda>g. StoreTypedArray_value p g \<bind> StoreTypedArray_convert at p) b L g p (wants (StoreTypedArrayPolicy at))"
  proof (rule node_fits_seq[OF r])
    show "node_fits (StoreTypedArray_value p) b L g p (?T(2 := (\<lambda>u. ?P)))"
      by (rule one_operand[OF r k]) (rule StoreTypedArray_value_fits)
    fix L' g' assume r': "ready b L' g' p (?T(2 := (\<lambda>u. ?P)))" and nn: "numOperands (g_nodes g') p = numOperands (g_nodes g) p"
    show "node_fits (StoreTypedArray_convert at p) b L' g' p (wants (StoreTypedArrayPolicy at))"
    proof (rule one_to[OF r'])
      show "2 < numOperands (g_nodes g') p" using n nn by simp
      fix x assume o: "operand_of b L' g' p 2 x" "(?T(2 := (\<lambda>u. ?P))) 2 (mn_type (g_nodes g' p)) (mn_type (g_nodes g' x))"
      have t: "mn_type (g_nodes g' x) \<in> {MIRType_Int32, MIRType_Boolean, MIRType_Double, MIRType_Value}"
        "at = TYPE_UINT8_CLAMPED \<longrightarrow> mn_type (g_nodes g' x) = MIRType_Int32" using o(2) by simp_all
      show "fits (StoreTypedArray_convert at p) b L' g' p 2 (wants (StoreTypedArrayPolicy at) 2 (mn_type (g_nodes g' p)))"
        by (rule fits_mono[OF StoreTypedArray_convert_fits[OF o(1) at t]]) simp
    qed auto
  qed
  then show ?thesis
    using operand_ofD(4)[OF e(1)] operand_ofD(4)[OF j(1)] e(2) j(2) by (simp add: node_fits_def StoreTypedArray_adjust_def)
qed

lemma adjustInputs_ok:
  assumes r: "ready b L g ins (takes p)" and n: "policy_arity p \<le> numOperands (g_nodes g) ins" "numOperands (g_nodes g) ins \<noteq> 0"
    and wf: "policy_wf p"
  shows "node_fits (adjustInputs p ins) b L g ins (wants p)"
proof (cases p)
  case BoxInputsPolicy
  then show ?thesis using BoxInputs_to[OF r, of "wants p"] by (simp add: node_fits_def)
next
  case (ArithPolicy s)
  then show ?thesis using Arith_node[OF r[unfolded ArithPolicy] n(2)] by (simp add: node_fits_def)
next
  case BinaryStringPolicy
  then show ?thesis using BinaryString_node[OF r] n by (simp add: node_fits_def)
next
  case (BitwisePolicy s)
  then show ?thesis using Bitwise_node[OF r] by (simp add: node_fits_def)
next
  case TableSwitchPolicy
  have "node_fits (TableSwitch_adjust ins) b L g ins (wants TableSwitchPolicy)"
    by (rule one_to[OF r, of 0]) (use n TableSwitchPolicy in \<open>auto intro: fits_mono[OF TableSwitch_fits]\<close>)
  then show ?thesis using TableSwitchPolicy by (simp add: node_fits_def)
next
  case (ComparePolicy s)
  then show ?thesis using Compare_node[OF r[unfolded ComparePolicy]] n by (simp add: node_fits_def)
next
  case TestPolicy
  have "node_fits (Test_adjust ins) b L g ins (wants TestPolicy)"
    by (rule one_to[OF r, of 0]) (use n TestPolicy Test_fits in auto)
  then show ?thesis using TestPolicy by (simp add: node_fits_def)
next
  case CallPolicy
  have "node_fits (Call_adjust ins) b L g ins (wants CallPolicy)"
  proof (rule one_to[OF r, of 1])
    fix q assume o: "operand_of b L g ins 1 q"
    show "fits (Call_adjust ins) b L g ins 1 (wants CallPolicy 1 (mn_type (g_nodes g ins)))"
      by (rule fits_mono[OF Call_fits[OF o]]) simp
  qed (use n CallPolicy in auto)
  then show ?thesis using CallPolicy by (simp add: node_fits_def)
next
  case (StaticPolicy s)
  have "node_fits (static_adjust s ins) b L g ins (wants p)"
    by (rule node_fits_conv[OF static_node[OF r] ready_less[OF r]]) (use n StaticPolicy in \<open>auto split: if_splits\<close>)
  then show ?thesis using StaticPolicy by (simp add: node_fits_def)
next
  case (MixPolicy x y)
  then show ?thesis using Mix_node[OF r[unfolded MixPolicy]] n wf by (simp add: node_fits_def)
next
  case CallSetElementPolicy
  then show ?thesis using CallSetElement_node[OF r] n by (simp add: node_fits_def)
next
  case (StoreTypedArrayPolicy at)
  then show ?thesis using StoreTypedArray_node[OF r[unfolded StoreTypedArrayPolicy]] n by (simp add: node_fits_def)
next
  case ClampPolicy
  have "node_fits (Clamp_adjust ins) b L g ins (wants ClampPolicy)"
    by (rule one_to[OF r, of 0]) (use n ClampPolicy Clamp_fits in auto)
  then show ?thesis using ClampPolicy by (simp add: node_fits_def)
next
  case (SimplePolicy s)
  show ?thesis
  proof (cases s)
    case True
    have "node_fits (adjustInputs p ins) b L g ins (takes p)" by (rule node_fits_skip[OF r]) (simp add: SimplePolicy True)
    then show ?thesis by (rule node_fits_conv[OF _ ready_less[OF r]]) (simp add: SimplePolicy True)
  next
    case False
    then show ?thesis using BoxInputs_to[OF r, of "wants p"] SimplePolicy by (simp add: node_fits_def)
  qed
qed


subsection \<open>The instructions of a block\<close>

definition policy_of :: "(nat \<Rightarrow> policy_attrs) \<Rightarrow> mir_graph \<Rightarrow> nat \<Rightarrow> type_policy option" where
  "policy_of A g n = op_policy (A n) (mn_op (g_nodes g n))"

text \<open>Before and after the policy of an instruction.\<close>

definition ins_ok :: "(nat \<Rightarrow> policy_attrs) \<Rightarrow> (nat \<times> nat) set \<Rightarrow> mir_graph \<Rightarrow> nat \<Rightarrow> bool" where
  "ins_ok A L g n \<longleftrightarrow> placed g n \<and> (\<forall>p. policy_of A g n = Some p \<longrightarrow>
     policy_arity p \<le> numOperands (g_nodes g) n \<and> numOperands (g_nodes g) n \<noteq> 0 \<and> ops_ok L g (takes p) n)"

definition accepted :: "(nat \<Rightarrow> policy_attrs) \<Rightarrow> (nat \<times> nat) set \<Rightarrow> mir_graph \<Rightarrow> nat \<Rightarrow> bool" where
  "accepted A L g n \<longleftrightarrow> (\<forall>p. policy_of A g n = Some p \<longrightarrow> ops_ok L g (wants p) n)"

text \<open>The pass runs on a graph whose addresses from \<open>N\<close> on were free: a later node it meets in a list is a
  box, a constant or a conversion to double, and left alone.\<close>

definition visitable :: "nat \<Rightarrow> (nat \<Rightarrow> policy_attrs) \<Rightarrow> (nat \<times> nat) set \<Rightarrow> mir_graph \<Rightarrow> nat \<Rightarrow> nat \<Rightarrow> bool" where
  "visitable N A L g b n \<longleftrightarrow> (if n < N then ins_ok A L g n \<and> mn_block (g_nodes g n) = Some b
     else mn_op (g_nodes g n) \<in> {Op_Box, Op_ToDouble, Op_Constant} \<and> at_specialized (A n) \<and> n < g_nextNode g)"

definition adjusted :: "nat \<Rightarrow> (nat \<Rightarrow> policy_attrs) \<Rightarrow> mir_graph \<Rightarrow> nat set \<Rightarrow> nat set" where
  "adjusted N A g X = {n \<in> X. n < N \<and> policy_of A g n \<noteq> None}"

lemma policy_of_frame: "conv_frame g g' \<Longrightarrow> n < g_nextNode g \<Longrightarrow> policy_of A g' n = policy_of A g n"
  using conv_frameD(2) by (simp add: policy_of_def)

lemma ins_ok_edit:
  assumes e: "edit L g X L' g'" and i: "ins_ok A L g n" and n: "policy_of A g n \<noteq> None \<Longrightarrow> n \<notin> X"
  shows "ins_ok A L' g' n"
proof -
  note fr = editD(2)[OF e]
  have pl: "placed g n" "n < g_nextNode g" using i placed_less by (auto simp: ins_ok_def)
  have "policy_arity p \<le> numOperands (g_nodes g') n \<and> numOperands (g_nodes g') n \<noteq> 0 \<and> ops_ok L' g' (takes p) n"
    if "policy_of A g n = Some p" for p
    using i that n ops_ok_edit[OF e, of "takes p" n] conv_frameD(4)[OF fr pl(2)] by (simp add: ins_ok_def)
  then show ?thesis using placed_frame[OF fr pl(1)] policy_of_frame[OF fr pl(2)] by (simp add: ins_ok_def)
qed

lemma accepted_edit:
  assumes e: "edit L g X L' g'" and a: "accepted A L g n" and n: "policy_of A g n \<noteq> None \<Longrightarrow> n \<notin> X" "n < g_nextNode g"
  shows "accepted A L' g' n"
  using a n(1) ops_ok_edit[OF e] policy_of_frame[OF editD(2)[OF e] n(2)] by (auto simp: accepted_def)

lemma visitable_edit:
  assumes e: "edit L g X L' g'" and v: "visitable N A L g b n" and n: "n < N \<Longrightarrow> policy_of A g n \<noteq> None \<Longrightarrow> n \<notin> X"
  shows "visitable N A L' g' b n"
proof (cases "n < N")
  case True
  then have i: "ins_ok A L g n" "mn_block (g_nodes g n) = Some b" using v by (simp_all add: visitable_def)
  then have "n < g_nextNode g" using placed_less by (simp add: ins_ok_def)
  then show ?thesis using True i ins_ok_edit[OF e i(1) n[OF True]] conv_frameD(3)[OF editD(2)[OF e]] by (simp add: visitable_def)
next
  case False
  then show ?thesis using v conv_frameD(2,6)[OF editD(2)[OF e]] by (auto simp: visitable_def)
qed

lemma at_insI: "ins_ok A L g n \<Longrightarrow> mn_block (g_nodes g n) = Some b \<Longrightarrow> policy_of A g n \<noteq> None \<Longrightarrow> at_ins g n b"
  by (auto simp: ins_ok_def at_ins_def policy_of_def)

lemma adjust_one:
  assumes s: "store_ok L g" and v: "visitable N A L g b n"
  shows "\<exists>g' L'. TypeAnalyzer_adjustInputs A n g = Some g' \<and> edit L g (adjusted N A g {n}) L' g' \<and> grow (Some b) g g' \<and>
    same_phis g g' \<and> (n < N \<longrightarrow> accepted A L' g' n)"
proof (cases "n < N \<and> policy_of A g n \<noteq> None")
  case True
  then obtain p where p: "policy_of A g n = Some p" by blast
  have i: "ins_ok A L g n" "mn_block (g_nodes g n) = Some b" using v True by (simp_all add: visitable_def)
  have r: "ready b L g n (takes p)" using s at_insI[OF i] p i(1) by (simp add: ready_def ins_ok_def)
  obtain g' L' where g': "adjustInputs p n g = Some g'" "node_edit (Some b) L g n L' g'" "ops_ok L' g' (wants p) n"
    using adjustInputs_ok[OF r] i(1) p op_policy_wf[of "A n"] unfolding node_fits_def ins_ok_def policy_of_def by blast
  have ed: "edit L g {n} L' g'" using g'(2) by (simp add: node_edit_def)
  have "policy_of A g' n = Some p" using policy_of_frame[OF editD(2)[OF ed] ready_less[OF r]] p by simp
  then have "accepted A L' g' n" using g'(3) by (simp add: accepted_def)
  moreover have "adjusted N A g {n} = {n}" using True by (auto simp: adjusted_def)
  moreover have "TypeAnalyzer_adjustInputs A n g = Some g'" using g'(1) p by (simp add: TypeAnalyzer_adjustInputs_def policy_of_def)
  ultimately show ?thesis using g'(2) by (auto simp: node_edit_def)
next
  case False
  have "op_policy (A n) (mn_op (g_nodes g n)) \<in> {None, Some (SimplePolicy True)}"
    using False v by (auto simp: visitable_def policy_of_def)
  then have "TypeAnalyzer_adjustInputs A n g = Some g" by (auto simp: TypeAnalyzer_adjustInputs_def)
  moreover have "n < N \<longrightarrow> accepted A L g n" using False by (auto simp: accepted_def)
  ultimately show ?thesis using edit_refl[OF s] grow_refl by (intro exI[of _ g] exI[of _ L]) (simp add: same_phis_def)
qed

lemma adjusted_frame:
  "conv_frame g g' \<Longrightarrow> \<forall>n \<in> X. n < g_nextNode g \<Longrightarrow> adjusted N A g' X = adjusted N A g X"
  using policy_of_frame by (auto simp: adjusted_def)

lemma visitable_less: "visitable N A L g b n \<Longrightarrow> n < g_nextNode g"
  using placed_less by (auto simp: visitable_def ins_ok_def split: if_splits)

lemma adjust_block:
  "store_ok L g \<Longrightarrow> distinct xs \<Longrightarrow> \<forall>n \<in> set xs. visitable N A L g b n \<Longrightarrow>
   \<exists>g' L'. mfold (TypeAnalyzer_adjustInputs A) xs g = Some g' \<and> edit L g (adjusted N A g (set xs)) L' g' \<and> grow (Some b) g g' \<and>
     same_phis g g' \<and> (\<forall>n \<in> set xs. n < N \<longrightarrow> accepted A L' g' n)"
proof (induction xs arbitrary: L g)
  case Nil
  then show ?case using edit_refl[OF Nil.prems(1)] grow_refl by (intro exI[of _ g] exI[of _ L]) (simp add: same_phis_def)
next
  case (Cons x xs)
  obtain g1 L1 where g1: "TypeAnalyzer_adjustInputs A x g = Some g1" "edit L g (adjusted N A g {x}) L1 g1" "grow (Some b) g g1"
    "same_phis g g1" "x < N \<longrightarrow> accepted A L1 g1 x"
    using adjust_one[OF Cons.prems(1), of N A b x] Cons.prems(3) by auto
  note fr1 = editD(2)[OF g1(2)]
  have vis: "visitable N A L1 g1 b n" if "n \<in> set xs" for n
    using visitable_edit[OF g1(2), of N A b n] Cons.prems(2,3) that by (auto simp: adjusted_def)
  obtain g2 L2 where g2: "mfold (TypeAnalyzer_adjustInputs A) xs g1 = Some g2" "edit L1 g1 (adjusted N A g1 (set xs)) L2 g2"
    "grow (Some b) g1 g2" "same_phis g1 g2" "\<forall>n \<in> set xs. n < N \<longrightarrow> accepted A L2 g2 n"
    using Cons.IH[OF editD(1)[OF g1(2)]] vis Cons.prems(2) by auto
  have less: "\<forall>n \<in> set (x # xs). n < g_nextNode g" using Cons.prems(3) visitable_less by blast
  then have adj: "adjusted N A g1 (set xs) = adjusted N A g (set xs)" using adjusted_frame[OF fr1] by simp
  have "edit L g (adjusted N A g (set (x # xs))) L2 g2"
    by (rule edit_trans[OF edit_mono[OF g1(2)] edit_mono[OF g2(2)[unfolded adj]]]) (auto simp: adjusted_def)
  moreover have "x < N \<longrightarrow> accepted A L2 g2 x"
    using accepted_edit[OF g2(2)] g1(5) Cons.prems(2) less conv_frameD(6)[OF fr1] by (auto simp: adjusted_def)
  moreover have "grow (Some b) g g2" by (rule grow_trans[OF g1(3) fr1 g2(3) editD(2)[OF g2(2)]])
  ultimately show ?case using g1(1,4) g2(1,4,5) by (intro exI[of _ g2] exI[of _ L2]) (simp add: same_phis_def)
qed

end
