(* ===== verification/Type_Analysis.thy ===== *)
theory Type_Analysis
  imports Type_Policies
begin

text \<open>
  The whole type analysis of a graph (\<open>TypeAnalyzer::analyze\<close> in \<open>ion/IonAnalysis.cpp\<close>).
\<close>

subsection \<open>All blocks\<close>

text \<open>
  \<open>pcs\<close> and \<open>ics\<close> are the blocks whose phis and whose instructions are still to be looked at, \<open>F\<close> the blocks
  whose phis are done and \<open>E\<close> the instructions that are.
\<close>

definition pass_inv ::
  "nat \<Rightarrow> (nat \<Rightarrow> policy_attrs) \<Rightarrow> (nat \<times> nat) set \<Rightarrow> mir_graph \<Rightarrow> nat set \<Rightarrow> nat set \<Rightarrow> nat list \<Rightarrow> nat list \<Rightarrow> nat set \<Rightarrow> nat set \<Rightarrow> bool" where
  "pass_inv N A L g P D pcs ics F E \<longleftrightarrow> conv_inv L g P D \<and> own_phis g \<and> N \<le> g_nextNode g \<and>
     (\<forall>c \<in> set pcs. set (bl_phis (g_blocks g c)) \<subseteq> P - D) \<and>
     (\<forall>c \<in> set ics. \<forall>n \<in> set (bl_instructions (g_blocks g c)). visitable N A L g c n) \<and>
     (\<forall>c \<in> F. c \<notin> set pcs \<and> (\<forall>p \<in> set (bl_phis (g_blocks g c)). p \<in> P \<and> p \<in> D \<and> \<not> redundant_type g p)) \<and>
     (\<forall>n \<in> E. n < N \<and> accepted A L g n \<and> (\<forall>c \<in> set ics. mn_block (g_nodes g n) \<noteq> Some c))"

lemma pass_invD:
  assumes "pass_inv N A L g P D pcs ics F E"
  shows "conv_inv L g P D" "own_phis g" "N \<le> g_nextNode g" "c \<in> set pcs \<Longrightarrow> set (bl_phis (g_blocks g c)) \<subseteq> P - D"
    "c \<in> set ics \<Longrightarrow> n \<in> set (bl_instructions (g_blocks g c)) \<Longrightarrow> visitable N A L g c n"
    "c \<in> F \<Longrightarrow> c \<notin> set pcs" "c \<in> F \<Longrightarrow> p \<in> set (bl_phis (g_blocks g c)) \<Longrightarrow> p \<in> P \<and> p \<in> D \<and> \<not> redundant_type g p"
    "n \<in> E \<Longrightarrow> n < N \<and> accepted A L g n \<and> (\<forall>c \<in> set ics. mn_block (g_nodes g n) \<noteq> Some c)"
  using assms unfolding pass_inv_def by blast+

lemma phi_no_policy: "phi_ok L g T p \<Longrightarrow> policy_of A g p = None"
  by (simp add: phi_ok_def isPhi_def policy_of_def)

text \<open>The instructions of a pending block after an edit that leaves them alone.\<close>

lemma visitable_grow:
  assumes e: "edit L g X L' g'" and gr: "grow B g g'" "Some c \<noteq> B" and N: "N \<le> g_nextNode g" "\<forall>n \<ge> N. at_specialized (A n)"
    and old: "\<And>n. n \<in> set (bl_instructions (g_blocks g c)) \<Longrightarrow> visitable N A L g c n \<and> (n < N \<longrightarrow> policy_of A g n \<noteq> None \<longrightarrow> n \<notin> X)"
    and n: "n \<in> set (bl_instructions (g_blocks g' c))"
  shows "visitable N A L' g' c n"
proof -
  consider "n \<in> set (bl_instructions (g_blocks g c))"
    | "g_nextNode g \<le> n" "n < g_nextNode g'" "mn_op (g_nodes g' n) \<in> {Op_Box, Op_ToDouble, Op_Constant}"
    using gr n unfolding grow_def by blast
  then show ?thesis
  proof cases
    case 1
    then show ?thesis using visitable_edit[OF e, of N A c n] old[OF 1] by blast
  next
    case 2
    then show ?thesis using N by (simp add: visitable_def)
  qed
qed

lemma own_phis_apart: "own_phis g \<Longrightarrow> p \<in> set (bl_phis (g_blocks g c)) \<Longrightarrow> p \<in> set (bl_phis (g_blocks g b)) \<Longrightarrow> c = b"
  unfolding own_phis_def by (metis option.inject)

lemma pass_phis:
  assumes i: "pass_inv N A L g P D (b # cs) (b # cs) F E" and d: "b \<notin> set cs" and A: "\<forall>n \<ge> N. at_specialized (A n)"
  shows "\<exists>g' L' P' D'. mfold (convertPhi b) (bl_phis (g_blocks g b)) g = Some g' \<and> conv_frame g g' \<and>
    (\<forall>c. set (bl_phis (g_blocks g' c)) \<subseteq> set (bl_phis (g_blocks g c))) \<and> pass_inv N A L' g' P' D' cs (b # cs) (insert b F) E"
proof -
  note v = pass_invD[OF i]
  let ?ps = "bl_phis (g_blocks g b)"
  let ?P = "P - {q \<in> set ?ps. redundant_type g q}" and ?D = "D \<union> set ?ps"
  have sub: "set ?ps \<subseteq> P - D" using v(4)[of b] by simp
  obtain g' L' where g': "mfold (convertPhi b) ?ps g = Some g'" "conv_done L ?ps g P D L' g'" "own_phis g'"
    "\<forall>c. c \<noteq> b \<longrightarrow> bl_phis (g_blocks g' c) = bl_phis (g_blocks g c)"
    using convert_block_phis[OF v(1) sub v(2)] by blast
  note dn = g'(2)[unfolded conv_done_def]
  have ed: "edit L g (set ?ps) L' g'" and gr: "grow None g g'" using dn by blast+
  note fr = editD(2)[OF ed]
  have nophi: "policy_of A g n \<noteq> None \<Longrightarrow> n \<notin> set ?ps" for n
    using phi_no_policy[OF conv_invD(2)[OF v(1), of n], of A] sub by auto
  have other: "c \<noteq> b \<Longrightarrow> p \<in> set (bl_phis (g_blocks g c)) \<Longrightarrow> p \<notin> set ?ps" for c p
    using own_phis_apart[OF v(2)] by blast
  have "pass_inv N A L' g' ?P ?D cs (b # cs) (insert b F) E"
    unfolding pass_inv_def
  proof (intro conjI ballI)
    show "conv_inv L' g' ?P ?D" "own_phis g'" using dn g'(3) by blast+
    show "N \<le> g_nextNode g'" using v(3) conv_frameD(6)[OF fr] by simp
    fix c assume c: "c \<in> set cs"
    then have cb: "c \<noteq> b" using d by blast
    show "set (bl_phis (g_blocks g' c)) \<subseteq> ?P - ?D"
      using v(4)[of c] c g'(4) cb other[OF cb] by auto
  next
    fix c n assume c: "c \<in> set (b # cs)" "n \<in> set (bl_instructions (g_blocks g' c))"
    show "visitable N A L' g' c n"
      by (rule visitable_grow[OF ed gr _ v(3) A _ c(2)]) (use v(5)[OF c(1)] nophi in auto)
  next
    fix c assume c: "c \<in> insert b F"
    show "c \<notin> set cs" using c d v(6)[of c] by auto
    fix p assume p: "p \<in> set (bl_phis (g_blocks g' c))"
    have pg: "p \<in> set (bl_phis (g_blocks g c))" "\<not> (p \<in> set ?ps \<and> redundant_type g p)" using p dn by auto
    then have less: "p < g_nextNode g" using v(2) by (auto simp: own_phis_def)
    have "p \<in> ?P \<and> p \<in> ?D \<and> \<not> redundant_type g' p"
    proof (cases "c = b")
      case True
      then show ?thesis using pg sub redundant_type_frame[OF fr less] by auto
    next
      case False
      then have "p \<in> P \<and> p \<in> D \<and> \<not> redundant_type g p" using v(7) c pg(1) by blast
      then show ?thesis using redundant_type_frame[OF fr less] other[OF False pg(1)] by auto
    qed
    then show "p \<in> ?P" "p \<in> ?D" "\<not> redundant_type g' p" by simp_all
  next
    fix n assume n: "n \<in> E"
    note e = v(8)[OF n]
    then have less: "n < g_nextNode g" using v(3) by simp
    show "n < N" "accepted A L' g' n" using e accepted_edit[OF ed _ _ less] nophi by blast+
    fix c assume "c \<in> set (b # cs)"
    then show "mn_block (g_nodes g' n) \<noteq> Some c" using e conv_frameD(3)[OF fr less] by auto
  qed
  moreover have "set (bl_phis (g_blocks g' c)) \<subseteq> set (bl_phis (g_blocks g c))" for c using dn by auto
  ultimately show ?thesis using g'(1) fr by blast
qed

lemma pass_instructions:
  assumes i: "pass_inv N A L g P D cs (b # cs) F E" and d: "b \<notin> set cs" and A: "\<forall>n \<ge> N. at_specialized (A n)"
  shows "\<exists>g' L'. mfold (TypeAnalyzer_adjustInputs A) (bl_instructions (g_blocks g b)) g = Some g' \<and> conv_frame g g' \<and>
    same_phis g g' \<and> pass_inv N A L' g' P D cs cs F (E \<union> {n \<in> set (bl_instructions (g_blocks g b)). n < N})"
proof -
  note v = pass_invD[OF i]
  let ?xs = "bl_instructions (g_blocks g b)"
  let ?X = "adjusted N A g (set ?xs)"
  note s = conv_invD(1)[OF v(1)]
  have dis: "distinct ?xs" using store_okD(7)[OF s] by (simp add: lists_ok_def)
  have vis: "\<forall>n \<in> set ?xs. visitable N A L g b n" using v(5) by simp
  obtain g' L' where g': "mfold (TypeAnalyzer_adjustInputs A) ?xs g = Some g'" "edit L g ?X L' g'" "grow (Some b) g g'"
    "same_phis g g'" "\<forall>n \<in> set ?xs. n < N \<longrightarrow> accepted A L' g' n"
    using adjust_block[OF s dis vis] by blast
  note fr = editD(2)[OF g'(2)]
  have X: "n \<in> ?X \<Longrightarrow> mn_block (g_nodes g n) = Some b \<and> policy_of A g n \<noteq> None" for n
    using vis by (auto simp: adjusted_def visitable_def)
  have phi: "phi_ok L' g' (\<lambda>_. q \<in> D) q" if "q \<in> P" for q
    using phi_ok_edit[OF g'(2) conv_invD(2)[OF v(1) that]] X[of q] phi_no_policy[OF conv_invD(2)[OF v(1) that], of A] by auto
  have ph: "bl_phis (g_blocks g' c) = filter (\<lambda>q. q \<notin> {}) (bl_phis (g_blocks g c))" for c using g'(4) by (simp add: same_phis_def)
  have "pass_inv N A L' g' P D cs cs F (E \<union> {n \<in> set ?xs. n < N})"
    unfolding pass_inv_def
  proof (intro conjI ballI)
    show "conv_inv L' g' P D" by (rule conv_inv_step[OF v(1) fr editD(1)[OF g'(2)] ph]) (use phi in auto)
    show "own_phis g'" by (rule own_phis_filter[OF v(2) fr]) (simp add: ph)
    show "N \<le> g_nextNode g'" using v(3) conv_frameD(6)[OF fr] by simp
    show "c \<in> set cs \<Longrightarrow> set (bl_phis (g_blocks g' c)) \<subseteq> P - D" for c using v(4) by (simp add: ph)
    fix c assume c: "c \<in> F"
    show "c \<notin> set cs" using v(6)[OF c] .
    fix p assume "p \<in> set (bl_phis (g_blocks g' c))"
    then have p: "p \<in> set (bl_phis (g_blocks g c))" by (simp add: ph)
    then have "p < g_nextNode g" using v(2) by (auto simp: own_phis_def)
    then show "p \<in> P" "p \<in> D" "\<not> redundant_type g' p" using v(7)[OF c p] redundant_type_frame[OF fr] by simp_all
  next
    fix c n assume c: "c \<in> set cs" "n \<in> set (bl_instructions (g_blocks g' c))"
    have "m \<in> set (bl_instructions (g_blocks g c)) \<Longrightarrow> visitable N A L g c m \<and> (m < N \<longrightarrow> policy_of A g m \<noteq> None \<longrightarrow> m \<notin> ?X)" for m
      using v(5)[of c m] X[of m] c(1) d by (auto simp: visitable_def)
    then show "visitable N A L' g' c n"
      by (intro visitable_grow[OF g'(2,3) _ v(3) A _ c(2)]) (use c(1) d in auto)
  next
    fix n assume n: "n \<in> E \<union> {n \<in> set ?xs. n < N}"
    then have nN: "n < N" using v(8) by blast
    then have less: "n < g_nextNode g" using v(3) by simp
    show "n < N" by (rule nN)
    show "accepted A L' g' n"
    proof (cases "n \<in> set ?xs")
      case True
      then show ?thesis using g'(5) nN by blast
    next
      case False
      then have "accepted A L g n" "n \<notin> ?X" using n v(8)[of n] by (auto simp: adjusted_def)
      then show ?thesis using accepted_edit[OF g'(2) _ _ less] by blast
    qed
    fix c assume c: "c \<in> set cs"
    show "mn_block (g_nodes g' n) \<noteq> Some c"
      using n v(8)[of n] vis c d nN conv_frameD(3)[OF fr less] by (auto simp: visitable_def)
  qed
  then show ?thesis using g'(1,4) fr by blast
qed

definition pass_ext :: "mir_graph \<Rightarrow> mir_graph \<Rightarrow> bool" where
  "pass_ext g g' \<longleftrightarrow> conv_frame g g' \<and> (\<forall>c. set (bl_phis (g_blocks g' c)) \<subseteq> set (bl_phis (g_blocks g c)))"

lemma pass_ext_refl: "pass_ext g g"
  by (simp add: pass_ext_def conv_frame_refl)

lemma pass_ext_trans: "pass_ext g g1 \<Longrightarrow> pass_ext g1 g2 \<Longrightarrow> pass_ext g g2"
  unfolding pass_ext_def by (meson conv_frame_trans subset_trans)

lemma pass_extD: "pass_ext g g' \<Longrightarrow> conv_frame g g'" "pass_ext g g' \<Longrightarrow> p \<in> set (bl_phis (g_blocks g' c)) \<Longrightarrow> p \<in> set (bl_phis (g_blocks g c))"
  by (auto simp: pass_ext_def)

lemma pass_block:
  assumes i: "pass_inv N A L g P D (b # cs) (b # cs) F E" and d: "b \<notin> set cs" and A: "\<forall>n \<ge> N. at_specialized (A n)"
  shows "\<exists>g' L' P' D' E'. convertBlock A b g = Some g' \<and> pass_ext g g' \<and> pass_inv N A L' g' P' D' cs cs (insert b F) E' \<and>
    E \<subseteq> E' \<and> {n \<in> set (bl_instructions (g_blocks g b)). n < N} \<subseteq> E'"
proof -
  obtain g1 L1 P1 D1 where g1: "mfold (convertPhi b) (bl_phis (g_blocks g b)) g = Some g1" "conv_frame g g1"
    "\<forall>c. set (bl_phis (g_blocks g1 c)) \<subseteq> set (bl_phis (g_blocks g c))" "pass_inv N A L1 g1 P1 D1 cs (b # cs) (insert b F) E"
    using pass_phis[OF assms] by blast
  obtain g2 L2 where g2: "mfold (TypeAnalyzer_adjustInputs A) (bl_instructions (g_blocks g1 b)) g1 = Some g2" "conv_frame g1 g2"
    "same_phis g1 g2" "pass_inv N A L2 g2 P1 D1 cs cs (insert b F) (E \<union> {n \<in> set (bl_instructions (g_blocks g1 b)). n < N})"
    using pass_instructions[OF g1(4) d A] by blast
  have "pass_ext g g2" by (rule pass_ext_trans[of g g1 g2]) (use g1(2,3) g2(2,3) in \<open>simp_all add: pass_ext_def same_phis_def\<close>)
  moreover have "convertBlock A b g = Some g2" using g1(1) g2(1) by (simp add: convertBlock_def)
  moreover have "{n \<in> set (bl_instructions (g_blocks g b)). n < N} \<subseteq> E \<union> {n \<in> set (bl_instructions (g_blocks g1 b)). n < N}"
    using conv_frameD(9)[OF g1(2)] by blast
  ultimately show ?thesis using g2(4) by blast
qed

lemma pass_blocks:
  assumes "pass_inv N A L g P D bs bs F E" "distinct bs" "\<forall>n \<ge> N. at_specialized (A n)"
  shows "\<exists>g' L' P' D' E'. mfold (convertBlock A) bs g = Some g' \<and> pass_ext g g' \<and> pass_inv N A L' g' P' D' [] [] (F \<union> set bs) E' \<and>
    E \<subseteq> E' \<and> (\<forall>b \<in> set bs. \<forall>n \<in> set (bl_instructions (g_blocks g b)). n < N \<longrightarrow> n \<in> E')"
  using assms
proof (induction bs arbitrary: g L P D F E)
  case Nil
  then show ?case using pass_ext_refl by auto
next
  case (Cons b cs)
  then have d: "b \<notin> set cs" "distinct cs" by simp_all
  obtain g1 L1 P1 D1 E1 where g1: "convertBlock A b g = Some g1" "pass_ext g g1" "pass_inv N A L1 g1 P1 D1 cs cs (insert b F) E1"
    "E \<subseteq> E1" "{n \<in> set (bl_instructions (g_blocks g b)). n < N} \<subseteq> E1"
    using pass_block[OF Cons.prems(1) d(1) Cons.prems(3)] by blast
  obtain g2 L2 P2 D2 E2 where g2: "mfold (convertBlock A) cs g1 = Some g2" "pass_ext g1 g2"
    "pass_inv N A L2 g2 P2 D2 [] [] (insert b F \<union> set cs) E2" "E1 \<subseteq> E2"
    "\<forall>c \<in> set cs. \<forall>n \<in> set (bl_instructions (g_blocks g1 c)). n < N \<longrightarrow> n \<in> E2"
    using Cons.IH[OF g1(3) d(2) Cons.prems(3)] by blast
  have "n \<in> E2" if "c \<in> set (b # cs)" "n \<in> set (bl_instructions (g_blocks g c))" "n < N" for c n
    using that g1(5) g2(4,5) conv_frameD(9)[OF pass_extD(1)[OF g1(2)], of c] by auto
  moreover have "mfold (convertBlock A) (b # cs) g = Some g2" using g1(1) g2(1) by simp
  moreover have "pass_inv N A L2 g2 P2 D2 [] [] (F \<union> set (b # cs)) E2" using g2(3) by simp
  ultimately show ?case using pass_ext_trans[OF g1(2) g2(2)] g1(4) g2(4) by blast
qed


subsection \<open>Graphs as the builder leaves them\<close>

definition good_phi :: "(nat \<times> nat) set \<Rightarrow> mir_graph \<Rightarrow> nat \<Rightarrow> bool" where
  "good_phi L g p \<longleftrightarrow> isPhi (g_nodes g) p \<and> isDefinition (g_nodes g) p \<and> \<not> hasFlag (g_nodes g) InWorklist p \<and> grounded (g_nodes g) p \<and>
     (\<forall>i < numOperands (g_nodes g) p. (p, i) \<in> L \<and> (\<exists>q. getOperand (g_nodes g) p i = Some q \<and> placed g q \<and>
        (if isPhi (g_nodes g) q then q \<in> set (postorder_phis g) else mn_type (g_nodes g q) \<noteq> MIRType_None)))"

definition phis_wf :: "(nat \<times> nat) set \<Rightarrow> mir_graph \<Rightarrow> bool" where
  "phis_wf L g \<longleftrightarrow> store_ok L g \<and> own_phis g \<and> distinct (g_blockList g) \<and> distinct (postorder_phis g) \<and>
     (\<forall>p \<in> set (postorder_phis g). good_phi L g p) \<and>
     (\<forall>b \<in> set (g_blockList g). bl_lastIns (g_blocks g b) \<noteq> None \<and> bl_instructions (g_blocks g b) \<noteq> []) \<and>
     (\<forall>(n, i) \<in> L. isPhi (g_nodes g) n \<longrightarrow> n \<in> set (postorder_phis g)) \<and>
     (\<forall>n r. mn_op (g_nodes g n) = Op_Unbox \<longrightarrow> getOperand (g_nodes g) n 0 = Some r \<longrightarrow> \<not> isPhi (g_nodes g) r)"

lemma phis_wfD:
  assumes "phis_wf L g"
  shows "store_ok L g" "own_phis g" "distinct (g_blockList g)" "distinct (postorder_phis g)"
    "p \<in> set (postorder_phis g) \<Longrightarrow> good_phi L g p"
    "b \<in> set (g_blockList g) \<Longrightarrow> bl_lastIns (g_blocks g b) \<noteq> None \<and> bl_instructions (g_blocks g b) \<noteq> []"
    "(n, i) \<in> L \<Longrightarrow> isPhi (g_nodes g) n \<Longrightarrow> n \<in> set (postorder_phis g)"
    "mn_op (g_nodes g n) = Op_Unbox \<Longrightarrow> getOperand (g_nodes g) n 0 = Some r \<Longrightarrow> \<not> isPhi (g_nodes g) r"
  using assms unfolding phis_wf_def by auto

lemma operand_index: "Some q \<in> set (mn_operands (h p)) \<longleftrightarrow> (\<exists>i < numOperands h p. getOperand h p i = Some q)"
  by (auto simp: getOperand_def numOperands_def in_set_conv_nth)

lemma no_null_operand: "(\<And>i. i < numOperands h p \<Longrightarrow> \<exists>q. getOperand h p i = Some q) \<Longrightarrow> None \<notin> set (mn_operands (h p))"
  by (fastforce simp: getOperand_def numOperands_def in_set_conv_nth)

lemma use_defs_mem: "use_inv L h \<Longrightarrow> d \<in> set (use_defs h q) \<longleftrightarrow> isDefinition h d \<and> (\<exists>i. (d, i) \<in> L \<and> getOperand h d i = Some q)"
  using use_inv_mem[of L h d _ q] by (auto simp: use_defs_def image_iff) force+

lemma phis_wf_graph:
  assumes w: "phis_wf L g"
  shows "phi_graph (set (postorder_phis g)) (g_nodes g)"
proof -
  let ?h = "g_nodes g" and ?P = "set (postorder_phis g)"
  have inv: "use_inv L ?h" using phis_wfD(1)[OF w] by (rule store_okD(1))
  show ?thesis unfolding phi_graph_def
  proof (intro conjI ballI allI impI)
    show "finite ?P" by simp
    fix p assume p: "p \<in> ?P"
    note g = phis_wfD(5)[OF w p, unfolded good_phi_def]
    show "isPhi ?h p" "isDefinition ?h p" using g by blast+
    show "None \<notin> set (mn_operands (?h p))" by (rule no_null_operand) (use g in blast)
    show "d \<in> ?P" if "d \<in> set (use_defs ?h p)" "isPhi ?h d" for d
      using that use_defs_mem[OF inv, of d p] phis_wfD(7)[OF w] by blast
    fix q assume "Some q \<in> set (mn_operands (?h p))"
    then obtain i where i: "i < numOperands ?h p" "getOperand ?h p i = Some q" by (auto simp: operand_index)
    show "p \<in> set (use_defs ?h q)" using use_defs_mem[OF inv, of p q] g i by blast
    show "if isPhi ?h q then q \<in> ?P else mn_type (?h q) \<noteq> MIRType_None" using g i by fastforce
  qed
qed

lemma ta_frame_block:
  assumes "ta_frame P h0 h"
  shows "mn_block (h n) = mn_block (h0 n)"
proof -
  have "h n = (h0 n)\<lparr>mn_type := mn_type (h n), mn_flags := mn_flags (h n)\<rparr>" using assms by (simp add: ta_frame_def)
  then have "\<exists>a b. h n = (h0 n)\<lparr>mn_type := a, mn_flags := b\<rparr>" by blast
  then show ?thesis by auto
qed

lemma ta_frame_ops: "ta_frame P h0 h \<Longrightarrow> numOperands h n = numOperands h0 n \<and> getOperand h n i = getOperand h0 n i"
  using ta_frame_fields(2) by (simp add: numOperands_def getOperand_def)

lemma ta_frame_placed: "ta_frame P (g_nodes g) h \<Longrightarrow> placed (g\<lparr>g_nodes := h\<rparr>) q = placed g q"
  by (simp add: placed_def ta_frame_block)

lemma specialized_store:
  assumes w: "phis_wf L g" and fr: "ta_frame (set (postorder_phis g)) (g_nodes g) h"
  shows "store_ok L (g\<lparr>g_nodes := h\<rparr>)"
proof -
  let ?g = "g\<lparr>g_nodes := h\<rparr>"
  note s = phis_wfD(1)[OF w]
  have isp: "r \<in> set (postorder_phis g) \<Longrightarrow> isPhi (g_nodes g) r" for r using phis_wfD(5)[OF w] by (simp add: good_phi_def)
  have "unbox_ok ?g" unfolding unbox_ok_def
  proof (intro allI impI)
    fix n assume "n < g_nextNode ?g" and "mn_op (g_nodes ?g n) = Op_Unbox"
    then have u: "n < g_nextNode g" "mn_op (g_nodes g n) = Op_Unbox" using ta_frame_fields(1)[OF fr] by simp_all
    obtain r where r: "mn_type (g_nodes g n) \<noteq> MIRType_Value" "getOperand (g_nodes g) n 0 = Some r" "placed g r"
      "mn_type (g_nodes g r) = MIRType_Value" using store_okD(6)[OF s] u unfolding unbox_ok_def by blast
    have "n \<notin> set (postorder_phis g)" "r \<notin> set (postorder_phis g)"
      using isp phis_wfD(8)[OF w u(2) r(2)] u(2) by (auto simp: isPhi_def)
    then have "mn_type (h n) = mn_type (g_nodes g n)" "mn_type (h r) = mn_type (g_nodes g r)" using ta_frame_fields(5)[OF fr] by simp_all
    then show "mn_type (g_nodes ?g n) \<noteq> MIRType_Value \<and>
        (\<exists>r. getOperand (g_nodes ?g) n 0 = Some r \<and> placed ?g r \<and> mn_type (g_nodes ?g r) = MIRType_Value)"
      using r ta_frame_ops[OF fr, of n 0] ta_frame_placed[OF fr, of r] by simp
  qed
  moreover have "lists_ok ?g" using store_okD(7)[OF s] by (simp add: lists_ok_def)
  ultimately show ?thesis using s ta_frame_fields(3)[OF fr] ta_frame_ops[OF fr] by (simp add: store_ok_def use_inv_def links_in_range_def)
qed

lemma specialized_conv_inv:
  assumes w: "phis_wf L g" and fr: "ta_frame (set (postorder_phis g)) (g_nodes g) h"
    and ty: "\<And>p q. p \<in> set (postorder_phis g) \<Longrightarrow> Some q \<in> set (mn_operands (g_nodes g p)) \<Longrightarrow>
       feeds (mn_type (h q)) (mn_type (h p)) \<and> mn_type (h q) \<noteq> MIRType_None"
  shows "conv_inv L (g\<lparr>g_nodes := h\<rparr>) (set (postorder_phis g)) {}"
proof -
  let ?P = "set (postorder_phis g)" and ?g = "g\<lparr>g_nodes := h\<rparr>"
  note ops = ta_frame_ops[OF fr]
  have "phi_ok L ?g (\<lambda>_. p \<in> {}) p" if p: "p \<in> ?P" for p
  proof -
    note gp = phis_wfD(5)[OF w p, unfolded good_phi_def]
    have "(p, i) \<in> L \<and> (\<exists>q. getOperand h p i = Some q \<and> placed ?g q \<and> phi_rel (\<lambda>_. p \<in> {}) i (mn_type (h p)) (mn_type (h q)))"
      if i: "i < numOperands (g_nodes g) p" for i
    proof -
      obtain q where q: "(p, i) \<in> L" "getOperand (g_nodes g) p i = Some q" "placed g q" using gp i by blast
      then have "Some q \<in> set (mn_operands (g_nodes g p))" using operand_index i by blast
      then show ?thesis using q ops ty[OF p] ta_frame_placed[OF fr] by (simp add: phi_rel_def)
    qed
    moreover have "p < g_nextNode g" using phis_wfD(2)[OF w] p by (auto simp: own_phis_def postorder_phis_def)
    ultimately show ?thesis using gp ops ta_frame_isPhi[OF fr] by (simp add: phi_ok_def ops_ok_def)
  qed
  moreover have "\<exists>b. in_block ?g p b" if p: "p \<in> ?P" for p
  proof -
    obtain b where b: "b \<in> set (g_blockList g)" "p \<in> set (bl_phis (g_blocks g b))" using p by (auto simp: postorder_phis_def)
    have "distinct (concat (map (\<lambda>b. bl_phis (g_blocks g b)) (rev (g_blockList g))))"
      using phis_wfD(4)[OF w] by (simp add: postorder_phis_def)
    then have "distinct (bl_phis (g_blocks g b))" using b(1) by (auto simp: distinct_concat_iff)
    moreover have "mn_block (g_nodes g p) = Some b" using phis_wfD(2)[OF w] b(2) by (auto simp: own_phis_def)
    ultimately show ?thesis using phis_wfD(6)[OF w b(1)] b ta_frame_block[OF fr] unfolding in_block_def by (intro exI[of _ b]) simp
  qed
  ultimately show ?thesis using specialized_store[OF w fr] by (simp add: conv_inv_def)
qed


text \<open>
  Every instruction lies in its block, and once the phis are specialised its operands have types that its
  policy copes with. Addresses that are still free carry no specialisation.
\<close>

definition analysis_wf :: "(nat \<Rightarrow> policy_attrs) \<Rightarrow> (nat \<times> nat) set \<Rightarrow> mir_graph \<Rightarrow> bool" where
  "analysis_wf A L g \<longleftrightarrow> phis_wf L g \<and> (\<forall>n \<ge> g_nextNode g. at_specialized (A n)) \<and>
     (\<forall>s. specializePhis g (ta_initial g) = Some s \<longrightarrow>
        (\<forall>c \<in> set (g_blockList g). \<forall>n \<in> set (bl_instructions (g_blocks g c)).
           ins_ok A L (g\<lparr>g_nodes := ta_nodes s\<rparr>) n \<and> mn_block (g_nodes g n) = Some c))"


subsection \<open>The whole analysis\<close>

text \<open>The state in which the insertion of conversions starts.\<close>

lemma analysis_start:
  assumes w: "analysis_wf A L g"
  obtains s where "specializePhis g (ta_initial g) = Some s"
    "pass_inv (g_nextNode g) A L (g\<lparr>g_nodes := ta_nodes s\<rparr>) (set (postorder_phis g)) {} (g_blockList g) (g_blockList g) {} {}"
    "\<forall>p \<in> set (postorder_phis g). mn_type (ta_nodes s p) \<noteq> MIRType_None"
    "ta_frame (set (postorder_phis g)) (g_nodes g) (ta_nodes s)"
proof -
  let ?P = "set (postorder_phis g)"
  have p: "phis_wf L g" using w by (simp add: analysis_wf_def)
  have fl: "\<forall>p \<in> ?P. \<not> hasFlag (g_nodes g) InWorklist p" "\<forall>p \<in> ?P. grounded (g_nodes g) p"
    using phis_wfD(5)[OF p] by (simp_all add: good_phi_def)
  obtain s where s: "specializePhis g (ta_initial g) = Some s" "ta_frame ?P (g_nodes g) (ta_nodes s)"
    "\<forall>p \<in> ?P. ta_type s p \<noteq> MIRType_None"
    "\<forall>p \<in> ?P. \<forall>q. Some q \<in> set (mn_operands (g_nodes g p)) \<longrightarrow> feeds (ta_type s q) (ta_type s p) \<and> ta_type s q \<noteq> MIRType_None"
    by (rule specializePhis_spec[OF phis_wf_graph[OF p] phis_wfD(4)[OF p] fl])
  let ?g = "g\<lparr>g_nodes := ta_nodes s\<rparr>"
  have "conv_inv L ?g ?P {}" by (rule specialized_conv_inv[OF p s(2)]) (use s(4) in \<open>simp add: ta_type_def\<close>)
  moreover have "own_phis ?g" using phis_wfD(2)[OF p] by (simp add: own_phis_def ta_frame_block[OF s(2)])
  moreover have "\<forall>c \<in> set (g_blockList g). set (bl_phis (g_blocks g c)) \<subseteq> ?P" by (auto simp: postorder_phis_def)
  moreover have "visitable (g_nextNode g) A L ?g c n" if "c \<in> set (g_blockList g)" "n \<in> set (bl_instructions (g_blocks g c))" for c n
  proof -
    have "n < g_nextNode g" using store_okD(7)[OF phis_wfD(1)[OF p]] that(2) by (simp add: lists_ok_def)
    then show ?thesis using w s(1) that ta_frame_block[OF s(2)] by (simp add: analysis_wf_def visitable_def)
  qed
  ultimately have "pass_inv (g_nextNode g) A L ?g ?P {} (g_blockList g) (g_blockList g) {} {}" by (simp add: pass_inv_def)
  then show thesis using that s(1-3) by (simp add: ta_type_def)
qed

definition phi_typed :: "mir_graph \<Rightarrow> nat \<Rightarrow> bool" where
  "phi_typed g p \<longleftrightarrow> mn_type (g_nodes g p) \<notin> {MIRType_None, MIRType_Undefined, MIRType_Null} \<and>
     (\<forall>i < numOperands (g_nodes g) p. \<exists>q. getOperand (g_nodes g) p i = Some q \<and> mn_type (g_nodes g q) = mn_type (g_nodes g p))"

definition operands_typed :: "(nat \<Rightarrow> policy_attrs) \<Rightarrow> mir_graph \<Rightarrow> nat \<Rightarrow> bool" where
  "operands_typed A g n \<longleftrightarrow> (\<forall>p. op_policy (A n) (mn_op (g_nodes g n)) = Some p \<longrightarrow> (\<forall>i < numOperands (g_nodes g) n.
     \<exists>q. getOperand (g_nodes g) n i = Some q \<and> wants p i (mn_type (g_nodes g n)) (mn_type (g_nodes g q))))"

lemma accepted_typed: "accepted A L g n \<Longrightarrow> operands_typed A g n"
  unfolding accepted_def operands_typed_def policy_of_def ops_ok_def by blast

lemma phi_ok_typed: "phi_ok L g (\<lambda>_. True) p \<Longrightarrow> mn_type (g_nodes g p) \<noteq> MIRType_None \<Longrightarrow> \<not> redundant_type g p \<Longrightarrow> phi_typed g p"
  unfolding phi_ok_def ops_ok_def phi_rel_def phi_typed_def redundant_type_def by fastforce

lemma analysis_spec:
  assumes w: "analysis_wf A L g"
  obtains g' L' where "TypeAnalyzer_analyze A g = Some g'" "store_ok L' g'" "g_blockList g' = g_blockList g"
    "\<forall>b \<in> set (g_blockList g). \<forall>p \<in> set (bl_phis (g_blocks g' b)). p \<in> set (bl_phis (g_blocks g b)) \<and> phi_typed g' p"
    "\<forall>b \<in> set (g_blockList g). \<forall>n \<in> set (bl_instructions (g_blocks g b)). n \<in> set (bl_instructions (g_blocks g' b)) \<and> operands_typed A g' n"
proof -
  have p: "phis_wf L g" and A: "\<forall>n \<ge> g_nextNode g. at_specialized (A n)" using w by (simp_all add: analysis_wf_def)
  let ?P = "set (postorder_phis g)" and ?bs = "g_blockList g"
  obtain s where s: "specializePhis g (ta_initial g) = Some s"
    "pass_inv (g_nextNode g) A L (g\<lparr>g_nodes := ta_nodes s\<rparr>) ?P {} ?bs ?bs {} {}"
    "\<forall>p \<in> ?P. mn_type (ta_nodes s p) \<noteq> MIRType_None" by (rule analysis_start[OF w])
  define g1 where "g1 = g\<lparr>g_nodes := ta_nodes s\<rparr>"
  obtain g' L' P' D' E' where g': "mfold (convertBlock A) ?bs g1 = Some g'" "pass_ext g1 g'"
    "pass_inv (g_nextNode g) A L' g' P' D' [] [] (set ?bs) E'"
    "\<forall>b \<in> set ?bs. \<forall>n \<in> set (bl_instructions (g_blocks g1 b)). n < g_nextNode g \<longrightarrow> n \<in> E'"
    using pass_blocks[OF s(2)[folded g1_def] phis_wfD(3)[OF p] A] by auto
  note fr = pass_extD(1)[OF g'(2)] and i = pass_invD[OF g'(3)]
  have "TypeAnalyzer_analyze A g = Some g'" using s(1) g'(1) by (simp add: TypeAnalyzer_analyze_def insertConversions_def g1_def)
  moreover have "\<forall>b \<in> set ?bs. \<forall>p \<in> set (bl_phis (g_blocks g' b)). p \<in> set (bl_phis (g_blocks g b)) \<and> phi_typed g' p"
  proof (intro ballI conjI)
    fix b p assume b: "b \<in> set ?bs" and q: "p \<in> set (bl_phis (g_blocks g' b))"
    show m: "p \<in> set (bl_phis (g_blocks g b))" using pass_extD(2)[OF g'(2) q] by (simp add: g1_def)
    then have "p \<in> ?P" using b by (auto simp: postorder_phis_def)
    moreover have "p < g_nextNode g1" using phis_wfD(2)[OF p] m by (auto simp: own_phis_def g1_def)
    ultimately have "mn_type (g_nodes g' p) \<noteq> MIRType_None" using s(3) conv_frameD(1)[OF fr] by (simp add: g1_def)
    then show "phi_typed g' p" using i(7)[OF b q] conv_invD(2)[OF i(1), of p] phi_ok_typed[of L' g' p] by simp
  qed
  moreover have "\<forall>b \<in> set ?bs. \<forall>n \<in> set (bl_instructions (g_blocks g b)). n \<in> set (bl_instructions (g_blocks g' b)) \<and> operands_typed A g' n"
  proof (intro ballI conjI)
    fix b n assume b: "b \<in> set ?bs" and n: "n \<in> set (bl_instructions (g_blocks g b))"
    show "n \<in> set (bl_instructions (g_blocks g' b))" using conv_frameD(9)[OF fr, of b] n by (auto simp: g1_def)
    have "n < g_nextNode g" using store_okD(7)[OF phis_wfD(1)[OF p]] n by (simp add: lists_ok_def)
    then show "operands_typed A g' n" using g'(4) b n i(8)[of n] accepted_typed by (simp add: g1_def)
  qed
  ultimately show thesis
    using that[of g' L'] conv_invD(1)[OF i(1)] conv_frameD(7)[OF fr] by (simp add: g1_def)
qed



subsection \<open>An example\<close>

text \<open>
  A loop: block 0 enters, block 1 is the header with the phis, block 2 the body. Phi 3 joins an
  int32 and a double, phi 7 is undefined, phi 4 joins a string with phi 7 and phi 12 an unboxed
  parameter with a string. The header tests phi 3, and the body adds an int32 constant to it as a double.
\<close>

definition loop_base :: nodes where
  "loop_base = (\<lambda>n. if n \<in> {3, 4, 7, 12} then (blank_node Op_Phi 0)\<lparr>mn_type := MIRType_Value, mn_block := Some 1\<rparr>
     else if n = 8 then (blank_node Op_Unbox 1)\<lparr>mn_type := MIRType_Int32, mn_block := Some 0\<rparr>
     else if n = 13 then (blank_node Op_Add 0)\<lparr>mn_type := MIRType_Double, mn_block := Some 2\<rparr>
     else if n = 5 then (blank_node Op_Constant 0)\<lparr>mn_type := MIRType_Double, mn_block := Some 2\<rparr>
     else (blank_node (if n = 11 then Op_Parameter else if n = 9 then Op_Test else if n \<in> {2, 10} then Op_Goto else Op_Constant) 0)\<lparr>
       mn_type := (if n = 0 then MIRType_Int32 else if n = 1 then MIRType_String else if n = 6 then MIRType_Undefined
         else if n = 11 then MIRType_Value else MIRType_None), mn_block := Some (if n = 9 then 1 else if n = 10 then 2 else 0)\<rparr>)"

definition loop_inputs :: "(nat \<times> nat) list" where
  "loop_inputs = [(3, 0), (3, 5), (7, 6), (7, 7), (4, 1), (4, 7), (12, 8), (12, 1), (9, 3), (13, 3), (13, 0)]"

definition loop_graph :: mir_graph where
  "loop_graph = sample_graph\<lparr>
     g_nodes := fold (\<lambda>(p, q). addInput p q) loop_inputs (initOperand 8 0 11 loop_base),
     g_blocks := (\<lambda>b. (g_blocks sample_graph b)\<lparr>
       bl_instructions := (if b = 0 then [0, 1, 6, 11, 8, 2] else if b = 1 then [9] else [5, 13, 10]),
       bl_lastIns := Some (if b = 0 then 2 else if b = 1 then 9 else 10),
       bl_phis := (if b = 1 then [3, 7, 4, 12] else []), bl_predecessors := (if b = 1 then [0, 2] else if b = 2 then [1] else [])\<rparr>),
     g_nextNode := 14\<rparr>"

definition all_links :: "nodes \<Rightarrow> (nat \<times> nat) set" where
  "all_links h = {(n, i). i < numOperands h n}"

lemma all_links_addInput: "use_inv (all_links h) h \<Longrightarrow> use_inv (all_links (addInput p q h)) (addInput p q h)"
proof -
  assume a: "use_inv (all_links h) h"
  have "insert (p, numOperands h p) (all_links h) = all_links (addInput p q h)"
    by (auto simp: all_links_def numOperands_addInput less_Suc_eq split: if_splits)
  then show ?thesis using use_inv_addInput[OF a, of p q] by (simp add: all_links_def)
qed

lemma all_links_fold: "use_inv (all_links h) h \<Longrightarrow>
    use_inv (all_links (fold (\<lambda>(p, q). addInput p q) ps h)) (fold (\<lambda>(p, q). addInput p q) ps h)"
  by (induction ps arbitrary: h) (auto intro: all_links_addInput)

lemma same_nodes_inputs: "same_nodes h (fold (\<lambda>(p, q). addInput p q) ps h)"
proof (induction ps arbitrary: h)
  case (Cons x ps)
  then show ?case using same_nodes_trans[OF same_nodes_ops(4) Cons.IH] by (cases x) simp
qed (simp add: same_nodes_refl)

lemma loop_operands:
  "mn_operands (g_nodes loop_graph n) = (if n = 3 then [Some 0, Some 5] else if n = 7 then [Some 6, Some 7]
     else if n = 4 then [Some 1, Some 7] else if n = 12 then [Some 8, Some 1] else if n = 9 then [Some 3]
     else if n = 13 then [Some 3, Some 0] else if n = 8 then [Some 11] else [])"
  by (simp add: loop_graph_def loop_inputs_def addInput_operands initOperand_def addUse_def setOperand_def loop_base_def blank_node_def)

lemma loop_same: "same_nodes loop_base (g_nodes loop_graph)"
  using same_nodes_trans[OF same_nodes_initOperand same_nodes_inputs] by (simp add: loop_graph_def)

lemma loop_flags: "\<not> hasFlag (g_nodes loop_graph) InWorklist n"
proof -
  have "mn_flags (g_nodes loop_graph n) = mn_flags (loop_base n)"
    using loop_same unfolding same_nodes_def by (metis mnode.select_convs(8) mnode.surjective mnode.update_convs(4,5))
  then show ?thesis by (simp add: hasFlag_bit) (simp add: loop_base_def blank_node_def)
qed

lemmas loop_fields = same_nodes_fields(1,2,4)[OF loop_same] same_nodes_type[OF loop_same]

lemma loop_next: "g_nextNode loop_graph = 14"
  by (simp add: loop_graph_def)

lemma loop_blocks: "bl_lastIns (g_blocks loop_graph b) = Some (if b = 0 then 2 else if b = 1 then 9 else 10)"
  "bl_instructions (g_blocks loop_graph b) = (if b = 0 then [0, 1, 6, 11, 8, 2] else if b = 1 then [9] else [5, 13, 10])"
  "bl_phis (g_blocks loop_graph b) = (if b = 1 then [3, 7, 4, 12] else [])"
  by (simp_all add: loop_graph_def)

lemma loop_order: "g_blockList loop_graph = [0, 1, 2]" "postorder_phis loop_graph = [3, 7, 4, 12]"
  by (simp add: loop_graph_def sample_graph_def)
    (simp add: postorder_phis_def loop_blocks, simp add: loop_graph_def sample_graph_def)

lemma loop_store: "store_ok (all_links (g_nodes loop_graph)) loop_graph"
proof -
  let ?h = "initOperand 8 0 11 loop_base"
  have "use_inv {} loop_base" by (rule use_inv_unlinked) (simp add: loop_base_def blank_node_def)
  then have "use_inv {(8, 0)} ?h" by (rule use_inv_initOperand) (simp_all add: numOperands_def loop_base_def blank_node_def)
  moreover have "all_links ?h = {(8, 0)}"
    by (auto simp: all_links_def initOperand_def) (auto simp: numOperands_def loop_base_def blank_node_def split: if_splits)
  ultimately have "use_inv (all_links (g_nodes loop_graph)) (g_nodes loop_graph)"
    using all_links_fold[of ?h] by (simp add: loop_graph_def)
  moreover have "mn_uses (g_nodes loop_graph d) = []" if "d \<ge> 14" for d
    using that by (simp add: loop_graph_def loop_inputs_def uses_addInput initOperand_def addUse_def setOperand_def loop_base_def blank_node_def)
  moreover have "n < 14" if "(n, i) \<in> all_links (g_nodes loop_graph)" for n i
    using that by (auto simp: all_links_def numOperands_def loop_operands split: if_splits)
  moreover have "unbox_ok loop_graph"
    unfolding unbox_ok_def by (auto simp: loop_fields placed_def loop_next loop_blocks getOperand_def numOperands_def loop_operands)
      (auto simp: loop_base_def blank_node_def split: if_splits)
  moreover have "lists_ok loop_graph" by (auto simp: lists_ok_def loop_blocks loop_next)
  ultimately show ?thesis by (auto simp: store_ok_def loop_next links_in_range_def all_links_def)
qed

lemma loop_phis: "p \<in> {3, 7, 4, 12} \<Longrightarrow> good_phi (all_links (g_nodes loop_graph)) loop_graph p"
proof -
  assume p: "p \<in> {3, 7, 4, 12}"
  have "grounded (g_nodes loop_graph) p"
    using p grounded.input[of "if p = 3 then 0 else if p = 7 then 6 else 1" "g_nodes loop_graph" p]
    by (auto simp: loop_operands isPhi_def loop_fields loop_base_def blank_node_def)
  moreover have "placed loop_graph q" if "q < 14" for q
    using that by (simp add: placed_def loop_next loop_blocks loop_fields) (simp add: loop_base_def blank_node_def)
  ultimately show ?thesis
    unfolding good_phi_def using p loop_flags
    by (auto simp: isPhi_def isDefinition_def loop_fields numOperands_def getOperand_def loop_operands all_links_def loop_order
        loop_base_def blank_node_def less_Suc_eq)
qed

lemma loop_wf: "phis_wf (all_links (g_nodes loop_graph)) loop_graph"
proof -
  have "own_phis loop_graph" by (auto simp: own_phis_def loop_blocks loop_next loop_fields) (auto simp: loop_base_def)
  moreover have "n \<in> {3, 7, 4, 12}" if "isPhi (g_nodes loop_graph) n" for n
    using that by (auto simp: isPhi_def loop_fields loop_base_def blank_node_def split: if_splits)
  moreover have "\<not> isPhi (g_nodes loop_graph) r" if "mn_op (g_nodes loop_graph n) = Op_Unbox" "getOperand (g_nodes loop_graph) n 0 = Some r" for n r
    using that by (auto simp: isPhi_def loop_fields getOperand_def numOperands_def loop_operands split: if_splits)
      (auto simp: loop_base_def blank_node_def split: if_splits)
  ultimately show ?thesis using loop_store loop_phis by (auto simp: phis_wf_def loop_order loop_blocks)
qed



definition loop_attrs :: "nat \<Rightarrow> policy_attrs" where
  "loop_attrs = (\<lambda>_. \<lparr>at_specialization = MIRType_Double, at_specialized = True, at_arrayType = 0\<rparr>)"

lemma loop_placed: "q < 14 \<Longrightarrow> placed loop_graph q"
  by (simp add: placed_def loop_next loop_blocks loop_fields) (simp add: loop_base_def blank_node_def)

lemma loop_instruction:
  assumes fr: "ta_frame {3, 7, 4, 12} (g_nodes loop_graph) h" and n: "c \<in> {0, 1, 2}" "n \<in> set (bl_instructions (g_blocks loop_graph c))"
  shows "ins_ok loop_attrs (all_links (g_nodes loop_graph)) (loop_graph\<lparr>g_nodes := h\<rparr>) n \<and> mn_block (g_nodes loop_graph n) = Some c"
proof -
  have less: "n < 14" using n by (auto simp: loop_blocks split: if_splits)
  have b: "mn_block (g_nodes loop_graph n) = Some c"
    using n by (auto simp: loop_blocks loop_fields split: if_splits) (auto simp: loop_base_def blank_node_def)
  have ty: "mn_type (h 13) = MIRType_Double"
    using ta_frame_fields(5)[OF fr, of 13] by (simp add: loop_fields) (simp add: loop_base_def)
  have pol: "policy_of loop_attrs (loop_graph\<lparr>g_nodes := h\<rparr>) n = (if n = 9 then Some TestPolicy else if n = 13 then Some (ArithPolicy MIRType_Double) else None)"
    using n ta_frame_fields(1)[OF fr, of n] by (auto simp: policy_of_def loop_fields loop_blocks loop_attrs_def split: if_splits)
      (auto simp: loop_base_def blank_node_def)
  have ops: "mn_operands (h n) = mn_operands (g_nodes loop_graph n)" for n using ta_frame_fields(2)[OF fr] by simp
  have "ops_ok (all_links (g_nodes loop_graph)) (loop_graph\<lparr>g_nodes := h\<rparr>) R n"
    if "n = 9 \<or> n = 13" "\<And>i v. R i (mn_type (h n)) v" for R
    using that(1) by (auto simp: ops_ok_def ops that(2) all_links_def loop_next ta_frame_placed[OF fr] loop_placed getOperand_def
        numOperands_def loop_operands less_Suc_eq)
  then show ?thesis using b loop_placed[OF less] pol ops ty
    by (auto simp: ins_ok_def ta_frame_placed[OF fr] numOperands_def loop_operands)
qed

lemma loop_analysis_wf: "analysis_wf loop_attrs (all_links (g_nodes loop_graph)) loop_graph"
proof -
  have fl: "\<forall>p \<in> set (postorder_phis loop_graph). \<not> hasFlag (g_nodes loop_graph) InWorklist p"
    "\<forall>p \<in> set (postorder_phis loop_graph). grounded (g_nodes loop_graph) p"
    using phis_wfD(5)[OF loop_wf] by (simp_all add: good_phi_def)
  have "ta_frame {3, 7, 4, 12} (g_nodes loop_graph) (ta_nodes s)" if "specializePhis loop_graph (ta_initial loop_graph) = Some s" for s
    by (rule specializePhis_spec[OF phis_wf_graph[OF loop_wf] phis_wfD(4)[OF loop_wf] fl]) (use that in \<open>simp add: loop_order\<close>)
  then have "ins_ok loop_attrs (all_links (g_nodes loop_graph)) (loop_graph\<lparr>g_nodes := ta_nodes s\<rparr>) n \<and> mn_block (g_nodes loop_graph n) = Some c"
    if "specializePhis loop_graph (ta_initial loop_graph) = Some s" "c \<in> {0, 1, 2}" "n \<in> set (bl_instructions (g_blocks loop_graph c))" for s c n
    using that loop_instruction by blast
  moreover have "set (g_blockList loop_graph) = {0, 1, 2}" by (simp add: loop_order)
  moreover have "at_specialized (loop_attrs n)" for n by (simp add: loop_attrs_def)
  ultimately show ?thesis using loop_wf unfolding analysis_wf_def by blast
qed


subsection \<open>Properties\<close>

text \<open>
  C38: the type analysis makes the phis of a graph well typed. On a graph as the builder leaves it, in
  which every phi is reached by some value, the analysis ends without a failed assertion; afterwards every
  phi still in a block was there before, has a type other than none, undefined and null, and all its
  inputs have exactly that type, and the use chains agree with the operands.
\<close>

theorem phi_inputs_typed:
  assumes "analysis_wf A L g"
  shows "\<exists>g' L'. TypeAnalyzer_analyze A g = Some g' \<and> use_inv L' (g_nodes g') \<and> g_blockList g' = g_blockList g \<and>
    (\<forall>b \<in> set (g_blockList g). \<forall>p \<in> set (bl_phis (g_blocks g' b)). p \<in> set (bl_phis (g_blocks g b)) \<and>
       mn_type (g_nodes g' p) \<notin> {MIRType_None, MIRType_Undefined, MIRType_Null} \<and>
       (\<forall>i < numOperands (g_nodes g') p.
          \<exists>q. getOperand (g_nodes g') p i = Some q \<and> mn_type (g_nodes g' q) = mn_type (g_nodes g' p)))"
  by (rule analysis_spec[OF assms], drule store_okD(1)) (auto simp: phi_typed_def)

theorem phi_inputs_typed_witness:
  "\<exists>A L g. analysis_wf A L g \<and> set (bl_phis (g_blocks g 1)) = {3, 7, 4, 12} \<and>
    (\<exists>g' L'. TypeAnalyzer_analyze A g = Some g' \<and> use_inv L' (g_nodes g') \<and> g_blockList g' = g_blockList g \<and>
    (\<forall>b \<in> set (g_blockList g). \<forall>p \<in> set (bl_phis (g_blocks g' b)). p \<in> set (bl_phis (g_blocks g b)) \<and>
       mn_type (g_nodes g' p) \<notin> {MIRType_None, MIRType_Undefined, MIRType_Null} \<and>
       (\<forall>i < numOperands (g_nodes g') p.
          \<exists>q. getOperand (g_nodes g') p i = Some q \<and> mn_type (g_nodes g' q) = mn_type (g_nodes g' p))))"
proof -
  have "set (bl_phis (g_blocks loop_graph 1)) = {3, 7, 4, 12}" by (simp add: loop_blocks)
  then show ?thesis using phi_inputs_typed[OF loop_analysis_wf] loop_analysis_wf
    by - (rule exI[of _ loop_attrs], rule exI[of _ "all_links (g_nodes loop_graph)"], rule exI[of _ loop_graph], intro conjI)
qed

text \<open>
  C39: the type policies give every instruction operands of types it can work on. After the type
  analysis of a graph as the builder leaves it, each of its instructions is still in its block, and each operand of
  an instruction that has a policy has a type the policy wants for it: boxed where the policy boxes,
  the unboxed type, or the converted one.
\<close>

theorem operands_accepted:
  assumes "analysis_wf A L g" and "b \<in> set (g_blockList g)" and "n \<in> set (bl_instructions (g_blocks g b))"
  shows "\<exists>g'. TypeAnalyzer_analyze A g = Some g' \<and> n \<in> set (bl_instructions (g_blocks g' b)) \<and>
    (\<forall>p i. op_policy (A n) (mn_op (g_nodes g' n)) = Some p \<longrightarrow> i < numOperands (g_nodes g') n \<longrightarrow>
       (\<exists>q. getOperand (g_nodes g') n i = Some q \<and> wants p i (mn_type (g_nodes g' n)) (mn_type (g_nodes g' q))))"
  by (rule analysis_spec[OF assms(1)]) (use assms(2,3) in \<open>auto simp: operands_typed_def\<close>)

theorem operands_accepted_witness:
  "\<exists>A L g. analysis_wf A L g \<and> op_policy (A 13) (mn_op (g_nodes g 13)) = Some (ArithPolicy MIRType_Double) \<and>
    (\<exists>g'. TypeAnalyzer_analyze A g = Some g' \<and> 13 \<in> set (bl_instructions (g_blocks g' 2)) \<and>
    (\<forall>p i. op_policy (A 13) (mn_op (g_nodes g' 13)) = Some p \<longrightarrow> i < numOperands (g_nodes g') 13 \<longrightarrow>
       (\<exists>q. getOperand (g_nodes g') 13 i = Some q \<and> wants p i (mn_type (g_nodes g' 13)) (mn_type (g_nodes g' q)))))"
proof -
  have "2 \<in> set (g_blockList loop_graph)" "13 \<in> set (bl_instructions (g_blocks loop_graph 2))" by (simp_all add: loop_order loop_blocks)
  moreover have "op_policy (loop_attrs 13) (mn_op (g_nodes loop_graph 13)) = Some (ArithPolicy MIRType_Double)"
    by (simp add: loop_fields) (simp add: loop_base_def loop_attrs_def blank_node_def)
  ultimately show ?thesis
    using operands_accepted[OF loop_analysis_wf, of 2 13] loop_analysis_wf
    by - (rule exI[of _ loop_attrs], rule exI[of _ "all_links (g_nodes loop_graph)"], rule exI[of _ loop_graph], intro conjI)
qed


text \<open>
  C40: the specialisation of phis ends. For phis whose neighbours belong to the graph, the worklist
  loop runs out of work without a failed assertion, whatever order the types change in: the types
  only rise. It leaves no phi marked as on the worklist and changes nothing but types and flags of
  phis, every phi that some value reaches has a type, and an input has the type of its phi unless
  the phi is a value, or a double with an int32 input.
\<close>

theorem specializePhis_ends:
  assumes "phi_graph (set (postorder_phis g)) (g_nodes g)" "distinct (postorder_phis g)"
    and "\<forall>p \<in> set (postorder_phis g). \<not> hasFlag (g_nodes g) InWorklist p \<and> grounded (g_nodes g) p"
  shows "\<exists>s. specializePhis g (ta_initial g) = Some s \<and> ta_worklist s = [] \<and>
    ta_frame (set (postorder_phis g)) (g_nodes g) (ta_nodes s) \<and>
    (\<forall>p \<in> set (postorder_phis g). ta_tried s p \<and> \<not> hasFlag (ta_nodes s) InWorklist p \<and> ta_type s p \<noteq> MIRType_None \<and>
       (\<forall>q. Some q \<in> set (mn_operands (g_nodes g p)) \<longrightarrow> ta_type s q \<noteq> MIRType_None \<and>
          (ta_type s q = ta_type s p \<or> ta_type s p = MIRType_Value \<or> ta_type s q = MIRType_Int32 \<and> ta_type s p = MIRType_Double)))"
proof -
  let ?P = "set (postorder_phis g)"
  have fl: "\<forall>p \<in> ?P. \<not> hasFlag (g_nodes g) InWorklist p" "\<forall>p \<in> ?P. grounded (g_nodes g) p" using assms(3) by simp_all
  obtain s where s: "specializePhis g (ta_initial g) = Some s" "ta_frame ?P (g_nodes g) (ta_nodes s)" "ta_worklist s = []"
    "\<forall>p \<in> ?P. ta_tried s p \<and> \<not> hasFlag (ta_nodes s) InWorklist p" "\<forall>p \<in> ?P. ta_type s p \<noteq> MIRType_None"
    "\<forall>p \<in> ?P. \<forall>q. Some q \<in> set (mn_operands (g_nodes g p)) \<longrightarrow> feeds (ta_type s q) (ta_type s p) \<and> ta_type s q \<noteq> MIRType_None"
    by (rule specializePhis_spec[OF assms(1,2) fl])
  show ?thesis by (intro exI[of _ s]) (use s in \<open>auto simp: feeds_def\<close>)
qed

theorem specializePhis_ends_witness:
  "\<exists>g. postorder_phis g = [3, 7, 4, 12] \<and> (\<exists>s. specializePhis g (ta_initial g) = Some s \<and> ta_worklist s = [] \<and>
    ta_frame (set (postorder_phis g)) (g_nodes g) (ta_nodes s) \<and>
    (\<forall>p \<in> set (postorder_phis g). ta_tried s p \<and> \<not> hasFlag (ta_nodes s) InWorklist p \<and> ta_type s p \<noteq> MIRType_None \<and>
       (\<forall>q. Some q \<in> set (mn_operands (g_nodes g p)) \<longrightarrow> ta_type s q \<noteq> MIRType_None \<and>
          (ta_type s q = ta_type s p \<or> ta_type s p = MIRType_Value \<or> ta_type s q = MIRType_Int32 \<and> ta_type s p = MIRType_Double))))"
proof -
  have "distinct (postorder_phis loop_graph)" by (simp add: loop_order)
  moreover have "\<forall>p \<in> set (postorder_phis loop_graph). \<not> hasFlag (g_nodes loop_graph) InWorklist p \<and> grounded (g_nodes loop_graph) p"
    using phis_wfD(5)[OF loop_wf] by (simp add: good_phi_def)
  ultimately show ?thesis
    using specializePhis_ends[OF phis_wf_graph[OF loop_wf]] loop_order(2) by (intro exI[of _ loop_graph] conjI)
qed

text \<open>
  The propagation is not precise: a phi whose inputs are all int32 can end as a value. Phi 2 joins
  phi 1 and a constant; phi 1 joins a phi that is guessed after it. When phi 1 is guessed its type
  is none, and propagating none to phi 2, already guessed int32, makes it a value.
\<close>

definition late_phi_nodes :: nodes where
  "late_phi_nodes = fold (\<lambda>(p, q). addInput p q) [(2, 1), (2, 0), (1, 3), (3, 0)]
     (\<lambda>n. if n = 0 then (blank_node Op_Constant 0)\<lparr>mn_type := MIRType_Int32\<rparr>
           else (blank_node Op_Phi 0)\<lparr>mn_type := MIRType_Value\<rparr>)"

lemma specialize_imprecise:
  "map_option (\<lambda>s. map (ta_type s) [3, 1, 2])
     (mfold specializePhi [2, 1, 3] \<lparr>ta_nodes = late_phi_nodes, ta_tried = (\<lambda>_. False), ta_worklist = []\<rparr> \<bind> specializePhis_drain) =
   Some [MIRType_Int32, MIRType_Int32, MIRType_Value]"
  by code_simp

end
