(* ===== verification/Dominators.thy ===== *)
theory Dominators
  imports Mir_Blocks
begin

text \<open>
  The dominator tree (\<open>ComputeImmediateDominators\<close> and \<open>BuildDominatorTree\<close> of \<open>ion/IonAnalysis.cpp\<close>): the iteration
  of Cooper, Harvey and Kennedy in reverse postorder, extended to graphs with two roots (the start
  block and the OSR block), where a block that no other block dominates is its own immediate dominator.

  The chain of immediate dominators of every block turns out to be exactly the set of its dominators,
  and the iteration ends. The order of the traversal matters for the latter: a candidate only moves up
  because the first predecessor of a block has been visited before it in the same round.
\<close>

subsection \<open>The code\<close>

abbreviation "block_id g b \<equiv> bl_id (g_blocks g b)"
abbreviation "preds g b \<equiv> bl_predecessors (g_blocks g b)"
abbreviation "immediateDominator g b \<equiv> bl_immediateDominator (g_blocks g b)"

definition setImmediateDominator :: "nat \<Rightarrow> nat option \<Rightarrow> mir_graph \<Rightarrow> mir_graph" where
  "setImmediateDominator b d = updBlock b (\<lambda>bl. bl\<lparr>bl_immediateDominator := d\<rparr>)"

definition RenumberBlocks :: "mir_graph \<Rightarrow> mir_graph" where
  "RenumberBlocks g = fold (\<lambda>(i, b). updBlock b (\<lambda>bl. bl\<lparr>bl_id := i\<rparr>)) (enumerate 0 (g_blockList g)) g"

text \<open>
  The inner loop of the intersection: the finger climbs while its id is greater than the other's.
  \<open>Some None\<close> is the null pointer of an empty intersection, and \<open>None\<close> an error, the use of an immediate
  dominator that has not been set.
\<close>

partial_function (option) climb :: "mir_graph \<Rightarrow> nat \<Rightarrow> nat \<Rightarrow> nat option option" where
  "climb g f t =
     (if block_id g f > block_id g t
      then do {
        d \<leftarrow> immediateDominator g f;
        if d = f then Some None else climb g d t }
      else Some (Some f))"

partial_function (option) IntersectDominators :: "mir_graph \<Rightarrow> nat \<Rightarrow> nat \<Rightarrow> nat option option" where
  "IntersectDominators g f1 f2 =
     (if block_id g f1 = block_id g f2 then Some (Some f1)
      else do {
        r1 \<leftarrow> climb g f1 f2;
        (case r1 of None \<Rightarrow> Some None
         | Some f1 \<Rightarrow> do {
             r2 \<leftarrow> climb g f2 f1;
             (case r2 of None \<Rightarrow> Some None | Some f2 \<Rightarrow> IntersectDominators g f1 f2) }) })"

text \<open>The loop over the predecessors from the second on.\<close>

fun commonDominator :: "mir_graph \<Rightarrow> nat list \<Rightarrow> nat \<Rightarrow> nat option option" where
  "commonDominator g [] d = Some (Some d)"
| "commonDominator g (p # ps) d = do {
     r \<leftarrow> (if immediateDominator g p \<noteq> None then IntersectDominators g p d else Some (Some d));
     (case r of None \<Rightarrow> Some None | Some d \<Rightarrow> commonDominator g ps d) }"

definition dominateBlock :: "nat \<Rightarrow> mir_graph \<times> bool \<Rightarrow> (mir_graph \<times> bool) option" where
  "dominateBlock b = (\<lambda>(g, changed).
     if immediateDominator g b = Some b then Some (g, changed)
     else do {
       js_assert (preds g b \<noteq> []);
       r \<leftarrow> commonDominator g (tl (preds g b)) (hd (preds g b));
       (case r of
          None \<Rightarrow> Some (setImmediateDominator b (Some b) g, True)
        | Some d \<Rightarrow> if immediateDominator g b \<noteq> Some d then Some (setImmediateDominator b (Some d) g, True)
                    else Some (g, changed)) })"

partial_function (option) dominators_loop :: "mir_graph \<Rightarrow> mir_graph option" where
  "dominators_loop g = do {
     (g, changed) \<leftarrow> mfold dominateBlock (g_blockList g) (g, False);
     if changed then dominators_loop g else Some g }"

definition ComputeImmediateDominators :: "mir_graph \<Rightarrow> mir_graph option" where
  "ComputeImmediateDominators g = do {
     js_assert (g_blockList g \<noteq> []);
     let g = setImmediateDominator (hd (g_blockList g)) (Some (hd (g_blockList g))) g;
     let g = (case g_osrBlock g of None \<Rightarrow> g | Some r \<Rightarrow> setImmediateDominator r (Some r) g);
     g \<leftarrow> dominators_loop g;
     js_assert (\<forall>b \<in> set (g_blockList g). immediateDominator g b \<noteq> None);
     Some g }"

text \<open>\<open>mem n\<close> says whether a vector of \<open>n\<close> dominated blocks can grow.\<close>

definition addImmediatelyDominatedBlock :: "(nat \<Rightarrow> bool) \<Rightarrow> nat \<Rightarrow> nat \<Rightarrow> mir_graph \<Rightarrow> bool \<times> mir_graph" where
  "addImmediatelyDominatedBlock mem parent child g =
     (if mem (length (bl_immediatelyDominated (g_blocks g parent)))
      then (True, updBlock parent (\<lambda>bl. bl\<lparr>bl_immediatelyDominated := bl_immediatelyDominated bl @ [child]\<rparr>) g)
      else (False, g))"

definition addNumDominated :: "nat \<Rightarrow> nat \<Rightarrow> mir_graph \<Rightarrow> mir_graph" where
  "addNumDominated b n = updBlock b (\<lambda>bl. bl\<lparr>bl_numDominated := bl_numDominated bl + n\<rparr>)"

fun addBlocksToTree :: "(nat \<Rightarrow> bool) \<Rightarrow> nat list \<Rightarrow> mir_graph \<Rightarrow> (bool \<times> mir_graph) option" where
  "addBlocksToTree mem [] g = Some (True, g)"
| "addBlocksToTree mem (child # bs) g = do {
     parent \<leftarrow> immediateDominator g child;
     if child = parent then addBlocksToTree mem bs g
     else (case addImmediatelyDominatedBlock mem parent child g of
         (False, g) \<Rightarrow> Some (False, g)
       | (True, g) \<Rightarrow> addBlocksToTree mem bs (addNumDominated parent (bl_numDominated (g_blocks g child) + 1) g)) }"

definition BuildDominatorTree :: "(nat \<Rightarrow> bool) \<Rightarrow> mir_graph \<Rightarrow> (bool \<times> mir_graph) option" where
  "BuildDominatorTree mem g = do {
     g \<leftarrow> ComputeImmediateDominators g;
     (ok, g) \<leftarrow> addBlocksToTree mem (rev (g_blockList g)) g;
     if \<not> ok then Some (False, g)
     else do {
       js_assert (g_osrBlock g = None \<longrightarrow> bl_numDominated (g_blocks g (hd (g_blockList g))) = length (g_blockList g) - 1);
       Some (True, g) } }"

subsection \<open>Dominators\<close>

definition roots :: "mir_graph \<Rightarrow> nat set" where
  "roots g = insert (hd (g_blockList g)) (set_option (g_osrBlock g))"

text \<open>The blocks of a path from a root to \<open>b\<close>, in reverse.\<close>

inductive root_path :: "mir_graph \<Rightarrow> nat list \<Rightarrow> nat \<Rightarrow> bool" for g where
  start: "r \<in> roots g \<Longrightarrow> root_path g [r] r"
| extend: "root_path g xs p \<Longrightarrow> p \<in> set (preds g b) \<Longrightarrow> root_path g (b # xs) b"

definition dominates :: "mir_graph \<Rightarrow> nat \<Rightarrow> nat \<Rightarrow> bool" where
  "dominates g a b \<longleftrightarrow> (\<forall>xs. root_path g xs b \<longrightarrow> a \<in> set xs)"

text \<open>
  The list of blocks is in reverse postorder and numbered: every block but the roots has
  predecessors, the first of which comes before it. No dominator is known yet.
\<close>

definition rpo_graph :: "mir_graph \<Rightarrow> bool" where
  "rpo_graph g \<longleftrightarrow> g_blockList g \<noteq> [] \<and> roots g \<subseteq> set (g_blockList g) \<and> distinct (g_blockList g) \<and>
     (\<forall>i < length (g_blockList g). block_id g (g_blockList g ! i) = i) \<and>
     (\<forall>b \<in> set (g_blockList g). set (preds g b) \<subseteq> set (g_blockList g) \<and>
        (b \<notin> roots g \<longrightarrow> preds g b \<noteq> [] \<and> block_id g (hd (preds g b)) < block_id g b))"

lemma rpo_graphD:
  assumes "rpo_graph g"
  shows "g_blockList g \<noteq> []" "r \<in> roots g \<Longrightarrow> r \<in> set (g_blockList g)" "distinct (g_blockList g)"
    "i < length (g_blockList g) \<Longrightarrow> block_id g (g_blockList g ! i) = i"
    "b \<in> set (g_blockList g) \<Longrightarrow> p \<in> set (preds g b) \<Longrightarrow> p \<in> set (g_blockList g)"
    "b \<in> set (g_blockList g) \<Longrightarrow> b \<notin> roots g \<Longrightarrow> preds g b \<noteq> []"
    "b \<in> set (g_blockList g) \<Longrightarrow> b \<notin> roots g \<Longrightarrow> block_id g (hd (preds g b)) < block_id g b"
  using assms unfolding rpo_graph_def by blast+

lemma id_inj:
  assumes "rpo_graph g" "b \<in> set (g_blockList g)" "c \<in> set (g_blockList g)" "block_id g b = block_id g c"
  shows "b = c"
  using assms(2-4) rpo_graphD(4)[OF assms(1)] by (metis in_set_conv_nth)

lemma id_less: "rpo_graph g \<Longrightarrow> b \<in> set (g_blockList g) \<Longrightarrow> block_id g b < length (g_blockList g)"
  using rpo_graphD(4) by (metis in_set_conv_nth)


subsection \<open>The state of the iteration\<close>

text \<open>Only the immediate dominators change.\<close>

definition with_idoms :: "mir_graph \<Rightarrow> (nat \<Rightarrow> nat option) \<Rightarrow> mir_graph" where
  "with_idoms g m = g\<lparr>g_blocks := (\<lambda>b. (g_blocks g b)\<lparr>bl_immediateDominator := m b\<rparr>)\<rparr>"

lemma with_idoms_simps [simp]:
  "immediateDominator (with_idoms g m) b = m b" "block_id (with_idoms g m) b = block_id g b" "preds (with_idoms g m) b = preds g b"
  "g_blockList (with_idoms g m) = g_blockList g" "g_osrBlock (with_idoms g m) = g_osrBlock g"
  "setImmediateDominator b d (with_idoms g m) = with_idoms g (m(b := d))"
  by (auto simp: with_idoms_def setImmediateDominator_def updBlock_def fun_eq_iff)

lemma with_idoms_self: "with_idoms g (\<lambda>b. immediateDominator g b) = g"
  by (simp add: with_idoms_def)

text \<open>\<open>a\<close> is \<open>b\<close> or is reached from it by immediate dominators.\<close>

inductive idom_chain :: "(nat \<Rightarrow> nat option) \<Rightarrow> nat \<Rightarrow> nat \<Rightarrow> bool" for m where
  here: "idom_chain m b b"
| up: "m b = Some d \<Longrightarrow> d \<noteq> b \<Longrightarrow> idom_chain m d a \<Longrightarrow> idom_chain m b a"

lemma chain_root: "m b = Some b \<or> m b = None \<Longrightarrow> idom_chain m b a \<longleftrightarrow> a = b"
  by (auto intro: here elim: idom_chain.cases)

lemma chain_up: "m b = Some d \<Longrightarrow> d \<noteq> b \<Longrightarrow> idom_chain m b a \<longleftrightarrow> a = b \<or> idom_chain m d a"
  by (auto intro: here up elim: idom_chain.cases)

lemma chain_trans: "idom_chain m a b \<Longrightarrow> idom_chain m b c \<Longrightarrow> idom_chain m a c"
  by (induction rule: idom_chain.induct) (auto intro: up)

lemma chain_linear: "idom_chain m c a \<Longrightarrow> idom_chain m c b \<Longrightarrow> idom_chain m a b \<or> idom_chain m b a"
proof (induction rule: idom_chain.induct)
  case (up c d a)
  then show ?case using chain_up[of m c d b] idom_chain.up[of m c d a] by blast
qed simp

text \<open>Immediate dominators are blocks that come earlier and have one themselves.\<close>

definition idoms_up :: "mir_graph \<Rightarrow> (nat \<Rightarrow> nat option) \<Rightarrow> bool" where
  "idoms_up g m \<longleftrightarrow> (\<forall>b d. m b = Some d \<longrightarrow> b \<in> set (g_blockList g) \<and> m d \<noteq> None \<and> (d \<noteq> b \<longrightarrow> block_id g d < block_id g b))"

lemma idoms_upD:
  assumes "idoms_up g m" "m b = Some d"
  shows "b \<in> set (g_blockList g)" "m d \<noteq> None" "d \<noteq> b \<Longrightarrow> block_id g d < block_id g b"
  using assms unfolding idoms_up_def by blast+

lemma chain_set: "idom_chain m b a \<Longrightarrow> idoms_up g m \<Longrightarrow> m b \<noteq> None \<Longrightarrow> m a \<noteq> None \<and> (a \<noteq> b \<longrightarrow> block_id g a < block_id g b)"
proof (induction rule: idom_chain.induct)
  case (up b d a)
  then show ?case using idoms_upD[OF up.prems(1) up.hyps(1)] by fastforce
qed simp

text \<open>The result of a climb: the chain from there up, or no common element.\<close>

definition climbed :: "mir_graph \<Rightarrow> (nat \<Rightarrow> nat option) \<Rightarrow> nat \<Rightarrow> nat \<Rightarrow> nat option \<Rightarrow> bool" where
  "climbed g m f t r \<longleftrightarrow> (case r of
     None \<Rightarrow> \<forall>a. idom_chain m f a \<longrightarrow> block_id g a > block_id g t
   | Some f' \<Rightarrow> m f' \<noteq> None \<and> block_id g f' \<le> block_id g t \<and> block_id g f' \<le> block_id g f \<and>
       (\<forall>a. block_id g a \<le> block_id g t \<longrightarrow> idom_chain m f' a = idom_chain m f a))"

lemma climb_ok:
  assumes u: "idoms_up g m" and f: "m f \<noteq> None"
  shows "\<exists>r. climb (with_idoms g m) f t = Some r \<and> climbed g m f t r"
  using f
proof (induction "block_id g f" arbitrary: f rule: less_induct)
  case less
  note c = climb.simps[of "with_idoms g m" f t]
  show ?case
  proof (cases "block_id g f > block_id g t")
    case False
    then show ?thesis using c less.prems by (simp add: climbed_def)
  next
    case True
    obtain d where d: "m f = Some d" using less.prems by blast
    show ?thesis
    proof (cases "d = f")
      case True
      then show ?thesis using c d \<open>block_id g f > block_id g t\<close> chain_root[of m f] by (simp add: climbed_def)
    next
      case False
      note up = idoms_upD[OF u d]
      have e: "climb (with_idoms g m) f t = climb (with_idoms g m) d t" using c True d False by simp
      have chain: "idom_chain m f a \<longleftrightarrow> a = f \<or> idom_chain m d a" for a using chain_up[of m f d a] d False by blast
      obtain r where r: "climb (with_idoms g m) d t = Some r" "climbed g m d t r" using less.hyps[OF up(3)[OF False] up(2)] by blast
      have "climbed g m f t r" using r(2) True up(3)[OF False] by (cases r) (auto simp: climbed_def chain)
      then show ?thesis using e r(1) by simp
    qed
  qed
qed

text \<open>\<open>r\<close> stands for the chain of all \<open>a\<close> with \<open>P a\<close>, and the null pointer for none.\<close>

definition meet_of :: "(nat \<Rightarrow> nat option) \<Rightarrow> (nat \<Rightarrow> bool) \<Rightarrow> nat option \<Rightarrow> bool" where
  "meet_of m P r \<longleftrightarrow> (case r of None \<Rightarrow> \<forall>a. \<not> P a | Some f \<Rightarrow> m f \<noteq> None \<and> (\<forall>a. idom_chain m f a \<longleftrightarrow> P a))"

lemma meet_of_simps [simp]:
  "meet_of m P None \<longleftrightarrow> (\<forall>a. \<not> P a)" "meet_of m P (Some f) \<longleftrightarrow> m f \<noteq> None \<and> (\<forall>a. idom_chain m f a \<longleftrightarrow> P a)"
  by (simp_all add: meet_of_def)

text \<open>The intersection of two chains is a chain, or empty.\<close>

lemma IntersectDominators_ok:
  assumes w: "rpo_graph g" and u: "idoms_up g m" and f: "m f1 \<noteq> None" "m f2 \<noteq> None"
  shows "\<exists>r. IntersectDominators (with_idoms g m) f1 f2 = Some r \<and> meet_of m (\<lambda>a. idom_chain m f1 a \<and> idom_chain m f2 a) r"
  using f
proof (induction "block_id g f1 + block_id g f2" arbitrary: f1 f2 rule: less_induct)
  case less
  let ?g = "with_idoms g m"
  note c = IntersectDominators.simps[of ?g f1 f2]
  have ins: "m f \<noteq> None \<Longrightarrow> f \<in> set (g_blockList g)" for f using idoms_upD(1)[OF u] by blast
  have le: "idom_chain m f a \<Longrightarrow> m f \<noteq> None \<Longrightarrow> block_id g a \<le> block_id g f" for f a
    using chain_set[of m f a g] u by (cases "a = f") auto
  show ?case
  proof (cases "block_id g f1 = block_id g f2")
    case True
    then have "f1 = f2" using id_inj[OF w] ins less.prems by blast
    then show ?thesis using c less.prems by simp
  next
    case False
    obtain r1 where r1: "climb ?g f1 f2 = Some r1" "climbed g m f1 f2 r1" using climb_ok[OF u less.prems(1), of f2] by blast
    show ?thesis
    proof (cases r1)
      case None
      then show ?thesis using c r1 False le[of f2] less.prems by (fastforce simp: climbed_def)
    next
      case (Some h1)
      have h1: "m h1 \<noteq> None" "block_id g h1 \<le> block_id g f2" "block_id g h1 \<le> block_id g f1"
        "block_id g a \<le> block_id g f2 \<Longrightarrow> idom_chain m h1 a = idom_chain m f1 a" for a
        using r1(2) Some by (auto simp: climbed_def)
      have e1: "idom_chain m h1 a \<and> idom_chain m f2 a \<longleftrightarrow> idom_chain m f1 a \<and> idom_chain m f2 a" for a
        using h1(4)[of a] le[of f2 a] less.prems(2) by blast
      obtain r2 where r2: "climb ?g f2 h1 = Some r2" "climbed g m f2 h1 r2" using climb_ok[OF u less.prems(2), of h1] by blast
      show ?thesis
      proof (cases r2)
        case None
        then have "\<not> (idom_chain m f1 a \<and> idom_chain m f2 a)" for a
          using r2(2) e1[of a] le[of h1 a] h1(1) by (fastforce simp: climbed_def)
        then show ?thesis using c r1 r2(1) False None \<open>r1 = Some h1\<close> by simp
      next
        case (Some h2)
        have h2: "m h2 \<noteq> None" "block_id g h2 \<le> block_id g h1" "block_id g h2 \<le> block_id g f2"
          "block_id g a \<le> block_id g h1 \<Longrightarrow> idom_chain m h2 a = idom_chain m f2 a" for a
          using r2(2) Some by (auto simp: climbed_def)
        have e2: "idom_chain m h1 a \<and> idom_chain m h2 a \<longleftrightarrow> idom_chain m f1 a \<and> idom_chain m f2 a" for a
          using h2(4)[of a] e1[of a] le[of h1 a] h1(1) by blast
        have "block_id g h1 + block_id g h2 < block_id g f1 + block_id g f2" using False h1(2,3) h2(2,3) by linarith
        from less.hyps[OF this h1(1) h2(1), unfolded e2] show ?thesis
          using c r1(1) r2(1) False \<open>r1 = Some h1\<close> Some by simp
      qed
    qed
  qed
qed

lemma commonDominator_ok:
  assumes w: "rpo_graph g" and u: "idoms_up g m" and d: "m d \<noteq> None"
  shows "\<exists>r. commonDominator (with_idoms g m) ps d = Some r \<and>
    meet_of m (\<lambda>a. idom_chain m d a \<and> (\<forall>p \<in> set ps. m p \<noteq> None \<longrightarrow> idom_chain m p a)) r"
  using d
proof (induction ps arbitrary: d)
  case (Cons p ps)
  show ?case
  proof (cases "m p = None")
    case True
    then show ?thesis using Cons.IH[OF Cons.prems] by simp
  next
    case False
    obtain r where r: "IntersectDominators (with_idoms g m) p d = Some r" "meet_of m (\<lambda>a. idom_chain m p a \<and> idom_chain m d a) r"
      using IntersectDominators_ok[OF w u False Cons.prems] by blast
    show ?thesis
    proof (cases r)
      case None
      then show ?thesis using r False by auto
    next
      case (Some f)
      then have f: "m f \<noteq> None" "\<And>a. idom_chain m f a \<longleftrightarrow> idom_chain m p a \<and> idom_chain m d a" using r(2) by simp_all
      obtain s where s: "commonDominator (with_idoms g m) ps f = Some s"
        "meet_of m (\<lambda>a. idom_chain m f a \<and> (\<forall>p \<in> set ps. m p \<noteq> None \<longrightarrow> idom_chain m p a)) s"
        using Cons.IH[OF f(1)] by blast
      have "(\<lambda>a. idom_chain m f a \<and> (\<forall>p \<in> set ps. m p \<noteq> None \<longrightarrow> idom_chain m p a)) =
        (\<lambda>a. idom_chain m d a \<and> (\<forall>p \<in> set (p # ps). m p \<noteq> None \<longrightarrow> idom_chain m p a))"
        using f(2) False by auto
      then show ?thesis using r(1) s False Some by simp
    qed
  qed
qed simp

text \<open>What all predecessors that have a dominator yet have in common.\<close>

definition common :: "mir_graph \<Rightarrow> (nat \<Rightarrow> nat option) \<Rightarrow> nat \<Rightarrow> nat \<Rightarrow> bool" where
  "common g m b a \<longleftrightarrow> (\<forall>p \<in> set (preds g b). m p \<noteq> None \<longrightarrow> idom_chain m p a)"

abbreviation "first_pred g b \<equiv> hd (preds g b)"

lemma dominateBlock_meet:
  assumes w: "rpo_graph g" and u: "idoms_up g m" and b: "b \<in> set (g_blockList g)" "b \<notin> roots g" "m (first_pred g b) \<noteq> None" "m b \<noteq> Some b"
  shows "\<exists>r. meet_of m (common g m b) r \<and> dominateBlock b (with_idoms g m, ch) = (case r of
      None \<Rightarrow> Some (with_idoms g (m(b := Some b)), True)
    | Some d \<Rightarrow> if m b \<noteq> Some d then Some (with_idoms g (m(b := Some d)), True) else Some (with_idoms g m, ch))"
proof -
  obtain r where r: "commonDominator (with_idoms g m) (tl (preds g b)) (first_pred g b) = Some r"
    "meet_of m (\<lambda>a. idom_chain m (first_pred g b) a \<and> (\<forall>p \<in> set (tl (preds g b)). m p \<noteq> None \<longrightarrow> idom_chain m p a)) r"
    using commonDominator_ok[OF w u b(3)] by blast
  have ne: "preds g b \<noteq> []" by (rule rpo_graphD(6)[OF w b(1,2)])
  have "(\<lambda>a. idom_chain m (first_pred g b) a \<and> (\<forall>p \<in> set (tl (preds g b)). m p \<noteq> None \<longrightarrow> idom_chain m p a)) = common g m b"
    using b(3) ne by (cases "preds g b") (auto simp: common_def)
  then show ?thesis using r b(4) ne by (intro exI[of _ r]) (simp add: dominateBlock_def js_assert_def split: option.splits)
qed


subsection \<open>The invariant\<close>

text \<open>A path from \<open>d\<close> to \<open>b\<close> whose later blocks all have ids above \<open>t\<close>.\<close>

inductive path_above :: "mir_graph \<Rightarrow> nat \<Rightarrow> nat \<Rightarrow> nat \<Rightarrow> bool" for g t where
  here: "path_above g t d d"
| step: "path_above g t d p \<Longrightarrow> p \<in> set (preds g b) \<Longrightarrow> t < block_id g b \<Longrightarrow> path_above g t d b"

lemma path_above_trans: "path_above g t b c \<Longrightarrow> path_above g t a b \<Longrightarrow> path_above g t a c"
  by (induction rule: path_above.induct) (auto intro: path_above.step)

lemma path_above_mono: "path_above g t a b \<Longrightarrow> s \<le> t \<Longrightarrow> path_above g s a b"
  by (induction rule: path_above.induct) (auto intro: path_above.intros)

lemma path_above_avoids:
  assumes "path_above g t d c" "root_path g xs d" "a \<notin> set xs" "block_id g a \<le> t"
  shows "\<exists>ys. root_path g ys c \<and> a \<notin> set ys"
  using assms
proof (induction rule: path_above.induct)
  case (step d p b)
  then obtain ys where "root_path g ys p" "a \<notin> set ys" by blast
  then show ?case using step.hyps(2,3) step.prems(3) root_path.extend[of g ys p b] by (intro exI[of _ "b # ys"]) auto
qed blast

text \<open>The blocks reached by going from a block to its first predecessor, and so on up to a root.\<close>

inductive first_chain :: "mir_graph \<Rightarrow> nat \<Rightarrow> nat \<Rightarrow> bool" for g where
  here: "first_chain g b b"
| up: "b \<notin> roots g \<Longrightarrow> first_chain g (first_pred g b) a \<Longrightarrow> first_chain g b a"

definition dom_inv :: "mir_graph \<Rightarrow> (nat \<Rightarrow> nat option) \<Rightarrow> bool" where
  "dom_inv g m \<longleftrightarrow> idoms_up g m \<and> (\<forall>r \<in> roots g. m r = Some r) \<and>
     (\<forall>b d. m b = Some d \<longrightarrow> d \<noteq> b \<longrightarrow> path_above g (block_id g d) d b) \<and>
     (\<forall>b a. m b \<noteq> None \<longrightarrow> dominates g a b \<longrightarrow> idom_chain m b a) \<and>
     (\<forall>b a. m b \<noteq> None \<longrightarrow> idom_chain m b a \<longrightarrow> first_chain g b a) \<and>
     (\<forall>b. m b \<noteq> None \<longrightarrow> b \<notin> roots g \<longrightarrow> m (first_pred g b) \<noteq> None) \<and>
     (\<forall>b d x. m b = Some d \<longrightarrow> d \<noteq> b \<longrightarrow> common g m b x \<longrightarrow> block_id g x \<le> block_id g d)"

lemma dom_invD:
  assumes "dom_inv g m"
  shows "idoms_up g m" "r \<in> roots g \<Longrightarrow> m r = Some r" "m b = Some d \<Longrightarrow> d \<noteq> b \<Longrightarrow> path_above g (block_id g d) d b"
    "m b \<noteq> None \<Longrightarrow> dominates g a b \<Longrightarrow> idom_chain m b a" "m b \<noteq> None \<Longrightarrow> idom_chain m b a \<Longrightarrow> first_chain g b a"
    "m b \<noteq> None \<Longrightarrow> b \<notin> roots g \<Longrightarrow> m (first_pred g b) \<noteq> None"
    "m b = Some d \<Longrightarrow> d \<noteq> b \<Longrightarrow> common g m b x \<Longrightarrow> block_id g x \<le> block_id g d"
  using assms unfolding dom_inv_def by (elim conjE, (simp | blast)+)

text \<open>In a round, the blocks up to \<open>k\<close> have been brought up to date with their first predecessors.\<close>

definition settled :: "mir_graph \<Rightarrow> (nat \<Rightarrow> nat option) \<Rightarrow> nat \<Rightarrow> bool" where
  "settled g m k \<longleftrightarrow> (\<forall>b a. m b \<noteq> None \<longrightarrow> b \<notin> roots g \<longrightarrow> block_id g b < k \<longrightarrow> idom_chain m b a \<longrightarrow> a = b \<or> idom_chain m (first_pred g b) a)"

lemma settledD: "settled g m k \<Longrightarrow> m b \<noteq> None \<Longrightarrow> b \<notin> roots g \<Longrightarrow> block_id g b < k \<Longrightarrow> idom_chain m b a \<Longrightarrow> a = b \<or> idom_chain m (first_pred g b) a"
  by (simp add: settled_def)

lemma chain_id: "idoms_up g m \<Longrightarrow> m b \<noteq> None \<Longrightarrow> idom_chain m b a \<Longrightarrow> block_id g a \<le> block_id g b"
  using chain_set[of m b a g] by fastforce

lemma chain_above:
  assumes i: "dom_inv g m"
  shows "idom_chain m c b \<Longrightarrow> m c \<noteq> None \<Longrightarrow> path_above g (block_id g b) b c"
proof (induction rule: idom_chain.induct)
  case (up c d b)
  note u = dom_invD(1)[OF i]
  have d: "m d \<noteq> None" by (rule idoms_upD(2)[OF u up.hyps(1)])
  have "path_above g (block_id g d) d c" by (rule dom_invD(3)[OF i up.hyps(1,2)])
  then show ?case using path_above_mono path_above_trans up.IH[OF d] chain_id[OF u d up.hyps(3)] by blast
qed (rule path_above.here)

text \<open>
  A candidate in the chain of the first predecessor that is not below the old one is in the chain of the old one:
  going down the first predecessors from the old one, no block leaves the chain of the one before.
\<close>

lemma settled_chain:
  assumes w: "rpo_graph g" and i: "dom_inv g m" and s: "settled g m k"
  shows "first_chain g p e \<Longrightarrow> m p \<noteq> None \<Longrightarrow> block_id g p < k \<Longrightarrow> idom_chain m p x \<Longrightarrow> block_id g x \<le> block_id g e \<Longrightarrow> idom_chain m e x"
proof (induction rule: first_chain.induct)
  case (up p e)
  note u = dom_invD(1)[OF i]
  have p: "p \<in> set (g_blockList g)" using up.prems(1) idoms_upD(1)[OF u] by blast
  have fp: "m (first_pred g p) \<noteq> None" "block_id g (first_pred g p) < block_id g p"
    by (rule dom_invD(6)[OF i up.prems(1) up.hyps(1)], rule rpo_graphD(7)[OF w p up.hyps(1)])
  consider "x = p" | "idom_chain m (first_pred g p) x"
    using settledD[OF s up.prems(1) up.hyps(1) up.prems(2,3)] by blast
  then show ?case
  proof cases
    case 1
    have "block_id g e \<le> block_id g (first_pred g p)" if "first_chain g (first_pred g p) e" using that fp(1)
    proof (induction rule: first_chain.induct)
      case (up b a)
      then show ?case using rpo_graphD(7)[OF w, of b] idoms_upD(1)[OF u, of b] dom_invD(6)[OF i, of b] by fastforce
    qed simp
    then show ?thesis using 1 up.hyps(2) up.prems(4) fp(2) by simp
  next
    case 2
    then show ?thesis using up.IH[OF fp(1) _ 2 up.prems(4)] fp(2) up.prems(2) by simp
  qed
qed


subsection \<open>One step\<close>

text \<open>\<open>e\<close> is what the intersection of the predecessors of \<open>b\<close> gives, \<open>b\<close> itself standing for no block.\<close>

definition new_idom :: "mir_graph \<Rightarrow> (nat \<Rightarrow> nat option) \<Rightarrow> nat \<Rightarrow> nat \<Rightarrow> bool" where
  "new_idom g m b e \<longleftrightarrow> (if e = b then \<forall>a. \<not> common g m b a else m e \<noteq> None \<and> (\<forall>a. idom_chain m e a \<longleftrightarrow> common g m b a))"

definition step_ok :: "mir_graph \<Rightarrow> (nat \<Rightarrow> nat option) \<Rightarrow> nat \<Rightarrow> nat \<Rightarrow> bool" where
  "step_ok g m b e \<longleftrightarrow> rpo_graph g \<and> dom_inv g m \<and> settled g m (block_id g b) \<and> b \<in> set (g_blockList g) \<and> b \<notin> roots g \<and>
     m (first_pred g b) \<noteq> None \<and> m b \<noteq> Some b \<and> new_idom g m b e"

lemma step_okD:
  assumes "step_ok g m b e"
  shows "rpo_graph g" "dom_inv g m" "settled g m (block_id g b)" "b \<in> set (g_blockList g)" "b \<notin> roots g"
    "m (first_pred g b) \<noteq> None" "m b \<noteq> Some b" "idoms_up g m" "block_id g (first_pred g b) < block_id g b"
    "common g m b a \<Longrightarrow> idom_chain m (first_pred g b) a"
    "e = b \<Longrightarrow> \<not> common g m b a" "e \<noteq> b \<Longrightarrow> m e \<noteq> None" "e \<noteq> b \<Longrightarrow> idom_chain m e a \<longleftrightarrow> common g m b a"
proof -
  show *: "rpo_graph g" "dom_inv g m" "settled g m (block_id g b)" "b \<in> set (g_blockList g)" "b \<notin> roots g"
    "m (first_pred g b) \<noteq> None" "m b \<noteq> Some b"
    "e = b \<Longrightarrow> \<not> common g m b a" "e \<noteq> b \<Longrightarrow> m e \<noteq> None" "e \<noteq> b \<Longrightarrow> idom_chain m e a \<longleftrightarrow> common g m b a"
    using assms unfolding step_ok_def new_idom_def by (elim conjE, simp)+
  show "idoms_up g m" by (rule dom_invD(1)[OF *(2)])
  show "block_id g (first_pred g b) < block_id g b" by (rule rpo_graphD(7)[OF *(1,4,5)])
  show "common g m b a \<Longrightarrow> idom_chain m (first_pred g b) a"
    using *(6) rpo_graphD(6)[OF *(1,4,5)] by (simp add: common_def)
qed

lemma step_up:
  assumes s: "step_ok g m b e" and e: "e \<noteq> b"
  shows "idom_chain m (first_pred g b) e" "block_id g e < block_id g b"
proof -
  show f: "idom_chain m (first_pred g b) e" using step_okD(10,13)[OF s] idom_chain.here[of m e] e by blast
  show "block_id g e < block_id g b" using chain_id[OF step_okD(8,6)[OF s] f] step_okD(9)[OF s] by simp
qed

lemma chain_avoids:
  "\<not> idom_chain m c b \<Longrightarrow> idom_chain (m(b := x)) c a \<longleftrightarrow> idom_chain m c a"
proof
  show "idom_chain m c a" if "idom_chain (m(b := x)) c a" "\<not> idom_chain m c b" using that
  proof (induction rule: idom_chain.induct)
    case (up c d a)
    then have "c \<noteq> b" using idom_chain.here by auto
    then show ?case using up idom_chain.up[of m c d b] idom_chain.up[of m c d a] by auto
  qed (rule idom_chain.here)
  show "idom_chain (m(b := x)) c a" if "idom_chain m c a" "\<not> idom_chain m c b" using that
  proof (induction rule: idom_chain.induct)
    case (up c d a)
    then have "c \<noteq> b" using idom_chain.here by auto
    then have "(m(b := x)) c = Some d" using up.hyps(1) by simp
    then show ?case using up.hyps(2) up.IH up.prems idom_chain.up[of m c d b, OF up.hyps(1,2)] idom_chain.up[of "m(b := x)" c d a] by blast
  qed (rule idom_chain.here)
qed

lemma step_chain:
  assumes s: "step_ok g m b e"
  shows "idom_chain (m(b := Some e)) b a \<longleftrightarrow> a = b \<or> common g m b a"
proof (cases "e = b")
  case True
  then show ?thesis using step_okD(11)[OF s] chain_root[of "m(b := Some e)" b a] by auto
next
  case False
  have "\<not> idom_chain m e b" using chain_id[OF step_okD(8)[OF s] step_okD(12)[OF s False], of b] step_up(2)[OF s False] by auto
  then show ?thesis
    using chain_avoids[of m e b "Some e" a] step_okD(13)[OF s False] chain_up[of "m(b := Some e)" b e a] False by auto
qed

lemma step_new: "step_ok g m b e \<Longrightarrow> m b = None \<Longrightarrow> m c \<noteq> None \<Longrightarrow> \<not> idom_chain m c b"
  using chain_set[of m c b g] step_okD(8) by fastforce

lemma step_shrinks_at:
  assumes s: "step_ok g m b e" and b: "m b \<noteq> None" and c: "common g m b a"
  shows "idom_chain m b a"
proof -
  note i = step_okD(2)[OF s]
  obtain d where d: "m b = Some d" "d \<noteq> b" using b step_okD(7)[OF s] by auto
  have "first_chain g b d" by (rule dom_invD(5)[OF i b]) (use chain_up[of m b d d] d idom_chain.here in blast)
  then have "first_chain g (first_pred g b) d" using d(2) by (auto elim: first_chain.cases)
  then have "idom_chain m d a"
    using settled_chain[OF step_okD(1-3)[OF s] _ step_okD(6,9)[OF s] step_okD(10)[OF s c]] dom_invD(7)[OF i d c] by blast
  then show ?thesis using chain_up[of m b d a] d by blast
qed

lemma step_shrinks:
  assumes s: "step_ok g m b e"
  shows "idom_chain (m(b := Some e)) c a \<Longrightarrow> m c \<noteq> None \<Longrightarrow> idom_chain m c a"
proof (cases "m b = None")
  case True
  then show "idom_chain (m(b := Some e)) c a \<Longrightarrow> m c \<noteq> None \<Longrightarrow> idom_chain m c a" using step_new[OF s True] chain_avoids[of m c b] by blast
next
  case False
  show "idom_chain (m(b := Some e)) c a \<Longrightarrow> m c \<noteq> None \<Longrightarrow> idom_chain m c a"
  proof (induction rule: idom_chain.induct)
    case (up c d a)
    show ?case
    proof (cases "c = b")
      case True
      have "idom_chain (m(b := Some e)) b a" using idom_chain.up[of "m(b := Some e)" c d a, OF up.hyps] True by blast
      then show ?thesis using step_chain[OF s, of a] step_shrinks_at[OF s False, of a] idom_chain.here[of m b] True by blast
    next
      case ne: False
      then have "m c = Some d" using up.hyps(1) by simp
      then show ?thesis using up.hyps(2) up.IH idoms_upD(2)[OF step_okD(8)[OF s]] idom_chain.up[of m c d a] by blast
    qed
  qed (rule idom_chain.here)
qed

lemma step_idoms_up:
  assumes s: "step_ok g m b e"
  shows "idoms_up g (m(b := Some e))"
  unfolding idoms_up_def
proof (intro allI impI)
  fix c d assume c: "(m(b := Some e)) c = Some d"
  show "c \<in> set (g_blockList g) \<and> (m(b := Some e)) d \<noteq> None \<and> (d \<noteq> c \<longrightarrow> block_id g d < block_id g c)"
  proof (cases "c = b")
    case True
    then show ?thesis using c step_okD(4,12)[OF s] step_up(2)[OF s] by (cases "e = b") auto
  next
    case False
    then show ?thesis using c idoms_upD[OF step_okD(8)[OF s], of c d] by auto
  qed
qed

lemma path_above_pred:
  assumes s: "step_ok g m b e" and e: "e \<noteq> b"
  shows "path_above g (block_id g e) e b"
proof -
  have "path_above g (block_id g e) e (first_pred g b)"
    by (rule chain_above[OF step_okD(2)[OF s] step_up(1)[OF s e] step_okD(6)[OF s]])
  then show ?thesis using path_above.step[OF _ hd_in_set[OF rpo_graphD(6)[OF step_okD(1,4,5)[OF s]]] step_up(2)[OF s e]] by blast
qed

lemma dominates_pred: "dominates g a b \<Longrightarrow> p \<in> set (preds g b) \<Longrightarrow> a \<noteq> b \<Longrightarrow> dominates g a p"
  unfolding dominates_def using root_path.extend[of g _ p b] by (metis set_ConsD)

text \<open>
  No dominator is lost: a block \<open>a\<close> that leaves the chain of \<open>c\<close> was above \<open>b\<close>, and is avoided by a path to \<open>b\<close>
  that goes on to \<open>c\<close> over blocks with greater ids.
\<close>

lemma step_dominators:
  assumes s: "step_ok g m b e" and c: "c = b \<or> m c \<noteq> None" and a: "dominates g a c"
  shows "idom_chain (m(b := Some e)) c a"
proof -
  note i = step_okD(2)[OF s]
  let ?m = "m(b := Some e)"
  have at_b: "idom_chain ?m b x" if "dominates g x b" for x
    using dominates_pred[OF that] dom_invD(4)[OF i] step_chain[OF s, of x] unfolding common_def by blast
  show ?thesis
  proof (cases "c = b \<or> \<not> idom_chain m c b")
    case True
    then show ?thesis using at_b a c dom_invD(4)[OF i, of c a] chain_avoids[of m c b "Some e" a] by auto
  next
    case False
    then have cb: "c \<noteq> b" "m c \<noteq> None" "idom_chain m c b" using c by auto
    have ca: "idom_chain m c a" by (rule dom_invD(4)[OF i cb(2) a])
    have b: "m b \<noteq> None" using chain_set[OF cb(3) step_okD(8)[OF s] cb(2)] by simp
    have keep: "idom_chain ?m c x" if "idom_chain m c x" "idom_chain m x b" for x using that cb(2)
    proof (induction rule: idom_chain.induct)
      case (up c d x)
      have d: "m d \<noteq> None" by (rule idoms_upD(2)[OF step_okD(8)[OF s] up.hyps(1)])
      have "m x \<noteq> None" using chain_set[OF up.hyps(3) step_okD(8)[OF s] d] by simp
      then have "block_id g b \<le> block_id g d"
        using chain_id[OF step_okD(8)[OF s] _ up.prems(1)] chain_id[OF step_okD(8)[OF s] d up.hyps(3)] by simp
      then have "c \<noteq> b" using idoms_upD(3)[OF step_okD(8)[OF s] up.hyps(1,2)] by auto
      then have "?m c = Some d" using up.hyps(1) by simp
      then show ?case using up.hyps(2) up.IH[OF up.prems(1) d] idom_chain.up[of ?m c d x] by blast
    qed (rule idom_chain.here)
    consider "idom_chain m a b" | "idom_chain m b a" using chain_linear[OF ca cb(3)] by blast
    then show ?thesis
    proof cases
      case 1
      show ?thesis by (rule keep[OF ca 1])
    next
      case 2
      show ?thesis
      proof (cases "dominates g a b")
        case True
        then show ?thesis using at_b chain_trans keep[OF cb(3) idom_chain.here] by blast
      next
        case False
        then obtain xs where "root_path g xs b" "a \<notin> set xs" unfolding dominates_def by blast
        then show ?thesis
          using path_above_avoids[OF chain_above[OF i cb(3,2)], of xs a] chain_id[OF step_okD(8)[OF s] b 2] a unfolding dominates_def by blast
      qed
    qed
  qed
qed

lemma step_first_chain:
  assumes s: "step_ok g m b e" and c: "c = b \<or> m c \<noteq> None" and a: "idom_chain (m(b := Some e)) c a"
  shows "first_chain g c a"
proof (cases "c = b")
  case True
  then consider "a = b" | "common g m b a" using step_chain[OF s] a by blast
  then show ?thesis
  proof cases
    case 2
    then have "first_chain g (first_pred g b) a" by (intro dom_invD(5)[OF step_okD(2,6)[OF s]] step_okD(10)[OF s])
    then show ?thesis using True first_chain.up[OF step_okD(5)[OF s]] by blast
  qed (use True first_chain.here in blast)
next
  case False
  then show ?thesis using dom_invD(5)[OF step_okD(2)[OF s]] step_shrinks[OF s a] c by blast
qed

lemma step_common: "step_ok g m b e \<Longrightarrow> common g (m(b := Some e)) c x \<Longrightarrow> common g m c x"
  using step_shrinks[of g m b e _ x] by (auto simp: common_def)

lemma step_dom_inv:
  assumes s: "step_ok g m b e"
  shows "dom_inv g (m(b := Some e))"
proof -
  note i = step_okD(2)[OF s]
  let ?m = "m(b := Some e)"
  have some: "?m c \<noteq> None \<longleftrightarrow> c = b \<or> m c \<noteq> None" for c by simp
  have "path_above g (block_id g d) d c" if "?m c = Some d" "d \<noteq> c" for c d
    using that path_above_pred[OF s] dom_invD(3)[OF i, of c d] by (cases "c = b") auto
  moreover have "block_id g x \<le> block_id g d" if c: "?m c = Some d" "d \<noteq> c" "common g ?m c x" for c d x
  proof (cases "c = b")
    case True
    then have e: "e = d" "e \<noteq> b" using c by auto
    then have "idom_chain m e x" using step_okD(13)[OF s] step_common[OF s c(3)] True by blast
    then show ?thesis using chain_id[OF step_okD(8)[OF s] step_okD(12)[OF s e(2)]] e(1) by blast
  next
    case False
    then show ?thesis using c dom_invD(7)[OF i, of c d x] step_common[OF s c(3)] by simp
  qed
  moreover have "?m r = Some r" if "r \<in> roots g" for r using that dom_invD(2)[OF i that] step_okD(5)[OF s] by auto
  moreover have "?m (first_pred g c) \<noteq> None" if "?m c \<noteq> None" "c \<notin> roots g" for c
    using that step_okD(6)[OF s] dom_invD(6)[OF i, of c] by (cases "c = b") auto
  moreover have "idom_chain ?m c a" if "?m c \<noteq> None" "dominates g a c" for c a by (rule step_dominators[OF s some[THEN iffD1, OF that(1)] that(2)])
  moreover have "first_chain g c a" if "?m c \<noteq> None" "idom_chain ?m c a" for c a
    by (rule step_first_chain[OF s some[THEN iffD1, OF that(1)] that(2)])
  ultimately show ?thesis
    unfolding dom_inv_def by (intro conjI allI impI ballI step_idoms_up[OF s])
qed

lemma step_settled:
  assumes s: "step_ok g m b e"
  shows "settled g (m(b := Some e)) (Suc (block_id g b))"
  unfolding settled_def
proof (intro allI impI)
  let ?m = "m(b := Some e)"
  note u = step_okD(8)[OF s]
  fix c a assume c: "?m c \<noteq> None" "c \<notin> roots g" "block_id g c < Suc (block_id g b)" and a: "idom_chain ?m c a"
  have low: "idom_chain ?m p x \<longleftrightarrow> idom_chain m p x" if "m p \<noteq> None" "block_id g p < block_id g b" for p x
    using chain_avoids[of m p b] chain_id[OF u that(1), of b] that(2) by fastforce
  show "a = c \<or> idom_chain ?m (first_pred g c) a"
  proof (cases "c = b")
    case True
    then show ?thesis using a step_chain[OF s, of a] step_okD(10)[OF s, of a] low[OF step_okD(6,9)[OF s]] by blast
  next
    case False
    then have m: "m c \<noteq> None" using c(1) by simp
    then have cl: "c \<in> set (g_blockList g)" using idoms_upD(1)[OF u] by blast
    then have less: "block_id g c < block_id g b" using id_inj[OF step_okD(1)[OF s] cl step_okD(4)[OF s]] False c(3) by fastforce
    have fp: "m (first_pred g c) \<noteq> None" "block_id g (first_pred g c) < block_id g b"
      using dom_invD(6)[OF step_okD(2)[OF s] m c(2)] rpo_graphD(7)[OF step_okD(1)[OF s] cl c(2)] less by simp_all
    show ?thesis using settledD[OF step_okD(3)[OF s] m c(2) less, of a] a low[OF m less] low[OF fp] by blast
  qed
qed


subsection \<open>A round\<close>

lemma dominateBlock_step:
  assumes w: "rpo_graph g" and i: "dom_inv g m" and s: "settled g m (block_id g b)" and b: "b \<in> set (g_blockList g)" "b \<notin> roots g"
    and m: "m (first_pred g b) \<noteq> None" "m b \<noteq> Some b"
  shows "\<exists>e. step_ok g m b e \<and> dominateBlock b (with_idoms g m, ch) = Some (with_idoms g (m(b := Some e)), ch \<or> m b \<noteq> Some e)"
proof -
  note u = dom_invD(1)[OF i]
  obtain r where r: "meet_of m (common g m b) r" "dominateBlock b (with_idoms g m, ch) = (case r of
      None \<Rightarrow> Some (with_idoms g (m(b := Some b)), True)
    | Some d \<Rightarrow> if m b \<noteq> Some d then Some (with_idoms g (m(b := Some d)), True) else Some (with_idoms g m, ch))"
    using dominateBlock_meet[OF w u b m] by blast
  have same: "m b = Some d \<Longrightarrow> m(b := Some d) = m" for d by auto
  define e where "e = (case r of None \<Rightarrow> b | Some d \<Rightarrow> d)"
  have "d \<noteq> b" if "r = Some d" for d
  proof -
    have "common g m b d" using r(1) that idom_chain.here[of m d] by auto
    then have "idom_chain m (first_pred g b) d" using rpo_graphD(6)[OF w b] m(1) by (simp add: common_def)
    then show ?thesis using chain_id[OF u m(1), of d] rpo_graphD(7)[OF w b] by auto
  qed
  then have "new_idom g m b e" using r(1) by (cases r) (auto simp: new_idom_def e_def)
  then have "step_ok g m b e" using assms by (simp add: step_ok_def)
  moreover have "dominateBlock b (with_idoms g m, ch) = Some (with_idoms g (m(b := Some e)), ch \<or> m b \<noteq> Some e)"
    using r(2) m(2) same by (cases r) (auto simp: e_def)
  ultimately show ?thesis by blast
qed

definition rank :: "mir_graph \<Rightarrow> (nat \<Rightarrow> nat option) \<Rightarrow> nat \<Rightarrow> nat" where
  "rank g m b = (case m b of None \<Rightarrow> length (g_blockList g) + 1 | Some d \<Rightarrow> if d = b then 0 else block_id g d + 1)"

definition total_rank :: "mir_graph \<Rightarrow> (nat \<Rightarrow> nat option) \<Rightarrow> nat" where
  "total_rank g m = (\<Sum>b\<in>set (g_blockList g). rank g m b)"

lemma step_rank:
  assumes s: "step_ok g m b e" and ch: "m b \<noteq> Some e"
  shows "total_rank g (m(b := Some e)) < total_rank g m"
proof -
  note u = step_okD(8)[OF s]
  have less: "rank g (m(b := Some e)) b < rank g m b"
  proof (cases "m b")
    case None
    then show ?thesis using step_up(2)[OF s] id_less[OF step_okD(1,4)[OF s]] by (auto simp: rank_def)
  next
    case (Some d)
    then have d: "d \<noteq> b" "m b \<noteq> None" using step_okD(7)[OF s] by auto
    have "block_id g e < block_id g d" if e: "e \<noteq> b"
    proof -
      have "common g m b e" using step_okD(13)[OF s e] idom_chain.here by blast
      then have "idom_chain m d e" using step_shrinks_at[OF s d(2)] chain_up[of m b d e] Some d(1) e by blast
      then show ?thesis using chain_set[of m d e g] u idoms_upD(2)[OF u Some] ch Some by auto
    qed
    then show ?thesis using Some d(1) by (auto simp: rank_def)
  qed
  have "rank g (m(b := Some e)) c \<le> rank g m c" for c using less by (cases "c = b") (simp_all add: rank_def)
  then show ?thesis unfolding total_rank_def using less step_okD(4)[OF s] by (intro sum_strict_mono_ex1) auto
qed

text \<open>A block all of whose candidates agree with what it has.\<close>

definition stable :: "mir_graph \<Rightarrow> (nat \<Rightarrow> nat option) \<Rightarrow> nat \<Rightarrow> bool" where
  "stable g m b \<longleftrightarrow> b \<in> roots g \<or> m b = Some b \<or> (\<exists>d. m b = Some d \<and> d \<noteq> b \<and> (\<forall>a. idom_chain m d a \<longleftrightarrow> common g m b a))"

definition round_end :: "mir_graph \<Rightarrow> (nat \<Rightarrow> nat option) \<Rightarrow> bool \<Rightarrow> nat list \<Rightarrow> (nat \<Rightarrow> nat option) \<Rightarrow> bool \<Rightarrow> bool" where
  "round_end g m ch bs m' ch' \<longleftrightarrow> dom_inv g m' \<and> (\<forall>b. m b \<noteq> None \<longrightarrow> m' b \<noteq> None) \<and> (\<forall>b \<in> set bs. m' b \<noteq> None) \<and>
     total_rank g m' \<le> total_rank g m \<and> (ch' \<and> \<not> ch \<longrightarrow> total_rank g m' < total_rank g m) \<and> (ch \<longrightarrow> ch') \<and>
     (\<not> ch' \<longrightarrow> m' = m \<and> (\<forall>b \<in> set bs. stable g m b))"

lemma round_end_trans: "round_end g m ch [b] m1 ch1 \<Longrightarrow> round_end g m1 ch1 bs m2 ch2 \<Longrightarrow> round_end g m ch (b # bs) m2 ch2"
  unfolding round_end_def by (cases ch2; cases ch1) auto

lemma settled_Suc:
  assumes "settled g m k" "\<And>b. b \<in> set (g_blockList g) \<Longrightarrow> block_id g b = k \<Longrightarrow> b \<in> roots g \<or> m b = Some b" "idoms_up g m"
  shows "settled g m (Suc k)"
  unfolding settled_def
proof (intro allI impI)
  fix b a assume b: "m b \<noteq> None" "b \<notin> roots g" "block_id g b < Suc k" "idom_chain m b a"
  show "a = b \<or> idom_chain m (first_pred g b) a"
  proof (cases "block_id g b < k")
    case True
    show ?thesis by (rule settledD[OF assms(1) b(1,2) True b(4)])
  next
    case False
    then have "m b = Some b" using assms(2)[of b] b(1-3) idoms_upD(1)[OF assms(3), of b] by auto
    then show ?thesis using b(4) chain_root[of m b a] by blast
  qed
qed

lemma round_step:
  assumes w: "rpo_graph g" and i: "dom_inv g m" and s: "settled g m (block_id g b)" and bl: "b \<in> set (g_blockList g)"
    and seen: "b \<notin> roots g \<Longrightarrow> m (first_pred g b) \<noteq> None"
  shows "\<exists>m1 ch1. dominateBlock b (with_idoms g m, ch) = Some (with_idoms g m1, ch1) \<and> settled g m1 (Suc (block_id g b)) \<and>
    round_end g m ch [b] m1 ch1"
proof (cases "b \<in> roots g \<or> m b = Some b")
  case True
  then have mb: "m b = Some b" using dom_invD(2)[OF i] by blast
  have "settled g m (Suc (block_id g b))"
    by (rule settled_Suc[OF s _ dom_invD(1)[OF i]]) (use mb id_inj[OF w _ bl] in blast)
  then show ?thesis using mb i by (intro exI[of _ m] exI[of _ ch]) (simp add: dominateBlock_def stable_def round_end_def)
next
  case False
  then obtain e where e: "step_ok g m b e" "dominateBlock b (with_idoms g m, ch) = Some (with_idoms g (m(b := Some e)), ch \<or> m b \<noteq> Some e)"
    using dominateBlock_step[OF w i s bl _ seen] by blast
  have st: "stable g m b" if "m b = Some e"
    using that step_okD(13)[OF e(1)] step_okD(7)[OF e(1)] by (auto simp: stable_def)
  have "round_end g m ch [b] (m(b := Some e)) (ch \<or> m b \<noteq> Some e)"
  proof (cases "m b = Some e")
    case True
    then have "m(b := Some e) = m" by auto
    then show ?thesis using True st i by (simp add: round_end_def)
  next
    case False
    then show ?thesis using step_dom_inv[OF e(1)] step_rank[OF e(1)] by (simp add: round_end_def)
  qed
  then show ?thesis using e(2) step_settled[OF e(1)] by blast
qed

lemma round_ok:
  assumes w: "rpo_graph g" and "dom_inv g m" "settled g m k" "drop k (g_blockList g) = bs"
    and "\<forall>j < k. m (g_blockList g ! j) \<noteq> None"
  shows "\<exists>m' ch'. mfold dominateBlock bs (with_idoms g m, ch) = Some (with_idoms g m', ch') \<and> round_end g m ch bs m' ch'"
  using assms(2-)
proof (induction bs arbitrary: m k ch)
  case Nil
  then show ?case by (intro exI[of _ m] exI[of _ ch]) (simp add: round_end_def)
next
  case (Cons b bs)
  have kl: "k < length (g_blockList g)" "g_blockList g ! k = b" "drop (Suc k) (g_blockList g) = bs"
    using Cons.prems(3) by (metis drop_eq_Nil linorder_not_less list.distinct(1), metis nth_via_drop, metis drop_Suc list.sel(3) tl_drop)
  then have id: "block_id g b = k" and bl: "b \<in> set (g_blockList g)" using rpo_graphD(4)[OF w] nth_mem by metis+
  have seen: "m (first_pred g b) \<noteq> None" if r: "b \<notin> roots g"
  proof -
    have "first_pred g b \<in> set (g_blockList g)" using rpo_graphD(5)[OF w bl] rpo_graphD(6)[OF w bl r] by simp
    then obtain j where j: "j < length (g_blockList g)" "g_blockList g ! j = first_pred g b" by (auto simp: in_set_conv_nth)
    then have "j < k" using rpo_graphD(4)[OF w j(1)] rpo_graphD(7)[OF w bl r] id by simp
    then show ?thesis using Cons.prems(4) j(2) by metis
  qed
  obtain m1 ch1 where m1: "dominateBlock b (with_idoms g m, ch) = Some (with_idoms g m1, ch1)" "settled g m1 (Suc k)" "round_end g m ch [b] m1 ch1"
    using round_step[OF w Cons.prems(1) Cons.prems(2)[folded id] bl seen] id by blast
  have "\<forall>j < Suc k. m1 (g_blockList g ! j) \<noteq> None"
    using Cons.prems(4) m1(3) kl(2) by (auto simp: round_end_def less_Suc_eq)
  then obtain m2 ch2 where "mfold dominateBlock bs (with_idoms g m1, ch1) = Some (with_idoms g m2, ch2)" "round_end g m1 ch1 bs m2 ch2"
    using Cons.IH[of m1 "Suc k" ch1] m1(2,3) kl(3) by (auto simp: round_end_def)
  then show ?case using m1(1) round_end_trans[OF m1(3)] by auto
qed


subsection \<open>The whole computation\<close>

lemma dominators_loop_ok:
  assumes w: "rpo_graph g" and i: "dom_inv g m"
  shows "\<exists>m'. dominators_loop (with_idoms g m) = Some (with_idoms g m') \<and> dom_inv g m' \<and>
    (\<forall>b \<in> set (g_blockList g). m' b \<noteq> None \<and> stable g m' b)"
  using i
proof (induction "total_rank g m" arbitrary: m rule: less_induct)
  case less
  obtain m' ch where r: "mfold dominateBlock (g_blockList g) (with_idoms g m, False) = Some (with_idoms g m', ch)"
    "round_end g m False (g_blockList g) m' ch"
    using round_ok[OF w less.prems, of 0 "g_blockList g" False] by (auto simp: settled_def)
  note c = dominators_loop.simps[of "with_idoms g m"]
  show ?case
  proof (cases ch)
    case False
    then show ?thesis using c r by (auto simp: round_end_def)
  next
    case True
    then have "dom_inv g m'" "total_rank g m' < total_rank g m" using r(2) by (auto simp: round_end_def)
    then show ?thesis using less.hyps[of m'] c r(1) True by simp
  qed
qed

lemma idoms_sound:
  assumes w: "rpo_graph g" and i: "dom_inv g m" and st: "\<forall>b \<in> set (g_blockList g). m b \<noteq> None \<and> stable g m b"
  shows "root_path g xs b \<Longrightarrow> b \<in> set (g_blockList g) \<Longrightarrow> idom_chain m b a \<Longrightarrow> a \<in> set xs"
proof (induction arbitrary: a rule: root_path.induct)
  case (start r)
  then show ?case using dom_invD(2)[OF i start.hyps] chain_root[of m r a] by simp
next
  case (extend xs p b)
  have p: "p \<in> set (g_blockList g)" by (rule rpo_graphD(5)[OF w extend.prems(1) extend.hyps(2)])
  consider "m b = Some b" | d where "m b = Some d" "d \<noteq> b" "\<forall>a. idom_chain m d a \<longleftrightarrow> common g m b a"
    using st extend.prems(1) dom_invD(2)[OF i, of b] unfolding stable_def by blast
  then show ?case
  proof cases
    case 1
    then show ?thesis using extend.prems(2) chain_root[of m b a] by simp
  next
    case 2
    then have "a = b \<or> common g m b a" using extend.prems(2) chain_up[of m b d a] by blast
    then show ?thesis using extend.IH[OF p] extend.hyps(2) st p by (auto simp: common_def)
  qed
qed

definition fresh_dominators :: "mir_graph \<Rightarrow> bool" where
  "fresh_dominators g \<longleftrightarrow> (\<forall>b. immediateDominator g b = None \<and> bl_immediatelyDominated (g_blocks g b) = [] \<and> bl_numDominated (g_blocks g b) = 0)"

lemma initial_dom_inv:
  assumes w: "rpo_graph g"
  shows "dom_inv g (\<lambda>b. if b \<in> roots g then Some b else None)"
proof -
  let ?m = "\<lambda>b. if b \<in> roots g then Some b else None"
  have "a = b" if "dominates g a b" "b \<in> roots g" for a b using that root_path.start[of b g] unfolding dominates_def by fastforce
  moreover have "idom_chain ?m b a \<longleftrightarrow> a = b" for a b by (rule chain_root) simp
  ultimately show ?thesis
    unfolding dom_inv_def idoms_up_def using rpo_graphD(2)[OF w] by (auto intro: first_chain.here split: if_splits)
qed

lemma ComputeImmediateDominators_ok:
  assumes w: "rpo_graph g" and f: "fresh_dominators g"
  shows "\<exists>m. ComputeImmediateDominators g = Some (with_idoms g m) \<and> dom_inv g m \<and>
    (\<forall>b \<in> set (g_blockList g). m b \<noteq> None \<and> (\<forall>a. idom_chain m b a \<longleftrightarrow> dominates g a b))"
proof -
  let ?m = "\<lambda>b. if b \<in> roots g then Some b else None"
  obtain m where m: "dominators_loop (with_idoms g ?m) = Some (with_idoms g m)" "dom_inv g m"
    "\<forall>b \<in> set (g_blockList g). m b \<noteq> None \<and> stable g m b"
    using dominators_loop_ok[OF w initial_dom_inv[OF w]] by blast
  have g: "g = with_idoms g (\<lambda>_. None)" using with_idoms_self[of g] f by (simp add: fresh_dominators_def)
  have "ComputeImmediateDominators (with_idoms g (\<lambda>_. None)) = Some (with_idoms g m)"
  proof -
    have "(case g_osrBlock g of None \<Rightarrow> with_idoms g ((\<lambda>_. None)(hd (g_blockList g) := Some (hd (g_blockList g))))
       | Some r \<Rightarrow> setImmediateDominator r (Some r) (with_idoms g ((\<lambda>_. None)(hd (g_blockList g) := Some (hd (g_blockList g)))))) = with_idoms g ?m"
      by (auto simp: roots_def fun_eq_iff split: option.splits intro!: arg_cong[where f = "with_idoms g"])
    then show ?thesis using m(1,3) rpo_graphD(1)[OF w] by (simp add: ComputeImmediateDominators_def)
  qed
  moreover have "idom_chain m b a \<longleftrightarrow> dominates g a b" if b: "b \<in> set (g_blockList g)" for a b
    using idoms_sound[OF w m(2,3) _ b] dom_invD(4)[OF m(2), of b a] m(3) b unfolding dominates_def by blast
  ultimately show ?thesis using m(2,3) g by (intro exI[of _ m]) simp
qed

lemma idom_cases:
  assumes ch: "\<forall>a. idom_chain m b a \<longleftrightarrow> dominates g a b" and d: "m b = Some d" and dc: "\<forall>a. idom_chain m d a \<longleftrightarrow> dominates g a d"
  shows "if d = b then \<forall>a. dominates g a b \<longrightarrow> a = b else dominates g d b \<and> (\<forall>a. dominates g a b \<and> a \<noteq> b \<longrightarrow> dominates g a d)"
proof (cases "d = b")
  case True
  then show ?thesis using ch d chain_root[of m b] by auto
next
  case False
  have "idom_chain m b a \<longleftrightarrow> a = b \<or> idom_chain m d a" for a using chain_up[of m b d a] d False by blast
  then show ?thesis using ch dc False idom_chain.here[of m d] by auto
qed

subsection \<open>The tree\<close>

definition with_tree :: "mir_graph \<Rightarrow> (nat \<Rightarrow> nat option) \<Rightarrow> (nat \<Rightarrow> nat list) \<Rightarrow> (nat \<Rightarrow> nat) \<Rightarrow> mir_graph" where
  "with_tree g m L N = g\<lparr>g_blocks := (\<lambda>b. (g_blocks g b)\<lparr>bl_immediatelyDominated := L b,
     bl_immediateDominator := m b, bl_numDominated := N b\<rparr>)\<rparr>"

lemma with_tree_simps [simp]:
  "immediateDominator (with_tree g m L N) b = m b" "bl_immediatelyDominated (g_blocks (with_tree g m L N) b) = L b"
  "bl_numDominated (g_blocks (with_tree g m L N) b) = N b"
  "g_blockList (with_tree g m L N) = g_blockList g" "g_osrBlock (with_tree g m L N) = g_osrBlock g"
  "updBlock b (\<lambda>bl. bl\<lparr>bl_immediatelyDominated := bl_immediatelyDominated bl @ [c]\<rparr>) (with_tree g m L N) =
     with_tree g m (L(b := L b @ [c])) N"
  "addNumDominated b n (with_tree g m L N) = with_tree g m L (N(b := N b + n))"
  by (auto simp: with_tree_def addNumDominated_def updBlock_def fun_eq_iff)

lemma with_idoms_tree: "fresh_dominators g \<Longrightarrow> with_idoms g m = with_tree g m (\<lambda>_. []) (\<lambda>_. 0)"
  by (simp add: with_idoms_def with_tree_def fresh_dominators_def fun_eq_iff)

text \<open>The children of a block with ids from \<open>k\<close> on, and the blocks below those children.\<close>

definition children :: "mir_graph \<Rightarrow> (nat \<Rightarrow> nat option) \<Rightarrow> nat \<Rightarrow> nat \<Rightarrow> nat set" where
  "children g m k b = {c \<in> set (g_blockList g). m c = Some b \<and> c \<noteq> b \<and> k \<le> block_id g c}"

definition below :: "mir_graph \<Rightarrow> (nat \<Rightarrow> nat option) \<Rightarrow> nat \<Rightarrow> nat \<Rightarrow> nat set" where
  "below g m k b = {a \<in> set (g_blockList g). \<exists>c \<in> children g m k b. idom_chain m a c}"

definition tree_inv :: "mir_graph \<Rightarrow> (nat \<Rightarrow> nat option) \<Rightarrow> nat \<Rightarrow> (nat \<Rightarrow> nat list) \<Rightarrow> (nat \<Rightarrow> nat) \<Rightarrow> bool" where
  "tree_inv g m k L N \<longleftrightarrow> (\<forall>b. distinct (L b) \<and> set (L b) = children g m k b \<and> N b = card (below g m k b))"

lemma chain_below:
  assumes u: "idoms_up g m" and t: "\<forall>b \<in> set (g_blockList g). m b \<noteq> None" and a: "a \<in> set (g_blockList g)"
  shows "a \<noteq> b \<and> idom_chain m a b \<longleftrightarrow> a \<in> below g m 0 b"
proof
  show "a \<in> below g m 0 b" if "a \<noteq> b \<and> idom_chain m a b"
  proof -
    have "idom_chain m a b \<Longrightarrow> a \<noteq> b \<Longrightarrow> a \<in> set (g_blockList g) \<Longrightarrow> \<exists>c \<in> children g m 0 b. idom_chain m a c" for a b
    proof (induction rule: idom_chain.induct)
      case (up a d b)
      show ?case
      proof (cases "d = b")
        case True
        then show ?thesis using up.hyps(1,2) up.prems(2) by (auto simp: children_def intro: idom_chain.here)
      next
        case False
        have "d \<in> set (g_blockList g)" using idoms_upD(1)[OF u] idoms_upD(2)[OF u up.hyps(1)] by blast
        then show ?thesis using up.IH[OF False] idom_chain.up[of m a d] up.hyps(1,2) by blast
      qed
    qed simp
    then show ?thesis using that a by (auto simp: below_def)
  qed
  show "a \<noteq> b \<and> idom_chain m a b" if "a \<in> below g m 0 b"
  proof -
    obtain c where c: "m c = Some b" "c \<noteq> b" "idom_chain m a c" using \<open>a \<in> below g m 0 b\<close> by (auto simp: below_def children_def)
    have "block_id g b < block_id g c" using idoms_upD(3)[OF u c(1)] c(2) by auto
    moreover have "block_id g c \<le> block_id g a" using chain_set[OF c(3) u] t a by (cases "c = a") auto
    ultimately have "a \<noteq> b" by auto
    then show ?thesis using chain_trans[OF c(3), of b] chain_up[of m c b b] c(1,2) idom_chain.here[of m b] by blast
  qed
qed

lemma below_step:
  assumes u: "idoms_up g m" and t: "\<forall>b \<in> set (g_blockList g). m b \<noteq> None" and w: "rpo_graph g"
    and c: "c \<in> set (g_blockList g)" "m c = Some p" "c \<noteq> p"
  shows "children g m (block_id g c) p = insert c (children g m (Suc (block_id g c)) p)"
    "card (below g m (block_id g c) p) = card (below g m (Suc (block_id g c)) p) + (card (below g m (Suc (block_id g c)) c) + 1)"
proof -
  let ?k = "block_id g c"
  show ch: "children g m ?k p = insert c (children g m (Suc ?k) p)"
    using c id_inj[OF w] by (force simp: children_def le_Suc_eq Suc_le_eq)
  have all: "children g m (Suc ?k) c = children g m 0 c"
    using idoms_upD(3)[OF u] by (fastforce simp: children_def)
  have sub: "{a \<in> set (g_blockList g). idom_chain m a c} = insert c (below g m (Suc ?k) c)"
  proof -
    have "a \<in> below g m (Suc ?k) c \<longleftrightarrow> a \<noteq> c \<and> idom_chain m a c" if "a \<in> set (g_blockList g)" for a
      using chain_below[OF u t that, of c] by (simp add: below_def all)
    then show ?thesis using c(1) idom_chain.here[of m c] by (auto simp: below_def)
  qed
  have cn: "c \<notin> below g m (Suc ?k) c" using chain_below[OF u t c(1), of c] by (simp add: below_def all)
  have split: "below g m ?k p = below g m (Suc ?k) p \<union> {a \<in> set (g_blockList g). idom_chain m a c}"
    by (auto simp: below_def ch)
  have pc: "\<not> idom_chain m p x" if "m x = Some p" "x \<noteq> p" for x
  proof
    assume "idom_chain m p x"
    then have "block_id g x \<le> block_id g p" using chain_set[of m p x g] u idoms_upD(2)[OF u c(2)] by (cases "x = p") auto
    then show False using idoms_upD(3)[OF u that(1)] that(2) by auto
  qed
  have disj: "below g m (Suc ?k) p \<inter> {a \<in> set (g_blockList g). idom_chain m a c} = {}"
  proof (rule ccontr)
    assume "\<not> ?thesis"
    then obtain a x where x: "idom_chain m a c" "idom_chain m a x" "m x = Some p" "x \<noteq> p" "Suc (block_id g c) \<le> block_id g x"
      unfolding below_def children_def by blast
    then have "x \<noteq> c" by auto
    from chain_linear[OF x(1,2)] show False
      using chain_up[of m c p x] chain_up[of m x p c] c(2) x(3) c(3) x(4) \<open>x \<noteq> c\<close> pc[OF x(3,4)] pc[OF c(2)] by auto
  qed
  have "finite (below g m j b)" for j b by (simp add: below_def)
  then show "card (below g m ?k p) = card (below g m (Suc ?k) p) + (card (below g m (Suc ?k) c) + 1)"
    unfolding split using card_Un_disjoint[OF _ _ disj] cn by (simp add: sub)
qed

lemma other_children:
  assumes "rpo_graph g" "c \<in> set (g_blockList g)" "m c = Some p" "b \<noteq> p \<or> c = p"
  shows "children g m (block_id g c) b = children g m (Suc (block_id g c)) b"
  using assms id_inj[OF assms(1)] by (force simp: children_def le_Suc_eq Suc_le_eq)

text \<open>The blocks of the list with ids from \<open>k\<close> on have been processed.\<close>

lemma addBlocksToTree_ok:
  assumes w: "rpo_graph g" and u: "idoms_up g m" and t: "\<forall>b \<in> set (g_blockList g). m b \<noteq> None"
  shows "k \<le> length (g_blockList g) \<Longrightarrow> tree_inv g m k L N \<Longrightarrow>
    \<exists>ok L' N'. addBlocksToTree mem (rev (take k (g_blockList g))) (with_tree g m L N) = Some (ok, with_tree g m L' N') \<and>
      ((\<forall>n. mem n) \<longrightarrow> ok) \<and> (ok \<longrightarrow> tree_inv g m 0 L' N')"
proof (induction k arbitrary: L N)
  case 0
  then show ?case by auto
next
  case (Suc k)
  let ?c = "g_blockList g ! k"
  have c: "?c \<in> set (g_blockList g)" "block_id g ?c = k" using Suc.prems(1) rpo_graphD(4)[OF w] by auto
  have bs: "rev (take (Suc k) (g_blockList g)) = ?c # rev (take k (g_blockList g))"
    using Suc.prems(1) by (simp add: take_Suc_conv_app_nth)
  obtain p where p: "m ?c = Some p" using t c(1) by blast
  have k: "k \<le> length (g_blockList g)" using Suc.prems(1) by simp
  have other: "children g m k b = children g m (Suc k) b" if "b \<noteq> p \<or> ?c = p" for b
    using other_children[where m = m, OF w c(1) p that] unfolding c(2) .
  show ?case
  proof (cases "?c = p")
    case True
    then have "tree_inv g m k L N" using Suc.prems(2) other by (simp add: tree_inv_def below_def)
    from Suc.IH[OF k this] show ?thesis unfolding bs using p True by simp
  next
    case False
    note step = below_step[OF u t w c(1) p False, unfolded c(2)]
    let ?L = "L(p := L p @ [?c])" and ?N = "N(p := N p + (N ?c + 1))"
    have "?c \<notin> children g m (Suc k) p" by (simp add: children_def c(2))
    then have "tree_inv g m k ?L ?N"
      using Suc.prems(2) step other False by (auto simp: tree_inv_def below_def)
    from Suc.IH[OF k this] have "\<exists>ok L' N'. addBlocksToTree mem (rev (take k (g_blockList g))) (with_tree g m ?L ?N) =
        Some (ok, with_tree g m L' N') \<and> ((\<forall>n. mem n) \<longrightarrow> ok) \<and> (ok \<longrightarrow> tree_inv g m 0 L' N')" .
    then show ?thesis unfolding bs using p False by (auto simp: addImmediatelyDominatedBlock_def)
  qed
qed

lemma start_dominates:
  assumes "g_osrBlock g = None"
  shows "dominates g (hd (g_blockList g)) b"
proof -
  have "root_path g xs b \<Longrightarrow> hd (g_blockList g) \<in> set xs" for xs
    by (induction rule: root_path.induct) (use assms in \<open>auto simp: roots_def\<close>)
  then show ?thesis by (simp add: dominates_def)
qed

lemma BuildDominatorTree_ok:
  assumes w: "rpo_graph g" and f: "fresh_dominators g"
  shows "\<exists>ok m L N. BuildDominatorTree mem g = Some (ok, with_tree g m L N) \<and> ((\<forall>n. mem n) \<longrightarrow> ok) \<and>
    dom_inv g m \<and> (\<forall>b \<in> set (g_blockList g). m b \<noteq> None \<and> (\<forall>a. idom_chain m b a \<longleftrightarrow> dominates g a b)) \<and>
    (ok \<longrightarrow> tree_inv g m 0 L N)"
proof -
  obtain m where m: "ComputeImmediateDominators g = Some (with_idoms g m)" "dom_inv g m"
    "\<forall>b \<in> set (g_blockList g). m b \<noteq> None \<and> (\<forall>a. idom_chain m b a \<longleftrightarrow> dominates g a b)"
    using ComputeImmediateDominators_ok[OF w f] by blast
  note u = dom_invD(1)[OF m(2)]
  let ?n = "length (g_blockList g)"
  have "children g m ?n b = {}" for b using id_less[OF w] by (fastforce simp: children_def)
  then have "tree_inv g m ?n (\<lambda>_. []) (\<lambda>_. 0)" by (simp add: tree_inv_def below_def)
  with addBlocksToTree_ok[OF w u, of ?n] m(3) obtain ok L N where
    l: "addBlocksToTree mem (rev (g_blockList g)) (with_tree g m (\<lambda>_. []) (\<lambda>_. 0)) = Some (ok, with_tree g m L N)"
      "(\<forall>n. mem n) \<longrightarrow> ok" "ok \<longrightarrow> tree_inv g m 0 L N"
    by (metis le_refl take_all)
  have "N (hd (g_blockList g)) = ?n - 1" if "g_osrBlock g = None" ok
  proof -
    let ?r = "hd (g_blockList g)"
    have "below g m 0 ?r = set (g_blockList g) - {?r}"
      using chain_below[OF u, of _ ?r] m(3) start_dominates[OF that(1)] by (auto simp: below_def)
    moreover have "?r \<in> set (g_blockList g)" using rpo_graphD(1)[OF w] by simp
    ultimately show ?thesis using l(3) that(2) distinct_card[OF rpo_graphD(3)[OF w]] by (simp add: tree_inv_def)
  qed
  then have "BuildDominatorTree mem g = Some (ok, with_tree g m L N)"
    using m(1) l(1) with_idoms_tree[OF f, of m] by (simp add: BuildDominatorTree_def)
  then show ?thesis using l(2,3) m(2,3) by blast
qed

lemma dominator_tree:
  assumes "rpo_graph g" "fresh_dominators g"
  shows "\<exists>ok g'. BuildDominatorTree mem g = Some (ok, g') \<and> ((\<forall>n. mem n) \<longrightarrow> ok) \<and>
    (ok \<longrightarrow> (\<forall>b \<in> set (g_blockList g).
      (\<exists>d. immediateDominator g' b = Some d \<and>
        (if d = b then \<forall>a. dominates g a b \<longrightarrow> a = b
         else dominates g d b \<and> (\<forall>a. dominates g a b \<and> a \<noteq> b \<longrightarrow> dominates g a d))) \<and>
      distinct (bl_immediatelyDominated (g_blocks g' b)) \<and>
      set (bl_immediatelyDominated (g_blocks g' b)) = {c \<in> set (g_blockList g). immediateDominator g' c = Some b \<and> c \<noteq> b} \<and>
      bl_numDominated (g_blocks g' b) = card {a \<in> set (g_blockList g). a \<noteq> b \<and> dominates g b a}))"
proof -
  obtain ok m L N where b: "BuildDominatorTree mem g = Some (ok, with_tree g m L N)" "(\<forall>n. mem n) \<longrightarrow> ok" "dom_inv g m"
    "\<forall>b \<in> set (g_blockList g). m b \<noteq> None \<and> (\<forall>a. idom_chain m b a \<longleftrightarrow> dominates g a b)" "ok \<longrightarrow> tree_inv g m 0 L N"
    using BuildDominatorTree_ok[OF assms, of mem] by (elim exE conjE) (rule that)
  note u = dom_invD(1)[OF b(3)]
  have idom: "\<exists>d. m x = Some d \<and> (if d = x then \<forall>a. dominates g a x \<longrightarrow> a = x
      else dominates g d x \<and> (\<forall>a. dominates g a x \<and> a \<noteq> x \<longrightarrow> dominates g a d))" if x: "x \<in> set (g_blockList g)" for x
  proof -
    obtain d where d: "m x = Some d" using b(4) x by blast
    then have "d \<in> set (g_blockList g)" using idoms_upD(1)[OF u] idoms_upD(2)[OF u d] by blast
    then show ?thesis using idom_cases[of m x g d] d b(4) x by blast
  qed
  have below: "below g m 0 x = {a \<in> set (g_blockList g). a \<noteq> x \<and> dominates g x a}" for x
  proof (rule set_eqI)
    fix a
    have t: "\<forall>b \<in> set (g_blockList g). m b \<noteq> None" using b(4) by blast
    show "a \<in> below g m 0 x \<longleftrightarrow> a \<in> {a \<in> set (g_blockList g). a \<noteq> x \<and> dominates g x a}"
    proof (cases "a \<in> set (g_blockList g)")
      case True
      then show ?thesis using chain_below[OF u t True, of x] b(4) by simp
    next
      case False
      then show ?thesis by (simp add: below_def)
    qed
  qed
  have "distinct (L x)" "set (L x) = {c \<in> set (g_blockList g). m c = Some x \<and> c \<noteq> x}"
    "N x = card {a \<in> set (g_blockList g). a \<noteq> x \<and> dominates g x a}" if ok for x
    using b(5)[rule_format, OF that] unfolding tree_inv_def below by (simp_all add: children_def)
  with idom have "ok \<longrightarrow> (\<forall>x \<in> set (g_blockList g).
      (\<exists>d. m x = Some d \<and> (if d = x then \<forall>a. dominates g a x \<longrightarrow> a = x
         else dominates g d x \<and> (\<forall>a. dominates g a x \<and> a \<noteq> x \<longrightarrow> dominates g a d))) \<and>
      distinct (L x) \<and> set (L x) = {c \<in> set (g_blockList g). m c = Some x \<and> c \<noteq> x} \<and>
      N x = card {a \<in> set (g_blockList g). a \<noteq> x \<and> dominates g x a})"
    by blast
  with b(1,2) show ?thesis
    by - (rule exI[of _ ok], rule exI[of _ "with_tree g m L N"], simp only: with_tree_simps simp_thms)
qed

subsection \<open>Renumbering\<close>

text \<open>Every block but the roots has predecessors, and the first of them comes before it in the list.\<close>

definition in_rpo :: "mir_graph \<Rightarrow> bool" where
  "in_rpo g \<longleftrightarrow> g_blockList g \<noteq> [] \<and> roots g \<subseteq> set (g_blockList g) \<and> distinct (g_blockList g) \<and>
     (\<forall>i < length (g_blockList g). set (preds g (g_blockList g ! i)) \<subseteq> set (g_blockList g) \<and>
        (g_blockList g ! i \<notin> roots g \<longrightarrow> preds g (g_blockList g ! i) \<noteq> [] \<and>
           hd (preds g (g_blockList g ! i)) \<in> set (take i (g_blockList g))))"

abbreviation "renumber \<equiv> \<lambda>(i, b). updBlock b (\<lambda>bl. bl\<lparr>bl_id := i\<rparr>)"

lemma renumber_others:
  "g_blockList (fold renumber xs g) = g_blockList g" "g_osrBlock (fold renumber xs g) = g_osrBlock g"
  "preds (fold renumber xs g) b = preds g b" "immediateDominator (fold renumber xs g) b = immediateDominator g b"
  "bl_immediatelyDominated (g_blocks (fold renumber xs g) b) = bl_immediatelyDominated (g_blocks g b)"
  "bl_numDominated (g_blocks (fold renumber xs g) b) = bl_numDominated (g_blocks g b)"
  "b \<notin> snd ` set xs \<Longrightarrow> block_id (fold renumber xs g) b = block_id g b"
  by (induction xs arbitrary: g) (auto simp: updBlock_def)

lemma renumber_ids:
  "distinct bs \<Longrightarrow> i < length bs \<Longrightarrow> block_id (fold renumber (enumerate n bs) g) (bs ! i) = n + i"
proof (induction bs arbitrary: n i g)
  case (Cons b bs)
  show ?case
  proof (cases i)
    case 0
    have "snd ` set (enumerate (Suc n) bs) = set bs" by (metis list.set_map map_snd_enumerate)
    then have "b \<notin> snd ` set (enumerate (Suc n) bs)" using Cons.prems(1) by simp
    from renumber_others(7)[OF this, of "updBlock b (\<lambda>bl. bl\<lparr>bl_id := n\<rparr>) g"]
    have "block_id (fold renumber (enumerate (Suc n) bs) (updBlock b (\<lambda>bl. bl\<lparr>bl_id := n\<rparr>) g)) b = n"
      by (simp add: updBlock_def[of b])
    then show ?thesis using 0 by simp
  next
    case (Suc j)
    then show ?thesis using Cons by simp
  qed
qed simp

lemma RenumberBlocks_others [simp]:
  "g_blockList (RenumberBlocks g) = g_blockList g" "g_osrBlock (RenumberBlocks g) = g_osrBlock g"
  "preds (RenumberBlocks g) b = preds g b" "roots (RenumberBlocks g) = roots g"
  by (simp_all add: RenumberBlocks_def renumber_others roots_def)

lemma RenumberBlocks_rpo:
  assumes "in_rpo g"
  shows "rpo_graph (RenumberBlocks g)"
proof -
  have d: "distinct (g_blockList g)" using assms by (simp add: in_rpo_def)
  have id: "block_id (RenumberBlocks g) (g_blockList g ! i) = i" if "i < length (g_blockList g)" for i
    using renumber_ids[OF d that, of 0] by (simp add: RenumberBlocks_def)
  have "set (preds g b) \<subseteq> set (g_blockList g) \<and>
      (b \<notin> roots g \<longrightarrow> preds g b \<noteq> [] \<and> block_id (RenumberBlocks g) (hd (preds g b)) < block_id (RenumberBlocks g) b)"
    if b: "b \<in> set (g_blockList g)" for b
  proof -
    obtain i where i: "i < length (g_blockList g)" "b = g_blockList g ! i" using b by (metis in_set_conv_nth)
    have less: "block_id (RenumberBlocks g) p < i" if "p \<in> set (take i (g_blockList g))" for p
    proof -
      have "p \<in> (!) (g_blockList g) ` {0..<i}" using that i(1) nth_image[of i "g_blockList g"] by simp
      then obtain j where "j < i" "p = g_blockList g ! j" by auto
      then show ?thesis using id[of j] i(1) by simp
    qed
    have "set (preds g b) \<subseteq> set (g_blockList g)"
      "b \<notin> roots g \<longrightarrow> preds g b \<noteq> [] \<and> hd (preds g b) \<in> set (take i (g_blockList g))"
      using assms i unfolding in_rpo_def by blast+
    then show ?thesis using less[of "hd (preds g b)"] id[OF i(1), folded i(2)] by simp
  qed
  then show ?thesis using assms id by (simp add: rpo_graph_def in_rpo_def)
qed

lemma RenumberBlocks_dominates: "dominates (RenumberBlocks g) a b = dominates g a b"
proof -
  have "root_path (RenumberBlocks g) xs b = root_path g xs b" for xs
  proof
    show "root_path (RenumberBlocks g) xs b \<Longrightarrow> root_path g xs b"
      by (induction rule: root_path.induct) (simp_all add: root_path.intros)
    show "root_path g xs b \<Longrightarrow> root_path (RenumberBlocks g) xs b"
    proof (induction rule: root_path.induct)
      case (extend xs p b)
      then show ?case using root_path.extend[of "RenumberBlocks g" xs p b] by simp
    qed (simp add: root_path.start)
  qed
  then show ?thesis by (simp add: dominates_def)
qed

text \<open>
  C14: the dominator tree. On a graph whose blocks are listed in reverse postorder (see
  \<open>in_rpo\<close>) and have no dominator information yet, renumbering and construction end without a failed assertion or a null dereference, and
  the construction succeeds when the vectors of children can grow. After a success every block has an immediate
  dominator: itself if no other block dominates it, and otherwise the block that dominates it and is
  dominated by all its other dominators, where a block dominates another if it lies on every path to it
  from the start block or the OSR block. The children of a block are the blocks it
  immediately dominates, each once, and \<open>numDominated\<close> counts the blocks that it strictly dominates.
\<close>

theorem dominator_tree_correct:
  assumes "in_rpo g" "fresh_dominators g"
  shows "\<exists>ok g'. BuildDominatorTree mem (RenumberBlocks g) = Some (ok, g') \<and> ((\<forall>n. mem n) \<longrightarrow> ok) \<and>
    (ok \<longrightarrow> (\<forall>b \<in> set (g_blockList g).
      (\<exists>d. immediateDominator g' b = Some d \<and>
        (if d = b then \<forall>a. dominates g a b \<longrightarrow> a = b
         else dominates g d b \<and> (\<forall>a. dominates g a b \<and> a \<noteq> b \<longrightarrow> dominates g a d))) \<and>
      distinct (bl_immediatelyDominated (g_blocks g' b)) \<and>
      set (bl_immediatelyDominated (g_blocks g' b)) = {c \<in> set (g_blockList g). immediateDominator g' c = Some b \<and> c \<noteq> b} \<and>
      bl_numDominated (g_blocks g' b) = card {a \<in> set (g_blockList g). a \<noteq> b \<and> dominates g b a}))"
proof -
  have "fresh_dominators (RenumberBlocks g)"
    using assms(2) by (simp add: fresh_dominators_def RenumberBlocks_def renumber_others)
  from dominator_tree[OF RenumberBlocks_rpo[OF assms(1)] this, of mem, unfolded RenumberBlocks_dominates RenumberBlocks_others]
  show ?thesis .
qed

text \<open>A diamond: block 3 can be reached through 1 and 2, so only block 0 dominates it.\<close>

definition diamond_block :: "nat list \<Rightarrow> mblock" where
  "diamond_block ps = \<lparr>bl_info = \<lparr>ci_fun = None, ci_script_nslots = 0, ci_nfixed = 0\<rparr>, bl_instructions = [],
     bl_predecessors = ps, bl_phis = [], bl_slots = [], bl_stackPosition = 0, bl_lastIns = None, bl_pc = 0, bl_id = 0,
     bl_start = None, bl_entryResumePoint = None, bl_successorWithPhis = None, bl_positionInPhiSuccessor = 0,
     bl_kind = NORMAL, bl_loopDepth = 0, bl_mark = False, bl_immediatelyDominated = [], bl_containedInLoop = [],
     bl_immediateDominator = None, bl_numDominated = 0, bl_loopHeader = None\<rparr>"

definition diamond :: mir_graph where
  "diamond = \<lparr>g_nodes = (\<lambda>k. blank_node Op_Goto 0), g_blocks = (\<lambda>b. diamond_block (if b = 0 then [] else if b = 3 then [1, 2] else [0])),
     g_blockList = [0, 1, 2, 3], g_blockIdGen = 4, g_idGen = 0, g_succs = (\<lambda>b. if b = 0 then [1, 2] else if b = 3 then [] else [3]),
     g_nextNode = 0, g_nextBlock = 4, g_osrBlock = None\<rparr>"

theorem dominator_tree_correct_witness:
  "\<exists>g'. BuildDominatorTree (\<lambda>n. True) (RenumberBlocks diamond) = Some (True, g') \<and>
    (\<exists>d. immediateDominator g' 3 = Some d \<and> (d = 3 \<or> dominates diamond d 3)) \<and>
    bl_numDominated (g_blocks g' 0) = card {a \<in> {0, 1, 2, 3}. a \<noteq> 0 \<and> dominates diamond 0 a}"
proof -
  have rpo: "in_rpo diamond"
    by (simp add: in_rpo_def diamond_def diamond_block_def roots_def less_Suc_eq numeral_eq_Suc)
  have fresh: "fresh_dominators diamond" by (simp add: fresh_dominators_def diamond_def diamond_block_def)
  have bl: "set (g_blockList diamond) = {0, 1, 2, 3}" by (simp add: diamond_def)
  from dominator_tree_correct[OF rpo fresh, of "\<lambda>n. True", unfolded bl] obtain ok g' where
    r: "BuildDominatorTree (\<lambda>n. True) (RenumberBlocks diamond) = Some (ok, g')" "(\<forall>n :: nat. True) \<longrightarrow> ok"
      "ok \<longrightarrow> (\<forall>b \<in> {0, 1, 2, 3}. (\<exists>d. immediateDominator g' b = Some d \<and>
        (if d = b then \<forall>a. dominates diamond a b \<longrightarrow> a = b
         else dominates diamond d b \<and> (\<forall>a. dominates diamond a b \<and> a \<noteq> b \<longrightarrow> dominates diamond a d))) \<and>
      distinct (bl_immediatelyDominated (g_blocks g' b)) \<and>
      set (bl_immediatelyDominated (g_blocks g' b)) = {c \<in> {0, 1, 2, 3}. immediateDominator g' c = Some b \<and> c \<noteq> b} \<and>
      bl_numDominated (g_blocks g' b) = card {a \<in> {0, 1, 2, 3}. a \<noteq> b \<and> dominates diamond b a})"
    by (elim exE conjE) (rule that)
  have ok: ok using r(2) by simp
  note d = r(3)[rule_format, OF ok]
  obtain d where "immediateDominator g' 3 = Some d" "if d = 3 then \<forall>a. dominates diamond a 3 \<longrightarrow> a = 3
      else dominates diamond d 3 \<and> (\<forall>a. dominates diamond a 3 \<and> a \<noteq> 3 \<longrightarrow> dominates diamond a d)"
    using d[of 3] by blast
  moreover from this(2) have "d = 3 \<or> dominates diamond d 3" by argo
  moreover have "bl_numDominated (g_blocks g' 0) = card {a \<in> {0, 1, 2, 3}. a \<noteq> 0 \<and> dominates diamond 0 a}"
    using d[of 0] by blast
  moreover have "BuildDominatorTree (\<lambda>n. True) (RenumberBlocks diamond) = Some (True, g')" using r(1) ok by simp
  ultimately show ?thesis by blast
qed

end
