(* ===== verification/Spec2Isabelle.thy ===== *)
theory Spec2Isabelle
  imports Register_Sets Snapshot_Encoding Safepoints Stack_Slots Move_Emitter Live_Intervals Block_Code Type_Analysis Dominators
begin

text \<open>
  Verification of the core of IonMonkey, the optimising compiler of the SpiderMonkey JavaScript engine
  (\<open>src/ion\<close>), at the commit this repository holds. The repository is the whole engine; the
  development is about the parts of the compiler that have a self-contained algorithmic contract.

  \<^bold>\<open>The program.\<close> Ion compiles a script in passes. \<open>IonBuilder\<close> turns bytecode into a graph of basic
  blocks in SSA form (MIR). Analyses simplify the graph: folding and value numbering, range analysis,
  loop-invariant code motion, dead code elimination. Lowering gives each instruction operands that are
  virtual registers with constraints (LIR). A register allocator works on live intervals and gives
  every virtual register registers and stack slots, inserting groups of parallel moves. The code
  generator emits machine code and, beside it, three tables: snapshots, from which a failed
  speculation rebuilds interpreter frames; safepoints, which tell the garbage collector where the
  roots of a frame are; and constants. At a bailout the snapshot iterator reads those tables.

  \<^bold>\<open>Conventions.\<close> \<open>uint32\<close>, \<open>int32\<close>, \<open>uint8\<close> and pointers are words of their width, read with \<open>unat\<close> or
  \<open>sint\<close>; counts of container elements are \<open>nat\<close>. An operation guarded by \<open>JS_ASSERT\<close> returns an
  \<open>option\<close>: \<open>None\<close> is the assertion failing, and a theorem that an operation returns \<open>Some\<close> says that no
  assertion fires. A failing request for memory is a value of the result where the code handles it, but for
  the graph of MIR (blocks, nodes, uses, inputs of phis), the worklist of phis, \<open>addRangeAtHead\<close> and
  \<open>addInterval\<close>, where vectors are taken to grow. Objects that the
  code links by pointers live in explicit stores (functions from addresses to records). Loops are
  structural recursion, or recursion with a termination proof; where a bound is needed it is the
  measure of the loop. There is no fuel whose exhaustion is not excluded by a theorem.

  \<^bold>\<open>Theories and the code they model.\<close>

  \<^item> \<open>Ion_Prelude\<close>: machine integers, \<open>js_assert\<close>, the fold \<open>mfold\<close> that models loops whose body may
    fail, and facts on bits of words that the components share.

  \<^item> \<open>Bit_Set\<close> (\<open>ion/BitSet.h\<close>, \<open>ion/BitSet.cpp\<close>): the bit set and its iterator. The locale
    \<open>bounded_set\<close> states what a set of small numbers promises its clients; bit sets interpret it here,
    register sets in \<open>Register_Sets\<close>. Iteration visits the members once, in order.

  \<^item> \<open>Compact_Buffer\<close> (\<open>ion/CompactBuffer.h\<close>): the byte streams of snapshots and safepoints. The locale
    \<open>stream_codec\<close> states that a reader inverts a writer inside any stream; the variable-width unsigned
    and signed integers, the fixed words and the bytes interpret it, and the encoders of the next
    theories use only its laws.

  \<^item> \<open>Snapshots\<close> (\<open>ion/Snapshots.cpp\<close>, \<open>ion/SnapshotWriter.h\<close>, \<open>ion/SnapshotReader.h\<close>): writer and reader of
    snapshots, with the round trip of a whole snapshot. \<open>Snapshot_Iterator\<close> (\<open>ion/IonFrames.cpp\<close>,
    \<open>ion/IonFrames.h\<close>) evaluates decoded slots against the saved registers, the bytes of the frame and the
    constants. \<open>Snapshot_Encoding\<close> (\<open>ion/shared/CodeGenerator-shared.cpp\<close>) chooses the slots for the operands of
    a resume point; what a bailout reads is shown to be what the generated code had in its allocations.

  \<^item> \<open>Register_Sets\<close> (\<open>ion/RegisterSets.h\<close>): typed register sets, their union type and iterators.

  \<^item> \<open>Safepoints\<close> (\<open>ion/Safepoints.cpp\<close>): writer and reader of safepoints, with the round trip.

  \<^item> \<open>Stack_Slots\<close> (\<open>ion/StackSlotAllocator.h\<close>): the allocator of spill slots as a step relation, with the
    invariant that live and free slots partition the frame.

  \<^item> \<open>Move_Resolver\<close> (\<open>ion/MoveResolver.cpp\<close>) orders the moves of a group; \<open>Move_Emitter\<close>
    (\<open>ion/shared/MoveEmitter-x86-shared.cpp\<close>) emits x86 and x64 instructions for them. The first is shown to
    implement the parallel assignment on abstract locations, the second to refine it on a machine with
    registers and memory.

  \<^item> \<open>Mir_Types\<close> (\<open>ion/TypeOracle.h\<close>, \<open>ion/MIR.h\<close>): MIR types and alias sets. \<open>Lir\<close> (\<open>ion/LIR.h\<close>): the packed
    words of \<open>LAllocation\<close>, \<open>LUse\<close> and \<open>LDefinition\<close>.

  \<^item> \<open>Live_Intervals\<close> (\<open>ion/LinearScan.h\<close>, \<open>ion/LinearScan.cpp\<close>): code positions, live ranges, the operations of
    \<open>LiveInterval\<close> with their caches, and the intervals of a virtual register, related to the set of
    positions that an interval covers.

  \<^item> \<open>Mir_Nodes\<close> (\<open>ion/MIR.h\<close>, \<open>ion/MIR.cpp\<close>): nodes and use chains, with the invariant that ties the two
    directions together. \<open>Mir_Blocks\<close> (\<open>ion/MIRGraph.cpp\<close>, \<open>ion/MIRGraph.h\<close>, \<open>ion/CompileInfo.h\<close>): basic blocks, their
    abstract stack, phis and edges.

  \<^item> \<open>Ieee_Double\<close>: binary64 as the C++ sources use it, on 64-bit patterns, with exact values in the
    rationals. \<open>Numeric_Conversions\<close> (\<open>vm/NumericConversions.h\<close>, \<open>jslibmath.h\<close>, \<open>jstypedarray.cpp\<close>): conversions
    of doubles to integers by bit manipulation, shown equal to the definitions of the ECMAScript standard.

  \<^item> \<open>Mir_Folding\<close> (\<open>ion/MIR.cpp\<close>): evaluation of constant operands and every \<open>foldsTo\<close>, shown to preserve the
    JavaScript value where they do, and shown not to in four cases.

  \<^item> \<open>Int32_Codegen\<close> (\<open>ion/shared/CodeGenerator-x86-shared.cpp\<close>): the emitted int32 arithmetic, bitwise and shift
    instructions as functions of their operand values, with bailouts and traps; with its checks in place
    the code returns the int32 of the JavaScript result, -0 and rounding included, or bails out.

  \<^item> \<open>Range_Analysis\<close> (\<open>ion/RangeAnalysis.cpp\<close>, \<open>ion/MIR.cpp\<close>): the passes that let the code generator omit
    checks, and the invariant that accounts for every omission when both run on a graph as it was built (the
    compiler runs value numbering, dead code elimination and loop invariant code motion between them).
    \<open>Block_Code\<close> (\<open>ion/Lowering.cpp\<close>) composes
    the passes with the lowering and the code of a block and relates a run to the JavaScript values of
    the block; the truncation of divisions and of deep sums, where this fails, is shown on two programs.

  \<^item> \<open>Phi_Types\<close>, \<open>Phi_Conversions\<close>, \<open>Type_Policies\<close> and \<open>Type_Analysis\<close> (\<open>ion/IonAnalysis.cpp\<close>,
    \<open>ion/TypePolicy.cpp\<close>): the type analysis. The first holds the guessing of the types of phis and the worklist
    that propagates them, with the measure that makes it end; the second the conversion of the inputs of phis;
    the third the policies that box, unbox and convert the operands of instructions, with the types each copes
    with and leaves; the last composes them over a graph, after which every phi has inputs of its own type
    and every operand a type its instruction wants. The attributes \<open>IonBuilder\<close> gives an instruction are a
    parameter of the policies.

  \<^item> \<open>Dominators\<close> (\<open>ion/IonAnalysis.cpp\<close>): renumbering of the blocks, immediate dominators by the iteration of
    Cooper, Harvey and Kennedy with the start block and the OSR block as roots, and the dominator tree. The
    iteration is a partial function, and is shown to end; its result is related to dominance by paths.

  \<^bold>\<open>What the lemmas show.\<close> Each theory proves the well-formedness invariant of its component for every
  operation, the functional behaviour of the operations on all branches, and then the properties that
  carry a claim id, which are few and each about the component as a whole. Round trips (snapshots,
  safepoints, integers, packed words) are stated for the encoders and decoders as they are composed in
  the code. Optimised routines are equal to a reference definition (\<open>covers\<close> and membership, \<open>ToInt32\<close> and ES5,
  \<open>intersect\<close> and the least common position). Where the code does not do what it means to, the theorem
  states the exact condition of the fault or exhibits it on a concrete state.

  \<^bold>\<open>Parameters.\<close> Code outside the repository is an argument of the definitions: \<open>MOZ_DOUBLE_IS_INT32\<close> of mfbt
  (\<open>is_int32_spec\<close> states its documentation), \<open>js_bitscan_ctz32\<close> and \<open>JS_FLOOR_LOG2\<close>
  (\<open>is_ctz\<close>, \<open>is_floor_log2\<close>), \<open>MacroAssembler::actualOffset\<close>, the success of requests for memory and, in folding,
  the conversion of strings to numbers.

  \<^bold>\<open>Not modelled.\<close> \<open>IonBuilder\<close> and type inference, which depend on the interpreter's object model; the
  assemblers, inline caches and VM calls, whose meaning is that of the machine and of the object model;
  the ARM back end; the spewers, which only print; and everything outside the compiler: front end,
  interpreter, garbage collector, the older method JIT, imported libraries. The components list of the
  manifest names each with its reason.
\<close>

end
